(* ===== verification/Prelude.thy ===== *)
theory Prelude
  imports Main "HOL-Library.Word" "HOL-Library.Monad_Syntax"
begin

text \<open>
  Shared vocabulary of the development.

  \<^item> Types: \<open>u32\<close> is \<^verbatim>\<open>unsigned long\<close> / \<^verbatim>\<open>unsigned int\<close> / a pointer of the i386 target,
    \<open>u8\<close> a byte, \<open>u64\<close> an \<^verbatim>\<open>unsigned long long\<close>. A plain \<^verbatim>\<open>int\<close> of the source whose range does
    not matter is an \<open>int\<close>; a \<^verbatim>\<open>short\<close> is an \<open>int\<close> that every store brings back into 16 bits
    with \<open>to_short\<close>.
  \<^item> Failure: a kernel operation has type \<open>_ \<Rightarrow> (_ \<times> _) option\<close>. \<open>None\<close> means that the code
    does not come back: an \<^verbatim>\<open>assert\<close> that fails (\<^verbatim>\<open>panic\<close>), an access through a null or
    dangling pointer, an index outside its array, or a loop that never ends.
    Error codes the C functions return are ordinary values.
  \<^item> Collections of rewrite rules: \<open>kstate_simps\<close> (frame facts of the kernel operations),
    \<open>queue_simps\<close> (facts on the linked queue).
\<close>

named_theorems kstate_simps
named_theorems queue_simps

type_synonym u8 = "8 word"
type_synonym u16 = "16 word"
type_synonym u32 = "32 word"
type_synonym u64 = "64 word"

section \<open>Signed shorts\<close>

definition SHRT_MIN :: int where
  "SHRT_MIN = -32768"

definition SHRT_MAX :: int where
  "SHRT_MAX = 32767"

text \<open>Conversion of an \<^verbatim>\<open>int\<close> to a \<^verbatim>\<open>short int\<close>: two's complement, 16 bits.\<close>

definition to_short :: "int \<Rightarrow> int" where
  "to_short x = (x + 32768) mod 65536 - 32768"

lemma to_short_bounds: "SHRT_MIN \<le> to_short x \<and> to_short x \<le> SHRT_MAX"
  by (auto simp: to_short_def SHRT_MIN_def SHRT_MAX_def)

lemma to_short_id [simp]: "SHRT_MIN \<le> x \<Longrightarrow> x \<le> SHRT_MAX \<Longrightarrow> to_short x = x"
  by (simp add: to_short_def SHRT_MIN_def SHRT_MAX_def)

lemma to_short_idem [simp]: "to_short (to_short x) = to_short x"
  using to_short_bounds by simp

lemma neg_mod_eq: "- m \<le> x \<Longrightarrow> x < 0 \<Longrightarrow> x mod m = x + (m :: int)"
proof -
  assume "- m \<le> x" and "x < 0"
  then have "(x + m) mod m = x + m" by (intro mod_pos_pos_trivial) simp_all
  then show ?thesis by simp
qed

section \<open>Words\<close>

lemma u32_less: "unat (w :: u32) < 4294967296"
proof -
  have "unat w < 2 ^ LENGTH(32)" by (rule unsigned_less)
  then show ?thesis by simp
qed

lemma sint_small: "unat (w :: u32) < 2 ^ 31 \<Longrightarrow> sint w = int (unat w)"
proof -
  assume "unat w < 2 ^ 31"
  then have "int (unat w) < int (2 ^ 31)" by (simp only: of_nat_less_iff)
  then have "signed_take_bit 31 (uint w) = uint w"
    by (intro signed_take_bit_int_eq_self order.trans [OF _ uint_ge_0 [of w]]) simp_all
  then show ?thesis by (simp add: sint_uint)
qed

section \<open>Options\<close>

text \<open>An assertion: the rest of the code runs only if the condition holds.\<close>

definition assert_that :: "bool \<Rightarrow> unit option" where
  "assert_that b = (if b then Some () else None)"

lemma assert_that_simps [simp]:
  "assert_that True = Some ()" "assert_that False = None"
  by (simp_all add: assert_that_def)

lemma assert_that_eq_Some [simp]: "assert_that b = Some u \<longleftrightarrow> b"
  by (simp add: assert_that_def)

lemma bind_assert_that [simp]: "Option.bind (assert_that b) f = (if b then f () else None)"
  by (simp add: assert_that_def)

section \<open>Lists\<close>

lemma distinct_butlast_last: "distinct xs \<Longrightarrow> xs \<noteq> [] \<Longrightarrow> last xs \<notin> set (butlast xs)"
  by (metis append_butlast_last_id distinct_append disjoint_iff list.set_intros(1))

lemma set_butlast_distinct: "distinct xs \<Longrightarrow> xs \<noteq> [] \<Longrightarrow> set (butlast xs) = set xs - {last xs}"
  by (metis append_butlast_last_id distinct_butlast_last Diff_insert_absorb Un_insert_right
      append_Nil2 list.simps(15) set_append)

lemma sorted_map_last:
  "sorted (map f xs) \<Longrightarrow> x \<in> set xs \<Longrightarrow> (f x :: 'b::linorder) \<le> f (last xs)"
  by (induction xs) auto

lemma sorted_map_butlast: "sorted (map f xs) \<Longrightarrow> sorted (map (f :: 'a \<Rightarrow> 'b::linorder) (butlast xs))"
  by (metis map_butlast sorted_butlast)

lemma filter_neq_idem: "x \<notin> set xs \<Longrightarrow> filter (\<lambda>y. y \<noteq> x) xs = xs"
  by (induction xs) auto

lemma remove1_eq_filter: "distinct xs \<Longrightarrow> remove1 x xs = filter (\<lambda>y. y \<noteq> x) xs"
  by (simp add: distinct_remove1_removeAll removeAll_filter_not_eq eq_commute)

lemma remove1_last: "distinct xs \<Longrightarrow> xs \<noteq> [] \<Longrightarrow> remove1 (last xs) xs = butlast xs"
  by (metis append_Nil2 append_butlast_last_id distinct_butlast_last remove1.simps(1,2) remove1_append)

end
