(* ===== verification/Div64.thy ===== *)
theory Div64
  imports Prelude
begin

text \<open>
  Division of 64-bit numbers (\<^verbatim>\<open>shared/div64.c\<close>, \<^verbatim>\<open>shared/div64.h\<close>). The inline assembly is modelled by the
  instructions it consists of: \<open>shrd\<close> shifts a register right and fills it from a second one, \<open>divl\<close>
  divides a pair of registers and raises a divide error (\<open>None\<close>) when the quotient does not fit in
  32 bits, and shift counts are taken modulo 32.
\<close>

unbundle bit_operations_syntax

section \<open>Instructions\<close>

text \<open>The number of the highest bit set, which \<^verbatim>\<open>bsr\<close> leaves undefined for 0.\<close>

fun bsr_nat :: "nat \<Rightarrow> nat" where
  "bsr_nat n = (if n < 2 then 0 else bsr_nat (n div 2) + 1)"

declare bsr_nat.simps [simp del]

definition hard_bsr :: "u32 \<Rightarrow> nat option" where
  "hard_bsr n = (if n = 0 then None else Some (bsr_nat (unat n)))"

definition shrd :: "u32 \<Rightarrow> u32 \<Rightarrow> nat \<Rightarrow> u32" where
  "shrd x1 x0 n = of_nat ((unat x1 * 2 ^ 32 + unat x0) div 2 ^ (n mod 32))"

definition shr :: "u32 \<Rightarrow> nat \<Rightarrow> u32" where
  "shr x n = drop_bit (n mod 32) x"

definition rshift64 :: "u32 \<Rightarrow> u32 \<Rightarrow> nat \<Rightarrow> u32 \<times> u32" where
  "rshift64 x1 x0 n =
     (let x0 = shrd x1 x0 n; x1 = shr x1 n
      in if bit n 5 then (0, x1) else (x1, x0))"

definition rshift64_32 :: "u32 \<Rightarrow> u32 \<Rightarrow> nat \<Rightarrow> u32" where
  "rshift64_32 x1 x0 n = (let x0 = shrd x1 x0 n in if bit n 5 then x1 else x0)"

text \<open>The remainder and the quotient, in the order of the registers \<^verbatim>\<open>edx\<close> and \<^verbatim>\<open>eax\<close>.\<close>

definition divl :: "u32 \<Rightarrow> u32 \<Rightarrow> u32 \<Rightarrow> (u32 \<times> u32) option" where
  "divl x1 x0 y =
     (let n = unat x1 * 2 ^ 32 + unat x0 in
      if y = 0 \<or> n div unat y \<ge> 2 ^ 32 then None
      else Some (of_nat (n mod unat y), of_nat (n div unat y)))"

section \<open>Division\<close>

function div_fix :: "u64 \<Rightarrow> u64 \<Rightarrow> u32 \<Rightarrow> (u32 \<times> u64) option" where
  "div_fix r y x0 =
     (if y = 0 then None
      else if r \<ge> y then div_fix (r - y) y (x0 + 1) else Some (x0, r))"
  by pat_completeness auto
termination
proof (relation "measure (\<lambda>(r, y, _). unat r)")
  fix r y :: u64 and x0 :: u32
  assume "y \<noteq> 0" "y \<le> r"
  then have "unat (r - y) = unat r - unat y" "0 < unat y" "unat y \<le> unat r"
    by (auto simp: unat_sub word_le_nat_alt unat_gt_0)
  then show "((r - y, y, x0 + 1), r, y, x0) \<in> measure (\<lambda>(r, y, _). unat r)" by simp
qed simp

declare div_fix.simps [simp del]

definition do_div64 :: "u64 \<Rightarrow> u64 \<Rightarrow> (u64 \<times> u64) option" where
  "do_div64 x y =
     (let y1 = ucast (drop_bit 32 y) :: u32;
          y0 = ucast (y AND 0xffffffff) :: u32;
          x1 = ucast (drop_bit 32 x) :: u32;
          x0 = ucast (x AND 0xffffffff) :: u32
      in if y1 \<noteq> 0 then do {
           n \<leftarrow> hard_bsr y1;
           let l = n + 1;
           let y0 = rshift64_32 y1 y0 l;
           let (x1, x0) = rshift64 x1 x0 l;
           (x1, x0) \<leftarrow> divl x1 x0 (y0 + 1);
           let r = x - y * ucast x0;
           (x0, r) \<leftarrow> div_fix r y x0;
           Some (ucast x0, r) }
         else if x1 < y0 then do {
           (x1, x0) \<leftarrow> divl x1 x0 y0;
           Some (ucast x0, ucast x1) }
         else if y0 \<noteq> 0 then do {
           (x2, x1) \<leftarrow> divl 0 x1 y0;
           (x2, x0) \<leftarrow> divl x2 x0 y0;
           Some (push_bit 32 (ucast x1) + ucast x0, ucast x2) }
         else Some (0, x))"

definition div64 :: "u64 \<Rightarrow> u64 \<Rightarrow> u64 option" where
  "div64 x y = map_option fst (do_div64 x y)"

definition mod64 :: "u64 \<Rightarrow> u64 \<Rightarrow> u64 option" where
  "mod64 x y = map_option snd (do_div64 x y)"

section \<open>Correctness\<close>

lemma bsr_nat_bounds: "0 < n \<Longrightarrow> 2 ^ bsr_nat n \<le> n \<and> n < 2 ^ (bsr_nat n + 1)"
proof (induction n rule: bsr_nat.induct)
  case (1 n)
  show ?case
  proof (cases "n < 2")
    case True
    with 1 show ?thesis by (simp add: bsr_nat.simps [of n])
  next
    case False
    then have "2 ^ bsr_nat (n div 2) \<le> n div 2" "n div 2 < 2 ^ (bsr_nat (n div 2) + 1)"
      using 1 by auto
    moreover define k :: nat where "k = 2 ^ bsr_nat (n div 2)"
    ultimately have "2 * k \<le> n" "n < 2 * (2 * k)" by auto
    with False show ?thesis by (simp add: bsr_nat.simps [of n] k_def)
  qed
qed

lemma bsr_nat_less: "0 < n \<Longrightarrow> n < 2 ^ 32 \<Longrightarrow> bsr_nat n < 32"
  using bsr_nat_bounds [of n] by (meson le_less_trans one_less_numeral_iff power_less_imp_less_exp semiring_norm(76))

lemma u64_less: "unat (w :: u64) < 2 ^ 64"
proof -
  have "unat w < 2 ^ LENGTH(64)" by (rule unsigned_less)
  then show ?thesis by simp
qed

lemma u32_less': "unat (w :: u32) < 2 ^ 32"
  using u32_less [of w] by simp

lemma unat_drop_div: "unat (drop_bit k w) = unat w div 2 ^ k"
  unfolding unat_drop_bit_eq by (rule drop_bit_eq_div)

lemma high_half: "unat (ucast (drop_bit 32 (x :: u64)) :: u32) = unat x div 2 ^ 32"
proof -
  have "unat x div 2 ^ 32 < 2 ^ 32" using u64_less [of x] by (simp add: less_mult_imp_div_less)
  then show ?thesis
    unfolding unsigned_ucast_eq unat_drop_div by (simp add: take_bit_nat_eq_self)
qed

lemma low_half: "unat (ucast (x AND 0xffffffff :: u64) :: u32) = unat x mod 2 ^ 32"
proof -
  have "(0xffffffff :: u64) = mask 32" by (simp add: mask_eq_exp_minus_1)
  then have "x AND 0xffffffff = take_bit 32 x" by (simp only: take_bit_eq_mask)
  then show ?thesis
    by (simp only: unsigned_ucast_eq unsigned_take_bit_eq) (simp add: take_bit_eq_mod)
qed

lemma unat_of_nat32: "n < 2 ^ 32 \<Longrightarrow> unat (of_nat n :: u32) = n"
  by (simp add: unat_of_nat)

lemma unat_of_nat64: "n < 2 ^ 64 \<Longrightarrow> unat (of_nat n :: u64) = n"
  by (simp add: unat_of_nat)

lemma unat_ucast64 [simp]: "unat (ucast (w :: u32) :: u64) = unat w"
  using u32_less' [of w] by (simp add: unsigned_ucast_eq take_bit_nat_eq_self)

lemma rshift64_32_eq:
  assumes "unat x1 * 2 ^ 32 + unat x0 = n" and "0 < l" and "l \<le> 32" and "n div 2 ^ l < 2 ^ 32"
  shows "unat (rshift64_32 x1 x0 l) = n div 2 ^ l"
proof (cases "l = 32")
  case True
  then have "rshift64_32 x1 x0 l = x1" by (simp add: rshift64_32_def bit_iff_odd)
  moreover have "n div 2 ^ 32 = unat x1" using assms(1) u32_less' [of x0] by auto
  ultimately show ?thesis using True by simp
next
  case False
  with assms have l: "l < 32" "l mod 32 = l" "\<not> bit l 5"
    by (auto simp: bit_iff_odd)
  then show ?thesis using assms by (simp add: rshift64_32_def shrd_def unat_of_nat32)
qed

lemma rshift64_eq:
  assumes "unat x1 * 2 ^ 32 + unat x0 = n" and "0 < l" and "l \<le> 32"
  shows "unat (fst (rshift64 x1 x0 l)) * 2 ^ 32 + unat (snd (rshift64 x1 x0 l)) = n div 2 ^ l"
proof (cases "l = 32")
  case True
  then have "rshift64 x1 x0 l = (0, x1)"
    by (simp add: rshift64_def shr_def bit_iff_odd)
  moreover have "n div 2 ^ 32 = unat x1" using assms(1) u32_less' [of x0] by auto
  ultimately show ?thesis using True by simp
next
  case False
  with assms have l: "l < 32" "l mod 32 = l" "\<not> bit l 5" by (auto simp: bit_iff_odd)
  have "unat x1 div 2 ^ l = n div 2 ^ l div 2 ^ 32"
  proof -
    have "n div 2 ^ 32 = unat x1" using assms(1) u32_less' [of x0] by auto
    then have "unat x1 div 2 ^ l = n div (2 ^ 32 * 2 ^ l)" by (simp add: div_mult2_eq)
    also have "\<dots> = n div 2 ^ l div 2 ^ 32" by (simp add: div_mult2_eq mult.commute)
    finally show ?thesis .
  qed
  moreover have "unat (of_nat (n div 2 ^ l) :: u32) = n div 2 ^ l mod 2 ^ 32"
    by (simp add: unat_of_nat)
  moreover have "unat (drop_bit l x1) = unat x1 div 2 ^ l"
    by (rule unat_drop_div)
  moreover have "rshift64 x1 x0 l = (drop_bit l x1, of_nat (n div 2 ^ l))"
    unfolding rshift64_def shr_def shrd_def assms(1) l(2) using l(3) by (simp only: Let_def if_False)
  ultimately show ?thesis
    by (simp only: fst_conv snd_conv div_mult_mod_eq)
qed

lemma divl_eq:
  assumes "unat x1 * 2 ^ 32 + unat x0 = n" and "y \<noteq> 0" and "n div unat y < 2 ^ 32"
  shows "\<exists>r q. divl x1 x0 y = Some (r, q) \<and> unat q = n div unat y \<and> unat r = n mod unat y"
proof -
  have "n mod unat y < unat y" using assms(2) by (simp add: unat_gt_0)
  then have "n mod unat y < 2 ^ 32" using u32_less' [of y] by linarith
  with assms show ?thesis by (simp add: divl_def unat_of_nat32 del: power_numeral)
qed

lemma div_fix_eq:
  assumes "y \<noteq> 0" and "unat q * unat y + unat r = unat x" and "unat x div unat y < 2 ^ 32"
  shows "\<exists>q' r'. div_fix r y q = Some (q', r') \<and> unat q' = unat x div unat y \<and> unat r' = unat x mod unat y"
  using assms
proof (induction r y q rule: div_fix.induct)
  case (1 r y q)
  have y: "0 < unat y" using "1.prems"(1) by (simp add: unat_gt_0)
  show ?case
  proof (cases "r \<ge> y")
    case True
    then have sub: "unat (r - y) = unat r - unat y" "unat y \<le> unat r" by (simp_all add: unat_sub word_le_nat_alt)
    have "(unat q + 1) * unat y \<le> unat x" using "1.prems"(2) sub(2) by simp
    then have "unat q + 1 \<le> unat x div unat y" using y by (simp add: less_eq_div_iff_mult_less_eq)
    then have "unat q + 1 < 2 ^ 32" using "1.prems"(3) by linarith
    then have q: "unat (q + 1) = unat q + 1" by (simp add: unat_word_ariths unat_of_nat)
    have "unat (q + 1) * unat y + unat (r - y) = unat x"
      using "1.prems"(2) sub q by simp
    from "1.IH" [OF _ True "1.prems"(1) this "1.prems"(3)] "1.prems"(1) True
    show ?thesis by (simp add: div_fix.simps [of r y q])
  next
    case False
    then have "unat r < unat y" by (simp add: word_le_nat_alt)
    then have "unat x div unat y = unat q" "unat x mod unat y = unat r"
      using "1.prems"(2) y by (auto simp flip: "1.prems"(2))
    with False "1.prems"(1) show ?thesis by (simp add: div_fix.simps [of r y q])
  qed
qed

text \<open>The divisors for which the estimate of the quotient divides by zero: their 32 leading bits are ones.\<close>

definition traps :: "u64 \<Rightarrow> bool" where
  "traps y \<longleftrightarrow> (let y1 = unat y div 2 ^ 32 in y1 \<noteq> 0 \<and> unat y div 2 ^ (bsr_nat y1 + 1) = 2 ^ 32 - 1)"

lemma leading_bits:
  assumes "Y div 2 ^ 32 \<noteq> 0" and "Y < 2 ^ 64"
  defines "l \<equiv> bsr_nat (Y div 2 ^ 32) + 1"
  shows "0 < l" "l \<le> 32" "Y div 2 ^ l < 2 ^ 32" "2 ^ 31 \<le> Y div 2 ^ l"
proof -
  let ?y1 = "Y div 2 ^ 32"
  have y1: "?y1 < 2 ^ 32" using assms(2) by (simp add: less_mult_imp_div_less)
  have b: "2 ^ bsr_nat ?y1 \<le> ?y1" "?y1 < 2 ^ l" using bsr_nat_bounds [of ?y1] assms(1) by (auto simp: l_def)
  show "0 < l" "l \<le> 32" using bsr_nat_less [of ?y1] assms(1) y1 by (auto simp: l_def)
  have "Y < 2 ^ l * 2 ^ 32" using b(2) by (simp add: less_mult_imp_div_less div_less_iff_less_mult)
  then show "Y div 2 ^ l < 2 ^ 32" by (simp add: less_mult_imp_div_less mult.commute)
  have "2 ^ (l - 1) * 2 ^ 32 \<le> Y"
    using b(1) by (simp add: l_def less_eq_div_iff_mult_less_eq)
  moreover have "(2::nat) ^ (l - 1) * 2 ^ 32 = 2 ^ 31 * 2 ^ l"
    by (simp add: l_def)
  ultimately show "2 ^ 31 \<le> Y div 2 ^ l" by (simp add: less_eq_div_iff_mult_less_eq)
qed

lemma estimate_low:
  assumes "0 < (2::nat) ^ l"
  shows "X div 2 ^ l div (Y div 2 ^ l + 1) * Y \<le> (X :: nat)"
proof -
  let ?q = "X div 2 ^ l div (Y div 2 ^ l + 1)"
  have "Y < (Y div 2 ^ l + 1) * 2 ^ l"
    using dividend_less_div_times [OF assms, of Y] by simp
  then have "?q * Y \<le> ?q * ((Y div 2 ^ l + 1) * 2 ^ l)" by simp
  also have "\<dots> = ?q * (Y div 2 ^ l + 1) * 2 ^ l" by (simp only: mult.assoc)
  also have "\<dots> \<le> X div 2 ^ l * 2 ^ l" by (intro mult_right_mono div_times_less_eq_dividend) simp
  also have "\<dots> \<le> X" by (rule div_times_less_eq_dividend)
  finally show ?thesis .
qed

text \<open>The long divisor: at least \<open>2 ^ 32\<close>.\<close>

lemma do_div64_long:
  assumes "unat y div 2 ^ 32 \<noteq> 0"
  shows "do_div64 x y = (if traps y then None else Some (x div y, x mod y))"
proof -
  define X Y where "X = unat x" and "Y = unat y"
  define y1 x1 :: u32 where "y1 = ucast (drop_bit 32 y)" and "x1 = ucast (drop_bit 32 x)"
  define y0 x0 :: u32 where "y0 = ucast (y AND 0xffffffff)" and "x0 = ucast (x AND 0xffffffff)"
  define l where "l = bsr_nat (Y div 2 ^ 32) + 1"
  define d where "d = rshift64_32 y1 y0 l"
  define h where "h = rshift64 x1 x0 l"
  have halves: "unat y1 * 2 ^ 32 + unat y0 = Y" "unat x1 * 2 ^ 32 + unat x0 = X"
    unfolding y1_def y0_def x1_def x0_def high_half low_half X_def Y_def by (rule div_mult_mod_eq)+
  have XY: "X < 2 ^ 64" "Y < 2 ^ 64" by (simp_all only: X_def Y_def u64_less)
  have Y: "Y div 2 ^ 32 \<noteq> 0" unfolding Y_def by (rule assms)
  have y1: "unat y1 = Y div 2 ^ 32" "y1 \<noteq> 0"
    using Y unfolding y1_def Y_def high_half [symmetric] by auto
  note l = leading_bits [OF Y XY(2), folded l_def]
  have d: "unat d = Y div 2 ^ l" unfolding d_def by (rule rshift64_32_eq [OF halves(1) l(1,2,3)])
  have h: "unat (fst h) * 2 ^ 32 + unat (snd h) = X div 2 ^ l"
    unfolding h_def by (rule rshift64_eq [OF halves(2) l(1,2)])
  have run: "do_div64 x y = do {
      (x1, x0) \<leftarrow> divl (fst h) (snd h) (d + 1);
      (x0, r) \<leftarrow> div_fix (x - y * ucast x0) y x0;
      Some (ucast x0, r) }"
    using y1 unfolding do_div64_def y1_def [symmetric] y0_def [symmetric] x1_def [symmetric] x0_def [symmetric]
    by (simp add: hard_bsr_def l_def d_def h_def split_def Let_def)
  have trap: "traps y \<longleftrightarrow> unat d = 2 ^ 32 - 1"
    using Y by (simp only: traps_def Let_def d l_def Y_def) simp
  show ?thesis
  proof (cases "traps y")
    case True
    then have "d + 1 = 0" using trap by (simp add: word_unat_eq_iff unat_word_ariths)
    then show ?thesis using True run by (simp add: divl_def)
  next
    case False
    then have d1: "unat (d + 1) = Y div 2 ^ l + 1"
      using d trap l(3) by (simp add: unat_word_ariths unat_of_nat)
    then have nz: "d + 1 \<noteq> 0" by (metis Suc_eq_plus1 nat.distinct(1) unat_0)
    define q where "q = X div 2 ^ l div (Y div 2 ^ l + 1)"
    have qY: "q * Y \<le> X" unfolding q_def by (rule estimate_low) simp
    have "0 < Y" using Y by (cases Y) auto
    have XdY: "X div Y < 2 ^ 32"
    proof -
      have "2 ^ 32 \<le> Y" using Y by (simp add: div_eq_0_iff)
      then have "X < 2 ^ 32 * Y" using XY(1) by (simp add: order.strict_trans2)
      then show ?thesis by (rule less_mult_imp_div_less)
    qed
    have q: "q \<le> X div Y" using qY \<open>0 < Y\<close> by (simp add: less_eq_div_iff_mult_less_eq)
    obtain r0 q0 where q0: "divl (fst h) (snd h) (d + 1) = Some (r0, q0)" "unat q0 = q"
      using divl_eq [OF h nz] q XdY unfolding d1 q_def [symmetric] by auto
    have "unat (y * ucast q0 :: u64) = Y * q"
    proof -
      have "Y * q < 2 ^ 64" using qY XY(1) by (simp add: mult.commute)
      then show ?thesis using q0(2) by (simp add: unat_word_ariths Y_def)
    qed
    then have "unat (x - y * ucast q0) = X - Y * q"
      using qY by (subst unat_sub) (auto simp: word_le_nat_alt X_def mult.commute)
    then have "unat q0 * unat y + unat (x - y * ucast q0) = unat x"
      using qY q0(2) by (simp add: X_def Y_def mult.commute)
    moreover have "y \<noteq> 0" using \<open>0 < Y\<close> by (auto simp: Y_def)
    ultimately obtain q' r' where f: "div_fix (x - y * ucast q0) y q0 = Some (q', r')"
      "unat q' = X div Y" "unat r' = X mod Y"
      using div_fix_eq [of y q0 "x - y * ucast q0" x] XdY by (auto simp: X_def Y_def)
    have "ucast q' = x div y" "r' = x mod y"
      using f(2,3) by (auto simp: word_unat_eq_iff unat_div unat_mod X_def Y_def)
    then show ?thesis using False run q0 f by simp
  qed
qed

lemma do_div64_short:
  assumes "unat y div 2 ^ 32 = 0" and "y \<noteq> 0"
  shows "do_div64 x y = Some (x div y, x mod y)"
proof -
  define X Y where "X = unat x" and "Y = unat y"
  define x1 x0 y0 :: u32 where "x1 = ucast (drop_bit 32 x)" and "x0 = ucast (x AND 0xffffffff)"
    and "y0 = ucast (y AND 0xffffffff)"
  have Y: "Y < 2 ^ 32" "0 < Y" using assms by (simp_all add: Y_def div_eq_0_iff unat_gt_0)
  have y0: "unat y0 = Y" "y0 \<noteq> 0"
    using Y unfolding y0_def low_half Y_def by (simp, metis low_half mod_less unat_0 less_numeral_extra(3))
  have y1: "(ucast (drop_bit 32 y) :: u32) = 0"
    using assms(1) unfolding word_unat_eq_iff high_half by simp
  have x1: "unat x1 * 2 ^ 32 + unat x0 = X" "unat x1 = X div 2 ^ 32"
    unfolding x1_def x0_def high_half low_half X_def by (rule div_mult_mod_eq) simp
  have XY: "X < 2 ^ 64" by (simp only: X_def u64_less)
  have word: "of_nat n = w" if "unat w = n" for n and w :: u64 using that by auto
  show ?thesis
  proof (cases "x1 < y0")
    case True
    then have "X div 2 ^ 32 < Y" using x1 y0 by (simp add: word_less_nat_alt)
    then have "X div Y < 2 ^ 32"
      using Y by (metis div_less_iff_less_mult less_mult_imp_div_less mult.commute zero_less_numeral zero_less_power)
    then obtain r q where q: "divl x1 x0 y0 = Some (r, q)" "unat q = X div Y" "unat r = X mod Y"
      using divl_eq [OF x1(1) y0(2)] y0(1) by auto
    then have "ucast q = x div y" "ucast r = x mod y"
      by (simp_all add: word_unat_eq_iff unat_div unat_mod X_def Y_def)
    with q True show ?thesis
      unfolding do_div64_def y1 x1_def [symmetric] x0_def [symmetric] y0_def [symmetric] by simp
  next
    case False
    have "unat (0 :: u32) * 2 ^ 32 + unat x1 = unat x1" by simp
    moreover have "unat x1 div unat y0 < 2 ^ 32" using u32_less' [of x1] by (meson div_le_dividend le_less_trans)
    ultimately obtain r1 q1 where d1: "divl 0 x1 y0 = Some (r1, q1)" "unat q1 = unat x1 div Y" "unat r1 = unat x1 mod Y"
      using divl_eq [of 0 x1 "unat x1" y0] y0 by auto
    let ?n = "unat r1 * 2 ^ 32 + unat x0"
    have r1: "unat r1 < Y" using d1(3) Y by simp
    have "?n < Y * 2 ^ 32"
    proof -
      have "(unat r1 + 1) * 2 ^ 32 \<le> Y * 2 ^ 32" using r1 by (intro mult_right_mono) auto
      then show ?thesis using u32_less' [of x0] by simp
    qed
    then have "?n div Y < 2 ^ 32" by (simp add: less_mult_imp_div_less mult.commute)
    then obtain r2 q2 where d2: "divl r1 x0 y0 = Some (r2, q2)" "unat q2 = ?n div Y" "unat r2 = ?n mod Y"
      using divl_eq [OF refl y0(2), of r1 x0] y0(1) by auto
    have X: "X = unat q1 * 2 ^ 32 * Y + ?n"
    proof -
      have "unat x1 = unat q1 * Y + unat r1" unfolding d1(2,3) by (rule div_mult_mod_eq [symmetric])
      then show ?thesis using x1(1) by (simp add: algebra_simps)
    qed
    then have div: "X div Y = unat q1 * 2 ^ 32 + unat q2" and rem: "X mod Y = unat r2"
      using Y(2) d2(2,3) by simp_all
    have "unat (push_bit 32 (ucast q1) + ucast q2 :: u64) = unat q1 * 2 ^ 32 + unat q2"
    proof -
      have "push_bit 32 (ucast q1) = (of_nat (unat q1 * 2 ^ 32) :: u64)"
        by (simp add: push_bit_eq_mult)
      moreover have "unat q1 * 2 ^ 32 + unat q2 < 2 ^ 64"
        using div XY by (metis div_le_dividend le_less_trans)
      ultimately show ?thesis
        by (simp add: unat_word_ariths unat_of_nat)
    qed
    then have "push_bit 32 (ucast q1) + ucast q2 = x div y" "ucast r2 = x mod y"
      using div rem by (simp_all add: word_unat_eq_iff unat_div unat_mod X_def Y_def)
    with d1 d2 False y0 show ?thesis
      unfolding do_div64_def y1 x1_def [symmetric] x0_def [symmetric] y0_def [symmetric] by simp
  qed
qed

text \<open>
  C33. \<^verbatim>\<open>do_div64\<close> returns the quotient and the remainder of the division of 64-bit numbers, and 0 and the
  dividend for the divisor 0. The exception are divisors whose 32 leading bits are all ones: the
  estimate then divides by \<^verbatim>\<open>y0 + 1 = 0\<close> and the processor raises a divide error.
\<close>

theorem do_div64_correct:
  "do_div64 x y =
     (if y = 0 then Some (0, x) else if traps y then None else Some (x div y, x mod y))"
proof (cases "y = 0")
  case True
  then show ?thesis by (simp add: do_div64_def)
next
  case False
  show ?thesis
  proof (cases "unat y div 2 ^ 32 = 0")
    case True
    then have "\<not> traps y" by (simp add: traps_def)
    with do_div64_short [OF True False] False show ?thesis by simp
  next
    case long: False
    with do_div64_long [OF long] False show ?thesis by simp
  qed
qed

lemma bsr_nat_unique: "2 ^ k \<le> n \<Longrightarrow> n < 2 ^ (k + 1) \<Longrightarrow> bsr_nat n = k"
proof -
  assume n: "2 ^ k \<le> n" "n < 2 ^ (k + 1)"
  then have "0 < n" by (metis gr0I not_less zero_less_numeral zero_less_power)
  then have b: "2 ^ bsr_nat n \<le> n" "n < 2 ^ (bsr_nat n + 1)" using bsr_nat_bounds by blast+
  have "(2::nat) ^ k < 2 ^ (bsr_nat n + 1)" "(2::nat) ^ bsr_nat n < 2 ^ (k + 1)" using n b by linarith+
  then have "k < bsr_nat n + 1" "bsr_nat n < k + 1"
    by (metis one_less_numeral_iff power_less_imp_less_exp semiring_norm(76))+
  then show ?thesis by simp
qed

lemma traps_all_ones: "traps 0xffffffffffffffff"
proof -
  have "bsr_nat 4294967295 = 31" by (rule bsr_nat_unique) simp_all
  then show ?thesis by (simp add: traps_def)
qed

end
