(* ===== verification/Keymap.thy ===== *)
theory Keymap
  imports Prelude
begin

text \<open>
  The tables of the keyboard driver: the key maps and function strings of \<^verbatim>\<open>kernel/kbd_linux/defkeymap.c\<close>, the constants of
  \<^verbatim>\<open>linux/keyboard.h\<close>, and the translation of scan codes to key codes of \<^verbatim>\<open>kernel/kbd_linux/scancode.c\<close>.

  \<^item> Bytes, scan codes, key codes and key symbols are numbers of type \<open>int\<close>; no operation of these files leaves their range.
  \<^item> The second half of every key map, for the key codes from 128, is filled with the symbol \<^verbatim>\<open>0xf200\<close>.
  \<^item> The static variable \<^verbatim>\<open>prev_scancode\<close> and the two tables that \<^verbatim>\<open>setkeycode\<close> changes form the record \<open>scan_state\<close>.
\<close>

section \<open>Key symbols\<close>

definition KG_SHIFT :: nat where "KG_SHIFT = 0"
definition KG_CAPSSHIFT :: int where "KG_CAPSSHIFT = 8"
definition NR_SHIFT :: nat where "NR_SHIFT = 9"
definition NR_KEYS :: nat where "NR_KEYS = 256"
definition MAX_NR_KEYMAPS :: nat where "MAX_NR_KEYMAPS = 256"
definition KT_LATIN :: int where "KT_LATIN = 0"
definition KT_SPEC :: int where "KT_SPEC = 2"
definition KT_SHIFT :: int where "KT_SHIFT = 7"
definition KT_LETTER :: int where "KT_LETTER = 11"
definition KT_SLOCK :: int where "KT_SLOCK = 12"

definition KTYP :: "int \<Rightarrow> int" where "KTYP x = x div 256"
definition KVAL :: "int \<Rightarrow> int" where "KVAL x = x mod 256"

section \<open>Key maps\<close>

definition plain_map :: "int list" where
  "plain_map = [
    0xf200, 0xf01b, 0xf026, 0xf07b, 0xf022, 0xf027, 0xf028, 0xf02d, 0xf07d, 0xf05f, 0xf02f, 0xf040, 0xf029, 0xf03d, 0xf07f, 0xf009,
    0xfb61, 0xfb7a, 0xfb65, 0xfb72, 0xfb74, 0xfb79, 0xfb75, 0xfb69, 0xfb6f, 0xfb70, 0xf05e, 0xf024, 0xf201, 0xf702, 0xfb71, 0xfb73,
    0xfb64, 0xfb66, 0xfb67, 0xfb68, 0xfb6a, 0xfb6b, 0xfb6c, 0xfb6d, 0xf07c, 0xf02a, 0xf700, 0xf02a, 0xfb77, 0xfb78, 0xfb63, 0xfb76,
    0xfb62, 0xfb6e, 0xf02c, 0xf03b, 0xf03a, 0xf021, 0xf700, 0xf30c, 0xf703, 0xf020, 0xf207, 0xf100, 0xf101, 0xf102, 0xf103, 0xf104,
    0xf105, 0xf106, 0xf107, 0xf108, 0xf109, 0xf208, 0xf209, 0xf307, 0xf308, 0xf309, 0xf30b, 0xf304, 0xf305, 0xf306, 0xf30a, 0xf301,
    0xf302, 0xf303, 0xf300, 0xf310, 0xf206, 0xf200, 0xf03c, 0xf10a, 0xf10b, 0xf200, 0xf200, 0xf200, 0xf200, 0xf200, 0xf200, 0xf200,
    0xf30e, 0xf702, 0xf30d, 0xf200, 0xf701, 0xf205, 0xf114, 0xf603, 0xf118, 0xf601, 0xf602, 0xf117, 0xf600, 0xf119, 0xf115, 0xf116,
    0xf200, 0xf200, 0xf200, 0xf200, 0xf200, 0xf200, 0xf200, 0xf11d, 0xf200, 0xf200, 0xf200, 0xf200, 0xf200, 0xf200, 0xf200, 0xf200] @ replicate 128 0xf200"

definition shift_map :: "int list" where
  "shift_map = [
    0xf200, 0xf01b, 0xf031, 0xf032, 0xf033, 0xf034, 0xf035, 0xf036, 0xf037, 0xf038, 0xf039, 0xf030, 0xf05d, 0xf02b, 0xf07f, 0xf009,
    0xfb41, 0xfb5a, 0xfb45, 0xfb52, 0xfb54, 0xfb59, 0xfb55, 0xfb49, 0xfb4f, 0xfb50, 0xf03c, 0xf03e, 0xf201, 0xf702, 0xfb51, 0xfb53,
    0xfb44, 0xfb46, 0xfb47, 0xfb48, 0xfb4a, 0xfb4b, 0xfb4c, 0xfb4d, 0xf025, 0xf07e, 0xf700, 0xf023, 0xfb57, 0xfb58, 0xfb43, 0xfb56,
    0xfb42, 0xfb4e, 0xf03f, 0xf02e, 0xf02f, 0xf05c, 0xf700, 0xf30c, 0xf703, 0xf020, 0xf207, 0xf10c, 0xf10d, 0xf10e, 0xf10f, 0xf110,
    0xf111, 0xf112, 0xf113, 0xf11e, 0xf11f, 0xf208, 0xf203, 0xf307, 0xf308, 0xf309, 0xf30b, 0xf304, 0xf305, 0xf306, 0xf30a, 0xf301,
    0xf302, 0xf303, 0xf300, 0xf310, 0xf206, 0xf200, 0xf03e, 0xf120, 0xf121, 0xf200, 0xf200, 0xf200, 0xf200, 0xf200, 0xf200, 0xf200,
    0xf30e, 0xf702, 0xf30d, 0xf200, 0xf701, 0xf205, 0xf114, 0xf603, 0xf20b, 0xf601, 0xf602, 0xf117, 0xf600, 0xf20a, 0xf115, 0xf116,
    0xf200, 0xf200, 0xf200, 0xf200, 0xf200, 0xf200, 0xf200, 0xf11d, 0xf200, 0xf200, 0xf200, 0xf200, 0xf200, 0xf200, 0xf200, 0xf200] @ replicate 128 0xf200"

definition altgr_map :: "int list" where
  "altgr_map = [
    0xf200, 0xf200, 0xf200, 0xf07e, 0xf023, 0xf07b, 0xf05b, 0xf07c, 0xf060, 0xf05c, 0xf05e, 0xf040, 0xf05d, 0xf07d, 0xf200, 0xf200,
    0xfb61, 0xfb7a, 0xfb65, 0xfb72, 0xfb74, 0xfb79, 0xfb75, 0xfb69, 0xfb6f, 0xfb70, 0xf200, 0xf07e, 0xf201, 0xf702, 0xfb71, 0xfb73,
    0xfb64, 0xfb66, 0xfb67, 0xfb68, 0xfb6a, 0xfb6b, 0xfb6c, 0xfb6d, 0xf200, 0xf200, 0xf700, 0xf200, 0xfb77, 0xfb78, 0xfb63, 0xfb76,
    0xfb62, 0xfb6e, 0xf200, 0xf200, 0xf200, 0xf200, 0xf700, 0xf916, 0xf703, 0xf200, 0xf207, 0xf200, 0xf200, 0xf200, 0xf200, 0xf200,
    0xf200, 0xf200, 0xf200, 0xf200, 0xf200, 0xf914, 0xf202, 0xf911, 0xf912, 0xf913, 0xf917, 0xf90e, 0xf90f, 0xf910, 0xf918, 0xf90b,
    0xf90c, 0xf90d, 0xf90a, 0xf310, 0xf206, 0xf200, 0xf07c, 0xf200, 0xf200, 0xf200, 0xf200, 0xf200, 0xf200, 0xf200, 0xf200, 0xf200,
    0xf919, 0xf702, 0xf915, 0xf200, 0xf701, 0xf205, 0xf114, 0xf603, 0xf118, 0xf601, 0xf602, 0xf117, 0xf600, 0xf119, 0xf115, 0xf116,
    0xf200, 0xf200, 0xf200, 0xf200, 0xf200, 0xf200, 0xf200, 0xf11d, 0xf200, 0xf200, 0xf200, 0xf200, 0xf200, 0xf200, 0xf200, 0xf200] @ replicate 128 0xf200"

definition ctrl_map :: "int list" where
  "ctrl_map = [
    0xf200, 0xf200, 0xf200, 0xf000, 0xf01b, 0xf01c, 0xf01d, 0xf01e, 0xf01f, 0xf07f, 0xf200, 0xf200, 0xf01f, 0xf200, 0xf200, 0xf200,
    0xf001, 0xf01a, 0xf005, 0xf012, 0xf014, 0xf019, 0xf015, 0xf009, 0xf00f, 0xf010, 0xf01b, 0xf01d, 0xf201, 0xf702, 0xf011, 0xf013,
    0xf004, 0xf006, 0xf007, 0xf008, 0xf00a, 0xf00b, 0xf00c, 0xf00d, 0xf007, 0xf000, 0xf700, 0xf01c, 0xf017, 0xf018, 0xf003, 0xf016,
    0xf002, 0xf00e, 0xf200, 0xf200, 0xf200, 0xf07f, 0xf700, 0xf30c, 0xf703, 0xf000, 0xf207, 0xf122, 0xf123, 0xf124, 0xf125, 0xf126,
    0xf127, 0xf128, 0xf129, 0xf12a, 0xf12b, 0xf208, 0xf204, 0xf307, 0xf308, 0xf309, 0xf30b, 0xf304, 0xf305, 0xf306, 0xf30a, 0xf301,
    0xf302, 0xf303, 0xf300, 0xf310, 0xf206, 0xf200, 0xf200, 0xf12c, 0xf12d, 0xf200, 0xf200, 0xf200, 0xf200, 0xf200, 0xf200, 0xf200,
    0xf30e, 0xf702, 0xf30d, 0xf01c, 0xf701, 0xf205, 0xf114, 0xf603, 0xf118, 0xf601, 0xf602, 0xf117, 0xf600, 0xf119, 0xf115, 0xf116,
    0xf200, 0xf200, 0xf200, 0xf200, 0xf200, 0xf200, 0xf200, 0xf11d, 0xf200, 0xf200, 0xf200, 0xf200, 0xf200, 0xf200, 0xf200, 0xf200] @ replicate 128 0xf200"

definition altgr_ctrl_map :: "int list" where
  "altgr_ctrl_map = [
    0xf200, 0xf200, 0xf200, 0xf200, 0xf200, 0xf200, 0xf200, 0xf200, 0xf200, 0xf200, 0xf200, 0xf200, 0xf200, 0xf200, 0xf200, 0xf200,
    0xf001, 0xf01a, 0xf005, 0xf012, 0xf014, 0xf019, 0xf015, 0xf009, 0xf00f, 0xf010, 0xf200, 0xf200, 0xf201, 0xf702, 0xf011, 0xf013,
    0xf004, 0xf006, 0xf007, 0xf008, 0xf00a, 0xf00b, 0xf00c, 0xf00d, 0xf200, 0xf200, 0xf700, 0xf200, 0xf017, 0xf018, 0xf003, 0xf016,
    0xf002, 0xf00e, 0xf200, 0xf200, 0xf200, 0xf200, 0xf700, 0xf30c, 0xf703, 0xf200, 0xf207, 0xf200, 0xf200, 0xf200, 0xf200, 0xf200,
    0xf200, 0xf200, 0xf200, 0xf200, 0xf200, 0xf208, 0xf200, 0xf307, 0xf308, 0xf309, 0xf30b, 0xf304, 0xf305, 0xf306, 0xf30a, 0xf301,
    0xf302, 0xf303, 0xf300, 0xf20c, 0xf206, 0xf200, 0xf200, 0xf200, 0xf200, 0xf200, 0xf200, 0xf200, 0xf200, 0xf200, 0xf200, 0xf200,
    0xf30e, 0xf702, 0xf30d, 0xf200, 0xf701, 0xf205, 0xf114, 0xf603, 0xf118, 0xf601, 0xf602, 0xf117, 0xf600, 0xf119, 0xf115, 0xf20c,
    0xf200, 0xf200, 0xf200, 0xf200, 0xf200, 0xf200, 0xf200, 0xf11d, 0xf200, 0xf200, 0xf200, 0xf200, 0xf200, 0xf200, 0xf200, 0xf200] @ replicate 128 0xf200"

definition alt_map :: "int list" where
  "alt_map = [
    0xf200, 0xf81b, 0xf831, 0xf832, 0xf833, 0xf834, 0xf835, 0xf836, 0xf837, 0xf838, 0xf839, 0xf830, 0xf82d, 0xf83d, 0xf87f, 0xf809,
    0xf861, 0xf87a, 0xf865, 0xf872, 0xf874, 0xf879, 0xf875, 0xf869, 0xf86f, 0xf870, 0xf85b, 0xf85d, 0xf80d, 0xf702, 0xf871, 0xf873,
    0xf864, 0xf866, 0xf867, 0xf868, 0xf86a, 0xf86b, 0xf86c, 0xf86d, 0xf827, 0xf860, 0xf700, 0xf85c, 0xf877, 0xf878, 0xf863, 0xf876,
    0xf862, 0xf86e, 0xf200, 0xf82c, 0xf82e, 0xf82f, 0xf700, 0xf30c, 0xf703, 0xf820, 0xf207, 0xf500, 0xf501, 0xf502, 0xf503, 0xf504,
    0xf505, 0xf506, 0xf507, 0xf508, 0xf509, 0xf208, 0xf209, 0xf907, 0xf908, 0xf909, 0xf30b, 0xf904, 0xf905, 0xf906, 0xf30a, 0xf901,
    0xf902, 0xf903, 0xf900, 0xf310, 0xf206, 0xf200, 0xf83c, 0xf50a, 0xf50b, 0xf200, 0xf200, 0xf200, 0xf200, 0xf200, 0xf200, 0xf200,
    0xf30e, 0xf702, 0xf30d, 0xf01c, 0xf701, 0xf205, 0xf114, 0xf212, 0xf118, 0xf210, 0xf211, 0xf117, 0xf600, 0xf119, 0xf115, 0xf116,
    0xf200, 0xf200, 0xf200, 0xf200, 0xf200, 0xf200, 0xf200, 0xf11d, 0xf200, 0xf200, 0xf200, 0xf200, 0xf200, 0xf200, 0xf200, 0xf200] @ replicate 128 0xf200"

definition ctrl_alt_map :: "int list" where
  "ctrl_alt_map = [
    0xf200, 0xf200, 0xf200, 0xf200, 0xf200, 0xf200, 0xf200, 0xf200, 0xf200, 0xf200, 0xf200, 0xf200, 0xf200, 0xf200, 0xf200, 0xf200,
    0xf801, 0xf81a, 0xf805, 0xf812, 0xf814, 0xf819, 0xf815, 0xf809, 0xf80f, 0xf810, 0xf200, 0xf200, 0xf201, 0xf702, 0xf811, 0xf813,
    0xf804, 0xf806, 0xf807, 0xf808, 0xf80a, 0xf80b, 0xf80c, 0xf80d, 0xf200, 0xf200, 0xf700, 0xf200, 0xf817, 0xf818, 0xf803, 0xf816,
    0xf802, 0xf80e, 0xf200, 0xf200, 0xf200, 0xf200, 0xf700, 0xf30c, 0xf703, 0xf200, 0xf207, 0xf500, 0xf501, 0xf502, 0xf503, 0xf504,
    0xf505, 0xf506, 0xf507, 0xf508, 0xf509, 0xf208, 0xf200, 0xf307, 0xf308, 0xf309, 0xf30b, 0xf304, 0xf305, 0xf306, 0xf30a, 0xf301,
    0xf302, 0xf303, 0xf300, 0xf20c, 0xf206, 0xf200, 0xf200, 0xf50a, 0xf50b, 0xf200, 0xf200, 0xf200, 0xf200, 0xf200, 0xf200, 0xf200,
    0xf30e, 0xf702, 0xf30d, 0xf200, 0xf701, 0xf205, 0xf114, 0xf603, 0xf118, 0xf601, 0xf602, 0xf117, 0xf600, 0xf119, 0xf115, 0xf20c,
    0xf200, 0xf200, 0xf200, 0xf200, 0xf200, 0xf200, 0xf200, 0xf11d, 0xf200, 0xf200, 0xf200, 0xf200, 0xf200, 0xf200, 0xf200, 0xf200] @ replicate 128 0xf200"

text \<open>An absent key map is a null pointer, here \<open>None\<close>.\<close>

definition key_maps :: "int list option list" where
  "key_maps =
     [Some plain_map, Some shift_map, Some altgr_map, None,
      Some ctrl_map, None, Some altgr_ctrl_map, None,
      Some alt_map, None, None, None,
      Some ctrl_alt_map] @ replicate 243 None"

section \<open>Function strings\<close>

definition func_buf :: string where
  "func_buf = concat (map (\<lambda>t. CHR 0x1B # t @ [CHR 0x00])
     [''[[A'', ''[[B'', ''[[C'', ''[[D'', ''[[E'', ''[17~'', ''[18~'', ''[19~'', ''[20~'', ''[21~'', ''[23~'', ''[24~'', ''[25~'',
      ''[26~'', ''[28~'', ''[29~'', ''[31~'', ''[32~'', ''[33~'', ''[34~'', ''[1~'', ''[2~'', ''[3~'', ''[4~'', ''[5~'', ''[6~''])"

definition func_offsets :: "nat list" where
  "func_offsets = [0, 5, 10, 15, 20, 25, 31, 37, 43, 49, 55, 61, 67, 73, 79, 85, 91, 97, 103, 109, 115, 120, 125, 130, 135, 140]"

definition c_string :: "string \<Rightarrow> string" where
  "c_string cs = takeWhile (\<lambda>c. c \<noteq> CHR 0x00) cs"

definition func_table :: "int \<Rightarrow> string option" where
  "func_table i = (if 0 \<le> i \<and> nat i < length func_offsets then Some (c_string (drop (func_offsets ! nat i) func_buf)) else None)"

text \<open>The table of accents is empty: triples of accent, base and result.\<close>

definition accent_table :: "(int \<times> int \<times> int) list" where
  "accent_table = []"

section \<open>Scan codes\<close>

definition EINVAL :: int where "EINVAL = 1"
definition E1_PAUSE :: int where "E1_PAUSE = 119"
definition SC_LIM :: int where "SC_LIM = 89"

record scan_state =
  prev_scancode :: int
  high_keys :: "int list"
  e0_keys :: "int list"

definition high_keys_init :: "int list" where
  "high_keys_init = [
    124, 125, 126, 127, 0, 0, 0, 0, 0, 0, 0, 0, 0, 0, 0, 0, 0, 0, 0, 0,
    122, 0, 123, 0, 0, 0, 89, 120, 0, 0, 90, 91, 92, 93, 94, 95, 124, 121, 0]"

definition e0_keys_init :: "int list" where
  "e0_keys_init = [
    0, 0, 0, 0, 0, 0, 0, 0, 0, 0, 0, 0, 0, 0, 0, 0, 0, 0, 0, 0,
    0, 0, 0, 0, 0, 0, 0, 0, 96, 97, 0, 0, 0, 0, 0, 0, 0, 0, 0, 0,
    0, 0, 0, 0, 0, 0, 0, 0, 0, 0, 0, 0, 0, 98, 0, 99, 100, 0, 0, 0,
    0, 113, 114, 115, 116, 117, 0, 0, 0, 0, 101, 102, 103, 104, 0, 105, 124, 106, 118, 107,
    108, 109, 110, 111, 0, 0, 0, 0, 0, 0, 0, 125, 126, 127, 0, 0, 0, 0, 0, 0,
    0, 0, 0, 0, 0, 0, 0, 0, 0, 0, 0, 112, 0, 0, 0, 0, 0, 0, 0, 0,
    0, 0, 0, 0, 0, 0, 0, 0]"

definition scan_init :: scan_state where
  "scan_init = \<lparr>prev_scancode = 0, high_keys = high_keys_init, e0_keys = e0_keys_init\<rparr>"

text \<open>The arguments are unsigned.\<close>

definition keyboard_pckbd_setkeycode :: "nat \<Rightarrow> nat \<Rightarrow> scan_state \<Rightarrow> int \<times> scan_state" where
  "keyboard_pckbd_setkeycode scancode keycode z =
     (if int scancode < SC_LIM \<or> scancode > 255 \<or> keycode > 127 then (- EINVAL, z)
      else if scancode < 128 then (0, z\<lparr>high_keys := (high_keys z)[scancode - nat SC_LIM := int keycode]\<rparr>)
      else (0, z\<lparr>e0_keys := (e0_keys z)[scancode - 128 := int keycode]\<rparr>))"

definition keyboard_pckbd_getkeycode :: "nat \<Rightarrow> scan_state \<Rightarrow> int" where
  "keyboard_pckbd_getkeycode scancode z =
     (if int scancode < SC_LIM \<or> scancode > 255 then - EINVAL
      else if scancode < 128 then high_keys z ! (scancode - nat SC_LIM) else e0_keys z ! (scancode - 128))"

text \<open>The result is the key code, if the scan code completes one.\<close>

definition keyboard_pckbd_translate :: "int \<Rightarrow> scan_state \<Rightarrow> int option \<times> scan_state" where
  "keyboard_pckbd_translate scancode z =
     (if scancode = 0xe0 \<or> scancode = 0xe1 then (None, z\<lparr>prev_scancode := scancode\<rparr>)
      else if scancode = 0x00 \<or> scancode = 0xff then (None, z\<lparr>prev_scancode := 0\<rparr>)
      else let sc = scancode mod 128 in
        if prev_scancode z \<noteq> 0 then
          if prev_scancode z \<noteq> 0xe0 then
            if prev_scancode z = 0xe1 \<and> sc = 0x1d then (None, z\<lparr>prev_scancode := 0x100\<rparr>)
            else if prev_scancode z = 0x100 \<and> sc = 0x45 then (Some E1_PAUSE, z\<lparr>prev_scancode := 0\<rparr>)
            else (None, z\<lparr>prev_scancode := 0\<rparr>)
          else let z = z\<lparr>prev_scancode := 0\<rparr> in
            if sc = 0x2a \<or> sc = 0x36 then (None, z)
            else if e0_keys z ! nat sc \<noteq> 0 then (Some (e0_keys z ! nat sc), z)
            else (None, z)
        else if sc \<ge> SC_LIM then
          (let keycode = high_keys z ! nat (sc - SC_LIM) in if keycode = 0 then (None, z) else (Some keycode, z))
        else (Some sc, z))"

definition keyboard_pckbd_unexpected_up :: "int \<Rightarrow> bool" where
  "keyboard_pckbd_unexpected_up keycode \<longleftrightarrow> \<not> (keycode \<ge> SC_LIM \<or> keycode = 85)"

section \<open>Facts\<close>

definition scan_ok :: "scan_state \<Rightarrow> bool" where
  "scan_ok z \<longleftrightarrow> length (high_keys z) = 39 \<and> length (e0_keys z) = 128 \<and>
     (\<forall>k \<in> set (high_keys z) \<union> set (e0_keys z). 0 \<le> k \<and> k < 128)"

lemma scan_init_ok: "scan_ok scan_init"
  by (simp add: scan_ok_def scan_init_def high_keys_init_def e0_keys_init_def)

lemma translate_ok:
  assumes "scan_ok z" and "keyboard_pckbd_translate sc z = (r, z')"
  shows "scan_ok z'" and "r = Some k \<Longrightarrow> 0 \<le> k \<and> k < 128"
proof -
  obtain m where m: "m = sc mod 128" "0 \<le> m" "m < 128" by simp
  have e: "0 \<le> e0_keys z ! nat m \<and> e0_keys z ! nat m < 128"
    using assms(1) m(2,3) by (simp add: scan_ok_def nat_less_iff)
  have h: "0 \<le> high_keys z ! nat (m - 89) \<and> high_keys z ! nat (m - 89) < 128" if "89 \<le> m"
    using assms(1) m(2,3) that by (simp add: scan_ok_def nat_less_iff)
  note t = assms(2) [unfolded keyboard_pckbd_translate_def Let_def m(1) [symmetric]]
  show "scan_ok z'" using assms(1) t by (simp add: scan_ok_def split: if_splits) auto
  show "0 \<le> k \<and> k < 128" if "r = Some k"
    using t that e h m(2,3) by (auto simp: SC_LIM_def E1_PAUSE_def split: if_splits)
qed

text \<open>What a program has set is what is used, and what it reads back.\<close>

lemma in_set_update: "x \<in> set (xs[i := v]) \<Longrightarrow> x = v \<or> x \<in> set xs"
  using set_update_subset_insert [of xs i v] by auto

lemma setkeycode_getkeycode:
  assumes "scan_ok z" and "89 \<le> sc" and "sc \<le> 255" and "k \<le> 127"
  shows "\<exists>z'. keyboard_pckbd_setkeycode sc k z = (0, z') \<and> scan_ok z' \<and> keyboard_pckbd_getkeycode sc z' = int k"
  using assms
  by (auto simp: keyboard_pckbd_setkeycode_def keyboard_pckbd_getkeycode_def SC_LIM_def scan_ok_def dest!: in_set_update)

end
