(* ===== verification/Keyboard.thy ===== *)
theory Keyboard
  imports Keymap
begin

unbundle bit_operations_syntax

text \<open>
  The keyboard driver (\<^verbatim>\<open>kernel/kbd_linux/keyboard.c\<close> and \<^verbatim>\<open>kernel/keyboard-glue.c\<close>): from scan codes to the strings given to
  \<^verbatim>\<open>keyboard_data\<close>.

  \<^item> The static variables of the two files form the record \<open>kbd\<close>. What the driver sends is appended to its field \<open>sent\<close>: strings for
    \<^verbatim>\<open>keyboard_data\<close> and the state of the lights.
  \<^item> \<^verbatim>\<open>fg_console\<close> is always 0, so that \<^verbatim>\<open>kbd\<close> points to the first entry of \<^verbatim>\<open>kbd_table\<close>. The routines of the glue that do nothing
    have no definition.
  \<^item> An index outside its array is a fault, \<open>None\<close>. \<open>up\<close> is the flag of a release.
  \<^item> \<open>mem\<close> is the memory that \<^verbatim>\<open>register_leds\<close> may make the lights show.
\<close>

section \<open>State\<close>

record kbd_struct =
  lockstate :: int
  slockstate :: int
  ledmode :: int
  ledflagstate :: int
  default_ledflagstate :: int
  kbdmode :: int
  modeflags :: int

definition LED_SHOW_FLAGS :: int where "LED_SHOW_FLAGS = 0"
definition LED_SHOW_IOCTL :: int where "LED_SHOW_IOCTL = 1"
definition LED_SHOW_MEM :: int where "LED_SHOW_MEM = 2"
definition VC_NUMLOCK :: nat where "VC_NUMLOCK = 1"
definition VC_CAPSLOCK :: nat where "VC_CAPSLOCK = 2"
definition VC_XLATE :: int where "VC_XLATE = 0"
definition VC_MEDIUMRAW :: int where "VC_MEDIUMRAW = 1"
definition VC_RAW :: int where "VC_RAW = 2"
definition VC_UNICODE :: int where "VC_UNICODE = 3"
definition VC_APPLIC :: nat where "VC_APPLIC = 0"
definition VC_CKMODE :: nat where "VC_CKMODE = 1"
definition VC_REPEAT :: nat where "VC_REPEAT = 2"
definition VC_CRLF :: nat where "VC_CRLF = 3"
definition VC_META :: nat where "VC_META = 4"
definition MAX_NR_CONSOLES :: int where "MAX_NR_CONSOLES = 63"
definition KBD_DEFMODE :: int where "KBD_DEFMODE = push_bit VC_REPEAT 1 OR push_bit VC_META 1"
definition KBD_DEFLEDS :: int where "KBD_DEFLEDS = 0"
definition KBD_DEFLOCK :: int where "KBD_DEFLOCK = 0"

datatype kbd_event = Data string | Leds int

record kbd =
  scan :: scan_state
  k_down :: "int list"
  key_down :: "u32 list"
  dead_key_next :: bool
  shift_state :: int
  npadch :: int
  diacr :: int
  rep :: bool
  kbd_table :: "kbd_struct list"
  tty :: bool
  stopped :: bool
  ledstate :: int
  ledioctl :: int
  ledptrs :: "(u32 \<times> u32 \<times> bool) list"
  keyboard_tasklet_enabled :: bool
  init_done :: bool
  sent :: "kbd_event list"

definition fg_console :: nat where "fg_console = 0"

definition kbd_fg :: "kbd \<Rightarrow> kbd_struct" where
  "kbd_fg k = kbd_table k ! fg_console"

definition upd_kbd :: "(kbd_struct \<Rightarrow> kbd_struct) \<Rightarrow> kbd \<Rightarrow> kbd" where
  "upd_kbd f k = k\<lparr>kbd_table := (kbd_table k)[fg_console := f (kbd_fg k)]\<rparr>"

section \<open>Flags of a console\<close>

definition vc_kbd_mode :: "kbd_struct \<Rightarrow> nat \<Rightarrow> bool" where
  "vc_kbd_mode b flag \<longleftrightarrow> bit (modeflags b) flag"

definition vc_kbd_led :: "kbd_struct \<Rightarrow> nat \<Rightarrow> bool" where
  "vc_kbd_led b flag \<longleftrightarrow> bit (ledflagstate b) flag"

text \<open>The fields have five, three and eight bits.\<close>

definition set_vc_kbd_mode :: "nat \<Rightarrow> kbd_struct \<Rightarrow> kbd_struct" where
  "set_vc_kbd_mode flag b = b\<lparr>modeflags := (modeflags b OR push_bit flag 1) mod 32\<rparr>"

definition set_vc_kbd_led :: "nat \<Rightarrow> kbd_struct \<Rightarrow> kbd_struct" where
  "set_vc_kbd_led flag b = b\<lparr>ledflagstate := (ledflagstate b OR push_bit flag 1) mod 8\<rparr>"

definition clr_vc_kbd_mode :: "nat \<Rightarrow> kbd_struct \<Rightarrow> kbd_struct" where
  "clr_vc_kbd_mode flag b = b\<lparr>modeflags := (modeflags b AND NOT (push_bit flag 1)) mod 32\<rparr>"

definition clr_vc_kbd_led :: "nat \<Rightarrow> kbd_struct \<Rightarrow> kbd_struct" where
  "clr_vc_kbd_led flag b = b\<lparr>ledflagstate := (ledflagstate b AND NOT (push_bit flag 1)) mod 8\<rparr>"

definition chg_vc_kbd_lock :: "nat \<Rightarrow> kbd_struct \<Rightarrow> kbd_struct" where
  "chg_vc_kbd_lock flag b = b\<lparr>lockstate := (lockstate b XOR push_bit flag 1) mod 256\<rparr>"

definition chg_vc_kbd_slock :: "nat \<Rightarrow> kbd_struct \<Rightarrow> kbd_struct" where
  "chg_vc_kbd_slock flag b = b\<lparr>slockstate := (slockstate b XOR push_bit flag 1) mod 256\<rparr>"

definition chg_vc_kbd_mode :: "nat \<Rightarrow> kbd_struct \<Rightarrow> kbd_struct" where
  "chg_vc_kbd_mode flag b = b\<lparr>modeflags := (modeflags b XOR push_bit flag 1) mod 32\<rparr>"

definition chg_vc_kbd_led :: "nat \<Rightarrow> kbd_struct \<Rightarrow> kbd_struct" where
  "chg_vc_kbd_led flag b = b\<lparr>ledflagstate := (ledflagstate b XOR push_bit flag 1) mod 8\<rparr>"

section \<open>The map of depressed keys\<close>

definition test_bit :: "nat \<Rightarrow> u32 list \<Rightarrow> bool" where
  "test_bit nr a \<longleftrightarrow> bit (a ! (nr div 32)) (nr mod 32)"

definition test_and_set_bit :: "nat \<Rightarrow> u32 list \<Rightarrow> bool \<times> u32 list" where
  "test_and_set_bit nr a = (test_bit nr a, a[nr div 32 := a ! (nr div 32) OR push_bit (nr mod 32) 1])"

definition test_and_clear_bit :: "nat \<Rightarrow> u32 list \<Rightarrow> bool \<times> u32 list" where
  "test_and_clear_bit nr a = (test_bit nr a, a[nr div 32 := a ! (nr div 32) AND NOT (push_bit (nr mod 32) 1)])"

section \<open>Output\<close>

definition keyboard_send_str :: "string \<Rightarrow> kbd \<Rightarrow> kbd" where
  "keyboard_send_str str k = k\<lparr>sent := sent k @ [Data str]\<rparr>"

definition keyboard_send_ch :: "int \<Rightarrow> kbd \<Rightarrow> kbd" where
  "keyboard_send_ch ch k = k\<lparr>sent := sent k @ [Data (c_string [char_of ch])]\<rparr>"

definition keyboard_stop_tty :: "kbd \<Rightarrow> kbd" where
  "keyboard_stop_tty k = (if stopped k then k else k\<lparr>stopped := True\<rparr>)"

definition keyboard_start_tty :: "kbd \<Rightarrow> kbd" where
  "keyboard_start_tty k = (if \<not> stopped k then k else k\<lparr>stopped := False\<rparr>)"

definition put_queue :: "int \<Rightarrow> kbd \<Rightarrow> kbd" where
  "put_queue ch k = (if tty k then keyboard_send_ch ch k else k)"

definition puts_queue :: "string \<Rightarrow> kbd \<Rightarrow> kbd" where
  "puts_queue cp k = (if \<not> tty k then k else keyboard_send_str cp k)"

definition applkey :: "char \<Rightarrow> bool \<Rightarrow> kbd \<Rightarrow> kbd" where
  "applkey key mode k = puts_queue (c_string [CHR 0x1B, if mode then CHR ''O'' else CHR ''['', key]) k"

definition to_utf8 :: "int \<Rightarrow> kbd \<Rightarrow> kbd" where
  "to_utf8 c k =
     (if c < 0x80 then put_queue c k
      else if c < 0x800 then put_queue (0x80 OR (c AND 0x3f)) (put_queue (0xc0 OR drop_bit 6 c) k)
      else put_queue (0x80 OR (c AND 0x3f)) (put_queue (0x80 OR (drop_bit 6 c AND 0x3f)) (put_queue (0xe0 OR drop_bit 12 c) k)))"

section \<open>Key handlers\<close>

definition U_sym :: "int \<Rightarrow> int" where
  "U_sym x = x XOR 0xf000"

definition upd_k_down :: "nat \<Rightarrow> (int \<Rightarrow> int) \<Rightarrow> kbd \<Rightarrow> kbd option" where
  "upd_k_down v f k = do { assert_that (v < length (k_down k)); Some (k\<lparr>k_down := (k_down k)[v := f (k_down k ! v)]\<rparr>) }"

text \<open>The body of the inner loop of \<^verbatim>\<open>compute_shiftstate\<close>, for the key code \<open>i\<close>, then the two loops.\<close>

definition shiftstate_key :: "nat \<Rightarrow> kbd \<Rightarrow> kbd option" where
  "shiftstate_key i k =
     (if test_bit i (key_down k) then do {
        assert_that (i < length plain_map);
        let sym = U_sym (plain_map ! i);
        if KTYP sym = KT_SHIFT \<or> KTYP sym = KT_SLOCK then do {
          let val = KVAL sym;
          let val = nat (if val = KG_CAPSSHIFT then int KG_SHIFT else val);
          k \<leftarrow> upd_k_down val (\<lambda>n. (n + 1) mod 256) k;
          Some (k\<lparr>shift_state := shift_state k OR push_bit val 1\<rparr>) }
        else Some k }
      else Some k)"

fun shiftstate_keys :: "nat list \<Rightarrow> kbd \<Rightarrow> kbd option" where
  "shiftstate_keys [] k = Some k"
| "shiftstate_keys (i # is) k = do { k \<leftarrow> shiftstate_key i k; shiftstate_keys is k }"

fun shiftstate_words :: "nat list \<Rightarrow> kbd \<Rightarrow> kbd option" where
  "shiftstate_words [] k = Some k"
| "shiftstate_words (i # is) k = do {
     k \<leftarrow> (if key_down k ! i \<noteq> 0 then shiftstate_keys [i * 32..<i * 32 + 32] k else Some k);
     shiftstate_words is k }"

definition compute_shiftstate :: "kbd \<Rightarrow> kbd option" where
  "compute_shiftstate k = shiftstate_words [0..<length (key_down k)] (k\<lparr>shift_state := 0, k_down := map (\<lambda>_. 0) (k_down k)\<rparr>)"

definition handle_diacr :: "int \<Rightarrow> kbd \<Rightarrow> int \<times> kbd" where
  "handle_diacr ch k =
     (let d = diacr k; k = k\<lparr>diacr := 0\<rparr>
      in case find (\<lambda>(a, b, r). a = d \<and> b = ch) accent_table of
           Some (_, _, r) \<Rightarrow> (r, k)
         | None \<Rightarrow> if ch = 32 \<or> ch = d then (d, k) else (ch, put_queue d k))"

definition do_self :: "int \<Rightarrow> bool \<Rightarrow> kbd \<Rightarrow> kbd" where
  "do_self value up k =
     (if up then k
      else let (value, k) = (if diacr k \<noteq> 0 then handle_diacr value k else (value, k))
           in if dead_key_next k then k\<lparr>dead_key_next := False, diacr := value\<rparr> else put_queue value k)"

definition do_fn :: "int \<Rightarrow> bool \<Rightarrow> kbd \<Rightarrow> kbd" where
  "do_fn value up k = (if up then k else case func_table value of None \<Rightarrow> k | Some str \<Rightarrow> puts_queue str k)"

definition do_dead2 :: "int \<Rightarrow> bool \<Rightarrow> kbd \<Rightarrow> kbd" where
  "do_dead2 value up k =
     (if up then k
      else if diacr k \<noteq> 0 then let (v, k) = handle_diacr value k in k\<lparr>diacr := v\<rparr> else k\<lparr>diacr := value\<rparr>)"

definition ret_diacr :: string where
  "ret_diacr = [CHR 0x60, CHR 0x27, CHR 0x5E, CHR 0x7E, CHR 0x22, CHR 0x2C]"

definition do_dead :: "int \<Rightarrow> bool \<Rightarrow> kbd \<Rightarrow> kbd option" where
  "do_dead value up k = do {
     assert_that (nat value < length ret_diacr);
     Some (do_dead2 (of_char (ret_diacr ! nat value)) up k) }"

text \<open>Element \<open>i\<close> of a string constant, the terminating zero included.\<close>

definition char_at :: "string \<Rightarrow> int \<Rightarrow> char option" where
  "char_at str i = (if 0 \<le> i \<and> nat i \<le> length str then Some ((str @ [CHR 0x00]) ! nat i) else None)"

definition do_cur :: "int \<Rightarrow> bool \<Rightarrow> kbd \<Rightarrow> kbd option" where
  "do_cur value up k =
     (if up then Some k else do { c \<leftarrow> char_at ''BDCA'' value; Some (applkey c (vc_kbd_mode (kbd_fg k) VC_CKMODE) k) })"

definition pad_chars :: string where
  "pad_chars = ''0123456789+-*/'' @ [CHR 0x0D] @ '',.?()''"

definition app_map :: string where
  "app_map = ''pqrstuvwxylSRQMnnmPQ''"

definition do_pad :: "int \<Rightarrow> bool \<Rightarrow> kbd \<Rightarrow> kbd option" where
  "do_pad value up k =
     (if up then Some k
      else if vc_kbd_mode (kbd_fg k) VC_APPLIC \<and> k_down k ! KG_SHIFT = 0 then do {
        c \<leftarrow> char_at app_map value;
        Some (applkey c True k) }
      else if \<not> vc_kbd_led (kbd_fg k) VC_NUMLOCK \<and> value \<in> {15, 16} then Some (do_fn 22 False k)
      else if \<not> vc_kbd_led (kbd_fg k) VC_NUMLOCK \<and> value = 0 then Some (do_fn 21 False k)
      else if \<not> vc_kbd_led (kbd_fg k) VC_NUMLOCK \<and> value = 1 then Some (do_fn 23 False k)
      else if \<not> vc_kbd_led (kbd_fg k) VC_NUMLOCK \<and> value = 2 then do_cur 0 False k
      else if \<not> vc_kbd_led (kbd_fg k) VC_NUMLOCK \<and> value = 3 then Some (do_fn 25 False k)
      else if \<not> vc_kbd_led (kbd_fg k) VC_NUMLOCK \<and> value = 4 then do_cur 1 False k
      else if \<not> vc_kbd_led (kbd_fg k) VC_NUMLOCK \<and> value = 6 then do_cur 2 False k
      else if \<not> vc_kbd_led (kbd_fg k) VC_NUMLOCK \<and> value = 7 then Some (do_fn 20 False k)
      else if \<not> vc_kbd_led (kbd_fg k) VC_NUMLOCK \<and> value = 8 then do_cur 3 False k
      else if \<not> vc_kbd_led (kbd_fg k) VC_NUMLOCK \<and> value = 9 then Some (do_fn 24 False k)
      else if \<not> vc_kbd_led (kbd_fg k) VC_NUMLOCK \<and> value = 5 then Some (applkey (CHR ''G'') (vc_kbd_mode (kbd_fg k) VC_APPLIC) k)
      else do {
        c \<leftarrow> char_at pad_chars value;
        let k = put_queue (of_char c) k;
        Some (if value = 14 \<and> vc_kbd_mode (kbd_fg k) VC_CRLF then put_queue 10 k else k) })"

definition do_shift :: "int \<Rightarrow> bool \<Rightarrow> kbd \<Rightarrow> kbd option" where
  "do_shift value up k =
     (if rep k then Some k
      else do {
        let old_state = shift_state k;
        let (value, k) = (if value = KG_CAPSSHIFT
                          then (int KG_SHIFT, if \<not> up then upd_kbd (clr_vc_kbd_led VC_CAPSLOCK) k else k)
                          else (value, k));
        let v = nat value;
        k \<leftarrow> upd_k_down v (\<lambda>n. if up then (if n \<noteq> 0 then n - 1 else n) else (n + 1) mod 256) k;
        let k = k\<lparr>shift_state := (if k_down k ! v \<noteq> 0 then shift_state k OR push_bit v 1 else shift_state k AND NOT (push_bit v 1))\<rparr>;
        Some (if up \<and> shift_state k \<noteq> old_state \<and> npadch k \<noteq> -1
              then (if kbdmode (kbd_fg k) = VC_UNICODE then to_utf8 (npadch k AND 0xffff) k
                    else put_queue (npadch k AND 0xff) k)\<lparr>npadch := -1\<rparr>
              else k) })"

definition do_meta :: "int \<Rightarrow> bool \<Rightarrow> kbd \<Rightarrow> kbd" where
  "do_meta value up k =
     (if up then k
      else if vc_kbd_mode (kbd_fg k) VC_META then put_queue value (put_queue 0x1b k)
      else put_queue (value OR 0x80) k)"

text \<open>\<open>npadch\<close> is a 32-bit integer.\<close>

definition do_ascii :: "int \<Rightarrow> bool \<Rightarrow> kbd \<Rightarrow> kbd" where
  "do_ascii value up k =
     (if up then k
      else let (base, value) = (if value < 10 then (10, value) else (16, value - 10))
           in if npadch k = -1 then k\<lparr>npadch := value\<rparr>
              else k\<lparr>npadch := sint (word_of_int (npadch k * base + value) :: u32)\<rparr>)"

definition do_lock :: "int \<Rightarrow> bool \<Rightarrow> kbd \<Rightarrow> kbd" where
  "do_lock value up k = (if up \<or> rep k then k else upd_kbd (chg_vc_kbd_lock (nat value)) k)"

definition do_slock :: "int \<Rightarrow> bool \<Rightarrow> kbd \<Rightarrow> kbd option" where
  "do_slock value up k = do {
     k \<leftarrow> do_shift value up k;
     if up \<or> rep k then Some k
     else do {
       let k = upd_kbd (chg_vc_kbd_slock (nat value)) k;
       let i = nat (lockstate (kbd_fg k) XOR slockstate (kbd_fg k));
       assert_that (i < length key_maps);
       Some (if key_maps ! i = None
             then upd_kbd (chg_vc_kbd_slock (nat value)) (upd_kbd (\<lambda>b. b\<lparr>slockstate := 0\<rparr>) k) else k) } }"

section \<open>Special keys\<close>

definition enter :: "kbd \<Rightarrow> kbd" where
  "enter k =
     (let k = (if diacr k \<noteq> 0 then (put_queue (diacr k) k)\<lparr>diacr := 0\<rparr> else k);
          k = put_queue 13 k
      in if vc_kbd_mode (kbd_fg k) VC_CRLF then put_queue 10 k else k)"

definition caps_toggle :: "kbd \<Rightarrow> kbd" where
  "caps_toggle k = (if rep k then k else upd_kbd (chg_vc_kbd_led VC_CAPSLOCK) k)"

definition caps_on :: "kbd \<Rightarrow> kbd" where
  "caps_on k = (if rep k then k else upd_kbd (set_vc_kbd_led VC_CAPSLOCK) k)"

definition hold :: "kbd \<Rightarrow> kbd" where
  "hold k = (if rep k \<or> \<not> tty k then k else if stopped k then keyboard_start_tty k else keyboard_stop_tty k)"

definition bare_num :: "kbd \<Rightarrow> kbd" where
  "bare_num k = (if \<not> rep k then upd_kbd (chg_vc_kbd_led VC_NUMLOCK) k else k)"

definition num_key :: "kbd \<Rightarrow> kbd" where
  "num_key k = (if vc_kbd_mode (kbd_fg k) VC_APPLIC then applkey (CHR ''P'') True k else bare_num k)"

definition compose :: "kbd \<Rightarrow> kbd" where
  "compose k = k\<lparr>dead_key_next := True\<rparr>"

text \<open>The search for the next console in use; only console 0 is. A search without end is \<open>None\<close>.\<close>

definition vc_cons_allocated :: "int \<Rightarrow> bool" where
  "vc_cons_allocated i \<longleftrightarrow> 0 \<le> i \<and> i < MAX_NR_CONSOLES \<and> i = 0"

partial_function (option) decr_loop :: "int \<Rightarrow> int option" where
  "decr_loop i =
     (if i = int fg_console then Some i
      else let i = (if i = -1 then MAX_NR_CONSOLES - 1 else i)
           in if vc_cons_allocated i then Some i else decr_loop (i - 1))"

declare decr_loop.simps [code]

definition decr_console :: "kbd \<Rightarrow> kbd option" where
  "decr_console k = map_option (\<lambda>_. k) (decr_loop (int fg_console - 1))"

partial_function (option) incr_loop :: "int \<Rightarrow> int option" where
  "incr_loop i =
     (if i = int fg_console then Some i
      else let i = (if i = MAX_NR_CONSOLES then 0 else i)
           in if vc_cons_allocated i then Some i else incr_loop (i + 1))"

declare incr_loop.simps [code]

definition incr_console :: "kbd \<Rightarrow> kbd option" where
  "incr_console k = map_option (\<lambda>_. k) (incr_loop (int fg_console + 1))"

text \<open>
  The entries of the table without an effect are the calls of routines of the glue that do nothing: registers, memory and state of the
  system, interrupt, other consoles, scrolling, reboot and the secure attention key.
\<close>

definition spec_fn_table :: "(kbd \<Rightarrow> kbd option) list" where
  "spec_fn_table =
     [compute_shiftstate, Some \<circ> enter, Some, Some,
      Some, Some, Some, Some \<circ> caps_toggle,
      Some \<circ> num_key, Some \<circ> hold, Some, Some,
      Some, Some \<circ> caps_on, Some \<circ> compose, Some,
      decr_console, incr_console, Some, Some \<circ> bare_num]"

definition SPECIALS_ALLOWED_IN_RAW_MODE :: int where
  "SPECIALS_ALLOWED_IN_RAW_MODE = push_bit 15 1"

definition do_spec :: "int \<Rightarrow> bool \<Rightarrow> kbd \<Rightarrow> kbd option" where
  "do_spec value up k =
     (if up then Some k
      else if value \<ge> int (length spec_fn_table) then Some k
      else if (kbdmode (kbd_fg k) = VC_RAW \<or> kbdmode (kbd_fg k) = VC_MEDIUMRAW) \<and>
              SPECIALS_ALLOWED_IN_RAW_MODE AND push_bit (nat value) 1 = 0 then Some k
      else (spec_fn_table ! nat value) k)"

definition key_handler :: "(int \<Rightarrow> bool \<Rightarrow> kbd \<Rightarrow> kbd option) list" where
  "key_handler =
     [\<lambda>v u k. Some (do_self v u k), \<lambda>v u k. Some (do_fn v u k), do_spec, do_pad,
      do_dead, \<lambda>v u k. Some k, do_cur, do_shift,
      \<lambda>v u k. Some (do_meta v u k), \<lambda>v u k. Some (do_ascii v u k), \<lambda>v u k. Some (do_lock v u k), \<lambda>v u k. Some k,
      do_slock, \<lambda>v u k. Some (do_dead2 v u k),
      \<lambda>v u k. Some k, \<lambda>v u k. Some k]"

section \<open>From a scan code to a handler\<close>

definition TYPES_ALLOWED_IN_RAW_MODE :: int where
  "TYPES_ALLOWED_IN_RAW_MODE = push_bit (nat KT_SPEC) 1 OR push_bit (nat KT_SHIFT) 1"

text \<open>The inner part of \<^verbatim>\<open>handle_scancode\<close>: the key symbol has the type \<^verbatim>\<open>0xf0 + ty\<close>.\<close>

definition handle_typed :: "int \<Rightarrow> int \<Rightarrow> int \<Rightarrow> int \<Rightarrow> bool \<Rightarrow> bool \<Rightarrow> kbd \<Rightarrow> kbd option" where
  "handle_typed ty shift_final keysym keycode up raw k =
     (if raw \<and> TYPES_ALLOWED_IN_RAW_MODE AND push_bit (nat ty) 1 = 0 then Some k
      else do {
        (ty, keysym) \<leftarrow> (if ty = KT_LETTER then
            (if vc_kbd_led (kbd_fg k) VC_CAPSLOCK then do {
               let i = nat (shift_final XOR push_bit KG_SHIFT 1);
               assert_that (i < length key_maps);
               (case key_maps ! i of None \<Rightarrow> Some (KT_LATIN, keysym) | Some m \<Rightarrow> Some (KT_LATIN, m ! nat keycode)) }
             else Some (KT_LATIN, keysym))
          else Some (ty, keysym));
        assert_that (0 \<le> ty \<and> nat ty < length key_handler);
        k \<leftarrow> (key_handler ! nat ty) (KVAL keysym) up k;
        Some (if ty \<noteq> KT_SLOCK then upd_kbd (\<lambda>b. b\<lparr>slockstate := 0\<rparr>) k else k) })"

definition handle_keycode :: "int \<Rightarrow> bool \<Rightarrow> bool \<Rightarrow> kbd \<Rightarrow> kbd option" where
  "handle_keycode keycode up raw k = do {
     let shift_final = (shift_state k OR slockstate (kbd_fg k)) XOR lockstate (kbd_fg k);
     assert_that (0 \<le> shift_final \<and> nat shift_final < length key_maps);
     (case key_maps ! nat shift_final of
        Some key_map \<Rightarrow> do {
          assert_that (nat keycode < length key_map);
          let keysym = key_map ! nat keycode;
          if KTYP keysym \<ge> 0xf0 then handle_typed (KTYP keysym - 0xf0) shift_final keysym keycode up raw k
          else Some (if \<not> up \<and> \<not> raw then to_utf8 keysym k else k) }
      | None \<Rightarrow> do {
          k \<leftarrow> compute_shiftstate k;
          Some (upd_kbd (\<lambda>b. b\<lparr>slockstate := 0\<rparr>) k) }) }"

definition handle_scancode :: "int \<Rightarrow> bool \<Rightarrow> kbd \<Rightarrow> kbd option" where
  "handle_scancode scancode down k =
     (let up = \<not> down;
          k = k\<lparr>tty := True\<rparr>;
          raw = (kbdmode (kbd_fg k) = VC_RAW);
          k = (if raw then put_queue (scancode OR (if up then 0x80 else 0)) k else k);
          (r, z) = keyboard_pckbd_translate scancode (scan k);
          k = k\<lparr>scan := z\<rparr>
      in case r of
           None \<Rightarrow> Some k
         | Some keycode \<Rightarrow> do {
             assert_that (0 \<le> keycode \<and> nat keycode div 32 < length (key_down k));
             (let (up, k) = (if up then
                     (let (was, d) = test_and_clear_bit (nat keycode) (key_down k)
                      in (if was then True else keyboard_pckbd_unexpected_up keycode, k\<lparr>rep := False, key_down := d\<rparr>))
                   else (let (was, d) = test_and_set_bit (nat keycode) (key_down k)
                         in (False, k\<lparr>rep := was, key_down := d\<rparr>)));
                  (raw, k) = (if kbdmode (kbd_fg k) = VC_MEDIUMRAW
                              then (True, put_queue (keycode + (if up then 0x80 else 0)) k) else (raw, k))
              in if \<not> rep k \<or> vc_kbd_mode (kbd_fg k) VC_REPEAT \<and> tty k then handle_keycode keycode up raw k else Some k) })"

section \<open>Lights\<close>

definition led_bit :: "(u32 \<Rightarrow> u32) \<Rightarrow> kbd \<Rightarrow> nat \<Rightarrow> int \<Rightarrow> int" where
  "led_bit mem k i leds =
     (case ledptrs k ! i of (addr, msk, valid) \<Rightarrow>
        if valid then (if mem addr AND msk \<noteq> 0 then leds OR push_bit i 1 else leds AND NOT (push_bit i 1)) else leds)"

definition getleds :: "(u32 \<Rightarrow> u32) \<Rightarrow> kbd \<Rightarrow> int" where
  "getleds mem k =
     (if ledmode (kbd_fg k) = LED_SHOW_IOCTL then ledioctl k
      else let leds = ledflagstate (kbd_fg k)
           in if ledmode (kbd_fg k) = LED_SHOW_MEM then led_bit mem k 2 (led_bit mem k 1 (led_bit mem k 0 leds)) else leds)"

definition kbd_bh :: "(u32 \<Rightarrow> u32) \<Rightarrow> kbd \<Rightarrow> kbd" where
  "kbd_bh mem k =
     (let leds = getleds mem k
      in if leds \<noteq> ledstate k then k\<lparr>ledstate := leds, sent := sent k @ [Leds leds]\<rparr> else k)"

definition keyboard_schedule_tasklet :: "(u32 \<Rightarrow> u32) \<Rightarrow> kbd \<Rightarrow> kbd" where
  "keyboard_schedule_tasklet mem k = (if keyboard_tasklet_enabled k then kbd_bh mem k else k)"

definition setledstate :: "(u32 \<Rightarrow> u32) \<Rightarrow> int \<Rightarrow> kbd \<Rightarrow> kbd" where
  "setledstate mem led k = keyboard_schedule_tasklet mem
     (if led AND NOT 7 = 0 then upd_kbd (\<lambda>b. b\<lparr>ledmode := LED_SHOW_IOCTL\<rparr>) (k\<lparr>ledioctl := led\<rparr>)
      else upd_kbd (\<lambda>b. b\<lparr>ledmode := LED_SHOW_FLAGS\<rparr>) k)"

definition register_leds :: "nat \<Rightarrow> u32 \<Rightarrow> u32 \<Rightarrow> u32 \<Rightarrow> kbd \<Rightarrow> kbd" where
  "register_leds console led addr msk k =
     (let (k, m) = (if led < 3 then (k\<lparr>ledptrs := (ledptrs k)[unat led := (addr, msk, True)]\<rparr>, LED_SHOW_MEM) else (k, LED_SHOW_FLAGS))
      in k\<lparr>kbd_table := (kbd_table k)[console := (kbd_table k ! console)\<lparr>ledmode := m\<rparr>]\<rparr>)"

section \<open>Initialisation and the entry point\<close>

definition kbd0 :: kbd_struct where
  "kbd0 = \<lparr>lockstate = KBD_DEFLOCK, slockstate = 0, ledmode = LED_SHOW_FLAGS, ledflagstate = KBD_DEFLEDS,
     default_ledflagstate = KBD_DEFLEDS, kbdmode = VC_XLATE, modeflags = KBD_DEFMODE\<rparr>"

definition kbd_init :: "(u32 \<Rightarrow> u32) \<Rightarrow> kbd \<Rightarrow> kbd" where
  "kbd_init mem k = keyboard_schedule_tasklet mem
     (k\<lparr>kbd_table := replicate (nat MAX_NR_CONSOLES) kbd0, keyboard_tasklet_enabled := True\<rparr>)"

text \<open>\<open>scancode\<close> is a byte from the keyboard.\<close>

definition do_scancode :: "(u32 \<Rightarrow> u32) \<Rightarrow> int \<Rightarrow> kbd \<Rightarrow> kbd option" where
  "do_scancode mem scancode k = do {
     let k = (if \<not> init_done k then kbd_init mem (k\<lparr>init_done := True\<rparr>) else k);
     if scancode \<noteq> 0x00 \<and> scancode \<noteq> 0xff then do {
       k \<leftarrow> handle_scancode scancode (scancode AND 0x80 = 0) k;
       Some (kbd_bh mem k) }
     else Some k }"

text \<open>The variables before the first interrupt.\<close>

definition kbd_boot :: kbd where
  "kbd_boot = \<lparr>scan = scan_init, k_down = replicate NR_SHIFT 0, key_down = replicate 8 0, dead_key_next = False, shift_state = 0,
     npadch = -1, diacr = 0, rep = False,
     kbd_table = replicate (nat MAX_NR_CONSOLES) \<lparr>lockstate = 0, slockstate = 0, ledmode = 0, ledflagstate = 0,
       default_ledflagstate = 0, kbdmode = 0, modeflags = 0\<rparr>,
     tty = False, stopped = False, ledstate = 0xff, ledioctl = 0, ledptrs = replicate 3 (0, 0, False),
     keyboard_tasklet_enabled = False, init_done = False, sent = []\<rparr>"

fun do_scancodes :: "(u32 \<Rightarrow> u32) \<Rightarrow> int list \<Rightarrow> kbd \<Rightarrow> kbd option" where
  "do_scancodes mem [] k = Some k"
| "do_scancodes mem (c # cs) k = do { k \<leftarrow> do_scancode mem c k; do_scancodes mem cs k }"

section \<open>No access out of bounds\<close>

definition sym_ok :: "int \<Rightarrow> bool" where
  "sym_ok s \<longleftrightarrow> 0xf000 \<le> s \<and> s < 0x10000 \<and> \<not> (0xf314 < s \<and> s < 0xf400) \<and> \<not> (0xf405 < s \<and> s < 0xf500) \<and>
     \<not> (0xf604 < s \<and> s < 0xf700) \<and> \<not> (0xf708 < s \<and> s < 0xf800) \<and> \<not> (0xfc08 < s \<and> s < 0xfd00)"

text \<open>The bounds of the arrays that the handlers index with the value of a symbol.\<close>

lemma sym_ok_values:
  assumes "sym_ok s"
  shows "0xf0 \<le> KTYP s" "KTYP s < 0x100" "0 \<le> KVAL s" "KVAL s < 256"
    "KTYP s = 0xf3 \<Longrightarrow> KVAL s \<le> 20" "KTYP s = 0xf4 \<Longrightarrow> KVAL s < 6" "KTYP s = 0xf6 \<Longrightarrow> KVAL s \<le> 4"
    "KTYP s = 0xf7 \<Longrightarrow> KVAL s < 9" "KTYP s = 0xfc \<Longrightarrow> KVAL s < 9"
proof -
  have s: "s = 256 * KTYP s + KVAL s" and v: "0 \<le> KVAL s" "KVAL s < 256" by (simp_all add: KTYP_def KVAL_def)
  note ok = assms [unfolded sym_ok_def]
  show "0xf0 \<le> KTYP s" "KTYP s < 0x100" "0 \<le> KVAL s" "KVAL s < 256"
    "KTYP s = 0xf3 \<Longrightarrow> KVAL s \<le> 20" "KTYP s = 0xf4 \<Longrightarrow> KVAL s < 6" "KTYP s = 0xf6 \<Longrightarrow> KVAL s \<le> 4"
    "KTYP s = 0xf7 \<Longrightarrow> KVAL s < 9" "KTYP s = 0xfc \<Longrightarrow> KVAL s < 9"
    using ok s v by linarith+
qed

lemma maps_sym_ok:
  "list_all sym_ok plain_map" "list_all sym_ok shift_map" "list_all sym_ok altgr_map" "list_all sym_ok ctrl_map"
  "list_all sym_ok altgr_ctrl_map" "list_all sym_ok alt_map" "list_all sym_ok ctrl_alt_map"
  by code_simp+

lemma map_lengths:
  "length plain_map = 256" "length shift_map = 256" "length altgr_map = 256" "length ctrl_map = 256"
  "length altgr_ctrl_map = 256" "length alt_map = 256" "length ctrl_alt_map = 256"
  by (simp_all add: plain_map_def shift_map_def altgr_map_def ctrl_map_def altgr_ctrl_map_def alt_map_def ctrl_alt_map_def)

lemma length_key_maps [simp]: "length key_maps = 256"
  by (simp add: key_maps_def)

lemma key_maps_ok:
  assumes "i < 256" and "key_maps ! i = Some m"
  shows "length m = 256" and "j < 256 \<Longrightarrow> sym_ok (m ! j)"
proof -
  have "Some m \<in> set key_maps" using assms nth_mem [of i key_maps] by simp
  then have m: "m \<in> {plain_map, shift_map, altgr_map, ctrl_map, altgr_ctrl_map, alt_map, ctrl_alt_map}"
    by (auto simp: key_maps_def)
  then show l: "length m = 256" using map_lengths by auto
  show "sym_ok (m ! j)" if "j < 256" using m maps_sym_ok l that by (auto simp: list_all_length)
qed

definition shift_sym_ok :: "int \<Rightarrow> bool" where
  "shift_sym_ok s \<longleftrightarrow> (KTYP s = KT_SHIFT \<or> KTYP s = KT_SLOCK \<longrightarrow> 0 \<le> KVAL s \<and> KVAL s < 9)"

lemma plain_shift_values:
  assumes "i < 256"
  shows "shift_sym_ok (U_sym (plain_map ! i))"
proof -
  have "list_all (\<lambda>s. shift_sym_ok (U_sym s)) plain_map" by code_simp
  then show ?thesis using assms map_lengths(1) by (simp add: list_all_length)
qed

definition byte_ok :: "int \<Rightarrow> bool" where
  "byte_ok x \<longleftrightarrow> 0 \<le> x \<and> x < 256"

lemma byte_ok_or: "byte_ok x \<Longrightarrow> byte_ok y \<Longrightarrow> byte_ok (x OR y)"
  using OR_upper [of x 8 y] by (simp add: byte_ok_def)

lemma byte_ok_xor: "byte_ok x \<Longrightarrow> byte_ok y \<Longrightarrow> byte_ok (x XOR y)"
  using XOR_upper [of x 8 y] by (simp add: byte_ok_def)

lemma byte_ok_clear: "byte_ok x \<Longrightarrow> byte_ok (x AND NOT y)"
  using AND_upper1 [of x "NOT y"] by (simp add: byte_ok_def)

lemma byte_ok_bit: "v < 8 \<Longrightarrow> byte_ok (push_bit v 1)"
proof -
  assume "v < 8"
  then have "(2::int) ^ v < 2 ^ 8" by (intro power_strict_increasing) simp_all
  then show ?thesis by (simp add: byte_ok_def push_bit_eq_mult)
qed

lemma byte_ok_simps [simp]: "byte_ok (x mod 256)" "byte_ok 0"
  by (simp_all add: byte_ok_def)

definition kbd_ok :: "kbd \<Rightarrow> bool" where
  "kbd_ok k \<longleftrightarrow> scan_ok (scan k) \<and> length (k_down k) = NR_SHIFT \<and> length (key_down k) = 8 \<and> length (kbd_table k) = 63 \<and>
     length (ledptrs k) = 3 \<and> byte_ok (shift_state k) \<and> byte_ok (lockstate (kbd_fg k)) \<and> byte_ok (slockstate (kbd_fg k))"

text \<open>\<open>fine r\<close>: the code comes back, in a state that is well formed.\<close>

definition fine :: "kbd option \<Rightarrow> bool" where
  "fine r \<longleftrightarrow> (\<exists>k. r = Some k \<and> kbd_ok k)"

lemma fine_simps [simp]: "fine (Some k) = kbd_ok k" "\<not> fine None"
  by (simp_all add: fine_def)

lemma fine_bind: "fine r \<Longrightarrow> (\<And>k. kbd_ok k \<Longrightarrow> fine (f k)) \<Longrightarrow> fine (Option.bind r f)"
  by (auto simp: fine_def)

lemma fine_if: "(b \<Longrightarrow> fine x) \<Longrightarrow> (\<not> b \<Longrightarrow> fine y) \<Longrightarrow> fine (if b then x else y)"
  by simp

lemma kbd_ok_fields [simp]:
  "kbd_ok (k\<lparr>sent := x\<rparr>) = kbd_ok k" "kbd_ok (k\<lparr>diacr := d\<rparr>) = kbd_ok k" "kbd_ok (k\<lparr>npadch := n\<rparr>) = kbd_ok k"
  "kbd_ok (k\<lparr>dead_key_next := b\<rparr>) = kbd_ok k" "kbd_ok (k\<lparr>stopped := b\<rparr>) = kbd_ok k" "kbd_ok (k\<lparr>tty := b\<rparr>) = kbd_ok k"
  "kbd_ok (k\<lparr>rep := b\<rparr>) = kbd_ok k" "kbd_ok (k\<lparr>ledstate := n\<rparr>) = kbd_ok k" "kbd_ok (k\<lparr>init_done := b\<rparr>) = kbd_ok k"
  "kbd_ok (k\<lparr>ledioctl := n\<rparr>) = kbd_ok k" "kbd_ok (k\<lparr>keyboard_tasklet_enabled := b\<rparr>) = kbd_ok k"
  by (simp_all add: kbd_ok_def kbd_fg_def)

lemma kbd_ok_scan: "kbd_ok k \<Longrightarrow> scan_ok z \<Longrightarrow> kbd_ok (k\<lparr>scan := z\<rparr>)"
  by (simp add: kbd_ok_def kbd_fg_def)

lemma kbd_ok_queue [simp]:
  "kbd_ok (put_queue c k) = kbd_ok k" "kbd_ok (puts_queue str k) = kbd_ok k" "kbd_ok (applkey a m k) = kbd_ok k"
  "kbd_ok (to_utf8 c k) = kbd_ok k"
  by (simp_all add: put_queue_def keyboard_send_ch_def puts_queue_def keyboard_send_str_def applkey_def to_utf8_def)

lemma kbd_fg_upd [simp]: "kbd_ok k \<Longrightarrow> kbd_fg (upd_kbd f k) = f (kbd_fg k)"
  by (simp add: kbd_ok_def kbd_fg_def upd_kbd_def fg_console_def)

lemma kbd_ok_upd:
  assumes "kbd_ok k" and "byte_ok (lockstate (f (kbd_fg k)))" and "byte_ok (slockstate (f (kbd_fg k)))"
  shows "kbd_ok (upd_kbd f k)"
proof -
  have "kbd_fg (upd_kbd f k) = f (kbd_fg k)" using assms(1) by simp
  then show ?thesis using assms by (simp add: kbd_ok_def upd_kbd_def)
qed

lemma kbd_ok_flags [simp]:
  assumes "kbd_ok k"
  shows "kbd_ok (upd_kbd (set_vc_kbd_led v) k)" "kbd_ok (upd_kbd (clr_vc_kbd_led v) k)" "kbd_ok (upd_kbd (chg_vc_kbd_led v) k)"
    "kbd_ok (upd_kbd (chg_vc_kbd_lock v) k)" "kbd_ok (upd_kbd (chg_vc_kbd_slock v) k)" "kbd_ok (upd_kbd (\<lambda>b. b\<lparr>slockstate := 0\<rparr>) k)"
proof -
  have "byte_ok (lockstate (kbd_fg k))" "byte_ok (slockstate (kbd_fg k))" using assms by (simp_all add: kbd_ok_def)
  then show "kbd_ok (upd_kbd (set_vc_kbd_led v) k)" "kbd_ok (upd_kbd (clr_vc_kbd_led v) k)" "kbd_ok (upd_kbd (chg_vc_kbd_led v) k)"
    "kbd_ok (upd_kbd (chg_vc_kbd_lock v) k)" "kbd_ok (upd_kbd (chg_vc_kbd_slock v) k)" "kbd_ok (upd_kbd (\<lambda>b. b\<lparr>slockstate := 0\<rparr>) k)"
    by (simp_all add: kbd_ok_upd [OF assms] set_vc_kbd_led_def clr_vc_kbd_led_def chg_vc_kbd_led_def chg_vc_kbd_lock_def chg_vc_kbd_slock_def)
qed

section \<open>The handlers keep the state well formed\<close>

lemma handle_diacr_ok [simp]: "kbd_ok (snd (handle_diacr c k)) = kbd_ok k"
  by (simp add: handle_diacr_def Let_def accent_table_def)

lemma simple_handlers_ok [simp]:
  assumes "kbd_ok k"
  shows "kbd_ok (do_self v up k)" "kbd_ok (do_fn v up k)" "kbd_ok (do_dead2 v up k)" "kbd_ok (do_meta v up k)" "kbd_ok (do_ascii v up k)"
    "kbd_ok (do_lock v up k)"
proof -
  show "kbd_ok (do_self v up k)" "kbd_ok (do_dead2 v up k)"
    using assms by (auto simp: do_self_def do_dead2_def split_def Let_def)
  show "kbd_ok (do_fn v up k)" "kbd_ok (do_meta v up k)" "kbd_ok (do_ascii v up k)" "kbd_ok (do_lock v up k)"
    using assms by (simp_all add: do_fn_def do_meta_def do_ascii_def do_lock_def Let_def split: option.splits)
qed

lemma char_at_Some: "0 \<le> i \<Longrightarrow> i \<le> int (length str) \<Longrightarrow> \<exists>c. char_at str i = Some c"
  by (auto simp: char_at_def nat_le_iff)

lemma do_cur_fine: "kbd_ok k \<Longrightarrow> 0 \<le> v \<Longrightarrow> v \<le> 4 \<Longrightarrow> fine (do_cur v up k)"
  using char_at_Some [of v "''BDCA''"] by (auto simp: do_cur_def)

lemma do_pad_fine:
  assumes "kbd_ok k" and "0 \<le> v" and "v \<le> 20"
  shows "fine (do_pad v up k)"
proof -
  obtain c d where "char_at app_map v = Some c" "char_at pad_chars v = Some d"
    using char_at_Some [of v app_map] char_at_Some [of v pad_chars] assms(2,3) by (auto simp: app_map_def pad_chars_def)
  then show ?thesis unfolding do_pad_def by (intro fine_if) (use assms in \<open>simp_all add: do_cur_fine Let_def\<close>)
qed

lemma do_dead_fine: "kbd_ok k \<Longrightarrow> 0 \<le> v \<Longrightarrow> v < 6 \<Longrightarrow> fine (do_dead v up k)"
  by (simp add: do_dead_def ret_diacr_def nat_less_iff)

lemma upd_k_down_ok:
  assumes "kbd_ok k" and "v < NR_SHIFT"
  obtains k' where "upd_k_down v f k = Some k'" "kbd_ok k'" "k' = k\<lparr>k_down := (k_down k)[v := f (k_down k ! v)]\<rparr>"
  using assms by (simp add: upd_k_down_def kbd_ok_def kbd_fg_def)

lemma kbd_ok_shift_state: "kbd_ok k \<Longrightarrow> byte_ok x \<Longrightarrow> kbd_ok (k\<lparr>shift_state := x\<rparr>)"
  by (simp add: kbd_ok_def kbd_fg_def)

lemma shift_bits_ok:
  assumes "kbd_ok k" and "v < 8"
  shows "byte_ok (shift_state k OR push_bit v 1)" "byte_ok (shift_state k AND NOT (push_bit v 1))"
proof -
  have "byte_ok (shift_state k)" using assms(1) by (simp add: kbd_ok_def)
  then show "byte_ok (shift_state k OR push_bit v 1)" "byte_ok (shift_state k AND NOT (push_bit v 1))"
    using assms(2) by (blast intro: byte_ok_or byte_ok_bit byte_ok_clear)+
qed

text \<open>The value 8, which stands for a shift key that undoes caps lock, is turned into 0.\<close>

lemma do_shift_fine:
  assumes "kbd_ok k" and "0 \<le> v" and "v < 9"
  shows "fine (do_shift v up k)"
proof -
  define k1 where "k1 = (if v = KG_CAPSSHIFT then if \<not> up then upd_kbd (clr_vc_kbd_led VC_CAPSLOCK) k else k else k)"
  define w where "w = nat (if v = KG_CAPSSHIFT then int KG_SHIFT else v)"
  let ?f = "\<lambda>n. if up then if n \<noteq> 0 then n - 1 else n else (n + 1) mod 256"
  have k1: "kbd_ok k1" using assms(1) by (simp add: k1_def)
  have w: "w < 8" "w < NR_SHIFT" using assms(2,3) by (auto simp: w_def KG_CAPSSHIFT_def KG_SHIFT_def NR_SHIFT_def)
  obtain k2 where k2: "upd_k_down w ?f k1 = Some k2" "kbd_ok k2" using k1 w(2) by (rule upd_k_down_ok)
  have e: "(if v = KG_CAPSSHIFT then (int KG_SHIFT, if \<not> up then upd_kbd (clr_vc_kbd_led VC_CAPSLOCK) k else k) else (v, k)) = (if v = KG_CAPSSHIFT then int KG_SHIFT else v, k1)"
    by (simp add: k1_def)
  show ?thesis
    using k2 shift_bits_ok [OF k2(2) w(1)] assms(1) unfolding do_shift_def e Let_def
    by (simp add: w_def [symmetric] kbd_ok_shift_state)
qed

lemma do_slock_fine:
  assumes "kbd_ok k" and "0 \<le> v" and "v < 9"
  shows "fine (do_slock v up k)"
  unfolding do_slock_def
proof (rule fine_bind [OF do_shift_fine [OF assms]])
  fix k1 assume "kbd_ok k1"
  then have k2: "kbd_ok (upd_kbd (chg_vc_kbd_slock (nat v)) k1)" (is "kbd_ok ?k2") by simp
  then have "byte_ok (lockstate (kbd_fg ?k2) XOR slockstate (kbd_fg ?k2))" by (simp add: kbd_ok_def byte_ok_xor)
  then show "fine (if up \<or> rep k1 then Some k1
      else do {
        let k = upd_kbd (chg_vc_kbd_slock (nat v)) k1;
        let i = nat (lockstate (kbd_fg k) XOR slockstate (kbd_fg k));
        assert_that (i < length key_maps);
        Some (if key_maps ! i = None then upd_kbd (chg_vc_kbd_slock (nat v)) (upd_kbd (\<lambda>b. b\<lparr>slockstate := 0\<rparr>) k) else k) })"
    using k2 \<open>kbd_ok k1\<close> by (simp add: Let_def byte_ok_def nat_less_iff)
qed

lemma shiftstate_key_fine:
  assumes "kbd_ok k" and "i < 256"
  shows "fine (shiftstate_key i k)"
proof -
  let ?sym = "U_sym (plain_map ! i)"
  define w where "w = nat (if KVAL ?sym = KG_CAPSSHIFT then int KG_SHIFT else KVAL ?sym)"
  have "fine (do { k \<leftarrow> upd_k_down w (\<lambda>n. (n + 1) mod 256) k; Some (k\<lparr>shift_state := shift_state k OR push_bit w 1\<rparr>) })"
    if "KTYP ?sym = KT_SHIFT \<or> KTYP ?sym = KT_SLOCK"
  proof -
    have "w < 8" "w < NR_SHIFT"
      using plain_shift_values [OF assms(2)] that by (auto simp: w_def shift_sym_ok_def KG_CAPSSHIFT_def KG_SHIFT_def NR_SHIFT_def)
    then obtain k' where "upd_k_down w (\<lambda>n. (n + 1) mod 256) k = Some k'" "kbd_ok k'" using upd_k_down_ok [OF assms(1)] by blast
    then show ?thesis using kbd_ok_shift_state shift_bits_ok(1) [of k' w] \<open>w < 8\<close> by simp
  qed
  then show ?thesis using assms map_lengths(1) by (simp add: shiftstate_key_def Let_def w_def)
qed

lemma shiftstate_keys_fine: "kbd_ok k \<Longrightarrow> \<forall>i \<in> set is. i < 256 \<Longrightarrow> fine (shiftstate_keys is k)"
  by (induction "is" arbitrary: k) (auto intro!: fine_bind shiftstate_key_fine)

lemma shiftstate_words_fine: "kbd_ok k \<Longrightarrow> \<forall>i \<in> set is. i < 8 \<Longrightarrow> fine (shiftstate_words is k)"
proof (induction "is" arbitrary: k)
  case (Cons i js)
  have "fine (if key_down k ! i \<noteq> 0 then shiftstate_keys [i * 32..<i * 32 + 32] k else Some k)"
    using Cons.prems by (intro fine_if shiftstate_keys_fine) auto
  then show ?case using Cons by (auto intro: fine_bind)
qed simp

lemma compute_shiftstate_fine: "kbd_ok k \<Longrightarrow> fine (compute_shiftstate k)"
  unfolding compute_shiftstate_def by (rule shiftstate_words_fine) (auto simp: kbd_ok_def kbd_fg_def)

lemma decr_loop_ends: "decr_loop (-1) = Some 0"
proof -
  have "decr_loop (int n) = Some 0" for n
  proof (induction n)
    case 0
    show ?case by (subst decr_loop.simps) (simp add: fg_console_def)
  next
    case (Suc n)
    then show ?case by (subst decr_loop.simps) (simp add: fg_console_def vc_cons_allocated_def Let_def)
  qed
  from this [of 61] show ?thesis
    by (subst decr_loop.simps) (simp add: fg_console_def vc_cons_allocated_def MAX_NR_CONSOLES_def Let_def)
qed

lemma incr_loop_ends: "incr_loop 1 = Some 0"
proof -
  have "incr_loop (63 - int n) = Some 0" if "n \<le> 62" for n
    using that
  proof (induction n)
    case 0
    show ?case by (subst incr_loop.simps) (simp add: fg_console_def vc_cons_allocated_def MAX_NR_CONSOLES_def Let_def)
  next
    case (Suc n)
    then have "incr_loop (63 - int n) = Some 0" by simp
    moreover have "63 - int (Suc n) + 1 = 63 - int n" "63 - int (Suc n) \<noteq> 0" using Suc.prems by simp_all
    ultimately show ?case by (subst incr_loop.simps) (simp add: fg_console_def vc_cons_allocated_def MAX_NR_CONSOLES_def Let_def)
  qed
  from this [of 62] show ?thesis by simp
qed

lemma special_fine:
  assumes "kbd_ok k" and "i < length spec_fn_table"
  shows "fine ((spec_fn_table ! i) k)"
proof -
  have "\<forall>f \<in> set spec_fn_table. fine (f k)"
    using assms(1) compute_shiftstate_fine [OF assms(1)] decr_loop_ends incr_loop_ends
    by (simp add: spec_fn_table_def enter_def caps_toggle_def num_key_def bare_num_def hold_def keyboard_start_tty_def keyboard_stop_tty_def
        caps_on_def compose_def decr_console_def incr_console_def fg_console_def Let_def)
  then show ?thesis using assms(2) by simp
qed

lemma do_spec_fine: "kbd_ok k \<Longrightarrow> 0 \<le> v \<Longrightarrow> fine (do_spec v up k)"
  by (simp add: do_spec_def special_fine nat_less_iff not_le)

text \<open>The sixteen types of symbols.\<close>

lemma key_handler_fine:
  assumes "kbd_ok k" and "sym_ok s" and "KTYP s = 0xf0 + int t"
  shows "t < length key_handler" "fine ((key_handler ! t) (KVAL s) up k)"
proof -
  note v = sym_ok_values [OF assms(2)]
  show t: "t < length key_handler" using v(2) assms(3) by (simp add: key_handler_def)
  have h: "fine (do_spec (KVAL s) up k)" "t = 3 \<Longrightarrow> fine (do_pad (KVAL s) up k)" "t = 4 \<Longrightarrow> fine (do_dead (KVAL s) up k)"
    "t = 6 \<Longrightarrow> fine (do_cur (KVAL s) up k)" "t = 7 \<Longrightarrow> fine (do_shift (KVAL s) up k)" "t = 12 \<Longrightarrow> fine (do_slock (KVAL s) up k)"
    using v assms(1,3) by (simp_all add: do_spec_fine do_pad_fine do_dead_fine do_cur_fine do_shift_fine do_slock_fine)
  have "t < 16" using t by (simp add: key_handler_def)
  then have "t = 0 \<or> t = 1 \<or> t = 2 \<or> t = 3 \<or> t = 4 \<or> t = 5 \<or> t = 6 \<or> t = 7 \<or> t = 8 \<or> t = 9 \<or> t = 10 \<or> t = 11 \<or> t = 12 \<or> t = 13 \<or> t = 14 \<or> t = 15"
    by presburger
  then show "fine ((key_handler ! t) (KVAL s) up k)"
    using h assms(1) by (elim disjE) (simp_all add: key_handler_def)
qed

lemma handle_typed_fine:
  assumes "kbd_ok k" and "sym_ok s" and "byte_ok sf" and "0 \<le> kc" "kc < 256"
  shows "fine (handle_typed (KTYP s - 0xf0) sf s kc up raw k)"
proof -
  let ?i = "nat (sf XOR push_bit KG_SHIFT 1)"
  have run: "fine (do {
      assert_that (0 \<le> ty \<and> nat ty < length key_handler);
      k \<leftarrow> (key_handler ! nat ty) (KVAL s') up k;
      Some (if ty \<noteq> KT_SLOCK then upd_kbd (\<lambda>b. b\<lparr>slockstate := 0\<rparr>) k else k) })"
    if "sym_ok s'" "ty = KTYP s' - 0xf0 \<or> ty = KT_LATIN" for ty s'
  proof -
    have "0 \<le> ty \<and> nat ty < length key_handler \<and> fine ((key_handler ! nat ty) (KVAL s') up k)"
    proof (cases "ty = KT_LATIN")
      case True
      then show ?thesis using assms(1) by (simp add: KT_LATIN_def key_handler_def)
    next
      case False
      then have "KTYP s' = 0xf0 + int (nat ty)" using that sym_ok_values(1) [OF that(1)] by auto
      from key_handler_fine [OF assms(1) that(1) this] False that sym_ok_values(1) [OF that(1)] show ?thesis by auto
    qed
    then show ?thesis by (auto intro!: fine_bind)
  qed
  have "byte_ok (sf XOR push_bit KG_SHIFT 1)" using assms(3) by (rule byte_ok_xor) (simp add: KG_SHIFT_def byte_ok_def)
  then have i: "?i < 256" by (simp add: byte_ok_def nat_less_iff)
  have m: "sym_ok (m ! nat kc)" if "key_maps ! ?i = Some m" for m
    using key_maps_ok(2) [OF i that] assms(4,5) by (simp add: nat_less_iff)
  let ?R = "if KTYP s - 0xf0 = KT_LETTER then
            (if vc_kbd_led (kbd_fg k) VC_CAPSLOCK then do {
               let i = ?i;
               assert_that (i < length key_maps);
               (case key_maps ! i of None \<Rightarrow> Some (KT_LATIN, s) | Some m \<Rightarrow> Some (KT_LATIN, m ! nat kc)) }
             else Some (KT_LATIN, s))
          else Some (KTYP s - 0xf0, s)"
  have "\<exists>ty s'. ?R = Some (ty, s') \<and> sym_ok s' \<and> (ty = KTYP s' - 0xf0 \<or> ty = KT_LATIN)"
  proof (cases "key_maps ! ?i")
    case None
    then show ?thesis using assms(2) i by (simp add: Let_def)
  next
    case (Some mp)
    then show ?thesis using assms(2) i m [OF Some] by (simp add: Let_def)
  qed
  then obtain ty s' where r: "?R = Some (ty, s')" "sym_ok s'" "ty = KTYP s' - 0xf0 \<or> ty = KT_LATIN" by blast
  show ?thesis unfolding handle_typed_def r(1) bind.bind_lunit prod.case
    by (intro fine_if run r(2,3)) (use assms(1) in simp_all)
qed

lemma handle_keycode_fine:
  assumes "kbd_ok k" and "0 \<le> kc" "kc < 256"
  shows "fine (handle_keycode kc up raw k)"
proof -
  let ?sf = "(shift_state k OR slockstate (kbd_fg k)) XOR lockstate (kbd_fg k)"
  have sf: "byte_ok ?sf" using assms(1) by (auto simp: kbd_ok_def intro!: byte_ok_or byte_ok_xor)
  then have i: "0 \<le> ?sf" "nat ?sf < 256" by (simp_all add: byte_ok_def nat_less_iff)
  show ?thesis
  proof (cases "key_maps ! nat ?sf")
    case None
    with i compute_shiftstate_fine [OF assms(1)] show ?thesis
      by (auto simp: handle_keycode_def Let_def intro!: fine_bind)
  next
    case (Some m)
    then have m: "length m = 256" "sym_ok (m ! nat kc)" using key_maps_ok [OF i(2) Some] assms(2,3) by (simp_all add: nat_less_iff)
    with i Some assms sf show ?thesis
      by (simp add: handle_keycode_def Let_def nat_less_iff sym_ok_values(1) handle_typed_fine)
  qed
qed

lemma kbd_ok_key_down: "kbd_ok k \<Longrightarrow> length d = 8 \<Longrightarrow> kbd_ok (k\<lparr>key_down := d\<rparr>)"
  by (simp add: kbd_ok_def kbd_fg_def)

lemma length_key_bits [simp]:
  "length (snd (test_and_set_bit n d)) = length d" "length (snd (test_and_clear_bit n d)) = length d"
  by (simp_all add: test_and_set_bit_def test_and_clear_bit_def)

lemma key_down_length: "kbd_ok k \<Longrightarrow> length (key_down k) = 8"
  by (simp add: kbd_ok_def)

lemma handle_scancode_fine:
  assumes "kbd_ok k"
  shows "fine (handle_scancode sc down k)"
proof -
  define k1 where "k1 = (if kbdmode (kbd_fg (k\<lparr>tty := True\<rparr>)) = VC_RAW
    then put_queue (sc OR (if \<not> down then 0x80 else 0)) (k\<lparr>tty := True\<rparr>) else k\<lparr>tty := True\<rparr>)"
  obtain r z where t: "keyboard_pckbd_translate sc (scan k1) = (r, z)" by (cases "keyboard_pckbd_translate sc (scan k1)")
  have k1: "kbd_ok k1" using assms by (simp add: k1_def)
  then have z: "scan_ok z" using translate_ok(1) [OF _ t] by (simp add: kbd_ok_def)
  then have k2: "kbd_ok (k1\<lparr>scan := z\<rparr>)" by (rule kbd_ok_scan [OF k1])
  show ?thesis
  proof (cases r)
    case None
    with k2 t show ?thesis by (simp add: handle_scancode_def Let_def k1_def)
  next
    case (Some kc)
    then have kc: "0 \<le> kc" "kc < 256" using translate_ok(2) [OF _ t, of kc] k1 by (auto simp: kbd_ok_def)
    let ?k = "k1\<lparr>scan := z\<rparr>"
    have d: "kbd_ok (?k\<lparr>rep := b, key_down := d\<rparr>)" if "length d = 8" for b d
      using kbd_ok_key_down [of "?k\<lparr>rep := b\<rparr>" d] k2 that by simp
    have l: "length (key_down ?k) = 8" by (rule key_down_length [OF k2])
    have b: "nat kc div 32 < length (key_down ?k)" using l kc by (simp add: less_mult_imp_div_less)
    have e: "kbd_ok (?k\<lparr>rep := b, key_down := snd (test_and_set_bit n (key_down ?k))\<rparr>)"
      "kbd_ok (?k\<lparr>rep := b, key_down := snd (test_and_clear_bit n (key_down ?k))\<rparr>)" for b n
      using d l by simp_all
    show ?thesis
      using t Some e unfolding handle_scancode_def Let_def k1_def [symmetric]
      by (simp add: split_def handle_keycode_fine [OF _ kc] kc b [simplified])
  qed
qed

lemma kbd_bh_ok [simp]: "kbd_ok (kbd_bh mem k) = kbd_ok k"
  by (simp add: kbd_bh_def Let_def)

lemma kbd_init_ok: "kbd_ok k \<Longrightarrow> kbd_ok (kbd_init mem k)"
proof -
  assume "kbd_ok k"
  then have "kbd_ok (k\<lparr>kbd_table := replicate (nat MAX_NR_CONSOLES) kbd0\<rparr>)"
    by (simp add: kbd_ok_def kbd_fg_def fg_console_def MAX_NR_CONSOLES_def kbd0_def KBD_DEFLOCK_def)
  then show ?thesis by (simp add: kbd_init_def keyboard_schedule_tasklet_def)
qed

lemma do_scancode_fine: "kbd_ok k \<Longrightarrow> fine (do_scancode mem sc k)"
  unfolding do_scancode_def Let_def by (intro fine_if fine_bind) (simp_all add: handle_scancode_fine kbd_init_ok)

lemma do_scancodes_fine: "kbd_ok k \<Longrightarrow> fine (do_scancodes mem cs k)"
  by (induction cs arbitrary: k) (auto intro!: fine_bind do_scancode_fine)

lemma kbd_boot_ok: "kbd_ok kbd_boot"
  using scan_init_ok by (simp add: kbd_ok_def kbd_boot_def kbd_fg_def fg_console_def MAX_NR_CONSOLES_def)

text \<open>
  C13. The keyboard driver survives whatever the keyboard sends: from its initial state, every sequence of bytes is handled to the end, without
  an access outside the key maps, the tables of handlers and strings, the counters of the shift keys or the map of depressed keys, and leaves
  these arrays and indices well formed.
\<close>

theorem keyboard_never_faults:
  "\<exists>k. do_scancodes mem cs kbd_boot = Some k \<and> kbd_ok k"
  using do_scancodes_fine [OF kbd_boot_ok] by (simp add: fine_def)

end
