(* ===== verification/Typing.thy ===== *)
theory Typing
  imports Keyboard
begin

section \<open>Typing a text\<close>

text \<open>The driver in translation mode with its default settings, no accent pending, the lights in step.\<close>

definition calm :: "kbd \<Rightarrow> bool" where
  "calm k \<longleftrightarrow> kbd_ok k \<and> init_done k \<and> scan k = scan_init \<and> kbd_fg k = kbd0 \<and> ledstate k = 0 \<and>
     diacr k = 0 \<and> \<not> dead_key_next k \<and> npadch k = -1"

lemma prev_scan_init [simp]: "prev_scancode scan_init = 0"
  by (simp add: scan_init_def)

lemma kbd_fg_fields [simp]:
  "kbd_fg (k\<lparr>sent := x\<rparr>) = kbd_fg k" "kbd_fg (k\<lparr>tty := b\<rparr>) = kbd_fg k" "kbd_fg (k\<lparr>rep := b\<rparr>) = kbd_fg k"
  "kbd_fg (k\<lparr>key_down := d\<rparr>) = kbd_fg k" "kbd_fg (k\<lparr>scan := z\<rparr>) = kbd_fg k" "kbd_fg (k\<lparr>shift_state := n\<rparr>) = kbd_fg k"
  "kbd_fg (k\<lparr>k_down := l\<rparr>) = kbd_fg k"
  by (simp_all add: kbd_fg_def)

lemma kbd0_simps [simp]:
  "kbdmode kbd0 = VC_XLATE" "slockstate kbd0 = 0" "lockstate kbd0 = 0" "vc_kbd_mode kbd0 VC_REPEAT" "\<not> vc_kbd_led kbd0 VC_CAPSLOCK" "\<not> vc_kbd_mode kbd0 VC_CRLF"
  by (simp_all add: kbd0_def KBD_DEFLOCK_def vc_kbd_mode_def vc_kbd_led_def KBD_DEFMODE_def KBD_DEFLEDS_def VC_REPEAT_def VC_META_def VC_CRLF_def
      bit_or_iff bit_push_bit_iff bit_1_iff)

lemma mode_simps [simp]: "VC_XLATE \<noteq> VC_RAW" "VC_XLATE \<noteq> VC_MEDIUMRAW" "VC_XLATE \<noteq> VC_UNICODE"
  by (simp_all add: VC_XLATE_def VC_RAW_def VC_MEDIUMRAW_def VC_UNICODE_def)

lemma upd_slock_calm: "kbd_fg k = kbd0 \<Longrightarrow> upd_kbd (\<lambda>b. b\<lparr>slockstate := 0\<rparr>) k = k"
proof -
  assume fg: "kbd_fg k = kbd0"
  have "kbd0\<lparr>slockstate := 0\<rparr> = kbd_table k ! fg_console" using fg by (simp add: kbd_fg_def kbd0_def)
  then show ?thesis by (simp add: upd_kbd_def fg)
qed

lemma kbd_bh_calm: "kbd_fg k = kbd0 \<Longrightarrow> ledstate k = 0 \<Longrightarrow> kbd_bh mem k = k"
  by (simp add: kbd_bh_def getleds_def kbd0_def LED_SHOW_FLAGS_def LED_SHOW_IOCTL_def LED_SHOW_MEM_def KBD_DEFLEDS_def Let_def)

text \<open>A key that is completed by the scan code \<open>sc\<close>: press and release, up to the key map.\<close>

lemma key_in_map: "kbd_ok k \<Longrightarrow> kc < 256 \<Longrightarrow> kc div 32 < length (key_down k)"
  by (simp add: key_down_length less_mult_imp_div_less)

lemma handle_scancode_press:
  assumes "kbd_fg k = kbd0" and "keyboard_pckbd_translate sc (scan k) = (Some kc, z)" and "0 \<le> kc" and "nat kc div 32 < length (key_down k)"
  shows "handle_scancode sc True k = handle_keycode kc False False
    (k\<lparr>tty := True, scan := z, rep := test_bit (nat kc) (key_down k), key_down := snd (test_and_set_bit (nat kc) (key_down k))\<rparr>)"
  using assms by (simp add: handle_scancode_def Let_def test_and_set_bit_def)

lemma handle_scancode_release:
  assumes "kbd_fg k = kbd0" and "keyboard_pckbd_translate sc (scan k) = (Some kc, z)" and "0 \<le> kc" and "nat kc div 32 < length (key_down k)"
    and "test_bit (nat kc) (key_down k)"
  shows "handle_scancode sc False k = handle_keycode kc True False
    (k\<lparr>tty := True, scan := z, rep := False, key_down := snd (test_and_clear_bit (nat kc) (key_down k))\<rparr>)"
  using assms by (simp add: handle_scancode_def Let_def test_and_clear_bit_def)

lemma same_scan: "scan k = z \<Longrightarrow> k\<lparr>tty := True, scan := z, rep := b, key_down := d\<rparr> = k\<lparr>tty := True, rep := b, key_down := d\<rparr>"
  by (cases k) simp

text \<open>What the key map does with a character key.\<close>

definition char_key :: "int list \<Rightarrow> nat \<Rightarrow> char \<Rightarrow> bool" where
  "char_key m kc c \<longleftrightarrow> KTYP (m ! kc) \<in> {0xf0, 0xfb} \<and> KVAL (m ! kc) = of_char c \<and> c \<noteq> CHR 0x00"

lemma handle_keycode_char:
  assumes "calm k" and "key_maps ! nat (shift_state k) = Some m" and "char_key m kc c" and "kc < 256"
  shows "handle_keycode (int kc) up False (k\<lparr>tty := True, rep := b, key_down := d\<rparr>) =
    Some (k\<lparr>tty := True, rep := b, key_down := d, sent := (if up then sent k else sent k @ [Data [c]])\<rparr>)"
proof -
  let ?k = "k\<lparr>tty := True, rep := b, key_down := d\<rparr>"
  have i: "0 \<le> shift_state k" "nat (shift_state k) < 256" using assms(1) by (simp_all add: calm_def kbd_ok_def byte_ok_def nat_less_iff)
  have len: "length m = 256" by (rule key_maps_ok(1) [OF i(2) assms(2)])
  have fg: "kbd_fg k = kbd0" "length (kbd_table k) = 63" "diacr k = 0" "\<not> dead_key_next k" using assms(1) by (simp_all add: calm_def kbd_ok_def)
  have v: "KVAL (m ! kc) = of_char c" "c_string [c] = [c]" using assms(3) by (simp_all add: char_key_def c_string_def)
  have "handle_typed (KTYP (m ! kc) - 0xf0) (shift_state k) (m ! kc) (int kc) up False ?k =
      Some (upd_kbd (\<lambda>b. b\<lparr>slockstate := 0\<rparr>) (do_self (of_char c) up ?k))"
    using assms(3) fg v by (auto simp: handle_typed_def char_key_def KT_LETTER_def KT_LATIN_def KT_SLOCK_def key_handler_def)
  moreover have "do_self (of_char c) up ?k = ?k\<lparr>sent := (if up then sent k else sent k @ [Data [c]])\<rparr>"
    using fg v by (simp add: do_self_def put_queue_def keyboard_send_ch_def Let_def)
  moreover have "0xf0 \<le> KTYP (m ! kc)" using assms(3) by (auto simp: char_key_def)
  ultimately show ?thesis
    using i assms(2,4) fg len by (simp add: handle_keycode_def Let_def upd_slock_calm)
qed

lemma test_bit_set:
  assumes "length d = 8" and "kc < 256"
  shows "test_bit kc (snd (test_and_set_bit kc d))"
  using assms by (simp add: test_bit_def test_and_set_bit_def bit_or_iff bit_exp_iff)

lemma clear_after_set:
  assumes "\<not> test_bit kc d"
  shows "snd (test_and_clear_bit kc (snd (test_and_set_bit kc d))) = d"
proof -
  let ?w = "d ! (kc div 32)" and ?b = "push_bit (kc mod 32) 1 :: u32"
  have "(?w OR ?b) AND NOT ?b = ?w"
    using assms by (intro bit_eqI) (auto simp: test_bit_def bit_simps)
  then show ?thesis
    by (cases "kc div 32 < length d") (simp_all add: test_and_set_bit_def test_and_clear_bit_def list_update_beyond not_less)
qed

lemma other_bit_set:
  assumes "a \<noteq> b" and "length d = 8" and "a < 256"
  shows "test_bit b (snd (test_and_set_bit a d)) = test_bit b d"
proof (cases "a div 32 = b div 32")
  case True
  then have "a mod 32 \<noteq> b mod 32" using assms(1) by (metis div_mult_mod_eq)
  with True assms show ?thesis by (simp add: test_bit_def test_and_set_bit_def bit_or_iff bit_exp_iff)
next
  case False
  with assms show ?thesis by (simp add: test_bit_def test_and_set_bit_def)
qed

lemma down_flag:
  assumes "0 < kc" and "kc < 128"
  shows "int kc AND 0x80 = 0" "(int kc + 128) AND 0x80 \<noteq> 0"
proof -
  have "(x AND 2 ^ 7 = 0) = (\<not> bit x 7)" for x :: int by (rule and_exp_eq_0_iff_not_bit)
  moreover have "\<not> bit (int kc) 7" "bit (int kc + 128) 7" using assms by (simp_all add: bit_iff_odd div_add1_eq)
  ultimately show "int kc AND 0x80 = 0" "(int kc + 128) AND 0x80 \<noteq> 0" by simp_all
qed

text \<open>The keys with the scan codes 1 to 88 and their releases.\<close>

lemma translate_plain:
  assumes "prev_scancode z = 0" and "0 < kc" and "kc < 89"
  shows "keyboard_pckbd_translate (int kc) z = (Some (int kc), z)" "keyboard_pckbd_translate (int kc + 128) z = (Some (int kc), z)"
proof -
  have "(int kc + 128) mod 128 = int kc" "int kc mod 128 = int kc" using assms by simp_all
  then show "keyboard_pckbd_translate (int kc) z = (Some (int kc), z)" "keyboard_pckbd_translate (int kc + 128) z = (Some (int kc), z)"
    using assms by (simp_all add: keyboard_pckbd_translate_def SC_LIM_def Let_def)
qed

lemma do_scancode_calm:
  assumes "init_done k" and "0 < sc" and "sc < 0xff"
  shows "do_scancode mem sc k = map_option (kbd_bh mem) (handle_scancode sc (sc AND 0x80 = 0) k)"
  using assms by (simp add: do_scancode_def map_conv_bind_option comp_def)

text \<open>A key that sends \<open>es\<close> when it is pressed and nothing when it is released.\<close>

definition sends_key :: "int \<Rightarrow> nat \<Rightarrow> kbd_event list \<Rightarrow> bool" where
  "sends_key sf kc es \<longleftrightarrow> (\<forall>k up d. calm k \<longrightarrow> shift_state k = sf \<longrightarrow>
     handle_keycode (int kc) up False (k\<lparr>tty := True, rep := False, key_down := d\<rparr>) =
     Some (k\<lparr>tty := True, rep := False, key_down := d, sent := (if up then sent k else sent k @ es)\<rparr>))"

lemma sends_keyD:
  "sends_key sf kc es \<Longrightarrow> calm k \<Longrightarrow> shift_state k = sf \<Longrightarrow>
   handle_keycode (int kc) up False (k\<lparr>tty := True, rep := False, key_down := d\<rparr>) =
   Some (k\<lparr>tty := True, rep := False, key_down := d, sent := (if up then sent k else sent k @ es)\<rparr>)"
  unfolding sends_key_def by blast

lemma press_release:
  assumes "calm k" and "sends_key (shift_state k) kc es" and "0 < kc" "kc < 89" and "\<not> test_bit kc (key_down k)"
  shows "\<exists>k1. do_scancode mem (int kc) k = Some k1 \<and> sent k1 = sent k @ es \<and>
    do_scancode mem (int kc + 128) k1 = Some (k\<lparr>tty := True, rep := False, sent := sent k @ es\<rparr>)"
proof -
  note c = assms(1) [unfolded calm_def]
  let ?d = "snd (test_and_set_bit kc (key_down k))"
  let ?k1 = "k\<lparr>tty := True, rep := False, key_down := ?d, sent := sent k @ es\<rparr>"
  have k1: "calm ?k1" using c by (simp add: calm_def kbd_ok_key_down key_down_length)
  have "handle_scancode (int kc) True k = Some ?k1"
    using c assms(1-5) key_in_map [of k kc] by (simp add: handle_scancode_press same_scan translate_plain(1) [OF _ assms(3,4)] sends_keyD [OF assms(2)])
  then have p: "do_scancode mem (int kc) k = Some ?k1"
    using c assms(3,4) by (simp add: do_scancode_calm down_flag kbd_bh_calm)
  have "handle_keycode (int kc) True False (?k1\<lparr>tty := True, rep := False, key_down := snd (test_and_clear_bit kc ?d)\<rparr>) =
      Some (?k1\<lparr>key_down := snd (test_and_clear_bit kc ?d)\<rparr>)"
    using sends_keyD [OF assms(2) k1, of True] by simp
  then have "handle_scancode (int kc + 128) False ?k1 = Some (?k1\<lparr>key_down := key_down k\<rparr>)"
    using c assms(3-5) key_in_map [of k kc]
    by (simp add: handle_scancode_release [of ?k1] same_scan translate_plain(2) [OF _ assms(3,4)] test_bit_set key_down_length clear_after_set)
  then have "do_scancode mem (int kc + 128) ?k1 = Some (?k1\<lparr>key_down := key_down k\<rparr>)"
    using c assms(3,4) by (simp add: do_scancode_calm down_flag kbd_bh_calm)
  with p show ?thesis by simp
qed

lemma sends_char: "key_maps ! nat sf = Some m \<Longrightarrow> char_key m kc c \<Longrightarrow> kc < 256 \<Longrightarrow> sends_key sf kc [Data [c]]"
  unfolding sends_key_def using handle_keycode_char by blast

lemma press_release_char:
  assumes "calm k" and "key_maps ! nat (shift_state k) = Some m" and "char_key m kc c" and "0 < kc" "kc < 89" and "\<not> test_bit kc (key_down k)"
  shows "do_scancodes mem [int kc, int kc + 128] k = Some (k\<lparr>tty := True, rep := False, sent := sent k @ [Data [c]]\<rparr>)"
  using press_release [OF assms(1) sends_char [OF assms(2,3)] assms(4-6), of mem] assms(5) by auto

text \<open>The two modifiers that lead to other character maps: shift (value 0) and right alt (value 1, with a scan code of two bytes).\<close>

definition mod_key :: "nat \<Rightarrow> nat" where
  "mod_key v = (if v = 0 then 42 else 100)"

definition mod_down :: "nat \<Rightarrow> int list" where
  "mod_down v = (if v = 0 then [0x2a] else [0xe0, 0x38])"

definition mod_up :: "nat \<Rightarrow> int list" where
  "mod_up v = (if v = 0 then [0xaa] else [0xe0, 0xb8])"

definition mod_map :: "nat \<Rightarrow> int list" where
  "mod_map v = (if v = 0 then shift_map else altgr_map)"

lemma mod_symbols: "plain_map ! 42 = 0xf700" "plain_map ! 100 = 0xf701" "shift_map ! 42 = 0xf700" "altgr_map ! 100 = 0xf701"
  by code_simp+

lemma mod_key_maps: "v \<le> 1 \<Longrightarrow> key_maps ! nat (push_bit v 1) = Some (mod_map v)" "key_maps ! 0 = Some plain_map"
  by (auto simp: key_maps_def mod_map_def le_Suc_eq)

lemma mod_symbol: "v \<le> 1 \<Longrightarrow> plain_map ! mod_key v = 0xf700 + int v" "v \<le> 1 \<Longrightarrow> mod_map v ! mod_key v = 0xf700 + int v"
  by (auto simp: mod_key_def mod_map_def mod_symbols le_Suc_eq)

lemma mod_bounds: "mod_key v < 256" "v \<le> 1 \<Longrightarrow> (0::int) \<le> push_bit v 1" "v \<le> 1 \<Longrightarrow> nat (push_bit v 1) < 256"
  by (auto simp: mod_key_def le_Suc_eq)

definition no_keys :: "kbd \<Rightarrow> bool" where
  "no_keys k \<longleftrightarrow> k_down k = replicate 9 0 \<and> shift_state k = 0 \<and> key_down k = replicate 8 0"

lemma replicate_same_update: "(replicate n x)[i := x] = replicate n x"
  by (cases "i < n") (simp_all add: list_update_same_conv list_update_beyond)

lemma mod_typed:
  assumes "calm k" and "v \<le> 1"
  shows "handle_typed 7 sf (0xf700 + int v) kc up False (k\<lparr>tty := True, rep := False, key_down := d\<rparr>) =
    map_option (upd_kbd (\<lambda>b. b\<lparr>slockstate := 0\<rparr>)) (do_shift (int v) up (k\<lparr>tty := True, rep := False, key_down := d\<rparr>))"
proof -
  have "KVAL (0xf700 + int v) = int v" using assms(2) by (auto simp: KVAL_def le_Suc_eq)
  then show ?thesis
    by (simp add: handle_typed_def KT_LETTER_def KT_SLOCK_def key_handler_def map_conv_bind_option comp_def)
qed

lemma mod_pressed:
  assumes "calm k" and "no_keys k" and "v \<le> 1"
  shows "handle_keycode (int (mod_key v)) False False (k\<lparr>tty := True, rep := False, key_down := d\<rparr>) =
    Some (k\<lparr>tty := True, rep := False, key_down := d, k_down := (replicate 9 0)[v := 1], shift_state := push_bit v 1\<rparr>)"
proof -
  have fg: "kbd_fg k = kbd0" "npadch k = -1" using assms(1) by (simp_all add: calm_def)
  have ty: "KTYP (0xf700 + int v) = 0xf7" using assms(3) by (auto simp: KTYP_def le_Suc_eq)
  have "do_shift (int v) False (k\<lparr>tty := True, rep := False, key_down := d\<rparr>) =
    Some (k\<lparr>tty := True, rep := False, key_down := d, k_down := (replicate 9 0)[v := 1], shift_state := push_bit v 1\<rparr>)"
    using assms(2,3) fg by (auto simp: do_shift_def upd_k_down_def no_keys_def KG_CAPSSHIFT_def Let_def le_Suc_eq)
  then show ?thesis
    using assms(2,3) fg mod_key_maps(2) map_lengths(1) ty
    by (simp add: handle_keycode_def no_keys_def Let_def mod_symbol(1) mod_typed [OF assms(1,3)] upd_slock_calm mod_bounds)
qed

lemma mod_released:
  assumes "calm k" and "k_down k = (replicate 9 0)[v := 1]" and "shift_state k = push_bit v 1" and "v \<le> 1"
  shows "handle_keycode (int (mod_key v)) True False (k\<lparr>tty := True, rep := False, key_down := d\<rparr>) =
    Some (k\<lparr>tty := True, rep := False, key_down := d, k_down := replicate 9 0, shift_state := 0\<rparr>)"
proof -
  have fg: "kbd_fg k = kbd0" "npadch k = -1" using assms(1) by (simp_all add: calm_def)
  have ty: "KTYP (0xf700 + int v) = 0xf7" using assms(4) by (auto simp: KTYP_def le_Suc_eq)
  have "do_shift (int v) True (k\<lparr>tty := True, rep := False, key_down := d\<rparr>) =
    Some (k\<lparr>tty := True, rep := False, key_down := d, k_down := replicate 9 0, shift_state := 0\<rparr>)"
    using assms(2-4) fg replicate_same_update [of 9 "0::int" v] by (simp add: do_shift_def upd_k_down_def KG_CAPSSHIFT_def Let_def)
  moreover have "length (mod_map v) = 256" using map_lengths by (simp add: mod_map_def)
  ultimately show ?thesis
    using assms(3,4) fg mod_key_maps(1) [OF assms(4)] ty mod_bounds(2,3) [OF assms(4)]
    by (simp add: handle_keycode_def Let_def mod_symbol(2) mod_typed [OF assms(1,4)] upd_slock_calm mod_bounds)
qed

lemma do_scancodes_append: "do_scancodes mem (as @ bs) k = Option.bind (do_scancodes mem as k) (do_scancodes mem bs)"
  by (induction as arbitrary: k) (auto split: bind_split)

text \<open>The prefix \<^verbatim>\<open>0xe0\<close> and the key 0x38 after it.\<close>

lemma e0_key: "e0_keys_init ! 0x38 = 100"
  by code_simp

lemma do_e0:
  assumes "calm k"
  shows "do_scancode mem 0xe0 k = Some (k\<lparr>tty := True, scan := scan_init\<lparr>prev_scancode := 0xe0\<rparr>\<rparr>)"
  using assms by (simp add: calm_def do_scancode_calm handle_scancode_def keyboard_pckbd_translate_def Let_def kbd_bh_calm)

lemma translate_e0:
  "sc \<in> {0x38, 0xb8} \<Longrightarrow> keyboard_pckbd_translate sc (scan_init\<lparr>prev_scancode := 0xe0\<rparr>) = (Some 100, scan_init)"
  by (auto simp: keyboard_pckbd_translate_def scan_init_def e0_key)

lemma mod_down_run:
  assumes "calm k" and "no_keys k" and "v \<le> 1"
  shows "do_scancodes mem (mod_down v) k = Some (k\<lparr>tty := True, rep := False, key_down := snd (test_and_set_bit (mod_key v) (replicate 8 0)),
    k_down := (replicate 9 0)[v := 1], shift_state := push_bit v 1\<rparr>)" (is "_ = Some ?k1")
proof -
  note c = assms(1) [unfolded calm_def]
  have nb: "\<not> test_bit (mod_key v) (key_down k)" "key_down k = replicate 8 0"
    using assms(2) mod_bounds(1) [of v] by (auto simp: no_keys_def test_bit_def mod_key_def)
  note p = mod_pressed [OF assms, of "snd (test_and_set_bit (mod_key v) (replicate 8 0))"]
  show ?thesis
  proof (cases "v = 0")
    case True
    then have "handle_scancode 0x2a True k = Some ?k1"
      using p c nb translate_plain(1) [of scan_init 42] by (simp add: handle_scancode_press same_scan mod_key_def key_down_length)
    then show ?thesis using c True down_flag [of 42] by (simp add: mod_down_def do_scancode_calm kbd_bh_calm)
  next
    case False
    let ?z = "k\<lparr>tty := True, scan := scan_init\<lparr>prev_scancode := 0xe0\<rparr>\<rparr>"
    have z: "kbd_fg ?z = kbd0" "init_done ?z" "scan k = scan_init" using c by simp_all
    have "handle_scancode 0x38 True ?z = Some ?k1"
      using p nb key_down_length [of k] c False z handle_scancode_press [OF z(1), where sc = "0x38" and kc = 100 and z = scan_init] translate_e0 [of "0x38"]
      by (simp add: mod_key_def same_scan)
    then show ?thesis
      using c False do_e0 [OF assms(1)] down_flag [of 56] do_scancode_calm [of ?z "0x38"] by (simp add: mod_down_def kbd_bh_calm)
  qed
qed

lemma mod_up_run:
  assumes "calm k" and "k_down k = (replicate 9 0)[v := 1]" and "shift_state k = push_bit v 1"
    and "key_down k = snd (test_and_set_bit (mod_key v) (replicate 8 0))" and "v \<le> 1"
  shows "do_scancodes mem (mod_up v) k =
    Some (k\<lparr>tty := True, rep := False, key_down := replicate 8 0, k_down := replicate 9 0, shift_state := 0\<rparr>)" (is "_ = Some ?k1")
proof -
  note c = assms(1) [unfolded calm_def]
  have b: "test_bit (mod_key v) (key_down k)" unfolding assms(4) by (rule test_bit_set) (simp_all add: mod_bounds)
  have "\<not> test_bit (mod_key v) (replicate 8 0)" using mod_bounds(1) [of v] by (auto simp: test_bit_def mod_key_def)
  then have d: "snd (test_and_clear_bit (mod_key v) (key_down k)) = replicate 8 0" unfolding assms(4) by (rule clear_after_set)
  note p = mod_released [OF assms(1-3,5), of "replicate 8 0"]
  show ?thesis
  proof (cases "v = 0")
    case True
    then have "handle_scancode 0xaa False k = Some ?k1"
      using p c b d translate_plain(2) [of scan_init 42] by (simp add: handle_scancode_release same_scan mod_key_def key_down_length)
    then show ?thesis using c True down_flag [of 42] by (simp add: mod_up_def do_scancode_calm kbd_bh_calm)
  next
    case False
    let ?z = "k\<lparr>tty := True, scan := scan_init\<lparr>prev_scancode := 0xe0\<rparr>\<rparr>"
    have z: "kbd_fg ?z = kbd0" "init_done ?z" "scan k = scan_init" using c by simp_all
    have "handle_scancode 0xb8 False ?z = Some ?k1"
      using p b d key_down_length [of k] c False z handle_scancode_release [OF z(1), where sc = "0xb8" and kc = 100 and z = scan_init] translate_e0 [of "0xb8"]
      by (simp add: mod_key_def same_scan)
    then show ?thesis
      using c False do_e0 [OF assms(1)] down_flag [of 56] do_scancode_calm [of ?z "0xb8"] by (simp add: mod_up_def kbd_bh_calm)
  qed
qed

text \<open>
  The scan codes of a character: press and release of the first key that has it on the plain map, or on the map for shift or right alt,
  between press and release of that modifier.
\<close>

definition find_key :: "int list \<Rightarrow> char \<Rightarrow> nat option" where
  "find_key m c = find (\<lambda>kc. char_key m kc c) [1..<89]"

definition type_char :: "char \<Rightarrow> int list" where
  "type_char c =
     (case find_key plain_map c of Some kc \<Rightarrow> [int kc, int kc + 128]
      | None \<Rightarrow> (case find_key shift_map c of Some kc \<Rightarrow> mod_down 0 @ [int kc, int kc + 128] @ mod_up 0
         | None \<Rightarrow> (case find_key altgr_map c of Some kc \<Rightarrow> mod_down 1 @ [int kc, int kc + 128] @ mod_up 1
            | None \<Rightarrow> [])))"

definition type_text :: "string \<Rightarrow> int list" where
  "type_text t = concat (map type_char t)"

fun typed :: "kbd_event list \<Rightarrow> string" where
  "typed [] = []"
| "typed (Data t # es) = t @ typed es"
| "typed (Leds _ # es) = typed es"

lemma typed_append [simp]: "typed (as @ bs) = typed as @ typed bs"
  by (induction as rule: typed.induct) simp_all

lemma find_key_Some:
  assumes "find_key m c = Some kc"
  shows "char_key m kc c" "0 < kc" "kc < 89"
proof -
  from assms obtain i where "i < 88" "char_key m ([1..<89] ! i) c" "kc = [1..<89] ! i"
    by (auto simp: find_key_def find_Some_iff simp del: upt_rec_numeral)
  then show "char_key m kc c" "0 < kc" "kc < 89" by simp_all
qed

definition idle :: "kbd \<Rightarrow> bool" where
  "idle k \<longleftrightarrow> calm k \<and> no_keys k"

lemma calm_fields: "calm k \<Longrightarrow> calm (k\<lparr>tty := True, rep := b, sent := e\<rparr>)"
  by (simp add: calm_def)

lemma mod_char_run:
  assumes "idle k" and "v \<le> 1" and "char_key (mod_map v) kc c" and "0 < kc" "kc < 89" and "kc \<noteq> mod_key v"
  shows "do_scancodes mem (mod_down v @ [int kc, int kc + 128] @ mod_up v) k =
    Some (k\<lparr>tty := True, rep := False, sent := sent k @ [Data [c]]\<rparr>)"
proof -
  let ?d = "snd (test_and_set_bit (mod_key v) (replicate 8 0))"
  let ?k1 = "k\<lparr>tty := True, rep := False, key_down := ?d, k_down := (replicate 9 0)[v := 1], shift_state := push_bit v 1\<rparr>"
  have i: "calm k" "no_keys k" using assms(1) by (simp_all add: idle_def)
  have k1: "calm ?k1" using i(1) byte_ok_bit [of v] assms(2) scan_init_ok by (simp add: calm_def kbd_ok_def kbd_fg_def NR_SHIFT_def)
  have "\<not> test_bit kc ?d"
    using other_bit_set [OF assms(6) [symmetric], of "replicate 8 0"] assms(5) mod_bounds(1) [of v] by (simp add: test_bit_def)
  then have p: "do_scancodes mem [int kc, int kc + 128] ?k1 = Some (?k1\<lparr>sent := sent k @ [Data [c]]\<rparr>)"
    using press_release_char [OF k1 _ assms(3-5)] mod_key_maps(1) [OF assms(2)] by simp
  let ?k2 = "?k1\<lparr>sent := sent k @ [Data [c]]\<rparr>"
  have "calm ?k2" using k1 by (simp add: calm_def)
  then have u: "do_scancodes mem (mod_up v) ?k2 =
      Some (?k2\<lparr>tty := True, rep := False, key_down := replicate 8 0, k_down := replicate 9 0, shift_state := 0\<rparr>)"
    by (rule mod_up_run) (use assms(2) in simp_all)
  have "?k2\<lparr>tty := True, rep := False, key_down := replicate 8 0, k_down := replicate 9 0, shift_state := 0\<rparr> =
      k\<lparr>tty := True, rep := False, sent := sent k @ [Data [c]]\<rparr>"
    using i(2) by (cases k) (simp add: no_keys_def)
  with u p show ?thesis using mod_down_run [OF i assms(2)] unfolding do_scancodes_append by (simp del: do_scancodes.simps)
qed

lemma type_char_cases:
  obtains "type_char c = []" | kc where "find_key plain_map c = Some kc" "type_char c = [int kc, int kc + 128]"
    | v kc where "v \<le> 1" "find_key (mod_map v) c = Some kc" "type_char c = mod_down v @ [int kc, int kc + 128] @ mod_up v"
proof (cases "find_key plain_map c")
  case None
  show ?thesis
  proof (cases "find_key shift_map c")
    case None
    then show ?thesis
      using that(1) that(3) [of 1] \<open>find_key plain_map c = None\<close> by (cases "find_key altgr_map c") (simp_all add: type_char_def mod_map_def)
  next
    case (Some kc)
    then show ?thesis using that(3) [of 0 kc] \<open>find_key plain_map c = None\<close> by (simp add: type_char_def mod_map_def)
  qed
next
  case (Some kc)
  then show ?thesis using that(2) by (simp add: type_char_def)
qed

lemma type_char_run:
  assumes "idle k" and "type_char c \<noteq> []"
  shows "do_scancodes mem (type_char c) k = Some (k\<lparr>tty := True, rep := False, sent := sent k @ [Data [c]]\<rparr>)"
proof -
  have i: "calm k" "no_keys k" using assms(1) by (simp_all add: idle_def)
  show ?thesis
  proof (cases rule: type_char_cases [of c])
    case 1
    then show ?thesis using assms(2) by simp
  next
    case (2 kc)
    then show ?thesis
      using press_release_char [OF i(1), of plain_map kc c] find_key_Some [OF 2(1)] i(2) mod_key_maps(2) by (simp add: no_keys_def test_bit_def)
  next
    case (3 v kc)
    note f = find_key_Some [OF 3(2)]
    have "kc \<noteq> mod_key v"
      using f mod_symbol(2) [OF 3(1)] 3(1) by (auto simp: char_key_def KTYP_def le_Suc_eq)
    with mod_char_run [OF assms(1) 3(1) f] show ?thesis unfolding 3(3) .
  qed
qed

lemma type_text_run:
  assumes "idle k" and "\<forall>c \<in> set t. type_char c \<noteq> []"
  shows "\<exists>k'. do_scancodes mem (type_text t) k = Some k' \<and> idle k' \<and> sent k' = sent k @ map (\<lambda>c. Data [c]) t"
  using assms
proof (induction t arbitrary: k)
  case (Cons c t)
  let ?k = "k\<lparr>tty := True, rep := False, sent := sent k @ [Data [c]]\<rparr>"
  have "idle ?k" using Cons.prems(1) by (simp add: idle_def calm_fields no_keys_def)
  moreover have "\<forall>c \<in> set t. type_char c \<noteq> []" using Cons.prems(2) by simp
  ultimately obtain k' where "do_scancodes mem (type_text t) ?k = Some k'" "idle k'" "sent k' = sent ?k @ map (\<lambda>c. Data [c]) t"
    using Cons.IH [of ?k] by blast
  with type_char_run [OF Cons.prems(1), of c mem] Cons.prems(2) show ?case by (auto simp: type_text_def do_scancodes_append)
qed (simp add: type_text_def)

lemma boot_idle: "idle (kbd_init mem (kbd_boot\<lparr>init_done := True\<rparr>))" "sent (kbd_init mem (kbd_boot\<lparr>init_done := True\<rparr>)) = [Leds 0]"
proof -
  have "kbd_ok (kbd_init mem (kbd_boot\<lparr>init_done := True\<rparr>))" by (rule kbd_init_ok) (simp add: kbd_boot_ok)
  moreover have "kbd_fg (kbd_boot\<lparr>init_done := True, kbd_table := replicate (nat MAX_NR_CONSOLES) kbd0, keyboard_tasklet_enabled := True\<rparr>) = kbd0"
    by (simp add: kbd_fg_def fg_console_def MAX_NR_CONSOLES_def)
  ultimately show "idle (kbd_init mem (kbd_boot\<lparr>init_done := True\<rparr>))" "sent (kbd_init mem (kbd_boot\<lparr>init_done := True\<rparr>)) = [Leds 0]"
    by (simp_all add: idle_def calm_def no_keys_def kbd_init_def keyboard_schedule_tasklet_def kbd_bh_def getleds_def Let_def
        kbd_boot_def kbd_fg_def fg_console_def MAX_NR_CONSOLES_def kbd0_def LED_SHOW_FLAGS_def LED_SHOW_IOCTL_def LED_SHOW_MEM_def KBD_DEFLEDS_def NR_SHIFT_def)
qed

lemma do_scancodes_boot:
  "cs \<noteq> [] \<Longrightarrow> do_scancodes mem cs kbd_boot = do_scancodes mem cs (kbd_init mem (kbd_boot\<lparr>init_done := True\<rparr>))"
proof -
  have "init_done (kbd_init mem (kbd_boot\<lparr>init_done := True\<rparr>))" using boot_idle(1) by (simp add: idle_def calm_def)
  moreover have "\<not> init_done kbd_boot" by (simp add: kbd_boot_def)
  ultimately show "cs \<noteq> [] \<Longrightarrow> ?thesis" by (cases cs) (simp_all add: do_scancode_def)
qed

text \<open>The characters on a map, and that they are found.\<close>

definition key_chars :: "int list \<Rightarrow> int list" where
  "key_chars m = map (\<lambda>s. if KTYP s = 0xf0 \<or> KTYP s = 0xfb then KVAL s else 0) (take 88 (drop 1 m))"

lemma find_key_chars:
  assumes "length m = 256" and "of_char c \<in> set (key_chars m)" and "c \<noteq> CHR 0x00"
  shows "find_key m c \<noteq> None"
proof -
  have "of_char c \<noteq> (0::int)"
  proof
    assume "of_char c = (0::int)"
    then have "c = char_of (0::int)" using char_of_char [of c, where 'a = int] by simp
    with assms(3) show False by (simp add: char_of_def)
  qed
  then obtain i where "i < 88" "(KTYP (m ! (1 + i)) = 0xf0 \<or> KTYP (m ! (1 + i)) = 0xfb) \<and> KVAL (m ! (1 + i)) = of_char c"
    using assms(1,2) by (auto simp: key_chars_def in_set_conv_nth split: if_splits)
  then have "1 + i \<in> set [1..<89]" "char_key m (1 + i) c" using assms(3) by (auto simp: char_key_def)
  then show ?thesis unfolding find_key_def find_None_iff by blast
qed

lemma all_key_chars:
  "list_all (\<lambda>n. n \<in> set (key_chars plain_map @ key_chars shift_map @ key_chars altgr_map)) ([32..126] @ [9, 27, 127])"
  by code_simp

lemma typable:
  assumes "of_char c \<in> {32..126} \<union> {9, 27, 127 :: nat}"
  shows "type_char c \<noteq> []"
proof -
  have "int (of_char c) \<in> set ([32..126] @ [9, 27, 127])" using assms unfolding set_append set_upto by auto
  then have "of_char c \<in> set (key_chars plain_map @ key_chars shift_map @ key_chars altgr_map)"
    using all_key_chars unfolding list_all_iff of_nat_of_char by blast
  moreover have "c \<noteq> CHR 0x00" using assms by auto
  ultimately have "find_key plain_map c \<noteq> None \<or> find_key shift_map c \<noteq> None \<or> find_key altgr_map c \<noteq> None"
    using find_key_chars map_lengths by auto
  then show ?thesis by (auto simp: type_char_def split: option.splits)
qed

text \<open>
  C12. The driver gives back the text that is typed. Every character from the space to the tilde, and the keys tab, escape and delete,
  can be typed; if a text of such characters is typed from the start of the system, each character with the key and the modifier that the key
  maps assign to it, then the strings handed to the console are exactly the characters of the text, in order.
\<close>

theorem typed_text_arrives:
  assumes "\<forall>c \<in> set t. of_char c \<in> {32..126} \<union> {9, 27, 127 :: nat}"
  shows "\<exists>k. do_scancodes mem (type_text t) kbd_boot = Some k \<and> typed (sent k) = t"
proof (cases "t = []")
  case True
  then show ?thesis by (simp add: type_text_def kbd_boot_def)
next
  case False
  let ?k = "kbd_init mem (kbd_boot\<lparr>init_done := True\<rparr>)"
  have all: "\<forall>c \<in> set t. type_char c \<noteq> []" using assms typable by blast
  with False have "type_text t \<noteq> []" by (cases t) (auto simp: type_text_def)
  moreover obtain k' where "do_scancodes mem (type_text t) ?k = Some k'" "sent k' = sent ?k @ map (\<lambda>c. Data [c]) t"
    using type_text_run [OF boot_idle(1) all] by blast
  moreover have "typed (map (\<lambda>c. Data [c]) t) = t" by (induction t) simp_all
  ultimately show ?thesis using do_scancodes_boot [of "type_text t" mem] boot_idle(2) [of mem] by simp
qed

theorem typed_text_arrives_witness:
  "\<exists>k. do_scancodes (\<lambda>_. 0) (type_text ''ls [Az]~'') kbd_boot = Some k \<and> typed (sent k) = ''ls [Az]~''"
  by (rule typed_text_arrives) simp

end
