(* ===== verification/Klist.thy ===== *)
theory Klist
  imports Prelude
begin

text \<open>
  The singly linked lists of integers of \<^verbatim>\<open>kernel/list.c\<close>: children of a process, pending
  signals, free semaphore identifiers, processes blocked on a semaphore.

  The first part translates the code over an explicit heap of list blocks; address 0 is
  \<^verbatim>\<open>NULL\<close> and a block that was never allocated or was freed is \<open>None\<close>. What \<^verbatim>\<open>mem_alloc\<close>
  returns is an argument of the operations that call it. The second part gives the
  operations on the sequence of elements (\<open>seq_*\<close>), which is what the rest of the kernel
  model uses. The locale \<open>int_list\<close> is the contract between the two; it is interpreted on
  the heap operations.
\<close>

section \<open>The code over a heap of blocks\<close>

record lnode =
  l_element :: int
  l_next :: nat

type_synonym lheap = "nat \<rightharpoonup> lnode"

definition list_alloc :: "nat \<Rightarrow> lheap \<Rightarrow> nat \<times> lheap" where
  "list_alloc a h = (if a = 0 then (0, h) else (a, h(a \<mapsto> \<lparr>l_element = 0, l_next = 0\<rparr>)))"

definition list_free_block :: "lheap \<Rightarrow> nat \<Rightarrow> lheap" where
  "list_free_block h p = h(p := None)"

definition list_new :: "nat \<Rightarrow> lheap \<Rightarrow> nat \<times> lheap" where
  "list_new a h =
     (let (l, h1) = list_alloc a h
      in if l = 0 then (0, h1) else (l, h1(l \<mapsto> \<lparr>l_element = -1, l_next = 0\<rparr>)))"

definition list_is_empty :: "lheap \<Rightarrow> nat \<Rightarrow> bool option" where
  "list_is_empty h l = do {
     assert_that (l \<noteq> 0);
     n \<leftarrow> h l;
     Some (l_next n = 0) }"

definition list_put_first :: "nat \<Rightarrow> lheap \<Rightarrow> nat \<Rightarrow> int \<Rightarrow> lheap option" where
  "list_put_first a h l e = do {
     assert_that (l \<noteq> 0);
     assert_that (0 \<le> e);
     let (block, h1) = list_alloc a h;
     assert_that (block \<noteq> 0); \<comment> \<open>the code writes through \<^verbatim>\<open>block\<close> unchecked\<close>
     n \<leftarrow> h1 l;
     Some (h1(block \<mapsto> \<lparr>l_element = e, l_next = l_next n\<rparr>, l \<mapsto> n\<lparr>l_next := block\<rparr>)) }"

definition list_get_first :: "lheap \<Rightarrow> nat \<Rightarrow> (int \<times> lheap) option" where
  "list_get_first h l = do {
     assert_that (l \<noteq> 0);
     emp \<leftarrow> list_is_empty h l;
     if \<not> emp then do {
       n \<leftarrow> h l;
       m \<leftarrow> h (l_next n);
       Some (l_element m, list_free_block (h(l \<mapsto> n\<lparr>l_next := l_next m\<rparr>)) (l_next n))
     } else Some (-1, h) }"

text \<open>\<^verbatim>\<open>while (!list_is_empty(l)) list_get_first(l);\<close>\<close>

partial_function (option) list_empty :: "lheap \<Rightarrow> nat \<Rightarrow> lheap option" where
  "list_empty h l =
     Option.bind (list_is_empty h l) (\<lambda>emp.
       if emp then Some h
       else Option.bind (list_get_first h l) (\<lambda>r. list_empty (snd r) l))"

partial_function (option) list_free :: "lheap \<Rightarrow> nat \<Rightarrow> lheap option" where
  "list_free h l =
     (if l = 0 then Some h
      else Option.bind (h l) (\<lambda>n. list_free (list_free_block h l) (l_next n)))"

text \<open>The loop of \<^verbatim>\<open>list_get_last\<close>: the block before the last one.\<close>

partial_function (option) list_before_last :: "lheap \<Rightarrow> nat \<Rightarrow> nat option" where
  "list_before_last h l =
     Option.bind (h l) (\<lambda>n.
       Option.bind (h (l_next n)) (\<lambda>m.
         if l_next m \<noteq> 0 then list_before_last h (l_next n) else Some l))"

definition list_get_last :: "lheap \<Rightarrow> nat \<Rightarrow> (int \<times> lheap) option" where
  "list_get_last h l = do {
     assert_that (l \<noteq> 0);
     n \<leftarrow> h l;
     if l_next n = 0 then Some (-1, h)
     else do {
       p \<leftarrow> list_before_last h l;
       np \<leftarrow> h p;
       m \<leftarrow> h (l_next np);
       Some (l_element m, list_free_block (h(p \<mapsto> np\<lparr>l_next := 0\<rparr>)) (l_next np))
     } }"

text \<open>The loop of \<^verbatim>\<open>list_lookup\<close>, from the block after the header.\<close>

partial_function (option) list_scan :: "lheap \<Rightarrow> nat \<Rightarrow> int \<Rightarrow> bool option" where
  "list_scan h p x =
     (if p = 0 then Some False
      else Option.bind (h p) (\<lambda>n.
        if l_element n = x then Some True else list_scan h (l_next n) x))"

definition list_lookup :: "lheap \<Rightarrow> nat \<Rightarrow> int \<Rightarrow> bool option" where
  "list_lookup h l x = do {
     assert_that (l \<noteq> 0);
     n \<leftarrow> h l;
     list_scan h (l_next n) x }"

text \<open>
  The loop of \<^verbatim>\<open>list_delete\<close>: the block before the first occurrence of \<open>e\<close>; 0 stands for
  the \<^verbatim>\<open>return -1\<close> inside the loop.
\<close>

partial_function (option) list_before :: "lheap \<Rightarrow> nat \<Rightarrow> int \<Rightarrow> nat option" where
  "list_before h l e =
     Option.bind (h l) (\<lambda>n.
       Option.bind (h (l_next n)) (\<lambda>m.
         if l_element m \<noteq> e
         then (if l_next m = 0 then Some 0 else list_before h (l_next n) e)
         else Some l))"

definition list_delete :: "lheap \<Rightarrow> nat \<Rightarrow> int \<Rightarrow> (int \<times> lheap) option" where
  "list_delete h l e = do {
     assert_that (l \<noteq> 0);
     n \<leftarrow> h l;
     if l_next n = 0 then Some (-1, h)
     else do {
       p \<leftarrow> list_before h l e;
       if p = 0 then Some (-1, h)
       else do {
         np \<leftarrow> h p;
         m \<leftarrow> h (l_next np);
         Some (e, list_free_block (h(p \<mapsto> np\<lparr>l_next := l_next m\<rparr>)) (l_next np))
       } } }"

text \<open>An iterator is its \<^verbatim>\<open>cur_pos\<close>; \<open>a\<close> is the block \<^verbatim>\<open>mem_alloc\<close> returns for it.\<close>

definition list_iterator :: "nat \<Rightarrow> nat \<Rightarrow> nat option" where
  "list_iterator a l = do {
     assert_that (l \<noteq> 0);
     assert_that (a \<noteq> 0);
     Some l }"

definition list_iterator_has_next :: "lheap \<Rightarrow> nat \<Rightarrow> bool option" where
  "list_iterator_has_next h it = do { n \<leftarrow> h it; Some (l_next n \<noteq> 0) }"

definition list_iterator_next :: "lheap \<Rightarrow> nat \<Rightarrow> (int \<times> nat) option" where
  "list_iterator_next h it = do {
     n \<leftarrow> h it;
     m \<leftarrow> h (l_next n);
     Some (l_element m, l_next n) }"

text \<open>The loop every client writes over an iterator, collecting what it sees.\<close>

partial_function (option) list_iterate :: "lheap \<Rightarrow> nat \<Rightarrow> int list option" where
  "list_iterate h it =
     Option.bind (list_iterator_has_next h it) (\<lambda>more.
       if more
       then Option.bind (list_iterator_next h it) (\<lambda>r.
              Option.bind (list_iterate h (snd r)) (\<lambda>xs. Some (fst r # xs)))
       else Some [])"

section \<open>The operations on sequences of elements\<close>

definition seq_get_first :: "int list \<Rightarrow> int \<times> int list" where
  "seq_get_first xs = (case xs of [] \<Rightarrow> (-1, []) | x # ys \<Rightarrow> (x, ys))"

definition seq_get_last :: "int list \<Rightarrow> int \<times> int list" where
  "seq_get_last xs = (if xs = [] then (-1, []) else (last xs, butlast xs))"

definition seq_delete :: "int list \<Rightarrow> int \<Rightarrow> int \<times> int list" where
  "seq_delete xs e = (if e \<in> set xs then (e, remove1 e xs) else (-1, xs))"

section \<open>Heap shape\<close>

text \<open>\<open>cseg h p ps r\<close>: from \<open>p\<close>, blocks with the addresses and elements \<open>ps\<close> lead to \<open>r\<close>.\<close>

primrec cseg :: "lheap \<Rightarrow> nat \<Rightarrow> (nat \<times> int) list \<Rightarrow> nat \<Rightarrow> bool" where
  "cseg h p [] r \<longleftrightarrow> p = r"
| "cseg h p (ax # ps) r \<longleftrightarrow>
     p = fst ax \<and> p \<noteq> 0 \<and>
     (\<exists>q. h p = Some \<lparr>l_element = snd ax, l_next = q\<rparr> \<and> cseg h q ps r)"

text \<open>A list object: the header block, then the element blocks, all different.\<close>

definition list_rep :: "lheap \<Rightarrow> nat \<Rightarrow> (nat \<times> int) list \<Rightarrow> bool" where
  "list_rep h l ps \<longleftrightarrow>
     distinct (l # map fst ps) \<and> cseg h l ((l, -1) # ps) 0 \<and> (\<forall>e \<in> snd ` set ps. 0 \<le> e)"

lemma cseg_append [simp]: "cseg h p (ps @ qs) r \<longleftrightarrow> (\<exists>m. cseg h p ps m \<and> cseg h m qs r)"
  by (induction ps arbitrary: p) auto

lemma cseg_upd [simp]: "a \<notin> fst ` set ps \<Longrightarrow> cseg (h(a := v)) p ps r = cseg h p ps r"
  by (induction ps arbitrary: p) auto

lemma cseg_0 [simp]: "cseg h 0 ps 0 \<longleftrightarrow> ps = []"
  by (cases ps) auto

lemma cseg_dom: "cseg h p ps r \<Longrightarrow> a \<in> fst ` set ps \<Longrightarrow> h a \<noteq> None"
  by (induction ps arbitrary: p) auto

lemma list_rep_header: "list_rep h l ps \<Longrightarrow> l \<noteq> 0 \<and> (\<exists>q. h l = Some \<lparr>l_element = -1, l_next = q\<rparr> \<and> cseg h q ps 0)"
  by (auto simp: list_rep_def)

lemma list_rep_fresh: "list_rep h l ps \<Longrightarrow> h a = None \<Longrightarrow> a \<noteq> l \<and> a \<notin> fst ` set ps"
  using cseg_dom by (fastforce simp: list_rep_def)

text \<open>Two lists with different blocks do not see each other's updates.\<close>

lemma list_rep_frame:
  assumes "list_rep h l ps" and "\<forall>a \<in> insert l (fst ` set ps). h' a = h a"
  shows "list_rep h' l ps"
proof -
  have "cseg h' p qs r = cseg h p qs r" if "\<forall>a \<in> fst ` set qs. h' a = h a" for p qs r
    using that by (induction qs arbitrary: p) auto
  with assms show ?thesis by (auto simp: list_rep_def)
qed

section \<open>Each operation against its sequence counterpart\<close>

lemma list_new_rep:
  "a \<noteq> 0 \<Longrightarrow> h a = None \<Longrightarrow> list_new a h = (l, h') \<Longrightarrow> l = a \<and> list_rep h' l []"
  by (auto simp: list_new_def list_alloc_def list_rep_def)

lemma list_is_empty_rep: "list_rep h l ps \<Longrightarrow> list_is_empty h l = Some (ps = [])"
  by (cases ps) (auto simp: list_rep_def list_is_empty_def)

lemma list_put_first_rep:
  assumes rep: "list_rep h l ps" and fresh: "a \<noteq> 0" "h a = None" and e: "0 \<le> e"
  obtains h' where "list_put_first a h l e = Some h'" "list_rep h' l ((a, e) # ps)"
    "\<forall>p. p \<notin> {a, l} \<longrightarrow> h' p = h p"
proof -
  from rep obtain q where l: "l \<noteq> 0" "h l = Some \<lparr>l_element = -1, l_next = q\<rparr>" "cseg h q ps 0"
    using list_rep_header by blast
  from list_rep_fresh [OF rep fresh(2)] have a: "a \<noteq> l" "a \<notin> fst ` set ps" by auto
  let ?h = "h(a \<mapsto> \<lparr>l_element = e, l_next = q\<rparr>, l \<mapsto> \<lparr>l_element = -1, l_next = a\<rparr>)"
  have "list_put_first a h l e = Some ?h"
    using l a fresh e by (simp add: list_put_first_def list_alloc_def fun_upd_twist)
  moreover have "list_rep ?h l ((a, e) # ps)"
    using rep l a fresh e by (auto simp: list_rep_def)
  ultimately show ?thesis using that by auto
qed

text \<open>
  The pointer surgery shared by the three removals: the block after \<open>p\<close> is taken out of the
  chain and freed.
\<close>

lemma list_rep_unlink:
  assumes rep: "list_rep h l (us @ (a, y) # vs)" and p: "p = last (l # map fst us)"
  obtains z q where "p \<noteq> 0" "h p = Some \<lparr>l_element = z, l_next = a\<rparr>" "a \<noteq> 0"
    "h a = Some \<lparr>l_element = y, l_next = q\<rparr>" "q = 0 \<longleftrightarrow> vs = []"
    "list_rep (list_free_block (h(p \<mapsto> \<lparr>l_element = z, l_next = q\<rparr>)) a) l (us @ vs)"
    "\<forall>x. x \<notin> insert l (fst ` set (us @ (a, y) # vs)) \<longrightarrow>
       list_free_block (h(p \<mapsto> \<lparr>l_element = z, l_next = q\<rparr>)) a x = h x"
proof -
  obtain rs bz where bz: "(l, -1) # us = rs @ [bz]"
    by (metis list.distinct(1) rev_exhaust)
  have "last (map fst ((l, -1 :: int) # us)) = fst bz" unfolding bz by simp
  then have "p = fst bz" by (simp add: p)
  with bz obtain z where split: "(l, -1) # us = rs @ [(p, z)]"
    by (cases bz) simp
  have all: "(l, -1) # us @ (a, y) # vs = rs @ (p, z) # (a, y) # vs" using split by simp
  have seg: "cseg h l ((l, -1) # us @ (a, y) # vs) 0"
    and dist: "distinct (map fst ((l, -1 :: int) # us @ (a, y) # vs))"
    using rep by (auto simp: list_rep_def)
  from seg [unfolded all] obtain q where pn: "p \<noteq> 0" "h p = Some \<lparr>l_element = z, l_next = a\<rparr>"
    and an: "a \<noteq> 0" "h a = Some \<lparr>l_element = y, l_next = q\<rparr>"
    and pre: "cseg h l rs p" and post: "cseg h q vs 0"
    by auto
  have notin: "p \<notin> fst ` set rs" "a \<notin> fst ` set rs" "a \<noteq> p" "p \<notin> fst ` set vs" "a \<notin> fst ` set vs"
    using dist [unfolded all] by auto
  let ?h = "list_free_block (h(p \<mapsto> \<lparr>l_element = z, l_next = q\<rparr>)) a"
  have "cseg ?h l (rs @ [(p, z)] @ vs) 0"
    using pre pn post notin by (auto simp: list_free_block_def)
  moreover have "rs @ [(p, z)] @ vs = (l, -1) # us @ vs" using split by simp
  ultimately have "cseg ?h l ((l, -1) # us @ vs) 0" by (simp only:)
  then have "list_rep ?h l (us @ vs)"
    using rep by (auto simp: list_rep_def simp del: cseg.simps cseg_append)
  moreover have "q = 0 \<longleftrightarrow> vs = []" using post by (cases vs) auto
  moreover have "p \<in> set (l # map fst us)" unfolding p by (rule last_in_set) simp
  then have "\<forall>x. x \<notin> insert l (fst ` set (us @ (a, y) # vs)) \<longrightarrow> ?h x = h x"
    by (auto simp: list_free_block_def)
  ultimately show ?thesis using that pn an by blast
qed

lemma list_get_first_rep:
  assumes rep: "list_rep h l ps"
  obtains h' where "list_get_first h l = Some (fst (seq_get_first (map snd ps)), h')"
    "list_rep h' l (tl ps)" "\<forall>x. x \<notin> insert l (fst ` set ps) \<longrightarrow> h' x = h x"
proof (cases ps)
  case Nil
  with rep list_is_empty_rep [OF rep] show ?thesis
    by (intro that [of h]) (auto simp: list_get_first_def seq_get_first_def list_rep_def)
next
  case (Cons ay vs)
  obtain a y where ay: "ay = (a, y)" by (cases ay)
  with Cons rep have "list_rep h l ([] @ (a, y) # vs)" by simp
  then obtain z q where "l \<noteq> 0" "h l = Some \<lparr>l_element = z, l_next = a\<rparr>"
    "h a = Some \<lparr>l_element = y, l_next = q\<rparr>"
    "list_rep (list_free_block (h(l \<mapsto> \<lparr>l_element = z, l_next = q\<rparr>)) a) l ([] @ vs)"
    "\<forall>x. x \<notin> insert l (fst ` set ([] @ (a, y) # vs)) \<longrightarrow>
       list_free_block (h(l \<mapsto> \<lparr>l_element = z, l_next = q\<rparr>)) a x = h x"
    by (rule list_rep_unlink [OF _ refl]) simp
  then show ?thesis
    using Cons ay list_is_empty_rep [OF rep]
    by (intro that [of "list_free_block (h(l \<mapsto> \<lparr>l_element = z, l_next = q\<rparr>)) a"])
      (auto simp: list_get_first_def seq_get_first_def)
qed

text \<open>The walk of \<^verbatim>\<open>list_get_last\<close> stops at the last but one block of any non-empty chain.\<close>

lemma list_before_last_seg:
  "cseg h l ((l, x) # ps @ [(a, y)]) 0 \<Longrightarrow> list_before_last h l = Some (last (l # map fst ps))"
proof (induction ps arbitrary: l x)
  case Nil
  then show ?case by (subst list_before_last.simps) auto
next
  case (Cons bz ps)
  from Cons.prems obtain q where b: "h l = Some \<lparr>l_element = x, l_next = fst bz\<rparr>"
    "h (fst bz) = Some \<lparr>l_element = snd bz, l_next = q\<rparr>" "cseg h q (ps @ [(a, y)]) 0"
    and seg: "cseg h (fst bz) ((fst bz, snd bz) # ps @ [(a, y)]) 0"
    by auto
  have "q \<noteq> 0" using b(3) by (cases ps) auto
  with Cons.IH [OF seg] b show ?case by (subst list_before_last.simps) auto
qed

lemma list_get_last_rep:
  assumes rep: "list_rep h l ps"
  obtains h' where "list_get_last h l = Some (fst (seq_get_last (map snd ps)), h')"
    "list_rep h' l (butlast ps)" "\<forall>x. x \<notin> insert l (fst ` set ps) \<longrightarrow> h' x = h x"
proof (cases ps rule: rev_cases)
  case Nil
  with rep show ?thesis
    by (intro that [of h]) (auto simp: list_get_last_def seq_get_last_def list_rep_def)
next
  case (snoc us ay)
  obtain a y where ay: "ay = (a, y)" by (cases ay)
  let ?p = "last (l # map fst us)"
  have walk: "list_before_last h l = Some ?p"
    using list_before_last_seg [of h l "-1" us a y] rep snoc ay by (simp add: list_rep_def)
  have next0: "l \<noteq> 0" "\<exists>q. h l = Some \<lparr>l_element = -1, l_next = q\<rparr> \<and> q \<noteq> 0"
    using rep snoc by (auto simp: list_rep_def, cases us) auto
  from rep snoc ay have "list_rep h l (us @ (a, y) # [])" by simp
  then obtain z where "h ?p = Some \<lparr>l_element = z, l_next = a\<rparr>" "h a = Some \<lparr>l_element = y, l_next = 0\<rparr>"
    "list_rep (list_free_block (h(?p \<mapsto> \<lparr>l_element = z, l_next = 0\<rparr>)) a) l us"
    "\<forall>x. x \<notin> insert l (fst ` set ps) \<longrightarrow>
       list_free_block (h(?p \<mapsto> \<lparr>l_element = z, l_next = 0\<rparr>)) a x = h x"
    using list_rep_unlink [OF _ refl, of h l us a y "[]"] snoc ay
    by (metis append_Nil2)
  then show ?thesis
    using walk next0 snoc ay
    by (intro that [of "list_free_block (h(?p \<mapsto> \<lparr>l_element = z, l_next = 0\<rparr>)) a"])
      (auto simp: list_get_last_def seq_get_last_def)
qed

lemma list_scan_seg: "cseg h p ps 0 \<Longrightarrow> list_scan h p x = Some (x \<in> snd ` set ps)"
proof (induction ps arbitrary: p)
  case Nil
  then show ?case by (subst list_scan.simps) simp
next
  case (Cons ay ps)
  then obtain q where q: "p \<noteq> 0" "h p = Some \<lparr>l_element = snd ay, l_next = q\<rparr>" "cseg h q ps 0"
    by auto
  with Cons.IH [OF q(3)] show ?case by (subst list_scan.simps) auto
qed

lemma list_lookup_rep: "list_rep h l ps \<Longrightarrow> list_lookup h l x = Some (x \<in> set (map snd ps))"
  by (auto simp: list_lookup_def list_rep_def list_scan_seg)

lemma list_before_seg:
  "cseg h l ((l, x) # us @ (a, y) # vs) 0 \<Longrightarrow> y = e \<or> vs = [] \<Longrightarrow> e \<notin> snd ` set us \<Longrightarrow>
   list_before h l e = Some (if y = e then last (l # map fst us) else 0)"
proof (induction us arbitrary: l x)
  case Nil
  then show ?case by (subst list_before.simps) auto
next
  case (Cons bz us)
  from Cons.prems obtain q where b: "h l = Some \<lparr>l_element = x, l_next = fst bz\<rparr>"
    "h (fst bz) = Some \<lparr>l_element = snd bz, l_next = q\<rparr>" "cseg h q (us @ (a, y) # vs) 0"
    and seg: "cseg h (fst bz) ((fst bz, snd bz) # us @ (a, y) # vs) 0"
    by auto
  have "q \<noteq> 0" using b(3) by (cases us) auto
  with Cons.IH [OF seg] Cons.prems b show ?case by (subst list_before.simps) auto
qed

lemma list_delete_absent:
  assumes rep: "list_rep h l ps" and e: "e \<notin> snd ` set ps"
  shows "list_delete h l e = Some (-1, h)"
proof (cases ps rule: rev_cases)
  case Nil
  with rep show ?thesis by (auto simp: list_delete_def list_rep_def)
next
  case (snoc us ay)
  obtain a y where "ay = (a, y)" by (cases ay)
  with rep e snoc have "list_before h l e = Some 0"
    using list_before_seg [of h l "-1" us a y "[]" e] by (auto simp: list_rep_def)
  with rep show ?thesis by (auto simp: list_delete_def list_rep_def)
qed

lemma list_delete_present:
  assumes rep: "list_rep h l (us @ (a, e) # vs)" and e: "e \<notin> snd ` set us"
  obtains h' where "list_delete h l e = Some (e, h')" "list_rep h' l (us @ vs)"
    "\<forall>x. x \<notin> insert l (fst ` set (us @ (a, e) # vs)) \<longrightarrow> h' x = h x"
proof -
  let ?p = "last (l # map fst us)"
  have walk: "list_before h l e = Some ?p"
    using list_before_seg [of h l "-1" us a e vs e] rep e by (simp add: list_rep_def)
  have next0: "l \<noteq> 0" "\<exists>q. h l = Some \<lparr>l_element = -1, l_next = q\<rparr> \<and> q \<noteq> 0"
    using rep by (auto simp: list_rep_def, cases us) auto
  from rep obtain z q where *: "?p \<noteq> 0" "h ?p = Some \<lparr>l_element = z, l_next = a\<rparr>"
    "h a = Some \<lparr>l_element = e, l_next = q\<rparr>"
    "list_rep (list_free_block (h(?p \<mapsto> \<lparr>l_element = z, l_next = q\<rparr>)) a) l (us @ vs)"
    "\<forall>x. x \<notin> insert l (fst ` set (us @ (a, e) # vs)) \<longrightarrow>
       list_free_block (h(?p \<mapsto> \<lparr>l_element = z, l_next = q\<rparr>)) a x = h x"
    by (rule list_rep_unlink [OF _ refl])
  then show ?thesis
    using walk next0 by (intro that [OF _ *(4,5)]) (auto simp: list_delete_def)
qed

lemma list_delete_rep:
  assumes rep: "list_rep h l ps"
  shows "\<exists>h' ps'. list_delete h l e = Some (fst (seq_delete (map snd ps) e), h') \<and>
    list_rep h' l ps' \<and> map snd ps' = snd (seq_delete (map snd ps) e) \<and>
    (\<forall>x. x \<notin> insert l (fst ` set ps) \<longrightarrow> h' x = h x)"
proof (cases "e \<in> snd ` set ps")
  case False
  with list_delete_absent [OF rep False] rep show ?thesis by (auto simp: seq_delete_def)
next
  case True
  then obtain a us vs where ps: "ps = us @ (a, e) # vs" and us: "e \<notin> snd ` set us"
    using split_list_first_prop [of ps "\<lambda>ax. snd ax = e"] by fastforce
  with rep obtain h' where "list_delete h l e = Some (e, h')" "list_rep h' l (us @ vs)"
    "\<forall>x. x \<notin> insert l (fst ` set ps) \<longrightarrow> h' x = h x"
    using list_delete_present [of h l us a e vs] by auto
  with ps us True show ?thesis
    by (intro exI [of _ h'] exI [of _ "us @ vs"]) (auto simp: seq_delete_def remove1_append)
qed

lemma list_empty_rep: "list_rep h l ps \<Longrightarrow> \<exists>h'. list_empty h l = Some h' \<and> list_rep h' l []"
proof (induction ps arbitrary: h)
  case Nil
  with list_is_empty_rep [OF Nil] show ?case by (subst list_empty.simps) auto
next
  case (Cons ax ps)
  from Cons.prems obtain h' where "list_get_first h l = Some (fst (seq_get_first (map snd (ax # ps))), h')"
    "list_rep h' l ps"
    using list_get_first_rep [OF Cons.prems] by auto
  with Cons.IH [of h'] list_is_empty_rep [OF Cons.prems] show ?case
    by (subst list_empty.simps) auto
qed

text \<open>Freeing a list releases its header and its elements, and nothing else.\<close>

lemma list_free_seg:
  "cseg h p ps 0 \<Longrightarrow> distinct (map fst ps) \<Longrightarrow>
   list_free h p = Some (\<lambda>a. if a \<in> fst ` set ps then None else h a)"
proof (induction ps arbitrary: h p)
  case Nil
  then show ?case by (subst list_free.simps) simp
next
  case (Cons ay ps)
  then obtain q where q: "p = fst ay" "p \<noteq> 0" "h p = Some \<lparr>l_element = snd ay, l_next = q\<rparr>" "cseg h q ps 0"
    by auto
  have "cseg (list_free_block h p) q ps 0"
    using Cons.prems q cseg_upd [of p ps h None q 0] by (simp add: list_free_block_def)
  then have "list_free (list_free_block h p) q =
      Some (\<lambda>a. if a \<in> fst ` set ps then None else list_free_block h p a)"
    using Cons.prems by (intro Cons.IH) auto
  with q show ?case
    by (subst list_free.simps) (auto simp: list_free_block_def fun_eq_iff)
qed

lemma list_free_rep:
  "list_rep h l ps \<Longrightarrow> list_free h l = Some (\<lambda>a. if a = l \<or> a \<in> fst ` set ps then None else h a)"
  using list_free_seg [of h l "(l, -1) # ps"] by (auto simp: list_rep_def)

lemma list_iterate_seg: "cseg h p ((p, x) # ps) 0 \<Longrightarrow> list_iterate h p = Some (map snd ps)"
proof (induction ps arbitrary: p x)
  case Nil
  then show ?case by (subst list_iterate.simps) (auto simp: list_iterator_has_next_def)
next
  case (Cons bz ps)
  from Cons.prems have b: "h p = Some \<lparr>l_element = x, l_next = fst bz\<rparr>" "fst bz \<noteq> 0"
    and seg: "cseg h (fst bz) ((fst bz, snd bz) # ps) 0"
    by auto
  from seg obtain q where "h (fst bz) = Some \<lparr>l_element = snd bz, l_next = q\<rparr>" by auto
  with Cons.IH [OF seg] b show ?case
    by (subst list_iterate.simps) (auto simp: list_iterator_has_next_def list_iterator_next_def)
qed

text \<open>An iterator made from a list visits its elements from first to last and stops.\<close>

lemma list_iterator_rep:
  "list_rep h l ps \<Longrightarrow> a \<noteq> 0 \<Longrightarrow> Option.bind (list_iterator a l) (list_iterate h) = Some (map snd ps)"
  by (auto simp: list_iterator_def list_rep_def intro!: list_iterate_seg)

section \<open>The contract of a list of non-negative integers\<close>

text \<open>
  \<open>rep l xs\<close>: the object \<open>l\<close> holds the sequence \<open>xs\<close>. The operations return the object after
  the call, \<open>fresh a l\<close> says that the block \<open>a\<close> is usable for a new element.
\<close>

locale int_list =
  fixes rep :: "'l \<Rightarrow> int list \<Rightarrow> bool"
    and fresh :: "nat \<Rightarrow> 'l \<Rightarrow> bool"
    and is_empty :: "'l \<Rightarrow> bool option"
    and put_first :: "nat \<Rightarrow> 'l \<Rightarrow> int \<Rightarrow> 'l option"
    and get_first :: "'l \<Rightarrow> (int \<times> 'l) option"
    and get_last :: "'l \<Rightarrow> (int \<times> 'l) option"
    and lookup :: "'l \<Rightarrow> int \<Rightarrow> bool option"
    and delete :: "'l \<Rightarrow> int \<Rightarrow> (int \<times> 'l) option"
  assumes nonneg: "rep l xs \<Longrightarrow> e \<in> set xs \<Longrightarrow> 0 \<le> e"
    and is_empty_law: "rep l xs \<Longrightarrow> is_empty l = Some (xs = [])"
    and put_first_law: "rep l xs \<Longrightarrow> fresh a l \<Longrightarrow> 0 \<le> e \<Longrightarrow>
      \<exists>l'. put_first a l e = Some l' \<and> rep l' (e # xs)"
    and get_first_law: "rep l xs \<Longrightarrow>
      \<exists>l'. get_first l = Some (fst (seq_get_first xs), l') \<and> rep l' (snd (seq_get_first xs))"
    and get_last_law: "rep l xs \<Longrightarrow>
      \<exists>l'. get_last l = Some (fst (seq_get_last xs), l') \<and> rep l' (snd (seq_get_last xs))"
    and lookup_law: "rep l xs \<Longrightarrow> lookup l e = Some (e \<in> set xs)"
    and delete_law: "rep l xs \<Longrightarrow>
      \<exists>l'. delete l e = Some (fst (seq_delete xs e), l') \<and> rep l' (snd (seq_delete xs e))"
begin

text \<open>A negative answer of \<open>get_first\<close> or \<open>get_last\<close> means that the list was empty.\<close>

lemma get_first_neg: "rep l xs \<Longrightarrow> get_first l = Some (v, l') \<Longrightarrow> v < 0 \<longleftrightarrow> xs = []"
  using get_first_law [of l xs] nonneg [of l xs v]
  by (cases xs) (auto simp: seq_get_first_def)

lemma get_last_neg: "rep l xs \<Longrightarrow> get_last l = Some (v, l') \<Longrightarrow> v < 0 \<longleftrightarrow> xs = []"
  using get_last_law [of l xs] nonneg [of l xs v]
  by (cases xs rule: rev_cases) (auto simp: seq_get_last_def)

text \<open>
  First in, first out: an element put in front of a list that already holds some is not the
  one \<open>get_last\<close> takes, and what remains is the old sequence without its oldest element.
\<close>

lemma fifo:
  assumes "rep l (xs @ [y])" and "fresh a l" and "0 \<le> e"
  shows "\<exists>l1 l2. put_first a l e = Some l1 \<and> get_last l1 = Some (y, l2) \<and> rep l2 (e # xs)"
proof -
  from put_first_law [OF assms] obtain l1 where l1: "put_first a l e = Some l1" "rep l1 (e # xs @ [y])"
    by auto
  with get_last_law [of l1 "e # xs @ [y]"] show ?thesis by (auto simp: seq_get_last_def)
qed

lemma delete_then_lookup:
  assumes "rep l xs" and "distinct xs"
  shows "\<exists>l'. delete l e = Some (if e \<in> set xs then e else -1, l') \<and> lookup l' e = Some False"
proof -
  from delete_law [OF assms(1), of e] obtain l'
    where l': "delete l e = Some (fst (seq_delete xs e), l')" "rep l' (snd (seq_delete xs e))"
    by auto
  with lookup_law [OF l'(2), of e] assms(2) show ?thesis by (auto simp: seq_delete_def)
qed

end

text \<open>A heap together with the address of a header is such an object.\<close>

definition heap_list :: "lheap \<times> nat \<Rightarrow> int list \<Rightarrow> bool" where
  "heap_list hl xs \<longleftrightarrow> (\<exists>ps. list_rep (fst hl) (snd hl) ps \<and> xs = map snd ps)"

definition heap_fresh :: "nat \<Rightarrow> lheap \<times> nat \<Rightarrow> bool" where
  "heap_fresh a hl \<longleftrightarrow> a \<noteq> 0 \<and> fst hl a = None"

interpretation hl: int_list heap_list heap_fresh
  "\<lambda>hl. list_is_empty (fst hl) (snd hl)"
  "\<lambda>a hl e. map_option (\<lambda>h. (h, snd hl)) (list_put_first a (fst hl) (snd hl) e)"
  "\<lambda>hl. map_option (map_prod id (\<lambda>h. (h, snd hl))) (list_get_first (fst hl) (snd hl))"
  "\<lambda>hl. map_option (map_prod id (\<lambda>h. (h, snd hl))) (list_get_last (fst hl) (snd hl))"
  "\<lambda>hl e. list_lookup (fst hl) (snd hl) e"
  "\<lambda>hl e. map_option (map_prod id (\<lambda>h. (h, snd hl))) (list_delete (fst hl) (snd hl) e)"
proof (standard, goal_cases)
  case (1 l xs e)
  then show ?case by (auto simp: heap_list_def list_rep_def)
next
  case (2 l xs)
  then show ?case by (auto simp: heap_list_def list_is_empty_rep)
next
  case (3 l xs a e)
  then obtain ps where ps: "list_rep (fst l) (snd l) ps" "xs = map snd ps"
    by (auto simp: heap_list_def)
  with 3 obtain h' where "list_put_first a (fst l) (snd l) e = Some h'" "list_rep h' (snd l) ((a, e) # ps)"
    using list_put_first_rep [OF ps(1), of a e] by (auto simp: heap_fresh_def)
  with ps show ?case by (auto simp: heap_list_def intro!: exI [of _ "(a, e) # ps"])
next
  case (4 l xs)
  then obtain ps where ps: "list_rep (fst l) (snd l) ps" "xs = map snd ps"
    by (auto simp: heap_list_def)
  with list_get_first_rep [OF ps(1)] obtain h' where
    "list_get_first (fst l) (snd l) = Some (fst (seq_get_first xs), h')" "list_rep h' (snd l) (tl ps)"
    by auto
  with ps show ?case
    by (cases ps) (auto simp: heap_list_def seq_get_first_def)
next
  case (5 l xs)
  then obtain ps where ps: "list_rep (fst l) (snd l) ps" "xs = map snd ps"
    by (auto simp: heap_list_def)
  with list_get_last_rep [OF ps(1)] obtain h' where
    "list_get_last (fst l) (snd l) = Some (fst (seq_get_last xs), h')" "list_rep h' (snd l) (butlast ps)"
    by auto
  with ps show ?case
    by (auto simp: heap_list_def seq_get_last_def map_butlast intro!: exI [of _ "butlast ps"])
next
  case (6 l xs e)
  then show ?case by (auto simp: heap_list_def list_lookup_rep)
next
  case (7 l xs e)
  then obtain ps where ps: "list_rep (fst l) (snd l) ps" "xs = map snd ps"
    by (auto simp: heap_list_def)
  from list_delete_rep [OF ps(1), of e] obtain h' ps' where
    "list_delete (fst l) (snd l) e = Some (fst (seq_delete xs e), h')"
    "list_rep h' (snd l) ps'" "map snd ps' = snd (seq_delete xs e)"
    unfolding ps(2) by blast
  then show ?case
    by (intro exI [of _ "(h', snd l)"]) (auto simp: heap_list_def intro!: exI [of _ ps'])
qed

section \<open>Properties\<close>

text \<open>A heap with one list, at the address 8, that holds 5 and 7.\<close>

definition ex_heap :: lheap where
  "ex_heap = [8 \<mapsto> \<lparr>l_element = -1, l_next = 16\<rparr>, 16 \<mapsto> \<lparr>l_element = 5, l_next = 24\<rparr>, 24 \<mapsto> \<lparr>l_element = 7, l_next = 0\<rparr>]"

lemma ex_heap_list: "heap_list (ex_heap, 8) [5, 7]"
proof -
  have "list_rep ex_heap 8 [(16, 5), (24, 7)]" by (simp add: list_rep_def ex_heap_def)
  then show ?thesis unfolding heap_list_def by (intro exI [of _ "[(16, 5), (24, 7)]"]) simp
qed

text \<open>
  C28. Queue discipline of the lists: an element put in front of a list that holds elements
  is taken by \<^verbatim>\<open>list_get_last\<close> after all of them; the next one taken is the oldest.
\<close>

theorem list_fifo:
  assumes "heap_list (h, l) (xs @ [y])" and "heap_fresh a (h, l)" and "0 \<le> e"
  shows "\<exists>h1 h2. list_put_first a h l e = Some h1 \<and> list_get_last h1 l = Some (y, h2) \<and> heap_list (h2, l) (e # xs)"
  using hl.fifo [OF assms] by auto

theorem list_fifo_witness:
  "\<exists>h1 h2. list_put_first 32 ex_heap 8 9 = Some h1 \<and> list_get_last h1 8 = Some (7, h2) \<and> heap_list (h2, 8) [9, 5]"
  by (rule list_fifo) (simp_all add: ex_heap_list heap_fresh_def, simp add: ex_heap_def)

text \<open>
  \<^verbatim>\<open>list_delete\<close> terminates, removes the first occurrence of the element from the chain and
  returns it, or returns -1 and leaves the elements as they are when there is none.
\<close>

lemma list_delete_removes:
  assumes "heap_list (h, l) xs"
  shows "\<exists>h'. list_delete h l e = Some (if e \<in> set xs then e else -1, h') \<and> heap_list (h', l) (remove1 e xs)"
proof -
  from hl.delete_law [OF assms, of e] obtain h' where
    "list_delete h l e = Some (fst (seq_delete xs e), h')" "heap_list (h', l) (snd (seq_delete xs e))" by auto
  then show ?thesis by (auto simp: seq_delete_def remove1_idem)
qed

lemma list_delete_removes_witness:
  "\<exists>h'. list_delete ex_heap 8 5 = Some (if 5 \<in> set [5, 7 :: int] then 5 else -1, h') \<and> heap_list (h', 8) (remove1 5 [5, 7])"
  by (rule list_delete_removes) (rule ex_heap_list)

text \<open>
  \<^verbatim>\<open>list_free\<close> terminates and gives back the header and every block of the list, and no other
  block.
\<close>

lemma list_free_exact:
  assumes "list_rep h l ps"
  shows "list_free h l = Some (\<lambda>a. if a = l \<or> a \<in> fst ` set ps then None else h a)"
  using list_free_rep [OF assms] .

lemma list_free_exact_witness:
  "list_free ex_heap 8 = Some (\<lambda>a. if a = 8 \<or> a \<in> fst ` set [(16, 5 :: int), (24, 7)] then None else ex_heap a)"
  by (rule list_free_exact) (simp add: list_rep_def ex_heap_def)

end
