(* ===== verification/Pqueue.thy ===== *)
theory Pqueue
  imports Prelude
begin

text \<open>
  The priority queue of \<^verbatim>\<open>shared/queue.h\<close>, used for the processes that are ready to run.

  The macros work on \<^verbatim>\<open>link\<close> fields embedded in the elements. A link is identified here by
  the key of the element that holds it, so \<^verbatim>\<open>queue_entry\<close> is the identity; the head of the
  queue has a key of its own. A store \<open>links\<close> gives the two pointers of every link, \<open>None\<close>
  being the null pointer. The priority field is read through the function \<open>prio\<close>.
  \<open>dll L h xs\<close> says that the links of \<open>L\<close> form a circular doubly linked list with head \<open>h\<close> and
  elements \<open>xs\<close>, in the order of the \<^verbatim>\<open>next\<close> pointers. The locale \<open>prio_queue\<close> is the contract
  of the queue, interpreted on the macros.
\<close>

section \<open>The macros\<close>

record link =
  q_prev :: "int option"
  q_next :: "int option"

type_synonym links = "int \<Rightarrow> link"

definition INIT_LIST_HEAD :: "int \<Rightarrow> links \<Rightarrow> links" where
  "INIT_LIST_HEAD h L = L(h := \<lparr>q_prev = Some h, q_next = Some h\<rparr>)"

definition INIT_LINK :: "int \<Rightarrow> links \<Rightarrow> links" where
  "INIT_LINK e L = L(e := \<lparr>q_prev = None, q_next = None\<rparr>)"

text \<open>The search of \<^verbatim>\<open>queue_add\<close>: \<^verbatim>\<open>do cur = cur->next; while (cur != head && prio(cur) < p)\<close>.\<close>

partial_function (option) queue_scan :: "links \<Rightarrow> (int \<Rightarrow> int) \<Rightarrow> int \<Rightarrow> int \<Rightarrow> int \<Rightarrow> int option" where
  "queue_scan L prio h p cur =
     Option.bind (q_next (L cur)) (\<lambda>c.
       if c \<noteq> h \<and> prio c < p then queue_scan L prio h p c else Some c)"

definition queue_add :: "(int \<Rightarrow> int) \<Rightarrow> int \<Rightarrow> int \<Rightarrow> links \<Rightarrow> links option" where
  "queue_add prio h e L = do {
     assert_that (q_prev (L e) = None \<and> q_next (L e) = None);
     cur \<leftarrow> queue_scan L prio h (prio e) h;
     let L = L(e := (L e)\<lparr>q_next := Some cur\<rparr>);
     let L = L(e := (L e)\<lparr>q_prev := q_prev (L cur)\<rparr>);
     p \<leftarrow> q_prev (L cur);
     let L = L(p := (L p)\<lparr>q_next := Some e\<rparr>);
     Some (L(cur := (L cur)\<lparr>q_prev := Some e\<rparr>)) }"

definition queue_empty :: "int \<Rightarrow> links \<Rightarrow> bool" where
  "queue_empty h L \<longleftrightarrow> q_next (L h) = Some h"

definition queue_out :: "int \<Rightarrow> links \<Rightarrow> (int option \<times> links) option" where
  "queue_out h L =
     (if queue_empty h L then Some (None, L)
      else do {
        e \<leftarrow> q_prev (L h);
        p \<leftarrow> q_prev (L e);
        let L = L(h := (L h)\<lparr>q_prev := Some p\<rparr>);
        let L = L(p := (L p)\<lparr>q_next := Some h\<rparr>);
        let L = L(e := (L e)\<lparr>q_prev := None\<rparr>);
        Some (Some e, L(e := (L e)\<lparr>q_next := None\<rparr>)) })"

definition queue_del :: "int \<Rightarrow> links \<Rightarrow> links option" where
  "queue_del e L = do {
     assert_that (q_prev (L e) \<noteq> None \<and> q_next (L e) \<noteq> None);
     p \<leftarrow> q_prev (L e);
     let L = L(p := (L p)\<lparr>q_next := q_next (L e)\<rparr>);
     n \<leftarrow> q_next (L e);
     let L = L(n := (L n)\<lparr>q_prev := q_prev (L e)\<rparr>);
     let L = L(e := (L e)\<lparr>q_next := None\<rparr>);
     Some (L(e := (L e)\<lparr>q_prev := None\<rparr>)) }"

definition queue_top :: "int \<Rightarrow> links \<Rightarrow> int option" where
  "queue_top h L = (if queue_empty h L then None else q_prev (L h))"

text \<open>
  The elements \<^verbatim>\<open>queue_for_each\<close> and \<^verbatim>\<open>queue_for_each_prev\<close> visit, in order, starting from the
  link \<open>cur\<close> is followed by (preceded by).
\<close>

partial_function (option) queue_for_each :: "links \<Rightarrow> int \<Rightarrow> int \<Rightarrow> int list option" where
  "queue_for_each L h cur =
     Option.bind (q_next (L cur)) (\<lambda>c.
       if c = h then Some []
       else Option.bind (queue_for_each L h c) (\<lambda>xs. Some (c # xs)))"

partial_function (option) queue_for_each_prev :: "links \<Rightarrow> int \<Rightarrow> int \<Rightarrow> int list option" where
  "queue_for_each_prev L h cur =
     Option.bind (q_prev (L cur)) (\<lambda>c.
       if c = h then Some []
       else Option.bind (queue_for_each_prev L h c) (\<lambda>xs. Some (c # xs)))"

section \<open>Shape of the list\<close>

primrec seg :: "links \<Rightarrow> int \<Rightarrow> int list \<Rightarrow> int \<Rightarrow> bool" where
  "seg L a [] b \<longleftrightarrow> q_next (L a) = Some b \<and> q_prev (L b) = Some a"
| "seg L a (x # xs) b \<longleftrightarrow> q_next (L a) = Some x \<and> q_prev (L x) = Some a \<and> seg L x xs b"

definition dll :: "links \<Rightarrow> int \<Rightarrow> int list \<Rightarrow> bool" where
  "dll L h xs \<longleftrightarrow> distinct (h # xs) \<and> seg L h xs h"

text \<open>Where \<^verbatim>\<open>queue_add\<close> puts an element: before the first one of at least its priority.\<close>

definition prio_insert :: "(int \<Rightarrow> int) \<Rightarrow> int \<Rightarrow> int list \<Rightarrow> int list" where
  "prio_insert prio e xs =
     takeWhile (\<lambda>x. prio x < prio e) xs @ e # dropWhile (\<lambda>x. prio x < prio e) xs"

lemma seg_append [simp]: "seg L a (xs @ y # ys) b \<longleftrightarrow> seg L a xs y \<and> seg L y ys b"
  by (induction xs arbitrary: a) auto

lemma seg_cong:
  "\<lbrakk> \<forall>y \<in> set (a # xs). q_next (L' y) = q_next (L y);
     \<forall>y \<in> set (xs @ [b]). q_prev (L' y) = q_prev (L y) \<rbrakk> \<Longrightarrow> seg L' a xs b = seg L a xs b"
  by (induction xs arbitrary: a) auto

lemma seg_first: "seg L a xs b \<Longrightarrow> q_next (L a) = Some (hd (xs @ [b]))"
  by (cases xs) auto

lemma seg_last: "seg L a xs b \<Longrightarrow> q_prev (L b) = Some (last (a # xs))"
  by (induction xs arbitrary: a) auto

lemma dll_init: "dll (INIT_LIST_HEAD h L) h []"
  by (simp add: dll_def INIT_LIST_HEAD_def)

lemma dll_cong: "\<forall>y \<in> set (h # xs). L' y = L y \<Longrightarrow> dll L' h xs = dll L h xs"
  unfolding dll_def using seg_cong [of h xs L' L h] by auto

lemma dll_unique: "dll L h xs \<Longrightarrow> dll L h ys \<Longrightarrow> xs = ys"
proof -
  have "seg L a xs h \<Longrightarrow> seg L a ys h \<Longrightarrow> h \<notin> set xs \<Longrightarrow> h \<notin> set ys \<Longrightarrow> xs = ys" for a
  proof (induction xs arbitrary: a ys)
    case Nil
    then show ?case by (cases ys) auto
  next
    case (Cons x xs)
    then show ?case by (cases ys) auto
  qed
  then show "dll L h xs \<Longrightarrow> dll L h ys \<Longrightarrow> xs = ys" by (auto simp: dll_def)
qed

section \<open>The macros on a well formed queue\<close>

lemma queue_empty_dll: "dll L h xs \<Longrightarrow> queue_empty h L \<longleftrightarrow> xs = []"
  by (cases xs) (auto simp: dll_def queue_empty_def)

lemma queue_top_dll: "dll L h xs \<Longrightarrow> queue_top h L = (if xs = [] then None else Some (last xs))"
  using queue_empty_dll [of L h xs] seg_last [of L h xs h] by (auto simp: queue_top_def dll_def)

text \<open>The search stops at the first element that is not of smaller priority, or at the head.\<close>

lemma queue_scan_seg:
  "seg L a xs h \<Longrightarrow> h \<notin> set xs \<Longrightarrow>
   queue_scan L prio h p a = Some (hd (dropWhile (\<lambda>x. prio x < p) xs @ [h]))"
proof (induction xs arbitrary: a)
  case Nil
  then show ?case by (subst queue_scan.simps) simp
next
  case (Cons x xs)
  then show ?case by (subst queue_scan.simps) auto
qed

text \<open>
  The pointer surgery of the macros. \<open>seg_retarget\<close>: only the last pointer of a segment
  moves; \<open>dll_link\<close> and \<open>dll_unlink\<close>: an element goes in between two neighbours, or out.
\<close>

lemma seg_retarget:
  assumes "seg L a xs b" and "distinct (a # xs)" and "p = last (a # xs)"
    and "\<forall>y \<in> set (a # xs). y \<noteq> p \<longrightarrow> q_next (L' y) = q_next (L y)"
    and "\<forall>y \<in> set xs. q_prev (L' y) = q_prev (L y)"
    and "q_next (L' p) = Some e" and "q_prev (L' e) = Some p"
  shows "seg L' a xs e"
  using assms
proof (induction xs arbitrary: a)
  case (Cons x xs)
  then have "seg L' x xs e" by (intro Cons.IH) auto
  moreover have "a \<noteq> p" using Cons.prems(2,3) last_in_set [of "x # xs"] by auto
  ultimately show ?case using Cons.prems by auto
qed simp

lemma seg_frame:
  assumes nxt: "\<forall>x. x \<notin> {e, p} \<longrightarrow> q_next (L' x) = q_next (L x)"
    and prv: "\<forall>x. x \<notin> {e, c} \<longrightarrow> q_prev (L' x) = q_prev (L x)"
    and "e \<notin> set (a # xs @ [b])" and "p \<notin> set (a # xs)" and "c \<notin> set (xs @ [b])"
  shows "seg L' a xs b = seg L a xs b"
proof (rule seg_cong)
  show "\<forall>y \<in> set (a # xs). q_next (L' y) = q_next (L y)" using assms by fastforce
  show "\<forall>y \<in> set (xs @ [b]). q_prev (L' y) = q_prev (L y)" using assms by fastforce
qed

lemma dll_link:
  assumes dll: "dll L h (xs @ ys)" and e: "e \<notin> set (h # xs @ ys)"
    and c: "c = hd (ys @ [h])" and p: "p = last (h # xs)"
    and nxt: "\<forall>x. x \<notin> {e, p} \<longrightarrow> q_next (L' x) = q_next (L x)"
    and prv: "\<forall>x. x \<notin> {e, c} \<longrightarrow> q_prev (L' x) = q_prev (L x)"
    and L'e: "q_next (L' e) = Some c" "q_prev (L' e) = Some p"
    and L': "q_next (L' p) = Some e" "q_prev (L' c) = Some e"
  shows "dll L' h (xs @ e # ys)"
proof -
  have dist: "distinct (h # xs @ ys)" and sg: "seg L h (xs @ ys) h"
    using dll by (auto simp: dll_def)
  have pn: "p \<in> set (h # xs)" unfolding p by (rule last_in_set) simp
  have left: "seg L' h xs e" if "seg L h xs b" "\<forall>y \<in> set xs. y \<noteq> c" for b
  proof (rule seg_retarget [OF that(1) _ p])
    show "\<forall>y \<in> set (h # xs). y \<noteq> p \<longrightarrow> q_next (L' y) = q_next (L y)" using nxt e by auto
    show "\<forall>y \<in> set xs. q_prev (L' y) = q_prev (L y)" using prv e that(2) by auto
  qed (use dist L' L'e in auto)
  show ?thesis
  proof (cases ys)
    case Nil
    with sg left [of h] dist c L' L'e e show ?thesis by (auto simp: dll_def)
  next
    case (Cons c' ys')
    with c have "ys = c # ys'" by simp
    moreover from this sg have "seg L h xs c" "seg L c ys' h" by auto
    moreover have "seg L' c ys' h = seg L c ys' h"
      using dist e pn \<open>ys = c # ys'\<close> by (intro seg_frame [OF nxt prv]) auto
    ultimately show ?thesis using left [of c] dist L' L'e e by (auto simp: dll_def)
  qed
qed

lemma dll_unlink:
  assumes dll: "dll L h (xs @ e # ys)"
    and c: "c = hd (ys @ [h])" and p: "p = last (h # xs)"
    and nxt: "\<forall>x. x \<notin> {e, p} \<longrightarrow> q_next (L' x) = q_next (L x)"
    and prv: "\<forall>x. x \<notin> {e, c} \<longrightarrow> q_prev (L' x) = q_prev (L x)"
    and L': "q_next (L' p) = Some c" "q_prev (L' c) = Some p"
  shows "dll L' h (xs @ ys)"
proof -
  have dist: "distinct (h # xs @ e # ys)" and sg: "seg L h xs e" "seg L e ys h"
    using dll by (auto simp: dll_def)
  have pn: "p \<in> set (h # xs)" unfolding p by (rule last_in_set) simp
  have left: "seg L' h xs c"
  proof (rule seg_retarget [OF sg(1) _ p])
    show "\<forall>y \<in> set (h # xs). y \<noteq> p \<longrightarrow> q_next (L' y) = q_next (L y)" using nxt dist by auto
    have "c \<notin> set xs" using dist c by (cases ys) auto
    then show "\<forall>y \<in> set xs. q_prev (L' y) = q_prev (L y)" using prv dist by fastforce
  qed (use dist L' in auto)
  show ?thesis
  proof (cases ys)
    case Nil
    with left dist c show ?thesis by (auto simp: dll_def)
  next
    case (Cons c' ys')
    with c have ys: "ys = c # ys'" by simp
    have "seg L' c ys' h = seg L c ys' h"
      using dist pn ys by (intro seg_frame [OF nxt prv]) auto
    with left ys sg(2) dist show ?thesis by (auto simp: dll_def)
  qed
qed

lemma seg_next_last: "seg L a xs b \<Longrightarrow> q_next (L (last (a # xs))) = Some b"
  by (induction xs arbitrary: a) auto

lemma dll_neighbours:
  assumes "dll L h (xs @ ys)"
  shows "q_prev (L (hd (ys @ [h]))) = Some (last (h # xs)) \<and>
    q_next (L (last (h # xs))) = Some (hd (ys @ [h]))"
proof -
  have "seg L h xs (hd (ys @ [h]))" using assms by (cases ys) (auto simp: dll_def)
  then show ?thesis using seg_last seg_next_last by blast
qed

lemma queue_add_dll:
  assumes dll: "dll L h xs" and e: "e \<notin> set (h # xs)" and null: "q_prev (L e) = None" "q_next (L e) = None"
  obtains L' where "queue_add prio h e L = Some L'" "dll L' h (prio_insert prio e xs)"
    "\<forall>x. x \<notin> set (h # e # xs) \<longrightarrow> L' x = L x"
proof -
  define us vs where uv: "us = takeWhile (\<lambda>x. prio x < prio e) xs" "vs = dropWhile (\<lambda>x. prio x < prio e) xs"
  then have xs: "xs = us @ vs" by simp
  define c p where cp: "c = hd (vs @ [h])" "p = last (h # us)"
  have scan: "queue_scan L prio h (prio e) h = Some c"
    using queue_scan_seg [of L h xs h prio "prio e"] dll uv cp by (simp add: dll_def)
  have nb: "q_prev (L c) = Some p" "q_next (L p) = Some c"
    using dll_neighbours [of L h us vs] dll xs cp by auto
  have "p \<in> set (h # us)" unfolding cp by (rule last_in_set) simp
  then have pmem: "p \<in> set (h # xs)" using xs by auto
  have cmem: "c \<in> set (h # xs)" using xs cp by (cases vs) auto
  have ne: "e \<noteq> c" "e \<noteq> p" using e pmem cmem by auto
  let ?L1 = "L(e := \<lparr>q_prev = Some p, q_next = Some c\<rparr>)"
  let ?L2 = "?L1(p := (?L1 p)\<lparr>q_next := Some e\<rparr>)"
  let ?L = "?L2(c := (?L2 c)\<lparr>q_prev := Some e\<rparr>)"
  have "queue_add prio h e L = Some ?L"
    using scan nb ne null by (cases "L e") (simp add: queue_add_def Let_def)
  moreover have "dll ?L h (us @ e # vs)"
  proof (rule dll_link [OF _ _ cp])
    show "dll L h (us @ vs)" using dll xs by simp
    show "e \<notin> set (h # us @ vs)" using e xs by simp
  qed (use ne in auto)
  moreover have "\<forall>x. x \<notin> set (h # e # xs) \<longrightarrow> ?L x = L x" using pmem cmem by auto
  ultimately show ?thesis using that uv by (simp add: prio_insert_def)
qed

lemma queue_del_dll:
  assumes dll: "dll L h xs" and e: "e \<in> set xs"
  obtains L' where "queue_del e L = Some L'" "dll L' h (remove1 e xs)"
    "L' e = \<lparr>q_prev = None, q_next = None\<rparr>" "\<forall>x. x \<notin> set (h # xs) \<longrightarrow> L' x = L x"
proof -
  obtain us vs where xs: "xs = us @ e # vs" and us: "e \<notin> set us"
    using e split_list_first by metis
  have dist: "distinct (h # us @ e # vs)" using dll xs by (simp add: dll_def)
  define c p where cp: "c = hd (vs @ [h])" "p = last (h # us)"
  have nb: "q_prev (L e) = Some p" "q_next (L p) = Some e" "q_prev (L c) = Some e" "q_next (L e) = Some c"
    using dll_neighbours [of L h us "e # vs"] dll_neighbours [of L h "us @ [e]" vs] dll xs cp by auto
  have "p \<in> set (h # us)" unfolding cp by (rule last_in_set) simp
  moreover have "c \<in> set (h # vs)" using cp by (cases vs) auto
  ultimately have ne: "e \<noteq> c" "e \<noteq> p" and mem: "p \<in> set (h # xs)" "c \<in> set (h # xs)"
    using dist xs by auto
  let ?L1 = "L(p := (L p)\<lparr>q_next := Some c\<rparr>)"
  let ?L2 = "?L1(c := (?L1 c)\<lparr>q_prev := Some p\<rparr>)"
  let ?L = "?L2(e := \<lparr>q_prev = None, q_next = None\<rparr>)"
  have "queue_del e L = Some ?L"
    using nb ne by (cases "L e") (simp add: queue_del_def Let_def)
  moreover have "dll ?L h (us @ vs)"
  proof (rule dll_unlink [OF _ cp])
    show "dll L h (us @ e # vs)" using dll xs by simp
  qed (use ne in auto)
  moreover have "remove1 e xs = us @ vs" using xs us by (simp add: remove1_append)
  moreover have "\<forall>x. x \<notin> set (h # xs) \<longrightarrow> ?L x = L x" using mem e by auto
  ultimately show ?thesis using that by simp
qed

lemma queue_out_dll:
  assumes dll: "dll L h xs" and ne: "xs \<noteq> []"
  obtains L' where "queue_out h L = Some (Some (last xs), L')" "dll L' h (butlast xs)"
    "L' (last xs) = \<lparr>q_prev = None, q_next = None\<rparr>" "\<forall>x. x \<notin> set (h # xs) \<longrightarrow> L' x = L x"
proof -
  obtain us e where xs: "xs = us @ [e]" using ne by (metis append_butlast_last_id)
  have dist: "distinct (h # us @ [e])" using dll xs by (simp add: dll_def)
  define p where p: "p = last (h # us)"
  have nb: "q_prev (L e) = Some p" "q_prev (L h) = Some e"
    using dll_neighbours [of L h us "[e]"] dll_neighbours [of L h "us @ [e]" "[]"] dll xs p by auto
  have "p \<in> set (h # us)" unfolding p by (rule last_in_set) simp
  then have pe: "e \<noteq> p" "e \<noteq> h" and mem: "p \<in> set (h # xs)" using dist xs by auto
  let ?L1 = "L(h := (L h)\<lparr>q_prev := Some p\<rparr>)"
  let ?L2 = "?L1(p := (?L1 p)\<lparr>q_next := Some h\<rparr>)"
  let ?L = "?L2(e := \<lparr>q_prev = None, q_next = None\<rparr>)"
  have "queue_out h L = Some (Some e, ?L)"
    using nb pe queue_empty_dll [OF dll] ne by (cases "L e") (simp add: queue_out_def Let_def)
  moreover have "dll ?L h (us @ [])"
  proof (rule dll_unlink [OF _ _ p])
    show "dll L h (us @ e # [])" using dll xs by simp
  qed (use pe in auto)
  moreover have "\<forall>x. x \<notin> set (h # xs) \<longrightarrow> ?L x = L x" using mem xs by auto
  ultimately show ?thesis using that xs by simp
qed

lemma queue_out_empty: "dll L h [] \<Longrightarrow> queue_out h L = Some (None, L)"
  by (simp add: queue_out_def queue_empty_dll)

lemma queue_for_each_seg: "seg L a xs h \<Longrightarrow> h \<notin> set xs \<Longrightarrow> queue_for_each L h a = Some xs"
proof (induction xs arbitrary: a)
  case Nil
  then show ?case by (subst queue_for_each.simps) simp
next
  case (Cons x xs)
  then show ?case by (subst queue_for_each.simps) auto
qed

lemma queue_for_each_dll: "dll L h xs \<Longrightarrow> queue_for_each L h h = Some xs"
  by (rule queue_for_each_seg) (auto simp: dll_def)

lemma queue_for_each_prev_seg: "seg L h xs b \<Longrightarrow> h \<notin> set xs \<Longrightarrow> queue_for_each_prev L h b = Some (rev xs)"
proof (induction xs arbitrary: b rule: rev_induct)
  case Nil
  then show ?case by (subst queue_for_each_prev.simps) simp
next
  case (snoc x xs)
  then show ?case by (subst queue_for_each_prev.simps) auto
qed

lemma queue_for_each_prev_dll: "dll L h xs \<Longrightarrow> queue_for_each_prev L h h = Some (rev xs)"
  by (rule queue_for_each_prev_seg) (auto simp: dll_def)

section \<open>The order of service\<close>

lemma set_prio_insert [simp]: "set (prio_insert prio e xs) = insert e (set xs)"
  unfolding prio_insert_def by (metis set_append takeWhile_dropWhile_id list.simps(15) Un_insert_right)

lemma prio_insert_not_Nil [simp]: "prio_insert prio e xs \<noteq> []"
  by (simp add: prio_insert_def)

lemma distinct_prio_insert: "distinct xs \<Longrightarrow> e \<notin> set xs \<Longrightarrow> distinct (prio_insert prio e xs)"
  by (induction xs) (auto simp: prio_insert_def dest: set_takeWhileD set_dropWhileD)

lemma sorted_prio_insert: "sorted (map prio xs) \<Longrightarrow> sorted (map prio (prio_insert prio e xs))"
  by (induction xs) (auto simp: prio_insert_def dest: set_takeWhileD set_dropWhileD)

lemma last_prio_insert:
  assumes "sorted (map prio xs)" and "xs \<noteq> []"
  shows "last (prio_insert prio e xs) = (if prio (last xs) < prio e then e else last xs)"
proof (cases "prio (last xs) < prio e")
  case True
  with sorted_map_last [OF assms(1)] have "\<forall>x \<in> set xs. prio x < prio e" by fastforce
  then have "dropWhile (\<lambda>x. prio x < prio e) xs = []" by simp
  with True show ?thesis by (simp add: prio_insert_def)
next
  case False
  with assms(2) have ne: "dropWhile (\<lambda>x. prio x < prio e) xs \<noteq> []"
    using last_in_set by (auto simp: dropWhile_eq_Nil_conv)
  then have "last (dropWhile (\<lambda>x. prio x < prio e) xs) = last xs"
    by (metis last_appendR takeWhile_dropWhile_id)
  with False ne show ?thesis by (auto simp: prio_insert_def)
qed

text \<open>
  The contract. \<open>rep q xs\<close>: the queue \<open>q\<close> holds the elements \<open>xs\<close>, the one to be served next
  at the end; \<open>free q e\<close>: \<open>e\<close> is not linked. The list is sorted by priority, and among equal
  priorities the elements that arrived first stand last.
\<close>

locale prio_queue =
  fixes prio :: "int \<Rightarrow> int"
    and rep :: "'q \<Rightarrow> int list \<Rightarrow> bool"
    and free :: "'q \<Rightarrow> int \<Rightarrow> bool"
    and empty :: "'q \<Rightarrow> bool"
    and add :: "int \<Rightarrow> 'q \<Rightarrow> 'q option"
    and out :: "'q \<Rightarrow> (int option \<times> 'q) option"
    and top :: "'q \<Rightarrow> int option"
    and del :: "int \<Rightarrow> 'q \<Rightarrow> 'q option"
  assumes rep_sorted: "rep q xs \<Longrightarrow> sorted (map prio xs)"
    and empty_law: "rep q xs \<Longrightarrow> empty q \<longleftrightarrow> xs = []"
    and add_law: "rep q xs \<Longrightarrow> free q e \<Longrightarrow> e \<notin> set xs \<Longrightarrow>
      \<exists>q'. add e q = Some q' \<and> rep q' (prio_insert prio e xs)"
    and out_law: "rep q xs \<Longrightarrow> xs \<noteq> [] \<Longrightarrow>
      \<exists>q'. out q = Some (Some (last xs), q') \<and> rep q' (butlast xs) \<and> free q' (last xs)"
    and out_empty: "rep q [] \<Longrightarrow> out q = Some (None, q)"
    and top_law: "rep q xs \<Longrightarrow> top q = (if xs = [] then None else Some (last xs))"
    and del_law: "rep q xs \<Longrightarrow> e \<in> set xs \<Longrightarrow>
      \<exists>q'. del e q = Some q' \<and> rep q' (remove1 e xs) \<and> free q' e"
begin

lemma top_is_max: "rep q xs \<Longrightarrow> top q = Some e \<Longrightarrow> e \<in> set xs \<and> (\<forall>x \<in> set xs. prio x \<le> prio e)"
  using top_law [of q xs] sorted_map_last [OF rep_sorted]
  by (auto split: if_splits)

text \<open>\<open>out\<close> takes exactly the element \<open>top\<close> shows.\<close>

lemma out_eq_top: "rep q xs \<Longrightarrow> \<exists>q'. out q = Some (top q, q')"
  using out_law [of q xs] out_empty [of q] top_law [of q xs] by (cases "xs = []") auto

text \<open>
  An arrival is served at once only if its priority is strictly greater than that of every
  element already waiting: equal priorities are served in the order of arrival.
\<close>

lemma arrival_order:
  assumes "rep q xs" and "xs \<noteq> []" and "free q e" and "e \<notin> set xs"
  shows "\<exists>q1 q2. add e q = Some q1 \<and>
    out q1 = Some (Some (if prio (last xs) < prio e then e else last xs), q2)"
proof -
  from add_law [OF assms(1,3,4)] obtain q1 where
    q1: "add e q = Some q1" "rep q1 (prio_insert prio e xs)" by auto
  with out_law [of q1 "prio_insert prio e xs"] last_prio_insert [OF rep_sorted [OF assms(1)] assms(2)]
  show ?thesis by auto
qed

end

definition queue_rep :: "(int \<Rightarrow> int) \<Rightarrow> int \<Rightarrow> links \<Rightarrow> int list \<Rightarrow> bool" where
  "queue_rep prio h L xs \<longleftrightarrow> dll L h xs \<and> sorted (map prio xs)"

definition queue_free :: "int \<Rightarrow> links \<Rightarrow> int \<Rightarrow> bool" where
  "queue_free h L e \<longleftrightarrow> e \<noteq> h \<and> q_prev (L e) = None \<and> q_next (L e) = None"

interpretation lq: prio_queue prio "queue_rep prio h" "queue_free h" "queue_empty h"
  "queue_add prio h" "queue_out h" "queue_top h" queue_del
  for prio h
proof (standard, goal_cases)
  case (1 q xs)
  then show ?case by (simp add: queue_rep_def)
next
  case (2 q xs)
  then show ?case by (simp add: queue_rep_def queue_empty_dll)
next
  case (3 q xs e)
  then show ?case
    using queue_add_dll [of q h xs e prio]
    by (auto simp: queue_rep_def queue_free_def sorted_prio_insert)
next
  case (4 q xs)
  then have "last xs \<noteq> h" using last_in_set [of xs] by (auto simp: queue_rep_def dll_def)
  moreover from 4 obtain L' where "queue_out h q = Some (Some (last xs), L')" "dll L' h (butlast xs)"
    "L' (last xs) = \<lparr>q_prev = None, q_next = None\<rparr>"
    using queue_out_dll [of q h xs] by (auto simp: queue_rep_def)
  ultimately show ?case using 4 by (auto simp: queue_rep_def queue_free_def sorted_map_butlast)
next
  case (5 q)
  then show ?case by (simp add: queue_rep_def queue_out_empty)
next
  case (6 q xs)
  then show ?case by (simp add: queue_rep_def queue_top_dll)
next
  case (7 q xs e)
  then have "e \<noteq> h" by (auto simp: queue_rep_def dll_def)
  moreover from 7 obtain L' where "queue_del e q = Some L'" "dll L' h (remove1 e xs)"
    "L' e = \<lparr>q_prev = None, q_next = None\<rparr>"
    using queue_del_dll [of q h xs e] by (auto simp: queue_rep_def)
  ultimately show ?case using 7 by (auto simp: queue_rep_def queue_free_def sorted_map_remove1)
qed

section \<open>Properties\<close>

text \<open>A queue with head 0 that holds 3 and 2, 2 to be served next.\<close>

definition ex_links :: links where
  "ex_links k = (if k = 0 then \<lparr>q_prev = Some 2, q_next = Some 3\<rparr>
     else if k = 2 then \<lparr>q_prev = Some 3, q_next = Some 0\<rparr>
     else if k = 3 then \<lparr>q_prev = Some 0, q_next = Some 2\<rparr>
     else \<lparr>q_prev = None, q_next = None\<rparr>)"

lemma ex_links_rep: "queue_rep uminus 0 ex_links [3, 2]"
  by (simp add: queue_rep_def dll_def ex_links_def)

text \<open>
  C27. The order of service of the ready queue: an element added to a queue is served at once only
  if its priority is strictly greater than that of all elements waiting; equal priorities are served
  in the order of arrival. After the addition the queue holds the element besides the old ones.
\<close>

theorem queue_order_of_service:
  assumes "queue_rep prio h L xs" and "xs \<noteq> []" and "queue_free h L e" and "e \<notin> set xs"
  shows "\<exists>L1 L2. queue_add prio h e L = Some L1 \<and> queue_rep prio h L1 (prio_insert prio e xs) \<and>
    queue_out h L1 = Some (Some (if prio (last xs) < prio e then e else last xs), L2) \<and>
    (\<forall>x \<in> insert e (set xs). prio x \<le> prio (if prio (last xs) < prio e then e else last xs))"
proof -
  from lq.add_law [OF assms(1,3,4)] obtain L1 where
    L1: "queue_add prio h e L = Some L1" "queue_rep prio h L1 (prio_insert prio e xs)" by auto
  moreover from lq.arrival_order [OF assms(1-4)] L1(1) obtain L2 where
    "queue_out h L1 = Some (Some (if prio (last xs) < prio e then e else last xs), L2)" by auto
  moreover have "\<forall>x \<in> set xs. prio x \<le> prio (last xs)"
    using sorted_map_last [OF lq.rep_sorted [OF assms(1)]] by blast
  then have "\<forall>x \<in> insert e (set xs). prio x \<le> prio (if prio (last xs) < prio e then e else last xs)"
    by force
  ultimately show ?thesis by blast
qed

theorem queue_order_of_service_witness:
  "\<exists>L1 L2. queue_add uminus 0 1 ex_links = Some L1 \<and> queue_rep uminus 0 L1 (prio_insert uminus 1 [3, 2]) \<and>
    queue_out 0 L1 = Some (Some (if - last [3, 2 :: int] < - 1 then 1 else last [3, 2]), L2) \<and>
    (\<forall>x \<in> insert 1 (set [3, 2 :: int]). - x \<le> - (if - last [3, 2] < - (1 :: int) then 1 else last [3, 2]))"
  by (rule queue_order_of_service [of uminus]) (simp_all add: ex_links_rep queue_free_def, simp_all add: ex_links_def)

end
