(* ===== verification/Cpu.thy ===== *)
theory Cpu
  imports Prelude
begin

text \<open>
  The tables of the processor (\<^verbatim>\<open>kernel/processor_structs.c\<close>, \<^verbatim>\<open>kernel/processor_structs.h\<close>,
  \<^verbatim>\<open>kernel/segment.h\<close>): segment descriptors, gates, task state segments, and the functions that
  set them up. The addresses the linker chooses are parameters. The instructions that load the
  tables and the segment registers (\<^verbatim>\<open>lgdt\<close>, \<^verbatim>\<open>lidt\<close>, \<^verbatim>\<open>ltr\<close>, \<^verbatim>\<open>ljmp\<close>) are not modelled.
\<close>

unbundle bit_operations_syntax

section \<open>Constants\<close>

definition SZ_32 :: u32 where "SZ_32 = 4"
definition SZ_G :: u32 where "SZ_G = 8"
definition ACC_TASK_GATE :: u32 where "ACC_TASK_GATE = 0x05"
definition ACC_TSS :: u32 where "ACC_TSS = 0x09"
definition ACC_DATA_W :: u32 where "ACC_DATA_W = 0x12"
definition ACC_CODE_R :: u32 where "ACC_CODE_R = 0x1a"
definition ACC_PL_K :: u32 where "ACC_PL_K = 0x00"
definition ACC_PL_U :: u32 where "ACC_PL_U = 0x60"
definition ACC_P :: u32 where "ACC_P = 0x80"

definition BASE_TSS :: nat where "BASE_TSS = 0x08"
definition KERNEL_CS :: nat where "KERNEL_CS = 0x10"
definition KERNEL_DS :: nat where "KERNEL_DS = 0x18"
definition USER_CS :: nat where "USER_CS = 0x43"
definition USER_DS :: nat where "USER_DS = 0x4b"
definition TRAP_TSS_BASE :: nat where "TRAP_TSS_BASE = 0x50"

definition GDT_ENTRIES :: nat where "GDT_ENTRIES = 8192"
definition IDT_ENTRIES :: nat where "IDT_ENTRIES = 256"
definition HANDLER_ENTRIES :: nat where "HANDLER_ENTRIES = 32"

section \<open>Descriptors and gates\<close>

text \<open>Two 32-bit halves of an entry.\<close>

definition entry64 :: "u32 \<Rightarrow> u32 \<Rightarrow> u64" where
  "entry64 p1 p0 = push_bit 32 (ucast p1) OR ucast p0"

definition fill_descriptor :: "u32 \<Rightarrow> u32 \<Rightarrow> u32 \<Rightarrow> u32 \<Rightarrow> u64" where
  "fill_descriptor base limit access sizebits =
     (let (limit, sizebits) = (if limit > 0xfffff then (drop_bit 12 limit, sizebits OR SZ_G)
                               else (limit, sizebits));
          p0 = (limit AND 0xffff) + push_bit 16 (base AND 0xffff);
          p1 = drop_bit 16 base AND 0xff;
          p1 = p1 OR push_bit 8 ((access OR ACC_P) AND 0xff);
          p1 = p1 OR (limit AND 0xf0000);
          p1 = p1 OR push_bit 20 (sizebits AND 0xf);
          p1 = p1 OR (base AND 0xff000000)
      in entry64 p1 p0)"

definition fill_gate :: "u32 \<Rightarrow> u16 \<Rightarrow> u8 \<Rightarrow> u8 \<Rightarrow> u64" where
  "fill_gate offset selector access word_count =
     (let p0 = offset AND 0xffff;
          p0 = p0 OR push_bit 16 (ucast selector);
          p1 = ucast word_count AND 0xf;
          p1 = p1 OR push_bit 8 (ucast access OR ACC_P);
          p1 = p1 OR (offset AND 0xffff0000)
      in entry64 p1 p0)"

definition interrupt_gate :: "u16 \<Rightarrow> u32 \<Rightarrow> u32 \<Rightarrow> u64" where
  "interrupt_gate selector address DPL =
     (let p0 = (address AND 0xffff) OR push_bit 16 (ucast selector);
          p1 = (address AND 0xffff0000) OR 0x8e00 OR push_bit 13 (DPL AND 3)
      in entry64 p1 p0)"

section \<open>The tables\<close>

record x86_tss =
  t_esp0 :: u32
  t_ss0 :: u32
  t_cr3 :: u32
  t_eip :: u32
  t_eflags :: u32
  t_esp :: u32
  t_es :: u32
  t_cs :: u32
  t_ss :: u32
  t_ds :: u32
  t_fs :: u32
  t_gs :: u32
  t_trace_trap :: u16
  t_io_bit_map_offset :: u16

text \<open>The size of the C structure: 25 longs and two shorts.\<close>

definition sizeof_tss :: u32 where "sizeof_tss = 104"

definition tss_zero :: x86_tss where
  "tss_zero = \<lparr>t_esp0 = 0, t_ss0 = 0, t_cr3 = 0, t_eip = 0, t_eflags = 0, t_esp = 0, t_es = 0,
     t_cs = 0, t_ss = 0, t_ds = 0, t_fs = 0, t_gs = 0, t_trace_trap = 0, t_io_bit_map_offset = 0\<rparr>"

record cpu_state =
  gdt :: "u64 list"
  idt :: "u64 list"
  tss :: x86_tss
  trap_tss :: "x86_tss list"

text \<open>Where the linker puts the tables, the stacks and the page directory.\<close>

record layout =
  ad_tss :: u32
  ad_trap_tss :: u32
  ad_trap_stack_end :: u32
  ad_first_stack_end :: u32
  ad_pgdir :: u32
  exception_handler_tasks :: "u32 list"

definition fill_interrupt :: "nat \<Rightarrow> u16 \<Rightarrow> u32 \<Rightarrow> u32 \<Rightarrow> cpu_state \<Rightarrow> cpu_state option" where
  "fill_interrupt vector selector address DPL c = do {
     assert_that (vector < length (idt c));
     Some (c\<lparr>idt := (idt c)[vector := interrupt_gate selector address DPL]\<rparr>) }"

definition setup_gdt :: "layout \<Rightarrow> cpu_state \<Rightarrow> cpu_state" where
  "setup_gdt a c =
     (let g = replicate GDT_ENTRIES 0;
          g = g[BASE_TSS div 8 := fill_descriptor (ad_tss a) (sizeof_tss - 1) (ACC_PL_K OR ACC_TSS OR ACC_P) 0];
          g = g[KERNEL_CS div 8 := fill_descriptor 0 0xffffffff (ACC_PL_K OR ACC_CODE_R) SZ_32];
          g = g[KERNEL_DS div 8 := fill_descriptor 0 0xffffffff (ACC_PL_K OR ACC_DATA_W) SZ_32];
          g = g[USER_CS div 8 := fill_descriptor 0 0xffffffff (ACC_PL_U OR ACC_CODE_R) SZ_32];
          g = g[USER_DS div 8 := fill_descriptor 0 0xffffffff (ACC_PL_U OR ACC_DATA_W) SZ_32];
          g = fold (\<lambda>i g. g[i + TRAP_TSS_BASE div 8 :=
                fill_descriptor (ad_trap_tss a + sizeof_tss * of_nat i) (sizeof_tss - 1)
                  (ACC_PL_K OR ACC_TSS OR ACC_P) 0]) [0..<HANDLER_ENTRIES] g
      in c\<lparr>gdt := g\<rparr>)"

definition trap_task :: "layout \<Rightarrow> nat \<Rightarrow> x86_tss \<Rightarrow> x86_tss" where
  "trap_task a i ts = ts\<lparr>t_ss0 := of_nat KERNEL_DS, t_esp0 := ad_trap_stack_end a,
     t_ss := of_nat KERNEL_DS, t_esp := ad_trap_stack_end a,
     t_io_bit_map_offset := ucast sizeof_tss, t_cs := of_nat KERNEL_CS,
     t_eip := exception_handler_tasks a ! i, t_ds := of_nat KERNEL_DS, t_es := of_nat KERNEL_DS,
     t_fs := 0, t_gs := 0, t_eflags := 2, t_trace_trap := 0, t_cr3 := ad_pgdir a\<rparr>"

definition setup_idt :: "layout \<Rightarrow> cpu_state \<Rightarrow> cpu_state" where
  "setup_idt a c =
     fold (\<lambda>i c. c\<lparr>trap_tss := (trap_tss c)[i := trap_task a i (trap_tss c ! i)],
         idt := (idt c)[i := fill_gate 0 (of_nat (TRAP_TSS_BASE + 8 * i))
                  (ucast (ACC_TASK_GATE + (if i = 3 then 0x60 else 0))) 0]\<rparr>)
       [0..<HANDLER_ENTRIES] (c\<lparr>idt := replicate IDT_ENTRIES 0\<rparr>)"

definition setup_tss :: "layout \<Rightarrow> cpu_state \<Rightarrow> cpu_state" where
  "setup_tss a c = c\<lparr>tss := tss_zero\<lparr>t_ss0 := of_nat KERNEL_DS, t_esp0 := ad_first_stack_end a,
     t_io_bit_map_offset := ucast sizeof_tss, t_cr3 := ad_pgdir a\<rparr>\<rparr>"

section \<open>What the processor reads in an entry\<close>

definition low32 :: "u64 \<Rightarrow> u32" where "low32 e = ucast e"
definition high32 :: "u64 \<Rightarrow> u32" where "high32 e = ucast (drop_bit 32 e)"

definition seg_base :: "u64 \<Rightarrow> u32" where
  "seg_base e = drop_bit 16 (low32 e) OR push_bit 16 (high32 e AND 0xff) OR (high32 e AND 0xff000000)"

definition seg_limit :: "u64 \<Rightarrow> u32" where
  "seg_limit e =
     (let l = (low32 e AND 0xffff) OR (high32 e AND 0xf0000)
      in if bit (high32 e) 23 then push_bit 12 l OR 0xfff else l)"

definition seg_access :: "u64 \<Rightarrow> u32" where
  "seg_access e = drop_bit 8 (high32 e) AND 0xff"

definition gate_offset :: "u64 \<Rightarrow> u32" where
  "gate_offset e = (low32 e AND 0xffff) OR (high32 e AND 0xffff0000)"

definition gate_selector :: "u64 \<Rightarrow> u16" where
  "gate_selector e = ucast (drop_bit 16 (low32 e))"

definition entry_dpl :: "u64 \<Rightarrow> u32" where
  "entry_dpl e = drop_bit 13 (high32 e) AND 3"

definition entry_present :: "u64 \<Rightarrow> bool" where
  "entry_present e \<longleftrightarrow> bit (high32 e) 15"

lemma low32_entry [simp]: "low32 (entry64 p1 p0) = p0"
  by (rule bit_word_eqI) (auto simp: low32_def entry64_def bit_simps)

lemma high32_entry [simp]: "high32 (entry64 p1 p0) = p1"
  by (rule bit_word_eqI) (auto simp: high32_def entry64_def bit_simps dest: bit_imp_le_length)

text \<open>The masks of the source as sequences of bits.\<close>

lemma masks32:
  "(0xffff :: u32) = mask 16" "(0xff :: u32) = mask 8" "(0xf :: u32) = mask 4" "(3 :: u32) = mask 2"
  "(0xf0000 :: u32) = push_bit 16 (mask 4)" "(0xff000000 :: u32) = push_bit 24 (mask 8)"
  "(0xffff0000 :: u32) = push_bit 16 (mask 16)" "(0xfff :: u32) = mask 12"
  by (simp_all add: mask_eq_exp_minus_1)

lemma bit_8e00: "bit (0x8e00 :: int) n \<longleftrightarrow> n = 15 \<or> (9 \<le> n \<and> n < 12)"
proof -
  have eq: "(0x8e00 :: int) = push_bit 15 (mask 1) OR push_bit 9 (mask 3)" by (simp add: mask_eq_exp_minus_1)
  show ?thesis
    unfolding eq bit_or_iff bit_push_bit_iff bit_mask_iff by auto
qed

lemma bit_ACC_P: "bit ACC_P n \<longleftrightarrow> n = 7"
proof -
  have eq: "ACC_P = push_bit 7 (mask 1)" by (simp add: ACC_P_def mask_eq_exp_minus_1)
  show ?thesis
    unfolding eq bit_push_bit_iff bit_mask_iff by auto
qed

section \<open>Round trips\<close>

lemma interrupt_gate_fields:
  "gate_offset (interrupt_gate sel address DPL) = address"
  "gate_selector (interrupt_gate sel address DPL) = sel"
  "entry_dpl (interrupt_gate sel address DPL) = DPL AND 3"
  "entry_present (interrupt_gate sel address DPL)"
proof -
  show "gate_offset (interrupt_gate sel address DPL) = address"
    unfolding gate_offset_def interrupt_gate_def Let_def low32_entry high32_entry masks32
    by (rule bit_word_eqI) (auto simp: bit_simps bit_8e00)
  show "gate_selector (interrupt_gate sel address DPL) = sel"
    unfolding gate_selector_def interrupt_gate_def Let_def low32_entry high32_entry masks32
    by (rule bit_word_eqI) (auto simp: bit_simps)
  show "entry_dpl (interrupt_gate sel address DPL) = DPL AND 3"
    unfolding entry_dpl_def interrupt_gate_def Let_def low32_entry high32_entry masks32
    by (rule bit_word_eqI) (auto simp: bit_simps bit_8e00 dest!: less_2_cases)
  show "entry_present (interrupt_gate sel address DPL)"
    unfolding entry_present_def interrupt_gate_def Let_def low32_entry high32_entry masks32
    by (simp add: bit_simps bit_8e00)
qed

lemma disjoint_plus: "(l AND mask 16) + push_bit 16 (b AND mask 16) = (l AND mask 16) OR push_bit 16 (b AND mask 16 :: u32)"
  by (rule disjunctive_add_eq_or, rule bit_word_eqI) (auto simp: bit_simps)

lemma small_limit_bits: "limit \<le> (0xfffff :: u32) \<Longrightarrow> bit limit n \<Longrightarrow> n < 20"
proof (rule ccontr)
  assume a: "limit \<le> 0xfffff" "bit limit n" "\<not> n < 20"
  have "limit < 2 ^ 20" using a(1) by (simp add: word_le_nat_alt word_less_nat_alt)
  then have "bit (take_bit 20 limit) n" using a(2) by (simp add: less_mask_eq take_bit_eq_mask)
  with a(3) show False by (simp add: bit_take_bit_iff)
qed

lemma u32_eqI:
  assumes "\<forall>n\<in>set [0, 1, 2, 3, 4, 5, 6, 7, 8, 9, 10, 11, 12, 13, 14, 15,
    16, 17, 18, 19, 20, 21, 22, 23, 24, 25, 26, 27, 28, 29, 30, 31].
    bit a n = bit b n"
  shows "a = (b :: u32)"
proof (rule bit_word_eqI)
  fix n assume "n < LENGTH(32)"
  then have "n \<in> set [0..<32]" by simp
  also have "set [0..<32] = set [0, 1, 2, 3, 4, 5, 6, 7, 8, 9, 10, 11, 12, 13, 14, 15,
    16, 17, 18, 19, 20, 21, 22, 23, 24, 25, 26, 27, 28, 29, 30, 31]"
    by code_simp
  finally show "bit a n = bit b n" using assms by (rule bspec [rotated])
qed

lemma low_bits_ones: "limit AND mask 12 = (mask 12 :: u32) \<Longrightarrow> n < 12 \<Longrightarrow> bit limit n"
proof -
  assume a: "limit AND mask 12 = mask 12" "n < 12"
  have "bit (limit AND mask 12) n" unfolding a(1) using a(2) by (simp add: bit_mask_iff)
  then show ?thesis by (simp add: bit_and_iff)
qed

lemma high_bits_zero: "access AND mask 8 = (access :: u32) \<Longrightarrow> 8 \<le> n \<Longrightarrow> \<not> bit access n"
proof
  assume a: "access AND mask 8 = access" "8 \<le> n" "bit access n"
  then have "bit (access AND mask 8) n" by simp
  then show False using a(2) by (simp add: bit_and_iff bit_mask_iff)
qed

text \<open>The 20 bits of limit and the granularity that are stored.\<close>

definition lim20 :: "u32 \<Rightarrow> u32" where
  "lim20 limit = (if limit > 0xfffff then drop_bit 12 limit else limit)"

definition gran :: "u32 \<Rightarrow> u32 \<Rightarrow> u32" where
  "gran limit sizebits = (if limit > 0xfffff then sizebits OR SZ_G else sizebits)"

lemma descriptor_halves:
  "low32 (fill_descriptor base limit access sizebits) =
     (lim20 limit AND mask 16) OR push_bit 16 (base AND mask 16)"
  "high32 (fill_descriptor base limit access sizebits) =
     (drop_bit 16 base AND mask 8) OR push_bit 8 ((access OR ACC_P) AND mask 8) OR
     (lim20 limit AND push_bit 16 (mask 4)) OR push_bit 20 (gran limit sizebits AND mask 4) OR
     (base AND push_bit 24 (mask 8))"
proof -
  have "fill_descriptor base limit access sizebits =
    entry64 ((drop_bit 16 base AND mask 8) OR push_bit 8 ((access OR ACC_P) AND mask 8) OR
      (lim20 limit AND push_bit 16 (mask 4)) OR push_bit 20 (gran limit sizebits AND mask 4) OR
      (base AND push_bit 24 (mask 8))) ((lim20 limit AND mask 16) OR push_bit 16 (base AND mask 16))"
    unfolding fill_descriptor_def lim20_def gran_def masks32 Let_def
    by (cases "limit > 0xfffff") (simp_all only: if_True if_False prod.case or.assoc disjoint_plus)
  then show "low32 (fill_descriptor base limit access sizebits) =
     (lim20 limit AND mask 16) OR push_bit 16 (base AND mask 16)"
    "high32 (fill_descriptor base limit access sizebits) =
     (drop_bit 16 base AND mask 8) OR push_bit 8 ((access OR ACC_P) AND mask 8) OR
     (lim20 limit AND push_bit 16 (mask 4)) OR push_bit 20 (gran limit sizebits AND mask 4) OR
     (base AND push_bit 24 (mask 8))"
    by (simp_all only: low32_entry high32_entry)
qed

lemma bit_SZ_G: "bit SZ_G n \<longleftrightarrow> n = 3"
proof -
  have eq: "SZ_G = push_bit 3 (mask 1)" by (simp add: SZ_G_def mask_eq_exp_minus_1)
  show ?thesis unfolding eq bit_push_bit_iff bit_mask_iff by auto
qed

lemma no_gran: "sizebits AND SZ_G = 0 \<Longrightarrow> \<not> bit sizebits 3"
  by (metis bit_0_eq bit_and_iff bit_SZ_G bot_apply bot_bool_def)

lemma descriptor_base: "seg_base (fill_descriptor base limit access sizebits) = base"
  unfolding seg_base_def descriptor_halves masks32
  by (rule u32_eqI) (simp add: bit_simps bit_ACC_P)

lemma descriptor_access:
  assumes "access AND 0xff = access"
  shows "seg_access (fill_descriptor base limit access sizebits) = access OR ACC_P"
  using high_bits_zero [OF assms [unfolded masks32]]
  unfolding seg_access_def descriptor_halves masks32
  by (intro u32_eqI) (simp add: bit_simps bit_ACC_P)

lemma descriptor_present: "entry_present (fill_descriptor base limit access sizebits)"
proof -
  show ?thesis
    unfolding entry_present_def descriptor_halves by (simp add: bit_simps bit_ACC_P)
qed

lemma lim20_bits: "bit (lim20 limit) n \<Longrightarrow> n < 20"
  using small_limit_bits [of limit n] bit_imp_le_length [of limit "12 + n"]
  by (auto simp: lim20_def bit_drop_bit_eq split: if_splits)

lemma descriptor_limit_fields:
  "(low32 (fill_descriptor base limit access sizebits) AND mask 16) OR
   (high32 (fill_descriptor base limit access sizebits) AND push_bit 16 (mask 4)) = lim20 limit"
proof -
  have "\<not> bit (lim20 limit) n" if "20 \<le> n" for n using lim20_bits [of limit n] that by auto
  then show ?thesis
    unfolding descriptor_halves by (intro u32_eqI) (simp add: bit_simps bit_ACC_P)
qed

lemma descriptor_gran_bit:
  "bit (high32 (fill_descriptor base limit access sizebits)) 23 \<longleftrightarrow> bit (gran limit sizebits) 3"
  unfolding descriptor_halves by (auto simp: bit_simps dest: lim20_bits)

lemma descriptor_limit:
  assumes "limit \<le> 0xfffff \<or> limit AND 0xfff = 0xfff" and "sizebits AND SZ_G = 0"
  shows "seg_limit (fill_descriptor base limit access sizebits) = limit"
proof (cases "limit > 0xfffff")
  case True
  then have "push_bit 12 (lim20 limit) OR mask 12 = limit"
    using low_bits_ones [of limit] assms(1)
    by (intro bit_word_eqI) (auto simp: lim20_def bit_simps masks32)
  with True show ?thesis
    unfolding seg_limit_def Let_def descriptor_gran_bit masks32 descriptor_limit_fields
    by (simp add: gran_def bit_or_iff bit_SZ_G)
next
  case False
  then show ?thesis
    unfolding seg_limit_def Let_def descriptor_gran_bit masks32 descriptor_limit_fields
    using no_gran [OF assms(2)] by (simp add: gran_def lim20_def)
qed

text \<open>
  A segment descriptor built by \<^verbatim>\<open>fill_descriptor\<close> describes what it was asked for: the processor
  reads back the base and the access byte, and the limit, which must either fit in 20 bits or be
  a number of whole pages (then the granularity bit is set); the segment is present.
\<close>

lemma fill_descriptor_decodes:
  assumes "limit \<le> 0xfffff \<or> limit AND 0xfff = 0xfff" and "access AND 0xff = access" and "sizebits AND SZ_G = 0"
  shows "seg_base (fill_descriptor base limit access sizebits) = base \<and>
    seg_limit (fill_descriptor base limit access sizebits) = limit \<and>
    seg_access (fill_descriptor base limit access sizebits) = access OR ACC_P \<and>
    entry_present (fill_descriptor base limit access sizebits)"
  by (intro conjI descriptor_base descriptor_limit descriptor_access descriptor_present assms)

lemma fill_descriptor_decodes_witness:
  "seg_limit (fill_descriptor 0 0xffffffff (ACC_PL_U OR ACC_CODE_R) SZ_32) = 0xffffffff"
  using fill_descriptor_decodes [of "0xffffffff" "ACC_PL_U OR ACC_CODE_R" SZ_32 0]
  by (simp add: ACC_PL_U_def ACC_CODE_R_def SZ_32_def SZ_G_def)

text \<open>
  \<^verbatim>\<open>fill_interrupt\<close> makes the vector lead to the handler it was given, through the given segment, for
  callers of at least the given privilege, and leaves the other vectors alone; a vector outside the
  table faults.
\<close>

lemma fill_interrupt_decodes:
  assumes "vector < length (idt c)"
  shows "\<exists>c'. fill_interrupt vector selector address DPL c = Some c' \<and>
    gate_offset (idt c' ! vector) = address \<and> gate_selector (idt c' ! vector) = selector \<and>
    entry_dpl (idt c' ! vector) = DPL AND 3 \<and> entry_present (idt c' ! vector) \<and>
    (\<forall>v. v \<noteq> vector \<longrightarrow> idt c' ! v = idt c ! v) \<and> gdt c' = gdt c"
  using assms by (simp add: fill_interrupt_def interrupt_gate_fields)

lemma fill_interrupt_decodes_witness:
  "\<exists>c'. fill_interrupt 49 0x10 0x1234 3 \<lparr>gdt = [], idt = replicate 256 0, tss = tss_zero, trap_tss = []\<rparr> = Some c' \<and>
    gate_offset (idt c' ! 49) = 0x1234 \<and> entry_dpl (idt c' ! 49) = 3"
  using fill_interrupt_decodes [of 49 "\<lparr>gdt = [], idt = replicate 256 0, tss = tss_zero, trap_tss = []\<rparr>" "0x10" "0x1234" 3]
  by auto

end
