(* ===== verification/Kstate.thy ===== *)
theory Kstate
  imports Klist Pqueue Cpu
begin

text \<open>
  The data the kernel keeps: process descriptors (\<^verbatim>\<open>kernel/context.h\<close>), semaphores
  (\<^verbatim>\<open>kernel/semaphore.h\<close>), file descriptors and file system nodes (\<^verbatim>\<open>kernel/vfs.h\<close>),
  and the global variables of the kernel, gathered in the record \<open>kstate\<close>.

  \<^item> \<^verbatim>\<open>tab_proc[pid-1]\<close> is \<open>tab_proc s pid\<close>; an access is in range when \<open>in_tab pid\<close>.
  \<^item> A list of \<^verbatim>\<open>list.c\<close> is its sequence of elements, \<open>None\<close> being the null pointer; theory
    \<open>Klist\<close> relates the sequences to the heap code.
  \<^item> The ready queue is the store of links of theory \<open>Pqueue\<close>; the link of a process has its PID
    as key, the head \<^verbatim>\<open>proc_queue_activ\<close> has key 0.
  \<^item> The allocator (\<^verbatim>\<open>malloc.c.h\<close>) is not modelled: \<open>allocs\<close> is the sequence of
    addresses its next calls return, 0 for a failure, and 0 once the sequence is used up.
  \<^item> Words that the kernel stores through user pointers go to \<open>umem\<close>.
  \<^item> \<open>k_out\<close> is the sequence of \<^verbatim>\<open>outb\<close> calls, the last one first.
  \<^item> Messages the kernel prints while it runs are not part of the state.
\<close>

section \<open>Processes\<close>

definition NBPROC :: int where "NBPROC = 20"
definition NBSIG :: int where "NBSIG = 32"
definition MAXPRIO :: int where "MAXPRIO = 256"
definition DTABLESIZE :: nat where "DTABLESIZE = 20"
definition NBSEM :: int where "NBSEM = 10001"
definition STACK_SIZE :: u32 where "STACK_SIZE = 1000000"

datatype proc_state =
    STATE_ACTIVE | STATE_ACTIVABLE | STATE_WAIT_SEM | STATE_WAIT_IO
  | STATE_WAIT_CHILD | STATE_ASLEEP | STATE_ZOMBIE | STATE_DEAD

type_synonym klist = "int list option"

text \<open>
  Pointers to file system nodes: an entry of \<^verbatim>\<open>rootfs_entries\<close>, one of the four nodes that
  describe a process, or an entry of \<^verbatim>\<open>vc_fs_node\<close>.
\<close>

datatype node_ptr =
    RootfsNode nat | ProcfsNode int | ProcStateNode int | ProcParentNode int | ProcNameNode int
  | VcNode nat

definition FS_NAME_MAX :: nat where "FS_NAME_MAX = 128"

datatype fs_node_type = FS_FILE | FS_DIR

text \<open>The functions that occur as callbacks of a node, one constructor for each.\<close>

datatype read_cb =
    Dev_answer_read | Dev_zero_read | Kikoo_read | Procfs_state_read | Procfs_parent_read
  | Procfs_name_read | Console_blink_r | Console_fg_r | Console_bg_r
datatype write_cb =
    Console_blink_w | Console_fg_w | Console_bg_w | Console_echo_w | Console_vc_write
datatype open_cb = Kikoo_open
datatype close_cb = Kikoo_close
datatype readdir_cb = Rootfs_readdir | Procfs_readdir | Procfs_sub_readdir | Console_vc_readdir
datatype finddir_cb = Rootfs_finddir | Procfs_finddir | Procfs_sub_finddir | Console_vc_finddir

record fs_node =
  n_name :: string
  n_type :: fs_node_type
  n_inode :: int
  n_size :: u32
  n_read :: "read_cb option"
  n_write :: "write_cb option"
  n_open :: "open_cb option"
  n_close :: "close_cb option"
  n_readdir :: "readdir_cb option"
  n_finddir :: "finddir_cb option"
  n_parent :: "node_ptr option"

record dirent =
  d_name :: string
  d_inode :: int

record file_stat =
  st_name :: string
  st_type :: fs_node_type
  st_inode :: int
  st_size :: u32

record file_descriptor =
  f_present :: int
  f_node :: "node_ptr option"
  f_offset :: u32

text \<open>The registers \<^verbatim>\<open>trt_sigs\<close> saves while a signal handler runs.\<close>

record sig_frame =
  sf_edi :: u32
  sf_esi :: u32
  sf_ebp :: u32
  sf_edx :: u32
  sf_ecx :: u32
  sf_ebx :: u32
  sf_eax :: u32
  sf_ex_ebp :: u32
  sf_ad_iret :: u32
  sf_ad_proc :: u32
  sf_cs :: u32
  sf_eflags :: u32
  sf_esp :: u32
  sf_ss :: u32

text \<open>
  \<open>p_kstack\<close> is the contents of the block \<open>p_kernel_stack\<close> points to and \<open>p_kstack_len\<close> its
  length in longs.
\<close>

record pcontext =
  p_esp_kernel :: u32
  p_kernel_stack :: u32
  p_kstack :: "nat \<Rightarrow> u32"
  p_kstack_len :: nat
  p_esp_user :: u32
  p_user_stack :: u32
  p_user_stack_size :: u32
  p_kernel_stack_size :: u32
  p_pid :: int
  p_priority :: int
  p_pid_parent :: int
  p_pid_wait :: int
  p_state :: proc_state
  p_children :: klist
  p_killed :: int
  p_val_ret :: int
  p_valide :: int
  p_name :: string
  p_timer :: u32
  p_file_desc :: "file_descriptor list"
  p_working_dir :: "node_ptr option"
  p_procfs_node :: "node_ptr option"
  p_vfs_state_node :: "node_ptr option"
  p_vfs_parent_node :: "node_ptr option"
  p_vfs_name_node :: "node_ptr option"
  p_sid_wait :: int
  p_sid_deleted :: int
  p_sid_reseted :: int
  p_sigmap :: "u32 list"
  p_sigs :: klist
  p_frame :: sig_frame
  p_cur_sig :: int

section \<open>Semaphores\<close>

record semaphore =
  s_c :: int
  s_proc_wait :: klist
  s_valide :: int

section \<open>Consoles\<close>

record console_character =
  cc_c :: char
  cc_attr :: u8

text \<open>\<open>in_start\<close> is the distance of the pointer \<^verbatim>\<open>in_start\<close> from \<^verbatim>\<open>in_buf\<close>.\<close>

record ringbuffer =
  in_buf :: "char list"
  in_start :: nat
  in_size :: nat

record virtual_console =
  vc_mem :: "console_character list"
  vc_pos :: int
  vc_echo :: int
  vc_buffered :: int
  vc_attr :: u32
  vc_buf :: ringbuffer
  vc_waiting_pid :: int

section \<open>The kernel\<close>

record kstate =
  tab_proc :: "int \<Rightarrow> pcontext"
  kernel_context :: pcontext
  pid_cour :: int
  k_links :: links
  semaphores :: "int \<Rightarrow> semaphore"
  sid_libres :: klist
  nb_interrupt :: u32
  rate :: int
  in_syscall :: int
  adExit :: u32
  adSigReturn :: u32
  ad_sig_default :: u32
  allocs :: "u32 list"
  freed :: "(u32 \<times> u32) list"
  umem :: "u32 \<Rightarrow> u32"
  k_out :: "(u8 \<times> u16) list"
  rootfs_present :: "nat \<Rightarrow> int"
  fs_nodes :: "node_ptr \<Rightarrow> fs_node"
  kikoobuf :: "u32 \<times> string"
  virtual_consoles :: "nat \<Rightarrow> virtual_console"
  vc_current :: nat
  video_mem :: "console_character list"
  console_leds :: u8
  cpu :: cpu_state

definition in_tab :: "int \<Rightarrow> bool" where
  "in_tab pid \<longleftrightarrow> 1 \<le> pid \<and> pid \<le> NBPROC"

text \<open>Update of a process descriptor and of a semaphore descriptor.\<close>

definition upd_proc :: "int \<Rightarrow> (pcontext \<Rightarrow> pcontext) \<Rightarrow> kstate \<Rightarrow> kstate" where
  "upd_proc pid f s = s\<lparr>tab_proc := (tab_proc s)(pid := f (tab_proc s pid))\<rparr>"

definition upd_sem :: "int \<Rightarrow> (semaphore \<Rightarrow> semaphore) \<Rightarrow> kstate \<Rightarrow> kstate" where
  "upd_sem sid f s = s\<lparr>semaphores := (semaphores s)(sid := f (semaphores s sid))\<rparr>"

text \<open>\<open>mem_alloc\<close>: the next answer of the allocator.\<close>

definition mem_alloc :: "kstate \<Rightarrow> u32 \<times> kstate" where
  "mem_alloc s = (case allocs s of [] \<Rightarrow> (0, s) | a # as \<Rightarrow> (a, s\<lparr>allocs := as\<rparr>))"

definition mem_free :: "u32 \<Rightarrow> u32 \<Rightarrow> kstate \<Rightarrow> kstate" where
  "mem_free p len s = s\<lparr>freed := (p, len) # freed s\<rparr>"

text \<open>
  \<open>list_new\<close> and \<open>list_put_first\<close> as the kernel calls them: a block comes from the allocator;
  \<open>list_put_first\<close> asserts its arguments and writes through the block unchecked. \<open>list_free\<close>
  gives the blocks back to the allocator, which the view as sequences does not show.
\<close>

definition kl_new :: "kstate \<Rightarrow> klist \<times> kstate" where
  "kl_new s = (let (a, s) = mem_alloc s in (if a = 0 then None else Some [], s))"

definition kl_free :: "klist \<Rightarrow> kstate \<Rightarrow> kstate" where
  "kl_free l s = s"

definition kl_put_first :: "klist \<Rightarrow> int \<Rightarrow> kstate \<Rightarrow> (klist \<times> kstate) option" where
  "kl_put_first l e s = do {
     xs \<leftarrow> l;
     assert_that (0 \<le> e);
     let (a, s) = mem_alloc s;
     assert_that (a \<noteq> 0);
     Some (Some (e # xs), s) }"

text \<open>The scheduling priority, as the queue macros read it.\<close>

definition prio_of :: "kstate \<Rightarrow> int \<Rightarrow> int" where
  "prio_of s p = p_priority (tab_proc s p)"

definition valid_proc :: "kstate \<Rightarrow> int \<Rightarrow> bool" where
  "valid_proc s p \<longleftrightarrow> in_tab p \<and> p_valide (tab_proc s p) = 1"

definition activable :: "kstate \<Rightarrow> int set" where
  "activable s = {p. valid_proc s p \<and> p_state (tab_proc s p) = STATE_ACTIVABLE}"

section \<open>Basic facts\<close>

lemma upd_proc_tab [simp]:
  "tab_proc (upd_proc p f s) q = (if q = p then f (tab_proc s p) else tab_proc s q)"
  by (simp add: upd_proc_def)

lemma upd_proc_frame [simp]:
  "kernel_context (upd_proc p f s) = kernel_context s" "pid_cour (upd_proc p f s) = pid_cour s"
  "k_links (upd_proc p f s) = k_links s" "semaphores (upd_proc p f s) = semaphores s"
  "sid_libres (upd_proc p f s) = sid_libres s" "nb_interrupt (upd_proc p f s) = nb_interrupt s"
  "rate (upd_proc p f s) = rate s" "in_syscall (upd_proc p f s) = in_syscall s"
  "adExit (upd_proc p f s) = adExit s" "adSigReturn (upd_proc p f s) = adSigReturn s"
  "ad_sig_default (upd_proc p f s) = ad_sig_default s" "allocs (upd_proc p f s) = allocs s"
  "freed (upd_proc p f s) = freed s" "umem (upd_proc p f s) = umem s" "k_out (upd_proc p f s) = k_out s"
  "rootfs_present (upd_proc p f s) = rootfs_present s" "fs_nodes (upd_proc p f s) = fs_nodes s"
  "kikoobuf (upd_proc p f s) = kikoobuf s" "virtual_consoles (upd_proc p f s) = virtual_consoles s"
  "vc_current (upd_proc p f s) = vc_current s" "video_mem (upd_proc p f s) = video_mem s"
  "console_leds (upd_proc p f s) = console_leds s"
  by (simp_all add: upd_proc_def)

lemma upd_sem_sems [simp]:
  "semaphores (upd_sem p f s) q = (if q = p then f (semaphores s p) else semaphores s q)"
  by (simp add: upd_sem_def)

lemma upd_sem_frame [simp]:
  "kernel_context (upd_sem p f s) = kernel_context s" "pid_cour (upd_sem p f s) = pid_cour s"
  "k_links (upd_sem p f s) = k_links s" "tab_proc (upd_sem p f s) = tab_proc s"
  "sid_libres (upd_sem p f s) = sid_libres s" "nb_interrupt (upd_sem p f s) = nb_interrupt s"
  "rate (upd_sem p f s) = rate s" "in_syscall (upd_sem p f s) = in_syscall s"
  "adExit (upd_sem p f s) = adExit s" "adSigReturn (upd_sem p f s) = adSigReturn s"
  "ad_sig_default (upd_sem p f s) = ad_sig_default s" "allocs (upd_sem p f s) = allocs s"
  "freed (upd_sem p f s) = freed s" "umem (upd_sem p f s) = umem s" "k_out (upd_sem p f s) = k_out s"
  "rootfs_present (upd_sem p f s) = rootfs_present s" "fs_nodes (upd_sem p f s) = fs_nodes s"
  "kikoobuf (upd_sem p f s) = kikoobuf s" "virtual_consoles (upd_sem p f s) = virtual_consoles s"
  "vc_current (upd_sem p f s) = vc_current s" "video_mem (upd_sem p f s) = video_mem s"
  "console_leds (upd_sem p f s) = console_leds s"
  by (simp_all add: upd_sem_def)

lemma finite_in_tab: "finite {p. in_tab p}"
  by (rule finite_subset [of _ "{1..NBPROC}"]) (auto simp: in_tab_def)

lemma activable_in_tab: "p \<in> activable s \<Longrightarrow> in_tab p \<and> p \<noteq> 0"
  by (auto simp: activable_def valid_proc_def in_tab_def)

end
