(* ===== verification/Signals.thy ===== *)
theory Signals
  imports Kstate
begin

text \<open>
  Signals between processes (\<^verbatim>\<open>kernel/signals.c\<close>): registration of a handler, sending,
  delivery when the kernel switches to the process (\<^verbatim>\<open>trt_sigs\<close>) and the part of the return
  that restores the saved frame. \<^verbatim>\<open>sig_return\<close> itself ends with a call of the scheduler and
  is in theory \<open>Sched\<close>.
\<close>

section \<open>Operations\<close>

text \<open>\<^verbatim>\<open>size_t nb_elem = STACK_SIZE / sizeof(unsigned long)\<close>, the index base of both functions.\<close>

definition sig_nb_elem :: nat where
  "sig_nb_elem = unat STACK_SIZE div 4"

definition sigaction :: "int \<Rightarrow> u32 \<Rightarrow> kstate \<Rightarrow> kstate option" where
  "sigaction signalid ad_trt s = do {
     assert_that (1 \<le> signalid \<and> signalid \<le> NBSIG);
     assert_that (in_tab (pid_cour s));
     assert_that (nat signalid < length (p_sigmap (tab_proc s (pid_cour s))));
     Some (upd_proc (pid_cour s) (\<lambda>c. c\<lparr>p_sigmap := (p_sigmap c)[nat signalid := ad_trt]\<rparr>) s) }"

definition signal_send :: "int \<Rightarrow> int \<Rightarrow> kstate \<Rightarrow> kstate option" where
  "signal_send pid signalid s = do {
     assert_that (in_tab pid);
     assert_that (p_valide (tab_proc s pid) = 1);
     assert_that (1 \<le> signalid \<and> signalid \<le> NBSIG);
     (sigs, s) \<leftarrow> kl_put_first (p_sigs (tab_proc s pid)) signalid s;
     Some (upd_proc pid (\<lambda>c. c\<lparr>p_sigs := sigs\<rparr>) s) }"

text \<open>
  The fourteen words at the top of what the code takes for the kernel stack, read into the
  descriptor and written back. The source reads \<^verbatim>\<open>eax\<close> and \<^verbatim>\<open>ex_ebp\<close> from the same word, and
  writes \<^verbatim>\<open>eax\<close> first and \<^verbatim>\<open>ex_ebp\<close> over it.
\<close>

definition save_frame :: "(nat \<Rightarrow> u32) \<Rightarrow> sig_frame" where
  "save_frame k = (let n = sig_nb_elem in
     \<lparr>sf_edi = k (n - 14), sf_esi = k (n - 13), sf_ebp = k (n - 12), sf_edx = k (n - 11),
      sf_ecx = k (n - 10), sf_ebx = k (n - 9), sf_eax = k (n - 7), sf_ex_ebp = k (n - 7),
      sf_ad_iret = k (n - 6), sf_ad_proc = k (n - 5), sf_cs = k (n - 4), sf_eflags = k (n - 3),
      sf_esp = k (n - 2), sf_ss = k (n - 1)\<rparr>)"

definition restore_frame :: "sig_frame \<Rightarrow> (nat \<Rightarrow> u32) \<Rightarrow> nat \<Rightarrow> u32" where
  "restore_frame f k = (let n = sig_nb_elem in
     k(n - 14 := sf_edi f, n - 13 := sf_esi f, n - 12 := sf_ebp f, n - 11 := sf_edx f,
       n - 10 := sf_ecx f, n - 9 := sf_ebx f, n - 7 := sf_eax f, n - 7 := sf_ex_ebp f,
       n - 6 := sf_ad_iret f, n - 5 := sf_ad_proc f, n - 4 := sf_cs f, n - 3 := sf_eflags f,
       n - 2 := sf_esp f, n - 1 := sf_ss f))"

definition trt_sigs :: "kstate \<Rightarrow> kstate option" where
  "trt_sigs s =
     (if pid_cour s = 0 then Some s
      else do {
        assert_that (in_tab (pid_cour s));
        let c = tab_proc s (pid_cour s);
        sigs \<leftarrow> p_sigs c; \<comment> \<open>\<^verbatim>\<open>list_is_empty\<close> asserts that the list exists\<close>
        if sigs \<noteq> [] \<and> p_cur_sig c = 0 then do {
          assert_that (sig_nb_elem \<le> p_kstack_len c); \<comment> \<open>indices \<^verbatim>\<open>nb_elem-14\<close> to \<^verbatim>\<open>nb_elem-1\<close>\<close>
          let (signalid, rest) = seq_get_last sigs;
          assert_that (1 \<le> signalid \<and> nat (signalid - 1) < length (p_sigmap c));
          let trt_sig = p_sigmap c ! nat (signalid - 1);
          let esp = p_esp_user c - 4;
          let k = (p_kstack c)(sig_nb_elem - 5 := trt_sig, sig_nb_elem - 2 := esp);
          let c' = c\<lparr>p_cur_sig := 1, p_frame := save_frame (p_kstack c), p_sigs := Some rest,
                     p_kstack := k, p_esp_user := esp,
                     p_sigmap := (p_sigmap c)[nat (signalid - 1) := ad_sig_default s]\<rparr>;
          Some (upd_proc (pid_cour s) (\<lambda>_. c') (s\<lparr>umem := (umem s)(esp := adSigReturn s)\<rparr>))
        } else Some s })"

text \<open>\<^verbatim>\<open>sig_return\<close> up to its call of the scheduler.\<close>

definition sig_return_frame :: "kstate \<Rightarrow> kstate option" where
  "sig_return_frame s = do {
     assert_that (in_tab (pid_cour s));
     let c = tab_proc s (pid_cour s);
     assert_that (sig_nb_elem \<le> p_kstack_len c);
     Some (upd_proc (pid_cour s)
       (\<lambda>c. c\<lparr>p_cur_sig := 0, p_kstack := restore_frame (p_frame c) (p_kstack c)\<rparr>) s) }"

section \<open>Facts used by the scheduler\<close>

lemma sig_nb_elem_eq: "sig_nb_elem = 250000"
  by (simp add: sig_nb_elem_def STACK_SIZE_def)

text \<open>With no pending signal, a switch to a process leaves the state as it is.\<close>

lemma trt_sigs_idle:
  "pid_cour s = 0 \<or> (in_tab (pid_cour s) \<and> p_sigs (tab_proc s (pid_cour s)) = Some []) \<Longrightarrow>
   trt_sigs s = Some s"
  by (auto simp: trt_sigs_def Let_def)

text \<open>
  With a pending signal the switch reads the kernel stack at the indices 249986 to 249999, whatever its length: on a
  stack that is shorter, as that of every process is, the access is outside it.
\<close>

lemma pending_signal_leaves_stack:
  assumes "in_tab (pid_cour s)" and "p_sigs (tab_proc s (pid_cour s)) = Some sigs" and "sigs \<noteq> []"
    and "p_cur_sig (tab_proc s (pid_cour s)) = 0" and "p_kstack_len (tab_proc s (pid_cour s)) < 250000"
  shows "trt_sigs s = None"
  using assms by (auto simp: trt_sigs_def Let_def in_tab_def sig_nb_elem_eq)

end
