(* ===== verification/Sched.thy ===== *)
theory Sched
  imports Signals
begin

text \<open>
  Scheduling (\<^verbatim>\<open>scheduler\<close>, \<^verbatim>\<open>wakeup_process\<close>, \<^verbatim>\<open>signal_new_io\<close> and \<^verbatim>\<open>garbage_collector\<close> of
  \<^verbatim>\<open>kernel/context.c\<close>, and the part of \<^verbatim>\<open>context_switch.S\<close> that calls C code).

  \<^verbatim>\<open>context_switch\<close> saves and loads stack pointers and then, on the stack of the new process,
  calls \<^verbatim>\<open>trt_sigs\<close> and \<^verbatim>\<open>garbage_collector\<close>; the model has the two calls. Code that follows a
  call of \<^verbatim>\<open>scheduler\<close> in the source runs when the calling process gets the processor back:
  where it does more than return a constant it is a definition of its own
  (\<^verbatim>\<open>wait\<close>, \<^verbatim>\<open>waitpid\<close>).
\<close>

section \<open>Operations\<close>

definition wakeup_process :: "int \<Rightarrow> kstate \<Rightarrow> (int \<times> kstate) option" where
  "wakeup_process pid s =
     (if pid < 1 \<or> pid > NBPROC \<or> p_valide (tab_proc s pid) \<noteq> 1 then Some (-1, s)
      else do {
        let s = upd_proc pid (\<lambda>c. c\<lparr>p_state := STATE_ACTIVABLE\<rparr>) s;
        L \<leftarrow> queue_add (prio_of s) 0 pid (INIT_LINK pid (k_links s));
        Some (pid, s\<lparr>k_links := L\<rparr>) })"

definition signal_new_io :: "int \<Rightarrow> kstate \<Rightarrow> kstate option" where
  "signal_new_io pid s = map_option snd (wakeup_process pid s)"

definition gc_one :: "int \<Rightarrow> kstate \<Rightarrow> kstate" where
  "gc_one pid s =
     (let c = tab_proc s pid in
      if p_valide c = 1 \<and> p_state c = STATE_DEAD
      then upd_proc pid (\<lambda>c. c\<lparr>p_valide := 0\<rparr>)
             (kl_free (p_children c)
               (mem_free (p_user_stack c) (p_user_stack_size c)
                 (mem_free (p_kernel_stack c) (p_kernel_stack_size c) s)))
      else s)"

definition garbage_collector :: "kstate \<Rightarrow> kstate" where
  "garbage_collector s = fold gc_one [1..NBPROC] s"

definition context_switch :: "kstate \<Rightarrow> kstate option" where
  "context_switch s = map_option garbage_collector (trt_sigs s)"

definition scheduler :: "kstate \<Rightarrow> kstate option" where
  "scheduler s =
     (if pid_cour s = 0 then do {
        (elem, L) \<leftarrow> queue_out 0 (k_links s);
        let s = s\<lparr>k_links := L\<rparr>;
        case elem of
          None \<Rightarrow> Some s
        | Some e \<Rightarrow> do {
            let s = s\<lparr>pid_cour := p_pid (tab_proc s e)\<rparr>;
            assert_that (in_tab (pid_cour s));
            context_switch (upd_proc (pid_cour s) (\<lambda>c. c\<lparr>p_state := STATE_ACTIVE\<rparr>) s) }
      } else do {
        assert_that (in_tab (pid_cour s));
        let cur = tab_proc s (pid_cour s);
        case queue_top 0 (k_links s) of
          Some e \<Rightarrow>
            if p_state cur \<noteq> STATE_ACTIVE \<or> p_priority (tab_proc s e) \<ge> p_priority cur then do {
              L \<leftarrow> queue_del e (k_links s);
              let s = s\<lparr>k_links := L\<rparr>;
              s \<leftarrow> (if p_state cur = STATE_ACTIVE
                     then map_option snd (wakeup_process (pid_cour s) s) else Some s);
              let s = s\<lparr>pid_cour := p_pid (tab_proc s e)\<rparr>;
              assert_that (in_tab (pid_cour s));
              context_switch (upd_proc (pid_cour s) (\<lambda>c. c\<lparr>p_state := STATE_ACTIVE\<rparr>) s)
            } else Some s
        | None \<Rightarrow>
            if p_state cur \<noteq> STATE_ACTIVE then context_switch (s\<lparr>pid_cour := 0\<rparr>) else Some s })"

definition sig_return :: "kstate \<Rightarrow> kstate option" where
  "sig_return s = Option.bind (sig_return_frame s) scheduler"

section \<open>Invariant of the scheduler\<close>

text \<open>\<open>ready s xs\<close>: the ready queue holds the processes \<open>xs\<close>, which are the activable ones.\<close>

definition ready :: "kstate \<Rightarrow> int list \<Rightarrow> bool" where
  "ready s xs \<longleftrightarrow> queue_rep (prio_of s) 0 (k_links s) xs \<and> set xs = activable s"

definition sched_inv :: "kstate \<Rightarrow> bool" where
  "sched_inv s \<longleftrightarrow>
     (pid_cour s = 0 \<or> valid_proc s (pid_cour s)) \<and>
     (\<forall>p. valid_proc s p \<longrightarrow> p_pid (tab_proc s p) = p) \<and>
     (\<forall>p. valid_proc s p \<longrightarrow> p \<noteq> pid_cour s \<longrightarrow> p_state (tab_proc s p) \<noteq> STATE_ACTIVE) \<and>
     (\<exists>xs. ready s xs)"

text \<open>No signal is pending, and every process has its list of pending signals.\<close>

definition no_sigs :: "kstate \<Rightarrow> bool" where
  "no_sigs s \<longleftrightarrow> (\<forall>p. valid_proc s p \<longrightarrow> p_sigs (tab_proc s p) = Some [])"

text \<open>The kernel or an active process runs: the state between two system calls.\<close>

definition running :: "kstate \<Rightarrow> bool" where
  "running s \<longleftrightarrow> pid_cour s = 0 \<or> p_state (tab_proc s (pid_cour s)) = STATE_ACTIVE"

section \<open>Garbage collection\<close>

lemma mem_free_simps [simp]:
  "tab_proc (mem_free p l s) = tab_proc s" "k_links (mem_free p l s) = k_links s"
  "pid_cour (mem_free p l s) = pid_cour s" "semaphores (mem_free p l s) = semaphores s"
  "sid_libres (mem_free p l s) = sid_libres s" "allocs (mem_free p l s) = allocs s"
  "kernel_context (mem_free p l s) = kernel_context s" "nb_interrupt (mem_free p l s) = nb_interrupt s"
  "in_syscall (mem_free p l s) = in_syscall s" "umem (mem_free p l s) = umem s"
  "rate (mem_free p l s) = rate s"
  "rootfs_present (mem_free p l s) = rootfs_present s" "fs_nodes (mem_free p l s) = fs_nodes s" "kikoobuf (mem_free p l s) = kikoobuf s"
  "virtual_consoles (mem_free p l s) = virtual_consoles s" "vc_current (mem_free p l s) = vc_current s"
  "video_mem (mem_free p l s) = video_mem s" "k_out (mem_free p l s) = k_out s"
  by (simp_all add: mem_free_def)

lemma gc_one_frame [simp]:
  "k_links (gc_one p s) = k_links s" "pid_cour (gc_one p s) = pid_cour s"
  "semaphores (gc_one p s) = semaphores s" "sid_libres (gc_one p s) = sid_libres s"
  "allocs (gc_one p s) = allocs s" "kernel_context (gc_one p s) = kernel_context s"
  "nb_interrupt (gc_one p s) = nb_interrupt s" "in_syscall (gc_one p s) = in_syscall s"
  "umem (gc_one p s) = umem s" "rate (gc_one p s) = rate s"
  "rootfs_present (gc_one p s) = rootfs_present s" "fs_nodes (gc_one p s) = fs_nodes s" "kikoobuf (gc_one p s) = kikoobuf s"
  "virtual_consoles (gc_one p s) = virtual_consoles s" "vc_current (gc_one p s) = vc_current s"
  "video_mem (gc_one p s) = video_mem s" "k_out (gc_one p s) = k_out s"
  by (simp_all add: gc_one_def Let_def kl_free_def)

lemma gc_one_tab:
  "tab_proc (gc_one p s) q =
     (if q = p \<and> p_valide (tab_proc s q) = 1 \<and> p_state (tab_proc s q) = STATE_DEAD
      then (tab_proc s q)\<lparr>p_valide := 0\<rparr> else tab_proc s q)"
  by (simp add: gc_one_def Let_def kl_free_def)

lemma fold_gc_frame [simp]:
  "k_links (fold gc_one ps s) = k_links s" "pid_cour (fold gc_one ps s) = pid_cour s"
  "semaphores (fold gc_one ps s) = semaphores s" "sid_libres (fold gc_one ps s) = sid_libres s"
  "allocs (fold gc_one ps s) = allocs s" "kernel_context (fold gc_one ps s) = kernel_context s"
  "nb_interrupt (fold gc_one ps s) = nb_interrupt s" "in_syscall (fold gc_one ps s) = in_syscall s"
  "umem (fold gc_one ps s) = umem s" "rate (fold gc_one ps s) = rate s"
  "rootfs_present (fold gc_one ps s) = rootfs_present s" "fs_nodes (fold gc_one ps s) = fs_nodes s" "kikoobuf (fold gc_one ps s) = kikoobuf s"
  "virtual_consoles (fold gc_one ps s) = virtual_consoles s" "vc_current (fold gc_one ps s) = vc_current s"
  "video_mem (fold gc_one ps s) = video_mem s" "k_out (fold gc_one ps s) = k_out s"
  by (induction ps arbitrary: s) simp_all

lemma garbage_collector_frame [simp]:
  "k_links (garbage_collector s) = k_links s" "pid_cour (garbage_collector s) = pid_cour s"
  "semaphores (garbage_collector s) = semaphores s" "sid_libres (garbage_collector s) = sid_libres s"
  "allocs (garbage_collector s) = allocs s" "kernel_context (garbage_collector s) = kernel_context s"
  "nb_interrupt (garbage_collector s) = nb_interrupt s" "in_syscall (garbage_collector s) = in_syscall s"
  "umem (garbage_collector s) = umem s" "rate (garbage_collector s) = rate s"
  "rootfs_present (garbage_collector s) = rootfs_present s" "fs_nodes (garbage_collector s) = fs_nodes s" "kikoobuf (garbage_collector s) = kikoobuf s"
  "virtual_consoles (garbage_collector s) = virtual_consoles s" "vc_current (garbage_collector s) = vc_current s"
  "video_mem (garbage_collector s) = video_mem s" "k_out (garbage_collector s) = k_out s"
  by (simp_all add: garbage_collector_def)

text \<open>After a collection the dead processes, and only they, have lost their slot.\<close>

lemma garbage_collector_tab:
  "tab_proc (garbage_collector s) q =
     (if in_tab q \<and> p_valide (tab_proc s q) = 1 \<and> p_state (tab_proc s q) = STATE_DEAD
      then (tab_proc s q)\<lparr>p_valide := 0\<rparr> else tab_proc s q)"
proof -
  have "tab_proc (fold gc_one ps s) q =
      (if q \<in> set ps \<and> p_valide (tab_proc s q) = 1 \<and> p_state (tab_proc s q) = STATE_DEAD
       then (tab_proc s q)\<lparr>p_valide := 0\<rparr> else tab_proc s q)" for ps
    by (induction ps arbitrary: s) (auto simp: gc_one_tab)
  then show ?thesis by (auto simp: garbage_collector_def in_tab_def)
qed

section \<open>Waking a process\<close>

lemma prio_of_simps [simp]:
  "prio_of (upd_proc p (\<lambda>c. c\<lparr>p_state := x\<rparr>) s) = prio_of s"
  "prio_of (s\<lparr>k_links := L\<rparr>) = prio_of s" "prio_of (s\<lparr>pid_cour := q\<rparr>) = prio_of s"
  by (auto simp: prio_of_def fun_eq_iff)

lemma valid_proc_simps [simp]:
  "valid_proc (upd_proc p (\<lambda>c. c\<lparr>p_state := x\<rparr>) s) = valid_proc s"
  "valid_proc (s\<lparr>k_links := L\<rparr>) = valid_proc s" "valid_proc (s\<lparr>pid_cour := q\<rparr>) = valid_proc s"
  by (auto simp: valid_proc_def fun_eq_iff)

lemma activable_simps [simp]:
  "activable (s\<lparr>k_links := L\<rparr>) = activable s" "activable (s\<lparr>pid_cour := q\<rparr>) = activable s"
  by (auto simp: activable_def)

lemma activable_upd_state:
  "activable (upd_proc p (\<lambda>c. c\<lparr>p_state := x\<rparr>) s) =
     (if x = STATE_ACTIVABLE \<and> valid_proc s p then insert p (activable s) else activable s - {p})"
  by (auto simp: activable_def)

lemma ready_simps [simp]: "ready (s\<lparr>pid_cour := q\<rparr>) xs = ready s xs"
  by (simp add: ready_def)

lemma ready_dll: "ready s xs \<Longrightarrow> dll (k_links s) 0 xs"
  by (simp add: ready_def queue_rep_def)

lemma ready_distinct: "ready s xs \<Longrightarrow> distinct xs \<and> 0 \<notin> set xs"
  by (auto simp: ready_def queue_rep_def dll_def)

lemma ready_unique: "ready s xs \<Longrightarrow> ready s ys \<Longrightarrow> xs = ys"
  using dll_unique ready_dll by blast

abbreviation make_activable :: "int \<Rightarrow> kstate \<Rightarrow> kstate" where
  "make_activable pid s \<equiv> upd_proc pid (\<lambda>c. c\<lparr>p_state := STATE_ACTIVABLE\<rparr>) s"

lemma wakeup_process_queue:
  assumes rep: "queue_rep (prio_of s) 0 (k_links s) xs" and vld: "valid_proc s pid" and notin: "pid \<notin> set xs"
  obtains L where "wakeup_process pid s = Some (pid, (make_activable pid s)\<lparr>k_links := L\<rparr>)"
    "queue_rep (prio_of s) 0 L (prio_insert (prio_of s) pid xs)"
proof -
  have pid: "pid \<noteq> 0" "1 \<le> pid" "pid \<le> NBPROC" "p_valide (tab_proc s pid) = 1"
    using vld by (auto simp: valid_proc_def in_tab_def)
  have "dll (INIT_LINK pid (k_links s)) 0 xs"
    using dll_cong [of 0 xs "INIT_LINK pid (k_links s)" "k_links s"] rep notin pid
    by (auto simp: INIT_LINK_def queue_rep_def)
  then have "queue_rep (prio_of s) 0 (INIT_LINK pid (k_links s)) xs"
    using rep by (simp add: queue_rep_def)
  moreover have "queue_free 0 (INIT_LINK pid (k_links s)) pid"
    using pid by (simp add: queue_free_def INIT_LINK_def)
  ultimately obtain L where L: "queue_add (prio_of s) 0 pid (INIT_LINK pid (k_links s)) = Some L"
    "queue_rep (prio_of s) 0 L (prio_insert (prio_of s) pid xs)"
    using lq.add_law notin by blast
  with pid show ?thesis by (intro that [of L]) (simp_all add: wakeup_process_def Let_def)
qed

lemma wakeup_process_ready:
  assumes rdy: "ready s xs" and vld: "valid_proc s pid" and notin: "pid \<notin> activable s"
  obtains L where "wakeup_process pid s = Some (pid, (make_activable pid s)\<lparr>k_links := L\<rparr>)"
    "ready ((make_activable pid s)\<lparr>k_links := L\<rparr>) (prio_insert (prio_of s) pid xs)"
proof -
  have "queue_rep (prio_of s) 0 (k_links s) xs" "pid \<notin> set xs"
    using rdy notin by (auto simp: ready_def)
  with vld obtain L where L: "wakeup_process pid s = Some (pid, (make_activable pid s)\<lparr>k_links := L\<rparr>)"
    "queue_rep (prio_of s) 0 L (prio_insert (prio_of s) pid xs)"
    using wakeup_process_queue by metis
  then show ?thesis
    using rdy vld by (intro that [of L]) (simp_all add: ready_def activable_upd_state)
qed

lemma wakeup_process_invalid: "\<not> valid_proc s pid \<Longrightarrow> wakeup_process pid s = Some (-1, s)"
  by (auto simp: wakeup_process_def valid_proc_def in_tab_def)

section \<open>Switching\<close>

definition switch_to :: "int \<Rightarrow> kstate \<Rightarrow> kstate" where
  "switch_to p s = garbage_collector (upd_proc p (\<lambda>c. c\<lparr>p_state := STATE_ACTIVE\<rparr>) (s\<lparr>pid_cour := p\<rparr>))"

lemma context_switch_idle:
  "pid_cour s = 0 \<or> (in_tab (pid_cour s) \<and> p_sigs (tab_proc s (pid_cour s)) = Some []) \<Longrightarrow>
   context_switch s = Some (garbage_collector s)"
  by (simp add: context_switch_def trt_sigs_idle)

lemma prio_of_gc [simp]: "prio_of (garbage_collector s) = prio_of s"
  by (auto simp: prio_of_def garbage_collector_tab)

lemma valid_proc_gc:
  "valid_proc (garbage_collector s) p \<longleftrightarrow> valid_proc s p \<and> p_state (tab_proc s p) \<noteq> STATE_DEAD"
  by (auto simp: valid_proc_def garbage_collector_tab)

lemma p_state_gc [simp]: "p_state (tab_proc (garbage_collector s) p) = p_state (tab_proc s p)"
  by (simp add: garbage_collector_tab)

lemma activable_gc [simp]: "activable (garbage_collector s) = activable s"
  by (auto simp: activable_def valid_proc_gc)

lemma ready_gc [simp]: "ready (garbage_collector s) xs = ready s xs"
  by (simp add: ready_def)

text \<open>
  The four outcomes of a call of the scheduler: the kernel or a process that cannot go on
  gives way to the head of the ready queue; an active process is preempted by a process of
  at least its priority, and goes to the queue; it stays otherwise; with nothing to run the
  kernel runs.
\<close>

lemma scheduler_dispatch:
  assumes inv: "sched_inv s" and sig: "no_sigs s" and rdy: "ready s xs" and ne: "xs \<noteq> []"
    and cur: "pid_cour s = 0 \<or> p_state (tab_proc s (pid_cour s)) \<noteq> STATE_ACTIVE"
  obtains L where "scheduler s = Some (switch_to (last xs) (s\<lparr>k_links := L\<rparr>))"
    "queue_rep (prio_of s) 0 L (butlast xs)"
proof -
  let ?e = "last xs"
  have e: "?e \<in> activable s" using rdy ne last_in_set by (auto simp: ready_def)
  then have v: "valid_proc s ?e" "in_tab ?e" "?e \<noteq> 0" "p_pid (tab_proc s ?e) = ?e" "p_sigs (tab_proc s ?e) = Some []"
    using inv sig by (auto simp: activable_def valid_proc_def sched_inv_def no_sigs_def in_tab_def)
  have rep: "queue_rep (prio_of s) 0 (k_links s) xs" using rdy by (simp add: ready_def)
  show ?thesis
  proof (cases "pid_cour s = 0")
    case True
    from lq.out_law [OF rep ne] obtain L where
      "queue_out 0 (k_links s) = Some (Some ?e, L)" "queue_rep (prio_of s) 0 L (butlast xs)" by auto
    then show ?thesis
      using True v by (intro that [of L]) (auto simp: scheduler_def Let_def switch_to_def context_switch_idle)
  next
    case False
    with inv have "in_tab (pid_cour s)" by (auto simp: sched_inv_def valid_proc_def)
    moreover from lq.del_law [OF rep last_in_set [OF ne]] obtain L where
      "queue_del ?e (k_links s) = Some L" "queue_rep (prio_of s) 0 L (remove1 ?e xs)" by auto
    moreover have "remove1 ?e xs = butlast xs"
      using ready_distinct [OF rdy] ne by (simp add: remove1_last)
    moreover have "queue_top 0 (k_links s) = Some ?e" using lq.top_law [OF rep] ne by simp
    ultimately show ?thesis
      using False v cur by (intro that [of L]) (auto simp: scheduler_def Let_def switch_to_def context_switch_idle)
  qed
qed

lemma scheduler_preempt:
  assumes inv: "sched_inv s" and sig: "no_sigs s" and rdy: "ready s xs" and ne: "xs \<noteq> []"
    and cur: "pid_cour s \<noteq> 0" "p_state (tab_proc s (pid_cour s)) = STATE_ACTIVE"
    and pri: "prio_of s (pid_cour s) \<le> prio_of s (last xs)"
  obtains L where
    "scheduler s = Some (switch_to (last xs) ((make_activable (pid_cour s) s)\<lparr>k_links := L\<rparr>))"
    "queue_rep (prio_of s) 0 L (prio_insert (prio_of s) (pid_cour s) (butlast xs))"
proof -
  let ?e = "last xs" and ?c = "pid_cour s"
  have e: "?e \<in> activable s" using rdy ne last_in_set by (auto simp: ready_def)
  then have v: "valid_proc s ?e" "in_tab ?e" "?e \<noteq> 0" "p_pid (tab_proc s ?e) = ?e" "p_sigs (tab_proc s ?e) = Some []"
    using inv sig by (auto simp: activable_def valid_proc_def sched_inv_def no_sigs_def in_tab_def)
  have c1: "valid_proc s ?c" using inv cur(1) by (simp add: sched_inv_def)
  have c2: "in_tab ?c" using c1 by (simp add: valid_proc_def)
  have c3: "?c \<notin> activable s" using cur(2) by (simp add: activable_def)
  have c4: "?c \<noteq> ?e" using c3 e by metis
  have c5: "?c \<notin> set xs" using c3 rdy by (simp add: ready_def)
  have rep: "queue_rep (prio_of s) 0 (k_links s) xs" using rdy by (simp add: ready_def)
  from lq.del_law [OF rep last_in_set [OF ne]] obtain L1 where
    L1: "queue_del ?e (k_links s) = Some L1" "queue_rep (prio_of s) 0 L1 (remove1 ?e xs)" by auto
  moreover have "remove1 ?e xs = butlast xs"
    using ready_distinct [OF rdy] ne by (simp add: remove1_last)
  ultimately have rep1: "queue_rep (prio_of s) 0 L1 (butlast xs)" by simp
  have "?c \<notin> set (butlast xs)" using c5 in_set_butlastD by metis
  then obtain L where
    L: "wakeup_process ?c (s\<lparr>k_links := L1\<rparr>) = Some (?c, (make_activable ?c (s\<lparr>k_links := L1\<rparr>))\<lparr>k_links := L\<rparr>)"
    "queue_rep (prio_of s) 0 L (prio_insert (prio_of s) ?c (butlast xs))"
    using wakeup_process_queue [of "s\<lparr>k_links := L1\<rparr>" "butlast xs" ?c] rep1 c1 by auto
  have "(make_activable ?c (s\<lparr>k_links := L1\<rparr>))\<lparr>k_links := L\<rparr> = (make_activable ?c s)\<lparr>k_links := L\<rparr>"
    by (simp add: upd_proc_def)
  with L have "wakeup_process ?c (s\<lparr>k_links := L1\<rparr>) = Some (?c, (make_activable ?c s)\<lparr>k_links := L\<rparr>)" by simp
  moreover have "queue_top 0 (k_links s) = Some ?e" using lq.top_law [OF rep] ne by simp
  ultimately have "scheduler s = Some (switch_to ?e ((make_activable ?c s)\<lparr>k_links := L\<rparr>))"
    using L1(1) v c2 c4 cur pri
    by (simp add: scheduler_def Let_def switch_to_def context_switch_idle prio_of_def)
  with L(2) show ?thesis using that by blast
qed

lemma scheduler_keep:
  assumes inv: "sched_inv s" and rdy: "ready s xs" and run: "running s"
    and low: "xs = [] \<or> (pid_cour s \<noteq> 0 \<and> prio_of s (last xs) < prio_of s (pid_cour s))"
  shows "scheduler s = Some s"
proof -
  have rep: "queue_rep (prio_of s) 0 (k_links s) xs" using rdy by (simp add: ready_def)
  have top: "queue_top 0 (k_links s) = (if xs = [] then None else Some (last xs))"
    using lq.top_law [OF rep] .
  show ?thesis
  proof (cases "pid_cour s = 0")
    case True
    with low have "queue_out 0 (k_links s) = Some (None, k_links s)"
      using lq.out_empty rep by auto
    with True show ?thesis by (simp add: scheduler_def)
  next
    case False
    with inv have "in_tab (pid_cour s)" by (auto simp: sched_inv_def valid_proc_def)
    with False top low run show ?thesis by (auto simp: scheduler_def Let_def running_def prio_of_def)
  qed
qed

lemma scheduler_idle:
  assumes inv: "sched_inv s" and rdy: "ready s []" and run: "\<not> running s"
  shows "scheduler s = Some (garbage_collector (s\<lparr>pid_cour := 0\<rparr>))"
proof -
  have "queue_top 0 (k_links s) = None"
    using lq.top_law [of "prio_of s" 0 "k_links s" "[]"] rdy by (simp add: ready_def)
  moreover have "in_tab (pid_cour s)" using inv run by (auto simp: sched_inv_def valid_proc_def running_def)
  ultimately show ?thesis
    using run by (auto simp: scheduler_def Let_def running_def context_switch_idle)
qed


section \<open>What a call of the scheduler establishes\<close>

lemma switch_to_simps [simp]:
  "pid_cour (switch_to p s) = p" "k_links (switch_to p s) = k_links s"
  "prio_of (switch_to p s) = prio_of s" "activable (switch_to p s) = activable s - {p}"
  "semaphores (switch_to p s) = semaphores s" "sid_libres (switch_to p s) = sid_libres s"
  "allocs (switch_to p s) = allocs s" "nb_interrupt (switch_to p s) = nb_interrupt s"
  by (simp_all add: switch_to_def activable_upd_state)

lemma p_state_switch_to [simp]:
  "p_state (tab_proc (switch_to p s) q) = (if q = p then STATE_ACTIVE else p_state (tab_proc s q))"
  by (simp add: switch_to_def)

lemma valid_proc_switch_to [simp]:
  "valid_proc (switch_to p s) q \<longleftrightarrow> valid_proc s q \<and> (q = p \<or> p_state (tab_proc s q) \<noteq> STATE_DEAD)"
  by (auto simp: switch_to_def valid_proc_gc)

lemma switch_to_other [simp]:
  "p_pid (tab_proc (switch_to p s) q) = p_pid (tab_proc s q)"
  "p_sigs (tab_proc (switch_to p s) q) = p_sigs (tab_proc s q)"
  by (simp_all add: switch_to_def garbage_collector_tab)

text \<open>The processor goes to a process \<open>p\<close>, whose link has been taken out of the queue.\<close>

lemma switch_to_inv:
  assumes "queue_rep (prio_of s) 0 L ys" and "set ys = activable s - {p}" and "valid_proc s p"
    and "\<forall>q. valid_proc s q \<longrightarrow> p_pid (tab_proc s q) = q" and "no_sigs s"
    and "\<forall>q. valid_proc s q \<longrightarrow> p_state (tab_proc s q) \<noteq> STATE_ACTIVE"
  shows "ready (switch_to p (s\<lparr>k_links := L\<rparr>)) ys \<and> sched_inv (switch_to p (s\<lparr>k_links := L\<rparr>)) \<and>
    no_sigs (switch_to p (s\<lparr>k_links := L\<rparr>)) \<and> running (switch_to p (s\<lparr>k_links := L\<rparr>))"
proof -
  have rdy: "ready (switch_to p (s\<lparr>k_links := L\<rparr>)) ys"
    using assms(1,2) by (simp add: ready_def)
  moreover have "running (switch_to p (s\<lparr>k_links := L\<rparr>))" by (simp add: running_def)
  moreover have "no_sigs (switch_to p (s\<lparr>k_links := L\<rparr>))" using assms(5) by (simp add: no_sigs_def)
  moreover have "sched_inv (switch_to p (s\<lparr>k_links := L\<rparr>))"
    using assms(3,4,6) rdy by (auto simp: sched_inv_def)
  ultimately show ?thesis by simp
qed

text \<open>
  \<open>sched_post s s'\<close>: the contract of the scheduler. The kernel runs only when no process is
  activable; otherwise a process runs and no activable one has a greater priority.
\<close>

definition sched_post :: "kstate \<Rightarrow> bool" where
  "sched_post s \<longleftrightarrow> sched_inv s \<and> no_sigs s \<and> running s \<and>
     (if pid_cour s = 0 then activable s = {}
      else \<forall>p \<in> activable s. prio_of s p \<le> prio_of s (pid_cour s))"

lemma ready_last_max: "ready s xs \<Longrightarrow> p \<in> activable s \<Longrightarrow> prio_of s p \<le> prio_of s (last xs)"
  using sorted_map_last [of "prio_of s" xs p] by (simp add: ready_def queue_rep_def)

lemma ready_last_activable: "ready s xs \<Longrightarrow> xs \<noteq> [] \<Longrightarrow> last xs \<in> activable s"
  using last_in_set by (auto simp: ready_def)

lemma ready_butlast: "ready s xs \<Longrightarrow> xs \<noteq> [] \<Longrightarrow> set (butlast xs) = activable s - {last xs}"
  using set_butlast_distinct ready_distinct by (auto simp: ready_def)

lemma sched_inv_ready:
  assumes "sched_inv s"
  obtains xs where "ready s xs"
  using assms by (auto simp: sched_inv_def)

lemma scheduler_dispatch_post:
  assumes inv: "sched_inv s" and sig: "no_sigs s" and rdy: "ready s xs" and ne: "xs \<noteq> []"
    and cur: "pid_cour s = 0 \<or> p_state (tab_proc s (pid_cour s)) \<noteq> STATE_ACTIVE"
  shows "\<exists>s'. scheduler s = Some s' \<and> pid_cour s' = last xs \<and> ready s' (butlast xs) \<and> sched_post s' \<and> prio_of s' = prio_of s"
proof -
  from scheduler_dispatch [OF assms] obtain L where
    L: "scheduler s = Some (switch_to (last xs) (s\<lparr>k_links := L\<rparr>))" "queue_rep (prio_of s) 0 L (butlast xs)"
    by blast
  have v: "valid_proc s (last xs)"
    using ready_last_activable [OF rdy ne] by (simp add: activable_def)
  have "\<forall>q. valid_proc s q \<longrightarrow> p_state (tab_proc s q) \<noteq> STATE_ACTIVE"
    using inv cur by (auto simp: sched_inv_def valid_proc_def in_tab_def)
  then have *: "ready (switch_to (last xs) (s\<lparr>k_links := L\<rparr>)) (butlast xs) \<and> sched_inv (switch_to (last xs) (s\<lparr>k_links := L\<rparr>)) \<and>
    no_sigs (switch_to (last xs) (s\<lparr>k_links := L\<rparr>)) \<and> running (switch_to (last xs) (s\<lparr>k_links := L\<rparr>))"
    using switch_to_inv [OF L(2) ready_butlast [OF rdy ne] v _ sig] inv by (simp add: sched_inv_def)
  moreover have "last xs \<noteq> 0" using v by (auto simp: valid_proc_def in_tab_def)
  ultimately have "sched_post (switch_to (last xs) (s\<lparr>k_links := L\<rparr>))"
    using ready_last_max [OF rdy] by (simp add: sched_post_def)
  with * L(1) show ?thesis by simp
qed

lemma scheduler_preempt_post:
  assumes inv: "sched_inv s" and sig: "no_sigs s" and rdy: "ready s xs" and ne: "xs \<noteq> []"
    and cur: "pid_cour s \<noteq> 0" "p_state (tab_proc s (pid_cour s)) = STATE_ACTIVE"
    and pri: "prio_of s (pid_cour s) \<le> prio_of s (last xs)"
  shows "\<exists>s'. scheduler s = Some s' \<and> pid_cour s' = last xs \<and>
    ready s' (prio_insert (prio_of s) (pid_cour s) (butlast xs)) \<and> sched_post s' \<and> prio_of s' = prio_of s"
proof -
  let ?e = "last xs" and ?c = "pid_cour s" and ?m = "make_activable (pid_cour s) s"
  from scheduler_preempt [OF assms] obtain L where
    L: "scheduler s = Some (switch_to ?e (?m\<lparr>k_links := L\<rparr>))"
    "queue_rep (prio_of s) 0 L (prio_insert (prio_of s) ?c (butlast xs))"
    by blast
  have e: "?e \<in> activable s" using ready_last_activable [OF rdy ne] .
  then have v: "valid_proc s ?e" by (simp add: activable_def)
  have c: "valid_proc s ?c" "?c \<noteq> ?e"
    using inv cur e by (auto simp: sched_inv_def activable_def)
  have "set (prio_insert (prio_of s) ?c (butlast xs)) = activable ?m - {?e}"
    using ready_butlast [OF rdy ne] c by (auto simp: activable_upd_state)
  moreover have "\<forall>q. valid_proc ?m q \<longrightarrow> p_state (tab_proc ?m q) \<noteq> STATE_ACTIVE"
    using inv by (auto simp: sched_inv_def)
  moreover have "no_sigs ?m" using sig by (simp add: no_sigs_def)
  moreover have "\<forall>q. valid_proc ?m q \<longrightarrow> p_pid (tab_proc ?m q) = q" using inv by (simp add: sched_inv_def)
  ultimately have *: "ready (switch_to ?e (?m\<lparr>k_links := L\<rparr>)) (prio_insert (prio_of s) ?c (butlast xs)) \<and>
      sched_inv (switch_to ?e (?m\<lparr>k_links := L\<rparr>)) \<and> no_sigs (switch_to ?e (?m\<lparr>k_links := L\<rparr>)) \<and>
      running (switch_to ?e (?m\<lparr>k_links := L\<rparr>))"
    using switch_to_inv [of ?m L "prio_insert (prio_of s) ?c (butlast xs)" ?e] L(2) v by simp
  moreover have "?e \<noteq> 0" using v by (auto simp: valid_proc_def in_tab_def)
  moreover have "\<forall>p \<in> activable ?m. prio_of s p \<le> prio_of s ?e"
    using ready_last_max [OF rdy] pri by (simp add: activable_upd_state)
  ultimately have "sched_post (switch_to ?e (?m\<lparr>k_links := L\<rparr>))" by (simp add: sched_post_def)
  with * L(1) show ?thesis by simp
qed

lemma scheduler_keep_post:
  assumes inv: "sched_inv s" and sig: "no_sigs s" and rdy: "ready s xs" and run: "running s"
    and low: "xs = [] \<or> (pid_cour s \<noteq> 0 \<and> prio_of s (last xs) < prio_of s (pid_cour s))"
  shows "scheduler s = Some s \<and> sched_post s"
proof -
  have "\<forall>p \<in> activable s. prio_of s p \<le> prio_of s (pid_cour s)" "pid_cour s = 0 \<longrightarrow> activable s = {}"
    using low ready_last_max [OF rdy] rdy by (force simp: ready_def)+
  then show ?thesis
    using scheduler_keep [OF inv rdy run low] inv sig run by (simp add: sched_post_def)
qed

lemma scheduler_idle_post:
  assumes inv: "sched_inv s" and sig: "no_sigs s" and rdy: "ready s []" and run: "\<not> running s"
  shows "\<exists>s'. scheduler s = Some s' \<and> pid_cour s' = 0 \<and> ready s' [] \<and> sched_post s' \<and> prio_of s' = prio_of s"
proof -
  let ?s = "garbage_collector (s\<lparr>pid_cour := 0\<rparr>)"
  have "ready ?s []" using rdy by simp
  moreover have "activable s = {}" using rdy by (simp add: ready_def)
  moreover have "no_sigs ?s" using sig by (simp add: no_sigs_def garbage_collector_tab valid_proc_gc)
  moreover have "\<forall>p. valid_proc s p \<longrightarrow> p_state (tab_proc s p) \<noteq> STATE_ACTIVE"
    using inv run by (auto simp: sched_inv_def running_def)
  then have "sched_inv ?s"
    using inv \<open>ready ?s []\<close> unfolding sched_inv_def
    by (auto simp: garbage_collector_tab valid_proc_gc)
  ultimately show ?thesis
    using scheduler_idle [OF inv rdy run] by (simp add: sched_post_def running_def)
qed

lemma scheduler_establishes:
  assumes inv: "sched_inv s" and sig: "no_sigs s"
  shows "\<exists>s'. scheduler s = Some s' \<and> sched_post s' \<and> prio_of s' = prio_of s"
proof -
  obtain xs where rdy: "ready s xs" using inv by (rule sched_inv_ready)
  consider "xs = []" "\<not> running s" | "running s" "xs = [] \<or> (pid_cour s \<noteq> 0 \<and> prio_of s (last xs) < prio_of s (pid_cour s))"
    | "xs \<noteq> []" "pid_cour s = 0 \<or> p_state (tab_proc s (pid_cour s)) \<noteq> STATE_ACTIVE"
    | "xs \<noteq> []" "pid_cour s \<noteq> 0" "p_state (tab_proc s (pid_cour s)) = STATE_ACTIVE" "prio_of s (pid_cour s) \<le> prio_of s (last xs)"
    by (metis running_def not_le)
  then show ?thesis
  proof cases
    case 1 with scheduler_idle_post [OF inv sig] rdy show ?thesis by blast
  next
    case 2 with scheduler_keep_post [OF inv sig rdy] show ?thesis by blast
  next
    case 3 with scheduler_dispatch_post [OF inv sig rdy] show ?thesis by blast
  next
    case 4 with scheduler_preempt_post [OF inv sig rdy] show ?thesis by blast
  qed
qed

section \<open>Round robin\<close>

text \<open>\<open>n\<close> calls of the scheduler with nothing in between, as the clock makes them.\<close>

fun run_scheduler :: "nat \<Rightarrow> kstate \<Rightarrow> kstate option" where
  "run_scheduler 0 s = Some s"
| "run_scheduler (Suc n) s = Option.bind (scheduler s) (run_scheduler n)"

text \<open>
  \<open>rotation s order\<close>: the processes of \<open>order\<close> have the greatest priority of all that can run;
  the first one runs and the others wait in this order.
\<close>

definition rotation :: "kstate \<Rightarrow> int list \<Rightarrow> bool" where
  "rotation s order \<longleftrightarrow> sched_inv s \<and> no_sigs s \<and> running s \<and> order \<noteq> [] \<and> pid_cour s = hd order \<and> pid_cour s \<noteq> 0 \<and>
     (\<forall>x \<in> set order. prio_of s x = prio_of s (hd order)) \<and>
     (\<exists>us. ready s (us @ rev (tl order)) \<and> (\<forall>x \<in> set us. prio_of s x < prio_of s (hd order)))"

lemma prio_insert_after:
  assumes "\<forall>x \<in> set us. prio x < prio e" and "\<forall>x \<in> set vs. prio x = prio e"
  shows "prio_insert prio e (us @ vs) = us @ e # vs"
proof -
  have "takeWhile (\<lambda>x. prio x < prio e) vs = [] \<and> dropWhile (\<lambda>x. prio x < prio e) vs = vs"
    using assms(2) by (cases vs) auto
  with assms(1) show ?thesis by (simp add: prio_insert_def)
qed

lemma rotation_step:
  assumes rot: "rotation s order"
  shows "\<exists>s'. scheduler s = Some s' \<and> rotation s' (rotate1 order)"
proof -
  from rot obtain us where
    st: "sched_inv s" "no_sigs s" "running s" "pid_cour s \<noteq> 0" and
    rdy: "ready s (us @ rev (tl order))" and us: "\<forall>x \<in> set us. prio_of s x < prio_of s (hd order)" and
    eq: "\<forall>x \<in> set order. prio_of s x = prio_of s (hd order)"
    unfolding rotation_def by blast
  from rot obtain c cs where order: "order = c # cs" "pid_cour s = c" by (cases order) (auto simp: rotation_def)
  have act: "p_state (tab_proc s (pid_cour s)) = STATE_ACTIVE" using st by (simp add: running_def)
  show ?thesis
  proof (cases cs)
    case Nil
    have "us = [] \<or> prio_of s (last us) < prio_of s (pid_cour s)"
      using us order by (cases "us = []") simp_all
    with Nil st rdy order have "scheduler s = Some s"
      using scheduler_keep_post [OF st(1,2) rdy st(3)] by simp
    with rot Nil order show ?thesis by simp
  next
    case (Cons d ds)
    have eq': "\<forall>x \<in> set (d # ds). prio_of s x = prio_of s c"
      using eq unfolding order(1) Cons by (metis list.sel(1) list.set_intros(2))
    have us': "\<forall>x \<in> set us. prio_of s x < prio_of s c" using us order by simp
    have "prio_of s d = prio_of s c" using eq' by simp
    with scheduler_preempt_post [OF st(1,2) rdy _ st(4) act] Cons order obtain s' where
      s': "scheduler s = Some s'" "pid_cour s' = d" "sched_post s'" "prio_of s' = prio_of s"
        "ready s' (prio_insert (prio_of s) c (us @ rev ds))"
      by (auto simp: butlast_append)
    have "prio_insert (prio_of s) c (us @ rev ds) = us @ c # rev ds"
      using prio_insert_after [of us "prio_of s" c "rev ds"] us' eq' by simp
    moreover have "d \<noteq> 0"
      using ready_distinct [OF rdy] Cons order by auto
    ultimately have "ready s' (us @ rev (tl (d # ds @ [c])))" "d \<noteq> 0" using s'(5) by simp_all
    then have "rotation s' (rotate1 order)"
      using s'(2,3,4) us' eq' unfolding rotation_def sched_post_def order(1) Cons by fastforce
    with s'(1) show ?thesis by blast
  qed
qed

lemma rotation_run:
  "rotation s order \<Longrightarrow> \<exists>s'. run_scheduler n s = Some s' \<and> rotation s' (rotate n order)"
proof (induction n arbitrary: s order)
  case (Suc n)
  then show ?case using rotation_step [of s order] by (fastforce simp: rotate_Suc rotate1_rotate_swap)
qed simp

lemma rotation_exists:
  assumes inv: "sched_inv s" "no_sigs s" "running s" "pid_cour s \<noteq> 0"
    and top: "\<forall>q \<in> activable s. prio_of s q \<le> prio_of s (pid_cour s)"
  obtains order where "rotation s order" "length order \<le> Suc (card (activable s))"
    "\<forall>p \<in> activable s. prio_of s p = prio_of s (pid_cour s) \<longrightarrow> p \<in> set order"
proof -
  let ?pi = "prio_of s (pid_cour s)"
  obtain xs where rdy: "ready s xs" using inv(1) by (rule sched_inv_ready)
  then have srt: "sorted (map (prio_of s) xs)" and st: "set xs = activable s" and dst: "distinct xs"
    using ready_distinct by (auto simp: ready_def queue_rep_def)
  define us vs where uv: "us = takeWhile (\<lambda>x. prio_of s x < ?pi) xs" "vs = dropWhile (\<lambda>x. prio_of s x < ?pi) xs"
  have xs: "xs = us @ vs" using uv by simp
  have us: "\<forall>x \<in> set us. prio_of s x < ?pi" using uv set_takeWhileD by force
  have vs: "\<forall>x \<in> set vs. prio_of s x = ?pi"
  proof (cases vs)
    case (Cons v ws)
    then have "\<not> prio_of s v < ?pi" using uv(2) by (metis hd_dropWhile list.distinct(1) list.sel(1))
    then have "\<forall>x \<in> set vs. ?pi \<le> prio_of s x" using srt xs Cons by (fastforce simp: sorted_append)
    moreover have "\<forall>x \<in> set vs. prio_of s x \<le> ?pi" using top st xs by auto
    ultimately show ?thesis by (meson order.antisym)
  qed simp
  have "rotation s (pid_cour s # rev vs)"
    using inv us vs rdy xs by (auto simp: rotation_def)
  moreover have "length vs \<le> card (activable s)"
    using st dst xs distinct_card [of xs] by simp
  moreover have "\<forall>p \<in> activable s. prio_of s p = ?pi \<longrightarrow> p \<in> set vs"
  proof (intro ballI impI)
    fix p assume "p \<in> activable s" and p: "prio_of s p = ?pi"
    then have "p \<in> set us \<or> p \<in> set vs" using st xs by auto
    with us p show "p \<in> set vs" by force
  qed
  ultimately show ?thesis using that [of "pid_cour s # rev vs"] by simp
qed


section \<open>What the scheduler leaves alone\<close>

text \<open>
  \<open>sched_frame s s'\<close>: between \<open>s\<close> and \<open>s'\<close> processes only moved between active and activable,
  and dead ones lost their slot. Semaphores, the free identifiers and the clock did not change.
\<close>

definition runnable_state :: "proc_state \<Rightarrow> bool" where
  "runnable_state st \<longleftrightarrow> st = STATE_ACTIVE \<or> st = STATE_ACTIVABLE"

definition sched_frame :: "kstate \<Rightarrow> kstate \<Rightarrow> bool" where
  "sched_frame s s' \<longleftrightarrow> semaphores s' = semaphores s \<and> sid_libres s' = sid_libres s \<and>
     allocs s' = allocs s \<and> nb_interrupt s' = nb_interrupt s \<and> prio_of s' = prio_of s \<and>
     kernel_context s' = kernel_context s \<and>
     (\<forall>p. \<exists>st v. tab_proc s' p = (tab_proc s p)\<lparr>p_state := st, p_valide := v\<rparr> \<and>
        (st = p_state (tab_proc s p) \<or> runnable_state st \<and> runnable_state (p_state (tab_proc s p))) \<and>
        (v = p_valide (tab_proc s p) \<or> p_state (tab_proc s p) = STATE_DEAD))"

lemma sched_frame_refl [simp]: "sched_frame s s"
proof -
  have "\<exists>st v. tab_proc s p = (tab_proc s p)\<lparr>p_state := st, p_valide := v\<rparr> \<and>
        (st = p_state (tab_proc s p) \<or> runnable_state st \<and> runnable_state (p_state (tab_proc s p))) \<and>
        (v = p_valide (tab_proc s p) \<or> p_state (tab_proc s p) = STATE_DEAD)" for p
    by (intro exI [of _ "p_state (tab_proc s p)"] exI [of _ "p_valide (tab_proc s p)"]) simp
  then show ?thesis by (simp add: sched_frame_def)
qed

lemma sched_frame_simps:
  assumes "sched_frame s s'"
  shows "semaphores s' = semaphores s" "sid_libres s' = sid_libres s" "allocs s' = allocs s"
    "nb_interrupt s' = nb_interrupt s" "prio_of s' = prio_of s" "kernel_context s' = kernel_context s"
  using assms by (auto simp: sched_frame_def)

lemma sched_frame_fields:
  assumes "sched_frame s s'"
  shows "p_sid_wait (tab_proc s' p) = p_sid_wait (tab_proc s p)"
    "p_pid_parent (tab_proc s' p) = p_pid_parent (tab_proc s p)"
    "p_children (tab_proc s' p) = p_children (tab_proc s p)"
    "p_pid_wait (tab_proc s' p) = p_pid_wait (tab_proc s p)"
    "p_timer (tab_proc s' p) = p_timer (tab_proc s p)"
    "p_val_ret (tab_proc s' p) = p_val_ret (tab_proc s p)"
    "p_sid_deleted (tab_proc s' p) = p_sid_deleted (tab_proc s p)"
    "p_sid_reseted (tab_proc s' p) = p_sid_reseted (tab_proc s p)"
    "p_killed (tab_proc s' p) = p_killed (tab_proc s p)"
proof -
  from assms obtain st v where "tab_proc s' p = (tab_proc s p)\<lparr>p_state := st, p_valide := v\<rparr>"
    unfolding sched_frame_def by blast
  then show "p_sid_wait (tab_proc s' p) = p_sid_wait (tab_proc s p)"
    "p_pid_parent (tab_proc s' p) = p_pid_parent (tab_proc s p)"
    "p_children (tab_proc s' p) = p_children (tab_proc s p)"
    "p_pid_wait (tab_proc s' p) = p_pid_wait (tab_proc s p)"
    "p_timer (tab_proc s' p) = p_timer (tab_proc s p)"
    "p_val_ret (tab_proc s' p) = p_val_ret (tab_proc s p)"
    "p_sid_deleted (tab_proc s' p) = p_sid_deleted (tab_proc s p)"
    "p_sid_reseted (tab_proc s' p) = p_sid_reseted (tab_proc s p)"
    "p_killed (tab_proc s' p) = p_killed (tab_proc s p)" by simp_all
qed

text \<open>A blocked process stays as it is, and no process becomes blocked.\<close>

lemma sched_frame_blocked:
  assumes "sched_frame s s'" and "\<not> runnable_state st" and "st \<noteq> STATE_DEAD"
  shows "valid_proc s' p \<and> p_state (tab_proc s' p) = st \<longleftrightarrow> valid_proc s p \<and> p_state (tab_proc s p) = st"
proof -
  from assms(1) obtain st' v where t: "tab_proc s' p = (tab_proc s p)\<lparr>p_state := st', p_valide := v\<rparr>"
    "st' = p_state (tab_proc s p) \<or> runnable_state st' \<and> runnable_state (p_state (tab_proc s p))"
    "v = p_valide (tab_proc s p) \<or> p_state (tab_proc s p) = STATE_DEAD"
    unfolding sched_frame_def by blast
  then show ?thesis using assms(2,3) by (auto simp: valid_proc_def runnable_state_def)
qed

lemma sched_frame_runs:
  assumes "sched_frame s s'" and "valid_proc s p" and "runnable_state (p_state (tab_proc s p))"
  shows "valid_proc s' p \<and> runnable_state (p_state (tab_proc s' p))"
proof -
  from assms(1) obtain st v where t: "tab_proc s' p = (tab_proc s p)\<lparr>p_state := st, p_valide := v\<rparr>"
    "st = p_state (tab_proc s p) \<or> runnable_state st \<and> runnable_state (p_state (tab_proc s p))"
    "v = p_valide (tab_proc s p) \<or> p_state (tab_proc s p) = STATE_DEAD"
    unfolding sched_frame_def by blast
  then show ?thesis using assms(2,3) by (auto simp: valid_proc_def runnable_state_def)
qed

lemma sched_frame_stays:
  assumes "sched_frame s s'" and "\<not> runnable_state (p_state (tab_proc s p))"
  shows "p_state (tab_proc s' p) = p_state (tab_proc s p)"
proof -
  from assms(1) obtain st v where "tab_proc s' p = (tab_proc s p)\<lparr>p_state := st, p_valide := v\<rparr>"
    "st = p_state (tab_proc s p) \<or> runnable_state st \<and> runnable_state (p_state (tab_proc s p))"
    unfolding sched_frame_def by blast
  then show ?thesis using assms(2) by auto
qed

lemma sched_frame_gc:
  assumes sem: "semaphores t = semaphores s" "sid_libres t = sid_libres s" "allocs t = allocs s"
      "nb_interrupt t = nb_interrupt s" "prio_of t = prio_of s" "kernel_context t = kernel_context s"
    and tab: "\<And>p. \<exists>st. tab_proc t p = (tab_proc s p)\<lparr>p_state := st\<rparr> \<and>
      (st = p_state (tab_proc s p) \<or> runnable_state st \<and> runnable_state (p_state (tab_proc s p)))"
  shows "sched_frame s (garbage_collector t)"
proof -
  have "\<exists>st v. tab_proc (garbage_collector t) p = (tab_proc s p)\<lparr>p_state := st, p_valide := v\<rparr> \<and>
        (st = p_state (tab_proc s p) \<or> runnable_state st \<and> runnable_state (p_state (tab_proc s p))) \<and>
        (v = p_valide (tab_proc s p) \<or> p_state (tab_proc s p) = STATE_DEAD)" for p
  proof -
    from tab [of p] obtain st where st: "tab_proc t p = (tab_proc s p)\<lparr>p_state := st\<rparr>"
      "st = p_state (tab_proc s p) \<or> runnable_state st \<and> runnable_state (p_state (tab_proc s p))" by blast
    then show ?thesis
      by (intro exI [of _ st] exI [of _ "p_valide (tab_proc (garbage_collector t) p)"])
        (auto simp: garbage_collector_tab runnable_state_def)
  qed
  with sem show ?thesis by (simp add: sched_frame_def)
qed

lemma sched_frame_switch:
  assumes "runnable_state (p_state (tab_proc s p))"
  shows "sched_frame s (switch_to p (s\<lparr>k_links := L\<rparr>))"
  unfolding switch_to_def
proof (rule sched_frame_gc)
  fix q
  show "\<exists>st. tab_proc (upd_proc p (\<lambda>c. c\<lparr>p_state := STATE_ACTIVE\<rparr>) ((s\<lparr>k_links := L\<rparr>)\<lparr>pid_cour := p\<rparr>)) q =
      (tab_proc s q)\<lparr>p_state := st\<rparr> \<and>
      (st = p_state (tab_proc s q) \<or> runnable_state st \<and> runnable_state (p_state (tab_proc s q)))"
    using assms
    by (intro exI [of _ "if q = p then STATE_ACTIVE else p_state (tab_proc s q)"]) (simp add: runnable_state_def)
qed simp_all

lemma sched_frame_trans_activable:
  assumes "sched_frame (make_activable q s) s'" and "runnable_state (p_state (tab_proc s q))"
  shows "sched_frame s s'"
proof -
  have "\<exists>st v. tab_proc s' p = (tab_proc s p)\<lparr>p_state := st, p_valide := v\<rparr> \<and>
        (st = p_state (tab_proc s p) \<or> runnable_state st \<and> runnable_state (p_state (tab_proc s p))) \<and>
        (v = p_valide (tab_proc s p) \<or> p_state (tab_proc s p) = STATE_DEAD)" for p
  proof -
    from assms(1) obtain st v where st: "tab_proc s' p = (tab_proc (make_activable q s) p)\<lparr>p_state := st, p_valide := v\<rparr>"
      "st = p_state (tab_proc (make_activable q s) p) \<or> runnable_state st \<and> runnable_state (p_state (tab_proc (make_activable q s) p))"
      "v = p_valide (tab_proc (make_activable q s) p) \<or> p_state (tab_proc (make_activable q s) p) = STATE_DEAD"
      unfolding sched_frame_def by blast
    show ?thesis
    proof (cases "p = q")
      case False
      with st show ?thesis by auto
    next
      case True
      with st assms(2) show ?thesis by (intro exI [of _ st] exI [of _ v]) (auto simp: runnable_state_def)
    qed
  qed
  with assms(1) show ?thesis by (simp add: sched_frame_def)
qed

lemma scheduler_frame:
  assumes inv: "sched_inv s" and sig: "no_sigs s" and sch: "scheduler s = Some s'"
  shows "sched_frame s s'"
proof -
  obtain xs where rdy: "ready s xs" using inv by (rule sched_inv_ready)
  consider "xs = []" "\<not> running s" | "running s" "xs = [] \<or> (pid_cour s \<noteq> 0 \<and> prio_of s (last xs) < prio_of s (pid_cour s))"
    | "xs \<noteq> []" "pid_cour s = 0 \<or> p_state (tab_proc s (pid_cour s)) \<noteq> STATE_ACTIVE"
    | "xs \<noteq> []" "pid_cour s \<noteq> 0" "p_state (tab_proc s (pid_cour s)) = STATE_ACTIVE" "prio_of s (pid_cour s) \<le> prio_of s (last xs)"
    by (metis running_def not_le)
  then show ?thesis
  proof cases
    case 1
    with scheduler_idle [OF inv _ 1(2)] rdy sch have "s' = garbage_collector (s\<lparr>pid_cour := 0\<rparr>)" by simp
    moreover have "sched_frame s (garbage_collector (s\<lparr>pid_cour := 0\<rparr>))"
    proof (rule sched_frame_gc)
      fix p
      show "\<exists>st. tab_proc (s\<lparr>pid_cour := 0\<rparr>) p = (tab_proc s p)\<lparr>p_state := st\<rparr> \<and>
        (st = p_state (tab_proc s p) \<or> runnable_state st \<and> runnable_state (p_state (tab_proc s p)))"
        by (intro exI [of _ "p_state (tab_proc s p)"]) simp
    qed simp_all
    ultimately show ?thesis by simp
  next
    case 2
    with scheduler_keep [OF inv rdy] sch show ?thesis by simp
  next
    case 3
    with scheduler_dispatch [OF inv sig rdy] sch obtain L where
      "s' = switch_to (last xs) (s\<lparr>k_links := L\<rparr>)" by (metis option.inject)
    moreover have "runnable_state (p_state (tab_proc s (last xs)))"
      using ready_last_activable [OF rdy 3(1)] by (simp add: activable_def runnable_state_def)
    ultimately show ?thesis using sched_frame_switch by simp
  next
    case 4
    with scheduler_preempt [OF inv sig rdy] sch obtain L where
      "s' = switch_to (last xs) ((make_activable (pid_cour s) s)\<lparr>k_links := L\<rparr>)" by (metis option.inject)
    moreover have "runnable_state (p_state (tab_proc (make_activable (pid_cour s) s) (last xs)))"
      using ready_last_activable [OF rdy 4(1)] by (simp add: activable_def runnable_state_def)
    ultimately have "sched_frame (make_activable (pid_cour s) s) s'" using sched_frame_switch by simp
    then show ?thesis by (rule sched_frame_trans_activable) (simp add: runnable_state_def 4)
  qed
qed

text \<open>
  \<open>same_tree s s'\<close>: no process is created, ends, changes its place in the tree of processes, or starts or stops waiting
  for a child; the values that processes have ended with stay.
\<close>

definition fate :: "proc_state \<Rightarrow> proc_state" where
  "fate st = (if st = STATE_ZOMBIE \<or> st = STATE_DEAD \<or> st = STATE_WAIT_CHILD then st else STATE_ACTIVE)"

lemma fate_simps [simp]:
  "fate STATE_ACTIVE = STATE_ACTIVE" "fate STATE_ACTIVABLE = STATE_ACTIVE" "fate STATE_WAIT_SEM = STATE_ACTIVE"
  "fate STATE_WAIT_IO = STATE_ACTIVE" "fate STATE_ASLEEP = STATE_ACTIVE" "fate STATE_ZOMBIE = STATE_ZOMBIE"
  "fate STATE_DEAD = STATE_DEAD" "fate STATE_WAIT_CHILD = STATE_WAIT_CHILD"
  by (simp_all add: fate_def)

definition same_tree :: "kstate \<Rightarrow> kstate \<Rightarrow> bool" where
  "same_tree s s' \<longleftrightarrow> (\<forall>p. p_pid_parent (tab_proc s' p) = p_pid_parent (tab_proc s p) \<and>
     p_children (tab_proc s' p) = p_children (tab_proc s p) \<and> p_pid_wait (tab_proc s' p) = p_pid_wait (tab_proc s p) \<and>
     p_val_ret (tab_proc s' p) = p_val_ret (tab_proc s p) \<and> p_killed (tab_proc s' p) = p_killed (tab_proc s p) \<and>
     fate (p_state (tab_proc s' p)) = fate (p_state (tab_proc s p)) \<and>
     (p_valide (tab_proc s' p) = p_valide (tab_proc s p) \<or> p_state (tab_proc s p) = STATE_DEAD))"

lemma same_tree_refl [simp]: "same_tree s s"
  by (simp add: same_tree_def)

lemma fate_dead: "fate a = fate b \<Longrightarrow> a = STATE_DEAD \<longleftrightarrow> b = STATE_DEAD"
  by (auto simp: fate_def split: if_splits)

lemma same_tree_trans: "same_tree s t \<Longrightarrow> same_tree t u \<Longrightarrow> same_tree s u"
  unfolding same_tree_def using fate_dead by metis

lemma same_tree_frame: "sched_frame s s' \<Longrightarrow> same_tree s s'"
  unfolding same_tree_def
proof
  fix p
  assume fr: "sched_frame s s'"
  then obtain st v where "tab_proc s' p = (tab_proc s p)\<lparr>p_state := st, p_valide := v\<rparr>"
    "st = p_state (tab_proc s p) \<or> runnable_state st \<and> runnable_state (p_state (tab_proc s p))"
    "v = p_valide (tab_proc s p) \<or> p_state (tab_proc s p) = STATE_DEAD"
    unfolding sched_frame_def by blast
  then show "p_pid_parent (tab_proc s' p) = p_pid_parent (tab_proc s p) \<and>
     p_children (tab_proc s' p) = p_children (tab_proc s p) \<and> p_pid_wait (tab_proc s' p) = p_pid_wait (tab_proc s p) \<and>
     p_val_ret (tab_proc s' p) = p_val_ret (tab_proc s p) \<and> p_killed (tab_proc s' p) = p_killed (tab_proc s p) \<and>
     fate (p_state (tab_proc s' p)) = fate (p_state (tab_proc s p)) \<and>
     (p_valide (tab_proc s' p) = p_valide (tab_proc s p) \<or> p_state (tab_proc s p) = STATE_DEAD)"
    by (auto simp: runnable_state_def)
qed

lemma same_tree_tab: "tab_proc s' = tab_proc s \<Longrightarrow> same_tree s s'"
  by (simp add: same_tree_def)

lemma scheduler_spec:
  assumes "sched_inv s" and "no_sigs s"
  obtains s' where "scheduler s = Some s'" "sched_post s'" "sched_frame s s'"
  using scheduler_establishes [OF assms] scheduler_frame [OF assms] by blast

section \<open>Properties\<close>

text \<open>
  A kernel with three processes, all with the priority 1: process 1 runs, 2 and 3 are activable,
  2 arrived first.
\<close>

definition ex_ctx :: pcontext where
  "ex_ctx = \<lparr>p_esp_kernel = 0, p_kernel_stack = 0, p_kstack = (\<lambda>_. 0), p_kstack_len = 10000,
    p_esp_user = 0, p_user_stack = 0, p_user_stack_size = 0, p_kernel_stack_size = 0, p_pid = 0,
    p_priority = 1, p_pid_parent = 0, p_pid_wait = 0, p_state = STATE_ACTIVABLE, p_children = Some [],
    p_killed = 0, p_val_ret = 0, p_valide = 0, p_name = [], p_timer = 0,
    p_file_desc = [], p_working_dir = None, p_procfs_node = None, p_vfs_state_node = None,
    p_vfs_parent_node = None, p_vfs_name_node = None, p_sid_wait = 0, p_sid_deleted = 0,
    p_sid_reseted = 0, p_sigmap = [], p_sigs = Some [],
    p_frame = \<lparr>sf_edi = 0, sf_esi = 0, sf_ebp = 0, sf_edx = 0, sf_ecx = 0, sf_ebx = 0, sf_eax = 0,
      sf_ex_ebp = 0, sf_ad_iret = 0, sf_ad_proc = 0, sf_cs = 0, sf_eflags = 0, sf_esp = 0, sf_ss = 0\<rparr>,
    p_cur_sig = 0\<rparr>"

definition ex_node :: fs_node where
  "ex_node = \<lparr>n_name = [], n_type = FS_FILE, n_inode = 0, n_size = 0, n_read = None, n_write = None,
    n_open = None, n_close = None, n_readdir = None, n_finddir = None, n_parent = None\<rparr>"

definition ex_vc :: virtual_console where
  "ex_vc = \<lparr>vc_mem = [], vc_pos = 0, vc_echo = 1, vc_buffered = 1, vc_attr = 7,
    vc_buf = \<lparr>in_buf = [], in_start = 0, in_size = 0\<rparr>, vc_waiting_pid = -1\<rparr>"

definition ex_kernel :: kstate where
  "ex_kernel = \<lparr>tab_proc = (\<lambda>p. ex_ctx\<lparr>p_pid := p, p_valide := (if 1 \<le> p \<and> p \<le> 3 then 1 else 0),
      p_state := (if p = 1 then STATE_ACTIVE else STATE_ACTIVABLE)\<rparr>),
    kernel_context = ex_ctx, pid_cour = 1,
    k_links = (\<lambda>k. if k = 0 then \<lparr>q_prev = Some 2, q_next = Some 3\<rparr>
               else if k = 2 then \<lparr>q_prev = Some 3, q_next = Some 0\<rparr>
               else if k = 3 then \<lparr>q_prev = Some 0, q_next = Some 2\<rparr>
               else \<lparr>q_prev = None, q_next = None\<rparr>),
    semaphores = (\<lambda>_. \<lparr>s_c = 0, s_proc_wait = None, s_valide = 0\<rparr>), sid_libres = Some [0..NBSEM-1],
    nb_interrupt = 0, rate = 100, in_syscall = 0, adExit = 0, adSigReturn = 0, ad_sig_default = 0,
    allocs = [4096, 8192, 12288], freed = [], umem = (\<lambda>_. 0), k_out = [],
    rootfs_present = (\<lambda>_. 0), fs_nodes = (\<lambda>_. ex_node), kikoobuf = (0, []),
    virtual_consoles = (\<lambda>_. ex_vc), vc_current = 0, video_mem = [], console_leds = 0,
    cpu = \<lparr>gdt = [], idt = [], tss = tss_zero, trap_tss = []\<rparr>\<rparr>"

lemma ex_kernel_simps [simp]:
  "pid_cour ex_kernel = 1" "prio_of ex_kernel p = 1"
  "valid_proc ex_kernel p \<longleftrightarrow> 1 \<le> p \<and> p \<le> 3" "p_pid (tab_proc ex_kernel p) = p"
  "p_state (tab_proc ex_kernel p) = (if p = 1 then STATE_ACTIVE else STATE_ACTIVABLE)"
  "p_sigs (tab_proc ex_kernel p) = Some []"
  by (auto simp: ex_kernel_def ex_ctx_def prio_of_def valid_proc_def in_tab_def NBPROC_def)

lemma ex_kernel_activable [simp]: "activable ex_kernel = {2, 3}"
  by (auto simp: activable_def)

lemma ex_kernel_ready: "ready ex_kernel [3, 2]"
proof -
  have "dll (k_links ex_kernel) 0 [3, 2]" by (simp add: dll_def ex_kernel_def)
  then show ?thesis by (auto simp: ready_def queue_rep_def)
qed

lemma ex_kernel_inv [simp]: "sched_inv ex_kernel" "no_sigs ex_kernel" "running ex_kernel"
  using ex_kernel_ready by (auto simp: sched_inv_def no_sigs_def running_def)

text \<open>
  C3. As long as no signal is pending (with one, the switch to its process accesses memory outside of the kernel stack: \<open>pending_signal_leaves_stack\<close> in theory
  \<open>Signals\<close>), the scheduler comes back, keeps its invariant (the ready queue holds exactly the
  activable processes, sorted, and only the current process is active), and leaves the processor
  to an active process of maximal priority, or to the kernel if no process is activable.
\<close>

theorem scheduler_correct:
  assumes "sched_inv s" and "no_sigs s"
  shows "\<exists>s'. scheduler s = Some s' \<and> sched_inv s' \<and> running s' \<and>
    (if pid_cour s' = 0 then activable s' = {}
     else \<forall>p \<in> activable s'. prio_of s' p \<le> prio_of s' (pid_cour s'))"
  using scheduler_establishes [OF assms] by (auto simp: sched_post_def)

theorem scheduler_correct_witness:
  "\<exists>s'. scheduler ex_kernel = Some s' \<and> sched_inv s' \<and> running s' \<and>
    (if pid_cour s' = 0 then activable s' = {}
     else \<forall>p \<in> activable s'. prio_of s' p \<le> prio_of s' (pid_cour s'))"
  by (rule scheduler_correct) simp_all

text \<open>
  C10. When no signal is pending, processes of the greatest priority share the processor in turn: a process that waits with the
  priority of the running one gets the processor after at most as many calls of the scheduler as
  there are activable processes.
\<close>

theorem scheduler_round_robin:
  assumes "sched_inv s" and "no_sigs s" and "running s" and "pid_cour s \<noteq> 0"
    and "\<forall>q \<in> activable s. prio_of s q \<le> prio_of s (pid_cour s)"
    and "p \<in> activable s" and "prio_of s p = prio_of s (pid_cour s)"
  shows "\<exists>n s'. n \<le> card (activable s) \<and> run_scheduler n s = Some s' \<and> pid_cour s' = p"
proof -
  from rotation_exists [OF assms(1-5)] assms(6,7) obtain order where
    order: "rotation s order" "length order \<le> Suc (card (activable s))" "p \<in> set order" by metis
  then obtain n where n: "n < length order" "order ! n = p" by (auto simp: in_set_conv_nth)
  from rotation_run [OF order(1), of n] obtain s' where
    s': "run_scheduler n s = Some s'" "rotation s' (rotate n order)" by blast
  have "order \<noteq> []" using n by auto
  then have "pid_cour s' = p" using s'(2) n by (simp add: rotation_def hd_rotate_conv_nth)
  with s'(1) n order(2) show ?thesis by (intro exI [of _ n] exI [of _ s']) simp
qed

theorem scheduler_round_robin_witness:
  "\<exists>n s'. n \<le> card (activable ex_kernel) \<and> run_scheduler n ex_kernel = Some s' \<and> pid_cour s' = 3"
  by (rule scheduler_round_robin) simp_all

end
