(* ===== verification/Semaphore.thy ===== *)
theory Semaphore
  imports Sched
begin

text \<open>
  Counting semaphores with a first-come first-served list of blocked processes
  (\<^verbatim>\<open>kernel/semaphore.c\<close>). A counter is a \<^verbatim>\<open>short\<close>; every store goes through \<open>to_short\<close>.

  The invariant \<open>sem_inv\<close> ties the three places that describe a blocked process together: its
  state, the waiting list of the semaphore, and the counter, whose negative value is the number
  of blocked processes. The operations keep it, together with the invariant of the scheduler.
\<close>

section \<open>Operations\<close>

definition sem_invalid :: "int \<Rightarrow> kstate \<Rightarrow> bool" where
  "sem_invalid sid s \<longleftrightarrow> sid < 0 \<or> sid > NBSEM - 1 \<or> s_valide (semaphores s sid) \<noteq> 1"

fun sem_init_loop :: "int list \<Rightarrow> kstate \<Rightarrow> kstate option" where
  "sem_init_loop [] s = Some s"
| "sem_init_loop (i # is) s = do {
     let s = upd_sem i (\<lambda>m. m\<lparr>s_valide := 0\<rparr>) s;
     (l, s) \<leftarrow> kl_put_first (sid_libres s) i s;
     sem_init_loop is (s\<lparr>sid_libres := l\<rparr>) }"

definition sem_init :: "kstate \<Rightarrow> kstate option" where
  "sem_init s = (let (l, s) = kl_new s in sem_init_loop [0..NBSEM - 1] (s\<lparr>sid_libres := l\<rparr>))"

definition screate :: "int \<Rightarrow> kstate \<Rightarrow> (int \<times> kstate) option" where
  "screate compteur s =
     (if compteur < 0 then Some (-1, s)
      else do {
        fl \<leftarrow> sid_libres s;
        if fl = [] then Some (-1, s)
        else do {
          let (i, fl') = seq_get_first fl;
          let s = s\<lparr>sid_libres := Some fl'\<rparr>;
          assert_that (s_valide (semaphores s i) \<noteq> 1);
          let (l, s) = kl_new s;
          let s = upd_sem i (\<lambda>m. m\<lparr>s_c := compteur, s_proc_wait := l\<rparr>) s;
          if l = None then Some (-3, s)
          else Some (i, upd_sem i (\<lambda>m. m\<lparr>s_valide := 1\<rparr>) s) } })"

text \<open>
  \<^verbatim>\<open>wait\<close> up to the call of the scheduler: the answer is \<open>Some r\<close> if the call returns \<open>r\<close> at once
  and \<open>None\<close> if the process is blocked. \<open>wait_resume\<close> is the rest of the call, run when the
  process gets the processor back.
\<close>

definition wait :: "int \<Rightarrow> kstate \<Rightarrow> (int option \<times> kstate) option" where
  "wait sid s =
     (if sem_invalid sid s then Some (Some (-1), s)
      else if s_c (semaphores s sid) = SHRT_MIN then Some (Some (-2), s)
      else do {
        let s = upd_sem sid (\<lambda>m. m\<lparr>s_c := to_short (s_c m - 1)\<rparr>) s;
        if s_c (semaphores s sid) < 0 then do {
          assert_that (in_tab (pid_cour s));
          let s = upd_proc (pid_cour s) (\<lambda>c. c\<lparr>p_state := STATE_WAIT_SEM, p_sid_wait := sid\<rparr>) s;
          (l, s) \<leftarrow> kl_put_first (s_proc_wait (semaphores s sid)) (pid_cour s) s;
          s \<leftarrow> scheduler (upd_sem sid (\<lambda>m. m\<lparr>s_proc_wait := l\<rparr>) s);
          Some (None, s)
        } else Some (Some 0, s) })"

definition wait_resume :: "kstate \<Rightarrow> (int \<times> kstate) option" where
  "wait_resume s = do {
     assert_that (in_tab (pid_cour s));
     let c = tab_proc s (pid_cour s);
     if p_sid_reseted c \<noteq> 0
     then Some (-4, upd_proc (pid_cour s) (\<lambda>c. c\<lparr>p_sid_reseted := 0\<rparr>) s)
     else if p_sid_deleted c \<noteq> 0 then Some (-3, s)
     else Some (0, s) }"

definition try_wait :: "int \<Rightarrow> kstate \<Rightarrow> int \<times> kstate" where
  "try_wait sid s =
     (if sem_invalid sid s then (-1, s)
      else if s_c (semaphores s sid) > 0
      then (0, upd_sem sid (\<lambda>m. m\<lparr>s_c := to_short (s_c m - 1)\<rparr>) s)
      else (-3, s))"

text \<open>\<open>pid = list_get_last(...); if (pid >= 0) wakeup_process(pid);\<close>\<close>

definition wake_last :: "int \<Rightarrow> kstate \<Rightarrow> kstate option" where
  "wake_last sid s = do {
     ws \<leftarrow> s_proc_wait (semaphores s sid);
     let (pid, rest) = seq_get_last ws;
     let s = upd_sem sid (\<lambda>m. m\<lparr>s_proc_wait := Some rest\<rparr>) s;
     if pid \<ge> 0 then map_option snd (wakeup_process pid s) else Some s }"

definition signal :: "int \<Rightarrow> kstate \<Rightarrow> (int \<times> kstate) option" where
  "signal sid s =
     (if sem_invalid sid s then Some (-1, s)
      else if s_c (semaphores s sid) = SHRT_MAX then Some (-2, s)
      else do {
        let s = upd_sem sid (\<lambda>m. m\<lparr>s_c := to_short (s_c m + 1)\<rparr>) s;
        if s_c (semaphores s sid) \<le> 0 then do {
          s \<leftarrow> wake_last sid s;
          s \<leftarrow> scheduler s;
          Some (0, s)
        } else Some (0, s) })"

fun signaln_loop :: "nat \<Rightarrow> int \<Rightarrow> kstate \<Rightarrow> kstate option" where
  "signaln_loop 0 sid s = Some s"
| "signaln_loop (Suc n) sid s = do {
     let s = upd_sem sid (\<lambda>m. m\<lparr>s_c := to_short (s_c m + 1)\<rparr>) s;
     s \<leftarrow> (if s_c (semaphores s sid) \<le> 0 then wake_last sid s else Some s);
     signaln_loop n sid s }"

definition signaln :: "int \<Rightarrow> int \<Rightarrow> kstate \<Rightarrow> (int \<times> kstate) option" where
  "signaln sid count s =
     (if sem_invalid sid s then Some (-1, s)
      else if count < 0 then Some (-3, s)
      else if s_c (semaphores s sid) > 0 \<and> SHRT_MAX - s_c (semaphores s sid) < count then Some (-2, s)
      else do {
        s \<leftarrow> signaln_loop (nat count) sid s;
        s \<leftarrow> scheduler s;
        Some (0, s) })"

text \<open>For a negative counter the code overwrites the low byte of \<^verbatim>\<open>0xFFFF\<close>.\<close>

definition scount :: "int \<Rightarrow> kstate \<Rightarrow> int" where
  "scount sid s =
     (if sem_invalid sid s then -1
      else if s_c (semaphores s sid) < 0 then 65280 + s_c (semaphores s sid) mod 256
      else s_c (semaphores s sid))"

text \<open>The loops of \<^verbatim>\<open>sdelete\<close> and \<^verbatim>\<open>sreset\<close>, over the contents of the waiting list.\<close>

fun sdelete_loop :: "int \<Rightarrow> int list \<Rightarrow> kstate \<Rightarrow> kstate option" where
  "sdelete_loop sid [] s = Some s"
| "sdelete_loop sid (pid # rest) s =
     (let s = upd_sem sid (\<lambda>m. m\<lparr>s_proc_wait := Some rest\<rparr>) s in
      if pid < 0 then Some s
      else do {
        assert_that (in_tab pid);
        let s = (if p_sid_reseted (tab_proc s pid) = 0
                 then upd_proc pid (\<lambda>c. c\<lparr>p_sid_deleted := 1\<rparr>) s else s);
        (r, s) \<leftarrow> wakeup_process pid s;
        sdelete_loop sid rest s })"

definition sdelete :: "int \<Rightarrow> kstate \<Rightarrow> (int \<times> kstate) option" where
  "sdelete sid s =
     (if sem_invalid sid s then Some (-1, s)
      else do {
        ws \<leftarrow> s_proc_wait (semaphores s sid);
        s \<leftarrow> sdelete_loop sid ws s;
        let s = kl_free (s_proc_wait (semaphores s sid)) s;
        let s = upd_sem sid (\<lambda>m. m\<lparr>s_valide := 0\<rparr>) s;
        (l, s) \<leftarrow> kl_put_first (sid_libres s) sid s;
        s \<leftarrow> scheduler (s\<lparr>sid_libres := l\<rparr>);
        Some (0, s) })"

fun sreset_loop :: "int \<Rightarrow> int list \<Rightarrow> kstate \<Rightarrow> kstate option" where
  "sreset_loop sid [] s = Some s"
| "sreset_loop sid (pid # rest) s =
     (let s = upd_sem sid (\<lambda>m. m\<lparr>s_proc_wait := Some rest\<rparr>) s in
      if pid < 0 then Some s
      else do {
        assert_that (in_tab pid);
        (r, s) \<leftarrow> wakeup_process pid (upd_proc pid (\<lambda>c. c\<lparr>p_sid_reseted := 1\<rparr>) s);
        sreset_loop sid rest s })"

definition sreset :: "int \<Rightarrow> int \<Rightarrow> kstate \<Rightarrow> (int \<times> kstate) option" where
  "sreset sid count s =
     (if sem_invalid sid s \<or> count < 0 then Some (-1, s)
      else do {
        let s = upd_sem sid (\<lambda>m. m\<lparr>s_c := count\<rparr>) s;
        ws \<leftarrow> s_proc_wait (semaphores s sid);
        s \<leftarrow> sreset_loop sid ws s;
        s \<leftarrow> scheduler s;
        Some (0, s) })"

section \<open>Invariant\<close>

definition blocked_on :: "kstate \<Rightarrow> int \<Rightarrow> int set" where
  "blocked_on s sid = {p. (valid_proc s p \<and> p_state (tab_proc s p) = STATE_WAIT_SEM) \<and> p_sid_wait (tab_proc s p) = sid}"

definition sem_ok :: "kstate \<Rightarrow> int \<Rightarrow> bool" where
  "sem_ok s sid \<longleftrightarrow> (\<exists>ws. s_proc_wait (semaphores s sid) = Some ws \<and> distinct ws \<and>
     set ws = blocked_on s sid \<and> s_c (semaphores s sid) \<le> SHRT_MAX \<and>
     int (length ws) = max 0 (- s_c (semaphores s sid)))"

definition free_sids_ok :: "kstate \<Rightarrow> bool" where
  "free_sids_ok s \<longleftrightarrow> (\<exists>fl. sid_libres s = Some fl \<and> distinct fl \<and>
     (\<forall>i \<in> set fl. 0 \<le> i \<and> i < NBSEM \<and> s_valide (semaphores s i) \<noteq> 1))"

definition sem_inv :: "kstate \<Rightarrow> bool" where
  "sem_inv s \<longleftrightarrow> (\<forall>sid. \<not> sem_invalid sid s \<longrightarrow> sem_ok s sid) \<and>
     (\<forall>sid. sem_invalid sid s \<longrightarrow> blocked_on s sid = {}) \<and> free_sids_ok s"

text \<open>The state of the kernel between two system calls.\<close>

definition kinv :: "kstate \<Rightarrow> bool" where
  "kinv s \<longleftrightarrow> sched_inv s \<and> no_sigs s \<and> sem_inv s"

section \<open>The scheduler and the semaphores\<close>

text \<open>\<open>sched_eq s s'\<close>: the scheduler cannot tell the two states apart.\<close>

definition sched_eq :: "kstate \<Rightarrow> kstate \<Rightarrow> bool" where
  "sched_eq s s' \<longleftrightarrow> k_links s' = k_links s \<and> pid_cour s' = pid_cour s \<and>
     (\<forall>p. p_valide (tab_proc s' p) = p_valide (tab_proc s p) \<and> p_state (tab_proc s' p) = p_state (tab_proc s p) \<and>
        p_pid (tab_proc s' p) = p_pid (tab_proc s p) \<and> p_priority (tab_proc s' p) = p_priority (tab_proc s p) \<and>
        p_sigs (tab_proc s' p) = p_sigs (tab_proc s p))"

lemma sched_eq_prio: "sched_eq s s' \<Longrightarrow> prio_of s' = prio_of s"
  by (auto simp: sched_eq_def prio_of_def)

lemma sched_eq_valid: "sched_eq s s' \<Longrightarrow> valid_proc s' = valid_proc s"
  by (auto simp: sched_eq_def valid_proc_def)

lemma sched_eq_activable: "sched_eq s s' \<Longrightarrow> activable s' = activable s"
  by (auto simp: sched_eq_def valid_proc_def activable_def)

lemma sched_eq_ready: "sched_eq s s' \<Longrightarrow> ready s' = ready s"
  unfolding ready_def fun_eq_iff by (simp add: sched_eq_prio sched_eq_activable) (simp add: sched_eq_def)

lemma sched_eq_inv:
  assumes "sched_eq s s'"
  shows "sched_inv s' \<longleftrightarrow> sched_inv s" "no_sigs s' \<longleftrightarrow> no_sigs s" "running s' \<longleftrightarrow> running s"
  using assms unfolding sched_inv_def no_sigs_def running_def sched_eq_ready [OF assms] sched_eq_valid [OF assms]
  by (simp_all add: sched_eq_def)

lemma sched_eq_upd_sem [simp]: "sched_eq s (upd_sem sid f s)"
  by (simp add: sched_eq_def)

lemma sched_eq_free_sids [simp]: "sched_eq s (s\<lparr>sid_libres := l\<rparr>)"
  by (simp add: sched_eq_def)

lemma sched_eq_allocs [simp]: "sched_eq s (s\<lparr>allocs := l\<rparr>)"
  by (simp add: sched_eq_def)

lemma sched_eq_flags [simp]:
  "sched_eq s (upd_proc p (\<lambda>c. c\<lparr>p_sid_reseted := x\<rparr>) s)" "sched_eq s (upd_proc p (\<lambda>c. c\<lparr>p_sid_deleted := x\<rparr>) s)"
  by (simp_all add: sched_eq_def)

lemma sched_eq_trans: "sched_eq s t \<Longrightarrow> sched_eq t u \<Longrightarrow> sched_eq s u"
  by (simp add: sched_eq_def)

lemma sched_invI:
  "ready s xs \<Longrightarrow> pid_cour s = 0 \<or> valid_proc s (pid_cour s) \<Longrightarrow>
   (\<And>p. valid_proc s p \<Longrightarrow> p_pid (tab_proc s p) = p) \<Longrightarrow>
   (\<And>p. valid_proc s p \<Longrightarrow> p \<noteq> pid_cour s \<Longrightarrow> p_state (tab_proc s p) \<noteq> STATE_ACTIVE) \<Longrightarrow> sched_inv s"
  by (auto simp: sched_inv_def)

lemma sched_invD:
  assumes "sched_inv s"
  shows "pid_cour s = 0 \<or> valid_proc s (pid_cour s)" "valid_proc s p \<Longrightarrow> p_pid (tab_proc s p) = p"
    "valid_proc s p \<Longrightarrow> p \<noteq> pid_cour s \<Longrightarrow> p_state (tab_proc s p) \<noteq> STATE_ACTIVE"
  using assms by (auto simp: sched_inv_def)

text \<open>The current process stops being active without becoming activable.\<close>

lemma sched_inv_block:
  assumes inv: "sched_inv s" and sig: "no_sigs s" and cur: "p_state (tab_proc s p) \<noteq> STATE_ACTIVABLE"
    and st: "st \<noteq> STATE_ACTIVABLE" "st \<noteq> STATE_ACTIVE"
  shows "sched_inv (upd_proc p (\<lambda>c. c\<lparr>p_state := st\<rparr>) s)" "no_sigs (upd_proc p (\<lambda>c. c\<lparr>p_state := st\<rparr>) s)"
proof -
  obtain xs where rdy: "ready s xs" using inv by (rule sched_inv_ready)
  have "activable s - {p} = activable s" using cur by (auto simp: activable_def)
  with rdy st have "ready (upd_proc p (\<lambda>c. c\<lparr>p_state := st\<rparr>) s) xs"
    by (simp add: ready_def activable_upd_state)
  then show "sched_inv (upd_proc p (\<lambda>c. c\<lparr>p_state := st\<rparr>) s)"
    using sched_invD [OF inv] st by (intro sched_invI) (auto split: if_splits)
  show "no_sigs (upd_proc p (\<lambda>c. c\<lparr>p_state := st\<rparr>) s)" using sig by (simp add: no_sigs_def)
qed

lemma wakeup_process_inv:
  assumes inv: "sched_inv s" and sig: "no_sigs s" and vld: "valid_proc s pid" and st: "p_state (tab_proc s pid) \<noteq> STATE_ACTIVABLE"
  obtains L where "wakeup_process pid s = Some (pid, (make_activable pid s)\<lparr>k_links := L\<rparr>)"
    "sched_inv ((make_activable pid s)\<lparr>k_links := L\<rparr>)" "no_sigs ((make_activable pid s)\<lparr>k_links := L\<rparr>)"
proof -
  obtain xs where rdy: "ready s xs" using inv by (rule sched_inv_ready)
  moreover have "pid \<notin> activable s" using st by (simp add: activable_def)
  ultimately obtain L where L: "wakeup_process pid s = Some (pid, (make_activable pid s)\<lparr>k_links := L\<rparr>)"
    "ready ((make_activable pid s)\<lparr>k_links := L\<rparr>) (prio_insert (prio_of s) pid xs)"
    using wakeup_process_ready [OF _ vld] by metis
  moreover have "sched_inv ((make_activable pid s)\<lparr>k_links := L\<rparr>)"
    using sched_invD [OF inv] by (intro sched_invI [OF L(2)]) (auto split: if_splits)
  moreover have "no_sigs ((make_activable pid s)\<lparr>k_links := L\<rparr>)" using sig by (simp add: no_sigs_def)
  ultimately show ?thesis using that by blast
qed

lemma blocked_on_frame: "sched_frame s s' \<Longrightarrow> blocked_on s' = blocked_on s"
  unfolding blocked_on_def fun_eq_iff
  using sched_frame_blocked [of s s' STATE_WAIT_SEM] by (simp add: sched_frame_fields runnable_state_def)

lemma sem_inv_cong:
  assumes "semaphores s' = semaphores s" "sid_libres s' = sid_libres s" "blocked_on s' = blocked_on s"
  shows "sem_inv s' \<longleftrightarrow> sem_inv s"
  using assms by (simp add: sem_inv_def sem_ok_def sem_invalid_def free_sids_ok_def)

lemma sem_inv_frame: "sched_frame s s' \<Longrightarrow> sem_inv s \<Longrightarrow> sem_inv s'"
  using sem_inv_cong [of s' s] by (simp add: blocked_on_frame sched_frame_simps)

lemma scheduler_kinv:
  assumes "kinv s"
  obtains s' where "scheduler s = Some s'" "kinv s'" "sched_post s'" "sched_frame s s'"
  using assms scheduler_spec [of s] sem_inv_frame by (metis kinv_def sched_post_def)

lemma blocked_on_make_activable [simp]:
  "blocked_on ((make_activable p s)\<lparr>k_links := L\<rparr>) sid = blocked_on s sid - {p}"
  by (auto simp: blocked_on_def)

lemma blocked_on_upd_sem [simp]: "blocked_on (upd_sem i f s) = blocked_on s"
  by (auto simp: blocked_on_def valid_proc_def)

lemma sem_invalid_upd_sem_keep [simp]:
  "(\<And>m. s_valide (f m) = s_valide m) \<Longrightarrow> sem_invalid i (upd_sem sid f s) = sem_invalid i s"
  by (simp add: sem_invalid_def)

text \<open>A process waits on at most one semaphore, and at most twenty processes wait at all.\<close>

lemma blocked_on_disjoint: "p \<in> blocked_on s i \<Longrightarrow> p \<in> blocked_on s j \<Longrightarrow> i = j"
  by (simp add: blocked_on_def)

lemma card_blocked_on: "card (blocked_on s sid) \<le> 20"
proof -
  have "blocked_on s sid \<subseteq> {1..20}" by (auto simp: blocked_on_def valid_proc_def in_tab_def NBPROC_def)
  then have "card (blocked_on s sid) \<le> card {1..20::int}" by (rule card_mono [rotated]) simp
  then show ?thesis by simp
qed

lemma sem_ok_counter:
  assumes "sem_ok s sid"
  shows "-20 \<le> s_c (semaphores s sid)" "s_c (semaphores s sid) \<le> SHRT_MAX"
proof -
  from assms obtain ws where ws: "distinct ws" "set ws = blocked_on s sid"
    "int (length ws) = max 0 (- s_c (semaphores s sid))" "s_c (semaphores s sid) \<le> SHRT_MAX"
    by (auto simp: sem_ok_def)
  then have "length ws \<le> 20" using card_blocked_on [of s sid] distinct_card [of ws] by simp
  with ws show "-20 \<le> s_c (semaphores s sid)" "s_c (semaphores s sid) \<le> SHRT_MAX" by linarith+
qed

lemma blocked_on_props:
  "p \<in> blocked_on s sid \<Longrightarrow> valid_proc s p \<and> p_state (tab_proc s p) = STATE_WAIT_SEM \<and> in_tab p \<and> 0 \<le> p"
  by (auto simp: blocked_on_def valid_proc_def in_tab_def)

section \<open>Waking the oldest waiter\<close>

lemma sched_frame_runnable_state:
  assumes "sched_frame s s'"
  shows "runnable_state (p_state (tab_proc s p)) \<Longrightarrow> runnable_state (p_state (tab_proc s' p))"
proof -
  from assms obtain st v where "tab_proc s' p = (tab_proc s p)\<lparr>p_state := st, p_valide := v\<rparr>"
    "st = p_state (tab_proc s p) \<or> runnable_state st \<and> runnable_state (p_state (tab_proc s p))"
    unfolding sched_frame_def by blast
  then show "runnable_state (p_state (tab_proc s p)) \<Longrightarrow> runnable_state (p_state (tab_proc s' p))" by auto
qed

lemma sched_frame_runnable:
  assumes "sched_frame s s'" and "p_state (tab_proc s p) = st" and "valid_proc s p" and "runnable_state st"
  shows "valid_proc s' p \<and> runnable_state (p_state (tab_proc s' p))"
proof -
  from assms(1) obtain v st' where "tab_proc s' p = (tab_proc s p)\<lparr>p_state := st', p_valide := v\<rparr>"
    "v = p_valide (tab_proc s p) \<or> p_state (tab_proc s p) = STATE_DEAD"
    unfolding sched_frame_def by blast
  with sched_frame_runnable_state [OF assms(1), of p] assms(2-4) show ?thesis
    by (auto simp: valid_proc_def runnable_state_def)
qed

lemma wake_last_spec:
  assumes inv: "sched_inv s" and sig: "no_sigs s" and ws: "s_proc_wait (semaphores s sid) = Some (ws @ [w])"
    and w: "w \<in> blocked_on s i"
  obtains L where "wake_last sid s = Some ((make_activable w (upd_sem sid (\<lambda>m. m\<lparr>s_proc_wait := Some ws\<rparr>) s))\<lparr>k_links := L\<rparr>)"
    "sched_inv ((make_activable w (upd_sem sid (\<lambda>m. m\<lparr>s_proc_wait := Some ws\<rparr>) s))\<lparr>k_links := L\<rparr>)"
    "no_sigs ((make_activable w (upd_sem sid (\<lambda>m. m\<lparr>s_proc_wait := Some ws\<rparr>) s))\<lparr>k_links := L\<rparr>)"
proof -
  let ?t = "upd_sem sid (\<lambda>m. m\<lparr>s_proc_wait := Some ws\<rparr>) s"
  have "sched_inv ?t" "no_sigs ?t" using inv sig sched_eq_inv [of s ?t] by simp_all
  moreover have "valid_proc ?t w" "p_state (tab_proc ?t w) \<noteq> STATE_ACTIVABLE" "0 \<le> w"
    using blocked_on_props [OF w] by (simp_all add: valid_proc_def)
  ultimately obtain L where L: "wakeup_process w ?t = Some (w, (make_activable w ?t)\<lparr>k_links := L\<rparr>)"
    "sched_inv ((make_activable w ?t)\<lparr>k_links := L\<rparr>)" "no_sigs ((make_activable w ?t)\<lparr>k_links := L\<rparr>)"
    using wakeup_process_inv by metis
  then have "wake_last sid s = Some ((make_activable w ?t)\<lparr>k_links := L\<rparr>)"
    using ws \<open>0 \<le> w\<close> by (simp add: wake_last_def seq_get_last_def Let_def)
  with L show ?thesis using that by blast
qed

definition sem_rest :: "int \<Rightarrow> kstate \<Rightarrow> bool" where
  "sem_rest sid s \<longleftrightarrow> (\<forall>i. i \<noteq> sid \<longrightarrow> (if sem_invalid i s then blocked_on s i = {} else sem_ok s i))"

lemma sem_rest_cong:
  assumes "\<And>i. i \<noteq> sid \<Longrightarrow> semaphores s' i = semaphores s i" and "\<And>i. i \<noteq> sid \<Longrightarrow> blocked_on s' i = blocked_on s i"
  shows "sem_rest sid s' = sem_rest sid s"
proof -
  have "sem_ok s' i = sem_ok s i" "sem_invalid i s' = sem_invalid i s" if "i \<noteq> sid" for i
    using assms(1,2) [OF that] by (simp_all add: sem_ok_def sem_invalid_def)
  then show ?thesis using assms(2) by (simp add: sem_rest_def)
qed

text \<open>
  \<open>sem_at sid c ws s\<close>: everything but the semaphore \<open>sid\<close> is as the invariant wants it, and
  \<open>sid\<close> has the counter \<open>c\<close> and the blocked processes \<open>ws\<close>.
\<close>

definition sem_at :: "int \<Rightarrow> int \<Rightarrow> int list \<Rightarrow> kstate \<Rightarrow> bool" where
  "sem_at sid c ws s \<longleftrightarrow> sched_inv s \<and> no_sigs s \<and> free_sids_ok s \<and> \<not> sem_invalid sid s \<and>
     s_c (semaphores s sid) = c \<and> s_proc_wait (semaphores s sid) = Some ws \<and> distinct ws \<and> set ws = blocked_on s sid \<and>
     sem_rest sid s"

lemma sem_at_kinv:
  assumes "sem_at sid c ws s" and "c \<le> SHRT_MAX" and "int (length ws) = max 0 (- c)"
  shows "kinv s"
proof -
  have "sem_ok s sid" using assms by (auto simp: sem_at_def sem_ok_def)
  with assms(1) have "sem_inv s" unfolding sem_inv_def sem_at_def sem_rest_def by metis
  with assms(1) show ?thesis by (simp add: kinv_def sem_at_def)
qed

lemma kinv_sem_at:
  assumes "kinv s" and "\<not> sem_invalid sid s"
  obtains ws where "sem_at sid (s_c (semaphores s sid)) ws s" "int (length ws) = max 0 (- s_c (semaphores s sid))"
    "s_c (semaphores s sid) \<le> SHRT_MAX" "-20 \<le> s_c (semaphores s sid)" "s_proc_wait (semaphores s sid) = Some ws"
proof -
  from assms have ok: "sem_ok s sid" by (simp add: kinv_def sem_inv_def)
  then obtain ws where "s_proc_wait (semaphores s sid) = Some ws" "distinct ws" "set ws = blocked_on s sid"
    "int (length ws) = max 0 (- s_c (semaphores s sid))" by (auto simp: sem_ok_def)
  moreover from this assms have "sem_at sid (s_c (semaphores s sid)) ws s"
    unfolding sem_at_def kinv_def sem_inv_def sem_rest_def by simp
  ultimately show ?thesis using that sem_ok_counter [OF ok] by blast
qed

lemma kinv_sem_at_ws:
  assumes "kinv s" and "\<not> sem_invalid sid s" and ws: "s_proc_wait (semaphores s sid) = Some ws"
  shows "sem_at sid (s_c (semaphores s sid)) ws s" "int (length ws) = max 0 (- s_c (semaphores s sid))"
    "s_c (semaphores s sid) \<le> SHRT_MAX" "-20 \<le> s_c (semaphores s sid)"
proof -
  from kinv_sem_at [OF assms(1,2)] obtain ws' where ws': "sem_at sid (s_c (semaphores s sid)) ws' s"
    "int (length ws') = max 0 (- s_c (semaphores s sid))" "s_c (semaphores s sid) \<le> SHRT_MAX"
    "-20 \<le> s_c (semaphores s sid)" "s_proc_wait (semaphores s sid) = Some ws'" by blast
  then have "ws' = ws" using ws by simp
  with ws' show "sem_at sid (s_c (semaphores s sid)) ws s" "int (length ws) = max 0 (- s_c (semaphores s sid))"
    "s_c (semaphores s sid) \<le> SHRT_MAX" "-20 \<le> s_c (semaphores s sid)" by simp_all
qed

lemma free_sids_ok_cong:
  "sid_libres s' = sid_libres s \<Longrightarrow> (\<And>i. s_valide (semaphores s' i) = s_valide (semaphores s i)) \<Longrightarrow>
   free_sids_ok s' = free_sids_ok s"
  by (simp add: free_sids_ok_def)

lemma sem_at_counter: "sem_at sid c ws s \<Longrightarrow> sem_at sid c' ws (upd_sem sid (\<lambda>m. m\<lparr>s_c := c'\<rparr>) s)"
  using sem_rest_cong [of sid "upd_sem sid (\<lambda>m. m\<lparr>s_c := c'\<rparr>) s" s] unfolding sem_at_def
  by (simp add: sched_eq_inv [OF sched_eq_upd_sem] free_sids_ok_cong [of "upd_sem sid (\<lambda>m. m\<lparr>s_c := c'\<rparr>) s" s])

text \<open>One round of the loop of \<^verbatim>\<open>signaln\<close>, and the body of \<^verbatim>\<open>signal\<close>.\<close>

lemma sem_at_wake:
  assumes at: "sem_at sid c (ws @ [w]) s"
  obtains s' where "wake_last sid s = Some s'" "sem_at sid c ws s'" "p_state (tab_proc s' w) = STATE_ACTIVABLE"
    "pid_cour s' = pid_cour s" "allocs s' = allocs s"
    "\<forall>p. p \<noteq> w \<longrightarrow> tab_proc s' p = tab_proc s p" "valid_proc s' w" "same_tree s s'"
proof -
  let ?t = "upd_sem sid (\<lambda>m. m\<lparr>s_proc_wait := Some ws\<rparr>) s"
  have w: "w \<in> blocked_on s sid" using at by (auto simp: sem_at_def)
  have p: "sched_inv s" "no_sigs s" "s_proc_wait (semaphores s sid) = Some (ws @ [w])"
    using at unfolding sem_at_def by blast+
  obtain L where L: "wake_last sid s = Some ((make_activable w ?t)\<lparr>k_links := L\<rparr>)"
    "sched_inv ((make_activable w ?t)\<lparr>k_links := L\<rparr>)" "no_sigs ((make_activable w ?t)\<lparr>k_links := L\<rparr>)"
    by (rule wake_last_spec [OF p w])
  let ?u = "(make_activable w ?t)\<lparr>k_links := L\<rparr>"
  have others: "blocked_on ?u i = blocked_on s i" if "i \<noteq> sid" for i
    using that w blocked_on_disjoint [of w s sid i] by auto
  have "sem_rest sid ?u" using others sem_rest_cong [of sid ?u s] at by (simp add: sem_at_def)
  moreover have "set ws = blocked_on ?u sid" using at by (auto simp: sem_at_def)
  moreover have "free_sids_ok ?u" using at free_sids_ok_cong [of ?u s] by (simp add: sem_at_def)
  ultimately have "sem_at sid c ws ?u"
    using at L(2,3) unfolding sem_at_def by (simp add: sem_invalid_def)
  moreover have "same_tree s ?u" using blocked_on_props [OF w] by (simp add: same_tree_def)
  ultimately show ?thesis using L(1) blocked_on_props [OF w] by (intro that [of ?u]) (simp_all add: valid_proc_def)
qed

lemma scheduler_sem_at:
  assumes at: "sem_at sid c ws s"
  obtains s' where "scheduler s = Some s'" "sem_at sid c ws s'" "sched_post s'" "sched_frame s s'"
proof -
  have "sched_inv s" "no_sigs s" using at by (simp_all add: sem_at_def)
  then obtain s' where s': "scheduler s = Some s'" "sched_post s'" "sched_frame s s'" by (rule scheduler_spec)
  have "sem_at sid c ws s'"
    using at s'(2) blocked_on_frame [OF s'(3)] sched_frame_simps(1,2) [OF s'(3)]
      sem_rest_cong [of sid s' s]
    by (simp add: sem_at_def sched_post_def sem_invalid_def free_sids_ok_def)
  with s' show ?thesis using that by blast
qed

section \<open>Signals\<close>

lemma signal_loop_spec:
  assumes "sem_at sid c ws s" and "int (length ws) = max 0 (- c)" and "c + int n \<le> SHRT_MAX" and "-20 \<le> c"
  obtains s' where "signaln_loop n sid s = Some s'" "sem_at sid (c + int n) (take (length ws - n) ws) s'"
    "\<forall>p \<in> set (drop (length ws - n) ws). p_state (tab_proc s' p) = STATE_ACTIVABLE"
    "\<forall>p. p \<notin> set ws \<longrightarrow> tab_proc s' p = tab_proc s p" "pid_cour s' = pid_cour s" "allocs s' = allocs s" "same_tree s s'"
  using assms
proof (induction n arbitrary: s c ws thesis)
  case 0
  then show ?case by simp
next
  case (Suc n)
  let ?t = "upd_sem sid (\<lambda>m. m\<lparr>s_c := to_short (s_c m + 1)\<rparr>) s"
  have c: "s_c (semaphores s sid) = c" using Suc.prems(2) by (simp add: sem_at_def)
  have short: "to_short (c + 1) = c + 1"
    using Suc.prems(4,5) by (intro to_short_id) (simp_all add: SHRT_MIN_def)
  have suc: "c + int (Suc n) = c + 1 + int n" by simp
  have "?t = upd_sem sid (\<lambda>m. m\<lparr>s_c := c + 1\<rparr>) s" by (simp add: upd_sem_def c short)
  then have at: "sem_at sid (c + 1) ws ?t" using sem_at_counter [OF Suc.prems(2)] by simp
  show ?case
  proof (cases ws rule: rev_cases)
    case Nil
    then have nowake: "\<not> c + 1 \<le> 0" using Suc.prems(3) by simp
    from Nil at Suc.prems(4,5) nowake obtain s' where
      s': "signaln_loop n sid ?t = Some s'" "sem_at sid (c + 1 + int n) [] s'"
      "\<forall>p. p \<notin> set ([]::int list) \<longrightarrow> tab_proc s' p = tab_proc ?t p" "pid_cour s' = pid_cour ?t" "allocs s' = allocs ?t"
      using Suc.IH [of ?t "c + 1" "[]"] by auto
    moreover from this have "same_tree s s'" by (intro same_tree_tab) auto
    ultimately show ?thesis using Nil nowake
      by (intro Suc.prems(1) [of s']) (simp_all add: Let_def c short suc del: of_nat_Suc)
  next
    case (snoc us w)
    then have wake: "c + 1 \<le> 0" "int (length us) = max 0 (- (c + 1))" using Suc.prems(3) by simp_all
    from sem_at_wake [of sid "c + 1" us w ?t] at snoc obtain t where
      t: "wake_last sid ?t = Some t" "sem_at sid (c + 1) us t" "p_state (tab_proc t w) = STATE_ACTIVABLE"
      "pid_cour t = pid_cour s" "allocs t = allocs s" "\<forall>p. p \<noteq> w \<longrightarrow> tab_proc t p = tab_proc s p" "same_tree ?t t"
      by auto
    from Suc.IH [OF _ t(2) wake(2)] Suc.prems(4,5) obtain s' where
      s': "signaln_loop n sid t = Some s'" "sem_at sid (c + 1 + int n) (take (length us - n) us) s'"
      "\<forall>p \<in> set (drop (length us - n) us). p_state (tab_proc s' p) = STATE_ACTIVABLE"
      "\<forall>p. p \<notin> set us \<longrightarrow> tab_proc s' p = tab_proc t p" "pid_cour s' = pid_cour t" "allocs s' = allocs t" "same_tree t s'"
      by auto
    have "same_tree s ?t" by (rule same_tree_tab) simp
    then have st: "same_tree s s'" using t(7) s'(7) by (blast intro: same_tree_trans)
    have "w \<notin> set us" using Suc.prems(2) snoc by (simp add: sem_at_def)
    with s'(4) t(3) have "p_state (tab_proc s' w) = STATE_ACTIVABLE" by simp
    with s' t snoc wake st show ?thesis
      by (intro Suc.prems(1) [of s']) (auto simp: Let_def c short suc simp del: of_nat_Suc)
  qed
qed


lemma signal_wake_spec:
  assumes inv: "kinv s" and vld: "\<not> sem_invalid sid s" and ws: "s_proc_wait (semaphores s sid) = Some (ws @ [w])"
  obtains s' where "signal sid s = Some (0, s')" "kinv s'" "sched_post s'"
    "s_c (semaphores s' sid) = s_c (semaphores s sid) + 1" "s_proc_wait (semaphores s' sid) = Some ws"
    "valid_proc s' w" "runnable_state (p_state (tab_proc s' w))" "blocked_on s' sid = set ws" "same_tree s s'"
proof -
  let ?c = "s_c (semaphores s sid)"
  have at: "sem_at sid ?c (ws @ [w]) s" and
    len: "int (length (ws @ [w])) = max 0 (- ?c)" and c: "-20 \<le> ?c" "?c \<le> SHRT_MAX"
    by (rule kinv_sem_at_ws [OF inv vld ws])+
  let ?t = "upd_sem sid (\<lambda>m. m\<lparr>s_c := to_short (s_c m + 1)\<rparr>) s"
  have short: "to_short (?c + 1) = ?c + 1" and neg: "?c + 1 \<le> 0" and ne: "?c \<noteq> SHRT_MAX"
    using len c by (auto simp: SHRT_MIN_def SHRT_MAX_def)
  have "?t = upd_sem sid (\<lambda>m. m\<lparr>s_c := ?c + 1\<rparr>) s" by (simp add: upd_sem_def short)
  then have "sem_at sid (?c + 1) (ws @ [w]) ?t" using sem_at_counter [OF at] by simp
  then obtain t where t: "wake_last sid ?t = Some t" "sem_at sid (?c + 1) ws t"
    "p_state (tab_proc t w) = STATE_ACTIVABLE" "valid_proc t w" "same_tree ?t t"
    by (rule sem_at_wake)
  from scheduler_sem_at [OF t(2)] obtain s' where
    s': "scheduler t = Some s'" "sem_at sid (?c + 1) ws s'" "sched_post s'" "sched_frame t s'" by blast
  have "signal sid s = Some (0, s')" using vld ne neg short t(1) s'(1) by (simp add: signal_def Let_def)
  moreover have "kinv s'" using len neg c by (intro sem_at_kinv [OF s'(2)]) (auto simp: SHRT_MAX_def)
  moreover have "valid_proc s' w \<and> runnable_state (p_state (tab_proc s' w))"
    using s'(4) t(3,4) by (rule sched_frame_runnable) (simp add: runnable_state_def)
  moreover have "same_tree s ?t" by (rule same_tree_tab) simp
  then have "same_tree s s'" using t(5) same_tree_frame [OF s'(4)] by (blast intro: same_tree_trans)
  ultimately show ?thesis using s'(2,3) by (intro that [of s']) (simp_all add: sem_at_def)
qed

lemma signal_count_spec:
  assumes inv: "kinv s" and vld: "\<not> sem_invalid sid s" and c: "0 \<le> s_c (semaphores s sid)" "s_c (semaphores s sid) < SHRT_MAX"
  shows "signal sid s = Some (0, upd_sem sid (\<lambda>m. m\<lparr>s_c := s_c m + 1\<rparr>) s) \<and> kinv (upd_sem sid (\<lambda>m. m\<lparr>s_c := s_c m + 1\<rparr>) s)"
proof -
  let ?c = "s_c (semaphores s sid)"
  from kinv_sem_at [OF inv vld] c obtain ws where ws: "sem_at sid ?c ws s" "ws = []" by auto
  have short: "to_short (?c + 1) = ?c + 1" using c by (intro to_short_id) (auto simp: SHRT_MIN_def)
  have eq: "upd_sem sid (\<lambda>m. m\<lparr>s_c := to_short (s_c m + 1)\<rparr>) s = upd_sem sid (\<lambda>m. m\<lparr>s_c := ?c + 1\<rparr>) s"
    "upd_sem sid (\<lambda>m. m\<lparr>s_c := s_c m + 1\<rparr>) s = upd_sem sid (\<lambda>m. m\<lparr>s_c := ?c + 1\<rparr>) s"
    by (simp_all add: upd_sem_def short)
  have "kinv (upd_sem sid (\<lambda>m. m\<lparr>s_c := ?c + 1\<rparr>) s)"
    using sem_at_kinv [OF sem_at_counter [OF ws(1)], of "?c + 1"] ws(2) c by simp
  then show ?thesis using vld c unfolding eq(2) by (simp add: signal_def Let_def eq(1))
qed

lemma signaln_spec:
  assumes inv: "kinv s" and vld: "\<not> sem_invalid sid s" and ws: "s_proc_wait (semaphores s sid) = Some ws"
    and n: "0 \<le> n" "s_c (semaphores s sid) + n \<le> SHRT_MAX"
  obtains s' where "signaln sid n s = Some (0, s')" "kinv s'" "sched_post s'"
    "s_c (semaphores s' sid) = s_c (semaphores s sid) + n"
    "s_proc_wait (semaphores s' sid) = Some (take (length ws - nat n) ws)"
    "blocked_on s' sid = set (take (length ws - nat n) ws)"
    "\<forall>p \<in> set (drop (length ws - nat n) ws). runnable_state (p_state (tab_proc s' p))" "same_tree s s'"
proof -
  let ?c = "s_c (semaphores s sid)" and ?us = "take (length ws - nat n) ws"
  have at: "sem_at sid ?c ws s" and
    len: "int (length ws) = max 0 (- ?c)" and c: "-20 \<le> ?c" "?c \<le> SHRT_MAX"
    by (rule kinv_sem_at_ws [OF inv vld ws])+
  have "?c + int (nat n) \<le> SHRT_MAX" using n by simp
  then obtain t where
    t: "signaln_loop (nat n) sid s = Some t" "sem_at sid (?c + int (nat n)) ?us t"
      "\<forall>p \<in> set (drop (length ws - nat n) ws). p_state (tab_proc t p) = STATE_ACTIVABLE"
      "\<forall>p. p \<notin> set ws \<longrightarrow> tab_proc t p = tab_proc s p" "pid_cour t = pid_cour s" "allocs t = allocs s" "same_tree s t"
    using c(1) by (rule signal_loop_spec [OF at len])
  from scheduler_sem_at [OF t(2)] obtain s' where
    s': "scheduler t = Some s'" "sem_at sid (?c + int (nat n)) ?us s'" "sched_post s'" "sched_frame t s'" by blast
  have "signaln sid n s = Some (0, s')" using vld n t(1) s'(1) by (simp add: signaln_def not_less)
  moreover have "?c + int (nat n) \<le> SHRT_MAX" "int (length ?us) = max 0 (- (?c + int (nat n)))"
    using len n by simp_all
  then have "kinv s'" by (rule sem_at_kinv [OF s'(2)])
  moreover have "\<forall>p \<in> set (drop (length ws - nat n) ws). runnable_state (p_state (tab_proc s' p))"
  proof
    fix p assume "p \<in> set (drop (length ws - nat n) ws)"
    with t(3) have "runnable_state (p_state (tab_proc t p))" by (simp add: runnable_state_def)
    then show "runnable_state (p_state (tab_proc s' p))" by (rule sched_frame_runnable_state [OF s'(4)])
  qed
  moreover have "same_tree s s'" using t(7) same_tree_frame [OF s'(4)] by (rule same_tree_trans)
  ultimately show ?thesis using s'(2,3) n by (intro that [of s']) (simp_all add: sem_at_def)
qed

section \<open>Waiting\<close>

lemma kl_put_first_ok:
  "l = Some xs \<Longrightarrow> 0 \<le> e \<Longrightarrow> allocs s = a # as \<Longrightarrow> a \<noteq> 0 \<Longrightarrow>
   kl_put_first l e s = Some (Some (e # xs), s\<lparr>allocs := as\<rparr>)"
  by (simp add: kl_put_first_def mem_alloc_def Let_def)

lemma sem_dec:
  assumes "kinv s" and "\<not> sem_invalid sid s" and "0 < s_c (semaphores s sid)"
  shows "upd_sem sid (\<lambda>m. m\<lparr>s_c := to_short (s_c m - 1)\<rparr>) s = upd_sem sid (\<lambda>m. m\<lparr>s_c := s_c m - 1\<rparr>) s"
proof -
  have "sem_ok s sid" using assms by (simp add: kinv_def sem_inv_def)
  from sem_ok_counter [OF this] have "to_short (s_c (semaphores s sid) - 1) = s_c (semaphores s sid) - 1"
    using assms(3) by (intro to_short_id) (auto simp: SHRT_MIN_def)
  then show ?thesis by (simp add: upd_sem_def)
qed

text \<open>The counter is positive: the process takes a unit and goes on.\<close>

lemma wait_free_spec:
  assumes inv: "kinv s" and vld: "\<not> sem_invalid sid s" and c: "0 < s_c (semaphores s sid)"
  shows "wait sid s = Some (Some 0, upd_sem sid (\<lambda>m. m\<lparr>s_c := s_c m - 1\<rparr>) s) \<and>
    kinv (upd_sem sid (\<lambda>m. m\<lparr>s_c := s_c m - 1\<rparr>) s)"
proof -
  let ?c = "s_c (semaphores s sid)"
  obtain ws where ws: "sem_at sid ?c ws s" "int (length ws) = max 0 (- ?c)" "?c \<le> SHRT_MAX" "-20 \<le> ?c"
    "s_proc_wait (semaphores s sid) = Some ws"
    using inv vld by (rule kinv_sem_at)
  have eq: "upd_sem sid (\<lambda>m. m\<lparr>s_c := s_c m - 1\<rparr>) s = upd_sem sid (\<lambda>m. m\<lparr>s_c := ?c - 1\<rparr>) s"
    by (simp add: upd_sem_def)
  have "kinv (upd_sem sid (\<lambda>m. m\<lparr>s_c := ?c - 1\<rparr>) s)"
    using sem_at_kinv [OF sem_at_counter [OF ws(1)], of "?c - 1"] ws(2,3) c by simp
  then show ?thesis using vld c unfolding eq by (simp add: wait_def Let_def sem_dec [OF assms] eq SHRT_MIN_def)
qed

text \<open>A process that blocks joins the processes waiting on the semaphore.\<close>

lemma sem_at_block:
  assumes at: "sem_at sid c ws s" and cur: "valid_proc s p" "p_state (tab_proc s p) = STATE_ACTIVE"
  shows "sem_at sid c (p # ws)
    (upd_sem sid (\<lambda>m. m\<lparr>s_proc_wait := Some (p # ws)\<rparr>)
      (upd_proc p (\<lambda>c. c\<lparr>p_state := STATE_WAIT_SEM, p_sid_wait := sid\<rparr>) s))" (is "sem_at _ _ _ ?t")
proof -
  let ?u = "upd_proc p (\<lambda>c. c\<lparr>p_state := STATE_WAIT_SEM\<rparr>) s"
  have "sched_eq ?u ?t" by (simp add: sched_eq_def)
  moreover have "sched_inv ?u" "no_sigs ?u"
    using at cur by (simp_all add: sched_inv_block sem_at_def)
  ultimately have sch: "sched_inv ?t" "no_sigs ?t" using sched_eq_inv by blast+
  have blk: "blocked_on ?t i = (if i = sid then insert p (blocked_on s sid) else blocked_on s i)" for i
    using cur by (auto simp: blocked_on_def valid_proc_def)
  have "sem_rest sid ?t" using at sem_rest_cong [of sid ?t s] blk by (simp add: sem_at_def)
  moreover have "free_sids_ok ?t" using at free_sids_ok_cong [of ?t s] by (simp add: sem_at_def)
  moreover have "p \<notin> blocked_on s sid" using cur by (simp add: blocked_on_def)
  ultimately show ?thesis using at sch blk unfolding sem_at_def by (simp add: sem_invalid_def)
qed

lemma wait_block_spec:
  assumes inv: "kinv s" and vld: "\<not> sem_invalid sid s" and ws: "s_proc_wait (semaphores s sid) = Some ws"
    and c: "s_c (semaphores s sid) \<le> 0" and cur: "pid_cour s \<noteq> 0" "running s" and al: "allocs s = a # as" "a \<noteq> 0"
  obtains s' where "wait sid s = Some (None, s')" "kinv s'" "sched_post s'"
    "s_c (semaphores s' sid) = s_c (semaphores s sid) - 1" "s_proc_wait (semaphores s' sid) = Some (pid_cour s # ws)"
    "blocked_on s' sid = insert (pid_cour s) (blocked_on s sid)" "same_tree s s'"
proof -
  let ?c = "s_c (semaphores s sid)" and ?p = "pid_cour s"
  have at: "sem_at sid ?c ws s" and len: "int (length ws) = max 0 (- ?c)" and cc: "?c \<le> SHRT_MAX" "-20 \<le> ?c"
    by (rule kinv_sem_at_ws [OF inv vld ws])+
  have short: "to_short (?c - 1) = ?c - 1" and ne: "?c \<noteq> SHRT_MIN"
    using cc by (auto simp: SHRT_MIN_def SHRT_MAX_def)
  let ?t = "upd_sem sid (\<lambda>m. m\<lparr>s_c := ?c - 1\<rparr>) s"
  have act: "p_state (tab_proc ?t ?p) = STATE_ACTIVE" "valid_proc ?t ?p"
    using cur inv by (auto simp: running_def kinv_def sched_inv_def valid_proc_def)
  define u where "u = upd_sem sid (\<lambda>m. m\<lparr>s_proc_wait := Some (?p # ws)\<rparr>)
      (upd_proc ?p (\<lambda>c. c\<lparr>p_state := STATE_WAIT_SEM, p_sid_wait := sid\<rparr>) ?t)"
  have "sem_at sid (?c - 1) (?p # ws) u"
    unfolding u_def using sem_at_block [OF sem_at_counter [OF at] act(2,1)] .
  then have atu: "sem_at sid (?c - 1) (?p # ws) (u\<lparr>allocs := as\<rparr>)"
    unfolding sem_at_def using sem_rest_cong [of sid "u\<lparr>allocs := as\<rparr>" u] free_sids_ok_cong [of "u\<lparr>allocs := as\<rparr>" u]
      sched_eq_inv [OF sched_eq_allocs [of u as]]
    by (simp add: sem_invalid_def blocked_on_def valid_proc_def)
  obtain s' where s': "scheduler (u\<lparr>allocs := as\<rparr>) = Some s'" "sem_at sid (?c - 1) (?p # ws) s'" "sched_post s'"
    "sched_frame (u\<lparr>allocs := as\<rparr>) s'"
    using atu by (rule scheduler_sem_at)
  have p: "in_tab ?p" "0 \<le> ?p" using act(2) by (auto simp: valid_proc_def in_tab_def)
  have eq: "upd_sem sid (\<lambda>m. m\<lparr>s_c := to_short (s_c m - 1)\<rparr>) s = ?t" by (simp add: upd_sem_def short)
  have put: "kl_put_first (Some ws) ?p x = Some (Some (?p # ws), x\<lparr>allocs := as\<rparr>)" if "allocs x = a # as" for x
    using that p al by (simp add: kl_put_first_ok)
  have comm: "upd_sem sid (\<lambda>m. m\<lparr>s_proc_wait := Some (?p # ws)\<rparr>) (x\<lparr>allocs := as\<rparr>) =
    (upd_sem sid (\<lambda>m. m\<lparr>s_proc_wait := Some (?p # ws)\<rparr>) x)\<lparr>allocs := as\<rparr>" for x by (simp add: upd_sem_def)
  have "wait sid s = Some (None, s')"
    using vld ne c p(1) s'(1) ws al(1) by (simp add: wait_def Let_def eq put comm u_def)
  moreover have "kinv s'" using len c cc by (intro sem_at_kinv [OF s'(2)]) auto
  moreover have "blocked_on s' sid = insert ?p (blocked_on s sid)" using s'(2) at by (auto simp: sem_at_def)
  moreover have "same_tree s (u\<lparr>allocs := as\<rparr>)" using act(1) by (simp add: same_tree_def u_def)
  then have "same_tree s s'" using same_tree_frame [OF s'(4)] by (rule same_tree_trans)
  ultimately show ?thesis using s'(2,3) by (intro that [of s']) (simp_all add: sem_at_def)
qed

lemma try_wait_spec:
  assumes inv: "kinv s" and vld: "\<not> sem_invalid sid s"
  shows "try_wait sid s =
      (if 0 < s_c (semaphores s sid) then (0, upd_sem sid (\<lambda>m. m\<lparr>s_c := s_c m - 1\<rparr>) s) else (-3, s)) \<and>
    kinv (snd (try_wait sid s))"
proof (cases "0 < s_c (semaphores s sid)")
  case True
  with wait_free_spec [OF assms] sem_dec [OF assms] vld show ?thesis by (simp add: try_wait_def)
next
  case False
  with assms show ?thesis by (simp add: try_wait_def)
qed


section \<open>Reset and deletion\<close>

text \<open>Both operations wake the whole waiting list and mark each process on the way.\<close>

fun wake_all :: "(pcontext \<Rightarrow> pcontext) \<Rightarrow> int \<Rightarrow> int list \<Rightarrow> kstate \<Rightarrow> kstate option" where
  "wake_all g sid [] s = Some s"
| "wake_all g sid (pid # rest) s =
     (let s = upd_sem sid (\<lambda>m. m\<lparr>s_proc_wait := Some rest\<rparr>) s in
      if pid < 0 then Some s
      else do {
        assert_that (in_tab pid);
        (r, s) \<leftarrow> wakeup_process pid (upd_proc pid g s);
        wake_all g sid rest s })"

definition mark_reset :: "pcontext \<Rightarrow> pcontext" where
  "mark_reset c = c\<lparr>p_sid_reseted := 1\<rparr>"

definition mark_delete :: "pcontext \<Rightarrow> pcontext" where
  "mark_delete c = (if p_sid_reseted c = 0 then c\<lparr>p_sid_deleted := 1\<rparr> else c)"

lemma sreset_loop_wake_all: "sreset_loop sid ws s = wake_all mark_reset sid ws s"
  by (induction ws arbitrary: s) (simp_all add: mark_reset_def [abs_def] Let_def split_def)

lemma sdelete_loop_wake_all: "sdelete_loop sid ws s = wake_all mark_delete sid ws s"
proof -
  have "(if p_sid_reseted (tab_proc s p) = 0 then upd_proc p (\<lambda>c. c\<lparr>p_sid_deleted := 1\<rparr>) s else s) = upd_proc p mark_delete s" for p s
    by (simp add: upd_proc_def mark_delete_def)
  then show ?thesis by (induction ws arbitrary: s) (simp_all add: Let_def split_def cong: if_cong)
qed

definition marks_only :: "(pcontext \<Rightarrow> pcontext) \<Rightarrow> bool" where
  "marks_only g \<longleftrightarrow> (\<forall>c. p_valide (g c) = p_valide c \<and> p_state (g c) = p_state c \<and> p_pid (g c) = p_pid c \<and>
     p_priority (g c) = p_priority c \<and> p_sigs (g c) = p_sigs c \<and> p_sid_wait (g c) = p_sid_wait c \<and>
     p_pid_parent (g c) = p_pid_parent c \<and> p_children (g c) = p_children c \<and> p_pid_wait (g c) = p_pid_wait c \<and>
     p_val_ret (g c) = p_val_ret c \<and> p_killed (g c) = p_killed c)"

lemma marks_only_marks [simp]: "marks_only mark_reset" "marks_only mark_delete"
  by (simp_all add: marks_only_def mark_reset_def mark_delete_def)

lemma marks_only_eq: "marks_only g \<Longrightarrow> sched_eq s (upd_proc p g s)"
  by (simp add: marks_only_def sched_eq_def)

lemma marks_only_blocked: "marks_only g \<Longrightarrow> blocked_on (upd_proc p g s) = blocked_on s"
  by (auto simp: marks_only_def blocked_on_def valid_proc_def fun_eq_iff)

lemma sem_at_wake_first:
  assumes g: "marks_only g" and at: "sem_at sid c (w # ws) s"
  obtains s' where "wakeup_process w (upd_proc w g (upd_sem sid (\<lambda>m. m\<lparr>s_proc_wait := Some ws\<rparr>) s)) = Some (w, s')"
    "sem_at sid c ws s'" "tab_proc s' = (tab_proc s)(w := (g (tab_proc s w))\<lparr>p_state := STATE_ACTIVABLE\<rparr>)"
    "pid_cour s' = pid_cour s" "allocs s' = allocs s" "sid_libres s' = sid_libres s"
    "in_tab w" "0 \<le> w"
proof -
  let ?t = "upd_proc w g (upd_sem sid (\<lambda>m. m\<lparr>s_proc_wait := Some ws\<rparr>) s)"
  have w: "w \<in> blocked_on s sid" using at by (auto simp: sem_at_def)
  note wp = blocked_on_props [OF w]
  have eq: "sched_eq s ?t" using marks_only_eq [OF g] by (rule sched_eq_trans [OF sched_eq_upd_sem])
  have "sched_inv s" "no_sigs s" using at by (simp_all add: sem_at_def)
  then have t: "sched_inv ?t" "no_sigs ?t" using sched_eq_inv [OF eq] by simp_all
  have "valid_proc ?t w" "p_state (tab_proc ?t w) \<noteq> STATE_ACTIVABLE"
    using wp g sched_eq_valid [OF eq] by (simp_all add: marks_only_def)
  then obtain L where L: "wakeup_process w ?t = Some (w, (make_activable w ?t)\<lparr>k_links := L\<rparr>)"
    "sched_inv ((make_activable w ?t)\<lparr>k_links := L\<rparr>)" "no_sigs ((make_activable w ?t)\<lparr>k_links := L\<rparr>)"
    by (rule wakeup_process_inv [OF t])
  let ?u = "(make_activable w ?t)\<lparr>k_links := L\<rparr>"
  have blk: "blocked_on ?u i = blocked_on s i - {w}" for i using marks_only_blocked [OF g] by simp
  have others: "blocked_on ?u i = blocked_on s i" if "i \<noteq> sid" for i
    unfolding blk using that w blocked_on_disjoint [of w s sid i] by auto
  have "sem_rest sid ?u" using others sem_rest_cong [of sid ?u s] at by (simp add: sem_at_def)
  moreover have "set ws = blocked_on ?u sid" unfolding blk using at by (auto simp: sem_at_def)
  moreover have "free_sids_ok ?u" using at free_sids_ok_cong [of ?u s] by (simp add: sem_at_def)
  ultimately have "sem_at sid c ws ?u"
    using at L(2,3) unfolding sem_at_def by (simp add: sem_invalid_def)
  then show ?thesis using L(1) wp by (intro that [of ?u]) (auto simp: upd_proc_def)
qed

lemma wake_all_spec:
  assumes "marks_only g" and "sem_at sid c ws s"
  shows "\<exists>s'. wake_all g sid ws s = Some s' \<and> sem_at sid c [] s' \<and> pid_cour s' = pid_cour s \<and> allocs s' = allocs s \<and>
    sid_libres s' = sid_libres s \<and>
    (\<forall>p. tab_proc s' p = (if p \<in> set ws then (g (tab_proc s p))\<lparr>p_state := STATE_ACTIVABLE\<rparr> else tab_proc s p))"
  using assms(2)
proof (induction ws arbitrary: s)
  case Nil
  then show ?case by simp
next
  case (Cons w ws)
  obtain t where t: "wakeup_process w (upd_proc w g (upd_sem sid (\<lambda>m. m\<lparr>s_proc_wait := Some ws\<rparr>) s)) = Some (w, t)"
    "sem_at sid c ws t" "tab_proc t = (tab_proc s)(w := (g (tab_proc s w))\<lparr>p_state := STATE_ACTIVABLE\<rparr>)"
    "pid_cour t = pid_cour s" "allocs t = allocs s" "sid_libres t = sid_libres s" "in_tab w" "0 \<le> w"
    using Cons.prems by (rule sem_at_wake_first [OF assms(1)])
  from Cons.IH [OF t(2)] obtain s' where s': "wake_all g sid ws t = Some s'" "sem_at sid c [] s'"
    "pid_cour s' = pid_cour t" "allocs s' = allocs t" "sid_libres s' = sid_libres t"
    "\<forall>p. tab_proc s' p = (if p \<in> set ws then (g (tab_proc t p))\<lparr>p_state := STATE_ACTIVABLE\<rparr> else tab_proc t p)"
    by auto
  have "w \<notin> set ws" using Cons.prems by (simp add: sem_at_def)
  then have "\<forall>p. tab_proc s' p = (if p \<in> set (w # ws) then (g (tab_proc s p))\<lparr>p_state := STATE_ACTIVABLE\<rparr> else tab_proc s p)"
    using s'(6) t(3) by auto
  moreover have "wake_all g sid (w # ws) s = Some s'" using t(1,7,8) s'(1) by (simp add: Let_def)
  ultimately show ?case using s' t by metis
qed

lemma woken_same_tree:
  assumes "marks_only g" and "sem_at sid c ws s"
    and "\<forall>p. tab_proc t p = (if p \<in> set ws then (g (tab_proc s p))\<lparr>p_state := STATE_ACTIVABLE\<rparr> else tab_proc s p)"
  shows "same_tree s t"
proof -
  have "p_state (tab_proc s p) = STATE_WAIT_SEM" if "p \<in> set ws" for p
    using assms(2) that by (auto simp: sem_at_def blocked_on_def)
  then show ?thesis using assms(1,3) by (simp add: same_tree_def marks_only_def)
qed

lemma sreset_spec:
  assumes inv: "kinv s" and vld: "\<not> sem_invalid sid s" and n: "0 \<le> n" "n \<le> SHRT_MAX"
  obtains s' where "sreset sid n s = Some (0, s')" "kinv s'" "sched_post s'"
    "s_c (semaphores s' sid) = n" "s_proc_wait (semaphores s' sid) = Some []"
    "\<forall>p \<in> blocked_on s sid. runnable_state (p_state (tab_proc s' p)) \<and> p_sid_reseted (tab_proc s' p) = 1" "same_tree s s'"
proof -
  let ?c = "s_c (semaphores s sid)"
  obtain ws where ws: "sem_at sid ?c ws s" "int (length ws) = max 0 (- ?c)" "?c \<le> SHRT_MAX" "-20 \<le> ?c"
    "s_proc_wait (semaphores s sid) = Some ws"
    using inv vld by (rule kinv_sem_at)
  from wake_all_spec [OF marks_only_marks(1) sem_at_counter [OF ws(1), of n]] obtain t where
    t: "wake_all mark_reset sid ws (upd_sem sid (\<lambda>m. m\<lparr>s_c := n\<rparr>) s) = Some t" "sem_at sid n [] t"
    "\<forall>p. tab_proc t p = (if p \<in> set ws then (mark_reset (tab_proc s p))\<lparr>p_state := STATE_ACTIVABLE\<rparr> else tab_proc s p)"
    by auto
  obtain s' where s': "scheduler t = Some s'" "sem_at sid n [] s'" "sched_post s'" "sched_frame t s'"
    using t(2) by (rule scheduler_sem_at)
  have "sreset sid n s = Some (0, s')"
    using vld n ws(5) t(1) s'(1) by (simp add: sreset_def Let_def sreset_loop_wake_all)
  moreover have "kinv s'" using n by (intro sem_at_kinv [OF s'(2)]) auto
  moreover have "runnable_state (p_state (tab_proc s' p)) \<and> p_sid_reseted (tab_proc s' p) = 1" if "p \<in> blocked_on s sid" for p
  proof -
    have "p \<in> set ws" using that ws(1) by (simp add: sem_at_def)
    then have "runnable_state (p_state (tab_proc t p))" "p_sid_reseted (tab_proc t p) = 1"
      using t(3) by (simp_all add: runnable_state_def mark_reset_def)
    then show ?thesis using sched_frame_runnable_state [OF s'(4)] sched_frame_fields(8) [OF s'(4)] by simp
  qed
  moreover have "same_tree s t" by (rule woken_same_tree [OF marks_only_marks(1) ws(1) t(3)])
  then have "same_tree s s'" using same_tree_frame [OF s'(4)] by (rule same_tree_trans)
  ultimately show ?thesis using s'(2,3) by (intro that [of s']) (simp_all add: sem_at_def)
qed

lemma kinvI:
  "sched_inv s \<Longrightarrow> no_sigs s \<Longrightarrow> free_sids_ok s \<Longrightarrow> sem_rest sid s \<Longrightarrow>
   (if sem_invalid sid s then blocked_on s sid = {} else sem_ok s sid) \<Longrightarrow> kinv s"
  unfolding kinv_def sem_inv_def sem_rest_def by metis

lemma kinv_rest: "kinv s \<Longrightarrow> sem_rest sid s"
  by (simp add: kinv_def sem_inv_def sem_rest_def)

lemma blocked_on_outside [simp]:
  "blocked_on (s\<lparr>sid_libres := l\<rparr>) = blocked_on s" "blocked_on (s\<lparr>allocs := as\<rparr>) = blocked_on s"
  by (auto simp: blocked_on_def valid_proc_def fun_eq_iff)

lemma sdelete_spec:
  assumes inv: "kinv s" and vld: "\<not> sem_invalid sid s" and al: "allocs s = a # as" "a \<noteq> 0"
    and fl: "sid_libres s = Some fl"
  obtains s' where "sdelete sid s = Some (0, s')" "kinv s'" "sched_post s'" "sem_invalid sid s'"
    "sid_libres s' = Some (sid # fl)"
    "\<forall>p \<in> blocked_on s sid. runnable_state (p_state (tab_proc s' p)) \<and>
       (p_sid_reseted (tab_proc s p) = 0 \<longrightarrow> p_sid_deleted (tab_proc s' p) = 1)" "same_tree s s'"
proof -
  let ?c = "s_c (semaphores s sid)"
  obtain ws where ws: "sem_at sid ?c ws s" "int (length ws) = max 0 (- ?c)" "?c \<le> SHRT_MAX" "-20 \<le> ?c"
    "s_proc_wait (semaphores s sid) = Some ws"
    using inv vld by (rule kinv_sem_at)
  from wake_all_spec [OF marks_only_marks(2) ws(1)] obtain t where
    t: "wake_all mark_delete sid ws s = Some t" "sem_at sid ?c [] t" "allocs t = allocs s" "sid_libres t = sid_libres s"
    "\<forall>p. tab_proc t p = (if p \<in> set ws then (mark_delete (tab_proc s p))\<lparr>p_state := STATE_ACTIVABLE\<rparr> else tab_proc s p)"
    by auto
  let ?v = "upd_sem sid (\<lambda>m. m\<lparr>s_valide := 0\<rparr>) t"
  let ?u = "?v\<lparr>allocs := as, sid_libres := Some (sid # fl)\<rparr>"
  have sid: "0 \<le> sid" "sid < NBSEM" "s_valide (semaphores t sid) = 1"
    using t(2) by (simp_all add: sem_at_def sem_invalid_def)
  have eq: "sched_eq t ?u" by (simp add: sched_eq_def)
  have 1: "sched_inv ?u" "no_sigs ?u" using t(2) sched_eq_inv [OF eq] by (simp_all add: sem_at_def)
  have 2: "sem_rest sid ?u" using t(2) sem_rest_cong [of sid ?u t] by (simp add: sem_at_def)
  have "free_sids_ok t" using t(2) by (simp add: sem_at_def)
  then have 3: "free_sids_ok ?u" using fl t(4) sid by (auto simp: free_sids_ok_def)
  have 4: "sem_invalid sid ?u" "blocked_on t sid = {}" using t(2) by (simp add: sem_invalid_def) (metis sem_at_def list.set(1) t(2))
  have "kinv ?u" using 1 3 2 by (rule kinvI) (simp add: 4)
  then obtain s' where s': "scheduler ?u = Some s'" "kinv s'" "sched_post s'" "sched_frame ?u s'"
    by (rule scheduler_kinv)
  have "kl_put_first (Some fl) sid ?v = Some (Some (sid # fl), ?v\<lparr>allocs := as\<rparr>)"
    using sid al t(3) by (intro kl_put_first_ok) simp_all
  then have "sdelete sid s = Some (0, s')"
    using vld ws(5) t(1) fl t(4) s'(1) by (simp add: sdelete_def Let_def sdelete_loop_wake_all kl_free_def)
  moreover have "sem_invalid sid s'" "sid_libres s' = Some (sid # fl)"
    using sched_frame_simps(1,2) [OF s'(4)] by (simp_all add: sem_invalid_def)
  moreover have "runnable_state (p_state (tab_proc s' p)) \<and>
       (p_sid_reseted (tab_proc s p) = 0 \<longrightarrow> p_sid_deleted (tab_proc s' p) = 1)" if "p \<in> blocked_on s sid" for p
  proof -
    have "p \<in> set ws" using that ws(1) by (simp add: sem_at_def)
    then have "tab_proc ?u p = (mark_delete (tab_proc s p))\<lparr>p_state := STATE_ACTIVABLE\<rparr>" using t(5) by simp
    then show ?thesis using sched_frame_runnable_state [OF s'(4), of p] sched_frame_fields(7) [OF s'(4), of p]
      by (simp add: runnable_state_def mark_delete_def)
  qed
  moreover have "same_tree s t" by (rule woken_same_tree [OF marks_only_marks(2) ws(1) t(5)])
  then have "same_tree s ?u" by (simp add: same_tree_def)
  then have "same_tree s s'" using same_tree_frame [OF s'(4)] by (rule same_tree_trans)
  ultimately show ?thesis using s'(2,3) by (intro that [of s']) simp_all
qed

section \<open>Creation\<close>

lemma screate_spec:
  assumes inv: "kinv s" and n: "0 \<le> n" "n \<le> SHRT_MAX" and fl: "sid_libres s = Some (i # fl)" and al: "allocs s = a # as" "a \<noteq> 0"
  obtains s' where "screate n s = Some (i, s')" "kinv s'" "sem_invalid i s" "\<not> sem_invalid i s'"
    "semaphores s' = (semaphores s)(i := \<lparr>s_c = n, s_proc_wait = Some [], s_valide = 1\<rparr>)" "sid_libres s' = Some fl" "same_tree s s'" "pid_cour s' = pid_cour s" "tab_proc s' = tab_proc s"
proof -
  let ?u = "upd_sem i (\<lambda>m. m\<lparr>s_c := n, s_proc_wait := Some [], s_valide := 1\<rparr>) (s\<lparr>sid_libres := Some fl, allocs := as\<rparr>)"
  have free: "free_sids_ok s" using inv by (simp add: kinv_def sem_inv_def)
  then have i: "0 \<le> i" "i < NBSEM" "s_valide (semaphores s i) \<noteq> 1" using fl by (auto simp: free_sids_ok_def)
  then have bad: "sem_invalid i s" by (simp add: sem_invalid_def)
  then have emp: "blocked_on s i = {}" using inv by (simp add: kinv_def sem_inv_def)
  have eq: "sched_eq s ?u" by (simp add: sched_eq_def)
  have 1: "sched_inv ?u" "no_sigs ?u" using inv sched_eq_inv [OF eq] by (simp_all add: kinv_def)
  have 2: "sem_rest i ?u" using kinv_rest [OF inv] sem_rest_cong [of i ?u s] by simp
  have 3: "free_sids_ok ?u" using free fl by (auto simp: free_sids_ok_def)
  have 4: "\<not> sem_invalid i ?u" "sem_ok ?u i" using i emp n by (simp_all add: sem_invalid_def sem_ok_def)
  have "kinv ?u" using 1 3 2 by (rule kinvI) (simp add: 4)
  moreover have "screate n s = Some (i, ?u)"
    using n fl al i(3) by (simp add: screate_def seq_get_first_def kl_new_def mem_alloc_def Let_def upd_sem_def)
  moreover have "semaphores ?u = (semaphores s)(i := \<lparr>s_c = n, s_proc_wait = Some [], s_valide = 1\<rparr>)"
    by (simp add: fun_eq_iff)
  moreover have "same_tree s ?u" by (rule same_tree_tab) simp
  ultimately show ?thesis using bad 4 by (intro that [of ?u]) simp_all
qed

text \<open>When the allocator fails the identifier is taken from the free list all the same.\<close>

lemma screate_no_memory:
  assumes "0 \<le> n" and "sid_libres s = Some (i # fl)" and "allocs s = [] \<or> allocs s = 0 # as"
    and "s_valide (semaphores s i) \<noteq> 1"
  obtains s' where "screate n s = Some (-3, s')" "sid_libres s' = Some fl" "s_valide (semaphores s' i) = s_valide (semaphores s i)"
  using assms that
  by (fastforce simp: screate_def seq_get_first_def kl_new_def mem_alloc_def Let_def split: list.splits)

lemma sem_init_loop_spec:
  assumes "length is \<le> length (allocs s)" and "\<forall>a \<in> set (take (length is) (allocs s)). a \<noteq> 0"
    and "sid_libres s = Some fl" and "\<forall>i \<in> set is. 0 \<le> i"
  shows "\<exists>s'. sem_init_loop is s = Some s' \<and> sid_libres s' = Some (rev is @ fl) \<and> tab_proc s' = tab_proc s \<and>
    k_links s' = k_links s \<and> pid_cour s' = pid_cour s \<and> (\<forall>i \<in> set is. s_valide (semaphores s' i) = 0) \<and>
    (\<forall>i. i \<notin> set is \<longrightarrow> semaphores s' i = semaphores s i)"
  using assms
proof (induction "is" arbitrary: s fl)
  case Nil
  then show ?case by simp
next
  case (Cons i js)
  then obtain a as where al: "allocs s = a # as" "a \<noteq> 0" by (cases "allocs s") auto
  let ?t = "(upd_sem i (\<lambda>m. m\<lparr>s_valide := 0\<rparr>) s)\<lparr>allocs := as, sid_libres := Some (i # fl)\<rparr>"
  have "length js \<le> length (allocs ?t)" "\<forall>a \<in> set (take (length js) (allocs ?t)). a \<noteq> 0" "\<forall>i \<in> set js. 0 \<le> i"
    using Cons.prems al by simp_all
  from Cons.IH [OF this(1,2) _ this(3), of "i # fl"] obtain s' where s': "sem_init_loop js ?t = Some s'"
    "sid_libres s' = Some (rev js @ i # fl)" "tab_proc s' = tab_proc ?t" "k_links s' = k_links ?t" "pid_cour s' = pid_cour ?t"
    "\<forall>j \<in> set js. s_valide (semaphores s' j) = 0" "\<forall>j. j \<notin> set js \<longrightarrow> semaphores s' j = semaphores ?t j" by auto
  have "kl_put_first (Some fl) i (upd_sem i (\<lambda>m. m\<lparr>s_valide := 0\<rparr>) s) =
      Some (Some (i # fl), (upd_sem i (\<lambda>m. m\<lparr>s_valide := 0\<rparr>) s)\<lparr>allocs := as\<rparr>)"
    using al Cons.prems(4) by (intro kl_put_first_ok) simp_all
  then have "sem_init_loop (i # js) s = Some s'" using Cons.prems(3) s'(1) by (simp add: Let_def)
  moreover have "\<forall>j \<in> set (i # js). s_valide (semaphores s' j) = 0" using s'(6,7) by (cases "i \<in> set js") auto
  moreover have "\<forall>j. j \<notin> set (i # js) \<longrightarrow> semaphores s' j = semaphores s j" using s'(7) by auto
  ultimately show ?case using s'(2-5) by (intro exI [of _ s']) simp
qed

lemma sem_init_spec:
  assumes inv: "sched_inv s" "no_sigs s" and blk: "\<And>i. blocked_on s i = {}"
    and al: "nat NBSEM < length (allocs s)" "\<forall>a \<in> set (take (Suc (nat NBSEM)) (allocs s)). a \<noteq> 0"
  obtains s' where "sem_init s = Some s'" "kinv s'" "\<forall>i. sem_invalid i s'" "sid_libres s' = Some (rev [0..NBSEM - 1])"
proof -
  from al obtain a as where as: "allocs s = a # as" "a \<noteq> 0" by (cases "allocs s") auto
  let ?t = "s\<lparr>allocs := as, sid_libres := Some []\<rparr>"
  have len: "length [0..NBSEM - 1] = nat NBSEM" by simp
  have "length [0..NBSEM - 1] \<le> length (allocs ?t)" "\<forall>a \<in> set (take (length [0..NBSEM - 1]) (allocs ?t)). a \<noteq> 0"
    using al as unfolding len by simp_all
  from sem_init_loop_spec [OF this, of "[]"] obtain s' where s': "sem_init_loop [0..NBSEM - 1] ?t = Some s'"
    "sid_libres s' = Some (rev [0..NBSEM - 1])" "tab_proc s' = tab_proc s" "k_links s' = k_links s" "pid_cour s' = pid_cour s"
    "\<forall>i \<in> {0..NBSEM - 1}. s_valide (semaphores s' i) = 0" by auto
  have eq: "sched_eq s s'" using s'(3-5) by (simp add: sched_eq_def)
  have "sem_invalid i s'" for i using s'(6) by (cases "i \<in> {0..NBSEM - 1}") (auto simp: sem_invalid_def)
  moreover have "blocked_on s' i = {}" for i using blk [of i] s'(3) by (simp add: blocked_on_def valid_proc_def)
  moreover have "free_sids_ok s'" using s'(2,6) by (auto simp: free_sids_ok_def)
  ultimately have "kinv s'" using inv sched_eq_inv [OF eq] by (simp add: kinv_def sem_inv_def)
  moreover have "sem_init s = Some s'" using as s'(1) by (simp add: sem_init_def kl_new_def mem_alloc_def Let_def)
  ultimately show ?thesis using s'(2) \<open>\<And>i. sem_invalid i s'\<close> by (intro that [of s']) simp_all
qed


section \<open>Properties\<close>

text \<open>
  A kernel in which process 1 runs, 2 and 3 are activable and process 4 is blocked on the
  semaphore 0, and one in which the semaphore 0 has the value 1 and nobody waits.
\<close>

definition ex_sem :: kstate where
  "ex_sem = upd_sem 0 (\<lambda>_. \<lparr>s_c = -1, s_proc_wait = Some [4], s_valide = 1\<rparr>)
     (upd_proc 4 (\<lambda>c. c\<lparr>p_valide := 1, p_state := STATE_WAIT_SEM, p_sid_wait := 0\<rparr>)
       (ex_kernel\<lparr>sid_libres := Some [1..NBSEM - 1]\<rparr>))"

definition ex_sem1 :: kstate where
  "ex_sem1 = upd_sem 0 (\<lambda>_. \<lparr>s_c = 1, s_proc_wait = Some [], s_valide = 1\<rparr>)
     (ex_kernel\<lparr>sid_libres := Some [1..NBSEM - 1]\<rparr>)"

lemma ex_kernel_more [simp]:
  "s_valide (semaphores ex_kernel i) = 0" "sid_libres ex_kernel = Some [0..NBSEM - 1]" "allocs ex_kernel = [4096, 8192, 12288]"
  "p_priority (tab_proc ex_kernel p) = 1" "p_valide (tab_proc ex_kernel p) = (if 1 \<le> p \<and> p \<le> 3 then 1 else 0)"
  by (simp_all add: ex_kernel_def ex_ctx_def)

lemma ex_kernel_blocked [simp]: "blocked_on ex_kernel i = {}"
  by (auto simp: blocked_on_def)

lemma ex_kernel_kinv [simp]: "kinv ex_kernel"
  by (auto simp: kinv_def sem_inv_def sem_invalid_def free_sids_ok_def)

lemma ex_sem_simps [simp]:
  "sem_invalid i ex_sem \<longleftrightarrow> i \<noteq> 0" "s_proc_wait (semaphores ex_sem 0) = Some [4]" "s_c (semaphores ex_sem 0) = -1"
  "pid_cour ex_sem = 1" "allocs ex_sem = [4096, 8192, 12288]" "sid_libres ex_sem = Some [1..NBSEM - 1]"
  by (auto simp: ex_sem_def sem_invalid_def NBSEM_def)

lemma ex_sem_valid: "valid_proc ex_sem p \<longleftrightarrow> 1 \<le> p \<and> p \<le> 4"
  by (auto simp: ex_sem_def valid_proc_def in_tab_def NBPROC_def)

lemma ex_sem_proc: "p_pid (tab_proc ex_sem p) = p"
  "p_state (tab_proc ex_sem p) = (if p = 1 then STATE_ACTIVE else if p = 4 then STATE_WAIT_SEM else STATE_ACTIVABLE)"
  by (simp_all add: ex_sem_def)

lemma ex_sem_blocked: "blocked_on ex_sem i = (if i = 0 then {4} else {})"
  unfolding blocked_on_def ex_sem_valid by (auto simp: ex_sem_def)

lemma ex_sem_activable: "activable ex_sem = {2, 3}"
  unfolding activable_def ex_sem_valid by (auto simp: ex_sem_def)

lemma ex_sem_kinv [simp]: "kinv ex_sem" "running ex_sem"
proof -
  have "dll (k_links ex_kernel) 0 [3, 2]" using ex_kernel_ready by (simp add: ready_def queue_rep_def)
  then have "dll (k_links ex_sem) 0 [3, 2]" by (simp add: ex_sem_def)
  then have "ready ex_sem [3, 2]"
    unfolding ready_def ex_sem_activable by (auto simp: queue_rep_def ex_sem_def prio_of_def)
  then have "sched_inv ex_sem"
    by (rule sched_invI) (auto simp: ex_sem_valid ex_sem_proc)
  moreover have "no_sigs ex_sem" by (auto simp: no_sigs_def ex_sem_def)
  moreover have "free_sids_ok ex_sem" by (auto simp: free_sids_ok_def) (simp add: ex_sem_def)
  moreover have "sem_rest 0 ex_sem" by (simp add: sem_rest_def ex_sem_blocked)
  moreover have "if sem_invalid 0 ex_sem then blocked_on ex_sem 0 = {} else sem_ok ex_sem 0"
    by (simp add: sem_ok_def ex_sem_blocked SHRT_MAX_def)
  ultimately show "kinv ex_sem" by (rule kinvI)
  show "running ex_sem" by (simp add: running_def ex_sem_def)
qed

lemma ex_sem1_simps [simp]:
  "sem_invalid i ex_sem1 \<longleftrightarrow> i \<noteq> 0" "s_c (semaphores ex_sem1 0) = 1"
  by (auto simp: ex_sem1_def sem_invalid_def NBSEM_def)

lemma ex_sem1_kinv [simp]: "kinv ex_sem1"
proof -
  have eq: "sched_eq ex_kernel ex_sem1" by (simp add: sched_eq_def ex_sem1_def)
  have blk: "blocked_on ex_sem1 i = {}" for i
    unfolding ex_sem1_def blocked_on_upd_sem blocked_on_outside by simp
  show ?thesis
  proof (rule kinvI)
    show "sched_inv ex_sem1" "no_sigs ex_sem1" using sched_eq_inv [OF eq] by simp_all
    show "free_sids_ok ex_sem1" by (auto simp: free_sids_ok_def ex_sem1_def)
    show "sem_rest 0 ex_sem1" by (simp add: sem_rest_def blk)
    show "if sem_invalid 0 ex_sem1 then blocked_on ex_sem1 0 = {} else sem_ok ex_sem1 0"
      by (simp add: sem_ok_def blk SHRT_MAX_def) (simp add: ex_sem1_def)
  qed
qed

text \<open>
  C4. \<^verbatim>\<open>signal\<close> on a semaphore somebody waits for: exactly the process that waits for longest is
  made runnable, whatever the priorities of the waiters, the counter goes up by one, the other waiters stay blocked in their order, and the
  kernel's invariant holds after the scheduler has run. This is what the code does; \<^verbatim>\<open>doc/doc.tex\<close> and test 11 of \<^verbatim>\<open>user/test.c\<close> ask for the waiter of the
  greatest priority instead (see the findings).
\<close>

theorem signal_wakes_oldest:
  assumes "kinv s" and "\<not> sem_invalid sid s" and "s_proc_wait (semaphores s sid) = Some (ws @ [w])"
  shows "\<exists>s'. signal sid s = Some (0, s') \<and> kinv s' \<and> s_c (semaphores s' sid) = s_c (semaphores s sid) + 1 \<and>
    s_proc_wait (semaphores s' sid) = Some ws \<and> blocked_on s' sid = set ws \<and>
    valid_proc s' w \<and> runnable_state (p_state (tab_proc s' w))"
  using assms by (rule signal_wake_spec) blast

theorem signal_wakes_oldest_witness:
  "\<exists>s'. signal 0 ex_sem = Some (0, s') \<and> kinv s' \<and> s_c (semaphores s' 0) = s_c (semaphores ex_sem 0) + 1 \<and>
    s_proc_wait (semaphores s' 0) = Some [] \<and> blocked_on s' 0 = set [] \<and>
    valid_proc s' 4 \<and> runnable_state (p_state (tab_proc s' 4))"
  by (rule signal_wakes_oldest) simp_all

text \<open>
  \<^verbatim>\<open>signaln\<close> with a count that fits adds the count to the counter and wakes the waiters that
  have waited longest, as many as the count allows, in one call; the invariant is kept.
\<close>

lemma signaln_wakes_oldest:
  assumes "kinv s" and "\<not> sem_invalid sid s" and "s_proc_wait (semaphores s sid) = Some ws"
    and "0 \<le> n" and "s_c (semaphores s sid) + n \<le> SHRT_MAX"
  shows "\<exists>s'. signaln sid n s = Some (0, s') \<and> kinv s' \<and> s_c (semaphores s' sid) = s_c (semaphores s sid) + n \<and>
    s_proc_wait (semaphores s' sid) = Some (take (length ws - nat n) ws) \<and>
    blocked_on s' sid = set (take (length ws - nat n) ws) \<and>
    (\<forall>p \<in> set (drop (length ws - nat n) ws). runnable_state (p_state (tab_proc s' p)))"
  using assms by (rule signaln_spec) blast

lemma signaln_wakes_oldest_witness:
  "\<exists>s'. signaln 0 5 ex_sem = Some (0, s') \<and> kinv s' \<and> s_c (semaphores s' 0) = s_c (semaphores ex_sem 0) + 5 \<and>
    s_proc_wait (semaphores s' 0) = Some (take (length [4::int] - nat 5) [4]) \<and>
    blocked_on s' 0 = set (take (length [4::int] - nat 5) [4]) \<and>
    (\<forall>p \<in> set (drop (length [4::int] - nat 5) [4]). runnable_state (p_state (tab_proc s' p)))"
  by (rule signaln_wakes_oldest) (simp_all add: SHRT_MAX_def)

text \<open>
  C18. \<^verbatim>\<open>wait\<close> on a semaphore whose counter is not positive blocks the caller: it leaves the
  processor, stands behind the processes that wait already, and the counter goes down by one, so
  that its negative value still counts the waiters.
\<close>

theorem wait_blocks_caller:
  assumes "kinv s" and "\<not> sem_invalid sid s" and "s_proc_wait (semaphores s sid) = Some ws"
    and "s_c (semaphores s sid) \<le> 0" and "pid_cour s \<noteq> 0" and "running s" and "allocs s = a # as" and "a \<noteq> 0"
  shows "\<exists>s'. wait sid s = Some (None, s') \<and> kinv s' \<and> s_c (semaphores s' sid) = s_c (semaphores s sid) - 1 \<and>
    s_proc_wait (semaphores s' sid) = Some (pid_cour s # ws) \<and> pid_cour s' \<noteq> pid_cour s \<and>
    blocked_on s' sid = insert (pid_cour s) (blocked_on s sid)"
proof -
  obtain s' where s': "wait sid s = Some (None, s')" "kinv s'" "sched_post s'"
    "s_c (semaphores s' sid) = s_c (semaphores s sid) - 1" "s_proc_wait (semaphores s' sid) = Some (pid_cour s # ws)"
    "blocked_on s' sid = insert (pid_cour s) (blocked_on s sid)"
    using assms by (rule wait_block_spec)
  then have "p_state (tab_proc s' (pid_cour s)) = STATE_WAIT_SEM" by (auto simp: blocked_on_def)
  then have "pid_cour s' \<noteq> pid_cour s" using s'(3) assms(5) by (auto simp: sched_post_def running_def)
  with s' show ?thesis by auto
qed

theorem wait_blocks_caller_witness:
  "\<exists>s'. wait 0 ex_sem = Some (None, s') \<and> kinv s' \<and> s_c (semaphores s' 0) = s_c (semaphores ex_sem 0) - 1 \<and>
    s_proc_wait (semaphores s' 0) = Some (pid_cour ex_sem # [4]) \<and> pid_cour s' \<noteq> pid_cour ex_sem \<and>
    blocked_on s' 0 = insert (pid_cour ex_sem) (blocked_on ex_sem 0)"
  by (rule wait_blocks_caller [of _ _ _ 4096 "[8192, 12288]"]) simp_all

text \<open>
  With a positive counter \<^verbatim>\<open>wait\<close> and \<^verbatim>\<open>try_wait\<close> do the same: they take one unit and
  return 0 at once, and the invariant is kept.
\<close>

lemma wait_takes_unit:
  assumes "kinv s" and "\<not> sem_invalid sid s" and "0 < s_c (semaphores s sid)"
  shows "\<exists>s'. wait sid s = Some (Some 0, s') \<and> try_wait sid s = (0, s') \<and> kinv s' \<and>
    s' = upd_sem sid (\<lambda>m. m\<lparr>s_c := s_c m - 1\<rparr>) s"
  using wait_free_spec [OF assms] try_wait_spec [OF assms(1,2)] assms(3) by simp

lemma wait_takes_unit_witness:
  "\<exists>s'. wait 0 ex_sem1 = Some (Some 0, s') \<and> try_wait 0 ex_sem1 = (0, s') \<and> kinv s' \<and>
    s' = upd_sem 0 (\<lambda>m. m\<lparr>s_c := s_c m - 1\<rparr>) ex_sem1"
  by (rule wait_takes_unit) simp_all

text \<open>
  C25. \<^verbatim>\<open>sreset\<close> sets the counter, empties the waiting list, and makes every process that was blocked
  runnable with the mark that makes its \<^verbatim>\<open>wait\<close> return -4.
\<close>

theorem sreset_releases_all:
  assumes "kinv s" and "\<not> sem_invalid sid s" and "0 \<le> n" and "n \<le> SHRT_MAX"
  shows "\<exists>s'. sreset sid n s = Some (0, s') \<and> kinv s' \<and> s_c (semaphores s' sid) = n \<and>
    s_proc_wait (semaphores s' sid) = Some [] \<and>
    (\<forall>p \<in> blocked_on s sid. runnable_state (p_state (tab_proc s' p)) \<and>
       (\<exists>t. wait_resume (s'\<lparr>pid_cour := p\<rparr>) = Some (-4, t)))"
proof -
  obtain s' where s': "sreset sid n s = Some (0, s')" "kinv s'" "sched_post s'"
    "s_c (semaphores s' sid) = n" "s_proc_wait (semaphores s' sid) = Some []"
    "\<forall>p \<in> blocked_on s sid. runnable_state (p_state (tab_proc s' p)) \<and> p_sid_reseted (tab_proc s' p) = 1"
    using assms by (rule sreset_spec)
  have "\<exists>t. wait_resume (s'\<lparr>pid_cour := p\<rparr>) = Some (-4, t)" if "p \<in> blocked_on s sid" for p
    using s'(6) that blocked_on_props [OF that] by (simp add: wait_resume_def Let_def)
  with s' show ?thesis by auto
qed

theorem sreset_releases_all_witness:
  "\<exists>s'. sreset 0 3 ex_sem = Some (0, s') \<and> kinv s' \<and> s_c (semaphores s' 0) = 3 \<and>
    s_proc_wait (semaphores s' 0) = Some [] \<and>
    (\<forall>p \<in> blocked_on ex_sem 0. runnable_state (p_state (tab_proc s' p)) \<and>
       (\<exists>t. wait_resume (s'\<lparr>pid_cour := p\<rparr>) = Some (-4, t)))"
  by (rule sreset_releases_all) (simp_all add: SHRT_MAX_def)

text \<open>
  \<^verbatim>\<open>sdelete\<close> makes every blocked process runnable, makes the identifier invalid and the next one
  that \<^verbatim>\<open>screate\<close> hands out.
\<close>

lemma sdelete_releases_all:
  assumes "kinv s" and "\<not> sem_invalid sid s" and "allocs s = a # as" and "a \<noteq> 0" and "sid_libres s = Some fl"
  shows "\<exists>s'. sdelete sid s = Some (0, s') \<and> kinv s' \<and> sem_invalid sid s' \<and> sid_libres s' = Some (sid # fl) \<and>
    (\<forall>p \<in> blocked_on s sid. runnable_state (p_state (tab_proc s' p)) \<and>
       (p_sid_reseted (tab_proc s p) = 0 \<longrightarrow> p_sid_deleted (tab_proc s' p) = 1))"
  using assms by (rule sdelete_spec) blast

lemma sdelete_releases_all_witness:
  "\<exists>s'. sdelete 0 ex_sem = Some (0, s') \<and> kinv s' \<and> sem_invalid 0 s' \<and> sid_libres s' = Some (0 # [1..NBSEM - 1]) \<and>
    (\<forall>p \<in> blocked_on ex_sem 0. runnable_state (p_state (tab_proc s' p)) \<and>
       (p_sid_reseted (tab_proc ex_sem p) = 0 \<longrightarrow> p_sid_deleted (tab_proc s' p) = 1))"
  by (rule sdelete_releases_all [of _ _ 4096 "[8192, 12288]"]) simp_all

text \<open>
  \<^verbatim>\<open>screate\<close> returns an identifier that no semaphore in use has, with the counter asked for and
  nobody waiting, and leaves all other semaphores as they are.
\<close>

lemma screate_fresh:
  assumes "kinv s" and "0 \<le> n" and "n \<le> SHRT_MAX" and "sid_libres s = Some (i # fl)" and "allocs s = a # as" and "a \<noteq> 0"
  shows "\<exists>s'. screate n s = Some (i, s') \<and> kinv s' \<and> sem_invalid i s \<and> \<not> sem_invalid i s' \<and>
    semaphores s' = (semaphores s)(i := \<lparr>s_c = n, s_proc_wait = Some [], s_valide = 1\<rparr>) \<and> sid_libres s' = Some fl"
  using assms by (rule screate_spec) blast

lemma screate_fresh_witness:
  "\<exists>s'. screate 7 (ex_kernel\<lparr>sid_libres := Some [5]\<rparr>) = Some (5, s') \<and> kinv s' \<and> sem_invalid 5 (ex_kernel\<lparr>sid_libres := Some [5]\<rparr>) \<and>
    \<not> sem_invalid 5 s' \<and>
    semaphores s' = (semaphores (ex_kernel\<lparr>sid_libres := Some [5]\<rparr>))(5 := \<lparr>s_c = 7, s_proc_wait = Some [], s_valide = 1\<rparr>) \<and>
    sid_libres s' = Some []"
proof (rule screate_fresh [of _ _ _ _ 4096 "[8192, 12288]"])
  have "sched_eq ex_kernel (ex_kernel\<lparr>sid_libres := Some [5]\<rparr>)" by simp
  from sched_eq_inv [OF this] show "kinv (ex_kernel\<lparr>sid_libres := Some [5]\<rparr>)"
    by (auto simp: kinv_def sem_inv_def sem_invalid_def free_sids_ok_def NBSEM_def)
qed (simp_all add: SHRT_MAX_def)

text \<open>
  \<^verbatim>\<open>scount\<close> returns the counter as an unsigned 16-bit number. The code builds a negative value
  from its low byte only, which is right because no more than twenty processes can wait.
\<close>

theorem scount_value:
  assumes "kinv s" and "\<not> sem_invalid sid s"
  shows "scount sid s = s_c (semaphores s sid) mod 65536"
proof -
  have "sem_ok s sid" using assms by (simp add: kinv_def sem_inv_def)
  from sem_ok_counter [OF this] have c: "-20 \<le> s_c (semaphores s sid)" "s_c (semaphores s sid) < 65536"
    by (simp_all add: SHRT_MAX_def)
  show ?thesis
  proof (cases "s_c (semaphores s sid) < 0")
    case True
    then have "s_c (semaphores s sid) mod 256 = s_c (semaphores s sid) + 256"
      "s_c (semaphores s sid) mod 65536 = s_c (semaphores s sid) + 65536"
      using c True by (simp_all add: neg_mod_eq)
    with True assms(2) show ?thesis by (simp add: scount_def)
  next
    case False
    with c assms(2) show ?thesis by (simp add: scount_def)
  qed
qed

theorem scount_value_witness: "scount 0 ex_sem = s_c (semaphores ex_sem 0) mod 65536"
  by (rule scount_value) simp_all

text \<open>
  \<^verbatim>\<open>sem_init\<close> leaves every semaphore invalid and every identifier on the free list, and
  establishes the invariant.
\<close>

lemma sem_init_establishes:
  assumes "sched_inv s" and "no_sigs s" and "\<And>i. blocked_on s i = {}"
    and "nat NBSEM < length (allocs s)" and "\<forall>a \<in> set (take (Suc (nat NBSEM)) (allocs s)). a \<noteq> 0"
  shows "\<exists>s'. sem_init s = Some s' \<and> kinv s' \<and> (\<forall>i. sem_invalid i s') \<and> sid_libres s' = Some (rev [0..NBSEM - 1])"
  using assms by (rule sem_init_spec) blast

lemma sem_init_establishes_witness:
  "\<exists>s'. sem_init (ex_kernel\<lparr>allocs := replicate (Suc (nat NBSEM)) 4096\<rparr>) = Some s' \<and> kinv s' \<and>
    (\<forall>i. sem_invalid i s') \<and> sid_libres s' = Some (rev [0..NBSEM - 1])"
  by (rule sem_init_establishes) (simp_all add: sched_eq_inv [OF sched_eq_allocs] del: replicate_Suc)

end
