(* ===== verification/Timer.thy ===== *)
theory Timer
  imports Semaphore
begin

text \<open>
  The clock (\<^verbatim>\<open>kernel/timer.c\<close>, and the clock interrupt \<^verbatim>\<open>int32\<close> of \<^verbatim>\<open>context_switch.S\<close> as
  \<open>clock_tick\<close>), and the check of user pointers (\<^verbatim>\<open>check_pointer\<close> of \<^verbatim>\<open>kernel/sys.c\<close>,
  \<^verbatim>\<open>is_in_syscall\<close> of \<^verbatim>\<open>kernel/syscall_handlers.c\<close>).
\<close>

unbundle bit_operations_syntax

section \<open>User pointers\<close>

definition is_in_syscall :: "int \<Rightarrow> kstate \<Rightarrow> bool" where
  "is_in_syscall code s \<longleftrightarrow> in_syscall s = code"

definition is_pointer_userspace :: "u32 \<Rightarrow> bool" where
  "is_pointer_userspace p \<longleftrightarrow> p \<ge> 0x1000000"

definition check_pointer :: "u32 \<Rightarrow> int \<Rightarrow> kstate \<Rightarrow> u32" where
  "check_pointer p code s = (if is_in_syscall code s \<and> \<not> is_pointer_userspace p then 0 else p)"

definition SYSCALL_CLOCK_SETTINGS :: int where "SYSCALL_CLOCK_SETTINGS = 0x41"
definition SYSCALL_CONS_READ :: int where "SYSCALL_CONS_READ = 0x42"
definition SYSCALL_CONS_WRITE :: int where "SYSCALL_CONS_WRITE = 0x43"
definition SYSCALL_WAITPID :: int where "SYSCALL_WAITPID = 0x46"
definition SYSCALL_CONS_IOCTL :: int where "SYSCALL_CONS_IOCTL = 0x47"
definition SYSCALL_GETCWD :: int where "SYSCALL_GETCWD = 0x4a"
definition SYSCALL_CHDIR :: int where "SYSCALL_CHDIR = 0x2e"
definition SYSCALL_READ :: int where "SYSCALL_READ = 0x60"
definition SYSCALL_READDIR :: int where "SYSCALL_READDIR = 0x62"
definition SYSCALL_START :: int where "SYSCALL_START = 0xa0"

section \<open>The programmable timer\<close>

definition outb :: "u8 \<Rightarrow> u16 \<Rightarrow> kstate \<Rightarrow> kstate" where
  "outb v port s = s\<lparr>k_out := (v, port) # k_out s\<rparr>"

definition TIMER_INPUT_FREQ :: int where "TIMER_INPUT_FREQ = 0x1234DD"
definition TIMER_CHANNEL0 :: u16 where "TIMER_CHANNEL0 = 0x40"
definition TIMER_CONTROL :: u16 where "TIMER_CONTROL = 0x43"

definition TIMER_COUNTER :: "int \<Rightarrow> int" where
  "TIMER_COUNTER x = (x mod 4) * 64"

definition TIMER_LSB_MSB :: int where "TIMER_LSB_MSB = 3"

definition TIMER_MODE :: "int \<Rightarrow> int" where
  "TIMER_MODE x = (x mod 8) * 2"

definition timer_setticks :: "int \<Rightarrow> kstate \<Rightarrow> kstate option" where
  "timer_setticks freq s = do {
     assert_that (freq > 0);
     let s = s\<lparr>rate := TIMER_INPUT_FREQ div freq\<rparr>;
     let s = outb (word_of_int (TIMER_COUNTER 0 OR TIMER_LSB_MSB OR TIMER_MODE 2)) TIMER_CONTROL s;
     let s = outb (word_of_int (rate s mod 256)) TIMER_CHANNEL0 s;
     Some (outb (word_of_int (rate s div 256 mod 256)) TIMER_CHANNEL0 s) }"

definition init_irqs :: "u8 \<Rightarrow> u8 \<Rightarrow> kstate \<Rightarrow> kstate" where
  "init_irqs imr irqs s = outb (imr AND NOT irqs) 0x21 s"

text \<open>\<open>imr\<close> is what the interrupt controller answers when its mask register is read.\<close>

definition timer_init :: "u8 \<Rightarrow> kstate \<Rightarrow> kstate option" where
  "timer_init imr s = do { s \<leftarrow> timer_setticks 1 s; Some (init_irqs imr 1 s) }"

section \<open>Sleeping\<close>

definition wait_clock :: "u32 \<Rightarrow> kstate \<Rightarrow> kstate option" where
  "wait_clock clock s = do {
     assert_that (in_tab (pid_cour s));
     scheduler (upd_proc (pid_cour s) (\<lambda>c. c\<lparr>p_state := STATE_ASLEEP, p_timer := clock\<rparr>) s) }"

fun update_timer_loop :: "int list \<Rightarrow> kstate \<Rightarrow> kstate option" where
  "update_timer_loop [] s = Some s"
| "update_timer_loop (i # is) s = do {
     s \<leftarrow> (if p_valide (tab_proc s i) = 1 \<and> p_state (tab_proc s i) = STATE_ASLEEP \<and>
              p_timer (tab_proc s i) \<le> nb_interrupt s
           then map_option snd (wakeup_process i s) else Some s);
     update_timer_loop is s }"

definition update_timer :: "kstate \<Rightarrow> kstate option" where
  "update_timer s = update_timer_loop [1..NBPROC] s"

definition clock_tick :: "kstate \<Rightarrow> kstate option" where
  "clock_tick s = do {
     let s = s\<lparr>nb_interrupt := nb_interrupt s + 1\<rparr>;
     s \<leftarrow> update_timer (outb 0x20 0x20 s);
     scheduler s }"

definition clock_settings :: "u32 \<Rightarrow> u32 \<Rightarrow> kstate \<Rightarrow> kstate" where
  "clock_settings quartz ticks s =
     (let quartz = check_pointer quartz SYSCALL_CLOCK_SETTINGS s;
          ticks = check_pointer ticks SYSCALL_CLOCK_SETTINGS s;
          s = (if quartz \<noteq> 0 then s\<lparr>umem := (umem s)(quartz := word_of_int TIMER_INPUT_FREQ)\<rparr> else s)
      in if ticks \<noteq> 0 then s\<lparr>umem := (umem s)(ticks := word_of_int (rate s))\<rparr> else s)"

definition current_clock :: "kstate \<Rightarrow> u32" where
  "current_clock s = nb_interrupt s"

text \<open>
  \<^verbatim>\<open>usleep\<close> asks \<^verbatim>\<open>clock_settings\<close> through pointers to its own variables, on the kernel stack; these
  are refused only during the system call \<^verbatim>\<open>clock_settings\<close> itself.
\<close>

definition usleep :: "u32 \<Rightarrow> kstate \<Rightarrow> kstate option" where
  "usleep microseconds s = do {
     assert_that (\<not> is_in_syscall SYSCALL_CLOCK_SETTINGS s);
     let quartz = word_of_int TIMER_INPUT_FREQ;
     let ticks = word_of_int (rate s);
     wait_clock (current_clock s + (microseconds * quartz * ticks) div 1000000) s }"

section \<open>Facts\<close>

lemma kinv_cong:
  assumes "sched_eq s s'" and "semaphores s' = semaphores s" and "sid_libres s' = sid_libres s"
    and "blocked_on s' = blocked_on s"
  shows "kinv s' = kinv s"
  using sched_eq_inv [OF assms(1)] sem_inv_cong [OF assms(2-4)] by (simp add: kinv_def)

lemma blocked_on_state:
  "p_state (tab_proc s p) \<noteq> STATE_WAIT_SEM \<Longrightarrow> st \<noteq> STATE_WAIT_SEM \<Longrightarrow>
   blocked_on (upd_proc p (\<lambda>c. c\<lparr>p_state := st\<rparr>) s) = blocked_on s"
  by (auto simp: blocked_on_def valid_proc_def fun_eq_iff)

text \<open>The current process gives up the processor for another reason than a semaphore.\<close>

lemma kinv_block:
  assumes "kinv s" and "p_state (tab_proc s p) = STATE_ACTIVE"
    and "\<not> runnable_state st" and "st \<noteq> STATE_WAIT_SEM"
  shows "kinv (upd_proc p (\<lambda>c. c\<lparr>p_state := st\<rparr>) s)"
  using assms sched_inv_block [of s p st] blocked_on_state [of s p st]
    sem_inv_cong [of "upd_proc p (\<lambda>c. c\<lparr>p_state := st\<rparr>) s" s]
  by (simp add: kinv_def runnable_state_def)

lemma kinv_current:
  assumes "kinv s" and "running s" and "pid_cour s \<noteq> 0"
  shows "in_tab (pid_cour s)" "valid_proc s (pid_cour s)" "p_state (tab_proc s (pid_cour s)) = STATE_ACTIVE"
  using assms sched_invD(1) [of s] by (auto simp: kinv_def running_def valid_proc_def)

lemma kinv_wakeup:
  assumes "kinv s" and "valid_proc s p" and "\<not> runnable_state (p_state (tab_proc s p))"
    and "p_state (tab_proc s p) \<noteq> STATE_WAIT_SEM"
  obtains s' where "wakeup_process p s = Some (p, s')" "kinv s'"
    "tab_proc s' = (tab_proc s)(p := (tab_proc s p)\<lparr>p_state := STATE_ACTIVABLE\<rparr>)"
    "pid_cour s' = pid_cour s" "nb_interrupt s' = nb_interrupt s" "allocs s' = allocs s"
    "semaphores s' = semaphores s" "sid_libres s' = sid_libres s" "umem s' = umem s" "in_syscall s' = in_syscall s"
proof -
  have "sched_inv s" "no_sigs s" "p_state (tab_proc s p) \<noteq> STATE_ACTIVABLE"
    using assms(1,3) by (simp_all add: kinv_def runnable_state_def)
  then obtain L where L: "wakeup_process p s = Some (p, (make_activable p s)\<lparr>k_links := L\<rparr>)"
    "sched_inv ((make_activable p s)\<lparr>k_links := L\<rparr>)" "no_sigs ((make_activable p s)\<lparr>k_links := L\<rparr>)"
    using assms(2) by (metis wakeup_process_inv)
  let ?u = "(make_activable p s)\<lparr>k_links := L\<rparr>"
  have "blocked_on ?u = blocked_on s" using assms(4) by (auto simp: blocked_on_def fun_eq_iff)
  then have "kinv ?u" using L(2,3) assms(1) sem_inv_cong [of ?u s] by (simp add: kinv_def)
  then show ?thesis using L(1) by (intro that [of ?u]) (simp_all add: upd_proc_def)
qed

definition due :: "kstate \<Rightarrow> int \<Rightarrow> bool" where
  "due s p \<longleftrightarrow> valid_proc s p \<and> p_state (tab_proc s p) = STATE_ASLEEP \<and> p_timer (tab_proc s p) \<le> nb_interrupt s"

lemma update_timer_loop_spec:
  assumes "kinv s" and "\<forall>i \<in> set is. in_tab i" and "distinct is"
  shows "\<exists>s'. update_timer_loop is s = Some s' \<and> kinv s' \<and> pid_cour s' = pid_cour s \<and> nb_interrupt s' = nb_interrupt s \<and>
    (\<forall>p. tab_proc s' p = (if p \<in> set is \<and> due s p then (tab_proc s p)\<lparr>p_state := STATE_ACTIVABLE\<rparr> else tab_proc s p))"
  using assms
proof (induction "is" arbitrary: s)
  case Nil
  then show ?case by simp
next
  case (Cons i js)
  have i: "in_tab i" using Cons.prems by simp
  obtain t where t: "(if p_valide (tab_proc s i) = 1 \<and> p_state (tab_proc s i) = STATE_ASLEEP \<and>
              p_timer (tab_proc s i) \<le> nb_interrupt s
           then map_option snd (wakeup_process i s) else Some s) = Some t"
    and inv: "kinv t" and fr: "pid_cour t = pid_cour s" "nb_interrupt t = nb_interrupt s"
    and tab: "tab_proc t = (if due s i then (tab_proc s)(i := (tab_proc s i)\<lparr>p_state := STATE_ACTIVABLE\<rparr>) else tab_proc s)"
  proof (cases "due s i")
    case True
    then have "valid_proc s i" "\<not> runnable_state (p_state (tab_proc s i))" "p_state (tab_proc s i) \<noteq> STATE_WAIT_SEM"
      by (simp_all add: due_def runnable_state_def)
    with Cons.prems(1) obtain t where t: "wakeup_process i s = Some (i, t)" "kinv t"
      "tab_proc t = (tab_proc s)(i := (tab_proc s i)\<lparr>p_state := STATE_ACTIVABLE\<rparr>)"
      "pid_cour t = pid_cour s" "nb_interrupt t = nb_interrupt s" by (metis kinv_wakeup)
    with True show ?thesis by (intro that [of t]) (simp_all add: due_def valid_proc_def)
  next
    case False
    then show ?thesis using Cons.prems(1) i by (intro that [of s]) (auto simp: due_def valid_proc_def)
  qed
  have due: "due t p = due s p" if "p \<noteq> i" for p using that fr(2) tab by (auto simp: due_def valid_proc_def)
  have "\<forall>i \<in> set js. in_tab i" "distinct js" "i \<notin> set js" using Cons.prems by simp_all
  with Cons.IH [OF inv] obtain s' where s': "update_timer_loop js t = Some s'" "kinv s'" "pid_cour s' = pid_cour t"
    "nb_interrupt s' = nb_interrupt t"
    "\<forall>p. tab_proc s' p = (if p \<in> set js \<and> due t p then (tab_proc t p)\<lparr>p_state := STATE_ACTIVABLE\<rparr> else tab_proc t p)"
    by blast
  have "tab_proc s' p = (if p \<in> set (i # js) \<and> due s p then (tab_proc s p)\<lparr>p_state := STATE_ACTIVABLE\<rparr> else tab_proc s p)" for p
    using s'(5) tab due [of p] \<open>i \<notin> set js\<close> by (cases "p = i") auto
  then show ?case using s'(1-4) fr t by (intro exI [of _ s']) simp
qed

lemma update_timer_spec:
  assumes "kinv s"
  obtains s' where "update_timer s = Some s'" "kinv s'" "pid_cour s' = pid_cour s" "nb_interrupt s' = nb_interrupt s"
    "\<forall>p. tab_proc s' p = (if due s p then (tab_proc s p)\<lparr>p_state := STATE_ACTIVABLE\<rparr> else tab_proc s p)"
proof -
  have "\<forall>i \<in> set [1..NBPROC]. in_tab i" "distinct [1..NBPROC]" by (simp_all add: in_tab_def)
  from update_timer_loop_spec [OF assms this] obtain s' where s': "update_timer_loop [1..NBPROC] s = Some s'" "kinv s'"
    "pid_cour s' = pid_cour s" "nb_interrupt s' = nb_interrupt s"
    "\<forall>p. tab_proc s' p = (if p \<in> set [1..NBPROC] \<and> due s p then (tab_proc s p)\<lparr>p_state := STATE_ACTIVABLE\<rparr> else tab_proc s p)"
    by blast
  have "tab_proc s' p = (if due s p then (tab_proc s p)\<lparr>p_state := STATE_ACTIVABLE\<rparr> else tab_proc s p)" for p
    using s'(5) by (auto simp: due_def valid_proc_def in_tab_def)
  with s'(1-4) show ?thesis by (intro that [of s']) (simp_all add: update_timer_def)
qed

lemma sched_frame_asleep:
  "sched_frame s s' \<Longrightarrow> valid_proc s' p \<and> p_state (tab_proc s' p) = STATE_ASLEEP \<longleftrightarrow>
     valid_proc s p \<and> p_state (tab_proc s p) = STATE_ASLEEP"
  by (rule sched_frame_blocked) (simp_all add: runnable_state_def)

lemma clock_tick_spec:
  assumes "kinv s"
  obtains s' where "clock_tick s = Some s'" "kinv s'" "sched_post s'" "nb_interrupt s' = nb_interrupt s + 1" "same_tree s s'"
    "\<And>p. valid_proc s' p \<and> p_state (tab_proc s' p) = STATE_ASLEEP \<longleftrightarrow>
       valid_proc s p \<and> p_state (tab_proc s p) = STATE_ASLEEP \<and> nb_interrupt s + 1 < p_timer (tab_proc s p)"
    "\<And>p. valid_proc s p \<Longrightarrow> p_state (tab_proc s p) = STATE_ASLEEP \<Longrightarrow> p_timer (tab_proc s p) \<le> nb_interrupt s + 1 \<Longrightarrow>
       valid_proc s' p \<and> runnable_state (p_state (tab_proc s' p))"
    "\<And>p. \<not> runnable_state (p_state (tab_proc s p)) \<Longrightarrow> p_state (tab_proc s p) \<noteq> STATE_ASLEEP \<Longrightarrow>
       p_state (tab_proc s' p) = p_state (tab_proc s p)"
proof -
  let ?t = "outb 0x20 0x20 (s\<lparr>nb_interrupt := nb_interrupt s + 1\<rparr>)"
  have "sched_eq s ?t" "blocked_on ?t = blocked_on s"
    by (auto simp: sched_eq_def outb_def blocked_on_def valid_proc_def fun_eq_iff)
  then have "kinv ?t" using assms kinv_cong [of s ?t] by (simp add: outb_def)
  then obtain u where u: "update_timer ?t = Some u" "kinv u" "pid_cour u = pid_cour ?t" "nb_interrupt u = nb_interrupt ?t"
    "\<forall>p. tab_proc u p = (if due ?t p then (tab_proc ?t p)\<lparr>p_state := STATE_ACTIVABLE\<rparr> else tab_proc ?t p)"
    by (rule update_timer_spec)
  from u(2) obtain s' where s': "scheduler u = Some s'" "kinv s'" "sched_post s'" "sched_frame u s'"
    by (rule scheduler_kinv)
  have "valid_proc u p \<and> p_state (tab_proc u p) = STATE_ASLEEP \<longleftrightarrow>
      valid_proc s p \<and> p_state (tab_proc s p) = STATE_ASLEEP \<and> nb_interrupt s + 1 < p_timer (tab_proc s p)" for p
    using u(5) [rule_format, of p] by (auto simp: due_def valid_proc_def outb_def)
  moreover have "valid_proc s' p \<and> runnable_state (p_state (tab_proc s' p))"
    if "valid_proc s p" "p_state (tab_proc s p) = STATE_ASLEEP" "p_timer (tab_proc s p) \<le> nb_interrupt s + 1" for p
  proof -
    have "tab_proc u p = (tab_proc s p)\<lparr>p_state := STATE_ACTIVABLE\<rparr>"
      using u(5) [rule_format, of p] that by (simp add: due_def valid_proc_def outb_def)
    then show ?thesis using sched_frame_runs [OF s'(4), of p] that(1) by (simp add: valid_proc_def runnable_state_def)
  qed
  moreover have "p_state (tab_proc s' p) = p_state (tab_proc s p)"
    if "\<not> runnable_state (p_state (tab_proc s p))" "p_state (tab_proc s p) \<noteq> STATE_ASLEEP" for p
  proof -
    have "tab_proc u p = tab_proc s p" using u(5) [rule_format, of p] that by (simp add: due_def outb_def)
    then show ?thesis using sched_frame_stays [OF s'(4), of p] that(1) by simp
  qed
  moreover have "clock_tick s = Some s'" using u(1) s'(1) by (simp add: clock_tick_def Let_def)
  moreover have "nb_interrupt s' = nb_interrupt s + 1" using sched_frame_simps(4) [OF s'(4)] u(4) by (simp add: outb_def)
  moreover have "same_tree s u" using u(5) by (simp add: same_tree_def due_def outb_def)
  then have "same_tree s s'" using same_tree_frame [OF s'(4)] by (rule same_tree_trans)
  ultimately show ?thesis using s'(2,3) sched_frame_asleep [OF s'(4)] by (intro that [of s']) simp_all
qed

lemma wait_clock_spec:
  assumes "kinv s" and "running s" and "pid_cour s \<noteq> 0"
  obtains s' where "wait_clock clock s = Some s'" "kinv s'" "sched_post s'" "pid_cour s' \<noteq> pid_cour s"
    "p_state (tab_proc s' (pid_cour s)) = STATE_ASLEEP" "p_timer (tab_proc s' (pid_cour s)) = clock" "same_tree s s'"
proof -
  let ?p = "pid_cour s"
  let ?t = "upd_proc ?p (\<lambda>c. c\<lparr>p_state := STATE_ASLEEP, p_timer := clock\<rparr>) s"
  note cur = kinv_current [OF assms]
  have "kinv (upd_proc ?p (\<lambda>c. c\<lparr>p_state := STATE_ASLEEP\<rparr>) s)" (is "kinv ?u")
    using assms(1) cur(3) by (rule kinv_block) (simp_all add: runnable_state_def)
  moreover have "sched_eq ?u ?t" "blocked_on ?t = blocked_on ?u"
    by (auto simp: sched_eq_def blocked_on_def valid_proc_def fun_eq_iff)
  ultimately have "kinv ?t" using kinv_cong [of ?u ?t] by simp
  then obtain s' where s': "scheduler ?t = Some s'" "kinv s'" "sched_post s'" "sched_frame ?t s'"
    by (rule scheduler_kinv)
  have "valid_proc ?t ?p \<and> p_state (tab_proc ?t ?p) = STATE_ASLEEP" using cur(2) by (simp add: valid_proc_def)
  then have st: "p_state (tab_proc s' ?p) = STATE_ASLEEP" using sched_frame_asleep [OF s'(4)] by blast
  moreover have "pid_cour s' \<noteq> ?p" using st s'(3) assms(3) by (auto simp: sched_post_def running_def)
  moreover have "p_timer (tab_proc s' ?p) = clock" using sched_frame_fields(5) [OF s'(4)] by simp
  moreover have "wait_clock clock s = Some s'" using cur(1) s'(1) by (simp add: wait_clock_def)
  moreover have "same_tree s ?t" using cur(3) by (simp add: same_tree_def)
  then have "same_tree s s'" using same_tree_frame [OF s'(4)] by (rule same_tree_trans)
  ultimately show ?thesis using s'(2,3) that by blast
qed

section \<open>Properties\<close>

text \<open>
  C6. The clock interrupt adds one to the clock and wakes exactly the processes that sleep until a
  time that has been reached: each of them can run afterwards; those that have to wait longer sleep on, and no process asleep has come in; whoever
  is blocked for another reason or dead stays so. The invariant holds and the process of the greatest priority runs. (No signal is pending: this is
  part of \<open>kinv\<close>.)
\<close>

theorem clock_tick_wakes_due:
  assumes "kinv s"
  shows "\<exists>s'. clock_tick s = Some s' \<and> kinv s' \<and> sched_post s' \<and> nb_interrupt s' = nb_interrupt s + 1 \<and>
    (\<forall>p. valid_proc s p \<longrightarrow> p_state (tab_proc s p) = STATE_ASLEEP \<longrightarrow> p_timer (tab_proc s p) \<le> nb_interrupt s + 1 \<longrightarrow>
       valid_proc s' p \<and> runnable_state (p_state (tab_proc s' p))) \<and>
    (\<forall>p. valid_proc s' p \<and> p_state (tab_proc s' p) = STATE_ASLEEP \<longleftrightarrow>
       valid_proc s p \<and> p_state (tab_proc s p) = STATE_ASLEEP \<and> nb_interrupt s + 1 < p_timer (tab_proc s p)) \<and>
    (\<forall>p. \<not> runnable_state (p_state (tab_proc s p)) \<longrightarrow> p_state (tab_proc s p) \<noteq> STATE_ASLEEP \<longrightarrow>
       p_state (tab_proc s' p) = p_state (tab_proc s p))"
proof -
  obtain s' where "clock_tick s = Some s'" "kinv s'" "sched_post s'" "nb_interrupt s' = nb_interrupt s + 1" "same_tree s s'"
    "\<And>p. valid_proc s' p \<and> p_state (tab_proc s' p) = STATE_ASLEEP \<longleftrightarrow>
       valid_proc s p \<and> p_state (tab_proc s p) = STATE_ASLEEP \<and> nb_interrupt s + 1 < p_timer (tab_proc s p)"
    "\<And>p. valid_proc s p \<Longrightarrow> p_state (tab_proc s p) = STATE_ASLEEP \<Longrightarrow> p_timer (tab_proc s p) \<le> nb_interrupt s + 1 \<Longrightarrow>
       valid_proc s' p \<and> runnable_state (p_state (tab_proc s' p))"
    "\<And>p. \<not> runnable_state (p_state (tab_proc s p)) \<Longrightarrow> p_state (tab_proc s p) \<noteq> STATE_ASLEEP \<Longrightarrow>
       p_state (tab_proc s' p) = p_state (tab_proc s p)"
    using assms by (rule clock_tick_spec) blast
  then show ?thesis by (intro exI [of _ s'] conjI) simp_all
qed

text \<open>The kernel of \<open>ex_sem\<close> in which the running process has gone to sleep until the clock reads 0: it is due at the next interrupt.\<close>

definition ex_asleep :: kstate where
  "ex_asleep = upd_proc 1 (\<lambda>c. c\<lparr>p_state := STATE_ASLEEP\<rparr>) ex_sem"

lemma ex_asleep_kinv: "kinv ex_asleep"
  unfolding ex_asleep_def by (rule kinv_block) (simp_all add: ex_sem_proc runnable_state_def)

theorem clock_tick_wakes_due_witness:
  "\<exists>s'. clock_tick ex_asleep = Some s' \<and> kinv s' \<and> sched_post s' \<and> valid_proc s' 1 \<and> runnable_state (p_state (tab_proc s' 1)) \<and>
    p_state (tab_proc s' 4) = STATE_WAIT_SEM"
proof -
  have "valid_proc ex_asleep 1" "p_state (tab_proc ex_asleep 1) = STATE_ASLEEP" "p_timer (tab_proc ex_asleep 1) \<le> nb_interrupt ex_asleep + 1"
    "p_state (tab_proc ex_asleep 4) = STATE_WAIT_SEM"
    using ex_sem_valid [of 1] by (simp_all add: ex_asleep_def ex_sem_proc valid_proc_def) (simp add: ex_sem_def ex_kernel_def ex_ctx_def)
  then show ?thesis using clock_tick_wakes_due [OF ex_asleep_kinv] by (auto simp: runnable_state_def)
qed
text \<open>
  \<^verbatim>\<open>wait_clock\<close> puts the caller to sleep until the clock reaches the given value: another
  process or the kernel runs, and the caller is asleep with that time.
\<close>

lemma wait_clock_sleeps:
  assumes "kinv s" and "running s" and "pid_cour s \<noteq> 0"
  shows "\<exists>s'. wait_clock clock s = Some s' \<and> kinv s' \<and> pid_cour s' \<noteq> pid_cour s \<and>
    p_state (tab_proc s' (pid_cour s)) = STATE_ASLEEP \<and> p_timer (tab_proc s' (pid_cour s)) = clock"
  using wait_clock_spec [OF assms] by metis

lemma wait_clock_sleeps_witness:
  "\<exists>s'. wait_clock 50 ex_sem = Some s' \<and> kinv s' \<and> pid_cour s' \<noteq> pid_cour ex_sem \<and>
    p_state (tab_proc s' (pid_cour ex_sem)) = STATE_ASLEEP \<and> p_timer (tab_proc s' (pid_cour ex_sem)) = 50"
  by (rule wait_clock_sleeps) simp_all

end
