(* ===== verification/Sys.thy ===== *)
theory Sys
  imports Timer
begin

text \<open>
  The process system calls of \<^verbatim>\<open>kernel/sys.c\<close>: termination, \<^verbatim>\<open>kill\<close>, priorities and
  \<^verbatim>\<open>waitpid\<close>. \<^verbatim>\<open>start\<close> needs the creation of processes and is in theory \<open>Context\<close>.
\<close>

section \<open>Lists of children\<close>

text \<open>
  \<open>list_delete\<close> on a list of the kernel, and the elements an iterator made now will visit;
  the iterator is a block of the allocator.
\<close>

definition kl_delete :: "klist \<Rightarrow> int \<Rightarrow> (int \<times> klist) option" where
  "kl_delete l e = do { xs \<leftarrow> l; Some (fst (seq_delete xs e), Some (snd (seq_delete xs e))) }"

definition kl_iterator :: "klist \<Rightarrow> kstate \<Rightarrow> (int list \<times> kstate) option" where
  "kl_iterator l s = do {
     xs \<leftarrow> l;
     let (a, s) = mem_alloc s;
     assert_that (a \<noteq> 0);
     Some (xs, s) }"

text \<open>
  The loop of \<^verbatim>\<open>exit\<close> and \<^verbatim>\<open>kill\<close> over the children of the process that ends: a zombie dies, another
  process becomes a child of Init.
\<close>

fun adopt_children :: "int list \<Rightarrow> kstate \<Rightarrow> kstate option" where
  "adopt_children [] s = Some s"
| "adopt_children (pid_child # rest) s = do {
     assert_that (in_tab pid_child);
     s \<leftarrow> (if p_state (tab_proc s pid_child) = STATE_ZOMBIE
           then Some (upd_proc pid_child (\<lambda>c. c\<lparr>p_state := STATE_DEAD\<rparr>) s)
           else do {
             let s = upd_proc pid_child (\<lambda>c. c\<lparr>p_pid_parent := 1\<rparr>) s;
             (l, s) \<leftarrow> kl_put_first (p_children (tab_proc s 1)) pid_child s;
             Some (upd_proc 1 (\<lambda>c. c\<lparr>p_children := l\<rparr>) s) });
     adopt_children rest s }"

section \<open>Termination\<close>

text \<open>The father is waiting for this process, or for any child.\<close>

definition father_waits :: "int \<Rightarrow> int \<Rightarrow> kstate \<Rightarrow> bool" where
  "father_waits ppid pid s \<longleftrightarrow> p_state (tab_proc s ppid) = STATE_WAIT_CHILD \<and>
     (pid = p_pid_wait (tab_proc s ppid) \<or> p_pid_wait (tab_proc s ppid) = -1)"

definition exit :: "int \<Rightarrow> kstate \<Rightarrow> kstate option" where
  "exit retval s = do {
     assert_that (in_tab (pid_cour s));
     let pid = pid_cour s;
     let ppid = p_pid_parent (tab_proc s pid);
     s \<leftarrow> (if ppid > 1 then do {
             assert_that (in_tab ppid);
             if father_waits ppid pid s
             then map_option snd (wakeup_process ppid (upd_proc ppid (\<lambda>c. c\<lparr>p_pid_wait := pid\<rparr>) s))
             else Some s
           } else Some s);
     (cs, s) \<leftarrow> kl_iterator (p_children (tab_proc s pid)) s;
     s \<leftarrow> adopt_children cs s;
     s \<leftarrow> (if ppid > 1
           then Some (upd_proc pid (\<lambda>c. c\<lparr>p_state := STATE_ZOMBIE, p_val_ret := retval\<rparr>) s)
           else do {
             let s = upd_proc pid (\<lambda>c. c\<lparr>p_state := STATE_DEAD\<rparr>) s;
             (r, l) \<leftarrow> kl_delete (p_children (tab_proc s 1)) pid;
             Some (upd_proc 1 (\<lambda>c. c\<lparr>p_children := l\<rparr>) s) });
     scheduler s }"

definition kill :: "int \<Rightarrow> kstate \<Rightarrow> (int \<times> kstate) option" where
  "kill pid s =
     (if pid \<le> 1 \<or> pid > NBPROC \<or> p_valide (tab_proc s pid) = 0 \<or>
         p_state (tab_proc s pid) = STATE_DEAD \<or> p_state (tab_proc s pid) = STATE_ZOMBIE
      then Some (-1, s)
      else do {
        s \<leftarrow> (if p_state (tab_proc s pid) = STATE_WAIT_SEM then do {
                let sid = p_sid_wait (tab_proc s pid);
                assert_that (0 \<le> sid \<and> sid < NBSEM);
                Some (upd_sem sid (\<lambda>m. m\<lparr>s_c := to_short (s_c m + 1)\<rparr>) s)
              } else Some s);
        let ppid = p_pid_parent (tab_proc s pid);
        s \<leftarrow> (if ppid > 1 then do {
                assert_that (in_tab ppid);
                if father_waits ppid pid s then map_option snd (wakeup_process ppid s) else Some s
              } else Some s);
        (cs, s) \<leftarrow> kl_iterator (p_children (tab_proc s pid)) s;
        s \<leftarrow> adopt_children cs s;
        s \<leftarrow> (if p_state (tab_proc s pid) = STATE_ACTIVABLE
              then map_option (\<lambda>L. s\<lparr>k_links := L\<rparr>) (queue_del pid (k_links s)) else Some s);
        s \<leftarrow> (if ppid > 1
              then Some (upd_proc pid (\<lambda>c. c\<lparr>p_state := STATE_ZOMBIE, p_killed := 1\<rparr>) s)
              else do {
                let s = upd_proc pid (\<lambda>c. c\<lparr>p_state := STATE_DEAD\<rparr>) s;
                (r, l) \<leftarrow> kl_delete (p_children (tab_proc s 1)) pid;
                Some (upd_proc 1 (\<lambda>c. c\<lparr>p_children := l\<rparr>) s) });
        s \<leftarrow> scheduler s;
        Some (0, s) })"

section \<open>Priorities and identities\<close>

definition getprio :: "int \<Rightarrow> kstate \<Rightarrow> int option" where
  "getprio pid s =
     (if pid = 0 \<or> pid > NBPROC then Some (-1)
      else do {
        assert_that (in_tab pid);
        if p_valide (tab_proc s pid) = 0 \<or> p_state (tab_proc s pid) = STATE_DEAD \<or>
           p_state (tab_proc s pid) = STATE_ZOMBIE
        then Some (-1) else Some (p_priority (tab_proc s pid)) })"

text \<open>\<open>oldprio\<close> is read before the PID is checked.\<close>

definition chprio :: "int \<Rightarrow> int \<Rightarrow> kstate \<Rightarrow> (int \<times> kstate) option" where
  "chprio pid newprio s = do {
     assert_that (in_tab pid);
     let oldprio = p_priority (tab_proc s pid);
     if p_valide (tab_proc s pid) = 0 \<or> p_state (tab_proc s pid) = STATE_ZOMBIE \<or>
        p_state (tab_proc s pid) = STATE_DEAD
     then Some (-1, s)
     else if newprio \<le> 0 \<or> newprio > MAXPRIO then Some (-2, s)
     else if newprio = p_priority (tab_proc s pid) then do {
       s \<leftarrow> scheduler s;
       Some (oldprio, s)
     } else do {
       let s = upd_proc pid (\<lambda>c. c\<lparr>p_priority := newprio\<rparr>) s;
       s \<leftarrow> (if p_state (tab_proc s pid) = STATE_ACTIVABLE then do {
               es \<leftarrow> queue_for_each (k_links s) 0 0;
               case find (\<lambda>e. p_pid (tab_proc s e) = pid) es of
                 Some e \<Rightarrow> do {
                   L \<leftarrow> queue_del e (k_links s);
                   L \<leftarrow> queue_add (prio_of s) 0 e L;
                   Some (s\<lparr>k_links := L\<rparr>) }
               | None \<Rightarrow> Some s
             } else Some s);
       s \<leftarrow> scheduler s;
       Some (oldprio, s) } }"

definition getpid :: "kstate \<Rightarrow> int" where
  "getpid s = pid_cour s"

definition getppid :: "kstate \<Rightarrow> int option" where
  "getppid s = do { assert_that (in_tab (pid_cour s)); Some (p_pid_parent (tab_proc s (pid_cour s))) }"

section \<open>Waiting for a child\<close>

text \<open>The end of both branches of \<^verbatim>\<open>waitpid\<close>: hand over the return value, bury the child.\<close>

definition reap_child :: "int \<Rightarrow> u32 \<Rightarrow> kstate \<Rightarrow> (int \<times> kstate) option" where
  "reap_child pid_child retvalp s = do {
     assert_that (in_tab pid_child \<and> in_tab (pid_cour s));
     let c = tab_proc s pid_child;
     let s = (if retvalp \<noteq> 0
              then s\<lparr>umem := (umem s)(retvalp := (if p_killed c = 1 then 0 else word_of_int (p_val_ret c)))\<rparr>
              else s);
     let s = upd_proc pid_child (\<lambda>c. c\<lparr>p_state := STATE_DEAD\<rparr>) s;
     (r, l) \<leftarrow> kl_delete (p_children (tab_proc s (pid_cour s))) pid_child;
     Some (pid_child, upd_proc (pid_cour s) (\<lambda>c. c\<lparr>p_children := l\<rparr>) s) }"

fun find_zombie :: "int list \<Rightarrow> kstate \<Rightarrow> int option option" where
  "find_zombie [] s = Some None"
| "find_zombie (c # cs) s = do {
     assert_that (in_tab c);
     if p_state (tab_proc s c) = STATE_ZOMBIE then Some (Some c) else find_zombie cs s }"

text \<open>
  \<open>waitpid\<close> answers \<open>None\<close> when the caller blocks; \<open>waitpid_resume\<close> is what it does when it runs
  again. \<open>retvalp\<close> has been through \<open>check_pointer\<close> once, at the start.
\<close>

definition waitpid :: "int \<Rightarrow> u32 \<Rightarrow> kstate \<Rightarrow> (int option \<times> kstate) option" where
  "waitpid pid retvalp s = do {
     let retvalp = check_pointer retvalp SYSCALL_WAITPID s;
     if pid = pid_cour s then Some (Some (-1), s)
     else do {
       assert_that (in_tab (pid_cour s));
       let cur = pid_cour s;
       if pid < 0 then do {
         children \<leftarrow> p_children (tab_proc s cur);
         if children = [] then Some (Some (-1), s)
         else do {
           (cs, s) \<leftarrow> kl_iterator (Some children) s;
           z \<leftarrow> find_zombie cs s;
           case z of
             Some child \<Rightarrow> map_option (map_prod Some id) (reap_child child retvalp s)
           | None \<Rightarrow> map_option (Pair None)
               (scheduler (upd_proc cur (\<lambda>c. c\<lparr>p_state := STATE_WAIT_CHILD, p_pid_wait := -1\<rparr>) s)) }
       } else if pid = 0 then Some (Some (-2), s)
       else do {
         (cs, s) \<leftarrow> kl_iterator (p_children (tab_proc s cur)) s;
         if pid \<notin> set cs then Some (Some (-3), s)
         else do {
           assert_that (in_tab pid);
           if p_state (tab_proc s pid) \<noteq> STATE_ZOMBIE
           then map_option (Pair None)
             (scheduler (upd_proc cur (\<lambda>c. c\<lparr>p_state := STATE_WAIT_CHILD, p_pid_wait := pid\<rparr>) s))
           else map_option (map_prod Some id) (reap_child pid retvalp s) } } } }"

definition waitpid_resume :: "int \<Rightarrow> u32 \<Rightarrow> kstate \<Rightarrow> (int \<times> kstate) option" where
  "waitpid_resume pid retvalp s =
     reap_child (if pid < 0 then p_pid_wait (tab_proc s (pid_cour s)) else pid) retvalp s"

section \<open>Changes the scheduler does not see\<close>

text \<open>A state in which a process neither runs, nor is ready, nor waits for a semaphore.\<close>

definition quiet :: "proc_state \<Rightarrow> bool" where
  "quiet st \<longleftrightarrow> \<not> runnable_state st \<and> st \<noteq> STATE_WAIT_SEM"

lemma quiet_simps [simp]:
  "quiet STATE_ZOMBIE" "quiet STATE_DEAD" "quiet STATE_WAIT_CHILD" "quiet STATE_WAIT_IO" "quiet STATE_ASLEEP"
  "\<not> quiet STATE_ACTIVE" "\<not> quiet STATE_ACTIVABLE" "\<not> quiet STATE_WAIT_SEM"
  by (simp_all add: quiet_def runnable_state_def)

definition same_but_quiet :: "kstate \<Rightarrow> kstate \<Rightarrow> bool" where
  "same_but_quiet s s' \<longleftrightarrow> k_links s' = k_links s \<and> pid_cour s' = pid_cour s \<and> semaphores s' = semaphores s \<and>
     sid_libres s' = sid_libres s \<and> prio_of s' = prio_of s \<and>
     (\<forall>p. p_valide (tab_proc s' p) = p_valide (tab_proc s p) \<and> p_pid (tab_proc s' p) = p_pid (tab_proc s p) \<and>
        p_sigs (tab_proc s' p) = p_sigs (tab_proc s p) \<and> p_sid_wait (tab_proc s' p) = p_sid_wait (tab_proc s p) \<and>
        (p_state (tab_proc s' p) = p_state (tab_proc s p) \<or>
         quiet (p_state (tab_proc s' p)) \<and> quiet (p_state (tab_proc s p))))"

lemma same_but_quiet_state:
  assumes "same_but_quiet s s'" and "\<not> quiet st"
  shows "p_state (tab_proc s' p) = st \<longleftrightarrow> p_state (tab_proc s p) = st"
proof -
  have "p_state (tab_proc s' p) = p_state (tab_proc s p) \<or> quiet (p_state (tab_proc s' p)) \<and> quiet (p_state (tab_proc s p))"
    using assms(1) by (simp add: same_but_quiet_def)
  with assms(2) show ?thesis by auto
qed

lemma same_but_quiet_valid: "same_but_quiet s s' \<Longrightarrow> valid_proc s' = valid_proc s"
  by (auto simp: same_but_quiet_def valid_proc_def)

lemma same_but_quiet_kinv:
  assumes eq: "same_but_quiet s s'" and inv: "kinv s"
  shows "kinv s'"
proof -
  note vld = same_but_quiet_valid [OF eq]
  have act: "activable s' = activable s"
    unfolding activable_def vld using same_but_quiet_state [OF eq, of STATE_ACTIVABLE] by simp
  have blk: "blocked_on s' = blocked_on s"
    unfolding blocked_on_def vld fun_eq_iff
    using same_but_quiet_state [OF eq, of STATE_WAIT_SEM] eq by (simp add: same_but_quiet_def)
  have "sched_inv s" "no_sigs s" "sem_inv s" using inv by (simp_all add: kinv_def)
  then obtain xs where "ready s xs" by (auto intro: sched_inv_ready)
  then have "ready s' xs" unfolding ready_def act using eq by (simp add: same_but_quiet_def)
  then have "sched_inv s'"
  proof (rule sched_invI)
    show "pid_cour s' = 0 \<or> valid_proc s' (pid_cour s')"
      using sched_invD(1) [OF \<open>sched_inv s\<close>] eq unfolding vld by (simp add: same_but_quiet_def)
    fix p assume "valid_proc s' p"
    then have v: "valid_proc s p" by (simp add: vld)
    show "p_pid (tab_proc s' p) = p"
      using sched_invD(2) [OF \<open>sched_inv s\<close> v] eq by (simp add: same_but_quiet_def)
    assume "p \<noteq> pid_cour s'"
    then show "p_state (tab_proc s' p) \<noteq> STATE_ACTIVE"
      using sched_invD(3) [OF \<open>sched_inv s\<close> v] same_but_quiet_state [OF eq, of STATE_ACTIVE p] eq
      by (simp add: same_but_quiet_def)
  qed
  moreover have "no_sigs s'" using \<open>no_sigs s\<close> eq unfolding no_sigs_def vld by (simp add: same_but_quiet_def)
  moreover have "sem_inv s'" using \<open>sem_inv s\<close> sem_inv_cong [of s' s] blk eq by (simp add: same_but_quiet_def)
  ultimately show ?thesis by (simp add: kinv_def)
qed

lemma same_but_quiet_trans: "same_but_quiet s t \<Longrightarrow> same_but_quiet t u \<Longrightarrow> same_but_quiet s u"
  unfolding same_but_quiet_def by (simp, metis)

section \<open>Adoption\<close>

definition usable_blocks :: "nat \<Rightarrow> kstate \<Rightarrow> bool" where
  "usable_blocks n s \<longleftrightarrow> n \<le> length (allocs s) \<and> (\<forall>a \<in> set (take n (allocs s)). a \<noteq> 0)"

lemma usable_blocks_Suc:
  assumes "usable_blocks (Suc n) s"
  obtains a as where "allocs s = a # as" "a \<noteq> 0" "\<And>t. allocs t = as \<Longrightarrow> usable_blocks n t"
  using assms by (cases "allocs s") (auto simp: usable_blocks_def)

lemma usable_blocks_mono: "usable_blocks n s \<Longrightarrow> m \<le> n \<Longrightarrow> usable_blocks m s"
  by (auto simp: usable_blocks_def dest: set_take_subset_set_take [THEN subsetD])

text \<open>\<open>adopted cs s s'\<close>: the zombies among \<open>cs\<close> are dead, the others are children of Init.\<close>

definition adopted :: "int list \<Rightarrow> kstate \<Rightarrow> kstate \<Rightarrow> bool" where
  "adopted cs s s' \<longleftrightarrow> same_but_quiet s s' \<and>
     (\<forall>p. p_state (tab_proc s' p) = (if p \<in> set cs \<and> p_state (tab_proc s p) = STATE_ZOMBIE then STATE_DEAD else p_state (tab_proc s p)) \<and>
        p_pid_parent (tab_proc s' p) = (if p \<in> set cs \<and> p_state (tab_proc s p) \<noteq> STATE_ZOMBIE then 1 else p_pid_parent (tab_proc s p)) \<and>
        p_pid_wait (tab_proc s' p) = p_pid_wait (tab_proc s p) \<and>
        (p \<noteq> 1 \<longrightarrow> p_children (tab_proc s' p) = p_children (tab_proc s p))) \<and>
     p_children (tab_proc s' 1) = map_option (\<lambda>l. rev (filter (\<lambda>p. p_state (tab_proc s p) \<noteq> STATE_ZOMBIE) cs) @ l) (p_children (tab_proc s 1)) \<and>
     (\<forall>p. p_killed (tab_proc s' p) = p_killed (tab_proc s p) \<and> p_val_ret (tab_proc s' p) = p_val_ret (tab_proc s p))"

lemma adopt_one:
  assumes "in_tab c" and "p_children (tab_proc s 1) = Some l" and "usable_blocks 1 s"
  obtains t where "adopt_children [c] s = Some t" "adopted [c] s t" "allocs t = allocs s \<or> allocs t = tl (allocs s)"
    "\<And>cs. adopt_children (c # cs) s = adopt_children cs t"
proof (cases "p_state (tab_proc s c) = STATE_ZOMBIE")
  case True
  let ?t = "upd_proc c (\<lambda>c. c\<lparr>p_state := STATE_DEAD\<rparr>) s"
  have "same_but_quiet s ?t" using True by (simp add: same_but_quiet_def)
  moreover have "map_option (\<lambda>l. l) (p_children (tab_proc s 1)) = p_children (tab_proc s 1)" by (simp add: option.map_ident)
  ultimately have "adopted [c] s ?t" using True by (auto simp: adopted_def)
  with True assms(1) show ?thesis by (intro that [of ?t]) simp_all
next
  case False
  from assms(3) obtain a as where al: "allocs s = a # as" "a \<noteq> 0"
    by (cases "allocs s") (auto simp: usable_blocks_def)
  let ?u = "upd_proc c (\<lambda>c. c\<lparr>p_pid_parent := 1\<rparr>) s"
  let ?t = "upd_proc 1 (\<lambda>x. x\<lparr>p_children := Some (c # l)\<rparr>) (?u\<lparr>allocs := as\<rparr>)"
  have put: "kl_put_first (p_children (tab_proc ?u 1)) c ?u = Some (Some (c # l), ?u\<lparr>allocs := as\<rparr>)"
    using assms(1,2) al by (intro kl_put_first_ok) (auto simp: in_tab_def)
  have "same_but_quiet s ?t" by (auto simp: same_but_quiet_def prio_of_def fun_eq_iff)
  then have "adopted [c] s ?t" using False assms(2) by (auto simp: adopted_def)
  moreover have "adopt_children (c # cs) s = adopt_children cs ?t" for cs
    using False assms(1) put by (simp add: Let_def)
  ultimately show ?thesis using al by (intro that [of ?t]) simp_all
qed

lemma adoptedD:
  assumes "adopted cs s s'"
  shows "same_but_quiet s s'"
    "p_state (tab_proc s' p) = (if p \<in> set cs \<and> p_state (tab_proc s p) = STATE_ZOMBIE then STATE_DEAD else p_state (tab_proc s p))"
    "p_pid_parent (tab_proc s' p) = (if p \<in> set cs \<and> p_state (tab_proc s p) \<noteq> STATE_ZOMBIE then 1 else p_pid_parent (tab_proc s p))"
    "p_pid_wait (tab_proc s' p) = p_pid_wait (tab_proc s p)"
    "p \<noteq> 1 \<Longrightarrow> p_children (tab_proc s' p) = p_children (tab_proc s p)"
    "p_children (tab_proc s' 1) = map_option (\<lambda>l. rev (filter (\<lambda>p. p_state (tab_proc s p) \<noteq> STATE_ZOMBIE) cs) @ l) (p_children (tab_proc s 1))"
    "p_killed (tab_proc s' p) = p_killed (tab_proc s p)"
    "p_val_ret (tab_proc s' p) = p_val_ret (tab_proc s p)"
  using assms unfolding adopted_def by blast+

lemma adopted_trans:
  assumes st: "adopted [c] s t" and tu: "adopted cs t u" and c: "c \<notin> set cs"
  shows "adopted (c # cs) s u"
  unfolding adopted_def
proof (intro conjI allI)
  show "same_but_quiet s u" using adoptedD(1) [OF st] adoptedD(1) [OF tu] by (rule same_but_quiet_trans)
next
  fix p
  show "p_state (tab_proc u p) = (if p \<in> set (c # cs) \<and> p_state (tab_proc s p) = STATE_ZOMBIE then STATE_DEAD else p_state (tab_proc s p))"
    using c by (auto simp: adoptedD(2) [OF st] adoptedD(2) [OF tu])
  show "p_pid_parent (tab_proc u p) = (if p \<in> set (c # cs) \<and> p_state (tab_proc s p) \<noteq> STATE_ZOMBIE then 1 else p_pid_parent (tab_proc s p))"
    using c by (auto simp: adoptedD(2) [OF st] adoptedD(3) [OF tu] adoptedD(3) [OF st])
  show "p_pid_wait (tab_proc u p) = p_pid_wait (tab_proc s p)"
    by (simp add: adoptedD(4) [OF st] adoptedD(4) [OF tu])
  show "p_killed (tab_proc u p) = p_killed (tab_proc s p)"
    by (simp add: adoptedD(7) [OF st] adoptedD(7) [OF tu])
  show "p_val_ret (tab_proc u p) = p_val_ret (tab_proc s p)"
    by (simp add: adoptedD(8) [OF st] adoptedD(8) [OF tu])
  show "p \<noteq> 1 \<longrightarrow> p_children (tab_proc u p) = p_children (tab_proc s p)"
    by (simp add: adoptedD(5) [OF st] adoptedD(5) [OF tu])
next
  have "filter (\<lambda>p. p_state (tab_proc t p) \<noteq> STATE_ZOMBIE) cs = filter (\<lambda>p. p_state (tab_proc s p) \<noteq> STATE_ZOMBIE) cs"
    using c by (intro filter_cong) (auto simp: adoptedD(2) [OF st])
  then show "p_children (tab_proc u 1) = map_option (\<lambda>l. rev (filter (\<lambda>p. p_state (tab_proc s p) \<noteq> STATE_ZOMBIE) (c # cs)) @ l) (p_children (tab_proc s 1))"
    by (simp add: adoptedD(6) [OF st] adoptedD(6) [OF tu] option.map_comp comp_def)
qed

lemma adopt_children_spec:
  assumes "\<forall>c \<in> set cs. in_tab c" and "distinct cs" and "p_children (tab_proc s 1) = Some l" and "usable_blocks (length cs) s"
  shows "\<exists>s'. adopt_children cs s = Some s' \<and> adopted cs s s'"
  using assms
proof (induction cs arbitrary: s l)
  case Nil
  have "adopted [] s s" by (simp add: adopted_def same_but_quiet_def option.map_ident)
  then show ?case by simp
next
  case (Cons c cs)
  have "usable_blocks 1 s" using Cons.prems(4) by (auto intro: usable_blocks_mono)
  then obtain t where t: "adopt_children [c] s = Some t" "adopted [c] s t" "allocs t = allocs s \<or> allocs t = tl (allocs s)"
    "\<And>cs. adopt_children (c # cs) s = adopt_children cs t"
    using Cons.prems(1,3) by (metis adopt_one list.set_intros(1))
  have "\<exists>l'. p_children (tab_proc t 1) = Some l'" using t(2) Cons.prems(3) by (auto simp: adopted_def)
  moreover have "usable_blocks (length cs) t"
  proof -
    from Cons.prems(4) obtain a as where "allocs s = a # as" "\<And>t. allocs t = as \<Longrightarrow> usable_blocks (length cs) t"
      by (auto elim: usable_blocks_Suc)
    moreover have "usable_blocks (length cs) s" using Cons.prems(4) by (auto intro: usable_blocks_mono)
    ultimately show ?thesis using t(3) by (auto simp: usable_blocks_def)
  qed
  ultimately obtain u where "adopt_children cs t = Some u" "adopted cs t u"
    using Cons.IH [of t] Cons.prems(1,2) by auto
  with t(2,4) Cons.prems(2) show ?case using adopted_trans by (metis distinct.simps(2))
qed

section \<open>The tree of processes\<close>

definition live :: "kstate \<Rightarrow> int \<Rightarrow> bool" where
  "live s p \<longleftrightarrow> valid_proc s p \<and> p_state (tab_proc s p) \<noteq> STATE_ZOMBIE \<and> p_state (tab_proc s p) \<noteq> STATE_DEAD"

definition kids :: "kstate \<Rightarrow> int \<Rightarrow> int set" where
  "kids s p = {c. valid_proc s c \<and> p_state (tab_proc s c) \<noteq> STATE_DEAD \<and> p_pid_parent (tab_proc s c) = p}"

text \<open>
  Init lives and has no father; the list of children of a process that lives holds, once each, the
  processes that have it as father and have not been buried; the father of every such process lives.
\<close>

definition tree_inv :: "kstate \<Rightarrow> bool" where
  "tree_inv s \<longleftrightarrow> live s 1 \<and> p_pid_parent (tab_proc s 1) = 0 \<and>
     (\<forall>p. live s p \<longrightarrow> (\<exists>cs. p_children (tab_proc s p) = Some cs \<and> distinct cs \<and> set cs = kids s p)) \<and>
     (\<forall>c. valid_proc s c \<and> p_state (tab_proc s c) \<noteq> STATE_DEAD \<longrightarrow>
        p_pid_parent (tab_proc s c) \<noteq> c \<and> (p_pid_parent (tab_proc s c) = 0 \<or> live s (p_pid_parent (tab_proc s c))))"

lemma tree_inv_cong:
  assumes "\<And>p. live s' p = live s p" and "\<And>p. kids s' p = kids s p"
    and "\<And>p. p_pid_parent (tab_proc s' p) = p_pid_parent (tab_proc s p)"
    and "\<And>p. p_children (tab_proc s' p) = p_children (tab_proc s p)"
    and "\<And>p. (valid_proc s' p \<and> p_state (tab_proc s' p) \<noteq> STATE_DEAD) = (valid_proc s p \<and> p_state (tab_proc s p) \<noteq> STATE_DEAD)"
  shows "tree_inv s' = tree_inv s"
  unfolding tree_inv_def assms ..

lemma sched_frame_not_dead:
  assumes "sched_frame s s'"
  shows "(valid_proc s' p \<and> p_state (tab_proc s' p) \<noteq> STATE_DEAD) = (valid_proc s p \<and> p_state (tab_proc s p) \<noteq> STATE_DEAD)"
    "p_state (tab_proc s' p) = STATE_ZOMBIE \<longleftrightarrow> p_state (tab_proc s p) = STATE_ZOMBIE"
    "p_state (tab_proc s' p) = STATE_DEAD \<longleftrightarrow> p_state (tab_proc s p) = STATE_DEAD"
proof -
  from assms obtain st v where t: "tab_proc s' p = (tab_proc s p)\<lparr>p_state := st, p_valide := v\<rparr>"
    "st = p_state (tab_proc s p) \<or> runnable_state st \<and> runnable_state (p_state (tab_proc s p))"
    "v = p_valide (tab_proc s p) \<or> p_state (tab_proc s p) = STATE_DEAD"
    unfolding sched_frame_def by blast
  then show "(valid_proc s' p \<and> p_state (tab_proc s' p) \<noteq> STATE_DEAD) = (valid_proc s p \<and> p_state (tab_proc s p) \<noteq> STATE_DEAD)"
    "p_state (tab_proc s' p) = STATE_ZOMBIE \<longleftrightarrow> p_state (tab_proc s p) = STATE_ZOMBIE"
    "p_state (tab_proc s' p) = STATE_DEAD \<longleftrightarrow> p_state (tab_proc s p) = STATE_DEAD"
    by (auto simp: valid_proc_def runnable_state_def)
qed

lemma tree_inv_frame:
  assumes fr: "sched_frame s s'"
  shows "tree_inv s' = tree_inv s" "live s' p = live s p" "kids s' p = kids s p"
proof -
  have live: "live s' p = live s p" for p
    using sched_frame_not_dead [OF fr, of p] by (auto simp: live_def)
  have kids: "kids s' p = kids s p" for p
    using sched_frame_not_dead(1) [OF fr] sched_frame_fields(2) [OF fr] by (auto simp: kids_def)
  show "tree_inv s' = tree_inv s"
    by (rule tree_inv_cong [OF live kids sched_frame_fields(2,3) [OF fr] sched_frame_not_dead(1) [OF fr]])
  show "live s' p = live s p" "kids s' p = kids s p" by (rule live, rule kids)
qed

lemma tree_invD:
  assumes "tree_inv s"
  shows "live s 1" "p_pid_parent (tab_proc s 1) = 0"
    "valid_proc s c \<Longrightarrow> p_state (tab_proc s c) \<noteq> STATE_DEAD \<Longrightarrow> p_pid_parent (tab_proc s c) \<noteq> c"
    "valid_proc s c \<Longrightarrow> p_state (tab_proc s c) \<noteq> STATE_DEAD \<Longrightarrow> p_pid_parent (tab_proc s c) = 0 \<or> live s (p_pid_parent (tab_proc s c))"
  using assms by (auto simp: tree_inv_def)

lemma tree_inv_children:
  assumes "tree_inv s" and "live s p"
  obtains cs where "p_children (tab_proc s p) = Some cs" "distinct cs" "set cs = kids s p"
  using assms by (auto simp: tree_inv_def)

text \<open>
  \<open>pid\<close>, which is not Init, ends: it becomes a zombie if its father is not Init and is buried
  otherwise, its children are treated as \<open>adopted\<close> says. \<open>s\<close> is the state before, \<open>t\<close> after.
\<close>

definition ended :: "int \<Rightarrow> int list \<Rightarrow> kstate \<Rightarrow> kstate \<Rightarrow> bool" where
  "ended pid cs s t \<longleftrightarrow> valid_proc t = valid_proc s \<and>
     p_state (tab_proc t pid) = (if p_pid_parent (tab_proc s pid) > 1 then STATE_ZOMBIE else STATE_DEAD) \<and>
     (\<forall>p. p \<noteq> pid \<longrightarrow> p \<in> set cs \<and> p_state (tab_proc s p) = STATE_ZOMBIE \<longrightarrow> p_state (tab_proc t p) = STATE_DEAD) \<and>
     (\<forall>p. p \<noteq> pid \<longrightarrow> \<not> (p \<in> set cs \<and> p_state (tab_proc s p) = STATE_ZOMBIE) \<longrightarrow>
        (p_state (tab_proc t p) = STATE_DEAD \<longleftrightarrow> p_state (tab_proc s p) = STATE_DEAD) \<and>
        (p_state (tab_proc t p) = STATE_ZOMBIE \<longleftrightarrow> p_state (tab_proc s p) = STATE_ZOMBIE)) \<and>
     (\<forall>p. p_pid_parent (tab_proc t p) = (if p \<in> set cs \<and> p_state (tab_proc s p) \<noteq> STATE_ZOMBIE then 1 else p_pid_parent (tab_proc s p))) \<and>
     (\<forall>p. p \<noteq> 1 \<longrightarrow> p_children (tab_proc t p) = p_children (tab_proc s p)) \<and>
     p_children (tab_proc t 1) = map_option (\<lambda>l. (if p_pid_parent (tab_proc s pid) > 1 then id else remove1 pid)
        (rev (filter (\<lambda>p. p_state (tab_proc s p) \<noteq> STATE_ZOMBIE) cs) @ l)) (p_children (tab_proc s 1))"

lemma ended_live:
  assumes "ended pid cs s t"
  shows "live t p \<longleftrightarrow> live s p \<and> p \<noteq> pid"
  using assms unfolding ended_def live_def by (metis proc_state.distinct)

lemma ended_not_dead:
  assumes "ended pid cs s t"
  shows "p \<noteq> pid \<Longrightarrow> (p_state (tab_proc t p) \<noteq> STATE_DEAD) =
    (p_state (tab_proc s p) \<noteq> STATE_DEAD \<and> \<not> (p \<in> set cs \<and> p_state (tab_proc s p) = STATE_ZOMBIE))"
  using assms unfolding ended_def by (metis proc_state.distinct)

lemma ended_kids:
  assumes en: "ended pid cs s t" and tr: "tree_inv s" and pid: "pid \<noteq> 1" "live s pid" "set cs = kids s pid"
  shows "live t p \<Longrightarrow> p \<noteq> 1 \<Longrightarrow> kids t p = kids s p"
    "kids t 1 = (kids s 1 \<union> {c \<in> kids s pid. p_state (tab_proc s c) \<noteq> STATE_ZOMBIE}) -
       (if p_pid_parent (tab_proc s pid) > 1 then {} else {pid})"
proof -
  have vld: "valid_proc t = valid_proc s" using en by (simp add: ended_def)
  have par: "p_pid_parent (tab_proc t c) = (if c \<in> kids s pid \<and> p_state (tab_proc s c) \<noteq> STATE_ZOMBIE then 1 else p_pid_parent (tab_proc s c))" for c
    using en pid(3) by (simp add: ended_def)
  have nd: "c \<noteq> pid \<Longrightarrow> p_state (tab_proc t c) \<noteq> STATE_DEAD \<longleftrightarrow>
      p_state (tab_proc s c) \<noteq> STATE_DEAD \<and> \<not> (c \<in> kids s pid \<and> p_state (tab_proc s c) = STATE_ZOMBIE)" for c
    using ended_not_dead [OF en, of c] pid(3) by simp
  have st: "p_state (tab_proc t pid) = (if p_pid_parent (tab_proc s pid) > 1 then STATE_ZOMBIE else STATE_DEAD)"
    using en by (simp add: ended_def)
  have self: "pid \<notin> kids s pid" "valid_proc s pid" "p_state (tab_proc s pid) \<noteq> STATE_DEAD"
    using tree_invD(3) [OF tr, of pid] pid(2) by (auto simp: kids_def live_def)
  show "kids t p = kids s p" if "live t p" "p \<noteq> 1"
  proof (rule set_eqI)
    fix c
    have p: "p \<noteq> pid" "1 < p" using that ended_live [OF en, of p] by (auto simp: live_def valid_proc_def in_tab_def)
    show "c \<in> kids t p \<longleftrightarrow> c \<in> kids s p"
    proof (cases "c = pid")
      case True
      with st self p that show ?thesis unfolding kids_def [of t] kids_def [of s p] vld by (auto simp: par)
    next
      case False
      have "c \<in> kids s pid \<Longrightarrow> p_pid_parent (tab_proc s c) = pid" by (simp add: kids_def)
      with False p that nd [of c] par [of c] show ?thesis unfolding kids_def [of t] kids_def [of s p] vld by auto
    qed
  qed
  show "kids t 1 = (kids s 1 \<union> {c \<in> kids s pid. p_state (tab_proc s c) \<noteq> STATE_ZOMBIE}) -
       (if p_pid_parent (tab_proc s pid) > 1 then {} else {pid})"
  proof (rule set_eqI)
    fix c
    show "c \<in> kids t 1 \<longleftrightarrow> c \<in> (kids s 1 \<union> {c \<in> kids s pid. p_state (tab_proc s c) \<noteq> STATE_ZOMBIE}) -
       (if p_pid_parent (tab_proc s pid) > 1 then {} else {pid})"
    proof (cases "c = pid")
      case True
      with st self show ?thesis unfolding kids_def [of t] kids_def [of s 1] vld by (simp add: par)
    next
      case False
      have "c \<in> kids s pid \<Longrightarrow> p_pid_parent (tab_proc s c) = pid \<and> valid_proc s c \<and> p_state (tab_proc s c) \<noteq> STATE_DEAD"
        by (simp add: kids_def)
      with False pid(1) nd [of c] par [of c] show ?thesis unfolding kids_def [of t] kids_def [of s 1] vld by auto
    qed
  qed
qed

lemma ended_tree_inv:
  assumes en: "ended pid cs s t" and tr: "tree_inv s" and pid: "pid \<noteq> 1" "live s pid" and cs: "set cs = kids s pid" "distinct cs"
  shows "tree_inv t"
proof -
  note live = ended_live [OF en] and kids = ended_kids [OF en tr pid cs(1)]
  have l1: "live s 1" "p_pid_parent (tab_proc s 1) = 0" using tr by (rule tree_invD)+
  have vld: "valid_proc t = valid_proc s" using en by (simp add: ended_def)
  have par: "p_pid_parent (tab_proc t c) = (if c \<in> kids s pid \<and> p_state (tab_proc s c) \<noteq> STATE_ZOMBIE then 1 else p_pid_parent (tab_proc s c))" for c
    using en cs(1) by (simp add: ended_def)
  have not1: "1 \<notin> kids s pid" using l1(2) pid(2) by (auto simp: kids_def live_def valid_proc_def in_tab_def)
  have "\<exists>l. p_children (tab_proc t p) = Some l \<and> distinct l \<and> set l = kids t p" if "live t p" for p
  proof (cases "p = 1")
    case False
    have "live s p" using that live by simp
    with tr obtain l where "p_children (tab_proc s p) = Some l" "distinct l" "set l = kids s p" by (rule tree_inv_children)
    then show ?thesis using False en kids(1) [OF that False] by (simp add: ended_def)
  next
    case True
    from tr l1(1) obtain l where l: "p_children (tab_proc s 1) = Some l" "distinct l" "set l = kids s 1" by (rule tree_inv_children)
    let ?l = "rev (filter (\<lambda>p. p_state (tab_proc s p) \<noteq> STATE_ZOMBIE) cs) @ l"
    have "set cs \<inter> set l = {}" using cs(1) l(3) pid(1) by (auto simp: kids_def)
    then have "distinct ?l" using cs(2) l(2) by auto
    moreover have "p_children (tab_proc t 1) = Some ((if p_pid_parent (tab_proc s pid) > 1 then id else remove1 pid) ?l)"
      using en l(1) by (simp add: ended_def)
    moreover have "set ?l = kids s 1 \<union> {c \<in> kids s pid. p_state (tab_proc s c) \<noteq> STATE_ZOMBIE}" using cs(1) l(3) by auto
    ultimately show ?thesis using True kids(2) by (auto simp: set_remove1_eq)
  qed
  moreover have "p_pid_parent (tab_proc t c) \<noteq> c \<and> (p_pid_parent (tab_proc t c) = 0 \<or> live t (p_pid_parent (tab_proc t c)))"
    if "valid_proc t c" "p_state (tab_proc t c) \<noteq> STATE_DEAD" for c
  proof -
    have v: "valid_proc s c" "p_state (tab_proc s c) \<noteq> STATE_DEAD"
      using that ended_not_dead [OF en, of c] pid(2) vld by (auto simp: live_def)
    have "c \<noteq> pid \<Longrightarrow> p_pid_parent (tab_proc s c) = pid \<Longrightarrow> p_state (tab_proc s c) \<noteq> STATE_ZOMBIE"
      using that ended_not_dead [OF en, of c] v cs(1) by (auto simp: kids_def)
    moreover have "c \<in> kids s pid \<longleftrightarrow> p_pid_parent (tab_proc s c) = pid" using v by (simp add: kids_def)
    ultimately show ?thesis
      using tree_invD(3,4) [OF tr v] l1 not1 pid(1) live unfolding par by auto
  qed
  ultimately show ?thesis using l1 live pid(1) not1 par unfolding tree_inv_def by auto
qed


section \<open>Termination of a process\<close>

lemma same_but_quietI_proc:
  assumes "\<And>c. p_valide (f c) = p_valide c \<and> p_pid (f c) = p_pid c \<and> p_sigs (f c) = p_sigs c \<and>
      p_sid_wait (f c) = p_sid_wait c \<and> p_priority (f c) = p_priority c \<and> p_state (f c) = p_state c"
  shows "same_but_quiet s (upd_proc p f s)"
  using assms by (auto simp: same_but_quiet_def prio_of_def fun_eq_iff)

lemma same_but_quiet_allocs: "same_but_quiet s (s\<lparr>allocs := as\<rparr>)"
  by (simp add: same_but_quiet_def prio_of_def fun_eq_iff)

lemma card_kids: "card (kids s p) \<le> 20"
proof -
  have "kids s p \<subseteq> {1..20}" by (auto simp: kids_def valid_proc_def in_tab_def NBPROC_def)
  then have "card (kids s p) \<le> card {1..20::int}" by (rule card_mono [rotated]) simp
  then show ?thesis by simp
qed

text \<open>Waking the father, if he waits, then adopting the children: the common part of \<^verbatim>\<open>exit\<close> and \<^verbatim>\<open>kill\<close>.\<close>

lemma orphan_children:
  assumes inv: "kinv u" and cs: "p_children (tab_proc u pid) = Some cs" "distinct cs" "\<forall>c \<in> set cs. in_tab c"
    and l: "p_children (tab_proc u 1) = Some l" and mem: "usable_blocks 21 u" and len: "length cs \<le> 20"
  obtains v w where "kl_iterator (p_children (tab_proc u pid)) u = Some (cs, v)" "adopt_children cs v = Some w"
    "kinv w" "adopted cs u w"
proof -
  have "usable_blocks (Suc 20) u" using mem by simp
  then obtain a as where al: "allocs u = a # as" "a \<noteq> 0" "\<And>t. allocs t = as \<Longrightarrow> usable_blocks 20 t"
    by (rule usable_blocks_Suc) blast
  let ?v = "u\<lparr>allocs := as\<rparr>"
  have "usable_blocks (length cs) ?v" using al(3) [of ?v] len by (auto intro: usable_blocks_mono)
  with adopt_children_spec [OF cs(3,2), of ?v l] l obtain w where w: "adopt_children cs ?v = Some w" "adopted cs ?v w" by auto
  have "adopted cs u w" using w(2) same_but_quiet_trans [OF same_but_quiet_allocs] by (auto simp: adopted_def)
  moreover from this have "kinv w" using inv same_but_quiet_kinv by (auto simp: adopted_def)
  moreover have "kl_iterator (p_children (tab_proc u pid)) u = Some (cs, ?v)"
    using cs(1) al by (simp add: kl_iterator_def mem_alloc_def Let_def)
  ultimately show ?thesis using w(1) that by blast
qed

lemma wake_father:
  assumes inv: "kinv s" and g: "\<And>c. p_valide (g c) = p_valide c \<and> p_pid (g c) = p_pid c \<and> p_sigs (g c) = p_sigs c \<and>
      p_sid_wait (g c) = p_sid_wait c \<and> p_priority (g c) = p_priority c \<and> p_state (g c) = p_state c"
    and f: "f > 1 \<Longrightarrow> valid_proc s f"
  obtains u where "(if f > 1 then do {
             assert_that (in_tab f);
             if father_waits f p s then map_option snd (wakeup_process f (upd_proc f g s)) else Some s
           } else Some s) = Some u"
    "kinv u" "pid_cour u = pid_cour s" "allocs u = allocs s"
    "tab_proc u = (if f > 1 \<and> father_waits f p s then (tab_proc s)(f := (g (tab_proc s f))\<lparr>p_state := STATE_ACTIVABLE\<rparr>) else tab_proc s)"
proof (cases "f > 1 \<and> father_waits f p s")
  case True
  let ?v = "upd_proc f g s"
  have v: "valid_proc s f" "in_tab f" using f True by (auto simp: valid_proc_def)
  have q: "same_but_quiet s ?v" by (rule same_but_quietI_proc) (rule g)
  have "kinv ?v" using q inv by (rule same_but_quiet_kinv)
  moreover have "valid_proc ?v f" using v same_but_quiet_valid [OF q] by simp
  moreover have "\<not> runnable_state (p_state (tab_proc ?v f))" "p_state (tab_proc ?v f) \<noteq> STATE_WAIT_SEM"
    using True g by (simp_all add: father_waits_def runnable_state_def)
  ultimately obtain x where x: "wakeup_process f ?v = Some (f, x)" "kinv x"
    "tab_proc x = (tab_proc ?v)(f := (tab_proc ?v f)\<lparr>p_state := STATE_ACTIVABLE\<rparr>)"
    "pid_cour x = pid_cour ?v" "nb_interrupt x = nb_interrupt ?v" "allocs x = allocs ?v"
    "semaphores x = semaphores ?v" "sid_libres x = sid_libres ?v" "umem x = umem ?v" "in_syscall x = in_syscall ?v"
    by (rule kinv_wakeup)
  show ?thesis using True v x by (intro that [of x]) (simp_all add: fun_eq_iff)
next
  case False
  then show ?thesis using inv f by (intro that [of s]) (auto simp: valid_proc_def)
qed

text \<open>The pieces put together: \<open>u\<close> before the adoption, \<open>w\<close> after it, \<open>t\<close> at the end.\<close>

lemma ended_intro:
  assumes ad: "adopted cs u w" and vld: "valid_proc t = valid_proc s"
    and u: "\<And>p. p_state (tab_proc u p) = STATE_ZOMBIE \<longleftrightarrow> p_state (tab_proc s p) = STATE_ZOMBIE"
      "\<And>p. p_state (tab_proc u p) = STATE_DEAD \<longleftrightarrow> p_state (tab_proc s p) = STATE_DEAD"
      "\<And>p. p_pid_parent (tab_proc u p) = p_pid_parent (tab_proc s p)"
      "\<And>p. p_children (tab_proc u p) = p_children (tab_proc s p)"
    and t: "p_state (tab_proc t pid) = (if p_pid_parent (tab_proc s pid) > 1 then STATE_ZOMBIE else STATE_DEAD)"
      "\<And>p. p \<noteq> pid \<Longrightarrow> p_state (tab_proc t p) = p_state (tab_proc w p)"
      "\<And>p. p_pid_parent (tab_proc t p) = p_pid_parent (tab_proc w p)"
      "\<And>p. p \<noteq> 1 \<Longrightarrow> p_children (tab_proc t p) = p_children (tab_proc w p)"
      "p_children (tab_proc t 1) = map_option (if p_pid_parent (tab_proc s pid) > 1 then id else remove1 pid) (p_children (tab_proc w 1))"
  shows "ended pid cs s t"
proof -
  note ad = adoptedD [OF ad]
  have "p_state (tab_proc t p) = STATE_DEAD" if "p \<noteq> pid" "p \<in> set cs \<and> p_state (tab_proc s p) = STATE_ZOMBIE" for p
    using t(2) [OF that(1)] ad(2) [of p] u(1) [of p] that(2) by simp
  moreover have "(p_state (tab_proc t p) = STATE_DEAD \<longleftrightarrow> p_state (tab_proc s p) = STATE_DEAD) \<and>
      (p_state (tab_proc t p) = STATE_ZOMBIE \<longleftrightarrow> p_state (tab_proc s p) = STATE_ZOMBIE)"
    if "p \<noteq> pid" "\<not> (p \<in> set cs \<and> p_state (tab_proc s p) = STATE_ZOMBIE)" for p
    using t(2) [OF that(1)] ad(2) [of p] u(1,2) [of p] that(2) by auto
  moreover have "p_pid_parent (tab_proc t p) = (if p \<in> set cs \<and> p_state (tab_proc s p) \<noteq> STATE_ZOMBIE then 1 else p_pid_parent (tab_proc s p))" for p
    using t(3) [of p] ad(3) [of p] u(1,3) [of p] by simp
  moreover have "p_children (tab_proc t p) = p_children (tab_proc s p)" if "p \<noteq> 1" for p
    using t(4) [OF that] ad(5) [OF that] u(4) [of p] by simp
  moreover have "p_children (tab_proc t 1) = map_option (\<lambda>l. (if p_pid_parent (tab_proc s pid) > 1 then id else remove1 pid)
        (rev (filter (\<lambda>p. p_state (tab_proc s p) \<noteq> STATE_ZOMBIE) cs) @ l)) (p_children (tab_proc s 1))"
    using t(5) ad(6) u(1,4) by (simp add: option.map_comp comp_def)
  ultimately show ?thesis using vld t(1) unfolding ended_def by blast
qed

lemma exit_spec:
  assumes inv: "kinv s" and tr: "tree_inv s" and run: "running s" and pid: "pid_cour s \<noteq> 0" "pid_cour s \<noteq> 1"
    and mem: "usable_blocks 21 s"
  obtains t s' cs where "exit retval s = Some s'" "kinv s'" "sched_post s'" "sched_frame t s'" "ended (pid_cour s) cs s t"
    "distinct cs" "set cs = kids s (pid_cour s)" "tree_inv s'"
    "p_pid_parent (tab_proc s (pid_cour s)) > 1 \<Longrightarrow> p_val_ret (tab_proc s' (pid_cour s)) = retval \<and>
      p_killed (tab_proc s' (pid_cour s)) = p_killed (tab_proc s (pid_cour s))"
    "p_pid_parent (tab_proc s (pid_cour s)) > 1 \<Longrightarrow> father_waits (p_pid_parent (tab_proc s (pid_cour s))) (pid_cour s) s \<Longrightarrow>
      runnable_state (p_state (tab_proc s' (p_pid_parent (tab_proc s (pid_cour s))))) \<and>
      p_pid_wait (tab_proc s' (p_pid_parent (tab_proc s (pid_cour s)))) = pid_cour s"
    "\<And>q. runnable_state (p_state (tab_proc t q)) \<Longrightarrow> q \<noteq> pid_cour s \<and>
      (runnable_state (p_state (tab_proc s q)) \<or> q = p_pid_parent (tab_proc s (pid_cour s)))"
    "\<And>q. q \<noteq> pid_cour s \<Longrightarrow> p_state (tab_proc s q) = STATE_WAIT_CHILD \<Longrightarrow>
      \<not> (q > 1 \<and> q = p_pid_parent (tab_proc s (pid_cour s)) \<and> father_waits q (pid_cour s) s) \<Longrightarrow>
      p_state (tab_proc t q) = STATE_WAIT_CHILD \<and> p_pid_wait (tab_proc t q) = p_pid_wait (tab_proc s q)"
    "\<And>q. p_state (tab_proc s q) \<noteq> STATE_WAIT_CHILD \<Longrightarrow>
      p_state (tab_proc t q) \<noteq> STATE_WAIT_CHILD \<and> p_pid_wait (tab_proc t q) = p_pid_wait (tab_proc s q)"
    "\<And>q. q \<noteq> pid_cour s \<Longrightarrow> p_val_ret (tab_proc s' q) = p_val_ret (tab_proc s q) \<and> p_killed (tab_proc s' q) = p_killed (tab_proc s q)"
proof -
  let ?p = "pid_cour s" and ?f = "p_pid_parent (tab_proc s (pid_cour s))"
  note cur = kinv_current [OF inv run pid(1)]
  have lv: "live s ?p" using cur by (simp add: live_def)
  have par: "?f \<noteq> ?p" "?f = 0 \<or> live s ?f" using tree_invD(3,4) [OF tr, of ?p] cur by simp_all
  obtain cs where cs: "p_children (tab_proc s ?p) = Some cs" "distinct cs" "set cs = kids s ?p"
    using tr lv by (rule tree_inv_children)
  obtain l where l: "p_children (tab_proc s 1) = Some l" "distinct l" "set l = kids s 1"
    using tr tree_invD(1) [OF tr] by (rule tree_inv_children)
  have notp: "?p \<notin> set cs" using cs(3) par by (simp add: kids_def)
  let ?w = "?f > 1 \<and> father_waits ?f ?p s"
  obtain u where u: "(if ?f > 1 then do {
             assert_that (in_tab ?f);
             if father_waits ?f ?p s
             then map_option snd (wakeup_process ?f (upd_proc ?f (\<lambda>c. c\<lparr>p_pid_wait := ?p\<rparr>) s))
             else Some s
           } else Some s) = Some u"
    and ku: "kinv u" and fu: "pid_cour u = ?p" "allocs u = allocs s"
    and tu: "tab_proc u = (if ?w then (tab_proc s)(?f := (tab_proc s ?f)\<lparr>p_pid_wait := ?p, p_state := STATE_ACTIVABLE\<rparr>) else tab_proc s)"
    by (rule wake_father [OF inv, of "\<lambda>c. c\<lparr>p_pid_wait := ?p\<rparr>" ?f ?p]) (use par in \<open>auto simp: live_def\<close>)
  \<comment> \<open>the children are adopted\<close>
  have cu: "p_children (tab_proc u p) = p_children (tab_proc s p)" for p using tu by simp
  have "\<forall>c \<in> set cs. in_tab c" using cs(3) by (simp add: kids_def valid_proc_def)
  moreover have "length cs \<le> 20" using card_kids [of s ?p] cs distinct_card [of cs] by simp
  moreover have "usable_blocks 21 u" using mem fu(2) by (simp add: usable_blocks_def)
  ultimately obtain v w where vw: "kl_iterator (p_children (tab_proc u ?p)) u = Some (cs, v)" "adopt_children cs v = Some w"
    "kinv w" "adopted cs u w"
    using orphan_children [OF ku, of ?p cs l] cs l cu by metis
  note ad = adoptedD [OF vw(4)]
  have su: "p_state (tab_proc u p) = (if ?w \<and> p = ?f then STATE_ACTIVABLE else p_state (tab_proc s p))" for p using tu by simp
  have wz: "?w \<Longrightarrow> p_state (tab_proc s ?f) = STATE_WAIT_CHILD" by (simp add: father_waits_def)
  have zu: "p_state (tab_proc u p) = STATE_ZOMBIE \<longleftrightarrow> p_state (tab_proc s p) = STATE_ZOMBIE" for p using su wz by auto
  have du: "p_state (tab_proc u p) = STATE_DEAD \<longleftrightarrow> p_state (tab_proc s p) = STATE_DEAD" for p using su wz by auto
  have pw: "pid_cour w = ?p" using ad(1) fu(1) by (simp add: same_but_quiet_def)
  have sw: "p_state (tab_proc w ?p) = STATE_ACTIVE" using ad(2) [of ?p] notp su [of ?p] par(1) cur(3) by simp
  have lw: "p_children (tab_proc w 1) = Some (rev (filter (\<lambda>p. p_state (tab_proc s p) \<noteq> STATE_ZOMBIE) cs) @ l)"
    using ad(6) cu l(1) zu by simp
  \<comment> \<open>the process ends\<close>
  define st where "st = (if ?f > 1 then STATE_ZOMBIE else STATE_DEAD)"
  have kx: "kinv (upd_proc ?p (\<lambda>c. c\<lparr>p_state := st\<rparr>) w)" (is "kinv ?x")
    using vw(3) sw by (rule kinv_block) (simp_all add: st_def runnable_state_def)
  define t where "t = (if ?f > 1 then upd_proc ?p (\<lambda>c. c\<lparr>p_state := STATE_ZOMBIE, p_val_ret := retval\<rparr>) w
     else upd_proc 1 (\<lambda>c. c\<lparr>p_children := Some (remove1 ?p (rev (filter (\<lambda>p. p_state (tab_proc s p) \<noteq> STATE_ZOMBIE) cs) @ l))\<rparr>)
            (upd_proc ?p (\<lambda>c. c\<lparr>p_state := STATE_DEAD\<rparr>) w))"
  have "same_but_quiet ?x t" unfolding t_def st_def same_but_quiet_def prio_of_def by (auto simp: fun_eq_iff)
  then have kt: "kinv t" using kx by (rule same_but_quiet_kinv)
  then obtain s' where s': "scheduler t = Some s'" "kinv s'" "sched_post s'" "sched_frame t s'" by (rule scheduler_kinv)
  have "(if ?f > 1
           then Some (upd_proc ?p (\<lambda>c. c\<lparr>p_state := STATE_ZOMBIE, p_val_ret := retval\<rparr>) w)
           else do {
             let s = upd_proc ?p (\<lambda>c. c\<lparr>p_state := STATE_DEAD\<rparr>) w;
             (r, l) \<leftarrow> kl_delete (p_children (tab_proc s 1)) ?p;
             Some (upd_proc 1 (\<lambda>c. c\<lparr>p_children := l\<rparr>) s) }) = Some t"
    unfolding t_def using lw pid(2) by (simp add: kl_delete_def seq_delete_def remove1_idem Let_def)
  then have ex: "exit retval s = Some s'" unfolding exit_def using cur(1) u vw(1,2) s'(1) by (simp add: Let_def)
  \<comment> \<open>the tree\<close>
  have vt: "valid_proc t = valid_proc s"
    using same_but_quiet_valid [OF ad(1)] unfolding t_def valid_proc_def tu by (auto simp: fun_eq_iff split: if_splits)
  have en: "ended ?p cs s t"
    by (rule ended_intro [OF vw(4) vt zu du _ cu]) (use tu lw pid(2) in \<open>auto simp: t_def\<close>)
  have "tree_inv t" using en tr pid(2) lv cs(3,2) by (rule ended_tree_inv)
  then have "tree_inv s'" using tree_inv_frame(1) [OF s'(4)] by simp
  moreover have "p_val_ret (tab_proc s' ?p) = retval \<and> p_killed (tab_proc s' ?p) = p_killed (tab_proc s ?p)" if "?f > 1"
    using sched_frame_fields(6,9) [OF s'(4), of ?p] that ad(7) [of ?p] tu by (simp add: t_def)
  moreover have "runnable_state (p_state (tab_proc s' ?f)) \<and> p_pid_wait (tab_proc s' ?f) = ?p" if "?f > 1" "father_waits ?f ?p s"
  proof -
    have "p_state (tab_proc t ?f) = STATE_ACTIVABLE" "p_pid_wait (tab_proc t ?f) = ?p"
      using that par(1) ad(2,4) [of ?f] su tu by (auto simp: t_def)
    then show ?thesis using sched_frame_runnable_state [OF s'(4), of ?f] sched_frame_fields(4) [OF s'(4)]
      by (simp add: runnable_state_def)
  qed
  moreover have "q \<noteq> ?p \<and> (runnable_state (p_state (tab_proc s q)) \<or> q = ?f)" if "runnable_state (p_state (tab_proc t q))" for q
    using that ad(2) [of q] su [of q] by (auto simp: t_def runnable_state_def split: if_splits)
  moreover have "p_state (tab_proc t q) = STATE_WAIT_CHILD \<and> p_pid_wait (tab_proc t q) = p_pid_wait (tab_proc s q)"
    if "q \<noteq> ?p" "p_state (tab_proc s q) = STATE_WAIT_CHILD" "\<not> (q > 1 \<and> q = ?f \<and> father_waits q ?p s)" for q
    using that ad(2,4) [of q] su [of q] tu by (auto simp: t_def)
  moreover have "p_state (tab_proc t q) \<noteq> STATE_WAIT_CHILD \<and> p_pid_wait (tab_proc t q) = p_pid_wait (tab_proc s q)"
    if "p_state (tab_proc s q) \<noteq> STATE_WAIT_CHILD" for q
    using that ad(2,4) [of q] su [of q] tu wz by (auto simp: t_def)
  moreover have "p_val_ret (tab_proc s' q) = p_val_ret (tab_proc s q) \<and> p_killed (tab_proc s' q) = p_killed (tab_proc s q)" if "q \<noteq> ?p" for q
  proof -
    have "p_val_ret (tab_proc t q) = p_val_ret (tab_proc w q)" "p_killed (tab_proc t q) = p_killed (tab_proc w q)"
      using that by (auto simp: t_def)
    moreover have "p_val_ret (tab_proc u q) = p_val_ret (tab_proc s q)" "p_killed (tab_proc u q) = p_killed (tab_proc s q)"
      by (auto simp: tu)
    ultimately show ?thesis using sched_frame_fields(6,9) [OF s'(4), of q] ad(7,8) [of q] by simp
  qed
  ultimately show ?thesis using ex s' en cs(2,3) by (intro that [of s' t cs]) blast+
qed


lemma reap_child_spec:
  assumes inv: "kinv s" and tr: "tree_inv s" and cur: "live s (pid_cour s)" and c: "c \<in> kids s (pid_cour s)"
    and z: "p_state (tab_proc s c) = STATE_ZOMBIE"
  obtains s' where "reap_child c retvalp s = Some (c, s')" "kinv s'" "tree_inv s'" "pid_cour s' = pid_cour s"
    "p_state (tab_proc s' c) = STATE_DEAD" "kids s' (pid_cour s) = kids s (pid_cour s) - {c}"
    "retvalp \<noteq> 0 \<longrightarrow> umem s' retvalp = (if p_killed (tab_proc s c) = 1 then 0 else word_of_int (p_val_ret (tab_proc s c)))"
    "\<And>p. p \<noteq> c \<Longrightarrow> p_state (tab_proc s' p) = p_state (tab_proc s p)" "\<And>p. p_pid_wait (tab_proc s' p) = p_pid_wait (tab_proc s p)"
    "\<And>p. p_pid_parent (tab_proc s' p) = p_pid_parent (tab_proc s p)" "valid_proc s' = valid_proc s" "prio_of s' = prio_of s"
    "\<And>p. p_val_ret (tab_proc s' p) = p_val_ret (tab_proc s p) \<and> p_killed (tab_proc s' p) = p_killed (tab_proc s p)"
proof -
  let ?p = "pid_cour s"
  obtain cs where cs: "p_children (tab_proc s ?p) = Some cs" "distinct cs" "set cs = kids s ?p"
    using tr cur by (rule tree_inv_children)
  have cp: "c \<noteq> ?p" "valid_proc s c" "p_pid_parent (tab_proc s c) = ?p" using c cur z by (auto simp: kids_def live_def)
  define u where "u = (if retvalp \<noteq> 0
     then s\<lparr>umem := (umem s)(retvalp := (if p_killed (tab_proc s c) = 1 then 0 else word_of_int (p_val_ret (tab_proc s c))))\<rparr> else s)"
  define t where "t = upd_proc ?p (\<lambda>x. x\<lparr>p_children := Some (remove1 c cs)\<rparr>) (upd_proc c (\<lambda>x. x\<lparr>p_state := STATE_DEAD\<rparr>) u)"
  have u: "tab_proc u = tab_proc s" "pid_cour u = ?p" by (simp_all add: u_def)
  have tab: "tab_proc t p = (if p = ?p then (tab_proc s p)\<lparr>p_children := Some (remove1 c cs)\<rparr>
      else if p = c then (tab_proc s p)\<lparr>p_state := STATE_DEAD\<rparr> else tab_proc s p)" for p
    using cp(1) by (simp add: t_def u)
  have "in_tab c" "in_tab ?p" using cp(2) cur by (simp_all add: valid_proc_def live_def)
  then have "reap_child c retvalp s = Some (c, t)"
    using cs(1) c cs(3) cp(1) u by (simp add: reap_child_def Let_def u_def [symmetric] kl_delete_def seq_delete_def t_def)
  moreover have "same_but_quiet s t" using z by (auto simp: same_but_quiet_def tab prio_of_def fun_eq_iff) (simp_all add: t_def u_def)
  then have "kinv t" "valid_proc t = valid_proc s" using inv same_but_quiet_kinv same_but_quiet_valid by blast+
  moreover from this have live: "live t p = live s p" for p using z by (simp add: live_def tab)
  moreover from \<open>valid_proc t = valid_proc s\<close> have kids: "kids t p = kids s p - {c}" for p using cp(1) by (auto simp: kids_def tab)
  have "\<exists>l. p_children (tab_proc t p) = Some l \<and> distinct l \<and> set l = kids t p" if "live t p" for p
  proof (cases "p = ?p")
    case True
    then show ?thesis using cs by (simp add: tab kids)
  next
    case False
    have "live s p" using that live by simp
    with tr obtain l where "p_children (tab_proc s p) = Some l" "distinct l" "set l = kids s p" by (rule tree_inv_children)
    moreover have "c \<notin> kids s p" using False cp(3) by (simp add: kids_def)
    ultimately show ?thesis using False by (auto simp: tab kids)
  qed
  then have "tree_inv t"
    using tree_invD [OF tr] live \<open>valid_proc t = valid_proc s\<close> cp unfolding tree_inv_def by (auto simp: tab split: if_splits)
  moreover have "umem t retvalp = (if p_killed (tab_proc s c) = 1 then 0 else word_of_int (p_val_ret (tab_proc s c)))" if "retvalp \<noteq> 0"
    using that by (simp add: t_def u_def)
  moreover have "pid_cour t = ?p" by (simp add: t_def u)
  moreover have "prio_of t = prio_of s" by (auto simp: prio_of_def tab fun_eq_iff)
  ultimately show ?thesis using kids cp(1) by (intro that [of t]) (simp_all add: tab)
qed

section \<open>Change of priority\<close>

lemma sorted_map_cong_upd:
  "sorted (map f xs) \<Longrightarrow> (\<And>x. x \<in> set xs \<Longrightarrow> g x = f x) \<Longrightarrow> sorted (map g xs)"
  by (metis map_cong)

text \<open>A process in the ready queue is taken out and put back with its new priority.\<close>

lemma requeue:
  assumes rdy: "ready s xs" and p: "p \<in> set xs" and pid: "\<And>q. q \<in> set xs \<Longrightarrow> p_pid (tab_proc s q) = q"
    and new: "s1 = upd_proc p (\<lambda>c. c\<lparr>p_priority := n\<rparr>) s"
  obtains L where "do { es \<leftarrow> queue_for_each (k_links s1) 0 0;
      case find (\<lambda>e. p_pid (tab_proc s1 e) = p) es of
        Some e \<Rightarrow> do { L \<leftarrow> queue_del e (k_links s1); L \<leftarrow> queue_add (prio_of s1) 0 e L; Some (s1\<lparr>k_links := L\<rparr>) }
      | None \<Rightarrow> Some s1 } = Some (s1\<lparr>k_links := L\<rparr>)"
    "ready (s1\<lparr>k_links := L\<rparr>) (prio_insert (prio_of s1) p (remove1 p xs))"
proof -
  have dll: "dll (k_links s) 0 xs" and srt: "sorted (map (prio_of s) xs)" and st: "set xs = activable s"
    using rdy by (simp_all add: ready_def queue_rep_def)
  have dst: "distinct xs" "0 \<notin> set xs" using ready_distinct [OF rdy] by simp_all
  have k: "k_links s1 = k_links s" by (simp add: new)
  have pr: "prio_of s1 = (prio_of s)(p := n)" by (auto simp: new prio_of_def)
  have all: "queue_for_each (k_links s1) 0 0 = Some xs" unfolding k using dll by (rule queue_for_each_dll)
  have "find (\<lambda>e. p_pid (tab_proc s1 e) = p) xs = Some p"
  proof -
    have "find (\<lambda>e. p_pid (tab_proc s1 e) = p) xs = find (\<lambda>e. e = p) xs"
      using pid by (intro find_cong) (auto simp: new)
    also have "\<dots> = Some p" using p by (induction xs) auto
    finally show ?thesis .
  qed
  moreover obtain L1 where L1: "queue_del p (k_links s1) = Some L1" "dll L1 0 (remove1 p xs)"
    "L1 p = \<lparr>q_prev = None, q_next = None\<rparr>" "\<forall>x. x \<notin> set (0 # xs) \<longrightarrow> L1 x = k_links s1 x"
    unfolding k using dll p by (rule queue_del_dll)
  have "sorted (map (prio_of s) (remove1 p xs))" using srt by (rule sorted_map_remove1)
  then have "sorted (map (prio_of s1) (remove1 p xs))"
    by (rule sorted_map_cong_upd) (use dst in \<open>auto simp: pr\<close>)
  then have "queue_rep (prio_of s1) 0 L1 (remove1 p xs)" using L1(2) by (simp add: queue_rep_def)
  moreover have "queue_free 0 L1 p" using L1(3) p dst by (auto simp: queue_free_def)
  moreover have "p \<notin> set (remove1 p xs)" using dst by simp
  ultimately obtain L where L: "queue_add (prio_of s1) 0 p L1 = Some L"
    "queue_rep (prio_of s1) 0 L (prio_insert (prio_of s1) p (remove1 p xs))" using lq.add_law by blast
  have act: "activable s1 = activable s" by (auto simp: new activable_def valid_proc_def)
  have "ready (s1\<lparr>k_links := L\<rparr>) (prio_insert (prio_of s1) p (remove1 p xs))"
    using L(2) st dst p by (auto simp: ready_def act)
  with L(1) L1(1) all \<open>find (\<lambda>e. p_pid (tab_proc s1 e) = p) xs = Some p\<close> show ?thesis
    by (intro that [of L]) simp_all
qed

lemma requeue_if_ready:
  assumes rdy: "ready s xs" and p: "valid_proc s p" and pid: "\<And>q. q \<in> set xs \<Longrightarrow> p_pid (tab_proc s q) = q"
    and new: "s1 = upd_proc p (\<lambda>c. c\<lparr>p_priority := n\<rparr>) s"
  obtains L ys where "(if p_state (tab_proc s1 p) = STATE_ACTIVABLE then do {
      es \<leftarrow> queue_for_each (k_links s1) 0 0;
      case find (\<lambda>e. p_pid (tab_proc s1 e) = p) es of
        Some e \<Rightarrow> do { L \<leftarrow> queue_del e (k_links s1); L \<leftarrow> queue_add (prio_of s1) 0 e L; Some (s1\<lparr>k_links := L\<rparr>) }
      | None \<Rightarrow> Some s1 } else Some s1) = Some (s1\<lparr>k_links := L\<rparr>)"
    "ready (s1\<lparr>k_links := L\<rparr>) ys"
proof (cases "p_state (tab_proc s p) = STATE_ACTIVABLE")
  case True
  then have "p \<in> set xs" using rdy p by (simp add: ready_def activable_def)
  then obtain L where L: "do { es \<leftarrow> queue_for_each (k_links s1) 0 0;
      case find (\<lambda>e. p_pid (tab_proc s1 e) = p) es of
        Some e \<Rightarrow> do { L \<leftarrow> queue_del e (k_links s1); L \<leftarrow> queue_add (prio_of s1) 0 e L; Some (s1\<lparr>k_links := L\<rparr>) }
      | None \<Rightarrow> Some s1 } = Some (s1\<lparr>k_links := L\<rparr>)"
    "ready (s1\<lparr>k_links := L\<rparr>) (prio_insert (prio_of s1) p (remove1 p xs))"
    using pid new by (rule requeue [OF rdy])
  have a: "p_state (tab_proc s1 p) = STATE_ACTIVABLE" using True by (simp add: new)
  show ?thesis by (rule that [OF _ L(2)]) (subst if_P [OF a], rule L(1))
next
  case False
  have pr: "prio_of s1 = (prio_of s)(p := n)" by (auto simp: new prio_of_def)
  have act: "activable s1 = activable s" by (auto simp: new activable_def valid_proc_def)
  have notin: "p \<notin> set xs" using False rdy by (auto simp: ready_def activable_def)
  have "sorted (map (prio_of s) xs)" using rdy by (simp add: ready_def queue_rep_def)
  then have "sorted (map (prio_of s1) xs)"
    by (rule sorted_map_cong_upd) (use notin in \<open>auto simp: pr\<close>)
  then have "ready (s1\<lparr>k_links := k_links s\<rparr>) xs" using rdy act by (simp add: ready_def queue_rep_def)
  moreover have "s1\<lparr>k_links := k_links s\<rparr> = s1" by (simp add: new upd_proc_def)
  moreover have "p_state (tab_proc s1 p) \<noteq> STATE_ACTIVABLE" using False by (simp add: new)
  ultimately show ?thesis by (intro that [of "k_links s" xs]) simp_all
qed

lemma chprio_spec:
  assumes inv: "kinv s" and lv: "live s p" and n: "0 < n" "n \<le> MAXPRIO"
  obtains s' where "chprio p n s = Some (p_priority (tab_proc s p), s')" "kinv s'" "sched_post s'"
    "prio_of s' = (prio_of s)(p := n)" "same_tree s s'"
proof -
  have p: "valid_proc s p" "in_tab p" "p_valide (tab_proc s p) = 1"
    "p_state (tab_proc s p) \<noteq> STATE_ZOMBIE" "p_state (tab_proc s p) \<noteq> STATE_DEAD"
    using lv by (simp_all add: live_def valid_proc_def)
  have sch: "sched_inv s" "no_sigs s" "sem_inv s" using inv by (simp_all add: kinv_def)
  show ?thesis
  proof (cases "n = p_priority (tab_proc s p)")
    case True
    from inv obtain s' where s': "scheduler s = Some s'" "kinv s'" "sched_post s'" "sched_frame s s'" by (rule scheduler_kinv)
    moreover have "prio_of s' = (prio_of s)(p := n)" using sched_frame_simps(5) [OF s'(4)] True by (auto simp: prio_of_def)
    moreover have "same_tree s s'" using s'(4) by (rule same_tree_frame)
    ultimately show ?thesis using True p n by (intro that [of s']) (simp_all add: chprio_def Let_def)
  next
    case False
    let ?s1 = "upd_proc p (\<lambda>c. c\<lparr>p_priority := n\<rparr>) s"
    obtain xs where rdy: "ready s xs" using sch(1) by (rule sched_inv_ready)
    have pr: "prio_of ?s1 = (prio_of s)(p := n)" by (auto simp: prio_of_def)
    have act: "activable ?s1 = activable s" "blocked_on ?s1 = blocked_on s" "valid_proc ?s1 = valid_proc s"
      by (auto simp: activable_def valid_proc_def blocked_on_def fun_eq_iff)
    have pids: "q \<in> set xs \<Longrightarrow> p_pid (tab_proc s q) = q" for q
      using rdy sched_invD(2) [OF sch(1), of q] by (simp add: ready_def activable_def)
    obtain L ys where L: "(if p_state (tab_proc ?s1 p) = STATE_ACTIVABLE then do {
               es \<leftarrow> queue_for_each (k_links ?s1) 0 0;
               case find (\<lambda>e. p_pid (tab_proc ?s1 e) = p) es of
                 Some e \<Rightarrow> do { L \<leftarrow> queue_del e (k_links ?s1); L \<leftarrow> queue_add (prio_of ?s1) 0 e L; Some (?s1\<lparr>k_links := L\<rparr>) }
               | None \<Rightarrow> Some ?s1
             } else Some ?s1) = Some (?s1\<lparr>k_links := L\<rparr>)" "ready (?s1\<lparr>k_links := L\<rparr>) ys"
      by (rule requeue_if_ready [OF rdy p(1) pids refl])
    let ?t = "?s1\<lparr>k_links := L\<rparr>"
    have vt: "valid_proc ?t = valid_proc s" using act(3) by simp
    have "sched_inv ?t"
      using L(2) by (rule sched_invI) (use sched_invD [OF sch(1)] in \<open>auto simp: act(3)\<close>)
    moreover have "no_sigs ?t" using sch(2) unfolding no_sigs_def vt by simp
    moreover have "blocked_on ?t = blocked_on ?s1" by (simp add: blocked_on_def fun_eq_iff)
    then have "blocked_on ?t = blocked_on s" using act(2) by simp
    then have "sem_inv ?t" using sch(3) sem_inv_cong [of ?t s] by simp
    ultimately have "kinv ?t" by (simp add: kinv_def)
    then obtain s' where s': "scheduler ?t = Some s'" "kinv s'" "sched_post s'" "sched_frame ?t s'" by (rule scheduler_kinv)
    have "chprio p n s = Some (p_priority (tab_proc s p), s')"
      unfolding chprio_def using p n False L(1) s'(1) by (simp add: Let_def)
    moreover have "prio_of s' = (prio_of s)(p := n)" using sched_frame_simps(5) [OF s'(4)] pr by simp
    moreover have "same_tree s ?t" by (simp add: same_tree_def)
    then have "same_tree s s'" using same_tree_frame [OF s'(4)] by (rule same_tree_trans)
    ultimately show ?thesis using s' by (intro that [of s']) simp_all
  qed
qed

lemma sched_frame_back:
  assumes "sched_frame s s'" and "valid_proc s' p" and "p_state (tab_proc s' p) = STATE_ACTIVE"
  shows "runnable_state (p_state (tab_proc s p)) \<and> valid_proc s p"
proof -
  from assms(1) obtain st v where t: "tab_proc s' p = (tab_proc s p)\<lparr>p_state := st, p_valide := v\<rparr>"
    "st = p_state (tab_proc s p) \<or> runnable_state st \<and> runnable_state (p_state (tab_proc s p))"
    "v = p_valide (tab_proc s p) \<or> p_state (tab_proc s p) = STATE_DEAD"
    unfolding sched_frame_def by blast
  then show ?thesis using assms(2,3) by (auto simp: valid_proc_def runnable_state_def)
qed

section \<open>Properties\<close>

text \<open>
  Init (1) has the children 3 and 6, 6 waits for its child 2, which runs and has the children 4, a zombie,
  and 5.
\<close>

definition ex_tree :: kstate where
  "ex_tree = ex_kernel\<lparr>pid_cour := 2, allocs := replicate 21 4096,
     tab_proc := (\<lambda>p. ex_ctx\<lparr>p_pid := p, p_valide := (if 1 \<le> p \<and> p \<le> 6 then 1 else 0),
       p_state := (if p = 2 then STATE_ACTIVE else if p = 4 then STATE_ZOMBIE else STATE_WAIT_CHILD),
       p_pid_wait := -1,
       p_pid_parent := (if p = 2 then 6 else if p = 4 \<or> p = 5 then 2 else if p = 1 then 0 else 1),
       p_children := Some (if p = 1 then [6, 3] else if p = 2 then [5, 4] else if p = 6 then [2] else [])\<rparr>),
     k_links := (\<lambda>k. if k = 0 then \<lparr>q_prev = Some 0, q_next = Some 0\<rparr> else \<lparr>q_prev = None, q_next = None\<rparr>)\<rparr>"

lemma ex_tree_proc [simp]:
  "pid_cour ex_tree = 2" "p_pid (tab_proc ex_tree p) = p" "p_pid_wait (tab_proc ex_tree p) = -1" "p_killed (tab_proc ex_tree p) = 0"
  "p_state (tab_proc ex_tree p) = (if p = 2 then STATE_ACTIVE else if p = 4 then STATE_ZOMBIE else STATE_WAIT_CHILD)"
  "p_pid_parent (tab_proc ex_tree p) = (if p = 2 then 6 else if p = 4 \<or> p = 5 then 2 else if p = 1 then 0 else 1)"
  "p_children (tab_proc ex_tree p) = Some (if p = 1 then [6, 3] else if p = 2 then [5, 4] else if p = 6 then [2] else [])"
  "p_sigs (tab_proc ex_tree p) = Some []" "prio_of ex_tree p = 1" "sid_libres ex_tree = Some [0..NBSEM - 1]"
  "s_valide (semaphores ex_tree i) = 0"
  "valid_proc ex_tree p \<longleftrightarrow> 1 \<le> p \<and> p \<le> 6"
  by (auto simp: ex_tree_def ex_ctx_def prio_of_def valid_proc_def in_tab_def NBPROC_def)

lemma ex_tree_kinv [simp]: "kinv ex_tree" "running ex_tree"
proof -
  have act: "activable ex_tree = {}" by (auto simp: activable_def)
  have "dll (k_links ex_tree) 0 []" by (simp add: dll_def ex_tree_def)
  then have "ready ex_tree []" unfolding ready_def act by (simp add: queue_rep_def)
  then have "sched_inv ex_tree" by (rule sched_invI) auto
  moreover have "no_sigs ex_tree" by (simp add: no_sigs_def)
  moreover have "sem_inv ex_tree" by (auto simp: sem_inv_def sem_invalid_def free_sids_ok_def blocked_on_def)
  ultimately show "kinv ex_tree" by (simp add: kinv_def)
  show "running ex_tree" by (simp add: running_def)
qed

lemma ex_tree_tree [simp]: "tree_inv ex_tree"
proof -
  have k: "kids ex_tree p = set (if p = 1 then [6, 3] else if p = 2 then [5, 4] else if p = 6 then [2] else
     if p = 0 then [1] else [])" for p
    by (auto simp: kids_def split: if_splits)
  show ?thesis unfolding tree_inv_def k by (auto simp: live_def)
qed

lemma ex_tree_blocks [simp]: "usable_blocks 21 ex_tree"
  by (simp add: usable_blocks_def ex_tree_def)

text \<open>
  C11. \<^verbatim>\<open>exit\<close> of a process that is not Init, with 21 blocks left in the allocator: the caller has given up the processor and is not ready to get it back; it is a
  zombie with its return value if its father is not Init, and is dead otherwise. Its zombie children die, the others become children of Init. A father
  who waits for it is woken and told its PID. The invariants of scheduler, semaphores and process tree hold.
\<close>

theorem exit_terminates_process:
  assumes "kinv s" and "tree_inv s" and "running s" and "pid_cour s = p" and "p \<noteq> 0" and "p \<noteq> 1" and "usable_blocks 21 s"
    and "f = p_pid_parent (tab_proc s p)"
  shows "\<exists>s'. exit retval s = Some s' \<and> kinv s' \<and> tree_inv s' \<and> pid_cour s' \<noteq> p \<and> p \<notin> activable s' \<and>
    p_state (tab_proc s' p) = (if f > 1 then STATE_ZOMBIE else STATE_DEAD) \<and>
    (f > 1 \<longrightarrow> p_val_ret (tab_proc s' p) = retval) \<and>
    (f > 1 \<and> father_waits f p s \<longrightarrow> runnable_state (p_state (tab_proc s' f)) \<and> p_pid_wait (tab_proc s' f) = p) \<and>
    (\<forall>c \<in> kids s p. if p_state (tab_proc s c) = STATE_ZOMBIE then p_state (tab_proc s' c) = STATE_DEAD else c \<in> kids s' 1)"
proof -
  obtain t s' cs where e: "exit retval s = Some s'" "kinv s'" "sched_post s'" "sched_frame t s'" "ended (pid_cour s) cs s t"
    "distinct cs" "set cs = kids s (pid_cour s)" "tree_inv s'"
    "p_pid_parent (tab_proc s (pid_cour s)) > 1 \<Longrightarrow> p_val_ret (tab_proc s' (pid_cour s)) = retval \<and>
      p_killed (tab_proc s' (pid_cour s)) = p_killed (tab_proc s (pid_cour s))"
    "p_pid_parent (tab_proc s (pid_cour s)) > 1 \<Longrightarrow> father_waits (p_pid_parent (tab_proc s (pid_cour s))) (pid_cour s) s \<Longrightarrow>
      runnable_state (p_state (tab_proc s' (p_pid_parent (tab_proc s (pid_cour s))))) \<and>
      p_pid_wait (tab_proc s' (p_pid_parent (tab_proc s (pid_cour s)))) = pid_cour s"
    "\<And>q. runnable_state (p_state (tab_proc t q)) \<Longrightarrow> q \<noteq> pid_cour s \<and>
      (runnable_state (p_state (tab_proc s q)) \<or> q = p_pid_parent (tab_proc s (pid_cour s)))"
    by (rule exit_spec [OF assms(1-3), of retval]) (use assms in simp_all)
  have st: "p_state (tab_proc t p) = (if f > 1 then STATE_ZOMBIE else STATE_DEAD)" using e(5) assms(4,8) by (simp add: ended_def)
  then have st': "p_state (tab_proc s' p) = (if f > 1 then STATE_ZOMBIE else STATE_DEAD)"
    using sched_frame_not_dead(2,3) [OF e(4), of p] by auto
  then have "pid_cour s' \<noteq> p" "p \<notin> activable s'" using e(3) assms(5) by (auto simp: sched_post_def running_def activable_def split: if_splits)
  moreover have "if p_state (tab_proc s c) = STATE_ZOMBIE then p_state (tab_proc s' c) = STATE_DEAD else c \<in> kids s' 1" if "c \<in> kids s p" for c
  proof -
    have lv: "live s p" using kinv_current [OF assms(1,3)] assms(4,5) by (auto simp: live_def)
    have "c \<noteq> p" using that tree_invD(3) [OF assms(2), of c] by (auto simp: kids_def)
    then have "p_state (tab_proc s c) = STATE_ZOMBIE \<Longrightarrow> p_state (tab_proc t c) = STATE_DEAD"
      using e(5,7) that assms(4) by (simp add: ended_def)
    moreover have "p_state (tab_proc s c) \<noteq> STATE_ZOMBIE \<Longrightarrow> c \<in> kids t 1"
      using ended_kids(2) [OF e(5) assms(2)] e(7) assms(4,6) lv that \<open>c \<noteq> p\<close> by simp
    ultimately show ?thesis using sched_frame_not_dead(3) [OF e(4), of c] tree_inv_frame(3) [OF e(4), of 1] by simp
  qed
  ultimately show ?thesis using e(1,2,8-10) st' assms(4,8) by blast
qed

theorem exit_terminates_process_witness:
  "\<exists>s'. exit 42 ex_tree = Some s' \<and> kinv s' \<and> tree_inv s' \<and> pid_cour s' \<noteq> 2 \<and> 2 \<notin> activable s' \<and>
    p_state (tab_proc s' 2) = (if (6::int) > 1 then STATE_ZOMBIE else STATE_DEAD) \<and>
    ((6::int) > 1 \<longrightarrow> p_val_ret (tab_proc s' 2) = 42) \<and>
    ((6::int) > 1 \<and> father_waits 6 2 ex_tree \<longrightarrow> runnable_state (p_state (tab_proc s' 6)) \<and> p_pid_wait (tab_proc s' 6) = 2) \<and>
    (\<forall>c \<in> kids ex_tree 2. if p_state (tab_proc ex_tree c) = STATE_ZOMBIE then p_state (tab_proc s' c) = STATE_DEAD else c \<in> kids s' 1)"
  by (rule exit_terminates_process) simp_all

text \<open>
  C26. \<^verbatim>\<open>chprio\<close> on a living process returns the old priority, sets the new one, moves the process to its
  new place in the ready queue if it is there, and leaves the processor to a process of maximal priority.
\<close>

theorem chprio_reorders:
  assumes "kinv s" and "live s p" and "0 < n" and "n \<le> MAXPRIO"
  shows "\<exists>s'. chprio p n s = Some (p_priority (tab_proc s p), s') \<and> kinv s' \<and> prio_of s' = (prio_of s)(p := n) \<and>
    (if pid_cour s' = 0 then activable s' = {} else \<forall>q \<in> activable s'. prio_of s' q \<le> prio_of s' (pid_cour s'))"
  using assms by (rule chprio_spec) (unfold sched_post_def, blast)

theorem chprio_reorders_witness:
  "\<exists>s'. chprio 3 9 ex_kernel = Some (p_priority (tab_proc ex_kernel 3), s') \<and> kinv s' \<and> prio_of s' = (prio_of ex_kernel)(3 := 9) \<and>
    (if pid_cour s' = 0 then activable s' = {} else \<forall>q \<in> activable s'. prio_of s' q \<le> prio_of s' (pid_cour s'))"
  by (rule chprio_reorders) (simp_all add: live_def MAXPRIO_def)

text \<open>The kernel of \<open>ex_sem\<close> with a second process, 5, that came after 4 to wait for the semaphore 0.\<close>

definition ex_sem2 :: kstate where
  "ex_sem2 = upd_sem 0 (\<lambda>_. \<lparr>s_c = -2, s_proc_wait = Some [5, 4], s_valide = 1\<rparr>)
     (upd_proc 5 (\<lambda>c. c\<lparr>p_valide := 1, p_state := STATE_WAIT_SEM, p_sid_wait := 0\<rparr>) ex_sem)"

lemma ex_sem2_valid: "valid_proc ex_sem2 p \<longleftrightarrow> 1 \<le> p \<and> p \<le> 5"
  by (auto simp: ex_sem2_def ex_sem_def valid_proc_def in_tab_def NBPROC_def)

lemma ex_sem2_proc: "p_pid (tab_proc ex_sem2 p) = p"
  "p_state (tab_proc ex_sem2 p) = (if p = 1 then STATE_ACTIVE else if p = 4 \<or> p = 5 then STATE_WAIT_SEM else STATE_ACTIVABLE)"
  "p_sigs (tab_proc ex_sem2 p) = Some []" "p_pid_parent (tab_proc ex_sem2 p) = 0" "p_children (tab_proc ex_sem2 p) = Some []"
  "p_sid_wait (tab_proc ex_sem2 p) = 0"
  by (simp_all add: ex_sem2_def ex_sem_def ex_kernel_def ex_ctx_def)

lemma ex_sem2_sched: "sched_inv ex_sem2" "no_sigs ex_sem2"
proof -
  have act: "activable ex_sem2 = {2, 3}" unfolding activable_def ex_sem2_valid by (auto simp: ex_sem2_proc)
  have "dll (k_links ex_kernel) 0 [3, 2]" using ex_kernel_ready by (simp add: ready_def queue_rep_def)
  then have "dll (k_links ex_sem2) 0 [3, 2]" by (simp add: ex_sem2_def ex_sem_def)
  then have "ready ex_sem2 [3, 2]"
    unfolding ready_def act by (auto simp: queue_rep_def ex_sem2_def ex_sem_def prio_of_def)
  then show "sched_inv ex_sem2"
    by (rule sched_invI) (auto simp: ex_sem2_valid ex_sem2_proc, simp_all add: ex_sem2_def)
  show "no_sigs ex_sem2" by (simp add: no_sigs_def ex_sem2_proc)
qed

lemma ex_sem2_blocked: "blocked_on ex_sem2 i = (if i = 0 then {4, 5} else {})"
  unfolding blocked_on_def ex_sem2_valid by (auto simp: ex_sem2_proc)

lemma ex_sem2_kinv: "kinv ex_sem2"
proof (rule kinvI [OF ex_sem2_sched])
  have inv: "sem_invalid i ex_sem2 \<longleftrightarrow> i \<noteq> 0" for i by (auto simp: ex_sem2_def ex_sem_def sem_invalid_def NBSEM_def)
  show "free_sids_ok ex_sem2" by (auto simp: free_sids_ok_def ex_sem2_def ex_sem_def)
  show "sem_rest 0 ex_sem2" by (simp add: sem_rest_def ex_sem2_blocked inv)
  show "if sem_invalid 0 ex_sem2 then blocked_on ex_sem2 0 = {} else sem_ok ex_sem2 0"
    by (auto simp: inv sem_ok_def ex_sem2_blocked SHRT_MAX_def) (auto simp: ex_sem2_def)
qed

lemma kill_ex_sem2:
  obtains s' where "kill 4 ex_sem2 = Some (0, s')" "sched_inv s'" "no_sigs s'" "blocked_on s' 0 = {5}"
    "semaphores s' = (semaphores ex_sem2)(0 := \<lparr>s_c = -1, s_proc_wait = Some [5, 4], s_valide = 1\<rparr>)"
    "p_state (tab_proc s' 4) = STATE_DEAD"
proof -
  let ?u = "upd_sem 0 (\<lambda>m. m\<lparr>s_c := -1\<rparr>) ex_sem2\<lparr>allocs := [8192, 12288]\<rparr>"
  let ?t = "upd_proc 1 (\<lambda>c. c\<lparr>p_children := Some []\<rparr>) (upd_proc 4 (\<lambda>c. c\<lparr>p_state := STATE_DEAD\<rparr>) ?u)"
  have sem: "semaphores ex_sem2 0 = \<lparr>s_c = -2, s_proc_wait = Some [5, 4], s_valide = 1\<rparr>" "allocs ex_sem2 = [4096, 8192, 12288]"
    by (simp_all add: ex_sem2_def)
  have eq: "sched_eq ex_sem2 ?u" by (simp add: sched_eq_def)
  let ?v = "upd_proc 4 (\<lambda>c. c\<lparr>p_state := STATE_DEAD\<rparr>) ?u"
  have "sched_inv ?v" "no_sigs ?v"
    using sched_eq_inv [OF eq] ex_sem2_sched by (simp_all add: sched_inv_block ex_sem2_proc)
  moreover have eq2: "sched_eq ?v ?t" by (simp add: sched_eq_def)
  ultimately have "sched_inv ?t" "no_sigs ?t" using sched_eq_inv [OF eq2] by simp_all
  then obtain s' where s': "scheduler ?t = Some s'" "sched_post s'" "sched_frame ?t s'" by (rule scheduler_spec)
  have val: "p_valide (tab_proc ex_sem2 4) = 1" using ex_sem2_valid [of 4] by (simp add: valid_proc_def)
  have up: "upd_sem 0 (\<lambda>m. m\<lparr>s_c := to_short (s_c m + 1)\<rparr>) ex_sem2 = upd_sem 0 (\<lambda>m. m\<lparr>s_c := -1\<rparr>) ex_sem2"
    by (simp add: upd_sem_def sem to_short_def)
  have "kill 4 ex_sem2 = Some (0, s')"
    using s'(1) val by (simp add: kill_def NBPROC_def NBSEM_def ex_sem2_proc Let_def up kl_iterator_def mem_alloc_def sem kl_delete_def seq_delete_def)
  moreover have "semaphores s' = (semaphores ex_sem2)(0 := \<lparr>s_c = -1, s_proc_wait = Some [5, 4], s_valide = 1\<rparr>)"
    using sched_frame_simps(1) [OF s'(3)] by (simp add: fun_eq_iff sem)
  moreover have "blocked_on ?t i = blocked_on ex_sem2 i - {4}" for i
    by (auto simp: blocked_on_def valid_proc_def)
  then have "blocked_on ?t 0 = {5}" by (simp add: ex_sem2_blocked)
  then have "blocked_on s' 0 = {5}" using blocked_on_frame [OF s'(3)] by simp
  moreover have "p_state (tab_proc s' 4) = STATE_DEAD" using sched_frame_not_dead(3) [OF s'(3), of 4] by simp
  ultimately show ?thesis using s'(2) that by (simp add: sched_post_def)
qed

text \<open>
  \<^verbatim>\<open>kill\<close> on a process that waits for a semaphore gives its unit back but leaves it in the waiting list,
  and the next \<^verbatim>\<open>signal\<close> spends itself on the dead process: here 4 and 5 wait for the semaphore 0 in a state
  that satisfies the invariant; 4 is killed and then one \<^verbatim>\<open>signal\<close> is sent. Process 5 stays blocked although
  the counter is 0, that is, although nobody should be waiting.
\<close>

lemma kill_loses_wakeup:
  "kinv ex_sem2 \<and> (\<exists>s1 s2. kill 4 ex_sem2 = Some (0, s1) \<and> signal 0 s1 = Some (0, s2) \<and>
     5 \<in> blocked_on s2 0 \<and> s_c (semaphores s2 0) = 0 \<and> \<not> sem_inv s2)"
proof -
  obtain s1 where s1: "kill 4 ex_sem2 = Some (0, s1)" "sched_inv s1" "no_sigs s1" "blocked_on s1 0 = {5}"
    "semaphores s1 = (semaphores ex_sem2)(0 := \<lparr>s_c = -1, s_proc_wait = Some [5, 4], s_valide = 1\<rparr>)"
    "p_state (tab_proc s1 4) = STATE_DEAD" by (rule kill_ex_sem2)
  let ?u = "upd_sem 0 (\<lambda>m. m\<lparr>s_c := to_short (s_c m + 1)\<rparr>) s1"
  let ?v = "upd_sem 0 (\<lambda>m. m\<lparr>s_proc_wait := Some [5]\<rparr>) ?u"
  have eq: "sched_eq s1 ?v" by (simp add: sched_eq_def)
  have v: "sched_inv ?v" "no_sigs ?v" "blocked_on ?v 0 = {5}" "s_c (semaphores ?v 0) = 0" "p_state (tab_proc ?v 4) = STATE_DEAD"
    using sched_eq_inv [OF eq] s1 by (simp_all add: to_short_def)
  obtain w where w: "map_option snd (wakeup_process 4 ?v) = Some w" "sched_inv w" "no_sigs w" "blocked_on w 0 = {5}" "semaphores w = semaphores ?v"
  proof (cases "valid_proc ?v 4")
    case True
    have "p_state (tab_proc ?v 4) \<noteq> STATE_ACTIVABLE" using v(5) by simp
    with True obtain L where L: "wakeup_process 4 ?v = Some (4, (make_activable 4 ?v)\<lparr>k_links := L\<rparr>)"
      "sched_inv ((make_activable 4 ?v)\<lparr>k_links := L\<rparr>)" "no_sigs ((make_activable 4 ?v)\<lparr>k_links := L\<rparr>)"
      by (rule wakeup_process_inv [OF v(1,2)])
    moreover have "blocked_on ((make_activable 4 ?v)\<lparr>k_links := L\<rparr>) 0 = {5}" using v(3) by auto
    ultimately show ?thesis by (intro that [of "(make_activable 4 ?v)\<lparr>k_links := L\<rparr>"]) simp_all
  next
    case False
    then show ?thesis using v by (intro that [of ?v]) (simp_all add: wakeup_process_invalid)
  qed
  obtain s2 where s2: "scheduler w = Some s2" "sched_post s2" "sched_frame w s2" using w(2,3) by (rule scheduler_spec)
  have "wake_last 0 ?u = Some w" using s1(5) w(1) by (simp add: wake_last_def seq_get_last_def Let_def)
  moreover have "\<not> sem_invalid 0 s1" "s_c (semaphores s1 0) = -1" "to_short 0 = 0"
    using s1(5) by (simp_all add: sem_invalid_def NBSEM_def to_short_def)
  ultimately have "signal 0 s1 = Some (0, s2)"
    using s2(1) by (simp add: signal_def SHRT_MAX_def Let_def)
  moreover have b: "5 \<in> blocked_on s2 0" using blocked_on_frame [OF s2(3)] w(4) by simp
  moreover have c: "s_c (semaphores s2 0) = 0" "s_valide (semaphores s2 0) = 1"
    using sched_frame_simps(1) [OF s2(3)] w(5) s1(5) v(4) by simp_all
  moreover have "\<not> sem_inv s2"
  proof
    assume "sem_inv s2"
    then have "sem_ok s2 0" using c(2) by (simp add: sem_inv_def sem_invalid_def NBSEM_def)
    then have "blocked_on s2 0 = {}" using c(1) by (auto simp: sem_ok_def)
    with b show False by simp
  qed
  ultimately show ?thesis using s1(1) ex_sem2_kinv by blast
qed

end
