(* ===== verification/Kstring.thy ===== *)
theory Kstring
  imports Prelude
begin

text \<open>
  The string library (\<^verbatim>\<open>shared/string.c\<close>), over a flat memory of bytes. A pointer is an index into
  that memory and the null pointer is 0; an access past its end faults (\<open>None\<close>), so that a scan for a
  terminating zero that meets none faults as well. A \<^verbatim>\<open>char\<close> is a \<open>char\<close>, whose 256 values are
  compared as unsigned through \<open>of_char\<close>.

  The definitions follow the i386 branches of the source: \<open>movsl\<close>, \<open>movsb\<close>, \<open>movsb_down\<close>, \<open>stosl\<close>
  and \<open>stosb\<close> are the repeated string instructions of the inline assembly.
\<close>

section \<open>Memory\<close>

type_synonym bytes = "char list"
type_synonym ptr = nat

abbreviation NUL :: char where "NUL \<equiv> CHR 0x00"
abbreviation NULL :: ptr where "NULL \<equiv> 0"

definition ld :: "bytes \<Rightarrow> ptr \<Rightarrow> char option" where
  "ld m p = (if p < length m then Some (m ! p) else None)"

definition st :: "bytes \<Rightarrow> ptr \<Rightarrow> char \<Rightarrow> bytes option" where
  "st m p c = (if p < length m then Some (m[p := c]) else None)"

text \<open>The value of a byte as an \<^verbatim>\<open>unsigned char\<close>, and the conversion of an \<^verbatim>\<open>int\<close> to a byte.\<close>

definition uchar :: "char \<Rightarrow> int" where
  "uchar c = of_char c"

definition to_char :: "int \<Rightarrow> char" where
  "to_char c = char_of c"

lemma ld_eq_Some [simp]: "ld m p = Some c \<longleftrightarrow> p < length m \<and> c = m ! p"
  by (auto simp: ld_def)

lemma ld_in [simp]: "p < length m \<Longrightarrow> ld m p = Some (m ! p)"
  by simp

lemma st_eq_Some [simp]: "st m p c = Some m' \<longleftrightarrow> p < length m \<and> m' = m[p := c]"
  by (auto simp: st_def)

lemma st_in [simp]: "p < length m \<Longrightarrow> st m p c = Some (m[p := c])"
  by simp

section \<open>Memory blocks\<close>

fun memccpy_loop :: "bytes \<Rightarrow> ptr \<Rightarrow> ptr \<Rightarrow> char \<Rightarrow> nat \<Rightarrow> (ptr \<times> bytes) option" where
  "memccpy_loop m q p c 0 = Some (NULL, m)"
| "memccpy_loop m q p c (Suc n) = do {
     ch \<leftarrow> ld m p;
     m \<leftarrow> st m q ch;
     if ch = c then Some (q + 1, m) else memccpy_loop m (q + 1) (p + 1) c n }"

definition memccpy :: "bytes \<Rightarrow> ptr \<Rightarrow> ptr \<Rightarrow> int \<Rightarrow> nat \<Rightarrow> (ptr \<times> bytes) option" where
  "memccpy m dst src c n = memccpy_loop m dst src (to_char c) n"

fun memchr_loop :: "bytes \<Rightarrow> ptr \<Rightarrow> char \<Rightarrow> nat \<Rightarrow> ptr option" where
  "memchr_loop m sp c 0 = Some NULL"
| "memchr_loop m sp c (Suc n) = do {
     ch \<leftarrow> ld m sp;
     if ch = c then Some sp else memchr_loop m (sp + 1) c n }"

definition memchr :: "bytes \<Rightarrow> ptr \<Rightarrow> int \<Rightarrow> nat \<Rightarrow> ptr option" where
  "memchr m s c n = memchr_loop m s (to_char c) n"

fun memrchr_loop :: "bytes \<Rightarrow> ptr \<Rightarrow> char \<Rightarrow> nat \<Rightarrow> ptr option" where
  "memrchr_loop m s c 0 = Some NULL"
| "memrchr_loop m s c (Suc n) = do {
     ch \<leftarrow> ld m (s + n);
     if ch = c then Some (s + n) else memrchr_loop m s c n }"

definition memrchr :: "bytes \<Rightarrow> ptr \<Rightarrow> int \<Rightarrow> nat \<Rightarrow> ptr option" where
  "memrchr m s c n = memrchr_loop m s (to_char c) n"

fun memcmp :: "bytes \<Rightarrow> ptr \<Rightarrow> ptr \<Rightarrow> nat \<Rightarrow> int option" where
  "memcmp m c1 c2 0 = Some 0"
| "memcmp m c1 c2 (Suc n) = do {
     a \<leftarrow> ld m c1;
     b \<leftarrow> ld m c2;
     let d = uchar a - uchar b;
     if d \<noteq> 0 then Some d else memcmp m (c1 + 1) (c2 + 1) n }"

fun movsb :: "bytes \<Rightarrow> ptr \<Rightarrow> ptr \<Rightarrow> nat \<Rightarrow> bytes option" where
  "movsb m q p 0 = Some m"
| "movsb m q p (Suc n) = do {
     ch \<leftarrow> ld m p;
     m \<leftarrow> st m q ch;
     movsb m (q + 1) (p + 1) n }"

fun movsl :: "bytes \<Rightarrow> ptr \<Rightarrow> ptr \<Rightarrow> nat \<Rightarrow> bytes option" where
  "movsl m q p 0 = Some m"
| "movsl m q p (Suc n) = do {
     a \<leftarrow> ld m p; b \<leftarrow> ld m (p + 1); c \<leftarrow> ld m (p + 2); d \<leftarrow> ld m (p + 3);
     m \<leftarrow> st m q a; m \<leftarrow> st m (q + 1) b; m \<leftarrow> st m (q + 2) c; m \<leftarrow> st m (q + 3) d;
     movsl m (q + 4) (p + 4) n }"

definition memcpy :: "bytes \<Rightarrow> ptr \<Rightarrow> ptr \<Rightarrow> nat \<Rightarrow> (ptr \<times> bytes) option" where
  "memcpy m dst src n = do {
     let nl = n div 4;
     m \<leftarrow> movsl m dst src nl;
     m \<leftarrow> movsb m (dst + 4 * nl) (src + 4 * nl) (n mod 4);
     Some (dst, m) }"

fun movsb_down :: "bytes \<Rightarrow> ptr \<Rightarrow> ptr \<Rightarrow> nat \<Rightarrow> bytes option" where
  "movsb_down m q p 0 = Some m"
| "movsb_down m q p (Suc n) = do {
     ch \<leftarrow> ld m (p + n);
     m \<leftarrow> st m (q + n) ch;
     movsb_down m q p n }"

definition memmove :: "bytes \<Rightarrow> ptr \<Rightarrow> ptr \<Rightarrow> nat \<Rightarrow> (ptr \<times> bytes) option" where
  "memmove m dst src n = do {
     m \<leftarrow> (if dst < src then movsb m dst src n else movsb_down m dst src n);
     Some (dst, m) }"

fun stosb :: "bytes \<Rightarrow> ptr \<Rightarrow> char \<Rightarrow> nat \<Rightarrow> bytes option" where
  "stosb m q c 0 = Some m"
| "stosb m q c (Suc n) = do { m \<leftarrow> st m q c; stosb m (q + 1) c n }"

fun stosl :: "bytes \<Rightarrow> ptr \<Rightarrow> char \<Rightarrow> nat \<Rightarrow> bytes option" where
  "stosl m q c 0 = Some m"
| "stosl m q c (Suc n) = do {
     m \<leftarrow> st m q c; m \<leftarrow> st m (q + 1) c; m \<leftarrow> st m (q + 2) c; m \<leftarrow> st m (q + 3) c;
     stosl m (q + 4) c n }"

definition memset :: "bytes \<Rightarrow> ptr \<Rightarrow> int \<Rightarrow> nat \<Rightarrow> (ptr \<times> bytes) option" where
  "memset m dst c n = do {
     let nl = n div 4;
     m \<leftarrow> stosl m dst (to_char c) nl;
     m \<leftarrow> stosb m (dst + 4 * nl) (to_char c) (n mod 4);
     Some (dst, m) }"

fun memswap :: "bytes \<Rightarrow> ptr \<Rightarrow> ptr \<Rightarrow> nat \<Rightarrow> bytes option" where
  "memswap m p q 0 = Some m"
| "memswap m p q (Suc n) = do {
     tmp \<leftarrow> ld m p;
     b \<leftarrow> ld m q;
     m \<leftarrow> st m p b;
     m \<leftarrow> st m q tmp;
     memswap m (p + 1) (q + 1) n }"

section \<open>Spans\<close>

text \<open>The bitmap is local to the function: 256 cells, indexed by the value of a byte.\<close>

function match_map :: "bytes \<Rightarrow> ptr \<Rightarrow> int list \<Rightarrow> int list option" where
  "match_map m s matchmap = do {
     ch \<leftarrow> ld m s;
     if ch = NUL then Some matchmap
     else match_map m (s + 1) (matchmap[nat (uchar ch) := 1]) }"
  by pat_completeness auto
termination by (relation "measure (\<lambda>(m, s, _). length m - s)") auto

function strxspn_loop :: "bytes \<Rightarrow> ptr \<Rightarrow> int list \<Rightarrow> int \<Rightarrow> nat \<Rightarrow> nat option" where
  "strxspn_loop m s matchmap parity n = do {
     ch \<leftarrow> ld m s;
     if matchmap ! nat (uchar ch) \<noteq> parity then strxspn_loop m (s + 1) matchmap parity (n + 1)
     else Some n }"
  by pat_completeness auto
termination by (relation "measure (\<lambda>(m, s, _). length m - s)") auto

definition strxspn :: "bytes \<Rightarrow> ptr \<Rightarrow> ptr \<Rightarrow> int \<Rightarrow> nat option" where
  "strxspn m s accept parity = do {
     matchmap \<leftarrow> match_map m accept (replicate 256 0);
     strxspn_loop m s (matchmap[0 := parity]) parity 0 }"

section \<open>Search\<close>

text \<open>
  The shifts \<^verbatim>\<open>k\<close> and \<^verbatim>\<open>l\<close> depend only on whether the first two bytes of the needle are the same.
\<close>

definition shift_k :: "bool \<Rightarrow> nat" where
  "shift_k same = (if same then 2 else 1)"

definition shift_l :: "bool \<Rightarrow> nat" where
  "shift_l same = (if same then 1 else 2)"

function memmem_scan :: "bytes \<Rightarrow> ptr \<Rightarrow> nat \<Rightarrow> ptr \<Rightarrow> nat \<Rightarrow> bool \<Rightarrow> nat \<Rightarrow> ptr option" where
  "memmem_scan m y n x len same j =
     (if j \<le> n - len then do {
        x1 \<leftarrow> ld m (x + 1);
        y1 \<leftarrow> ld m (y + j + 1);
        if x1 \<noteq> y1 then memmem_scan m y n x len same (j + shift_k same)
        else do {
          d \<leftarrow> memcmp m (x + 2) (y + j + 2) (len - 2);
          x0 \<leftarrow> ld m x;
          y0 \<leftarrow> ld m (y + j);
          if d = 0 \<and> x0 = y0 then Some (y + j)
          else memmem_scan m y n x len same (j + shift_l same) } }
      else Some NULL)"
  by pat_completeness auto
termination
  by (relation "measure (\<lambda>(m, y, n, x, len, same, j). Suc (n - len) - j)")
    (auto simp: shift_k_def shift_l_def)

fun memmem_one :: "bytes \<Rightarrow> ptr \<Rightarrow> ptr \<Rightarrow> nat \<Rightarrow> ptr option" where
  "memmem_one m y x 0 = Some NULL"
| "memmem_one m y x (Suc n) = do {
     a \<leftarrow> ld m y;
     b \<leftarrow> ld m x;
     if a = b then Some y else memmem_one m (y + 1) x n }"

definition memmem :: "bytes \<Rightarrow> ptr \<Rightarrow> nat \<Rightarrow> ptr \<Rightarrow> nat \<Rightarrow> ptr option" where
  "memmem m y n x len =
     (if len > n \<or> len = 0 \<or> n = 0 then Some NULL
      else if len \<noteq> 1 then do {
        x0 \<leftarrow> ld m x;
        x1 \<leftarrow> ld m (x + 1);
        memmem_scan m y n x len (x0 = x1) 0 }
      else memmem_one m y x n)"

section \<open>Strings\<close>

function strchr_loop :: "bytes \<Rightarrow> ptr \<Rightarrow> char \<Rightarrow> ptr option" where
  "strchr_loop m s c = do {
     ch \<leftarrow> ld m s;
     if ch \<noteq> c then if ch = NUL then Some NULL else strchr_loop m (s + 1) c
     else Some s }"
  by pat_completeness auto
termination by (relation "measure (\<lambda>(m, s, _). length m - s)") auto

definition strchr :: "bytes \<Rightarrow> ptr \<Rightarrow> int \<Rightarrow> ptr option" where
  "strchr m s c = strchr_loop m s (to_char c)"

function strrchr_loop :: "bytes \<Rightarrow> ptr \<Rightarrow> char \<Rightarrow> ptr \<Rightarrow> ptr option" where
  "strrchr_loop m s c found = do {
     ch \<leftarrow> ld m s;
     if ch \<noteq> NUL then strrchr_loop m (s + 1) c (if ch = c then s else found)
     else Some found }"
  by pat_completeness auto
termination by (relation "measure (\<lambda>(m, s, _). length m - s)") auto

definition strrchr :: "bytes \<Rightarrow> ptr \<Rightarrow> int \<Rightarrow> ptr option" where
  "strrchr m s c = strrchr_loop m s (to_char c) NULL"

function strcmp :: "bytes \<Rightarrow> ptr \<Rightarrow> ptr \<Rightarrow> int option" where
  "strcmp m c1 c2 = do {
     ch \<leftarrow> ld m c1;
     b \<leftarrow> ld m c2;
     let d = uchar ch - uchar b;
     if d \<noteq> 0 \<or> ch = NUL then Some d else strcmp m (c1 + 1) (c2 + 1) }"
  by pat_completeness auto
termination by (relation "measure (\<lambda>(m, c1, _). length m - c1)") auto

function strcpy_loop :: "bytes \<Rightarrow> ptr \<Rightarrow> ptr \<Rightarrow> bytes option" where
  "strcpy_loop m q p = do {
     ch \<leftarrow> ld m p;
     m \<leftarrow> st m q ch;
     if ch \<noteq> NUL then strcpy_loop m (q + 1) (p + 1) else Some m }"
  by pat_completeness auto
termination by (relation "measure (\<lambda>(m, _, p). length m - p)") auto

definition strcpy :: "bytes \<Rightarrow> ptr \<Rightarrow> ptr \<Rightarrow> (ptr \<times> bytes) option" where
  "strcpy m dst src = do { m \<leftarrow> strcpy_loop m dst src; Some (dst, m) }"

definition strcat :: "bytes \<Rightarrow> ptr \<Rightarrow> ptr \<Rightarrow> (ptr \<times> bytes) option" where
  "strcat m dst src = do {
     e \<leftarrow> strchr m dst 0;
     (_, m) \<leftarrow> strcpy m e src;
     Some (dst, m) }"

definition strcspn :: "bytes \<Rightarrow> ptr \<Rightarrow> ptr \<Rightarrow> nat option" where
  "strcspn m s reject = strxspn m s reject 1"

function strlen_loop :: "bytes \<Rightarrow> ptr \<Rightarrow> ptr option" where
  "strlen_loop m ss = do {
     ch \<leftarrow> ld m ss;
     if ch \<noteq> NUL then strlen_loop m (ss + 1) else Some ss }"
  by pat_completeness auto
termination by (relation "measure (\<lambda>(m, ss). length m - ss)") auto

definition strlen :: "bytes \<Rightarrow> ptr \<Rightarrow> nat option" where
  "strlen m s = do { ss \<leftarrow> strlen_loop m s; Some (ss - s) }"

fun strnlen_loop :: "bytes \<Rightarrow> ptr \<Rightarrow> nat \<Rightarrow> ptr option" where
  "strnlen_loop m ss 0 = Some ss"
| "strnlen_loop m ss (Suc maxlen) = do {
     ch \<leftarrow> ld m ss;
     if ch \<noteq> NUL then strnlen_loop m (ss + 1) maxlen else Some ss }"

definition strnlen :: "bytes \<Rightarrow> ptr \<Rightarrow> nat \<Rightarrow> nat option" where
  "strnlen m s maxlen = do { ss \<leftarrow> strnlen_loop m s maxlen; Some (ss - s) }"

fun strncat_loop :: "bytes \<Rightarrow> ptr \<Rightarrow> ptr \<Rightarrow> nat \<Rightarrow> bytes option" where
  "strncat_loop m q p 0 = st m q NUL"
| "strncat_loop m q p (Suc n) = do {
     ch \<leftarrow> ld m p;
     m \<leftarrow> st m q ch;
     if ch = NUL then Some m else strncat_loop m (q + 1) (p + 1) n }"

definition strncat :: "bytes \<Rightarrow> ptr \<Rightarrow> ptr \<Rightarrow> nat \<Rightarrow> (ptr \<times> bytes) option" where
  "strncat m dst src n = do {
     q \<leftarrow> strchr m dst 0;
     m \<leftarrow> strncat_loop m q src n;
     Some (dst, m) }"

function strlcat_copy :: "bytes \<Rightarrow> ptr \<Rightarrow> ptr \<Rightarrow> nat \<Rightarrow> nat \<Rightarrow> (nat \<times> bytes) option" where
  "strlcat_copy m q p count sz = do {
     ch \<leftarrow> ld m p;
     if ch \<noteq> NUL
     then if count + 1 < sz
          then do { m \<leftarrow> st m q ch; strlcat_copy m (q + 1) (p + 1) (count + 1) sz }
          else strlcat_copy m q (p + 1) (count + 1) sz
     else do { m \<leftarrow> st m q NUL; Some (count, m) } }"
  by pat_completeness auto
termination by (relation "measure (\<lambda>(m, _, p, _). length m - p)") auto

definition strlcat :: "bytes \<Rightarrow> ptr \<Rightarrow> ptr \<Rightarrow> nat \<Rightarrow> (nat \<times> bytes) option" where
  "strlcat m dst src sz = do {
     count \<leftarrow> strnlen m dst sz;
     if count = sz then do { l \<leftarrow> strlen m src; Some (count + l, m) }
     else strlcat_copy m (dst + count) src count sz }"

fun strncmp :: "bytes \<Rightarrow> ptr \<Rightarrow> ptr \<Rightarrow> nat \<Rightarrow> int option" where
  "strncmp m c1 c2 0 = Some 0"
| "strncmp m c1 c2 (Suc n) = do {
     ch \<leftarrow> ld m c1;
     b \<leftarrow> ld m c2;
     let d = uchar ch - uchar b;
     if d \<noteq> 0 \<or> ch = NUL then Some d else strncmp m (c1 + 1) (c2 + 1) n }"

fun strncpy_loop :: "bytes \<Rightarrow> ptr \<Rightarrow> ptr \<Rightarrow> nat \<Rightarrow> (ptr \<times> nat \<times> bytes) option" where
  "strncpy_loop m q p 0 = Some (q, 0, m)"
| "strncpy_loop m q p (Suc n) = do {
     ch \<leftarrow> ld m p;
     m \<leftarrow> st m q ch;
     if ch = NUL then Some (q + 1, n, m) else strncpy_loop m (q + 1) (p + 1) n }"

definition strncpy :: "bytes \<Rightarrow> ptr \<Rightarrow> ptr \<Rightarrow> nat \<Rightarrow> (ptr \<times> bytes) option" where
  "strncpy m dst src n = do {
     (q, n, m) \<leftarrow> strncpy_loop m dst src n;
     (_, m) \<leftarrow> memset m q 0 n;
     Some (dst, m) }"

definition strpbrk :: "bytes \<Rightarrow> ptr \<Rightarrow> ptr \<Rightarrow> ptr option" where
  "strpbrk m s accept = do {
     n \<leftarrow> strxspn m s accept 1;
     ch \<leftarrow> ld m (s + n);
     Some (if ch \<noteq> NUL then s + n else NULL) }"

text \<open>\<^verbatim>\<open>strsep\<close> returns the token, the new value of \<^verbatim>\<open>*stringp\<close> and the memory.\<close>

definition strsep :: "bytes \<Rightarrow> ptr \<Rightarrow> ptr \<Rightarrow> (ptr \<times> ptr \<times> bytes) option" where
  "strsep m s delim =
     (if s = NULL then Some (NULL, s, m)
      else do {
        e \<leftarrow> strpbrk m s delim;
        if e \<noteq> NULL then do { m \<leftarrow> st m e NUL; Some (s, e + 1, m) } else Some (s, e, m) })"

definition strspn :: "bytes \<Rightarrow> ptr \<Rightarrow> ptr \<Rightarrow> nat option" where
  "strspn m s accept = strxspn m s accept 0"

definition strstr :: "bytes \<Rightarrow> ptr \<Rightarrow> ptr \<Rightarrow> ptr option" where
  "strstr m haystack needle = do {
     n \<leftarrow> strlen m haystack;
     l \<leftarrow> strlen m needle;
     memmem m haystack n needle l }"

text \<open>\<^verbatim>\<open>strtok\<close> keeps \<^verbatim>\<open>holder\<close> from one call to the next.\<close>

definition strtok :: "bytes \<Rightarrow> ptr \<Rightarrow> ptr \<Rightarrow> ptr \<Rightarrow> (ptr \<times> ptr \<times> bytes) option" where
  "strtok m holder s delim = strsep m (if s \<noteq> NULL then s else holder) delim"

text \<open>
  \<^verbatim>\<open>memread\<close>: the lengths are unsigned, so that \<^verbatim>\<open>len < 0\<close> never holds, and \<^verbatim>\<open>offset\<close> is compared and
  subtracted as an unsigned value.
\<close>

definition memread :: "bytes \<Rightarrow> ptr \<Rightarrow> u32 \<Rightarrow> int \<Rightarrow> ptr \<Rightarrow> u32 \<Rightarrow> (int \<times> bytes) option" where
  "memread m bufin sin offset bufout len =
     (if len = 0 then Some (0, m)
      else if word_of_int offset \<ge> sin then Some (0, m)
      else do {
        let len = (if len > sin - word_of_int offset then sin - word_of_int offset else len);
        (_, m) \<leftarrow> memcpy m bufout (nat ((int bufin + offset) mod 2 ^ 32)) (unat len);
        Some (sint len, m) })"

declare match_map.simps [simp del] strxspn_loop.simps [simp del] memmem_scan.simps [simp del]
  strchr_loop.simps [simp del] strrchr_loop.simps [simp del] strcmp.simps [simp del]
  strcpy_loop.simps [simp del] strlen_loop.simps [simp del] strlcat_copy.simps [simp del]

section \<open>Blocks of memory\<close>

text \<open>\<open>blk m p n\<close> is the contents of the \<open>n\<close> bytes at \<open>p\<close>; \<open>blit m q xs\<close> overwrites them from \<open>q\<close> on.\<close>

definition blk :: "bytes \<Rightarrow> ptr \<Rightarrow> nat \<Rightarrow> char list" where
  "blk m p n = map (\<lambda>i. m ! (p + i)) [0..<n]"

definition blit :: "bytes \<Rightarrow> ptr \<Rightarrow> char list \<Rightarrow> bytes" where
  "blit m q xs = map (\<lambda>i. if q \<le> i \<and> i < q + length xs then xs ! (i - q) else m ! i) [0..<length m]"

lemma length_blk [simp]: "length (blk m p n) = n"
  by (simp add: blk_def)

lemma nth_blk [simp]: "i < n \<Longrightarrow> blk m p n ! i = m ! (p + i)"
  by (simp add: blk_def)

lemma blk_0 [simp]: "blk m p 0 = []"
  by (simp add: blk_def)

lemma blk_Suc: "blk m p (Suc n) = m ! p # blk m (p + 1) n"
  by (rule nth_equalityI) (auto simp: nth_Cons split: nat.split)

lemma blk_snoc: "blk m p (Suc n) = blk m p n @ [m ! (p + n)]"
  by (simp add: blk_def)

lemma blk_add: "blk m p (a + b) = blk m p a @ blk m (p + a) b"
  by (induction b) (simp_all add: blk_snoc add.assoc)

lemma blk_eq_take_drop: "p + n \<le> length m \<Longrightarrow> blk m p n = take n (drop p m)"
  by (rule nth_equalityI) auto

lemma blk_cong: "(\<And>i. i < n \<Longrightarrow> m ! (p + i) = m' ! (q + i)) \<Longrightarrow> blk m p n = blk m' q n"
  by (rule nth_equalityI) auto

lemma length_blit [simp]: "length (blit m q xs) = length m"
  by (simp add: blit_def)

lemma nth_blit:
  "i < length m \<Longrightarrow> blit m q xs ! i = (if q \<le> i \<and> i < q + length xs then xs ! (i - q) else m ! i)"
  by (simp add: blit_def)

lemma blit_Nil [simp]: "blit m q [] = m"
  by (rule nth_equalityI) (auto simp: nth_blit)

lemma blit_Cons: "q < length m \<Longrightarrow> blit (m[q := x]) (q + 1) xs = blit m q (x # xs)"
  by (rule nth_equalityI) (auto simp: nth_blit nth_list_update nth_Cons')

lemma blit_snoc: "q + length xs < length m \<Longrightarrow> (blit m q xs)[q + length xs := x] = blit m q (xs @ [x])"
  by (rule nth_equalityI) (auto simp: nth_blit nth_list_update nth_append)

lemma blit_append: "blit (blit m q xs) (q + length xs) ys = blit m q (xs @ ys)"
  by (rule nth_equalityI) (auto simp: nth_blit nth_append)

lemma blk_blit_same: "q + length xs \<le> length m \<Longrightarrow> blk (blit m q xs) q (length xs) = xs"
  by (rule nth_equalityI) (auto simp: nth_blit)

lemma blk_blit_disjoint:
  "p + n \<le> length m \<Longrightarrow> p + n \<le> q \<or> q + length xs \<le> p \<Longrightarrow> blk (blit m q xs) p n = blk m p n"
  by (rule blk_cong) (auto simp: nth_blit)

section \<open>Copies\<close>

lemma movsb_up:
  "p + n \<le> length m \<Longrightarrow> q + n \<le> length m \<Longrightarrow> q \<le> p \<or> p + n \<le> q \<Longrightarrow>
   movsb m q p n = Some (blit m q (blk m p n))"
proof (induction n arbitrary: m q p)
  case (Suc n)
  let ?m = "m[q := m ! p]"
  have "movsb ?m (q + 1) (p + 1) n = Some (blit ?m (q + 1) (blk ?m (p + 1) n))"
    using Suc.prems by (intro Suc.IH) auto
  moreover have "blk ?m (p + 1) n = blk m (p + 1) n"
    using Suc.prems by (intro blk_cong) (auto simp: nth_list_update)
  ultimately show ?case
    using Suc.prems blit_Cons [of q m "m ! p"] by (simp add: blk_Suc)
qed simp

lemma blit_update_end:
  "q + n < length m \<Longrightarrow> length xs = n \<Longrightarrow> blit (m[q + n := x]) q xs = blit m q (xs @ [x])"
  by (rule nth_equalityI) (auto simp: nth_blit nth_list_update nth_append)

lemma movsb_down_up:
  "p + n \<le> length m \<Longrightarrow> q + n \<le> length m \<Longrightarrow> p \<le> q \<or> q + n \<le> p \<Longrightarrow>
   movsb_down m q p n = Some (blit m q (blk m p n))"
proof (induction n arbitrary: m)
  case (Suc n)
  let ?m = "m[q + n := m ! (p + n)]"
  have "movsb_down ?m q p n = Some (blit ?m q (blk ?m p n))"
    using Suc.prems by (intro Suc.IH) auto
  moreover have "blk ?m p n = blk m p n"
    using Suc.prems by (intro blk_cong) (auto simp: nth_list_update)
  ultimately show ?case
    using Suc.prems by (simp add: blk_snoc blit_update_end)
qed simp

lemma movsl_step:
  assumes "p + 4 \<le> length m" and "q + 4 \<le> length m"
  shows "movsl m q p (Suc n) = movsl (blit m q (blk m p 4)) (q + 4) (p + 4) n"
proof -
  have "m[q := m ! p, q + 1 := m ! (p + 1), q + 2 := m ! (p + 2), q + 3 := m ! (p + 3)] =
      blit m q (blk m p 4)"
    using assms
    by (intro nth_equalityI) (auto simp: nth_blit nth_list_update eval_nat_numeral)
  then show ?thesis
    using assms by (simp add: numeral_2_eq_2 numeral_3_eq_3 eval_nat_numeral)
qed

lemma movsl_up:
  "p + 4 * n \<le> length m \<Longrightarrow> q + 4 * n \<le> length m \<Longrightarrow> q \<le> p \<or> p + 4 * n \<le> q \<Longrightarrow>
   movsl m q p n = Some (blit m q (blk m p (4 * n)))"
proof (induction n arbitrary: m q p)
  case (Suc n)
  let ?m = "blit m q (blk m p 4)"
  have "movsl ?m (q + 4) (p + 4) n = Some (blit ?m (q + 4) (blk ?m (p + 4) (4 * n)))"
    using Suc.prems by (intro Suc.IH) auto
  moreover have "blk ?m (p + 4) (4 * n) = blk m (p + 4) (4 * n)"
    using Suc.prems by (intro blk_blit_disjoint) auto
  moreover have "blit ?m (q + 4) (blk m (p + 4) (4 * n)) = blit m q (blk m p (4 * Suc n))"
    using blit_append [of m q "blk m p 4" "blk m (p + 4) (4 * n)"] blk_add [of m p 4 "4 * n"] by simp
  ultimately show ?case
    using Suc.prems by (simp add: movsl_step del: movsl.simps(2))
qed simp

lemma memcpy_up:
  assumes "p + n \<le> length m" and "q + n \<le> length m" and "q \<le> p \<or> p + n \<le> q"
  shows "memcpy m q p n = Some (q, blit m q (blk m p n))"
proof -
  define k where "k = 4 * (n div 4)"
  have n: "n = k + n mod 4" by (simp add: k_def)
  let ?m = "blit m q (blk m p k)"
  have *: "movsl m q p (n div 4) = Some ?m"
    using assms n by (subst movsl_up) (auto simp: k_def)
  have "movsb ?m (q + k) (p + k) (n mod 4) = Some (blit ?m (q + k) (blk ?m (p + k) (n mod 4)))"
    using assms n by (intro movsb_up) auto
  also have "blk ?m (p + k) (n mod 4) = blk m (p + k) (n mod 4)"
    using assms n by (intro blk_blit_disjoint) auto
  also have "blit ?m (q + k) (blk m (p + k) (n mod 4)) = blit m q (blk m p n)"
    using blit_append [of m q "blk m p k"] blk_add [of m p k "n mod 4"] n by simp
  finally show ?thesis
    using * by (simp add: memcpy_def k_def)
qed

lemma stosb_fills:
  "q + n \<le> length m \<Longrightarrow> stosb m q c n = Some (blit m q (replicate n c))"
  by (induction n arbitrary: m q) (simp_all add: blit_Cons [simplified])

lemma stosl_fills:
  "q + 4 * n \<le> length m \<Longrightarrow> stosl m q c n = Some (blit m q (replicate (4 * n) c))"
proof (induction n arbitrary: m q)
  case (Suc n)
  let ?m = "m[q := c, q + 1 := c, q + 2 := c, q + 3 := c]"
  have "?m = blit m q (replicate 4 c)"
    using Suc.prems
    by (intro nth_equalityI) (auto simp: nth_blit nth_list_update)
  then have "blit ?m (q + 4) (replicate (4 * n) c) = blit m q (replicate (4 * Suc n) c)"
    using blit_append [of m q "replicate 4 c" "replicate (4 * n) c"] replicate_add [of 4 "4 * n" c]
    by simp
  with Suc show ?case by simp
qed simp

lemma memset_fills:
  assumes "q + n \<le> length m"
  shows "memset m q c n = Some (q, blit m q (replicate n (to_char c)))"
proof -
  define k where "k = 4 * (n div 4)"
  have n: "n = k + n mod 4" by (simp add: k_def)
  have "stosl m q (to_char c) (n div 4) = Some (blit m q (replicate k (to_char c)))"
    using assms n by (subst stosl_fills) (auto simp: k_def)
  moreover have "stosb (blit m q (replicate k (to_char c))) (q + k) (to_char c) (n mod 4) =
      Some (blit m q (replicate n (to_char c)))"
    using assms n blit_append [of m q "replicate k (to_char c)" "replicate (n mod 4) (to_char c)"]
      replicate_add [of k "n mod 4" "to_char c"]
    by (simp add: stosb_fills)
  ultimately show ?thesis by (simp add: memset_def k_def)
qed

text \<open>
  \<^verbatim>\<open>memmove\<close> copies \<open>n\<close> bytes whatever the two areas share: afterwards the destination holds what
  the source held before the call, the other bytes are unchanged, and the destination is returned.
\<close>

lemma memmove_copies:
  assumes "src + n \<le> length m" and "dst + n \<le> length m"
  shows "\<exists>m'. memmove m dst src n = Some (dst, m') \<and> length m' = length m \<and>
     (\<forall>i. dst \<le> i \<and> i < dst + n \<longrightarrow> m' ! i = m ! (src + (i - dst))) \<and>
     (\<forall>i. i < length m \<and> \<not> (dst \<le> i \<and> i < dst + n) \<longrightarrow> m' ! i = m ! i)"
proof -
  have "memmove m dst src n = Some (dst, blit m dst (blk m src n))"
    using assms by (auto simp: memmove_def movsb_up movsb_down_up)
  then show ?thesis
    using assms by (auto simp: nth_blit)
qed

lemma memmove_copies_witness:
  "\<exists>m'. memmove ''abcdef'' 2 1 3 = Some (2, m') \<and> m' ! 2 = CHR ''b'' \<and> m' ! 3 = CHR ''c'' \<and>
     m' ! 4 = CHR ''d'' \<and> m' ! 5 = CHR ''f''"
  using memmove_copies [of 1 3 "''abcdef''" 2] by fastforce

section \<open>Terminated strings\<close>

text \<open>\<open>str_at m p s\<close>: the string \<open>s\<close>, without a zero inside, lies at \<open>p\<close> and a zero ends it.\<close>

definition str_at :: "bytes \<Rightarrow> ptr \<Rightarrow> string \<Rightarrow> bool" where
  "str_at m p s \<longleftrightarrow> p + length s < length m \<and> blk m p (length s) = s \<and>
     m ! (p + length s) = NUL \<and> NUL \<notin> set s"

lemma str_at_Nil [simp]: "str_at m p [] \<longleftrightarrow> p < length m \<and> m ! p = NUL"
  by (simp add: str_at_def)

lemma str_at_Cons [simp]:
  "str_at m p (c # s) \<longleftrightarrow> p < length m \<and> m ! p = c \<and> c \<noteq> NUL \<and> str_at m (p + 1) s"
  by (auto simp: str_at_def blk_Suc)

lemma str_atD:
  assumes "str_at m p s"
  shows "p + length s < length m" "blk m p (length s) = s" "m ! (p + length s) = NUL" "NUL \<notin> set s"
  using assms by (simp_all add: str_at_def)

lemma str_at_nth: "str_at m p s \<Longrightarrow> i < length s \<Longrightarrow> m ! (p + i) = s ! i"
  using str_atD(2) [of m p s] nth_blk [of i "length s" m p] by simp

lemma strlen_loop_str: "str_at m p s \<Longrightarrow> strlen_loop m p = Some (p + length s)"
  by (induction s arbitrary: p) (simp_all add: strlen_loop.simps [of m])

lemma strlen_str: "str_at m p s \<Longrightarrow> strlen m p = Some (length s)"
  by (simp add: strlen_def strlen_loop_str)

lemma strnlen_str: "str_at m p s \<Longrightarrow> strnlen m p n = Some (min (length s) n)"
proof -
  have "str_at m p s \<Longrightarrow> strnlen_loop m p n = Some (p + min (length s) n)" for p s n
  proof (induction s arbitrary: p n)
    case Nil then show ?case by (cases n) simp_all
  next
    case (Cons c s) then show ?case by (cases n) simp_all
  qed
  then show "str_at m p s \<Longrightarrow> ?thesis" by (simp add: strnlen_def)
qed

lemma to_char_0 [simp]: "to_char 0 = NUL"
  by (simp add: to_char_def char_of_def)

lemma strchr_loop_str:
  "str_at m p s \<Longrightarrow> strchr_loop m p c =
     Some (let n = length (takeWhile (\<lambda>x. x \<noteq> c) s) in
           if n < length s \<or> c = NUL then p + n else NULL)"
  by (induction s arbitrary: p) (auto simp: strchr_loop.simps [of m] Let_def)

lemma strchr_end: "str_at m p s \<Longrightarrow> strchr m p 0 = Some (p + length s)"
proof -
  assume s: "str_at m p s"
  then have "takeWhile (\<lambda>x. x \<noteq> NUL) s = s"
    unfolding takeWhile_eq_all_conv using str_atD(4) [OF s] by metis
  then have "length (takeWhile (\<lambda>x. x \<noteq> NUL) s) = length s" by (rule arg_cong)
  with s show ?thesis by (simp only: strchr_def strchr_loop_str to_char_0) (simp add: Let_def)
qed

lemma uchar_inj [simp]: "uchar a = uchar b \<longleftrightarrow> a = b"
  by (simp add: uchar_def)

lemma uchar_NUL [simp]: "uchar NUL = 0"
  by (simp add: uchar_def)

lemma uchar_range: "0 \<le> uchar c" "uchar c < 256"
proof -
  have "uchar c = uchar c mod 256" by (simp add: uchar_def)
  then show "0 \<le> uchar c" "uchar c < 256"
    by (metis pos_mod_sign zero_less_numeral, metis pos_mod_bound zero_less_numeral)
qed

lemma uchar_pos: "c \<noteq> NUL \<Longrightarrow> 0 < uchar c"
  using uchar_inj [of c NUL] uchar_range(1) [of c] by simp

text \<open>The order of strings as sequences of unsigned bytes.\<close>

fun str_diff :: "string \<Rightarrow> string \<Rightarrow> int" where
  "str_diff [] [] = 0"
| "str_diff [] (b # t) = - uchar b"
| "str_diff (a # s) [] = uchar a"
| "str_diff (a # s) (b # t) = (if a = b then str_diff s t else uchar a - uchar b)"

lemma strcmp_str: "str_at m p s \<Longrightarrow> str_at m q t \<Longrightarrow> strcmp m p q = Some (str_diff s t)"
proof (induction s t arbitrary: p q rule: str_diff.induct)
  case 1 then show ?case by (auto simp: strcmp.simps [of m p])
next
  case (2 b t)
  then show ?case using uchar_pos [of b] by (auto simp: strcmp.simps [of m p])
next
  case (3 a s)
  then show ?case using uchar_pos [of a] by (auto simp: strcmp.simps [of m p])
next
  case (4 a s b t)
  then show ?case by (auto simp: strcmp.simps [of m p])
qed

lemma str_diff_eq_0: "NUL \<notin> set s \<Longrightarrow> NUL \<notin> set t \<Longrightarrow> str_diff s t = 0 \<longleftrightarrow> s = t"
proof (induction s t rule: str_diff.induct)
  case (2 b t) then show ?case using uchar_pos [of b] by auto
next
  case (3 a s) then show ?case using uchar_pos [of a] by auto
qed auto

lemma str_diff_neg:
  "NUL \<notin> set s \<Longrightarrow> NUL \<notin> set t \<Longrightarrow> str_diff s t < 0 \<longleftrightarrow> (s, t) \<in> lexord {(a, b). uchar a < uchar b}"
proof (induction s t rule: str_diff.induct)
  case (2 b t) then show ?case using uchar_pos [of b] by auto
next
  case (3 a s) then show ?case using uchar_pos [of a] by auto
qed auto

text \<open>
  \<^verbatim>\<open>strcmp\<close> on two terminated strings returns a value whose sign is the lexicographic order of the
  strings as sequences of unsigned bytes: zero exactly when they are the same, negative exactly when
  the first comes before the second.
\<close>

theorem strcmp_is_lexicographic:
  assumes "str_at m p s" and "str_at m q t"
  shows "\<exists>d. strcmp m p q = Some d \<and> (d = 0 \<longleftrightarrow> s = t) \<and>
     (d < 0 \<longleftrightarrow> (s, t) \<in> lexord {(a, b). uchar a < uchar b})"
  using assms strcmp_str [OF assms] str_diff_eq_0 str_diff_neg str_atD(4) by blast

theorem strcmp_is_lexicographic_witness:
  "\<exists>d. strcmp (''ls'' @ [NUL] @ ''lx'' @ [NUL]) 0 3 = Some d \<and> d < 0"
proof -
  let ?m = "''ls'' @ [NUL] @ ''lx'' @ [NUL]"
  have "str_at ?m 0 ''ls''" and "str_at ?m 3 ''lx''" by simp_all
  from strcmp_is_lexicographic [OF this] show ?thesis
    by (auto simp: uchar_def)
qed

section \<open>Substring search\<close>

lemma memcmp_zero:
  "p + n \<le> length m \<Longrightarrow> q + n \<le> length m \<Longrightarrow>
   \<exists>d. memcmp m p q n = Some d \<and> (d = 0 \<longleftrightarrow> blk m p n = blk m q n)"
  by (induction n arbitrary: p q) (auto simp: blk_Suc Let_def)

text \<open>Whether the needle \<open>x\<close> occurs in the haystack \<open>y\<close> at \<open>j\<close>.\<close>

definition occurs_at :: "char list \<Rightarrow> char list \<Rightarrow> nat \<Rightarrow> bool" where
  "occurs_at x y j \<longleftrightarrow> j + length x \<le> length y \<and> take (length x) (drop j y) = x"

lemma occurs_at_nth:
  "occurs_at x y j \<longleftrightarrow> j + length x \<le> length y \<and> (\<forall>i<length x. y ! (j + i) = x ! i)"
  by (auto simp: occurs_at_def list_eq_iff_nth_eq)

text \<open>The position a search from the left returns, as a pointer into the haystack at \<open>p\<close>.\<close>

definition first_from :: "ptr \<Rightarrow> char list \<Rightarrow> char list \<Rightarrow> nat \<Rightarrow> ptr \<Rightarrow> bool" where
  "first_from p x y j r \<longleftrightarrow>
     (if \<exists>i\<ge>j. occurs_at x y i then
        (\<exists>i\<ge>j. occurs_at x y i \<and> (\<forall>h. j \<le> h \<and> h < i \<longrightarrow> \<not> occurs_at x y h) \<and> r = p + i)
      else r = NULL)"

lemma first_from_skip:
  assumes "first_from p x y (j + k) r" and "\<And>h. j \<le> h \<Longrightarrow> h < j + k \<Longrightarrow> \<not> occurs_at x y h"
  shows "first_from p x y j r"
proof -
  have ge: "j + k \<le> i" if "j \<le> i" "occurs_at x y i" for i
    using assms(2) that by (meson not_le)
  show ?thesis
  proof (cases "\<exists>i\<ge>j. occurs_at x y i")
    case True
    with ge have "\<exists>i\<ge>j + k. occurs_at x y i" by blast
    with assms(1) obtain i where i: "j + k \<le> i" "occurs_at x y i" "r = p + i"
      "\<forall>h. j + k \<le> h \<and> h < i \<longrightarrow> \<not> occurs_at x y h"
      unfolding first_from_def by auto
    then have "\<forall>h. j \<le> h \<and> h < i \<longrightarrow> \<not> occurs_at x y h" using ge by blast
    with True i show ?thesis unfolding first_from_def by auto
  next
    case False
    then have "\<not> (\<exists>i\<ge>j + k. occurs_at x y i)" by auto
    with False assms(1) show ?thesis unfolding first_from_def by auto
  qed
qed

lemma first_from_hit: "occurs_at x y j \<Longrightarrow> first_from p x y j (p + j)"
  by (auto simp: first_from_def)

lemma first_from_none: "length y < j + length x \<Longrightarrow> first_from p x y j NULL"
  by (auto simp: first_from_def occurs_at_def)

lemma first_from_tail: "first_from (p + 1) x ys j r \<Longrightarrow> first_from p x (c # ys) (j + 1) r"
proof -
  assume r: "first_from (p + 1) x ys j r"
  have shift: "occurs_at x (c # ys) (Suc i) \<longleftrightarrow> occurs_at x ys i" for i
    by (simp add: occurs_at_def)
  have down: "\<exists>i'. i = Suc i' \<and> j \<le> i'" if "j + 1 \<le> i" for i
    using that by (cases i) auto
  show ?thesis
  proof (cases "\<exists>i\<ge>j. occurs_at x ys i")
    case True
    with r obtain i where i: "j \<le> i" "occurs_at x ys i" "r = p + Suc i"
      "\<forall>h. j \<le> h \<and> h < i \<longrightarrow> \<not> occurs_at x ys h"
      unfolding first_from_def by auto
    have "\<not> occurs_at x (c # ys) h" if h: "j + 1 \<le> h" "h < Suc i" for h
    proof -
      obtain h' where "h = Suc h'" "j \<le> h'" using down [OF h(1)] by blast
      with i(4) h(2) show ?thesis by (simp add: shift)
    qed
    with i shift show ?thesis unfolding first_from_def by (auto intro: exI [of _ "Suc i"])
  next
    case False
    then have "\<not> (\<exists>i\<ge>j + 1. occurs_at x (c # ys) i)" using down shift by blast
    with False r show ?thesis unfolding first_from_def by auto
  qed
qed

lemma occurs_blk:
  "occurs_at (blk m x len) (blk m y n) h \<longleftrightarrow>
     h + len \<le> n \<and> (\<forall>i<len. m ! (y + (h + i)) = m ! (x + i))"
  by (auto simp: occurs_at_nth)

text \<open>The comparison of the first two bytes and of the rest decides whether the needle is here.\<close>

lemma occurs_blk_split:
  assumes "2 \<le> len" and "h + len \<le> n"
  shows "occurs_at (blk m x len) (blk m y n) h \<longleftrightarrow>
     m ! x = m ! (y + h) \<and> m ! (x + 1) = m ! (y + h + 1) \<and>
     blk m (x + 2) (len - 2) = blk m (y + h + 2) (len - 2)"
proof -
  obtain l where l: "len = Suc (Suc l)" using assms(1) by (metis Suc_le_D numeral_2_eq_2 Suc_le_mono)
  have "blk m x len = blk m (y + h) len \<longleftrightarrow> occurs_at (blk m x len) (blk m y n) h"
    using assms(2) by (auto simp: occurs_blk list_eq_iff_nth_eq add.assoc)
  then show ?thesis by (auto simp: l blk_Suc)
qed

lemma occurs_blk_second:
  assumes "2 \<le> len" and "m ! (y + h + 1) \<noteq> m ! (x + 1) \<or> m ! (y + h) \<noteq> m ! x"
  shows "\<not> occurs_at (blk m x len) (blk m y n) h"
  using assms occurs_blk_split [of len h n m x y] by (auto simp: occurs_blk)

lemma memmem_scan_first:
  assumes y: "y + n \<le> length m" and x: "x + len \<le> length m" and len: "2 \<le> len" "len \<le> n"
    and same: "same \<longleftrightarrow> m ! x = m ! (x + 1)"
  shows "\<exists>r. memmem_scan m y n x len same j = Some r \<and> first_from y (blk m x len) (blk m y n) j r"
proof (induction "Suc (n - len) - j" arbitrary: j rule: less_induct)
  case less
  let ?X = "blk m x len" and ?Y = "blk m y n"
  note step = memmem_scan.simps [of m y n x len same j]
  note miss = occurs_blk_second [OF len(1), of m y _ x n]
  show ?case
  proof (cases "j \<le> n - len")
    case False
    then have "first_from y ?X ?Y j NULL" by (intro first_from_none) simp
    with False show ?thesis by (simp add: step)
  next
    case j: True
    have ins: "x + 1 < length m" "x < length m" "y + j + 1 < length m" "y + j < length m"
      using j len x y by simp_all
    have go: "\<exists>r. memmem_scan m y n x len same j = Some r \<and> first_from y ?X ?Y j r"
      if eq: "memmem_scan m y n x len same j = memmem_scan m y n x len same (j + k)"
        and "0 < k" and no: "\<And>h. j \<le> h \<Longrightarrow> h < j + k \<Longrightarrow> \<not> occurs_at ?X ?Y h" for k
    proof -
      have "Suc (n - len) - (j + k) < Suc (n - len) - j" using j \<open>0 < k\<close> by simp
      from less [OF this] obtain r where "memmem_scan m y n x len same (j + k) = Some r"
        "first_from y ?X ?Y (j + k) r" by blast
      with first_from_skip [OF _ no] eq show ?thesis by metis
    qed
    have "x + 2 + (len - 2) \<le> length m" and "y + j + 2 + (len - 2) \<le> length m"
      using len x y j by linarith+
    from memcmp_zero [OF this] obtain d where d: "memcmp m (x + 2) (y + j + 2) (len - 2) = Some d"
      "d = 0 \<longleftrightarrow> blk m (x + 2) (len - 2) = blk m (y + j + 2) (len - 2)" by blast
    consider (other) "m ! (x + 1) \<noteq> m ! (y + j + 1)"
      | (hit) "m ! (x + 1) = m ! (y + j + 1)" "d = 0" "m ! x = m ! (y + j)"
      | (near) "m ! (x + 1) = m ! (y + j + 1)" "\<not> (d = 0 \<and> m ! x = m ! (y + j))" by blast
    then show ?thesis
    proof cases
      case other
      show ?thesis
      proof (rule go [of "shift_k same"])
        fix h assume "j \<le> h" "h < j + shift_k same"
        then have "h = j \<or> h = j + 1 \<and> same" by (auto simp: shift_k_def split: if_splits)
        with other same show "\<not> occurs_at ?X ?Y h" by (intro miss) (auto simp: add.assoc)
      qed (use other j ins in \<open>simp_all add: step shift_k_def\<close>)
    next
      case hit
      then have "occurs_at ?X ?Y j" using d(2) j len by (simp add: occurs_blk_split)
      with hit d(1) j ins show ?thesis by (simp add: step first_from_hit)
    next
      case near
      show ?thesis
      proof (rule go [of "shift_l same"])
        fix h assume "j \<le> h" "h < j + shift_l same"
        then have "h = j \<or> h = j + 1 \<and> \<not> same" by (auto simp: shift_l_def split: if_splits)
        then show "\<not> occurs_at ?X ?Y h"
          using near d(2) j len same miss [of h] by (auto simp: occurs_blk_split add.assoc)
      qed (use near d(1) j ins in \<open>auto simp: step shift_l_def\<close>)
    qed
  qed
qed

lemma memmem_one_first:
  assumes "x < length m"
  shows "y + n \<le> length m \<Longrightarrow>
    \<exists>r. memmem_one m y x n = Some r \<and> first_from y [m ! x] (blk m y n) 0 r"
proof (induction n arbitrary: y)
  case 0
  then show ?case by (simp add: first_from_none)
next
  case (Suc n)
  show ?case
  proof (cases "m ! y = m ! x")
    case True
    then have "first_from y [m ! x] (blk m y (Suc n)) 0 (y + 0)"
      by (intro first_from_hit) (simp add: occurs_at_nth)
    with True Suc.prems assms show ?thesis by simp
  next
    case False
    obtain r where r: "memmem_one m (y + 1) x n = Some r"
      "first_from (y + 1) [m ! x] (blk m (y + 1) n) 0 r"
      using Suc.IH [of "y + 1"] Suc.prems by auto
    then have "first_from y [m ! x] (blk m y (Suc n)) (0 + 1) r"
      unfolding blk_Suc by (intro first_from_tail)
    then have "first_from y [m ! x] (blk m y (Suc n)) 0 r"
      by (rule first_from_skip) (use False in \<open>auto simp: occurs_at_nth\<close>)
    with r(1) False Suc.prems assms show ?thesis by simp
  qed
qed

lemma memmem_first:
  assumes "y + n \<le> length m" and "x + len \<le> length m" and "0 < len"
  shows "\<exists>r. memmem m y n x len = Some r \<and> first_from y (blk m x len) (blk m y n) 0 r"
proof -
  consider "n < len" | "len = 1" "len \<le> n" | "2 \<le> len" "len \<le> n" using assms(3) by linarith
  then show ?thesis
  proof cases
    case 1
    then show ?thesis by (simp add: memmem_def first_from_none)
  next
    case 2
    then show ?thesis
      using memmem_one_first [of x m y n] assms by (simp add: memmem_def blk_Suc)
  next
    case 3
    then show ?thesis
      using memmem_scan_first [of y n m x len "m ! x = m ! (x + 1)" 0] assms by (simp add: memmem_def)
  qed
qed

text \<open>
  C29. \<^verbatim>\<open>strstr\<close> (the ``not so naive'' search of \<^verbatim>\<open>memmem\<close> on two terminated strings) returns a pointer to
  the leftmost occurrence of a nonempty needle, and the null pointer exactly when there is none.
\<close>

theorem strstr_first_occurrence:
  assumes "str_at m p hay" and "str_at m q needle" and "needle \<noteq> []" and "0 < p"
  shows "\<exists>r. strstr m p q = Some r \<and>
     (r = NULL \<longleftrightarrow> (\<forall>i. \<not> occurs_at needle hay i)) \<and>
     (r \<noteq> NULL \<longrightarrow> p \<le> r \<and> occurs_at needle hay (r - p) \<and> (\<forall>h. h < r - p \<longrightarrow> \<not> occurs_at needle hay h))"
proof -
  obtain r where r: "memmem m p (length hay) q (length needle) = Some r"
    "first_from p needle hay 0 r"
    using memmem_first [of p "length hay" m q "length needle"] assms str_atD [OF assms(1)]
      str_atD [OF assms(2)] by auto
  then have "strstr m p q = Some r"
    using assms by (simp add: strstr_def strlen_str)
  with r(2) \<open>0 < p\<close> show ?thesis unfolding first_from_def by (auto split: if_splits)
qed

theorem strstr_first_occurrence_witness:
  "\<exists>r. strstr ([NUL] @ ''aabaab'' @ [NUL] @ ''aab'' @ [NUL]) 1 8 = Some r \<and> r \<noteq> NULL \<and>
     occurs_at ''aab'' ''aabaab'' (r - 1)"
proof -
  let ?m = "[NUL] @ ''aabaab'' @ [NUL] @ ''aab'' @ [NUL]"
  have "str_at ?m 1 ''aabaab''" "str_at ?m 8 ''aab''" by simp_all
  from strstr_first_occurrence [OF this] obtain r where r: "strstr ?m 1 8 = Some r"
    "r = NULL \<longleftrightarrow> (\<forall>i. \<not> occurs_at ''aab'' ''aabaab'' i)"
    "r \<noteq> NULL \<longrightarrow> occurs_at ''aab'' ''aabaab'' (r - 1)" by auto
  moreover have "occurs_at ''aab'' ''aabaab'' 0" by (simp add: occurs_at_def)
  ultimately show ?thesis by blast
qed

section \<open>Spans and tokens\<close>

lemma uchar_nat_inj [simp]: "nat (uchar a) = nat (uchar b) \<longleftrightarrow> a = b"
  using uchar_range(1) [of a] uchar_range(1) [of b] by (simp add: eq_nat_nat_iff)

lemma uchar_nat_less [simp]: "nat (uchar a) < 256"
  using uchar_range(2) [of a] uchar_range(1) [of a] by linarith

lemma match_map_str:
  "str_at m p ds \<Longrightarrow> length mm = 256 \<Longrightarrow>
   \<exists>mm'. match_map m p mm = Some mm' \<and> length mm' = 256 \<and>
     (\<forall>c. mm' ! nat (uchar c) = (if c \<in> set ds then 1 else mm ! nat (uchar c)))"
proof (induction ds arbitrary: p mm)
  case Nil
  then show ?case by (simp add: match_map.simps [of m])
next
  case (Cons d ds)
  from Cons.IH [of "p + 1" "mm[nat (uchar d) := 1]"] Cons.prems
  obtain mm' where "match_map m (p + 1) (mm[nat (uchar d) := 1]) = Some mm'" "length mm' = 256"
    "\<forall>c. mm' ! nat (uchar c) = (if c \<in> set ds then 1 else mm[nat (uchar d) := 1] ! nat (uchar c))"
    by auto
  with Cons.prems show ?case by (auto simp: match_map.simps [of m p] nth_list_update)
qed

lemma strxspn_loop_str:
  assumes "\<forall>c. mm ! nat (uchar c) \<noteq> parity \<longleftrightarrow> c \<noteq> NUL \<and> P c"
  shows "str_at m p s \<Longrightarrow> strxspn_loop m p mm parity n = Some (n + length (takeWhile P s))"
proof (induction s arbitrary: p n)
  case Nil
  then show ?case using assms by (auto simp: strxspn_loop.simps [of m p])
next
  case (Cons c s)
  then show ?case using assms by (auto simp: strxspn_loop.simps [of m p])
qed

lemma strxspn_str:
  assumes "str_at m p s" and "str_at m q ds" and "parity = 0 \<or> parity = 1"
  shows "strxspn m p q parity =
     Some (length (takeWhile (\<lambda>c. (c \<in> set ds) = (parity = 0)) s))"
proof -
  obtain mm where mm: "match_map m q (replicate 256 0) = Some mm" "length mm = 256"
    "\<forall>c. mm ! nat (uchar c) = (if c \<in> set ds then 1 else replicate 256 0 ! nat (uchar c))"
    using match_map_str [OF assms(2), of "replicate 256 0"] by auto
  have "(mm[0 := parity]) ! nat (uchar c) \<noteq> parity \<longleftrightarrow> c \<noteq> NUL \<and> (c \<in> set ds) = (parity = 0)" for c
    using mm uchar_nat_inj [of c NUL] assms(3) uchar_pos [of c]
    by (cases "c = NUL") (auto simp: nth_list_update)
  then have "strxspn_loop m p (mm[0 := parity]) parity 0 =
      Some (0 + length (takeWhile (\<lambda>c. (c \<in> set ds) = (parity = 0)) s))"
    by (intro strxspn_loop_str assms(1)) blast
  with mm(1) show ?thesis by (simp add: strxspn_def)
qed

lemma strspn_str:
  "str_at m p s \<Longrightarrow> str_at m q ds \<Longrightarrow> strspn m p q = Some (length (takeWhile (\<lambda>c. c \<in> set ds) s))"
  using strxspn_str [of m p s q ds 0] by (simp add: strspn_def)

lemma strcspn_str:
  "str_at m p s \<Longrightarrow> str_at m q ds \<Longrightarrow> strcspn m p q = Some (length (takeWhile (\<lambda>c. c \<notin> set ds) s))"
  using strxspn_str [of m p s q ds 1] by (simp add: strcspn_def)

lemma strpbrk_str:
  assumes "str_at m p s" and "str_at m q ds"
  defines "n \<equiv> length (takeWhile (\<lambda>c. c \<notin> set ds) s)"
  shows "strpbrk m p q = Some (if n < length s then p + n else NULL)"
proof -
  have n: "n \<le> length s" by (simp add: n_def length_takeWhile_le)
  have "strxspn m p q 1 = Some n"
    using strxspn_str [OF assms(1,2), of 1] by (simp add: n_def)
  moreover have "m ! (p + n) = NUL \<longleftrightarrow> n = length s"
  proof (cases "n = length s")
    case True then show ?thesis using str_atD(3) [OF assms(1)] by simp
  next
    case False
    with n have "n < length s" by simp
    then have "m ! (p + n) \<in> set s" using str_at_nth [OF assms(1), of n] by simp
    with False show ?thesis using str_atD(4) [OF assms(1)] by auto
  qed
  moreover have "p + n < length m" using n str_atD(1) [OF assms(1)] by simp
  ultimately show ?thesis using n by (auto simp: strpbrk_def)
qed

lemma str_at_update_outside:
  assumes "str_at m p s" and "i < p \<or> p + length s < i"
  shows "str_at (m[i := c]) p s"
proof -
  have "blk (m[i := c]) p (length s) = blk m p (length s)"
    using assms(2) by (intro blk_cong) (auto simp: nth_list_update)
  with assms show ?thesis by (auto simp: str_at_def nth_list_update)
qed

lemma str_at_split:
  assumes "str_at m p s" and "n < length s"
  shows "str_at (m[p + n := NUL]) p (take n s)" and "str_at (m[p + n := NUL]) (p + n + 1) (drop (n + 1) s)"
proof -
  have "blk (m[p + n := NUL]) p n = take n s"
    using assms str_at_nth [OF assms(1)] by (intro nth_equalityI) (auto simp: nth_list_update)
  then show "str_at (m[p + n := NUL]) p (take n s)"
    using assms str_atD [OF assms(1)] by (auto simp: str_at_def dest: in_set_takeD)
  have "m ! (p + n + 1 + i) = s ! (n + 1 + i)" if "i < length s - (n + 1)" for i
    using that str_at_nth [OF assms(1), of "n + 1 + i"] by (simp add: add.assoc)
  then have "blk (m[p + n := NUL]) (p + n + 1) (length s - (n + 1)) = drop (n + 1) s"
    using assms(2) by (intro nth_equalityI) (auto simp: nth_list_update)
  moreover have "p + n + 1 + length (drop (n + 1) s) = p + length s" using assms(2) by simp
  ultimately show "str_at (m[p + n := NUL]) (p + n + 1) (drop (n + 1) s)"
    using assms str_atD [OF assms(1)] by (auto simp: str_at_def nth_list_update dest: in_set_dropD)
qed

text \<open>
  One call of \<^verbatim>\<open>strtok\<close>: it returns the current position, where the terminated token is now the
  part of the string before the first delimiter, and moves the holder to the rest after that
  delimiter, or to the null pointer when there is none; the list of delimiters stays readable.
\<close>

lemma strtok_splits:
  assumes "str_at m p s" and "str_at m q ds" and "0 < p"
    and "q + length ds < p \<or> p + length s < q"
    and "arg = p \<or> arg = NULL \<and> holder = p"
  shows "\<exists>rest m'. strtok m holder arg q = Some (p, rest, m') \<and>
     str_at m' p (takeWhile (\<lambda>c. c \<notin> set ds) s) \<and> str_at m' q ds \<and>
     (if set s \<inter> set ds = {} then rest = NULL
      else rest = p + length (takeWhile (\<lambda>c. c \<notin> set ds) s) + 1 \<and>
        str_at m' rest (tl (dropWhile (\<lambda>c. c \<notin> set ds) s)))"
proof -
  define n where "n = length (takeWhile (\<lambda>c. c \<notin> set ds) s)"
  have tok: "strtok m holder arg q = strsep m p q"
    using assms(3,5) by (auto simp: strtok_def)
  have brk: "strpbrk m p q = Some (if n < length s then p + n else NULL)"
    unfolding n_def by (rule strpbrk_str [OF assms(1,2)])
  have take: "takeWhile (\<lambda>c. c \<notin> set ds) s = take n s"
    unfolding n_def by (rule takeWhile_eq_take)
  have drop: "tl (dropWhile (\<lambda>c. c \<notin> set ds) s) = drop (n + 1) s"
    unfolding n_def dropWhile_eq_drop tl_drop by (simp add: drop_Suc)
  show ?thesis
  proof (cases "set s \<inter> set ds = {}")
    case True
    then have "takeWhile (\<lambda>c. c \<notin> set ds) s = s" by (auto simp: takeWhile_eq_all_conv)
    moreover from this have "n = length s" unfolding n_def by (rule arg_cong)
    ultimately show ?thesis
      using True assms brk by (simp add: tok take strsep_def)
  next
    case False
    have "n < length s"
    proof (rule ccontr)
      assume "\<not> n < length s"
      then have "takeWhile (\<lambda>c. c \<notin> set ds) s = s" using take by simp
      then have "\<forall>c\<in>set s. c \<notin> set ds" by (simp only: takeWhile_eq_all_conv)
      with False show False by auto
    qed
    moreover from this have "strsep m p q = Some (p, p + n + 1, m[p + n := NUL])"
      using assms brk str_atD(1) [OF assms(1)] by (simp add: strsep_def)
    moreover have "str_at (m[p + n := NUL]) q ds"
      using \<open>n < length s\<close> assms by (intro str_at_update_outside) auto
    ultimately show ?thesis
      using False str_at_split [OF assms(1)] by (simp add: tok take drop)
  qed
qed

lemma strtok_splits_witness:
  "\<exists>rest m'. strtok ('' '' @ [NUL] @ ''kill 3'' @ [NUL]) 2 NULL 0 = Some (2, rest, m') \<and>
     str_at m' 2 ''kill'' \<and> str_at m' rest ''3''"
proof -
  let ?m = "'' '' @ [NUL] @ ''kill 3'' @ [NUL]"
  have "str_at ?m 2 ''kill 3''" "str_at ?m 0 '' ''" by simp_all
  from strtok_splits [OF this, of NULL 2] show ?thesis by auto
qed

section \<open>Bounded copies\<close>

lemma strlcat_copy_str:
  assumes "str_at m p s" and "q + (sz - k) \<le> length m" and "k < sz"
    and "p + length s < q \<or> q + (sz - k) \<le> p"
  shows "strlcat_copy m q p k sz =
     Some (k + length s, blit m q (take (sz - k - 1) s @ [NUL]))"
  using assms
proof (induction s arbitrary: m p q k)
  case Nil
  then have "m[q := NUL] = blit m q [NUL]" using blit_Cons [of q m NUL "[]"] by simp
  with Nil show ?case by (simp add: strlcat_copy.simps [of m])
next
  case (Cons c s)
  show ?case
  proof (cases "k + 1 < sz")
    case True
    let ?m = "m[q := c]"
    have "str_at ?m (p + 1) s"
      using Cons.prems True by (intro str_at_update_outside) auto
    then have "strlcat_copy ?m (q + 1) (p + 1) (k + 1) sz =
        Some (k + 1 + length s, blit ?m (q + 1) (take (sz - (k + 1) - 1) s @ [NUL]))"
      using Cons.prems True by (intro Cons.IH) auto
    moreover have "take (sz - k - 1) (c # s) = c # take (sz - (k + 1) - 1) s"
      using True by (cases "sz - k - 1") simp_all
    ultimately show ?thesis
      using True Cons.prems blit_Cons [of q m c] by (simp add: strlcat_copy.simps [of m q])
  next
    case False
    with Cons.prems have sz: "sz = Suc k" by simp
    have "strlcat_copy m q p' k' sz = Some (k' + length s, blit m q [NUL])"
      if "str_at m p' s" "k < k'" for p' k' s
      using that
    proof (induction s arbitrary: p' k')
      case Nil
      then have "m[q := NUL] = blit m q [NUL]" using blit_Cons [of q m NUL "[]"] Cons.prems(2) sz by simp
      with Nil Cons.prems(2) sz show ?case by (simp add: strlcat_copy.simps [of m])
    next
      case (Cons c' s')
      then show ?case using sz by (simp add: strlcat_copy.simps [of m q p'])
    qed
    from this [of "p + 1" s "k + 1"] show ?thesis
      using Cons.prems sz by (simp add: strlcat_copy.simps [of m q p])
  qed
qed

text \<open>
  \<^verbatim>\<open>strlcat\<close> never writes outside the \<open>sz\<close> bytes of the destination, leaves a terminated string in it
  that is the longest prefix of the concatenation that fits, and returns the length the whole
  concatenation would have.
\<close>

lemma strlcat_bounded:
  assumes "str_at m q d" and "str_at m p s" and "length d < sz" and "q + sz \<le> length m"
    and "p + length s < q \<or> q + sz \<le> p"
  shows "\<exists>m'. strlcat m q p sz = Some (length d + length s, m') \<and> length m' = length m \<and>
     str_at m' q (take (sz - 1) (d @ s)) \<and>
     (\<forall>i. i < length m \<and> \<not> (q \<le> i \<and> i < q + sz) \<longrightarrow> m' ! i = m ! i)"
proof -
  define t where "t = take (sz - length d - 1) s"
  let ?m = "blit m (q + length d) (t @ [NUL])"
  have "strnlen m q sz = Some (length d)" using assms(1,3) by (simp add: strnlen_str)
  moreover have "strlcat_copy m (q + length d) p (length d) sz = Some (length d + length s, ?m)"
    using assms unfolding t_def by (intro strlcat_copy_str) auto
  ultimately have run: "strlcat m q p sz = Some (length d + length s, ?m)"
    using assms(3) by (simp add: strlcat_def)
  have t: "length d + length t < sz" "take (sz - 1) (d @ s) = d @ t"
    using assms(3) by (auto simp: t_def)
  have "blk ?m (q + length d) (length (t @ [NUL])) = t @ [NUL]"
    using t(1) assms(4) by (intro blk_blit_same) simp
  then have "blk ?m (q + length d) (length t) = t" "?m ! (q + length d + length t) = NUL"
    by (simp_all add: blk_snoc)
  moreover have "blk ?m q (length d) = d"
    using str_atD [OF assms(1)] by (subst blk_blit_disjoint) auto
  ultimately have "str_at ?m q (d @ t)"
    using str_atD [OF assms(1)] str_atD [OF assms(2)] t(1) assms(4)
    by (auto simp: str_at_def blk_add add.assoc t_def dest: in_set_takeD)
  with run t show ?thesis by (auto simp: nth_blit)
qed

lemma strlcat_bounded_witness:
  "\<exists>m'. strlcat (''ab'' @ [NUL] @ ''xy'' @ [NUL, CHR ''.'']) 3 0 4 = Some (4, m') \<and> str_at m' 3 ''xya''"
proof -
  let ?m = "''ab'' @ [NUL] @ ''xy'' @ [NUL, CHR ''.'']"
  have "str_at ?m 3 ''xy''" "str_at ?m 0 ''ab''" by simp_all
  from strlcat_bounded [OF this, of 4] show ?thesis by auto
qed

section \<open>Windows of a buffer\<close>

text \<open>
  \<^verbatim>\<open>memread\<close> on buffers that do not overlap, as a function on the contents of the input buffer: the
  bytes it copies to the output buffer, whose number it returns. The file system uses it in this
  form.
\<close>

definition seq_memread :: "char list \<Rightarrow> u32 \<Rightarrow> u32 \<Rightarrow> char list" where
  "seq_memread xs offset len = take (unat len) (drop (unat offset) xs)"

lemma memread_window:
  assumes "bufin + length xs \<le> length m" and "blk m bufin (length xs) = xs"
    and "length xs < 2 ^ 31" and "length m \<le> 2 ^ 32"
    and "bufout + length xs \<le> length m" and "bufout + length xs \<le> bufin \<or> bufin + length xs \<le> bufout"
  shows "memread m bufin (of_nat (length xs)) (sint (offset :: u32)) bufout len =
     Some (int (length (seq_memread xs offset len)), blit m bufout (seq_memread xs offset len))"
proof -
  have sin: "unat (of_nat (length xs) :: u32) = length xs"
    using assms(3) by (simp add: unat_of_nat)
  have off: "word_of_int (sint offset) = offset" by simp
  show ?thesis
  proof (cases "len = 0 \<or> length xs \<le> unat offset")
    case True
    then show ?thesis
      using sin by (auto simp: memread_def seq_memread_def word_le_nat_alt)
  next
    case False
    define l :: u32 where "l = (if len > of_nat (length xs) - offset then of_nat (length xs) - offset else len)"
    have le: "offset \<le> of_nat (length xs)" using False sin by (simp add: word_le_nat_alt)
    have sub: "unat (of_nat (length xs) - offset :: u32) = length xs - unat offset"
      using le sin by (simp add: unat_sub)
    have l: "unat l = min (unat len) (length xs - unat offset)"
      by (auto simp: l_def word_less_nat_alt sub min_def)
    then have "unat l < 2 ^ 31" using assms(3) by simp
    then have sl: "sint l = int (unat l)" by (rule sint_small)
    have "unat offset < 2 ^ 31" using False assms(3) by simp
    then have so: "sint offset = int (unat offset)" by (rule sint_small)
    have addr: "nat ((int bufin + sint offset) mod 2 ^ 32) = bufin + unat offset"
    proof -
      have "bufin + unat offset < 2 ^ 32" using False assms(1,4) by linarith
      then have "(bufin + unat offset) mod 2 ^ 32 = bufin + unat offset" by (rule mod_less)
      then have "int (bufin + unat offset) mod 2 ^ 32 = int (bufin + unat offset)"
        by (metis of_nat_mod of_nat_numeral of_nat_power)
      then show ?thesis unfolding so of_nat_add [symmetric] by (simp only: nat_int)
    qed
    have win: "blk m (bufin + unat offset) (unat l) = seq_memread xs offset len"
    proof -
      have "blk m (bufin + unat offset) (unat l) = take (unat l) (drop (unat offset) (blk m bufin (length xs)))"
        using False l by (intro nth_equalityI) (auto simp: add.assoc)
      also have "\<dots> = seq_memread xs offset len"
        using assms(2) by (simp add: seq_memread_def l min_def)
      finally show ?thesis .
    qed
    have "memcpy m bufout (bufin + unat offset) (unat l) = Some (bufout, blit m bufout (seq_memread xs offset len))"
      using assms False l unfolding win [symmetric] by (intro memcpy_up) auto
    moreover have "length (seq_memread xs offset len) = unat l"
      using l by (simp add: seq_memread_def)
    moreover have "memread m bufin (of_nat (length xs)) (sint offset) bufout len =
        Option.bind (memcpy m bufout (bufin + unat offset) (unat l)) (\<lambda>(_, m). Some (sint l, m))"
      using False sin unfolding memread_def off addr l_def [symmetric] by (simp add: word_le_nat_alt)
    ultimately show ?thesis
      using sl by simp
  qed
qed

end
