(* ===== verification/Strtol.thy ===== *)
theory Strtol
  imports Kstring
begin

text \<open>
  Reading numbers (\<^verbatim>\<open>shared/strtol.c\<close>, \<^verbatim>\<open>shared/strtoul.c\<close>, \<^verbatim>\<open>shared/ctype.h\<close>) from a terminated string in
  memory. The arithmetic is that of 32-bit words; \<open>strtol\<close> returns the word whose signed reading is
  the \<^verbatim>\<open>long\<close>. The second component of the result is the value stored through \<^verbatim>\<open>out_p\<close>.
\<close>

definition isspace :: "char \<Rightarrow> bool" where
  "isspace c \<longleftrightarrow> c = CHR '' '' \<or> c = CHR 0x0C \<or> c = CHR 0x0A \<or> c = CHR 0x0D \<or> c = CHR 0x09 \<or> c = CHR 0x0B"

function skip_spaces :: "bytes \<Rightarrow> ptr \<Rightarrow> ptr option" where
  "skip_spaces m p = do { c \<leftarrow> ld m p; if isspace c then skip_spaces m (p + 1) else Some p }"
  by pat_completeness auto
termination by (relation "measure (\<lambda>(m, p). length m - p)") auto

text \<open>The prefix of a hexadecimal number and the choice of the base when the caller gives none.\<close>

definition hex_prefix :: "bytes \<Rightarrow> ptr \<Rightarrow> int \<Rightarrow> (ptr \<times> int) option" where
  "hex_prefix m p base = do {
     c \<leftarrow> ld m p;
     if (base = 16 \<or> base = 0) \<and> c = CHR ''0'' then do {
       x \<leftarrow> ld m (p + 1);
       Some (if x = CHR ''x'' \<or> x = CHR ''X'' then (p + 2, 16) else (p, base)) }
     else Some (p, base) }"

definition guess_base :: "bytes \<Rightarrow> ptr \<Rightarrow> int \<Rightarrow> int option" where
  "guess_base m p base =
     (if base = 0 then do { c \<leftarrow> ld m p; Some (if c = CHR ''0'' then 8 else 10) } else Some base)"

text \<open>The value of a character as a digit, if it is one in the base.\<close>

definition digit_in :: "int \<Rightarrow> char \<Rightarrow> int option" where
  "digit_in base c =
     (let u = uchar c in
      if u \<ge> uchar (CHR ''0'') \<and> u \<le> uchar (CHR ''9'') \<and> u - uchar (CHR ''0'') < base
      then Some (u - uchar (CHR ''0''))
      else if u \<ge> uchar (CHR ''a'') \<and> u \<le> uchar (CHR ''z'') \<and> u - uchar (CHR ''a'') + 10 < base
      then Some (u - uchar (CHR ''a'') + 10)
      else if u \<ge> uchar (CHR ''A'') \<and> u \<le> uchar (CHR ''Z'') \<and> u - uchar (CHR ''A'') + 10 < base
      then Some (u - uchar (CHR ''A'') + 10)
      else None)"

function read_digits :: "bytes \<Rightarrow> ptr \<Rightarrow> int \<Rightarrow> u32 \<Rightarrow> (u32 \<times> ptr) option" where
  "read_digits m p base v = do {
     c \<leftarrow> ld m p;
     (case digit_in base c of
        Some d \<Rightarrow> read_digits m (p + 1) base (v * word_of_int base + word_of_int d)
      | None \<Rightarrow> Some (v, p)) }"
  by pat_completeness auto
termination by (relation "measure (\<lambda>(m, p, _). length m - p)") auto

declare skip_spaces.simps [simp del] read_digits.simps [simp del]

definition strtol :: "bytes \<Rightarrow> ptr \<Rightarrow> int \<Rightarrow> (u32 \<times> ptr) option" where
  "strtol m p base = do {
     p \<leftarrow> skip_spaces m p;
     c \<leftarrow> ld m p;
     let (is_neg, p) = (if c = CHR ''-'' then (True, p + 1) else (False, p));
     (p, base) \<leftarrow> hex_prefix m p base;
     base \<leftarrow> guess_base m p base;
     (v, p) \<leftarrow> read_digits m p base 0;
     Some (if is_neg then - v else v, p) }"

definition strtoul :: "bytes \<Rightarrow> ptr \<Rightarrow> int \<Rightarrow> (u32 \<times> ptr) option" where
  "strtoul m p base = do {
     p \<leftarrow> skip_spaces m p;
     (p, base) \<leftarrow> hex_prefix m p base;
     base \<leftarrow> guess_base m p base;
     read_digits m p base 0 }"

section \<open>Reading a sequence of digits\<close>

lemma digit_in_NUL [simp]: "digit_in base NUL = None"
  by (simp add: digit_in_def uchar_def)

text \<open>The value that a sequence of digits denotes, and the characters that are digits of a base.\<close>

definition digit_val :: "int \<Rightarrow> char \<Rightarrow> int" where
  "digit_val base c = (case digit_in base c of Some d \<Rightarrow> d | None \<Rightarrow> 0)"

definition seq_val :: "int \<Rightarrow> string \<Rightarrow> int \<Rightarrow> int" where
  "seq_val base ds v = foldl (\<lambda>v c. v * base + digit_val base c) v ds"

lemma seq_val_simps [simp]:
  "seq_val base [] v = v"
  "seq_val base (c # ds) v = seq_val base ds (v * base + digit_val base c)"
  "seq_val base (ds @ es) v = seq_val base es (seq_val base ds v)"
  by (simp_all add: seq_val_def)

lemma read_digits_str:
  assumes "str_at m p (ds @ rest)" and "\<forall>c\<in>set ds. digit_in base c \<noteq> None"
    and "rest = [] \<or> digit_in base (hd rest) = None"
  shows "read_digits m p base (word_of_int v) = Some (word_of_int (seq_val base ds v), p + length ds)"
  using assms
proof (induction ds arbitrary: p v)
  case Nil
  then show ?case by (cases rest) (auto simp: read_digits.simps [of m])
next
  case (Cons c ds)
  then obtain d where d: "digit_in base c = Some d" by auto
  have "read_digits m p base (word_of_int v) = read_digits m (p + 1) base (word_of_int (v * base + d))"
    using Cons.prems(1) d by (subst read_digits.simps) (simp flip: of_int_mult of_int_add)
  also have "\<dots> = Some (word_of_int (seq_val base ds (v * base + d)), p + 1 + length ds)"
    using Cons.prems by (intro Cons.IH) auto
  finally show ?case by (simp add: digit_val_def d)
qed

lemma skip_spaces_none: "p < length m \<Longrightarrow> \<not> isspace (m ! p) \<Longrightarrow> skip_spaces m p = Some p"
  by (simp add: skip_spaces.simps [of m])

lemma hex_prefix_none:
  assumes "p < length m" and "m ! p = CHR ''0'' \<Longrightarrow> p + 1 < length m \<and> m ! (p + 1) \<noteq> CHR ''x'' \<and> m ! (p + 1) \<noteq> CHR ''X''"
  shows "hex_prefix m p base = Some (p, base)"
  using assms by (auto simp: hex_prefix_def)

end
