(* ===== verification/Doprnt.thy ===== *)
theory Doprnt
  imports Strtol
begin

text \<open>
  Formatted output (\<^verbatim>\<open>shared/doprnt.c\<close>, compiled without \<^verbatim>\<open>DOPRNT_FLOATS\<close>). The output function \<^verbatim>\<open>putc\<close>
  never changes what is printed, so \<open>doprnt\<close> returns the characters it is called with, in order.

  A format is a string without its terminating zero. The arguments are a list: a 32-bit integer or a
  pointer to a string (\<open>None\<close> for the null pointer). Taking an argument that is not there, or of the
  other kind, is a fault (\<open>None\<close>), as are a division by a base 0, an index outside the table of
  digits or the buffer, and a shift by a count outside \<open>0..31\<close>.
\<close>

unbundle bit_operations_syntax

section \<open>Arguments\<close>

datatype varg = AInt u32 | AStr "string option"

fun va_int :: "varg list \<Rightarrow> (u32 \<times> varg list) option" where
  "va_int (AInt w # args) = Some (w, args)"
| "va_int _ = None"

fun va_str :: "varg list \<Rightarrow> (string option \<times> varg list) option" where
  "va_str (AStr s # args) = Some (s, args)"
| "va_str _ = None"

section \<open>Numbers\<close>

definition MAXBUF :: nat where "MAXBUF = 32"

definition digs :: string where "digs = ''0123456789abcdef'' @ [NUL]"

text \<open>
  The loop that builds a number from the end of a buffer of \<open>k\<close> free cells; \<open>acc\<close> is what the buffer
  holds already.
\<close>

fun num_loop :: "nat \<Rightarrow> u32 \<Rightarrow> u32 \<Rightarrow> string \<Rightarrow> string option" where
  "num_loop 0 u base acc = None"
| "num_loop (Suc k) u base acc =
     (if base = 0 \<or> unat (u mod base) \<ge> length digs then None
      else let acc = digs ! unat (u mod base) # acc; u = u div base
           in if u \<noteq> 0 then num_loop k u base acc else Some acc)"

definition printnum :: "u32 \<Rightarrow> int \<Rightarrow> string option" where
  "printnum u base = num_loop MAXBUF u (word_of_int base) []"

section \<open>Conversion specifications\<close>

record fspec =
  f_length :: int
  f_prec :: int
  f_ladjust :: bool
  f_padc :: char
  f_plus_sign :: "char option"
  f_altfmt :: bool

definition fspec_init :: fspec where
  "fspec_init = \<lparr>f_length = 0, f_prec = -1, f_ladjust = False, f_padc = CHR '' '',
     f_plus_sign = None, f_altfmt = False\<rparr>"

fun parse_flags :: "string \<Rightarrow> fspec \<Rightarrow> string \<times> fspec" where
  "parse_flags [] f = ([], f)"
| "parse_flags (c # fmt) f =
     (if c = CHR ''#'' then parse_flags fmt (f\<lparr>f_altfmt := True\<rparr>)
      else if c = CHR ''-'' then parse_flags fmt (f\<lparr>f_ladjust := True\<rparr>)
      else if c = CHR ''+'' then parse_flags fmt (f\<lparr>f_plus_sign := Some (CHR ''+'')\<rparr>)
      else if c = CHR '' ''
      then parse_flags fmt (if f_plus_sign f = None then f\<lparr>f_plus_sign := Some (CHR '' '')\<rparr> else f)
      else (c # fmt, f))"

definition isdigit :: "char \<Rightarrow> bool" where
  "isdigit c \<longleftrightarrow> uchar (CHR ''0'') \<le> uchar c \<and> uchar c \<le> uchar (CHR ''9'')"

fun parse_num :: "string \<Rightarrow> int \<Rightarrow> string \<times> int" where
  "parse_num [] n = ([], n)"
| "parse_num (c # fmt) n =
     (if isdigit c then parse_num fmt (10 * n + (uchar c - uchar (CHR ''0''))) else (c # fmt, n))"

definition parse_zero :: "string \<Rightarrow> fspec \<Rightarrow> string \<times> fspec" where
  "parse_zero fmt f = (case fmt of
      c # rest \<Rightarrow> if c = CHR ''0'' then (rest, f\<lparr>f_padc := CHR ''0''\<rparr>) else (fmt, f)
    | [] \<Rightarrow> (fmt, f))"

definition parse_width :: "string \<Rightarrow> fspec \<Rightarrow> varg list \<Rightarrow> (string \<times> fspec \<times> varg list) option" where
  "parse_width fmt f args = (case fmt of
      c # rest \<Rightarrow>
        if isdigit c then let (fmt, n) = parse_num fmt 0 in Some (fmt, f\<lparr>f_length := n\<rparr>, args)
        else if c = CHR ''*'' then do {
          (w, args) \<leftarrow> va_int args;
          Some (rest, if sint w < 0 then f\<lparr>f_ladjust := \<not> f_ladjust f, f_length := sint (- w)\<rparr>
                      else f\<lparr>f_length := sint w\<rparr>, args) }
        else Some (fmt, f, args)
    | [] \<Rightarrow> Some (fmt, f, args))"

definition parse_prec :: "string \<Rightarrow> fspec \<Rightarrow> varg list \<Rightarrow> (string \<times> fspec \<times> varg list) option" where
  "parse_prec fmt f args = (case fmt of
      c # rest \<Rightarrow>
        if c = CHR ''.'' then (case rest of
            d # rest' \<Rightarrow>
              if isdigit d then let (fmt, n) = parse_num rest 0 in Some (fmt, f\<lparr>f_prec := n\<rparr>, args)
              else if d = CHR ''*'' then do {
                (w, args) \<leftarrow> va_int args;
                Some (rest', f\<lparr>f_prec := sint w\<rparr>, args) }
              else Some (rest, f, args)
          | [] \<Rightarrow> Some (rest, f, args))
        else Some (fmt, f, args)
    | [] \<Rightarrow> Some (fmt, f, args))"

definition parse_long :: "string \<Rightarrow> string" where
  "parse_long fmt = (case fmt of c # rest \<Rightarrow> if c = CHR ''l'' then rest else fmt | [] \<Rightarrow> fmt)"

section \<open>Conversions\<close>

text \<open>\<^verbatim>\<open>while (--n >= 0) putc(c)\<close>: the characters and the final value of \<open>n\<close>.\<close>

definition pad :: "int \<Rightarrow> char \<Rightarrow> string \<times> int" where
  "pad n c = (replicate (nat n) c, min n 0 - 1)"

definition opt_pad :: "bool \<Rightarrow> int \<Rightarrow> char \<Rightarrow> string \<times> int" where
  "opt_pad b n c = (if b then pad n c else ([], n))"

definition num_prefix :: "u32 \<Rightarrow> int \<Rightarrow> fspec \<Rightarrow> string" where
  "num_prefix u base f =
     (if u \<noteq> 0 \<and> f_altfmt f then if base = 8 then ''0'' else if base = 16 then ''0x'' else [] else [])"

definition opt_char :: "char option \<Rightarrow> string" where
  "opt_char c = (case c of Some c \<Rightarrow> [c] | None \<Rightarrow> [])"

definition print_num :: "u32 \<Rightarrow> int \<Rightarrow> char option \<Rightarrow> fspec \<Rightarrow> string option" where
  "print_num u base sign_char f = do {
     let prefix = num_prefix u base f;
     ds \<leftarrow> num_loop MAXBUF u (word_of_int base) [];
     let prec = f_prec f - int (length ds);
     let len = f_length f - int (length ds);
     let len = len - int (length (opt_char sign_char));
     let len = len - int (length prefix);
     let len = (if prec > 0 then len - prec else len);
     let (blanks, len) = opt_pad (f_padc f = CHR '' '' \<and> \<not> f_ladjust f) len (CHR '' '');
     let (zeros, prec) = pad prec (CHR ''0'');
     let (fill, len) = opt_pad (f_padc f = CHR ''0'') len (CHR ''0'');
     let (trail, len) = opt_pad (f_ladjust f) len (CHR '' '');
     Some (blanks @ opt_char sign_char @ prefix @ zeros @ fill @ ds @ trail) }"

definition print_signed :: "int \<Rightarrow> fspec \<Rightarrow> varg list \<Rightarrow> (string \<times> varg list) option" where
  "print_signed base f args = do {
     (n, args) \<leftarrow> va_int args;
     out \<leftarrow> (if sint n \<ge> 0 then print_num n base (f_plus_sign f) f
            else print_num (- n) base (Some (CHR ''-'')) f);
     Some (out, args) }"

definition print_unsigned :: "int \<Rightarrow> fspec \<Rightarrow> varg list \<Rightarrow> (string \<times> varg list) option" where
  "print_unsigned base f args = do {
     (u, args) \<leftarrow> va_int args;
     out \<leftarrow> print_num u base None f;
     Some (out, args) }"

text \<open>\<^verbatim>\<open>%s\<close>: the count of characters for the padding on the left, and the loop that prints them.\<close>

fun count_string :: "string \<Rightarrow> int \<Rightarrow> int \<Rightarrow> int" where
  "count_string [] n prec = n"
| "count_string (c # p) n prec = (if n < prec then count_string p (n + 1) prec else n)"

fun emit_string :: "string \<Rightarrow> int \<Rightarrow> int \<Rightarrow> string \<times> int" where
  "emit_string [] n prec = ([], n)"
| "emit_string (c # p) n prec =
     (if n + 1 > prec then ([], n + 1)
      else let (out, n) = emit_string p (n + 1) prec in (c # out, n))"

definition print_string :: "fspec \<Rightarrow> varg list \<Rightarrow> (string \<times> varg list) option" where
  "print_string f args = do {
     let prec = (if f_prec f = -1 then 0x7fffffff else f_prec f);
     (s, args) \<leftarrow> va_str args;
     let p = (case s of Some s \<Rightarrow> s | None \<Rightarrow> []);
     let lead = (if f_length f > 0 \<and> \<not> f_ladjust f
                 then replicate (nat (f_length f - count_string p 0 prec)) (CHR '' '') else []);
     let (out, n) = emit_string p 0 prec;
     let trail = (if n < f_length f \<and> f_ladjust f
                  then replicate (nat (f_length f - n)) (CHR '' '') else []);
     Some (lead @ out @ trail, args) }"

text \<open>\<^verbatim>\<open>%b\<close>: the fields of a register. \<^verbatim>\<open>char\<close> is signed here.\<close>

definition schar :: "char \<Rightarrow> int" where
  "schar c = (if uchar c < 128 then uchar c else uchar c - 256)"

definition head_char :: "string \<Rightarrow> char" where
  "head_char p = (case p of c # _ \<Rightarrow> c | [] \<Rightarrow> NUL)"

definition field_sep :: "bool \<Rightarrow> string" where
  "field_sep any = (if any then '','' else ''<'')"

definition shift_ok :: "int \<Rightarrow> bool" where
  "shift_ok n \<longleftrightarrow> 0 \<le> n \<and> n < 32"

function print_fields :: "u32 \<Rightarrow> int \<Rightarrow> bool \<Rightarrow> string \<Rightarrow> (string \<times> bool) option" where
  "print_fields u base any [] = Some ([], any)"
| "print_fields u base any (ci # p) =
     (let i = schar ci in
      if schar (head_char p) \<le> 32 then do {
        let j = schar (head_char p);
        assert_that (p \<noteq> [] \<and> shift_ok (j - 1) \<and> shift_ok (i - j));
        let name = takeWhile (\<lambda>c. schar c > 32) (tl p);
        v \<leftarrow> printnum (drop_bit (nat (j - 1)) u AND (push_bit (nat (i - j)) 2 - 1)) base;
        (out, any') \<leftarrow> print_fields u base True (dropWhile (\<lambda>c. schar c > 32) (tl p));
        Some (field_sep any @ name @ v @ out, any') }
      else do {
        assert_that (shift_ok (i - 1));
        let name = takeWhile (\<lambda>c. schar c > 32) p;
        let rest = dropWhile (\<lambda>c. schar c > 32) p;
        if u AND push_bit (nat (i - 1)) 1 \<noteq> 0 then do {
          (out, any') \<leftarrow> print_fields u base True rest;
          Some (field_sep any @ name @ out, any') }
        else print_fields u base any rest })"
  by pat_completeness auto
termination
  by (relation "measure (\<lambda>(u, base, any, p). length p)")
    (auto simp: less_Suc_eq_le intro: le_trans [OF length_dropWhile_le])

definition print_bits :: "varg list \<Rightarrow> (string \<times> varg list) option" where
  "print_bits args = do {
     (u, args) \<leftarrow> va_int args;
     (s, args) \<leftarrow> va_str args;
     p \<leftarrow> s;
     let base = schar (head_char p);
     num \<leftarrow> printnum u base;
     if u = 0 then Some (num, args)
     else do {
       assert_that (p \<noteq> []);
       (out, any) \<leftarrow> print_fields u base False (tl p);
       Some (num @ out @ (if any then ''>'' else []), args) } }"

text \<open>The \<^verbatim>\<open>switch\<close> on the conversion character; \<open>truncate\<close> changes nothing, as \<^verbatim>\<open>int\<close> and \<^verbatim>\<open>long\<close> have one size.\<close>

definition convert :: "char \<Rightarrow> fspec \<Rightarrow> varg list \<Rightarrow> int \<Rightarrow> (string \<times> varg list) option" where
  "convert c f args radix =
     (if c \<in> {CHR ''b'', CHR ''B''} then print_bits args
      else if c = CHR ''c'' then do { (w, args) \<leftarrow> va_int args; Some ([to_char (uint w)], args) }
      else if c = CHR ''s'' then print_string f args
      else if c \<in> {CHR ''o'', CHR ''O''} then print_unsigned 8 f args
      else if c \<in> {CHR ''d'', CHR ''i'', CHR ''D''} then print_signed 10 f args
      else if c \<in> {CHR ''u'', CHR ''U''} then print_unsigned 10 f args
      else if c = CHR ''p'' then do {
        (out, args) \<leftarrow> print_unsigned 16 (f\<lparr>f_padc := CHR ''0'', f_length := 8\<rparr>) args;
        Some (''0x'' @ out, args) }
      else if c \<in> {CHR ''x'', CHR ''X''} then print_unsigned 16 f args
      else if c \<in> {CHR ''z'', CHR ''Z''} then print_signed 16 f args
      else if c \<in> {CHR ''r'', CHR ''R''} then print_signed radix f args
      else if c \<in> {CHR ''n'', CHR ''N''} then print_unsigned radix f args
      else Some ([c], args))"

text \<open>One specification, from the character after the percent sign on.\<close>

definition parse_spec :: "string \<Rightarrow> varg list \<Rightarrow> (string \<times> fspec \<times> varg list) option" where
  "parse_spec fmt args = do {
     let (fmt, f) = parse_flags fmt fspec_init;
     let (fmt, f) = parse_zero fmt f;
     (fmt, f, args) \<leftarrow> parse_width fmt f args;
     (fmt, f, args) \<leftarrow> parse_prec fmt f args;
     Some (parse_long fmt, f, args) }"

lemma parse_flags_length: "length (fst (parse_flags fmt f)) \<le> length fmt"
  by (induction fmt f rule: parse_flags.induct) (auto simp: le_Suc_eq)

lemma parse_num_length: "length (fst (parse_num fmt n)) \<le> length fmt"
  by (induction fmt n rule: parse_num.induct) (auto simp: le_Suc_eq)

lemma parse_zero_length: "length (fst (parse_zero fmt f)) \<le> length fmt"
  by (auto simp: parse_zero_def split: list.splits)

lemma parse_width_length: "parse_width fmt f args = Some (fmt', f', args') \<Longrightarrow> length fmt' \<le> length fmt"
  using parse_num_length [of fmt 0]
  by (auto simp: parse_width_def Let_def split: list.splits if_splits prod.splits bind_splits)

lemma parse_prec_length: "parse_prec fmt f args = Some (fmt', f', args') \<Longrightarrow> length fmt' \<le> length fmt"
  using parse_num_length [of "tl fmt" 0]
  by (auto simp: parse_prec_def Let_def split: list.splits if_splits prod.splits bind_splits)

lemma parse_long_length: "length (parse_long fmt) \<le> length fmt"
  by (auto simp: parse_long_def split: list.splits)

lemma parse_spec_length:
  assumes "parse_spec fmt args = Some (fmt', f, args')"
  shows "length fmt' \<le> length fmt"
proof -
  obtain fmt1 f1 where 1: "parse_flags fmt fspec_init = (fmt1, f1)" by force
  obtain fmt2 f2 where 2: "parse_zero fmt1 f1 = (fmt2, f2)" by force
  from assms obtain fmt3 f3 args3 fmt4 f4 args4 where
    "parse_width fmt2 f2 args = Some (fmt3, f3, args3)"
    "parse_prec fmt3 f3 args3 = Some (fmt4, f4, args4)" "fmt' = parse_long fmt4"
    by (auto simp: parse_spec_def 1 2 split: bind_splits)
  with parse_width_length parse_prec_length parse_long_length [of fmt4]
    parse_flags_length [of fmt fspec_init] parse_zero_length [of fmt1 f1] 1 2
  show ?thesis by fastforce
qed

function doprnt :: "string \<Rightarrow> varg list \<Rightarrow> int \<Rightarrow> string option" where
  "doprnt [] args radix = Some []"
| "doprnt (c # fmt) args radix =
     (if c \<noteq> CHR ''%'' then map_option ((#) c) (doprnt fmt args radix)
      else (case parse_spec fmt args of
          None \<Rightarrow> None
        | Some ([], f, args) \<Rightarrow> Some []
        | Some (c # fmt, f, args) \<Rightarrow> do {
            (out, args) \<leftarrow> convert c f args radix;
            rest \<leftarrow> doprnt fmt args radix;
            Some (out @ rest) }))"
  by pat_completeness auto
termination
  by (relation "measure (\<lambda>(fmt, args, radix). length fmt)")
    (auto dest!: parse_spec_length)

section \<open>The digits of a number\<close>

text \<open>The positional representation of a number, most significant digit first.\<close>

definition dig :: "nat \<Rightarrow> char" where
  "dig d = ''0123456789abcdef'' ! d"

function num_str :: "nat \<Rightarrow> nat \<Rightarrow> string" where
  "num_str b u = (if b < 2 \<or> u < b then [dig u] else num_str b (u div b) @ [dig (u mod b)])"
  by pat_completeness auto
termination by (relation "measure snd") auto

declare num_str.simps [simp del]

lemma num_str_not_Nil [simp]: "num_str b u \<noteq> []"
  by (subst num_str.simps) simp

lemma unat_small [simp]: "n < 2 ^ 32 \<Longrightarrow> unat (of_nat n :: u32) = n"
  by (simp add: unat_of_nat)

lemma u32_div [simp]: "u < 2 ^ 32 \<Longrightarrow> b < 2 ^ 32 \<Longrightarrow> (of_nat u :: u32) div of_nat b = of_nat (u div b)"
  by (simp add: word_arith_nat_div)

lemma u32_mod [simp]: "u < 2 ^ 32 \<Longrightarrow> b < 2 ^ 32 \<Longrightarrow> (of_nat u :: u32) mod of_nat b = of_nat (u mod b)"
  by (simp add: word_arith_nat_mod)

lemma of_nat_u32_eq_0: "n < 2 ^ 32 \<Longrightarrow> (of_nat n :: u32) = 0 \<longleftrightarrow> n = 0"
  using unat_small [of n] by (simp only: word_unat_eq_iff unat_0)

lemma digs_dig: "d < 16 \<Longrightarrow> digs ! d = dig d"
  by (simp only: digs_def dig_def nth_append) simp

lemma num_loop_str:
  assumes "2 \<le> b" and "b \<le> 16"
  shows "u < b ^ k \<Longrightarrow> 0 < k \<Longrightarrow> u < 2 ^ 32 \<Longrightarrow>
    num_loop k (of_nat u) (of_nat b) acc = Some (num_str b u @ acc)"
proof (induction k arbitrary: u acc)
  case (Suc k)
  have b: "b < 2 ^ 32" "(of_nat b :: u32) \<noteq> 0" using assms of_nat_u32_eq_0 [of b] by auto
  have "u mod b < b" using assms by simp
  then have m: "u mod b < 16" "u mod b < 2 ^ 32"
    using assms(2) by (auto elim: less_le_trans simp del: mod_less_divisor)
  have d: "u div b < 2 ^ 32" using Suc.prems(3) by (meson div_le_dividend le_less_trans)
  have step: "num_loop (Suc k) (of_nat u) (of_nat b) acc =
      (if u div b = 0 then Some (dig (u mod b) # acc)
       else num_loop k (of_nat (u div b)) (of_nat b) (dig (u mod b) # acc))"
    using b m d Suc.prems by (simp add: Let_def digs_dig of_nat_u32_eq_0) (simp add: digs_def)
  show ?case
  proof (cases "u < b")
    case True
    then show ?thesis using step by (simp add: num_str.simps [of b u])
  next
    case False
    then have "u div b \<noteq> 0" using assms by (simp add: div_eq_0_iff)
    moreover have "u div b < b ^ k" using Suc.prems(1) assms by (simp add: less_mult_imp_div_less mult.commute)
    moreover from calculation have "0 < k" by (cases k) auto
    ultimately show ?thesis
      using step d Suc.IH [of "u div b" "dig (u mod b) # acc"] False assms
      by (simp add: num_str.simps [of b u])
  qed
qed simp

lemma u32_fits_binary: "2 \<le> b \<Longrightarrow> unat (u :: u32) < b ^ 32"
proof -
  assume "2 \<le> b"
  then have "(2::nat) ^ 32 \<le> b ^ 32" by (rule power_mono) simp
  moreover have "unat u < 2 ^ 32" using unsigned_less [of u] by simp
  ultimately show ?thesis by linarith
qed

lemma num_loop_length: "num_loop k u b acc = Some s \<Longrightarrow> length s \<le> k + length acc"
proof (induction k arbitrary: u acc)
  case (Suc k)
  then show ?case by (auto simp: Let_def split: if_splits dest: Suc.IH)
qed simp

lemma num_loop_word:
  assumes "2 \<le> b" and "b \<le> 16"
  shows "num_loop MAXBUF u (of_nat b) [] = Some (num_str b (unat u))"
  using num_loop_str [OF assms, of "unat u" 32 "[]"] u32_fits_binary [OF assms(1), of u]
    unsigned_less [of u] by (simp add: MAXBUF_def)

lemma printnum_str:
  assumes "2 \<le> b" and "b \<le> 16"
  shows "printnum u b = Some (num_str (nat b) (unat u))"
  using num_loop_word [of "nat b" u] assms by (simp add: printnum_def nat_le_iff)

text \<open>What the digits denote.\<close>

lemma dig_value: "d < 16 \<Longrightarrow> int d < base \<Longrightarrow> digit_in base (dig d) = Some (int d)"
proof -
  assume "d < 16" "int d < base"
  moreover from this have "d \<in> set [0..<16]" by simp
  ultimately show ?thesis
    by (simp add: upt_rec del: set_upt) (elim disjE; simp add: dig_def digit_in_def uchar_def)
qed

lemma num_str_digits:
  "2 \<le> b \<Longrightarrow> b \<le> 16 \<Longrightarrow> c \<in> set (num_str b u) \<Longrightarrow> \<exists>d<b. c = dig d"
proof (induction b u rule: num_str.induct)
  case (1 b u)
  show ?case
  proof (cases "u < b")
    case True
    with 1 show ?thesis by (auto simp: num_str.simps [of b u])
  next
    case False
    then have "num_str b u = num_str b (u div b) @ [dig (u mod b)]"
      using 1 by (simp add: num_str.simps [of b u])
    moreover have "u mod b < b" using 1 by simp
    ultimately show ?thesis using 1 False by (auto simp del: mod_less_divisor)
  qed
qed

lemma digit_val_dig: "d < 16 \<Longrightarrow> int d < base \<Longrightarrow> digit_val base (dig d) = int d"
  by (simp add: digit_val_def dig_value)

lemma num_str_val: "2 \<le> b \<Longrightarrow> b \<le> 16 \<Longrightarrow> seq_val (int b) (num_str b u) 0 = int u"
proof (induction b u rule: num_str.induct)
  case (1 b u)
  show ?case
  proof (cases "u < b")
    case True
    with 1 show ?thesis by (simp add: num_str.simps [of b u] digit_val_dig)
  next
    case False
    then have "num_str b u = num_str b (u div b) @ [dig (u mod b)]"
      using 1 by (simp add: num_str.simps [of b u])
    moreover have "u mod b < b" using 1 by simp
    moreover from this have "digit_val (int b) (dig (u mod b)) = int (u mod b)"
      using "1.prems" less_le_trans [of "u mod b" b 16] by (intro digit_val_dig) auto
    moreover have "int (u div b) * int b + int (u mod b) = int u"
      by (metis div_mult_mod_eq of_nat_add of_nat_mult)
    ultimately show ?thesis using 1 False by simp
  qed
qed

lemma num_str_no_x: "2 \<le> b \<Longrightarrow> b \<le> 16 \<Longrightarrow> c \<in> set (num_str b u) \<Longrightarrow>
  c \<noteq> CHR ''x'' \<and> c \<noteq> CHR ''X'' \<and> c \<noteq> CHR ''-'' \<and> \<not> isspace c \<and> c \<noteq> NUL"
proof -
  assume a: "2 \<le> b" "b \<le> 16" "c \<in> set (num_str b u)"
  obtain d where "d < b" "c = dig d" using num_str_digits [OF a] by blast
  with a(2) have "d < 16" "c = dig d" by simp_all
  then have "c \<in> set ''0123456789abcdef''" unfolding dig_def by (simp only:) (rule nth_mem, simp)
  then show ?thesis by (auto simp: isspace_def)
qed

section \<open>Printing and reading back\<close>

lemma str_at_last: "str_at m p s \<Longrightarrow> s \<noteq> [] \<Longrightarrow> p < length m \<and> m ! p = hd s"
  by (cases s) auto

lemma str_at_second: "str_at m p s \<Longrightarrow> s \<noteq> [] \<Longrightarrow> p + 1 < length m \<and> (m ! (p + 1) = NUL \<or> m ! (p + 1) \<in> set s)"
  by (cases s rule: list.exhaust [case_product list.exhaust [of "tl s"]]) auto

lemma num_str_head:
  assumes "str_at m p (num_str b u)" and b: "2 \<le> b" "b \<le> 16"
  shows "p < length m" "\<not> isspace (m ! p)" "m ! p \<noteq> CHR ''-''" "hex_prefix m p base = Some (p, base)"
proof -
  note no = num_str_no_x [OF b, of _ u]
  show p: "p < length m" using str_at_last [OF assms(1)] by simp
  have "m ! p \<in> set (num_str b u)" using str_at_last [OF assms(1)] by simp
  then show "\<not> isspace (m ! p)" "m ! p \<noteq> CHR ''-''" using no by blast+
  show "hex_prefix m p base = Some (p, base)"
    using str_at_second [OF assms(1)] no by (intro hex_prefix_none p) auto
qed

lemma read_num_str:
  assumes "str_at m p (num_str b u)" and "2 \<le> b" "b \<le> 16"
  shows "read_digits m p (int b) 0 = Some (of_nat u, p + length (num_str b u))"
proof -
  have "\<forall>c\<in>set (num_str b u). digit_in (int b) c \<noteq> None"
    using num_str_digits [OF assms(2,3)] assms(3) by (fastforce simp: dig_value)
  then show ?thesis
    using read_digits_str [of m p "num_str b u" "[]" "int b" 0] assms by (simp add: num_str_val)
qed

text \<open>
  Numbers survive printing and reading: for every 32-bit number and every base from 2 to 16 the
  printing routine terminates within its buffer of 32 characters, and \<^verbatim>\<open>strtoul\<close> with the same base, applied to the
  terminated output, returns the number and stops at the terminating zero.
\<close>

theorem printnum_strtoul_roundtrip:
  assumes "2 \<le> base" and "base \<le> 16"
  shows "\<exists>s. printnum u base = Some s \<and> length s \<le> MAXBUF \<and>
     (\<forall>m p. str_at m p s \<longrightarrow> strtoul m p base = Some (u, p + length s))"
proof -
  let ?b = "nat base" and ?s = "num_str (nat base) (unat u)"
  have b: "2 \<le> ?b" "?b \<le> 16" "int ?b = base" using assms by auto
  have "strtoul m p base = Some (u, p + length ?s)" if "str_at m p ?s" for m p
    using num_str_head [OF that b(1,2)] read_num_str [OF that b(1,2)] assms
    by (simp add: strtoul_def skip_spaces_none guess_base_def)
  moreover have "length ?s \<le> MAXBUF"
    by (rule num_loop_length [OF num_loop_word [OF b(1,2)], simplified])
  ultimately show ?thesis using printnum_str [OF assms] by blast
qed

theorem printnum_strtoul_roundtrip_witness:
  "printnum 48879 16 = Some ''beef'' \<and> strtoul (''beef'' @ [NUL]) 0 16 = Some (48879, 4)"
proof -
  have s: "printnum 48879 16 = Some ''beef''"
    by (simp add: printnum_str num_str.simps dig_def)
  have "str_at (''beef'' @ [NUL]) 0 ''beef''" by simp
  with printnum_strtoul_roundtrip [of 16 48879] s show ?thesis by fastforce
qed

text \<open>The number field of a conversion, without flags.\<close>

lemma pad_fst: "fst (pad n c) = replicate (nat n) c"
  by (simp add: pad_def)

lemma print_num_plain:
  assumes "2 \<le> b" and "b \<le> 16"
  shows "print_num u (int b) sg fspec_init = Some (opt_char sg @ num_str b (unat u))"
proof -
  have "1 \<le> length (num_str b (unat u))" by (simp add: Suc_leI)
  then show ?thesis
    using num_loop_word [OF assms, of u]
    by (simp add: print_num_def fspec_init_def num_prefix_def opt_pad_def pad_def)
qed

lemma parse_spec_plain:
  "c \<notin> set ''#-+ 0*.l'' \<Longrightarrow> \<not> isdigit c \<Longrightarrow> parse_spec (c # fmt) args = Some (c # fmt, fspec_init, args)"
  by (simp add: parse_spec_def parse_zero_def parse_width_def parse_prec_def parse_long_def)

lemma doprnt_d:
  "doprnt ''%d'' [AInt w] radix =
     Some (if sint w \<ge> 0 then num_str 10 (unat w) else CHR ''-'' # num_str 10 (unat (- w)))"
proof -
  have "parse_spec ''d'' [AInt w] = Some (''d'', fspec_init, [AInt w])"
    by (rule parse_spec_plain) (simp_all add: isdigit_def uchar_def)
  moreover have "f_plus_sign fspec_init = None" by (simp add: fspec_init_def)
  ultimately show ?thesis
    using print_num_plain [of 10 w] print_num_plain [of 10 "- w"]
    by (simp add: convert_def print_signed_def opt_char_def)
qed

text \<open>
  C30. A signed number printed with \<^verbatim>\<open>%d\<close> is read back by \<^verbatim>\<open>strtol\<close>, in base 10, as the same number,
  the smallest \<^verbatim>\<open>long\<close> included, and reading stops at the end of what was printed.
\<close>

theorem doprnt_strtol_roundtrip:
  "\<exists>s. doprnt ''%d'' [AInt w] radix = Some s \<and>
     (\<forall>m p. str_at m p s \<longrightarrow> strtol m p 10 = Some (w, p + length s))"
proof (cases "sint w \<ge> 0")
  case True
  have "strtol m p 10 = Some (w, p + length (num_str 10 (unat w)))" if "str_at m p (num_str 10 (unat w))" for m p
    using num_str_head [OF that] read_num_str [OF that]
    by (simp add: strtol_def skip_spaces_none guess_base_def)
  with True show ?thesis by (simp add: doprnt_d del: doprnt.simps)
next
  case False
  let ?s = "num_str 10 (unat (- w))"
  have "strtol m p 10 = Some (w, p + length (CHR ''-'' # ?s))" if "str_at m p (CHR ''-'' # ?s)" for m p
  proof -
    from that have "str_at m (p + 1) ?s" "p < length m" "m ! p = CHR ''-''" by simp_all
    then show ?thesis
      using num_str_head [OF \<open>str_at m (p + 1) ?s\<close>] read_num_str [OF \<open>str_at m (p + 1) ?s\<close>]
      by (simp add: strtol_def skip_spaces_none guess_base_def isspace_def)
  qed
  with False show ?thesis by (simp add: doprnt_d del: doprnt.simps)
qed

theorem doprnt_strtol_roundtrip_witness:
  "doprnt ''%d'' [AInt (- 13)] 0 = Some ''-13'' \<and> strtol (''-13'' @ [NUL]) 0 10 = Some (- 13, 3)"
proof -
  have s: "doprnt ''%d'' [AInt (- 13)] 0 = Some ''-13''"
    by (simp add: doprnt_d num_str.simps dig_def del: doprnt.simps)
  have "str_at (''-13'' @ [NUL]) 0 ''-13''" by simp
  with doprnt_strtol_roundtrip [of "- 13" 0] s show ?thesis by (fastforce simp del: doprnt.simps)
qed

section \<open>Fields\<close>

text \<open>What is left of the width for padding.\<close>

definition spare :: "u32 \<Rightarrow> int \<Rightarrow> char option \<Rightarrow> fspec \<Rightarrow> int" where
  "spare u base sg f = f_length f - int (length (opt_char sg) + length (num_prefix u base f)
     + max (length (num_str (nat base) (unat u))) (nat (f_prec f)))"

lemma print_num_parts:
  assumes "2 \<le> base" and "base \<le> 16" and "f_padc f = CHR '' '' \<or> f_padc f = CHR ''0''"
  shows "print_num u base sg f = Some (
     (if f_padc f = CHR '' '' \<and> \<not> f_ladjust f then replicate (nat (spare u base sg f)) (CHR '' '') else []) @
     opt_char sg @ num_prefix u base f @
     replicate (nat (f_prec f) - length (num_str (nat base) (unat u))) (CHR ''0'') @
     (if f_padc f = CHR ''0'' then replicate (nat (spare u base sg f)) (CHR ''0'') else []) @
     num_str (nat base) (unat u) @
     (if f_padc f = CHR '' '' \<and> f_ladjust f then replicate (nat (spare u base sg f)) (CHR '' '') else []))"
proof -
  let ?ds = "num_str (nat base) (unat u)"
  define prec where "prec = f_prec f - int (length ?ds)"
  have ds: "num_loop MAXBUF u (word_of_int base) [] = Some ?ds"
    using printnum_str [OF assms(1,2)] by (simp add: printnum_def)
  have z: "nat prec = nat (f_prec f) - length ?ds" by (simp add: prec_def nat_diff_distrib')
  define len where "len = f_length f - int (length ?ds) - int (length (opt_char sg)) - int (length (num_prefix u base f))"
  have k: "(if prec > 0 then len - prec else len) = spare u base sg f"
    by (auto simp: len_def prec_def spare_def max_def)
  have "print_num u base sg f = (let k = (if prec > 0 then len - prec else len);
      (blanks, k) = opt_pad (f_padc f = CHR '' '' \<and> \<not> f_ladjust f) k (CHR '' '');
      (fill, k) = opt_pad (f_padc f = CHR ''0'') k (CHR ''0'');
      (trail, k) = opt_pad (f_ladjust f) k (CHR '' '')
      in Some (blanks @ opt_char sg @ num_prefix u base f @ replicate (nat prec) (CHR ''0'') @ fill @ ?ds @ trail))"
    unfolding print_num_def ds prec_def len_def by (simp add: Let_def pad_def split_def)
  also have "\<dots> = Some (
     (if f_padc f = CHR '' '' \<and> \<not> f_ladjust f then replicate (nat (spare u base sg f)) (CHR '' '') else []) @
     opt_char sg @ num_prefix u base f @ replicate (nat prec) (CHR ''0'') @
     (if f_padc f = CHR ''0'' then replicate (nat (spare u base sg f)) (CHR ''0'') else []) @ ?ds @
     (if f_padc f = CHR '' '' \<and> f_ladjust f then replicate (nat (spare u base sg f)) (CHR '' '') else []))"
    unfolding k using assms(3) by (elim disjE) (simp_all add: opt_pad_def pad_def Let_def)
  finally show ?thesis unfolding z .
qed

text \<open>
  The width of a number field: with any flags, width and precision the output of a conversion
  has exactly the width asked for when the digits, the sign, the prefix and the zeros of the
  precision need less, and never cuts any of them; the digits stand unbroken in it.
\<close>

theorem print_num_width:
  assumes "2 \<le> base" and "base \<le> 16" and "f_padc f = CHR '' '' \<or> f_padc f = CHR ''0''"
  shows "\<exists>pre post. print_num u base sg f = Some (pre @ num_str (nat base) (unat u) @ post) \<and>
     length (pre @ num_str (nat base) (unat u) @ post) =
       max (length (opt_char sg) + length (num_prefix u base f) +
            max (length (num_str (nat base) (unat u))) (nat (f_prec f))) (nat (f_length f))"
proof -
  let ?ds = "num_str (nat base) (unat u)"
  define k where "k = nat (spare u base sg f)"
  define z where "z = nat (f_prec f) - length ?ds"
  have zeros: "max (length ?ds) (nat (f_prec f)) = z + length ?ds"
    unfolding z_def by linarith
  have fit: "max b (nat a) = nat (a - int b) + b" for a b by linarith
  have total: "max (length (opt_char sg) + length (num_prefix u base f) +
      max (length ?ds) (nat (f_prec f))) (nat (f_length f)) =
      k + (length (opt_char sg) + length (num_prefix u base f) + (z + length ?ds))"
    unfolding k_def spare_def zeros by (rule fit)
  show ?thesis
    unfolding print_num_parts [OF assms] total k_def [symmetric] z_def [symmetric]
    by (rule exI [of _ "_ @ _ @ _ @ _ @ _"], rule exI, rule conjI, simp only: append.assoc)
      (use assms(3) in auto)
qed

theorem print_num_width_witness:
  "\<exists>pre post. print_num 255 16 None (fspec_init\<lparr>f_length := 6, f_altfmt := True\<rparr>) = Some (pre @ ''ff'' @ post) \<and>
     length (pre @ ''ff'' @ post) = 6"
proof -
  have "num_str (nat 16) (unat (255 :: u32)) = ''ff''" by (simp add: num_str.simps dig_def)
  then show ?thesis
    using print_num_width [of 16 "fspec_init\<lparr>f_length := 6, f_altfmt := True\<rparr>" 255 None]
    by (simp add: fspec_init_def num_prefix_def opt_char_def)
qed

text \<open>
  Two deviations of the conversions from their documentation. A string cut by the precision is
  padded one blank short on the right (the counter has already passed the precision), and the
  second example in the comment of the source does not print what the comment says, as bit 2 of
  the value is set.
\<close>

lemma left_adjusted_cut_string_is_short:
  "doprnt ''%-4.2s|'' [AStr (Some ''abc'')] 0 = Some ''ab |''"
  by code_simp

lemma bit_field_example:
  "doprnt ''%b'' [AInt 0xb, AStr (Some ([CHR 0x10, CHR 0x04, CHR 0x03] @ ''FIELD1='' @
     [CHR 0x02] @ ''BITTWO'' @ [CHR 0x01] @ ''BITONE''))] 0 = Some ''b<FIELD1=2,BITTWO,BITONE>''"
  by code_simp

end
