(* ===== verification/Printf.thy ===== *)
theory Printf
  imports Doprnt
begin

text \<open>
  The two clients of the formatter: output to memory (\<^verbatim>\<open>shared/sprintf.c\<close>), over the flat memory of
  theory \<open>Kstring\<close>, and output to the console (\<^verbatim>\<open>shared/printf.c\<close>), where the model records the
  arguments of the calls of \<^verbatim>\<open>console_putbytes\<close> in order.
\<close>

section \<open>Output to memory\<close>

definition SPRINTF_UNLIMITED :: u32 where "SPRINTF_UNLIMITED = - 1"

record sprintf_state =
  sp_buf :: ptr
  sp_len :: u32
  sp_max :: u32

definition savechar :: "char \<Rightarrow> sprintf_state \<Rightarrow> bytes \<Rightarrow> (sprintf_state \<times> bytes) option" where
  "savechar c state m =
     (if sp_max state \<noteq> SPRINTF_UNLIMITED \<and> sp_len state = sp_max state then Some (state, m)
      else do {
        let state = state\<lparr>sp_len := sp_len state + 1\<rparr>;
        m \<leftarrow> st m (sp_buf state) c;
        Some (state\<lparr>sp_buf := sp_buf state + 1\<rparr>, m) })"

fun save_all :: "string \<Rightarrow> sprintf_state \<Rightarrow> bytes \<Rightarrow> (sprintf_state \<times> bytes) option" where
  "save_all [] state m = Some (state, m)"
| "save_all (c # out) state m = do { (state, m) \<leftarrow> savechar c state m; save_all out state m }"

definition vsprintf :: "bytes \<Rightarrow> ptr \<Rightarrow> string \<Rightarrow> varg list \<Rightarrow> (int \<times> bytes) option" where
  "vsprintf m s fmt args = do {
     let state = \<lparr>sp_buf = s, sp_len = 0, sp_max = SPRINTF_UNLIMITED\<rparr>;
     out \<leftarrow> doprnt fmt args 0;
     (state, m) \<leftarrow> save_all out state m;
     m \<leftarrow> st m (sp_buf state) NUL;
     Some (sint (sp_len state), m) }"

definition vsnprintf :: "bytes \<Rightarrow> ptr \<Rightarrow> u32 \<Rightarrow> string \<Rightarrow> varg list \<Rightarrow> (int \<times> bytes) option" where
  "vsnprintf m s sz fmt args = do {
     let state = \<lparr>sp_buf = s, sp_len = 0, sp_max = sz\<rparr>;
     out \<leftarrow> doprnt fmt args 0;
     (state, m) \<leftarrow> save_all out state m;
     m \<leftarrow> st m (sp_buf state) NUL;
     Some (sint (sp_len state), m) }"

definition sprintf :: "bytes \<Rightarrow> ptr \<Rightarrow> string \<Rightarrow> varg list \<Rightarrow> (int \<times> bytes) option" where
  "sprintf m s fmt args = vsprintf m s fmt args"

definition snprintf :: "bytes \<Rightarrow> ptr \<Rightarrow> u32 \<Rightarrow> string \<Rightarrow> varg list \<Rightarrow> (int \<times> bytes) option" where
  "snprintf m s sz fmt args = vsnprintf m s sz fmt args"

lemma savechar_limit:
  "sp_len state = sp_max state \<Longrightarrow> sp_max state \<noteq> SPRINTF_UNLIMITED \<Longrightarrow> save_all out state m = Some (state, m)"
  by (induction out) (simp_all add: savechar_def)

lemma save_all_room:
  assumes "n = min (length out) (unat (sp_max state) - unat (sp_len state))"
    and "sp_max state \<noteq> SPRINTF_UNLIMITED" and "sp_len state \<le> sp_max state"
    and "sp_buf state + n \<le> length m"
  shows "save_all out state m =
     Some (state\<lparr>sp_buf := sp_buf state + n, sp_len := sp_len state + of_nat n\<rparr>, blit m (sp_buf state) (take n out))"
  using assms
proof (induction out arbitrary: state m n)
  case Nil
  then show ?case by simp
next
  case (Cons c out)
  show ?case
  proof (cases "sp_len state = sp_max state")
    case True
    then show ?thesis
      using Cons.prems savechar_limit [of state "c # out" m] by simp
  next
    case False
    then have less: "sp_len state < sp_max state" using Cons.prems(3) by simp
    then have lt: "unat (sp_len state) < unat (sp_max state)" by (simp add: word_less_nat_alt)
    then have inc: "unat (sp_len state + 1) = unat (sp_len state) + 1"
      using u32_less [of "sp_max state"] by (simp add: unat_word_ariths unat_of_nat)
    define n' where "n' = min (length out) (unat (sp_max state) - unat (sp_len state + 1))"
    have n: "n = Suc n'" using Cons.prems(1) lt inc by (simp add: n'_def)
    let ?st = "state\<lparr>sp_len := sp_len state + 1, sp_buf := sp_buf state + 1\<rparr>"
    have b: "sp_buf state < length m" using Cons.prems(4) n by simp
    have "save_all out ?st (m[sp_buf state := c]) =
        Some (?st\<lparr>sp_buf := sp_buf ?st + n', sp_len := sp_len ?st + of_nat n'\<rparr>,
              blit (m[sp_buf state := c]) (sp_buf ?st) (take n' out))"
      using Cons.prems n lt inc by (intro Cons.IH) (auto simp: n'_def word_le_nat_alt)
    then show ?thesis
      using False b n blit_Cons [of "sp_buf state" m c "take n' out"]
      by (simp add: savechar_def Let_def add_ac)
  qed
qed

text \<open>
  C31. \<^verbatim>\<open>vsnprintf\<close> writes the first \<open>sz\<close> characters of the formatted text, or all of it if it is shorter, then
  a terminating zero, returns the number of characters before the zero, and changes nothing else. The
  zero comes after up to \<open>sz\<close> characters: a buffer of \<open>sz\<close> bytes is exceeded by one when the text
  does not fit.
\<close>

theorem vsnprintf_writes:
  assumes "doprnt fmt args 0 = Some out" and "sz \<noteq> SPRINTF_UNLIMITED" and "unat sz < 2 ^ 31"
    and "s + min (length out) (unat sz) < length m"
  shows "vsnprintf m s sz fmt args =
     Some (int (min (length out) (unat sz)), blit m s (take (unat sz) out @ [NUL]))"
proof -
  define n where "n = min (length out) (unat sz)"
  have "save_all out \<lparr>sp_buf = s, sp_len = 0, sp_max = sz\<rparr> m =
      Some (\<lparr>sp_buf = s + n, sp_len = of_nat n, sp_max = sz\<rparr>, blit m s (take n out))"
    using save_all_room [of n out "\<lparr>sp_buf = s, sp_len = 0, sp_max = sz\<rparr>" m] assms(2,4)
    by (simp add: n_def)
  moreover have "sint (of_nat n :: u32) = int n"
    using assms(3) sint_small [of "of_nat n"] by (simp add: n_def unat_of_nat min_def)
  moreover have "(blit m s (take n out))[s + n := NUL] = blit m s (take n out @ [NUL])"
  proof -
    have "length (take n out) = n" by (simp add: n_def)
    then show ?thesis using blit_snoc [of s "take n out" m NUL] assms(4) by (simp add: n_def)
  qed
  moreover have "take n out = take (unat sz) out" by (simp add: n_def min_def)
  ultimately show ?thesis
    using assms(1,4) by (simp add: vsnprintf_def n_def)
qed

theorem vsnprintf_writes_witness:
  "vsnprintf ''......'' 1 2 ''%d'' [AInt 407] = Some (2, ''.40'' @ [NUL] @ ''..'')"
proof -
  have "doprnt ''%d'' [AInt 407] 0 = Some ''407''" by code_simp
  from vsnprintf_writes [OF this, of 2 1 "''......''"] show ?thesis
    by (simp add: SPRINTF_UNLIMITED_def blit_def upt_conv_Cons)
qed

section \<open>Output to the console\<close>

definition PRINTF_BUFMAX :: nat where "PRINTF_BUFMAX = 128"

text \<open>\<open>pf_calls\<close> are the strings given to \<^verbatim>\<open>console_putbytes\<close>, the last one first.\<close>

record printf_state =
  pf_buf :: "char list"
  pf_index :: nat
  pf_calls :: "string list"

definition flush :: "printf_state \<Rightarrow> printf_state" where
  "flush state = state\<lparr>pf_calls := take (pf_index state) (pf_buf state) # pf_calls state, pf_index := 0\<rparr>"

definition printf_char :: "char \<Rightarrow> printf_state \<Rightarrow> printf_state" where
  "printf_char c state =
     (if c = NUL \<or> c = CHR 0x0A \<or> pf_index state \<ge> PRINTF_BUFMAX
      then let state = flush state;
               state = state\<lparr>pf_buf := (pf_buf state)[0 := c]\<rparr>
           in state\<lparr>pf_calls := take 1 (pf_buf state) # pf_calls state\<rparr>
      else state\<lparr>pf_buf := (pf_buf state)[pf_index state := c], pf_index := pf_index state + 1\<rparr>)"

text \<open>The buffer lies on the stack and has arbitrary contents at first, the parameter \<open>junk\<close>.\<close>

definition vprintf :: "char list \<Rightarrow> string \<Rightarrow> varg list \<Rightarrow> (int \<times> string list) option" where
  "vprintf junk fmt args = do {
     let state = \<lparr>pf_buf = junk, pf_index = 0, pf_calls = []\<rparr>;
     out \<leftarrow> doprnt fmt args 0;
     let state = fold printf_char out state;
     let state = (if pf_index state \<noteq> 0 then flush state else state);
     Some (0, rev (pf_calls state)) }"

definition printf :: "char list \<Rightarrow> string \<Rightarrow> varg list \<Rightarrow> (int \<times> string list) option" where
  "printf junk fmt args = vprintf junk fmt args"

definition putchar :: "int \<Rightarrow> int \<times> string list" where
  "putchar c = (uchar (to_char c), [[to_char c]])"

definition puts :: "string \<Rightarrow> int \<times> string list" where
  "puts s = (0, concat (map (\<lambda>c. snd (putchar (uchar c))) s) @ snd (putchar 10))"

text \<open>What the console has received and what still waits in the buffer.\<close>

definition pf_text :: "printf_state \<Rightarrow> string" where
  "pf_text state = concat (rev (pf_calls state)) @ take (pf_index state) (pf_buf state)"

lemma pf_text_flush [simp]: "pf_text (flush state) = pf_text state"
  by (simp add: pf_text_def flush_def)

definition pf_ok :: "printf_state \<Rightarrow> bool" where
  "pf_ok state \<longleftrightarrow> length (pf_buf state) = PRINTF_BUFMAX \<and> pf_index state \<le> PRINTF_BUFMAX \<and>
     (\<forall>s\<in>set (pf_calls state). length s \<le> PRINTF_BUFMAX)"

lemma printf_char_text:
  assumes "pf_ok state"
  shows "pf_text (printf_char c state) = pf_text state @ [c]" and "pf_ok (printf_char c state)"
proof -
  have len: "0 < length (pf_buf state)" using assms by (simp add: pf_ok_def PRINTF_BUFMAX_def)
  show "pf_text (printf_char c state) = pf_text state @ [c]"
    using assms len hd_conv_nth [of "(pf_buf state)[0 := c]"]
    by (auto simp: printf_char_def Let_def pf_text_def flush_def pf_ok_def take_Suc_conv_app_nth take_Suc)
  show "pf_ok (printf_char c state)"
    using assms by (auto simp: printf_char_def Let_def pf_ok_def flush_def PRINTF_BUFMAX_def)
qed

lemma fold_printf_char:
  "pf_ok state \<Longrightarrow> pf_text (fold printf_char out state) = pf_text state @ out \<and> pf_ok (fold printf_char out state)"
  by (induction out arbitrary: state) (simp_all add: printf_char_text)

text \<open>
  C32. \<^verbatim>\<open>vprintf\<close> sends the formatted text to the console unchanged and in order, however it is cut
  into pieces; no piece is longer than the buffer, and nothing stays in the buffer.
\<close>

theorem vprintf_output:
  assumes "doprnt fmt args 0 = Some out" and "length junk = PRINTF_BUFMAX"
  shows "\<exists>calls. vprintf junk fmt args = Some (0, calls) \<and> concat calls = out \<and>
     (\<forall>s\<in>set calls. length s \<le> PRINTF_BUFMAX)"
proof -
  let ?st = "fold printf_char out \<lparr>pf_buf = junk, pf_index = 0, pf_calls = []\<rparr>"
  have "pf_ok \<lparr>pf_buf = junk, pf_index = 0, pf_calls = []\<rparr>" using assms(2) by (simp add: pf_ok_def)
  then have st: "pf_text ?st = out" "pf_ok ?st"
    using fold_printf_char by (fastforce simp: pf_text_def)+
  then show ?thesis
    using assms(1) by (auto simp: vprintf_def Let_def pf_text_def flush_def pf_ok_def)
qed

theorem vprintf_output_witness:
  "\<exists>calls. vprintf (replicate 128 NUL) ''pid %d'' [AInt 3] = Some (0, calls) \<and> concat calls = ''pid 3''"
proof -
  have "doprnt ''pid %d'' [AInt 3] 0 = Some ''pid 3''" by code_simp
  from vprintf_output [OF this, of "replicate 128 NUL"] show ?thesis by (auto simp: PRINTF_BUFMAX_def)
qed

end
