(* ===== verification/Console.thy ===== *)
theory Console
  imports Sys Printf
begin

text \<open>
  The consoles (\<^verbatim>\<open>kernel/console.c\<close>): the ring buffers of the keyboard input, the virtual screens, the
  keyboard callback, the \<^verbatim>\<open>ioctl\<close> requests and the callbacks of \<^verbatim>\<open>/sys/console\<close> and \<^verbatim>\<open>/dev/vc\<close>.
  \<^verbatim>\<open>console_putbytes\<close>, \<^verbatim>\<open>cons_write\<close> and \<^verbatim>\<open>console_vfs_init\<close> call the file system and are in theory \<open>Vfs\<close>.

  A console is a number below \<open>VIRTUAL_CONSOLES\<close>. What a callback stores through its buffer argument
  is a result of its definition. Bytes read from ports are arguments. An access outside the
  memory of a console, or outside the buffer of the ring, is a fault (\<open>None\<close>), and so is an access through the null pointer that
  \<open>check_pointer\<close> makes of an address it refuses: the first page is not mapped (\<^verbatim>\<open>setup_pgtab\<close> in \<^verbatim>\<open>crt0.S\<close>).
\<close>

section \<open>Constants\<close>

definition NB_COL :: int where "NB_COL = 80"
definition NB_ROW :: int where "NB_ROW = 25"
definition SCREEN_SEL :: u16 where "SCREEN_SEL = 0x03d4"
definition SCREEN_REG :: u16 where "SCREEN_REG = 0x03d5"
definition KB_DATA :: u16 where "KB_DATA = 0x060"
definition INPUT_BUFFER_SIZE :: nat where "INPUT_BUFFER_SIZE = 1024"
definition VIRTUAL_CONSOLES :: int where "VIRTUAL_CONSOLES = 4"
definition SCR_PALETTE_MASK :: u16 where "SCR_PALETTE_MASK = 0x3c6"
definition SCR_PALETTE_READ :: u16 where "SCR_PALETTE_READ = 0x3c7"
definition SCR_PALETTE_WRITE :: u16 where "SCR_PALETTE_WRITE = 0x3c8"
definition SCR_PALETTE_DATA :: u16 where "SCR_PALETTE_DATA = 0x3c9"

definition upd_vc :: "nat \<Rightarrow> (virtual_console \<Rightarrow> virtual_console) \<Rightarrow> kstate \<Rightarrow> kstate" where
  "upd_vc i f s = s\<lparr>virtual_consoles := (virtual_consoles s)(i := f (virtual_consoles s i))\<rparr>"

section \<open>The ring buffer\<close>

definition ringbuffer_init :: "ringbuffer \<Rightarrow> ringbuffer" where
  "ringbuffer_init r = r\<lparr>in_start := 0, in_size := 0\<rparr>"

text \<open>
  The pointer \<^verbatim>\<open>in_start + in_size\<close> is 32 bits wide: with a size that went below 0 it lies before
  \<^verbatim>\<open>in_start\<close>. Storing outside the array is a fault.
\<close>

definition ring_end :: "ringbuffer \<Rightarrow> int" where
  "ring_end r = (let p = int (in_start r + in_size r) in if p \<ge> 2 ^ 31 then p - 2 ^ 32 else p)"

definition ring_push :: "char \<Rightarrow> ringbuffer \<Rightarrow> ringbuffer option" where
  "ring_push key r =
     (if in_size r = INPUT_BUFFER_SIZE then Some r
      else do {
        let i = (if ring_end r < int INPUT_BUFFER_SIZE then ring_end r else ring_end r - int INPUT_BUFFER_SIZE);
        assert_that (0 \<le> i \<and> nat i < length (in_buf r));
        Some (r\<lparr>in_buf := (in_buf r)[nat i := key], in_size := (in_size r + 1) mod 2 ^ 32\<rparr>) })"

text \<open>The size is unsigned: taking from an empty buffer makes it \<open>2 ^ 32 - 1\<close>.\<close>

definition ring_pop :: "ringbuffer \<Rightarrow> (char \<times> ringbuffer) option" where
  "ring_pop r = do {
     assert_that (in_start r < length (in_buf r));
     let res = in_buf r ! in_start r;
     let r = r\<lparr>in_size := (if in_size r = 0 then 2 ^ 32 - 1 else in_size r - 1)\<rparr>;
     let r = r\<lparr>in_start := in_start r + 1\<rparr>;
     let r = (if in_start r > INPUT_BUFFER_SIZE then r\<lparr>in_start := in_start r - INPUT_BUFFER_SIZE\<rparr> else r);
     Some (res, r) }"

definition ring_unpush :: "ringbuffer \<Rightarrow> bool \<times> ringbuffer" where
  "ring_unpush r =
     (let is_empty = (in_size r = 0)
      in if is_empty then (is_empty, r) else (is_empty, r\<lparr>in_size := in_size r - 1\<rparr>))"

section \<open>Keyboard input\<close>

definition buffer_push :: "nat \<Rightarrow> char \<Rightarrow> kstate \<Rightarrow> kstate option" where
  "buffer_push i key s = do {
     let vc = virtual_consoles s i;
     s \<leftarrow> (if vc_buffered vc \<noteq> 0
          then if key = CHR 0x0A \<and> vc_waiting_pid vc \<noteq> -1 then signal_new_io (vc_waiting_pid vc) s else Some s
          else signal_new_io (vc_waiting_pid vc) s);
     r \<leftarrow> ring_push key (vc_buf vc);
     Some (upd_vc i (\<lambda>vc. vc\<lparr>vc_buf := r\<rparr>) s) }"

text \<open>
  \<^verbatim>\<open>buffer_pop\<close> on an empty buffer blocks the caller (\<open>None\<close> as the character) and takes the character,
  with \<open>buffer_take\<close>, when the caller runs again.
\<close>

definition buffer_take :: "nat \<Rightarrow> kstate \<Rightarrow> (char \<times> kstate) option" where
  "buffer_take i s = do {
     (c, r) \<leftarrow> ring_pop (vc_buf (virtual_consoles s i));
     Some (c, upd_vc i (\<lambda>vc. vc\<lparr>vc_buf := r\<rparr>) s) }"

definition buffer_pop :: "nat \<Rightarrow> kstate \<Rightarrow> (char option \<times> kstate) option" where
  "buffer_pop i s =
     (if in_size (vc_buf (virtual_consoles s i)) = 0 then do {
        let s = upd_vc i (\<lambda>vc. vc\<lparr>vc_waiting_pid := getpid s\<rparr>) s;
        assert_that (in_tab (getpid s));
        let s = upd_proc (getpid s) (\<lambda>c. c\<lparr>p_state := STATE_WAIT_IO\<rparr>) s;
        s \<leftarrow> scheduler s;
        Some (None, s) }
      else do { (c, s) \<leftarrow> buffer_take i s; Some (Some c, s) })"

definition buffer_unpush :: "nat \<Rightarrow> kstate \<Rightarrow> bool \<times> kstate" where
  "buffer_unpush i s =
     (let (is_empty, r) = ring_unpush (vc_buf (virtual_consoles s i))
      in (is_empty, upd_vc i (\<lambda>vc. vc\<lparr>vc_buf := r\<rparr>) s))"

text \<open>The console of the caller: the inode of its standard output.\<close>

definition caller_console :: "kstate \<Rightarrow> nat option" where
  "caller_console s = do {
     assert_that (in_tab (pid_cour s));
     let fds = p_file_desc (tab_proc s (pid_cour s));
     assert_that (1 < length fds);
     node \<leftarrow> f_node (fds ! 1);
     let i = n_inode (fs_nodes s node) - 100;
     assert_that (0 \<le> i \<and> i < VIRTUAL_CONSOLES);
     Some (nat i) }"

text \<open>
  \<^verbatim>\<open>cons_read\<close>: \<open>acc\<close> is what has been stored so far and \<open>n\<close> how many bytes are still wanted. The call is
  over, with the length of what was stored as its value, or it waits for a console.
\<close>

datatype cons_result = Read_done string | Read_blocked nat string nat

fun cons_read_loop :: "nat \<Rightarrow> string \<Rightarrow> kstate \<Rightarrow> (cons_result \<times> kstate) option" where
  "cons_read_loop 0 acc s = Some (Read_done acc, s)"
| "cons_read_loop (Suc n) acc s = do {
     i \<leftarrow> caller_console s;
     (c, s) \<leftarrow> buffer_pop i s;
     (case c of
        None \<Rightarrow> Some (Read_blocked i acc n, s)
      | Some c \<Rightarrow> if c = CHR 0x0A then Some (Read_done acc, s) else cons_read_loop n (acc @ [c]) s) }"

primrec read_so_far :: "cons_result \<Rightarrow> string" where
  "read_so_far (Read_done acc) = acc"
| "read_so_far (Read_blocked _ acc _) = acc"

definition cons_read :: "u32 \<Rightarrow> u32 \<Rightarrow> kstate \<Rightarrow> (u32 \<times> cons_result \<times> kstate) option" where
  "cons_read buf len s = do {
     let buf = check_pointer buf SYSCALL_CONS_READ s;
     (r, s) \<leftarrow> cons_read_loop (unat len) [] s;
     assert_that (buf \<noteq> 0 \<or> read_so_far r = []);
     Some (buf, r, s) }"

definition cons_read_resume :: "nat \<Rightarrow> string \<Rightarrow> nat \<Rightarrow> kstate \<Rightarrow> (cons_result \<times> kstate) option" where
  "cons_read_resume i acc n s = do {
     (c, s) \<leftarrow> buffer_take i s;
     if c = CHR 0x0A then Some (Read_done acc, s) else cons_read_loop n (acc @ [c]) s }"

definition console_set_buffered_mode :: "nat \<Rightarrow> kstate \<Rightarrow> kstate" where
  "console_set_buffered_mode i s = upd_vc i (\<lambda>vc. vc\<lparr>vc_buffered := 1\<rparr>) s"

definition console_set_unbuffered_mode :: "nat \<Rightarrow> kstate \<Rightarrow> kstate" where
  "console_set_unbuffered_mode i s = upd_vc i (\<lambda>vc. vc\<lparr>vc_buffered := 0\<rparr>) s"

definition console_is_buffered :: "nat \<Rightarrow> kstate \<Rightarrow> int" where
  "console_is_buffered i s = vc_buffered (virtual_consoles s i)"

section \<open>The screen\<close>

definition console_write_register :: "u8 \<Rightarrow> int \<Rightarrow> kstate \<Rightarrow> kstate" where
  "console_write_register reg value s = outb (word_of_int value) SCREEN_REG (outb reg SCREEN_SEL s)"

definition console_update_cursor :: "nat \<Rightarrow> kstate \<Rightarrow> kstate" where
  "console_update_cursor i s =
     (let pos = vc_pos (virtual_consoles s i)
      in console_write_register 0x0e ((pos div 256) mod 256) (console_write_register 0x0f (pos mod 256) s))"

definition screen_size :: nat where
  "screen_size = nat (NB_COL * NB_ROW)"

definition vc_draw :: "nat \<Rightarrow> kstate \<Rightarrow> kstate option" where
  "vc_draw i s = do {
     let mem = vc_mem (virtual_consoles s i);
     assert_that (screen_size \<le> length mem \<and> screen_size \<le> length (video_mem s));
     let s = s\<lparr>video_mem := take screen_size mem @ drop screen_size (video_mem s)\<rparr>;
     Some (console_update_cursor i s) }"

definition vc_init :: "virtual_console \<Rightarrow> virtual_console" where
  "vc_init vc = vc\<lparr>vc_buf := ringbuffer_init (vc_buf vc), vc_pos := 0, vc_echo := 1, vc_buffered := 1,
     vc_attr := 0x07, vc_waiting_pid := -1\<rparr>"

definition vc_flip :: "int \<Rightarrow> kstate \<Rightarrow> kstate option" where
  "vc_flip vc_number s =
     (if vc_number \<ge> 0 \<and> vc_number < VIRTUAL_CONSOLES then do {
        let which = nat vc_number;
        s \<leftarrow> vc_draw which s;
        let s = s\<lparr>video_mem := (video_mem s)[screen_size - 1 :=
              (video_mem s ! (screen_size - 1))\<lparr>cc_c := to_char (48 + vc_number)\<rparr>]\<rparr>;
        Some (s\<lparr>vc_current := which\<rparr>) }
      else Some s)"

text \<open>The two loops of \<^verbatim>\<open>console_scroll\<close>: move \<open>n\<close> cells up by \<open>w\<close>, and blank the cells from \<open>n\<close> on.\<close>

definition scroll_copy :: "nat \<Rightarrow> nat \<Rightarrow> console_character list \<Rightarrow> console_character list" where
  "scroll_copy n w mem = fold (\<lambda>i m. m[i := m ! (i + w)]) [0..<n] mem"

definition scroll_blank :: "nat \<Rightarrow> nat \<Rightarrow> console_character list \<Rightarrow> console_character list" where
  "scroll_blank a b mem = fold (\<lambda>i m. m[i := (m ! i)\<lparr>cc_c := CHR '' ''\<rparr>]) [a..<b] mem"

definition console_scroll :: "nat \<Rightarrow> kstate \<Rightarrow> kstate option" where
  "console_scroll i s = do {
     let s = upd_vc i (\<lambda>vc. vc\<lparr>vc_pos := vc_pos vc - NB_COL\<rparr>) s;
     assert_that (screen_size \<le> length (vc_mem (virtual_consoles s i)));
     let k = nat (NB_COL * (NB_ROW - 1));
     let s = upd_vc i (\<lambda>vc. vc\<lparr>vc_mem := scroll_blank k screen_size (scroll_copy k (nat NB_COL) (vc_mem vc))\<rparr>) s;
     vc_draw i s }"

definition draw_cell :: "nat \<Rightarrow> char \<Rightarrow> kstate \<Rightarrow> kstate option" where
  "draw_cell i c s = do {
     let vc = virtual_consoles s i;
     assert_that (0 \<le> vc_pos vc \<and> nat (vc_pos vc) < length (vc_mem vc));
     let cell = \<lparr>cc_c = c, cc_attr = ucast (vc_attr vc)\<rparr>;
     let s = upd_vc i (\<lambda>vc. vc\<lparr>vc_mem := (vc_mem vc)[nat (vc_pos vc) := cell]\<rparr>) s;
     if i = vc_current s then do {
       assert_that (nat (vc_pos vc) < length (video_mem s));
       Some (s\<lparr>video_mem := (video_mem s)[nat (vc_pos vc) := cell]\<rparr>) }
     else Some s }"

definition console_drawbyte :: "nat \<Rightarrow> char \<Rightarrow> kstate \<Rightarrow> kstate option" where
  "console_drawbyte i c s =
     (if c = CHR 0x0A \<or> c = CHR 0x0D \<or> c = CHR 0x09 then Some s
      else if c = CHR 0x08 then draw_cell i (CHR '' '') (upd_vc i (\<lambda>vc. vc\<lparr>vc_pos := vc_pos vc - 1\<rparr>) s)
      else draw_cell i c s)"

text \<open>The tabulator: the first multiple of 8 after the position (\<^verbatim>\<open>do pos++ while (pos % 8 != 0)\<close>).\<close>

definition tab_stop :: "int \<Rightarrow> int" where
  "tab_stop pos = (pos div 8 + 1) * 8"

definition next_pos :: "char \<Rightarrow> int \<Rightarrow> int" where
  "next_pos c pos =
     (if c = CHR 0x0A \<or> c = CHR 0x0D then pos + (NB_COL - pos mod NB_COL)
      else if c = CHR 0x09 then tab_stop pos
      else if c = CHR 0x08 then pos
      else pos + 1)"

definition console_putbyte :: "nat \<Rightarrow> char \<Rightarrow> kstate \<Rightarrow> kstate option" where
  "console_putbyte i c s = do {
     s \<leftarrow> console_drawbyte i c s;
     let s = upd_vc i (\<lambda>vc. vc\<lparr>vc_pos := next_pos c (vc_pos vc)\<rparr>) s;
     s \<leftarrow> (if vc_pos (virtual_consoles s i) \<ge> NB_COL * NB_ROW
          then do { s \<leftarrow> console_scroll i s; console_drawbyte i c s } else Some s);
     Some (console_update_cursor i s) }"

fun put_all :: "nat \<Rightarrow> string \<Rightarrow> kstate \<Rightarrow> kstate option" where
  "put_all i [] s = Some s"
| "put_all i (c # cs) s = do { s \<leftarrow> console_putbyte i c s; put_all i cs s }"

definition console_clear :: "nat \<Rightarrow> kstate \<Rightarrow> kstate option" where
  "console_clear i s = do {
     assert_that (screen_size \<le> length (vc_mem (virtual_consoles s i)));
     let s = upd_vc i (\<lambda>vc. vc\<lparr>vc_pos := 0,
           vc_mem := replicate screen_size \<lparr>cc_c = CHR '' '', cc_attr = ucast (vc_attr vc)\<rparr> @ drop screen_size (vc_mem vc)\<rparr>) s;
     vc_draw i s }"

definition clear :: "kstate \<Rightarrow> kstate option" where
  "clear s = console_clear (vc_current s) s"

text \<open>
  \<^verbatim>\<open>console_init\<close>: \<open>int33\<close> is the address of the keyboard interrupt entry, \<open>irq_mask\<close> what the interrupt
  controller answers and \<open>junk\<close> the contents of fresh memory.
\<close>

fun console_init_loop :: "console_character list \<Rightarrow> nat list \<Rightarrow> kstate \<Rightarrow> kstate option" where
  "console_init_loop junk [] s = Some s"
| "console_init_loop junk (i # is) s = do {
     let s = upd_vc i vc_init s;
     let (a, s) = mem_alloc s;
     assert_that (a \<noteq> 0);
     let s = upd_vc i (\<lambda>vc. vc\<lparr>vc_mem := junk\<rparr>) s;
     s \<leftarrow> console_clear i s;
     console_init_loop junk is s }"

definition console_init :: "u32 \<Rightarrow> u8 \<Rightarrow> console_character list \<Rightarrow> kstate \<Rightarrow> kstate option" where
  "console_init int33 irq_mask junk s = do {
     c \<leftarrow> fill_interrupt 33 (of_nat KERNEL_CS) int33 0 (cpu s);
     let s = s\<lparr>cpu := c\<rparr>;
     let s = init_irqs irq_mask 2 s;
     s \<leftarrow> console_init_loop junk [0..<nat VIRTUAL_CONSOLES] s;
     Some (s\<lparr>vc_current := 0\<rparr>) }"

definition cons_echo :: "int \<Rightarrow> kstate \<Rightarrow> kstate" where
  "cons_echo on s = upd_vc (vc_current s) (\<lambda>vc. vc\<lparr>vc_echo := on\<rparr>) s"

section \<open>The keyboard\<close>

definition keyboard_data :: "char \<Rightarrow> kstate \<Rightarrow> kstate option" where
  "keyboard_data c s =
     (let c = (if c = CHR 0x7F then CHR 0x08 else c);
          c = (if c = CHR 0x0D then CHR 0x0A else c)
      in if c = CHR 0x08 then
           let (was_empty, s) = buffer_unpush (vc_current s) s
           in if \<not> was_empty \<and> vc_echo (virtual_consoles s (vc_current s)) \<noteq> 0
              then console_putbyte (vc_current s) c s else Some s
         else do {
           s \<leftarrow> buffer_push (vc_current s) c s;
           if vc_echo (virtual_consoles s (vc_current s)) \<noteq> 0 then console_putbyte (vc_current s) c s
           else Some s })"

text \<open>\<^verbatim>\<open>console_leds_update\<close>; the record field has claimed its name.\<close>

definition console_leds_refresh :: "kstate \<Rightarrow> kstate" where
  "console_leds_refresh s = outb (console_leds s) KB_DATA (outb 0xed KB_DATA s)"

definition kbd_leds :: "u8 \<Rightarrow> kstate \<Rightarrow> kstate" where
  "kbd_leds leds s = console_leds_refresh (s\<lparr>console_leds := leds\<rparr>)"

definition console_scrolllock_on :: "kstate \<Rightarrow> kstate" where
  "console_scrolllock_on s = console_leds_refresh (s\<lparr>console_leds := console_leds s OR 1\<rparr>)"

definition console_scrolllock_off :: "kstate \<Rightarrow> kstate" where
  "console_scrolllock_off s = console_leds_refresh (s\<lparr>console_leds := console_leds s AND NOT 1\<rparr>)"

section \<open>Requests\<close>

datatype cons_ioctl_req = CONS_SETPAL | CONS_GETPAL | CONS_SETATTR | CONS_GETATTR | CONS_SETBUF | CONS_GETBUF

definition ioctl_req :: "int \<Rightarrow> cons_ioctl_req option" where
  "ioctl_req req =
     (if req = 0 then Some CONS_SETPAL else if req = 1 then Some CONS_GETPAL
      else if req = 2 then Some CONS_SETATTR else if req = 3 then Some CONS_GETATTR
      else if req = 4 then Some CONS_SETBUF else if req = 5 then Some CONS_GETBUF else None)"

text \<open>The argument points to a palette entry of four longs or to one long; \<open>rgb\<close> is what the palette port returns.\<close>

definition cons_ioctl :: "int \<Rightarrow> u32 \<Rightarrow> u8 \<times> u8 \<times> u8 \<Rightarrow> kstate \<Rightarrow> kstate option" where
  "cons_ioctl req p rgb s = do {
     let p = check_pointer p SYSCALL_CONS_IOCTL s;
     let cur = vc_current s;
     let (r, g, b) = rgb;
     assert_that (p \<noteq> 0 \<or> ioctl_req req = None);
     Some (case ioctl_req req of
        Some CONS_SETPAL \<Rightarrow>
          outb (ucast (umem s (p + 12))) SCR_PALETTE_DATA
           (outb (ucast (umem s (p + 8))) SCR_PALETTE_DATA
            (outb (ucast (umem s (p + 4))) SCR_PALETTE_DATA
             (outb (ucast (umem s p)) SCR_PALETTE_WRITE (outb 0xff SCR_PALETTE_MASK s))))
      | Some CONS_GETPAL \<Rightarrow>
          (let s = outb (ucast (umem s p)) SCR_PALETTE_READ (outb 0xff SCR_PALETTE_MASK s)
           in s\<lparr>umem := (umem s)(p + 4 := ucast r, p + 8 := ucast g, p + 12 := ucast b)\<rparr>)
      | Some CONS_SETATTR \<Rightarrow> upd_vc cur (\<lambda>vc. vc\<lparr>vc_attr := umem s p\<rparr>) s
      | Some CONS_GETATTR \<Rightarrow> s\<lparr>umem := (umem s)(p := vc_attr (virtual_consoles s cur))\<rparr>
      | Some CONS_SETBUF \<Rightarrow> upd_vc cur (\<lambda>vc. vc\<lparr>vc_buffered := sint (umem s p)\<rparr>) s
      | Some CONS_GETBUF \<Rightarrow> s\<lparr>umem := (umem s)(p := word_of_int (vc_buffered (virtual_consoles s cur)))\<rparr>
      | None \<Rightarrow> s) }"

text \<open>
  The callbacks use the two attribute requests with the address of a variable of their own on the
  kernel stack, which is refused only inside the system call \<^verbatim>\<open>cons_ioctl\<close> itself.
\<close>

definition get_attr :: "kstate \<Rightarrow> u32 option" where
  "get_attr s = do {
     assert_that (\<not> is_in_syscall SYSCALL_CONS_IOCTL s);
     Some (vc_attr (virtual_consoles s (vc_current s))) }"

definition set_attr :: "u32 \<Rightarrow> kstate \<Rightarrow> kstate option" where
  "set_attr a s = do {
     assert_that (\<not> is_in_syscall SYSCALL_CONS_IOCTL s);
     Some (upd_vc (vc_current s) (\<lambda>vc. vc\<lparr>vc_attr := a\<rparr>) s) }"

section \<open>Callbacks of the file system\<close>

text \<open>A read callback returns its value and the bytes it stores.\<close>

definition read_value :: "u32 \<Rightarrow> u32 \<Rightarrow> u32 \<Rightarrow> (int \<times> string) option" where
  "read_value v offset len = do {
     txt \<leftarrow> doprnt ''%d'' [AInt v] 0;
     let out = seq_memread txt offset len;
     Some (int (length out), out) }"

definition console_blink_r :: "u32 \<Rightarrow> u32 \<Rightarrow> kstate \<Rightarrow> (int \<times> string) option" where
  "console_blink_r offset len s =
     (if offset = 0 then do {
        attr \<leftarrow> get_attr s;
        txt \<leftarrow> doprnt ''%d'' [AInt (if attr AND 0x80 \<noteq> 0 then 1 else 0)] 0;
        Some (1, take 1 txt @ [NUL]) }
      else Some (0, []))"

definition console_fg_r :: "u32 \<Rightarrow> u32 \<Rightarrow> kstate \<Rightarrow> (int \<times> string) option" where
  "console_fg_r offset len s = do { attr \<leftarrow> get_attr s; read_value (attr AND 0x0f) offset len }"

definition console_bg_r :: "u32 \<Rightarrow> u32 \<Rightarrow> kstate \<Rightarrow> (int \<times> string) option" where
  "console_bg_r offset len s = do { attr \<leftarrow> get_attr s; read_value (drop_bit 4 (attr AND 0x70)) offset len }"

text \<open>A write callback gets the bytes the caller wants to write; the number of bytes is their length.\<close>

definition console_blink_w :: "string \<Rightarrow> kstate \<Rightarrow> (int \<times> kstate) option" where
  "console_blink_w buf s = (case buf of
      c # _ \<Rightarrow> do {
        attr \<leftarrow> get_attr s;
        s \<leftarrow> set_attr (if c = CHR ''0'' then attr AND NOT 0x80 else attr OR 0x80) s;
        Some (1, s) }
    | [] \<Rightarrow> Some (-1, s))"

definition console_fg_w :: "string \<Rightarrow> kstate \<Rightarrow> (int \<times> kstate) option" where
  "console_fg_w buf s = (case buf of
      c # _ \<Rightarrow> do {
        attr \<leftarrow> get_attr s;
        s \<leftarrow> set_attr ((attr AND NOT 0x0f) OR (word_of_int (schar c - 48) AND 0x0f)) s;
        Some (1, s) }
    | [] \<Rightarrow> Some (-1, s))"

definition console_bg_w :: "string \<Rightarrow> kstate \<Rightarrow> (int \<times> kstate) option" where
  "console_bg_w buf s = (case buf of
      c # _ \<Rightarrow> do {
        attr \<leftarrow> get_attr s;
        s \<leftarrow> set_attr ((attr AND NOT 0x70) OR (push_bit 4 (word_of_int (schar c - 48)) AND 0x70)) s;
        Some (1, s) }
    | [] \<Rightarrow> Some (-1, s))"

definition console_echo_w :: "string \<Rightarrow> kstate \<Rightarrow> (int \<times> kstate) option" where
  "console_echo_w buf s = (case buf of
      c # _ \<Rightarrow> Some (1, cons_echo (schar c - 48) s)
    | [] \<Rightarrow> Some (-1, s))"

definition console_vc_readdir :: "int \<Rightarrow> (int \<times> dirent option) option" where
  "console_vc_readdir n =
     (if n < 0 then Some (-1, None)
      else if n \<ge> VIRTUAL_CONSOLES then Some (0, None)
      else do {
        txt \<leftarrow> doprnt ''%d'' [AInt (word_of_int n)] 0;
        Some (1, Some \<lparr>d_name = take FS_NAME_MAX txt, d_inode = 100 + n\<rparr>) })"

definition console_vc_finddir :: "string \<Rightarrow> node_ptr option option" where
  "console_vc_finddir name = do {
     (v, _) \<leftarrow> strtol (name @ [NUL]) 0 10;
     let vc_n = sint v;
     Some (if vc_n < 0 \<or> vc_n \<ge> VIRTUAL_CONSOLES then None else Some (VcNode (nat vc_n))) }"

definition console_vc_write :: "fs_node \<Rightarrow> string \<Rightarrow> kstate \<Rightarrow> (int \<times> kstate) option" where
  "console_vc_write node buf s = do {
     assert_that (buf = [] \<or> 0 \<le> n_inode node - 100 \<and> n_inode node - 100 < VIRTUAL_CONSOLES);
     s \<leftarrow> put_all (nat (n_inode node - 100)) buf s;
     Some (int (length buf), s) }"

section \<open>The ring buffer as a queue\<close>

fun pop_many :: "('r \<Rightarrow> ('c \<times> 'r) option) \<Rightarrow> nat \<Rightarrow> 'r \<Rightarrow> ('c list \<times> 'r) option" where
  "pop_many pop 0 r = Some ([], r)"
| "pop_many pop (Suc n) r = do { (c, r) \<leftarrow> pop r; (cs, r) \<leftarrow> pop_many pop n r; Some (c # cs, r) }"

fun push_many :: "('c \<Rightarrow> 'r \<Rightarrow> 'r option) \<Rightarrow> 'c list \<Rightarrow> 'r \<Rightarrow> 'r option" where
  "push_many push [] r = Some r"
| "push_many push (c # cs) r = do { r \<leftarrow> push c r; push_many push cs r }"

text \<open>
  A bounded line buffer: characters enter at the end, leave at the front, and the last one can be
  taken back. \<open>ok k r\<close> says that \<open>r\<close> is well formed and good for \<open>k\<close> more removals.
\<close>

locale line_buffer =
  fixes ok :: "nat \<Rightarrow> 'r \<Rightarrow> bool" and contents :: "'r \<Rightarrow> 'c list" and cap :: nat
    and push :: "'c \<Rightarrow> 'r \<Rightarrow> 'r option" and pop :: "'r \<Rightarrow> ('c \<times> 'r) option" and unpush :: "'r \<Rightarrow> bool \<times> 'r"
  assumes push_back: "ok k r \<Longrightarrow> \<exists>r'. push c r = Some r' \<and> ok k r' \<and>
      contents r' = (if length (contents r) < cap then contents r @ [c] else contents r)"
    and pop_front: "ok (Suc k) r \<Longrightarrow> contents r = c # cs \<Longrightarrow> \<exists>r'. pop r = Some (c, r') \<and> contents r' = cs \<and> ok k r'"
    and unpush_ok: "ok k r \<Longrightarrow> ok k (snd (unpush r))"
    and unpush_contents: "ok k r \<Longrightarrow> contents (snd (unpush r)) = butlast (contents r)"
    and unpush_empty: "ok k r \<Longrightarrow> fst (unpush r) \<longleftrightarrow> contents r = []"
begin

lemma push_fill:
  "ok k r \<Longrightarrow> length (contents r) \<le> cap \<Longrightarrow>
   \<exists>r'. push_many push cs r = Some r' \<and> contents r' = take cap (contents r @ cs) \<and> ok k r'"
proof (induction cs arbitrary: r)
  case (Cons c cs)
  obtain r1 where r1: "push c r = Some r1" "ok k r1"
    "contents r1 = (if length (contents r) < cap then contents r @ [c] else contents r)"
    using push_back [OF Cons.prems(1), of c] by blast
  moreover have "length (contents r1) \<le> cap" using r1(3) Cons.prems(2) by simp
  moreover have "take cap (contents r1 @ cs) = take cap (contents r @ c # cs)" using r1(3) Cons.prems(2) by (auto simp: take_Cons')
  ultimately show ?case using Cons.IH [OF r1(2)] by simp
qed simp

lemma pop_all:
  "ok (length xs + k) r \<Longrightarrow> contents r = xs @ ys \<Longrightarrow>
   \<exists>r'. pop_many pop (length xs) r = Some (xs, r') \<and> contents r' = ys \<and> ok k r'"
proof (induction xs arbitrary: r)
  case (Cons x xs)
  then obtain r1 where r1: "pop r = Some (x, r1)" "contents r1 = xs @ ys" "ok (length xs + k) r1"
    using pop_front [of "length xs + k" r x "xs @ ys"] by auto
  from Cons.IH [OF r1(3,2)] r1(1) show ?case by auto
qed simp

lemma fifo:
  assumes "ok n r" and "length (contents r) \<le> cap" and "n \<le> length (take cap (contents r @ cs))"
  shows "\<exists>r1 r2. push_many push cs r = Some r1 \<and> contents r1 = take cap (contents r @ cs) \<and>
    pop_many pop n r1 = Some (take n (contents r1), r2) \<and> contents r2 = drop n (contents r1)"
proof -
  obtain r1 where r1: "push_many push cs r = Some r1" "contents r1 = take cap (contents r @ cs)" "ok n r1"
    using push_fill [OF assms(1,2)] by blast
  have "length (take n (contents r1)) = n" using r1(2) assms(3) by simp
  moreover from this have "\<exists>r2. pop_many pop n r1 = Some (take n (contents r1), r2) \<and> contents r2 = drop n (contents r1) \<and> ok 0 r2"
    using pop_all [of "take n (contents r1)" 0 r1 "drop n (contents r1)"] r1(3) by simp
  ultimately show ?thesis using r1(1,2) by blast
qed

end

definition ring_ok :: "nat \<Rightarrow> ringbuffer \<Rightarrow> bool" where
  "ring_ok k r \<longleftrightarrow> length (in_buf r) = INPUT_BUFFER_SIZE \<and> in_size r \<le> INPUT_BUFFER_SIZE \<and>
     in_start r + k \<le> INPUT_BUFFER_SIZE"

definition ring_contents :: "ringbuffer \<Rightarrow> char list" where
  "ring_contents r = map (\<lambda>i. in_buf r ! ((in_start r + i) mod INPUT_BUFFER_SIZE)) [0..<in_size r]"

lemma length_ring_contents [simp]: "length (ring_contents r) = in_size r"
  by (simp add: ring_contents_def)

lemma ring_index:
  assumes "a \<le> INPUT_BUFFER_SIZE" and "i < INPUT_BUFFER_SIZE"
  shows "(a + i) mod INPUT_BUFFER_SIZE = (if a + i < INPUT_BUFFER_SIZE then a + i else a + i - INPUT_BUFFER_SIZE)"
proof (cases "a + i < INPUT_BUFFER_SIZE")
  case False
  then have "(a + i) mod INPUT_BUFFER_SIZE = (a + i - INPUT_BUFFER_SIZE) mod INPUT_BUFFER_SIZE"
    by (simp add: le_mod_geq)
  also have "\<dots> = a + i - INPUT_BUFFER_SIZE" using assms by simp
  finally show ?thesis using False by simp
qed simp

lemma ring_index_inj:
  "a \<le> INPUT_BUFFER_SIZE \<Longrightarrow> i < INPUT_BUFFER_SIZE \<Longrightarrow> j < INPUT_BUFFER_SIZE \<Longrightarrow>
   (a + i) mod INPUT_BUFFER_SIZE = (a + j) mod INPUT_BUFFER_SIZE \<longleftrightarrow> i = j"
  by (auto simp: ring_index)

lemma ring_push_cell:
  assumes "ring_ok k r" and "in_size r < INPUT_BUFFER_SIZE"
  shows "ring_push c r =
     Some (r\<lparr>in_buf := (in_buf r)[(in_start r + in_size r) mod INPUT_BUFFER_SIZE := c], in_size := in_size r + 1\<rparr>)"
proof -
  have "ring_end r = int (in_start r + in_size r)"
    using assms by (simp add: ring_end_def ring_ok_def INPUT_BUFFER_SIZE_def)
  then show ?thesis
    using assms ring_index [of "in_start r" "in_size r"]
    by (auto simp: ring_push_def ring_ok_def INPUT_BUFFER_SIZE_def Let_def nat_diff_distrib nat_int_add)
qed

lemma ring_push_full: "\<not> in_size r < INPUT_BUFFER_SIZE \<Longrightarrow> ring_ok k r \<Longrightarrow> ring_push c r = Some r"
  by (simp add: ring_push_def ring_ok_def)

lemma ring_push_back:
  assumes "ring_ok k r"
  shows "\<exists>r'. ring_push c r = Some r' \<and> ring_ok k r' \<and>
    ring_contents r' = (if in_size r < INPUT_BUFFER_SIZE then ring_contents r @ [c] else ring_contents r)"
proof (cases "in_size r < INPUT_BUFFER_SIZE")
  case True
  have "(in_start r + in_size r) mod INPUT_BUFFER_SIZE < length (in_buf r)"
    using assms by (simp add: ring_ok_def INPUT_BUFFER_SIZE_def)
  moreover have "(in_start r + in_size r) mod INPUT_BUFFER_SIZE \<noteq> (in_start r + x) mod INPUT_BUFFER_SIZE"
    if "x < in_size r" for x
    using that True assms ring_index_inj [of "in_start r" "in_size r" x] by (simp add: ring_ok_def)
  ultimately show ?thesis
    using True assms by (auto simp: ring_push_cell ring_contents_def ring_ok_def)
next
  case False
  with assms show ?thesis by (simp add: ring_push_full)
qed

lemma ring_pop_front:
  assumes "ring_ok (Suc k) r" and "ring_contents r = c # cs"
  shows "\<exists>r'. ring_pop r = Some (c, r') \<and> ring_contents r' = cs \<and> ring_ok k r'"
proof -
  obtain n where n: "in_size r = Suc n" using assms(2) by (cases "in_size r") (auto simp: ring_contents_def)
  have st: "in_start r < INPUT_BUFFER_SIZE" using assms(1) by (simp add: ring_ok_def)
  then have "c = in_buf r ! in_start r"
    using assms(2) by (simp add: ring_contents_def n upt_conv_Cons del: upt_Suc)
  moreover have "cs = map (\<lambda>i. in_buf r ! ((in_start r + 1 + i) mod INPUT_BUFFER_SIZE)) [0..<n]"
  proof -
    have "cs = tl (ring_contents r)" using assms(2) by simp
    also have "\<dots> = map (\<lambda>i. in_buf r ! ((in_start r + i) mod INPUT_BUFFER_SIZE)) [1..<Suc n]"
      by (simp add: ring_contents_def n upt_conv_Cons del: upt_Suc)
    also have "\<dots> = map (\<lambda>i. in_buf r ! ((in_start r + 1 + i) mod INPUT_BUFFER_SIZE)) [0..<n]"
      by (simp add: map_Suc_upt [symmetric] del: upt_Suc)
    finally show ?thesis .
  qed
  ultimately show ?thesis
    using assms(1) st n by (auto simp: ring_pop_def ring_ok_def ring_contents_def Let_def)
qed

lemma ring_unpush_contents:
  "ring_contents (snd (ring_unpush r)) = butlast (ring_contents r)"
  by (cases "in_size r") (auto simp: ring_unpush_def ring_contents_def Let_def)

interpretation ring: line_buffer ring_ok ring_contents INPUT_BUFFER_SIZE ring_push ring_pop ring_unpush
proof unfold_locales
  fix k r c
  assume ok: "ring_ok k r"
  show "\<exists>r'. ring_push c r = Some r' \<and> ring_ok k r' \<and> ring_contents r' =
      (if length (ring_contents r) < INPUT_BUFFER_SIZE then ring_contents r @ [c] else ring_contents r)"
    using ring_push_back [OF ok] by simp
  show "ring_ok k (snd (ring_unpush r))" using ok by (auto simp: ring_unpush_def ring_ok_def Let_def)
  show "ring_contents (snd (ring_unpush r)) = butlast (ring_contents r)" by (rule ring_unpush_contents)
  show "fst (ring_unpush r) \<longleftrightarrow> ring_contents r = []"
    by (auto simp: ring_unpush_def ring_contents_def Let_def)
next
  fix k r c cs
  assume "ring_ok (Suc k) r" and "ring_contents r = c # cs"
  then show "\<exists>r'. ring_pop r = Some (c, r') \<and> ring_contents r' = cs \<and> ring_ok k r'"
    by (rule ring_pop_front)
qed

text \<open>The start only moves when a character is taken, by one; at the end of the array nothing can be taken.\<close>

lemma ring_push_start: "ring_push c r = Some r' \<Longrightarrow> in_start r' = in_start r \<and> length (in_buf r') = length (in_buf r)"
  by (auto simp: ring_push_def Let_def bind_eq_Some_conv split: if_splits)

lemma push_many_start: "push_many ring_push cs r = Some r' \<Longrightarrow> in_start r' = in_start r \<and> length (in_buf r') = length (in_buf r)"
  by (induction cs arbitrary: r) (auto simp: bind_eq_Some_conv dest: ring_push_start)

lemma pop_many_past_end:
  "in_start r \<le> INPUT_BUFFER_SIZE \<Longrightarrow> length (in_buf r) = INPUT_BUFFER_SIZE \<Longrightarrow> INPUT_BUFFER_SIZE < in_start r + n \<Longrightarrow> pop_many ring_pop n r = None"
proof (induction n arbitrary: r)
  case (Suc n)
  show ?case
  proof (cases "in_start r = INPUT_BUFFER_SIZE")
    case True
    then show ?thesis using Suc.prems(2) by (simp add: ring_pop_def)
  next
    case False
    let ?r = "r\<lparr>in_start := in_start r + 1, in_size := (if in_size r = 0 then 2 ^ 32 - 1 else in_size r - 1)\<rparr>"
    have "ring_pop r = Some (in_buf r ! in_start r, ?r)" using False Suc.prems(1,2) by (simp add: ring_pop_def Let_def)
    moreover have "pop_many ring_pop n ?r = None" using False Suc.prems by (intro Suc.IH) simp_all
    ultimately show ?thesis by simp
  qed
qed simp

text \<open>
  C24. The ring buffer of a console refines a bounded queue. Characters that are pushed, round the end of the array too, are behind those that are there, and the
  ones for which there is no room are lost. As many characters can then be taken as lie between the start and the end of the array, in the
  order in which they came; after those the next one is read from outside the array, because the code does not bring the start back.
\<close>

theorem ring_is_fifo:
  assumes "length (in_buf r) = INPUT_BUFFER_SIZE" and "in_start r \<le> INPUT_BUFFER_SIZE" and "in_size r \<le> INPUT_BUFFER_SIZE"
    and "n \<le> length (take INPUT_BUFFER_SIZE (ring_contents r @ cs))"
  shows "\<exists>r1. push_many ring_push cs r = Some r1 \<and> ring_contents r1 = take INPUT_BUFFER_SIZE (ring_contents r @ cs) \<and>
    (if in_start r + n \<le> INPUT_BUFFER_SIZE
     then \<exists>r2. pop_many ring_pop n r1 = Some (take n (ring_contents r1), r2) \<and> ring_contents r2 = drop n (ring_contents r1)
     else pop_many ring_pop n r1 = None)"
proof (cases "in_start r + n \<le> INPUT_BUFFER_SIZE")
  case True
  then have "ring_ok n r" using assms(1,3) by (simp add: ring_ok_def)
  from ring.fifo [OF this _ assms(4)] assms(3) obtain r1 r2 where
    "push_many ring_push cs r = Some r1" "ring_contents r1 = take INPUT_BUFFER_SIZE (ring_contents r @ cs)"
    "pop_many ring_pop n r1 = Some (take n (ring_contents r1), r2)" "ring_contents r2 = drop n (ring_contents r1)"
    unfolding length_ring_contents by blast
  with True show ?thesis by simp
next
  case False
  have "ring_ok 0 r" using assms(1-3) by (simp add: ring_ok_def)
  from ring.push_fill [OF this, of cs] assms(3) obtain r1 where
    r1: "push_many ring_push cs r = Some r1" "ring_contents r1 = take INPUT_BUFFER_SIZE (ring_contents r @ cs)"
    unfolding length_ring_contents by blast
  moreover have "pop_many ring_pop n r1 = None"
    using push_many_start [OF r1(1)] False assms(1,2) by (intro pop_many_past_end) simp_all
  ultimately show ?thesis using False by simp
qed

definition ex_ring :: ringbuffer where
  "ex_ring = \<lparr>in_buf = replicate 1024 NUL, in_start = 1020, in_size = 0\<rparr>"

text \<open>Six characters, of which two go to the beginning of the array: four can be taken, five cannot.\<close>

theorem ring_is_fifo_witness:
  "(\<exists>r1 r2. push_many ring_push ''abcdef'' ex_ring = Some r1 \<and> pop_many ring_pop 4 r1 = Some (''abcd'', r2) \<and> ring_contents r2 = ''ef'') \<and>
   (\<exists>r1. push_many ring_push ''abcdef'' ex_ring = Some r1 \<and> pop_many ring_pop 5 r1 = None)"
proof -
  have e: "ring_contents ex_ring = []" "length (in_buf ex_ring) = INPUT_BUFFER_SIZE" "in_start ex_ring = 1020" "in_size ex_ring = 0"
    by (simp_all add: ring_contents_def ex_ring_def INPUT_BUFFER_SIZE_def)
  have t: "take INPUT_BUFFER_SIZE (ring_contents ex_ring @ ''abcdef'') = ''abcdef''" by (simp add: e INPUT_BUFFER_SIZE_def)
  note f = ring_is_fifo [OF e(2), where cs = "''abcdef''", unfolded t e(3,4)]
  show ?thesis using f [of 4] f [of 5] by (auto simp: INPUT_BUFFER_SIZE_def)
qed

text \<open>
  At that point the code is wrong: the start reaches the end of the array, the test with
  \<^verbatim>\<open>>\<close> does not bring it back, and the next character is read from outside the array.
\<close>

lemma ring_pop_past_end:
  assumes "ring_ok 1 r" and "in_start r = INPUT_BUFFER_SIZE - 1" and "ring_contents r = [c]"
  shows "\<exists>r1 r2. ring_pop r = Some (c, r1) \<and> ring_push d r1 = Some r2 \<and> ring_pop r2 = None"
proof -
  have "in_size r = 1" using length_ring_contents [of r] assms(3) by simp
  moreover have "c = in_buf r ! in_start r"
    using assms(2,3) calculation by (simp add: ring_contents_def INPUT_BUFFER_SIZE_def)
  ultimately show ?thesis
    using assms(1,2) by (simp add: ring_pop_def ring_ok_def ring_push_def ring_end_def Let_def INPUT_BUFFER_SIZE_def)
qed

section \<open>The screen stays in bounds\<close>

lemma screen_numbers [simp]: "NB_COL = 80" "NB_ROW = 25" "VIRTUAL_CONSOLES = 4" "screen_size = 2000"
  by (simp_all add: NB_COL_def NB_ROW_def VIRTUAL_CONSOLES_def screen_size_def)

lemma upd_vc_simps [simp]:
  "virtual_consoles (upd_vc i f s) j = (if j = i then f (virtual_consoles s i) else virtual_consoles s j)"
  "video_mem (upd_vc i f s) = video_mem s" "vc_current (upd_vc i f s) = vc_current s"
  by (simp_all add: upd_vc_def)

lemma outb_simps [simp]:
  "virtual_consoles (outb v p s) = virtual_consoles s" "video_mem (outb v p s) = video_mem s"
  "vc_current (outb v p s) = vc_current s"
  by (simp_all add: outb_def)

lemma console_update_cursor_simps [simp]:
  "virtual_consoles (console_update_cursor i s) = virtual_consoles s"
  "video_mem (console_update_cursor i s) = video_mem s"
  "vc_current (console_update_cursor i s) = vc_current s"
  by (simp_all add: console_update_cursor_def console_write_register_def Let_def)

text \<open>Only the console \<open>i\<close>, the video memory and the ports change, and of the console its cells and position.\<close>

definition screen_frame :: "nat \<Rightarrow> kstate \<Rightarrow> kstate \<Rightarrow> bool" where
  "screen_frame i s s' \<longleftrightarrow> (\<exists>mem pos vid out.
     s' = (upd_vc i (\<lambda>vc. vc\<lparr>vc_mem := mem, vc_pos := pos\<rparr>) s)\<lparr>video_mem := vid, k_out := out\<rparr>)"

lemma screen_frameI:
  "s' = (upd_vc i (\<lambda>vc. vc\<lparr>vc_mem := mem, vc_pos := pos\<rparr>) s)\<lparr>video_mem := vid, k_out := out\<rparr> \<Longrightarrow> screen_frame i s s'"
  unfolding screen_frame_def by blast

lemma screen_frame_trans: "screen_frame i s t \<Longrightarrow> screen_frame i t u \<Longrightarrow> screen_frame i s u"
proof -
  assume "screen_frame i s t" "screen_frame i t u"
  then obtain mem pos vid out mem' pos' vid' out' where
    t: "t = (upd_vc i (\<lambda>vc. vc\<lparr>vc_mem := mem, vc_pos := pos\<rparr>) s)\<lparr>video_mem := vid, k_out := out\<rparr>" and
    u: "u = (upd_vc i (\<lambda>vc. vc\<lparr>vc_mem := mem', vc_pos := pos'\<rparr>) t)\<lparr>video_mem := vid', k_out := out'\<rparr>"
    unfolding screen_frame_def by blast
  have "u = (upd_vc i (\<lambda>vc. vc\<lparr>vc_mem := mem', vc_pos := pos'\<rparr>) s)\<lparr>video_mem := vid', k_out := out'\<rparr>"
    unfolding u t by (simp add: upd_vc_def)
  then show ?thesis by (rule screen_frameI)
qed

lemma screen_frame_refl: "screen_frame i s s"
  by (rule screen_frameI [where mem = "vc_mem (virtual_consoles s i)" and pos = "vc_pos (virtual_consoles s i)" and vid = "video_mem s" and out = "k_out s"])
    (simp add: upd_vc_def)

lemma screen_frame_pos: "screen_frame i s (upd_vc i (\<lambda>vc. vc\<lparr>vc_pos := g (vc_pos vc)\<rparr>) s)"
  by (rule screen_frameI [where mem = "vc_mem (virtual_consoles s i)" and pos = "g (vc_pos (virtual_consoles s i))" and vid = "video_mem s" and out = "k_out s"])
    (simp add: upd_vc_def)

lemma screen_frame_cursor: "screen_frame i s (console_update_cursor i s)"
  by (rule screen_frameI [where mem = "vc_mem (virtual_consoles s i)" and pos = "vc_pos (virtual_consoles s i)" and vid = "video_mem s" and out = "k_out (console_update_cursor i s)"])
    (simp add: upd_vc_def console_update_cursor_def console_write_register_def outb_def Let_def)

lemma screen_frame_video: "screen_frame i s (s\<lparr>video_mem := v\<rparr>)"
  by (rule screen_frameI [where mem = "vc_mem (virtual_consoles s i)" and pos = "vc_pos (virtual_consoles s i)" and vid = v and out = "k_out s"])
    (simp add: upd_vc_def)

lemma screen_frame_mem: "screen_frame i s (upd_vc i (\<lambda>vc. vc\<lparr>vc_mem := g vc\<rparr>) s)"
  by (rule screen_frameI [where mem = "g (virtual_consoles s i)" and pos = "vc_pos (virtual_consoles s i)" and vid = "video_mem s" and out = "k_out s"])
    (simp add: upd_vc_def)

text \<open>The size of the screens, a position on each of them, and what the video memory shows.\<close>

definition vc_size_ok :: "virtual_console \<Rightarrow> bool" where
  "vc_size_ok vc \<longleftrightarrow> length (vc_mem vc) = screen_size"

definition cons_ok :: "kstate \<Rightarrow> bool" where
  "cons_ok s \<longleftrightarrow> vc_current s < 4 \<and> length (video_mem s) = screen_size \<and>
     (\<forall>i<4. vc_size_ok (virtual_consoles s i) \<and> 0 \<le> vc_pos (virtual_consoles s i) \<and>
        vc_pos (virtual_consoles s i) < NB_COL * NB_ROW)"

text \<open>The video memory shows the current console, but for the last cell, where \<open>vc_flip\<close> writes a number.\<close>

definition shown :: "kstate \<Rightarrow> bool" where
  "shown s \<longleftrightarrow> (\<forall>j < screen_size - 1. video_mem s ! j = vc_mem (virtual_consoles s (vc_current s)) ! j)"

text \<open>The state inside \<open>console_putbyte\<close>: the sizes are right, positions are looked at separately.\<close>

definition sizes_ok :: "kstate \<Rightarrow> bool" where
  "sizes_ok s \<longleftrightarrow> vc_current s < 4 \<and> length (video_mem s) = screen_size \<and> (\<forall>i<4. vc_size_ok (virtual_consoles s i))"

lemma update_both:
  "length xs = length ys \<Longrightarrow> j < length ys \<Longrightarrow> xs ! j = ys ! j \<Longrightarrow> xs[p := v] ! j = ys[p := v] ! j"
  by (cases "p = j") auto

lemma draw_cell_ok:
  assumes "sizes_ok s" and "i < 4" and "0 \<le> vc_pos (virtual_consoles s i)"
    and "vc_pos (virtual_consoles s i) < NB_COL * NB_ROW"
  shows "\<exists>s'. draw_cell i c s = Some s' \<and> screen_frame i s s' \<and> sizes_ok s' \<and>
    vc_pos (virtual_consoles s' i) = vc_pos (virtual_consoles s i) \<and> (shown s \<longrightarrow> shown s')"
proof -
  let ?p = "nat (vc_pos (virtual_consoles s i))"
  let ?cell = "\<lparr>cc_c = c, cc_attr = ucast (vc_attr (virtual_consoles s i))\<rparr>"
  let ?t = "upd_vc i (\<lambda>vc. vc\<lparr>vc_mem := (vc_mem vc)[?p := ?cell]\<rparr>) s"
  let ?u = "?t\<lparr>video_mem := (video_mem s)[?p := ?cell]\<rparr>"
  have p: "?p < 2000" using assms(4) by simp
  have frame: "screen_frame i s ?t" "screen_frame i s ?u"
    by (rule screen_frame_mem) (rule screen_frame_trans [OF screen_frame_mem screen_frame_video])
  have t: "sizes_ok ?t" "sizes_ok ?u" using assms(1,2) by (auto simp: sizes_ok_def vc_size_ok_def)
  show ?thesis
  proof (cases "i = vc_current s")
    case True
    have "draw_cell i c s = Some ?u"
      using True assms p by (simp add: draw_cell_def Let_def sizes_ok_def vc_size_ok_def upd_vc_def)
    moreover have "shown s \<longrightarrow> shown ?u"
      using True assms(1,2) by (auto simp: shown_def sizes_ok_def vc_size_ok_def intro!: update_both)
    ultimately show ?thesis using frame t by auto
  next
    case False
    have "draw_cell i c s = Some ?t"
      using False assms p by (simp add: draw_cell_def Let_def sizes_ok_def vc_size_ok_def upd_vc_def)
    moreover have "shown s \<longrightarrow> shown ?t" using False by (auto simp: shown_def)
    ultimately show ?thesis using frame t by auto
  qed
qed

lemma length_scroll_copy [simp]: "length (scroll_copy n w m) = length m"
proof -
  have "length (fold (\<lambda>i m. m[i := m ! (i + w)]) is m) = length m" for "is" :: "nat list"
    by (induction "is" arbitrary: m) simp_all
  then show ?thesis by (simp add: scroll_copy_def)
qed

lemma length_scroll_blank [simp]: "length (scroll_blank a b m) = length m"
proof -
  have "length (fold (\<lambda>i m. m[i := (m ! i)\<lparr>cc_c := CHR '' ''\<rparr>]) is m) = length m" for "is" :: "nat list"
    by (induction "is" arbitrary: m) simp_all
  then show ?thesis by (simp add: scroll_blank_def)
qed

lemma vc_draw_ok:
  assumes "sizes_ok s" and "i < 4"
  shows "\<exists>s'. vc_draw i s = Some s' \<and> screen_frame i s s' \<and> sizes_ok s' \<and>
    virtual_consoles s' = virtual_consoles s \<and> vc_current s' = vc_current s \<and>
    video_mem s' = vc_mem (virtual_consoles s i)"
proof -
  let ?t = "s\<lparr>video_mem := vc_mem (virtual_consoles s i)\<rparr>"
  have sz: "length (vc_mem (virtual_consoles s i)) = 2000" "length (video_mem s) = 2000"
    using assms by (auto simp: sizes_ok_def vc_size_ok_def)
  then have "vc_draw i s = Some (console_update_cursor i ?t)"
    by (simp add: vc_draw_def Let_def)
  moreover have "screen_frame i s (console_update_cursor i ?t)"
    by (rule screen_frame_trans [OF screen_frame_video screen_frame_cursor])
  ultimately show ?thesis
    using assms sz by (auto simp: sizes_ok_def)
qed

lemma console_scroll_ok:
  assumes "sizes_ok s" and "i < 4"
  shows "\<exists>s'. console_scroll i s = Some s' \<and> screen_frame i s s' \<and> sizes_ok s' \<and>
    vc_pos (virtual_consoles s' i) = vc_pos (virtual_consoles s i) - NB_COL \<and>
    (i = vc_current s \<longrightarrow> shown s')"
proof -
  let ?t = "upd_vc i (\<lambda>vc. vc\<lparr>vc_pos := vc_pos vc - NB_COL\<rparr>) s"
  let ?u = "upd_vc i (\<lambda>vc. vc\<lparr>vc_mem := scroll_blank 1920 2000 (scroll_copy 1920 80 (vc_mem vc))\<rparr>) ?t"
  have "sizes_ok ?u" using assms by (auto simp: sizes_ok_def vc_size_ok_def)
  then obtain s' where s': "vc_draw i ?u = Some s'" "screen_frame i ?u s'" "sizes_ok s'"
    "virtual_consoles s' = virtual_consoles ?u" "vc_current s' = vc_current ?u"
    "video_mem s' = vc_mem (virtual_consoles ?u i)"
    using vc_draw_ok [of ?u i] assms(2) by blast
  moreover have "console_scroll i s = vc_draw i ?u"
    using assms by (simp add: console_scroll_def Let_def sizes_ok_def vc_size_ok_def)
  moreover have "screen_frame i s ?u"
    by (rule screen_frame_trans [OF screen_frame_pos screen_frame_mem])
  moreover have "i = vc_current s \<longrightarrow> shown s'" using s' by (simp add: shown_def)
  ultimately show ?thesis using screen_frame_trans [of i s ?u s'] by auto
qed

lemma console_drawbyte_ok:
  assumes "sizes_ok s" and "i < 4" and "0 \<le> vc_pos (virtual_consoles s i)"
    and "vc_pos (virtual_consoles s i) < NB_COL * NB_ROW" and "c = CHR 0x08 \<longrightarrow> 0 < vc_pos (virtual_consoles s i)"
  shows "\<exists>s'. console_drawbyte i c s = Some s' \<and> screen_frame i s s' \<and> sizes_ok s' \<and>
    vc_pos (virtual_consoles s' i) = vc_pos (virtual_consoles s i) - (if c = CHR 0x08 then 1 else 0) \<and> (shown s \<longrightarrow> shown s')"
proof -
  let ?t = "upd_vc i (\<lambda>vc. vc\<lparr>vc_pos := vc_pos vc - 1\<rparr>) s"
  consider "c = CHR 0x0A \<or> c = CHR 0x0D \<or> c = CHR 0x09" | "c = CHR 0x08" | "c \<notin> {CHR 0x0A, CHR 0x0D, CHR 0x09, CHR 0x08}"
    by blast
  then show ?thesis
  proof cases
    case 1
    then show ?thesis using assms(1) by (auto simp: console_drawbyte_def screen_frame_refl)
  next
    case 2
    have "sizes_ok ?t" "shown s \<longrightarrow> shown ?t" using assms(1,2) by (auto simp: sizes_ok_def vc_size_ok_def shown_def)
    moreover have "screen_frame i s ?t" by (rule screen_frame_pos)
    ultimately show ?thesis
      using draw_cell_ok [of ?t i "CHR '' ''"] assms 2 screen_frame_trans [of i s ?t]
      by (fastforce simp: console_drawbyte_def)
  next
    case 3
    then show ?thesis using draw_cell_ok [of s i c] assms by (simp add: console_drawbyte_def)
  qed
qed

lemma line_start: "0 \<le> pos \<Longrightarrow> pos < 2000 \<Longrightarrow> pos - pos mod 80 \<le> (1920 :: int)"
proof -
  assume "0 \<le> pos" "pos < 2000"
  then have "pos div 80 \<le> 24" by auto
  moreover have "pos - pos mod 80 = 80 * (pos div 80)" by (simp add: minus_mod_eq_mult_div)
  ultimately show ?thesis by linarith
qed

lemma next_pos_range:
  "0 \<le> pos \<Longrightarrow> pos < 2000 \<Longrightarrow> pos \<le> next_pos c pos \<and> next_pos c pos \<le> 2000 \<and>
   (c \<noteq> CHR 0x08 \<longrightarrow> pos < next_pos c pos)"
  using line_start [of pos] by (auto simp: next_pos_def tab_stop_def)

text \<open>Where the position is after one byte.\<close>

definition pos_after :: "char \<Rightarrow> int \<Rightarrow> int" where
  "pos_after c pos =
     (let p = next_pos c (pos - (if c = CHR 0x08 then 1 else 0))
      in if p \<ge> NB_COL * NB_ROW then p - NB_COL else p)"

lemma pos_after_range:
  "0 \<le> pos \<Longrightarrow> pos < 2000 \<Longrightarrow> (c = CHR 0x08 \<longrightarrow> 0 < pos) \<Longrightarrow> 0 \<le> pos_after c pos \<and> pos_after c pos < 2000"
  using next_pos_range [of "pos - (if c = CHR 0x08 then 1 else 0)" c] by (auto simp: pos_after_def Let_def)

lemma cons_okD:
  assumes "cons_ok s" and "i < 4"
  shows "sizes_ok s" "0 \<le> vc_pos (virtual_consoles s i)" "vc_pos (virtual_consoles s i) < NB_COL * NB_ROW"
  using assms by (auto simp: cons_ok_def sizes_ok_def)

lemma screen_frame_others: "screen_frame i s s' \<Longrightarrow> j \<noteq> i \<Longrightarrow> virtual_consoles s' j = virtual_consoles s j"
  by (auto simp: screen_frame_def upd_vc_def)

lemma screen_frame_current: "screen_frame i s s' \<Longrightarrow> vc_current s' = vc_current s"
  by (auto simp: screen_frame_def upd_vc_def)

lemma cons_okI:
  assumes "cons_ok s" and "screen_frame i s s'" and "sizes_ok s'" and "i < 4"
    and "0 \<le> vc_pos (virtual_consoles s' i)" and "vc_pos (virtual_consoles s' i) < 2000"
  shows "cons_ok s'"
proof -
  have "vc_size_ok (virtual_consoles s' j) \<and> 0 \<le> vc_pos (virtual_consoles s' j) \<and> vc_pos (virtual_consoles s' j) < NB_COL * NB_ROW"
    if "j < 4" for j
    using assms that screen_frame_others [OF assms(2), of j] by (cases "j = i") (auto simp: cons_ok_def sizes_ok_def)
  with assms(3) show ?thesis by (auto simp: cons_ok_def sizes_ok_def)
qed

lemma shown_pos [simp]: "shown (upd_vc i (\<lambda>vc. vc\<lparr>vc_pos := g (vc_pos vc)\<rparr>) s) = shown s"
  by (auto simp: shown_def)

lemma sizes_pos [simp]: "sizes_ok (upd_vc i (\<lambda>vc. vc\<lparr>vc_pos := g (vc_pos vc)\<rparr>) s) = sizes_ok s"
  by (auto simp: sizes_ok_def vc_size_ok_def)

lemma shown_cursor [simp]: "shown (console_update_cursor i s) = shown s"
  by (simp add: shown_def)

lemma sizes_cursor [simp]: "sizes_ok (console_update_cursor i s) = sizes_ok s"
  by (simp add: sizes_ok_def)

lemma console_putbyte_spec:
  assumes ok: "cons_ok s" and i: "i < 4" and bk: "c = CHR 0x08 \<longrightarrow> 0 < vc_pos (virtual_consoles s i)"
  shows "\<exists>s'. console_putbyte i c s = Some s' \<and> screen_frame i s s' \<and> cons_ok s' \<and>
    vc_pos (virtual_consoles s' i) = pos_after c (vc_pos (virtual_consoles s i)) \<and>
    (i = vc_current s \<and> shown s \<longrightarrow> shown s')"
proof -
  let ?pos = "vc_pos (virtual_consoles s i)" and ?d = "if c = CHR 0x08 then 1 else 0"
  note ck = cons_okD [OF ok i]
  have pos: "0 \<le> ?pos - ?d" "?pos - ?d < 2000" using ck bk by auto
  obtain t where t: "console_drawbyte i c s = Some t" "screen_frame i s t" "sizes_ok t"
    "vc_pos (virtual_consoles t i) = ?pos - ?d" "shown s \<longrightarrow> shown t"
    using console_drawbyte_ok [OF ck(1) i ck(2,3) bk] by blast
  let ?u = "upd_vc i (\<lambda>vc. vc\<lparr>vc_pos := next_pos c (vc_pos vc)\<rparr>) t"
  have u: "screen_frame i s ?u" "vc_pos (virtual_consoles ?u i) = next_pos c (?pos - ?d)"
    using screen_frame_trans [OF t(2) screen_frame_pos] t(4) by auto
  note r = next_pos_range [OF pos, of c]
  have "\<exists>v. (if vc_pos (virtual_consoles ?u i) \<ge> NB_COL * NB_ROW
      then do { s \<leftarrow> console_scroll i ?u; console_drawbyte i c s } else Some ?u) = Some v \<and>
    screen_frame i s v \<and> sizes_ok v \<and> vc_pos (virtual_consoles v i) = pos_after c ?pos \<and>
    (i = vc_current s \<and> shown s \<longrightarrow> shown v)"
  proof (cases "vc_pos (virtual_consoles ?u i) \<ge> NB_COL * NB_ROW")
    case True
    then have n: "next_pos c (?pos - ?d) = 2000" "c \<noteq> CHR 0x08"
      using u(2) r pos by (auto simp: next_pos_def)
    obtain w where w: "console_scroll i ?u = Some w" "screen_frame i ?u w" "sizes_ok w"
      "vc_pos (virtual_consoles w i) = 1920" "i = vc_current ?u \<longrightarrow> shown w"
      using console_scroll_ok [of ?u i] t(3) i u(2) n(1) by auto
    obtain v where v: "console_drawbyte i c w = Some v" "screen_frame i w v" "sizes_ok v"
      "vc_pos (virtual_consoles v i) = 1920" "shown w \<longrightarrow> shown v"
      using console_drawbyte_ok [OF w(3) i, of c] w(4) n(2) by auto
    have "screen_frame i s v" by (rule screen_frame_trans [OF screen_frame_trans [OF u(1) w(2)] v(2)])
    moreover have "pos_after c ?pos = 1920" using n by (simp add: pos_after_def)
    ultimately show ?thesis using True w v screen_frame_current [OF t(2)] by auto
  next
    case False
    then have "pos_after c ?pos = next_pos c (?pos - ?d)" using u(2) by (simp add: pos_after_def Let_def)
    then show ?thesis using False u t by (auto simp del: upd_vc_simps(1))
  qed
  then obtain v where v: "(if vc_pos (virtual_consoles ?u i) \<ge> NB_COL * NB_ROW
      then do { s \<leftarrow> console_scroll i ?u; console_drawbyte i c s } else Some ?u) = Some v"
    "screen_frame i s v" "sizes_ok v" "vc_pos (virtual_consoles v i) = pos_after c ?pos"
    "i = vc_current s \<and> shown s \<longrightarrow> shown v" by blast
  let ?w = "console_update_cursor i v"
  have "console_putbyte i c s = Some ?w"
    unfolding console_putbyte_def t(1) bind.bind_lunit Let_def v(1) by simp
  moreover have f: "screen_frame i s ?w" by (rule screen_frame_trans [OF v(2) screen_frame_cursor])
  moreover have "cons_ok ?w"
    using pos_after_range [of ?pos c] ck bk v(3,4) by (intro cons_okI [OF ok f _ i]) auto
  ultimately show ?thesis using v(4,5) by auto
qed

lemma screen_frame_kernel:
  assumes "screen_frame i s s'"
  shows "tab_proc s' = tab_proc s" "pid_cour s' = pid_cour s" "k_links s' = k_links s" "semaphores s' = semaphores s"
    "fs_nodes s' = fs_nodes s" "umem s' = umem s" "in_syscall s' = in_syscall s"
    "vc_buf (virtual_consoles s' j) = vc_buf (virtual_consoles s j)"
    "vc_echo (virtual_consoles s' j) = vc_echo (virtual_consoles s j)"
    "vc_buffered (virtual_consoles s' j) = vc_buffered (virtual_consoles s j)"
    "vc_waiting_pid (virtual_consoles s' j) = vc_waiting_pid (virtual_consoles s j)"
  using assms by (auto simp: screen_frame_def upd_vc_def)


text \<open>A kernel with four cleared consoles; the first process writes to the console 0.\<close>

definition ex_cell :: console_character where
  "ex_cell = \<lparr>cc_c = CHR '' '', cc_attr = 0x07\<rparr>"

definition ex_cons :: kstate where
  "ex_cons = ex_kernel\<lparr>virtual_consoles := (\<lambda>_. \<lparr>vc_mem = replicate 2000 ex_cell, vc_pos = 0, vc_echo = 1,
       vc_buffered = 1, vc_attr = 0x07, vc_buf = \<lparr>in_buf = replicate 1024 NUL, in_start = 0, in_size = 0\<rparr>,
       vc_waiting_pid = -1\<rparr>),
     video_mem := replicate 2000 ex_cell,
     fs_nodes := (\<lambda>_. ex_node\<lparr>n_inode := 100\<rparr>),
     tab_proc := (\<lambda>p. (tab_proc ex_kernel p)\<lparr>p_file_desc := replicate DTABLESIZE
       \<lparr>f_present = 1, f_node = Some (VcNode 0), f_offset = 0\<rparr>\<rparr>)\<rparr>"

lemma ex_cons_ok [simp]: "cons_ok ex_cons" "shown ex_cons" "vc_current ex_cons = 0"
  by (simp_all add: cons_ok_def vc_size_ok_def shown_def ex_cons_def ex_kernel_def)


text \<open>A backspace at the first position of the screen is an access before its memory.\<close>

lemma backspace_before_screen:
  "vc_pos (virtual_consoles s i) = 0 \<Longrightarrow> console_putbyte i CHR 0x08 s = None"
  by (simp add: console_putbyte_def console_drawbyte_def draw_cell_def Let_def)

text \<open>
  A console that is not shown overwrites the screen when it scrolls: \<^verbatim>\<open>console_scroll\<close> draws whatever console it
  scrolls.
\<close>

lemma background_scroll_draws:
  assumes "cons_ok s" and "i < 4" and "i \<noteq> vc_current s"
  shows "\<exists>s'. console_scroll i s = Some s' \<and> vc_current s' \<noteq> i \<and> video_mem s' = vc_mem (virtual_consoles s' i)"
proof -
  let ?u = "upd_vc i (\<lambda>vc. vc\<lparr>vc_mem := scroll_blank 1920 2000 (scroll_copy 1920 80 (vc_mem vc))\<rparr>)
    (upd_vc i (\<lambda>vc. vc\<lparr>vc_pos := vc_pos vc - NB_COL\<rparr>) s)"
  have "sizes_ok ?u" using assms by (auto simp: cons_ok_def sizes_ok_def vc_size_ok_def)
  from vc_draw_ok [OF this assms(2)] obtain s' where
    "vc_draw i ?u = Some s'" "virtual_consoles s' = virtual_consoles ?u" "vc_current s' = vc_current ?u"
    "video_mem s' = vc_mem (virtual_consoles ?u i)" by blast
  moreover have "console_scroll i s = vc_draw i ?u"
    using assms by (simp add: console_scroll_def Let_def cons_ok_def vc_size_ok_def)
  ultimately show ?thesis using assms(3) by auto
qed

end
