(* ===== verification/Line_input.thy ===== *)
theory Line_input
  imports Console
begin

text \<open>
  A line of input from the keyboard to its reader: the keyboard callback, the ring buffer, the echo on the screen, the wake-up
  of the process that waits for the console, and \<^verbatim>\<open>cons_read\<close> (\<^verbatim>\<open>kernel/console.c\<close>).
\<close>

section \<open>Typing a line\<close>

fun type_keys :: "char list \<Rightarrow> kstate \<Rightarrow> kstate option" where
  "type_keys [] s = Some s"
| "type_keys (c # cs) s = do { s \<leftarrow> keyboard_data c s; type_keys cs s }"

text \<open>What is left of a line: a backspace or delete key takes the last character back.\<close>

definition edit :: "char \<Rightarrow> char list \<Rightarrow> char list" where
  "edit c acc = (if c = CHR 0x08 \<or> c = CHR 0x7F then butlast acc
     else if c = CHR 0x0D then acc @ [CHR 0x0A] else acc @ [c])"

definition edited :: "char list \<Rightarrow> char list" where
  "edited keys = fold edit keys []"

text \<open>The current console: \<open>xs\<close> is in its buffer, which is good for \<open>k\<close> more removals.\<close>

abbreviation cur_vc :: "kstate \<Rightarrow> virtual_console" where
  "cur_vc s \<equiv> virtual_consoles s (vc_current s)"

definition buf_inv :: "nat \<Rightarrow> char list \<Rightarrow> kstate \<Rightarrow> bool" where
  "buf_inv k xs s \<longleftrightarrow> cons_ok s \<and> vc_buffered (cur_vc s) \<noteq> 0 \<and> ring_ok k (vc_buf (cur_vc s)) \<and>
     ring_contents (vc_buf (cur_vc s)) = xs"

text \<open>While a line is typed, what is in the buffer has been echoed since the start of the screen.\<close>

definition kbd_inv :: "nat \<Rightarrow> char list \<Rightarrow> kstate \<Rightarrow> bool" where
  "kbd_inv k xs s \<longleftrightarrow> buf_inv k xs s \<and> (vc_echo (cur_vc s) \<noteq> 0 \<longrightarrow> int (length xs) \<le> vc_pos (cur_vc s))"

definition kbd_frame :: "kstate \<Rightarrow> kstate \<Rightarrow> bool" where
  "kbd_frame s s' \<longleftrightarrow> sched_eq s s' \<and> tab_proc s' = tab_proc s \<and> fs_nodes s' = fs_nodes s \<and> vc_current s' = vc_current s \<and>
     vc_echo (cur_vc s') = vc_echo (cur_vc s) \<and> vc_waiting_pid (cur_vc s') = vc_waiting_pid (cur_vc s)"

lemma kbd_frame_trans: "kbd_frame s t \<Longrightarrow> kbd_frame t u \<Longrightarrow> kbd_frame s u"
  by (auto simp: kbd_frame_def intro: sched_eq_trans)

lemma kbd_frame_refl [simp]: "kbd_frame s s"
  by (simp add: kbd_frame_def sched_eq_def)

lemma kbd_frame_buf [simp]: "kbd_frame s (upd_vc i (\<lambda>vc. vc\<lparr>vc_buf := r\<rparr>) s)"
  by (simp add: kbd_frame_def sched_eq_def) (simp add: upd_vc_def)

lemma kbd_frame_screen: "screen_frame i s s' \<Longrightarrow> kbd_frame s s'"
  using screen_frame_kernel [of i s s'] screen_frame_current [of i s s'] by (simp add: kbd_frame_def sched_eq_def)

lemma buf_inv_set:
  "buf_inv k xs s \<Longrightarrow> ring_ok k r \<Longrightarrow> buf_inv k (ring_contents r) (upd_vc (vc_current s) (\<lambda>vc. vc\<lparr>vc_buf := r\<rparr>) s)"
  by (auto simp: buf_inv_def cons_ok_def vc_size_ok_def)

definition echo_byte :: "char \<Rightarrow> kstate \<Rightarrow> kstate option" where
  "echo_byte c s = (if vc_echo (cur_vc s) \<noteq> 0 then console_putbyte (vc_current s) c s else Some s)"

lemma echo_ok:
  assumes inv: "buf_inv k xs s" and bk: "c = CHR 0x08 \<Longrightarrow> vc_echo (cur_vc s) \<noteq> 0 \<Longrightarrow> 0 < vc_pos (cur_vc s)"
  shows "\<exists>s'. echo_byte c s = Some s' \<and> buf_inv k xs s' \<and> kbd_frame s s' \<and>
    (vc_echo (cur_vc s) \<noteq> 0 \<longrightarrow> vc_pos (cur_vc s') = pos_after c (vc_pos (cur_vc s)))"
proof (cases "vc_echo (cur_vc s) = 0")
  case True
  with inv show ?thesis by (simp add: echo_byte_def)
next
  case False
  have "cons_ok s" "vc_current s < 4" using inv by (auto simp: buf_inv_def cons_ok_def)
  then obtain s' where s': "console_putbyte (vc_current s) c s = Some s'" "screen_frame (vc_current s) s s'" "cons_ok s'"
    "vc_pos (virtual_consoles s' (vc_current s)) = pos_after c (vc_pos (cur_vc s))"
    using console_putbyte_spec [of s "vc_current s" c] bk False by blast
  then have "buf_inv k xs s'" "vc_current s' = vc_current s"
    using inv screen_frame_kernel [OF s'(2)] screen_frame_current [OF s'(2)] by (simp_all add: buf_inv_def)
  with s' False kbd_frame_screen [OF s'(2)] show ?thesis by (simp add: echo_byte_def)
qed

lemma pos_after_forward:
  "0 \<le> pos \<Longrightarrow> pos < 2000 \<Longrightarrow> c \<noteq> CHR 0x08 \<Longrightarrow> min (pos + 1) 1920 \<le> pos_after c pos"
  using next_pos_range [of pos c] by (auto simp: pos_after_def Let_def)

lemma pos_after_back: "0 < pos \<Longrightarrow> pos < 2000 \<Longrightarrow> pos_after CHR 0x08 pos = pos - 1"
  by (simp add: pos_after_def next_pos_def)

lemma buf_inv_pos: "buf_inv k xs s \<Longrightarrow> 0 \<le> vc_pos (cur_vc s) \<and> vc_pos (cur_vc s) < 2000"
  by (auto simp: buf_inv_def cons_ok_def)

text \<open>Storing a character that ends no line, and echoing it.\<close>

lemma push_then_echo:
  assumes inv: "kbd_inv k xs s" and room: "length xs < INPUT_BUFFER_SIZE" and c: "c \<noteq> CHR 0x08"
  shows "\<exists>r s'. ring_push c (vc_buf (cur_vc s)) = Some r \<and>
    echo_byte c (upd_vc (vc_current s) (\<lambda>vc. vc\<lparr>vc_buf := r\<rparr>) s) = Some s' \<and> kbd_inv k (xs @ [c]) s' \<and> kbd_frame s s'"
proof -
  have b: "buf_inv k xs s" using inv by (simp add: kbd_inv_def)
  then have ok: "ring_ok k (vc_buf (cur_vc s))" and cs: "ring_contents (vc_buf (cur_vc s)) = xs" by (simp_all add: buf_inv_def)
  then obtain r where r: "ring_push c (vc_buf (cur_vc s)) = Some r" "ring_ok k r" "ring_contents r = xs @ [c]"
    using ring.push_back [OF ok, of c] room by auto
  let ?t = "upd_vc (vc_current s) (\<lambda>vc. vc\<lparr>vc_buf := r\<rparr>) s"
  have t: "buf_inv k (xs @ [c]) ?t" using buf_inv_set [OF b r(2)] r(3) by simp
  then obtain s' where s': "echo_byte c ?t = Some s'" "buf_inv k (xs @ [c]) s'" "kbd_frame ?t s'"
    "vc_echo (cur_vc ?t) \<noteq> 0 \<longrightarrow> vc_pos (cur_vc s') = pos_after c (vc_pos (cur_vc ?t))"
    using echo_ok [of k "xs @ [c]" ?t c] c by blast
  have "kbd_frame s s'" by (rule kbd_frame_trans [OF kbd_frame_buf s'(3)])
  moreover have "kbd_inv k (xs @ [c]) s'"
    using s' calculation inv room c pos_after_forward [of "vc_pos (cur_vc s)" c] buf_inv_pos [OF b]
    by (auto simp: kbd_inv_def kbd_frame_def INPUT_BUFFER_SIZE_def)
  ultimately show ?thesis using r(1) s'(1) by blast
qed

lemma keyboard_data_store:
  assumes "kbd_inv k xs s" and "length xs < INPUT_BUFFER_SIZE"
    and c: "c \<notin> {CHR 0x08, CHR 0x7F, CHR 0x0A, CHR 0x0D}"
  shows "\<exists>s'. keyboard_data c s = Some s' \<and> kbd_inv k (xs @ [c]) s' \<and> kbd_frame s s'"
proof -
  from push_then_echo [OF assms(1,2), of c] c obtain r s' where
    r: "ring_push c (vc_buf (cur_vc s)) = Some r"
      "echo_byte c (upd_vc (vc_current s) (\<lambda>vc. vc\<lparr>vc_buf := r\<rparr>) s) = Some s'"
    and s': "kbd_inv k (xs @ [c]) s'" "kbd_frame s s'" by blast
  have "vc_buffered (cur_vc s) \<noteq> 0" using assms(1) by (simp add: kbd_inv_def buf_inv_def)
  then have "keyboard_data c s = Some s'"
    using r c by (auto simp: keyboard_data_def buffer_push_def echo_byte_def Let_def)
  with s' show ?thesis by blast
qed

lemma keyboard_data_erase:
  assumes inv: "kbd_inv k xs s" and c: "c \<in> {CHR 0x08, CHR 0x7F}"
  shows "\<exists>s'. keyboard_data c s = Some s' \<and> kbd_inv k (butlast xs) s' \<and> kbd_frame s s'"
proof -
  let ?r = "snd (ring_unpush (vc_buf (cur_vc s)))" and ?e = "fst (ring_unpush (vc_buf (cur_vc s)))"
  let ?t = "upd_vc (vc_current s) (\<lambda>vc. vc\<lparr>vc_buf := ?r\<rparr>) s"
  have b: "buf_inv k xs s" using inv by (simp add: kbd_inv_def)
  then have ok: "ring_ok k (vc_buf (cur_vc s))" and cs: "ring_contents (vc_buf (cur_vc s)) = xs" by (simp_all add: buf_inv_def)
  have e: "?e \<longleftrightarrow> xs = []" using ring.unpush_empty [OF ok] cs by simp
  have t: "buf_inv k (butlast xs) ?t"
    using buf_inv_set [OF b ring.unpush_ok [OF ok]] ring.unpush_contents [OF ok] cs by simp
  have kd: "keyboard_data c s = (if xs = [] then Some ?t else echo_byte CHR 0x08 ?t)"
    using c e by (auto simp: keyboard_data_def buffer_unpush_def echo_byte_def Let_def case_prod_beta)
  show ?thesis
  proof (cases "xs = []")
    case True
    with t inv have "kbd_inv k (butlast xs) ?t" by (simp add: kbd_inv_def)
    with kd True show ?thesis by simp
  next
    case False
    have pos: "vc_echo (cur_vc s) \<noteq> 0 \<Longrightarrow> 0 < vc_pos (cur_vc s)"
      using inv False by (cases xs) (auto simp: kbd_inv_def)
    then obtain s' where s': "echo_byte CHR 0x08 ?t = Some s'" "buf_inv k (butlast xs) s'" "kbd_frame ?t s'"
      "vc_echo (cur_vc ?t) \<noteq> 0 \<longrightarrow> vc_pos (cur_vc s') = pos_after CHR 0x08 (vc_pos (cur_vc ?t))"
      using echo_ok [OF t, of "CHR 0x08"] by auto
    have f: "kbd_frame s s'" by (rule kbd_frame_trans [OF kbd_frame_buf s'(3)])
    moreover have "kbd_inv k (butlast xs) s'"
      using s'(2,4) f inv pos buf_inv_pos [OF b] False
      by (auto simp: kbd_inv_def kbd_frame_def pos_after_back)
    ultimately show ?thesis using kd s'(1) False by simp
  qed
qed

lemma length_edits: "length (fold edit keys xs) \<le> length xs + length keys"
proof (induction keys arbitrary: xs)
  case (Cons c keys)
  have "length (edit c xs) \<le> Suc (length xs)" by (auto simp: edit_def)
  with Cons [of "edit c xs"] show ?case by simp
qed simp

lemma edits_set:
  "x \<notin> set xs \<Longrightarrow> x \<notin> set keys \<Longrightarrow> (x = CHR 0x0A \<Longrightarrow> CHR 0x0D \<notin> set keys) \<Longrightarrow> x \<notin> set (fold edit keys xs)"
proof (induction keys arbitrary: xs)
  case (Cons c keys)
  have "x \<notin> set (edit c xs)" using Cons.prems by (auto simp: edit_def dest: in_set_butlastD)
  with Cons show ?case by simp
qed simp

lemma type_keys_append: "type_keys (xs @ ys) s = do { s \<leftarrow> type_keys xs s; type_keys ys s }"
  by (induction xs arbitrary: s) (auto split: bind_splits)

lemma typed_keys:
  "kbd_inv k xs s \<Longrightarrow> CHR 0x0A \<notin> set keys \<Longrightarrow> CHR 0x0D \<notin> set keys \<Longrightarrow> length xs + length keys \<le> INPUT_BUFFER_SIZE \<Longrightarrow>
   \<exists>s'. type_keys keys s = Some s' \<and> kbd_inv k (fold edit keys xs) s' \<and> kbd_frame s s'"
proof (induction keys arbitrary: xs s)
  case (Cons c keys)
  have "\<exists>t. keyboard_data c s = Some t \<and> kbd_inv k (edit c xs) t \<and> kbd_frame s t"
    using keyboard_data_store [of k xs s c] keyboard_data_erase [of k xs s c] Cons.prems by (auto simp: edit_def)
  then obtain t where t: "keyboard_data c s = Some t" "kbd_inv k (edit c xs) t" "kbd_frame s t" by blast
  have "length (edit c xs) + length keys \<le> INPUT_BUFFER_SIZE" using Cons.prems(4) by (auto simp: edit_def)
  with Cons.IH [OF t(2)] Cons.prems obtain s' where
    "type_keys keys t = Some s'" "kbd_inv k (fold edit keys (edit c xs)) s'" "kbd_frame t s'" by auto
  with t kbd_frame_trans [OF t(3)] show ?case by auto
qed simp

text \<open>The end of the line: it is stored, and a process that waits for it is woken.\<close>

lemma kbd_inv_cong:
  "kbd_inv k xs s \<Longrightarrow> virtual_consoles s' = virtual_consoles s \<Longrightarrow> vc_current s' = vc_current s \<Longrightarrow> video_mem s' = video_mem s \<Longrightarrow>
   kbd_inv k xs s'"
  by (simp add: kbd_inv_def buf_inv_def cons_ok_def)

definition reader_ok :: "kstate \<Rightarrow> bool" where
  "reader_ok s \<longleftrightarrow> vc_waiting_pid (cur_vc s) = -1 \<or>
     sched_inv s \<and> no_sigs s \<and> valid_proc s (vc_waiting_pid (cur_vc s)) \<and>
     p_state (tab_proc s (vc_waiting_pid (cur_vc s))) = STATE_WAIT_IO"

lemma reader_ok_frame: "kbd_frame s s' \<Longrightarrow> reader_ok s \<Longrightarrow> reader_ok s'"
  using sched_eq_inv [of s s'] sched_eq_valid [of s s'] by (auto simp: reader_ok_def kbd_frame_def)

lemma keyboard_data_newline:
  assumes inv: "kbd_inv k xs s" and room: "length xs < INPUT_BUFFER_SIZE" and rd: "reader_ok s"
    and c: "c \<in> {CHR 0x0A, CHR 0x0D}"
  shows "\<exists>s'. keyboard_data c s = Some s' \<and> kbd_inv k (xs @ [CHR 0x0A]) s' \<and> vc_current s' = vc_current s \<and>
    (vc_waiting_pid (cur_vc s) \<noteq> -1 \<longrightarrow> sched_inv s' \<and> vc_waiting_pid (cur_vc s) \<in> activable s')"
proof -
  let ?w = "vc_waiting_pid (cur_vc s)"
  have "\<exists>t. (if ?w \<noteq> -1 then signal_new_io ?w s else Some s) = Some t \<and> virtual_consoles t = virtual_consoles s \<and>
    vc_current t = vc_current s \<and> video_mem t = video_mem s \<and> (?w \<noteq> -1 \<longrightarrow> sched_inv t \<and> ?w \<in> activable t)"
  proof (cases "?w = -1")
    case False
    then have "sched_inv s" "no_sigs s" "valid_proc s ?w" "p_state (tab_proc s ?w) \<noteq> STATE_ACTIVABLE"
      using rd by (auto simp: reader_ok_def)
    then obtain L where L: "wakeup_process ?w s = Some (?w, (make_activable ?w s)\<lparr>k_links := L\<rparr>)"
      "sched_inv ((make_activable ?w s)\<lparr>k_links := L\<rparr>)" using wakeup_process_inv by metis
    have "?w \<in> activable ((make_activable ?w s)\<lparr>k_links := L\<rparr>)"
      using \<open>valid_proc s ?w\<close> by (simp add: activable_def valid_proc_def)
    with L False show ?thesis by (simp add: signal_new_io_def)
  qed simp
  then obtain t where t: "(if ?w \<noteq> -1 then signal_new_io ?w s else Some s) = Some t" "virtual_consoles t = virtual_consoles s"
    "vc_current t = vc_current s" "video_mem t = video_mem s" "?w \<noteq> -1 \<longrightarrow> sched_inv t \<and> ?w \<in> activable t" by blast
  have "kbd_inv k xs t" using inv t by (auto intro: kbd_inv_cong)
  then obtain r s' where r: "ring_push CHR 0x0A (vc_buf (cur_vc t)) = Some r"
      "echo_byte CHR 0x0A (upd_vc (vc_current t) (\<lambda>vc. vc\<lparr>vc_buf := r\<rparr>) t) = Some s'"
    and s': "kbd_inv k (xs @ [CHR 0x0A]) s'" "kbd_frame t s'" using push_then_echo [of k xs t "CHR 0x0A"] room by auto
  have "vc_buffered (cur_vc s) \<noteq> 0" using inv by (simp add: kbd_inv_def buf_inv_def)
  moreover have cr: "(if (if c = CHR 0x7F then CHR 0x08 else c) = CHR 0x0D then CHR 0x0A else if c = CHR 0x7F then CHR 0x08 else c) = CHR 0x0A"
    using c by auto
  ultimately have "keyboard_data c s = Some s'"
    using r t by (auto simp: keyboard_data_def buffer_push_def echo_byte_def Let_def)
  moreover have "sched_inv s' = sched_inv t" "activable s' = activable t" "vc_current s' = vc_current t"
    using s'(2) sched_eq_inv [of t s'] sched_eq_activable [of t s'] by (simp_all add: kbd_frame_def)
  ultimately show ?thesis using s'(1) t(3,5) by auto
qed

section \<open>Reading a line\<close>

lemma caller_console_upd [simp]: "caller_console (upd_vc i f s) = caller_console s"
  by (simp add: caller_console_def upd_vc_def)

lemma read_line:
  "ring_ok (Suc (length xs)) (vc_buf (virtual_consoles s i)) \<Longrightarrow>
   ring_contents (vc_buf (virtual_consoles s i)) = xs @ CHR 0x0A # ys \<Longrightarrow> CHR 0x0A \<notin> set xs \<Longrightarrow>
   caller_console s = Some i \<Longrightarrow> length xs < n \<Longrightarrow>
   \<exists>s'. cons_read_loop n acc s = Some (Read_done (acc @ xs), s') \<and> ring_contents (vc_buf (virtual_consoles s' i)) = ys"
proof (induction xs arbitrary: n acc s)
  case Nil
  then obtain m where m: "n = Suc m" by (cases n) auto
  obtain r where r: "ring_pop (vc_buf (virtual_consoles s i)) = Some (CHR 0x0A, r)" "ring_contents r = ys"
    using ring.pop_front [of 0 "vc_buf (virtual_consoles s i)" "CHR 0x0A" ys] Nil.prems by auto
  have "in_size (vc_buf (virtual_consoles s i)) \<noteq> 0"
    using Nil.prems(2) length_ring_contents [of "vc_buf (virtual_consoles s i)"] by (metis append_Nil length_0_conv list.discI)
  then show ?case using r m Nil.prems by (simp add: buffer_pop_def buffer_take_def)
next
  case (Cons x xs)
  then obtain m where m: "n = Suc m" by (cases n) auto
  obtain r where r: "ring_pop (vc_buf (virtual_consoles s i)) = Some (x, r)" "ring_contents r = xs @ CHR 0x0A # ys"
      "ring_ok (Suc (length xs)) r"
    using ring.pop_front [of "Suc (length xs)" "vc_buf (virtual_consoles s i)" x "xs @ CHR 0x0A # ys"] Cons.prems by auto
  have "in_size (vc_buf (virtual_consoles s i)) \<noteq> 0"
    using Cons.prems(2) length_ring_contents [of "vc_buf (virtual_consoles s i)"] by (metis append_Cons length_0_conv list.discI)
  moreover have "\<exists>s'. cons_read_loop m (acc @ [x]) (upd_vc i (\<lambda>vc. vc\<lparr>vc_buf := r\<rparr>) s) = Some (Read_done ((acc @ [x]) @ xs), s') \<and>
      ring_contents (vc_buf (virtual_consoles s' i)) = ys"
    by (rule Cons.IH) (use r Cons.prems m in auto)
  ultimately show ?case using r(1) m Cons.prems by (auto simp: buffer_pop_def buffer_take_def)
qed

text \<open>A reader that was blocked goes on as one that starts with a character at hand.\<close>

lemma cons_read_resume_loop:
  "caller_console s = Some i \<Longrightarrow> in_size (vc_buf (virtual_consoles s i)) \<noteq> 0 \<Longrightarrow>
   cons_read_resume i acc n s = cons_read_loop (Suc n) acc s"
  by (simp add: cons_read_resume_def buffer_pop_def split: option.splits prod.splits) (auto simp: buffer_take_def split: bind_splits)

text \<open>A process of the console that starts to read, or goes on reading, gets the line that is in the buffer.\<close>

lemma stored_line_is_read:
  assumes "kbd_inv k (xs @ [CHR 0x0A]) s" and "CHR 0x0A \<notin> set xs" and "length xs < k"
    and "vc_buf (virtual_consoles v (vc_current s)) = vc_buf (cur_vc s)" and "caller_console v = Some (vc_current s)" and "length xs \<le> n"
  shows "(\<exists>u. cons_read_loop (Suc n) [] v = Some (Read_done xs, u)) \<and> (\<exists>u. cons_read_resume (vc_current s) [] n v = Some (Read_done xs, u))"
proof -
  let ?i = "vc_current s"
  have r: "ring_ok (Suc (length xs)) (vc_buf (virtual_consoles v ?i))"
    "ring_contents (vc_buf (virtual_consoles v ?i)) = xs @ CHR 0x0A # []"
    using assms(1,3,4) by (auto simp: kbd_inv_def buf_inv_def ring_ok_def)
  then have l: "\<exists>u. cons_read_loop (Suc n) [] v = Some (Read_done xs, u)"
    using read_line [OF r assms(2,5), of "Suc n" "[]"] assms(6) by auto
  have "in_size (vc_buf (virtual_consoles v ?i)) \<noteq> 0"
    using r(2) length_ring_contents [of "vc_buf (virtual_consoles v ?i)"] by (metis length_0_conv snoc_eq_iff_butlast)
  with l show ?thesis using cons_read_resume_loop [OF assms(5)] by simp
qed

lemma edited_props:
  assumes "CHR 0x0A \<notin> set keys" and "CHR 0x0D \<notin> set keys"
  shows "length (edited keys) \<le> length keys" "CHR 0x0A \<notin> set (edited keys)"
proof -
  show "length (edited keys) \<le> length keys" using length_edits [of keys "[]"] by (simp add: edited_def)
  show "CHR 0x0A \<notin> set (edited keys)" unfolding edited_def by (rule edits_set) (use assms in auto)
qed

text \<open>
  C9. A line typed on the current console reaches its reader as the user has edited it, as long as it fits before the end of the array of the ring buffer. The console buffers lines,
  its buffer is empty, and between the start of the buffer and the end of the array of 1024 characters there is room for the keys and the end of the line (\<open>kbd_inv\<close>; past
  that end the code reads outside the array). Typing fewer than 1024 keys
  and then return, with a reader that waits for the console or none, wakes the reader; any process
  of the console that then reads, or goes on reading, and asks for more than the length of the line gets the line without the characters erased
  by backspace or delete, and without its end.
\<close>

theorem typed_line_is_read:
  assumes "kbd_inv (Suc (length keys)) [] s" and "reader_ok s" and "CHR 0x0A \<notin> set keys" and "CHR 0x0D \<notin> set keys"
    and "length keys < INPUT_BUFFER_SIZE" and "c \<in> {CHR 0x0A, CHR 0x0D}"
  shows "\<exists>s'. type_keys (keys @ [c]) s = Some s' \<and>
    (vc_waiting_pid (cur_vc s) \<noteq> -1 \<longrightarrow> sched_inv s' \<and> vc_waiting_pid (cur_vc s) \<in> activable s') \<and>
    (\<forall>t n. vc_buf (virtual_consoles t (vc_current s)) = vc_buf (virtual_consoles s' (vc_current s)) \<longrightarrow>
      caller_console t = Some (vc_current s) \<longrightarrow> length (edited keys) \<le> n \<longrightarrow>
      (\<exists>u. cons_read_loop (Suc n) [] t = Some (Read_done (edited keys), u)) \<and>
      (\<exists>u. cons_read_resume (vc_current s) [] n t = Some (Read_done (edited keys), u)))"
proof -
  let ?i = "vc_current s"
  note ed = edited_props [OF assms(3,4)]
  obtain t where t: "type_keys keys s = Some t" "kbd_inv (Suc (length keys)) (edited keys) t" "kbd_frame s t"
    using typed_keys [OF assms(1,3,4)] assms(5) by (auto simp: edited_def)
  moreover have "length (edited keys) < INPUT_BUFFER_SIZE" using ed(1) assms(5) by simp
  ultimately obtain s' where s': "keyboard_data c t = Some s'" "kbd_inv (Suc (length keys)) (edited keys @ [CHR 0x0A]) s'"
    "vc_current s' = ?i" "vc_waiting_pid (cur_vc s) \<noteq> -1 \<longrightarrow> sched_inv s' \<and> vc_waiting_pid (cur_vc s) \<in> activable s'"
    using keyboard_data_newline [OF t(2) _ reader_ok_frame [OF t(3) assms(2)] assms(6)] t(3) by (auto simp: kbd_frame_def)
  have "type_keys (keys @ [c]) s = Some s'" using t(1) s'(1) by (simp add: type_keys_append)
  moreover have "(\<exists>u. cons_read_loop (Suc n) [] v = Some (Read_done (edited keys), u)) \<and>
      (\<exists>u. cons_read_resume ?i [] n v = Some (Read_done (edited keys), u))"
    if "vc_buf (virtual_consoles v ?i) = vc_buf (virtual_consoles s' ?i)" "caller_console v = Some ?i" "length (edited keys) \<le> n" for v n
    using stored_line_is_read [OF s'(2) ed(2), of v n] that ed(1) s'(3) by auto
  ultimately show ?thesis using s'(4) by blast
qed

lemma ex_cons_kbd: "kbd_inv 1024 [] ex_cons"
  by (simp add: kbd_inv_def buf_inv_def ring_ok_def ring_contents_def INPUT_BUFFER_SIZE_def) (simp add: ex_cons_def)

theorem typed_line_is_read_witness:
  "\<exists>s'. type_keys (''lx'' @ [CHR 0x08] @ ''s'' @ [CHR 0x0D]) ex_cons = Some s' \<and>
    (\<forall>t. vc_buf (virtual_consoles t 0) = vc_buf (virtual_consoles s' 0) \<longrightarrow> caller_console t = Some 0 \<longrightarrow>
      (\<exists>u. cons_read_loop 10 [] t = Some (Read_done ''ls'', u)))"
proof -
  let ?keys = "''lx'' @ [CHR 0x08] @ ''s''"
  have "kbd_inv (Suc (length ?keys)) [] ex_cons" "reader_ok ex_cons"
    using ex_cons_kbd by (simp add: kbd_inv_def buf_inv_def ring_ok_def INPUT_BUFFER_SIZE_def) (simp add: reader_ok_def ex_cons_def)
  moreover have "edited ?keys = ''ls''" by (simp add: edited_def edit_def)
  ultimately obtain s' where s': "type_keys (?keys @ [CHR 0x0D]) ex_cons = Some s'"
    "\<forall>t n. vc_buf (virtual_consoles t 0) = vc_buf (virtual_consoles s' 0) \<longrightarrow> caller_console t = Some 0 \<longrightarrow>
      length ''ls'' \<le> n \<longrightarrow> (\<exists>u. cons_read_loop (Suc n) [] t = Some (Read_done ''ls'', u))"
    using typed_line_is_read [of ?keys ex_cons "CHR 0x0D"] by (auto simp: INPUT_BUFFER_SIZE_def)
  from s'(2) [THEN spec, THEN spec, of _ 9] s'(1) show ?thesis by auto
qed

text \<open>
  The console never forgets who waited: when the next line ends while the woken process has not run
  yet, it enters the ready queue again, and its links with it.
\<close>

lemma seg_cycle: "q_next (L a) = Some b \<Longrightarrow> q_next (L b) = Some a \<Longrightarrow> h \<noteq> a \<Longrightarrow> h \<noteq> b \<Longrightarrow> \<not> seg L a xs h \<and> \<not> seg L b xs h"
  by (induction xs) auto

lemma second_line_breaks_queue:
  "\<exists>s'. buffer_push 0 CHR 0x0A (upd_vc 0 (\<lambda>vc. vc\<lparr>vc_buffered := 1, vc_waiting_pid := 2, vc_buf := ex_ring\<rparr>) ex_kernel) = Some s' \<and>
    \<not> (\<exists>xs. ready s' xs)"
proof -
  let ?s = "upd_vc 0 (\<lambda>vc. vc\<lparr>vc_buffered := 1, vc_waiting_pid := 2, vc_buf := ex_ring\<rparr>) ex_kernel"
  have "\<exists>L. queue_add (\<lambda>_. 1) 0 2 (INIT_LINK 2 (k_links ex_kernel)) = Some L \<and>
     q_next (L 0) = Some 2 \<and> q_next (L 2) = Some 3 \<and> q_next (L 3) = Some 2"
    by (simp add: queue_add_def INIT_LINK_def ex_kernel_def queue_scan.simps [of _ _ 0 _ 0] Let_def)
  moreover have "prio_of (make_activable 2 ?s) = (\<lambda>_. 1)" "k_links ?s = k_links ex_kernel" "p_valide (tab_proc ?s 2) = 1"
    by (auto simp: fun_eq_iff prio_of_def upd_vc_def ex_kernel_def ex_ctx_def)
  ultimately have "\<exists>L. wakeup_process 2 ?s = Some (2, (make_activable 2 ?s)\<lparr>k_links := L\<rparr>) \<and>
     q_next (L 0) = Some 2 \<and> q_next (L 2) = Some 3 \<and> q_next (L 3) = Some 2"
    by (auto simp: wakeup_process_def Let_def NBPROC_def)
  then obtain L where L: "wakeup_process 2 ?s = Some (2, (make_activable 2 ?s)\<lparr>k_links := L\<rparr>)"
    "q_next (L 0) = Some 2" "q_next (L 2) = Some 3" "q_next (L 3) = Some 2" by blast
  obtain r where r: "ring_push CHR 0x0A ex_ring = Some r"
    by (simp add: ring_push_def ex_ring_def ring_end_def INPUT_BUFFER_SIZE_def Let_def)
  have "buffer_push 0 CHR 0x0A ?s = Some (upd_vc 0 (\<lambda>vc. vc\<lparr>vc_buf := r\<rparr>) ((make_activable 2 ?s)\<lparr>k_links := L\<rparr>))"
    using L(1) r by (simp add: buffer_push_def signal_new_io_def Let_def)
  moreover have "\<not> dll L 0 xs" for xs
    using seg_cycle [of L 2 3 0 "tl xs"] L(2,3,4) by (cases xs) (auto simp: dll_def)
  ultimately show ?thesis using ready_dll by (fastforce simp: upd_vc_def)
qed

end
