(* ===== verification/Keyboard_irq.thy ===== *)
theory Keyboard_irq
  imports Typing Line_input
begin

text \<open>
  The keyboard interrupt from end to end: \<^verbatim>\<open>handle_int33\<close> (\<^verbatim>\<open>kernel/console.c\<close>) reads a byte, the driver
  decodes it and calls back into the console with characters and lights.
\<close>

section \<open>The interrupt\<close>

text \<open>
  The calls of the driver, in order: \<^verbatim>\<open>keyboard_data\<close> looks at the first character of the string, which is the
  terminating zero if the string is empty.
\<close>

definition deliver :: "kbd_event \<Rightarrow> kstate \<Rightarrow> kstate option" where
  "deliver e s = (case e of Data str \<Rightarrow> keyboard_data (hd (str @ [CHR 0x00])) s | Leds n \<Rightarrow> Some (kbd_leds (word_of_int n) s))"

fun deliver_all :: "kbd_event list \<Rightarrow> kstate \<Rightarrow> kstate option" where
  "deliver_all [] s = Some s"
| "deliver_all (e # es) s = do { s \<leftarrow> deliver e s; deliver_all es s }"

text \<open>\<open>code\<close> is the byte of the keyboard. The keys F1 to F4 change the console and do not reach the driver.\<close>

definition handle_int33 :: "(u32 \<Rightarrow> u32) \<Rightarrow> int \<Rightarrow> kbd \<times> kstate \<Rightarrow> (kbd \<times> kstate) option" where
  "handle_int33 mem code ks =
     (let (k, s) = ks; s = outb 0x20 0x20 s
      in if 0x3b \<le> code \<and> code \<le> 0x3e then do { s \<leftarrow> vc_flip (code - 0x3b) s; Some (k, s) }
         else do {
           k' \<leftarrow> do_scancode mem code k;
           s \<leftarrow> deliver_all (drop (length (sent k)) (sent k')) s;
           Some (k', s) })"

fun interrupts :: "(u32 \<Rightarrow> u32) \<Rightarrow> int list \<Rightarrow> kbd \<times> kstate \<Rightarrow> (kbd \<times> kstate) option" where
  "interrupts mem [] ks = Some ks"
| "interrupts mem (c # cs) ks = do { ks \<leftarrow> handle_int33 mem c ks; interrupts mem cs ks }"

lemma interrupts_append: "interrupts mem (as @ bs) ks = Option.bind (interrupts mem as ks) (interrupts mem bs)"
  by (induction as arbitrary: ks) (auto split: bind_splits)

section \<open>What was sent stays sent\<close>

definition grows :: "kbd \<Rightarrow> kbd \<Rightarrow> bool" where
  "grows k k' \<longleftrightarrow> (\<exists>es. sent k' = sent k @ es)"

lemma grows_trans: "grows j k \<Longrightarrow> grows k l \<Longrightarrow> grows j l"
  by (auto simp: grows_def)

lemma grows_refl [simp]: "grows k k"
  by (simp add: grows_def)

lemma grows_fields [simp]:
  "grows k (k'\<lparr>diacr := d\<rparr>) = grows k k'" "grows k (k'\<lparr>npadch := n\<rparr>) = grows k k'" "grows k (k'\<lparr>dead_key_next := b\<rparr>) = grows k k'"
  "grows k (k'\<lparr>stopped := b\<rparr>) = grows k k'" "grows k (k'\<lparr>tty := b\<rparr>) = grows k k'" "grows k (k'\<lparr>rep := b\<rparr>) = grows k k'"
  "grows k (k'\<lparr>ledstate := i\<rparr>) = grows k k'" "grows k (k'\<lparr>shift_state := i\<rparr>) = grows k k'" "grows k (k'\<lparr>k_down := l\<rparr>) = grows k k'"
  "grows k (k'\<lparr>key_down := ws\<rparr>) = grows k k'" "grows k (k'\<lparr>scan := z\<rparr>) = grows k k'" "grows k (k'\<lparr>init_done := b\<rparr>) = grows k k'"
  "grows k (k'\<lparr>kbd_table := bs\<rparr>) = grows k k'" "grows k (k'\<lparr>keyboard_tasklet_enabled := b\<rparr>) = grows k k'"
  "grows k (upd_kbd f k') = grows k k'"
  by (auto simp: grows_def upd_kbd_def)

lemma grows_sent [simp]: "grows k k' \<Longrightarrow> grows k (k'\<lparr>sent := sent k' @ es\<rparr>)" "grows k k' \<Longrightarrow> grows k (k'\<lparr>ledstate := i, sent := sent k' @ es\<rparr>)"
  by (auto simp: grows_def)

lemma grows_bh [simp]: "grows k k' \<Longrightarrow> grows k (kbd_bh mem k')" "grows k k' \<Longrightarrow> grows k (kbd_init mem k')"
  by (simp_all add: kbd_bh_def kbd_init_def keyboard_schedule_tasklet_def Let_def) (auto simp: grows_def)

lemma grows_send [simp]:
  assumes "grows k k'"
  shows "grows k (put_queue c k')" "grows k (puts_queue str k')" "grows k (applkey a m k')" "grows k (to_utf8 c k')"
  using assms by (simp_all add: put_queue_def keyboard_send_ch_def puts_queue_def keyboard_send_str_def applkey_def to_utf8_def)

lemma grows_handlers [simp]:
  assumes "grows j k"
  shows "grows j (snd (handle_diacr v k))" "grows j (do_self v up k)" "grows j (do_fn v up k)" "grows j (do_dead2 v up k)"
    "grows j (do_meta v up k)" "grows j (do_ascii v up k)" "grows j (do_lock v up k)"
proof -
  show d: "grows j (snd (handle_diacr v k))" for v using assms by (simp add: handle_diacr_def Let_def accent_table_def)
  then show "grows j (do_self v up k)" "grows j (do_dead2 v up k)" using assms by (auto simp: do_self_def do_dead2_def split_def Let_def)
  show "grows j (do_fn v up k)" "grows j (do_meta v up k)" "grows j (do_ascii v up k)" "grows j (do_lock v up k)"
    using assms by (simp_all add: do_fn_def do_meta_def do_ascii_def do_lock_def Let_def split: option.splits)
qed

text \<open>\<open>sends k r\<close>: if the code comes back, it has only added to what was sent in \<open>k\<close>.\<close>

definition sends :: "kbd \<Rightarrow> kbd option \<Rightarrow> bool" where
  "sends k r \<longleftrightarrow> (\<forall>k'. r = Some k' \<longrightarrow> grows k k')"

lemma sends_simps [simp]: "sends k None" "sends k (Some k') = grows k k'"
  by (simp_all add: sends_def)

lemma sends_if: "(b \<Longrightarrow> sends k x) \<Longrightarrow> (\<not> b \<Longrightarrow> sends k y) \<Longrightarrow> sends k (if b then x else y)"
  by simp

lemma sends_bind: "sends k r \<Longrightarrow> (\<And>k'. grows k k' \<Longrightarrow> sends k (f k')) \<Longrightarrow> sends k (Option.bind r f)"
  by (cases r) simp_all

lemma sends_any: "(\<And>x. sends k (f x)) \<Longrightarrow> sends k (Option.bind r f)"
  by (cases r) simp_all

lemma sends_do_cur: "grows j k \<Longrightarrow> sends j (do_cur v up k)"
  unfolding do_cur_def by (intro sends_if sends_any) simp_all

lemma sends_do_pad: "grows j k \<Longrightarrow> sends j (do_pad v up k)"
  unfolding do_pad_def Let_def by (intro sends_if sends_any sends_do_cur) simp_all

lemma sends_upd_k_down: "grows j k \<Longrightarrow> sends j (upd_k_down v f k)"
  unfolding upd_k_down_def by (intro sends_any) simp

lemma sends_do_shift: "grows j k \<Longrightarrow> sends j (do_shift v up k)"
  unfolding do_shift_def Let_def split_def by (intro sends_if sends_bind sends_upd_k_down) simp_all

lemma sends_do_slock: "grows j k \<Longrightarrow> sends j (do_slock v up k)"
  unfolding do_slock_def Let_def by (rule sends_bind [OF sends_do_shift]) (auto intro!: sends_any)

lemma sends_shiftstate_key: "grows j k \<Longrightarrow> sends j (shiftstate_key i k)"
  by (auto simp: shiftstate_key_def Let_def intro!: sends_bind sends_upd_k_down)

lemma sends_shiftstate_keys: "grows j k \<Longrightarrow> sends j (shiftstate_keys is k)"
  by (induction "is" arbitrary: k) (auto intro!: sends_bind sends_shiftstate_key)

lemma sends_shiftstate_words: "grows j k \<Longrightarrow> sends j (shiftstate_words is k)"
proof (induction "is" arbitrary: k)
  case (Cons i js)
  show ?case unfolding shiftstate_words.simps
    by (rule sends_bind) (intro sends_if sends_shiftstate_keys Cons | simp add: Cons.prems)+
qed simp

lemma sends_compute_shiftstate: "grows j k \<Longrightarrow> sends j (compute_shiftstate k)"
  unfolding compute_shiftstate_def by (intro sends_shiftstate_words) simp

lemma sends_special:
  assumes "grows j k" and "i < length spec_fn_table"
  shows "sends j ((spec_fn_table ! i) k)"
proof -
  have "\<forall>f \<in> set spec_fn_table. sends j (f k)"
    using assms(1) sends_compute_shiftstate [OF assms(1)] decr_loop_ends incr_loop_ends
    by (simp add: spec_fn_table_def enter_def caps_toggle_def num_key_def bare_num_def hold_def keyboard_start_tty_def keyboard_stop_tty_def
        caps_on_def compose_def decr_console_def incr_console_def fg_console_def Let_def)
  then show ?thesis using assms(2) by simp
qed

lemma sends_do_spec: "grows j k \<Longrightarrow> sends j (do_spec v up k)"
proof -
  assume "grows j k"
  moreover have "nat v < length spec_fn_table" if "\<not> v \<ge> int (length spec_fn_table)"
    using that by (simp add: spec_fn_table_def nat_less_iff)
  ultimately show ?thesis unfolding do_spec_def by (intro sends_if sends_special) simp_all
qed

lemma sends_key_handler:
  assumes "grows j k" and "i < length key_handler"
  shows "sends j ((key_handler ! i) v up k)"
proof -
  have "\<forall>h \<in> set key_handler. sends j (h v up k)"
    using assms(1) sends_do_spec [OF assms(1)] sends_do_pad [OF assms(1)] sends_do_cur [OF assms(1)] sends_do_shift [OF assms(1)]
      sends_do_slock [OF assms(1)] by (simp add: key_handler_def do_dead_def)
  then show ?thesis using assms(2) by simp
qed

lemma sends_handle_typed: "grows j k \<Longrightarrow> sends j (handle_typed ty sf keysym kc up raw k)"
  unfolding handle_typed_def
proof (intro sends_if sends_any)
  fix r :: "int \<times> int" assume g: "grows j k"
  show "sends j (case r of (ty, keysym) \<Rightarrow> do {
        assert_that (0 \<le> ty \<and> nat ty < length key_handler);
        k \<leftarrow> (key_handler ! nat ty) (KVAL keysym) up k;
        Some (if ty \<noteq> KT_SLOCK then upd_kbd (\<lambda>b. b\<lparr>slockstate := 0\<rparr>) k else k) })"
    by (cases r) (auto simp: assert_that_def intro!: sends_bind sends_key_handler [OF g])
qed simp

lemma sends_handle_keycode: "grows j k \<Longrightarrow> sends j (handle_keycode kc up raw k)"
  unfolding handle_keycode_def Let_def
  by (intro sends_any) (auto intro!: sends_bind sends_handle_typed sends_compute_shiftstate split: option.split)

lemma sends_handle_scancode:
  assumes "grows j k"
  shows "sends j (handle_scancode sc down k)"
proof -
  define k1 where "k1 = (if kbdmode (kbd_fg (k\<lparr>tty := True\<rparr>)) = VC_RAW
    then put_queue (sc OR (if \<not> down then 0x80 else 0)) (k\<lparr>tty := True\<rparr>) else k\<lparr>tty := True\<rparr>)"
  obtain r z where t: "keyboard_pckbd_translate sc (scan k1) = (r, z)" by (cases "keyboard_pckbd_translate sc (scan k1)")
  have k1: "grows j k1" using assms by (simp add: k1_def)
  show ?thesis
  proof (cases r)
    case None
    with k1 t show ?thesis by (simp add: handle_scancode_def Let_def k1_def)
  next
    case (Some kc)
    with k1 t show ?thesis unfolding handle_scancode_def Let_def k1_def [symmetric] by (simp add: split_def sends_handle_keycode)
  qed
qed

lemma sends_do_scancode: "sends k (do_scancode mem sc k)"
  unfolding do_scancode_def Let_def by (intro sends_if sends_bind sends_handle_scancode) simp_all

lemma do_scancodes_grows: "do_scancodes mem cs k = Some k' \<Longrightarrow> grows k k'"
proof (induction cs arbitrary: k)
  case (Cons c cs)
  then obtain k1 where "do_scancode mem c k = Some k1" "grows k1 k'" by (auto simp: bind_eq_Some_conv)
  with sends_do_scancode [of k mem c] show ?case by (auto intro: grows_trans)
qed simp

section \<open>A line from the keyboard to its reader\<close>

text \<open>Acknowledging the interrupt and setting the lights leave the consoles and the scheduler alone.\<close>

lemma kbd_inv_ports [simp]:
  "kbd_inv n xs (outb v p s) = kbd_inv n xs s" "kbd_inv n xs (kbd_leds l s) = kbd_inv n xs s"
  by (simp_all add: kbd_inv_def buf_inv_def cons_ok_def kbd_leds_def console_leds_refresh_def outb_def)

lemma kbd_frame_ports [simp]:
  "kbd_frame s (outb v p t) = kbd_frame s t" "kbd_frame s (kbd_leds l t) = kbd_frame s t"
  "kbd_frame (outb v p s) t = kbd_frame s t" "kbd_frame (kbd_leds l s) t = kbd_frame s t"
  by (simp_all add: kbd_frame_def sched_eq_def kbd_leds_def console_leds_refresh_def outb_def)

lemma reader_ok_outb [simp]: "reader_ok (outb v p s) = reader_ok s"
  using reader_ok_frame [of s "outb v p s"] reader_ok_frame [of "outb v p s" s] by auto

fun plain_event :: "kbd_event \<Rightarrow> bool" where
  "plain_event (Data str) \<longleftrightarrow> length str = 1 \<and> hd str \<notin> {CHR 0x0A, CHR 0x0D}"
| "plain_event (Leds n) \<longleftrightarrow> True"

lemma deliver_all_append: "deliver_all (as @ bs) s = Option.bind (deliver_all as s) (deliver_all bs)"
  by (induction as arbitrary: s) (auto split: bind_splits)

lemma deliver_plain:
  assumes "kbd_inv n xs s" and "plain_event e" and "length xs + length (typed [e]) \<le> INPUT_BUFFER_SIZE"
  shows "\<exists>s'. deliver e s = Some s' \<and> kbd_inv n (fold edit (typed [e]) xs) s' \<and> kbd_frame s s'"
proof (cases e)
  case (Data str)
  then obtain c where "str = [c]" using assms(2) by (auto simp: length_Suc_conv)
  then show ?thesis using typed_keys [of n xs s "[c]"] assms Data by (auto simp: deliver_def split: bind_splits)
next
  case (Leds l)
  then show ?thesis using assms(1) by (simp add: deliver_def)
qed

lemma deliver_all_plain:
  "kbd_inv n xs s \<Longrightarrow> \<forall>e \<in> set es. plain_event e \<Longrightarrow> length xs + length (typed es) \<le> INPUT_BUFFER_SIZE \<Longrightarrow>
   \<exists>s'. deliver_all es s = Some s' \<and> kbd_inv n (fold edit (typed es) xs) s' \<and> kbd_frame s s'"
proof (induction es arbitrary: xs s)
  case (Cons e es)
  have t: "typed (e # es) = typed [e] @ typed es" using typed_append [of "[e]" es] by simp
  with Cons.prems obtain s1 where s1: "deliver e s = Some s1" "kbd_inv n (fold edit (typed [e]) xs) s1" "kbd_frame s s1"
    using deliver_plain [of n xs s e] by auto
  have "length (fold edit (typed [e]) xs) + length (typed es) \<le> INPUT_BUFFER_SIZE"
    using length_edits [of "typed [e]" xs] Cons.prems(3) t by simp
  with Cons.IH [OF s1(2)] Cons.prems(2) obtain s2 where
    "deliver_all es s1 = Some s2" "kbd_inv n (fold edit (typed es) (fold edit (typed [e]) xs)) s2" "kbd_frame s1 s2" by auto
  with s1 show ?case unfolding t by (auto intro: kbd_frame_trans)
qed simp

text \<open>Interrupts with plain characters, whatever the bytes are.\<close>

lemma interrupts_plain:
  assumes "do_scancodes mem cs k = Some k'" and "sent k' = sent k @ es" and "\<forall>c \<in> set cs. c < 0x3b \<or> 0x3e < c"
    and "\<forall>e \<in> set es. plain_event e" and "kbd_inv n xs s" and "length xs + length (typed es) \<le> INPUT_BUFFER_SIZE"
  shows "\<exists>s'. interrupts mem cs (k, s) = Some (k', s') \<and> kbd_inv n (fold edit (typed es) xs) s' \<and> kbd_frame s s'"
  using assms
proof (induction cs arbitrary: k es xs s)
  case (Cons c cs)
  then obtain k1 where k1: "do_scancode mem c k = Some k1" "do_scancodes mem cs k1 = Some k'" by (auto simp: bind_eq_Some_conv)
  then obtain es1 es2 where es: "sent k1 = sent k @ es1" "sent k' = sent k1 @ es2"
    using sends_do_scancode [of k mem c] do_scancodes_grows [OF k1(2)] by (auto simp: grows_def)
  then have e: "es = es1 @ es2" using Cons.prems(2) by simp
  have "\<exists>s1. deliver_all es1 (outb 0x20 0x20 s) = Some s1 \<and> kbd_inv n (fold edit (typed es1) xs) s1 \<and> kbd_frame (outb 0x20 0x20 s) s1"
    by (rule deliver_all_plain) (use Cons.prems e in auto)
  then obtain s1 where s1: "deliver_all es1 (outb 0x20 0x20 s) = Some s1" "kbd_inv n (fold edit (typed es1) xs) s1" "kbd_frame s s1"
    by auto
  have "handle_int33 mem c (k, s) = Some (k1, s1)"
    using Cons.prems(3) k1(1) es(1) s1(1) by (auto simp: handle_int33_def Let_def)
  moreover have "\<exists>s'. interrupts mem cs (k1, s1) = Some (k', s') \<and> kbd_inv n (fold edit (typed es2) (fold edit (typed es1) xs)) s' \<and> kbd_frame s1 s'"
  proof (rule Cons.IH [OF k1(2) es(2) _ _ s1(2)])
    show "length (fold edit (typed es1) xs) + length (typed es2) \<le> INPUT_BUFFER_SIZE"
      using length_edits [of "typed es1" xs] Cons.prems(6) e by simp
  qed (use Cons.prems e in auto)
  ultimately show ?case using e s1(3) by (auto intro: kbd_frame_trans)
qed simp

text \<open>The keys of characters are not the function keys.\<close>

lemma function_keys_no_char:
  assumes "59 \<le> kc" and "kc \<le> 62"
  shows "\<not> char_key plain_map kc c" "\<not> char_key shift_map kc c" "\<not> char_key altgr_map kc c"
proof -
  have "list_all (\<lambda>m. list_all (\<lambda>kc. KTYP (m ! kc) \<noteq> 0xf0 \<and> KTYP (m ! kc) \<noteq> 0xfb) [59, 60, 61, 62]) [plain_map, shift_map, altgr_map]"
    by code_simp
  moreover have "kc = 59 \<or> kc = 60 \<or> kc = 61 \<or> kc = 62" using assms by presburger
  ultimately show "\<not> char_key plain_map kc c" "\<not> char_key shift_map kc c" "\<not> char_key altgr_map kc c"
    by (auto simp: char_key_def)
qed

lemma found_codes:
  assumes "find_key m c = Some kc" and "m \<in> {plain_map, shift_map, altgr_map}"
  shows "int kc < 0x3b \<or> 0x3e < int kc" "0x3e < int kc + 128"
proof -
  have "char_key m kc c" by (rule find_key_Some(1) [OF assms(1)])
  with function_keys_no_char [of kc c] assms(2) have "\<not> (59 \<le> kc \<and> kc \<le> 62)" by blast
  then show "int kc < 0x3b \<or> 0x3e < int kc" "0x3e < int kc + 128" by linarith+
qed

lemma type_char_codes: "\<forall>sc \<in> set (type_char c). sc < 0x3b \<or> 0x3e < sc"
proof -
  consider "type_char c = []" | kc where "find_key plain_map c = Some kc" "type_char c = [int kc, int kc + 128]"
    | v kc where "v \<le> 1" "find_key (mod_map v) c = Some kc" "type_char c = mod_down v @ [int kc, int kc + 128] @ mod_up v"
    by (rule type_char_cases)
  then show ?thesis
  proof cases
    case 2
    then show ?thesis using found_codes [OF 2(1)] by auto
  next
    case (3 v kc)
    then show ?thesis using found_codes [OF 3(2)] by (auto simp: mod_map_def mod_down_def mod_up_def)
  qed simp
qed

lemma type_text_codes: "sc \<in> set (type_text t) \<Longrightarrow> sc < 0x3b \<or> 0x3e < sc"
  using type_char_codes by (auto simp: type_text_def)

text \<open>The return key.\<close>

lemma enter_symbol: "plain_map ! 28 = 0xf201"
  by code_simp

lemma sends_enter: "sends_key 0 28 [Data [CHR 0x0D]]"
proof -
  have e: "enter k = (k\<lparr>sent := sent k @ [Data [CHR 0x0D]]\<rparr>)" if "kbd_fg k = kbd0" "diacr k = 0" "tty k" for k
    using that by (simp add: enter_def put_queue_def keyboard_send_ch_def c_string_def char_of_def Let_def)
  show ?thesis unfolding sends_key_def
  proof (intro allI impI)
    fix k up d
    assume "calm k" "shift_state k = 0"
    then have k: "kbd_fg k = kbd0" "diacr k = 0" "shift_state k = 0" by (simp_all add: calm_def)
    have t: "handle_typed 2 0 0xf201 28 up False (k\<lparr>tty := True, rep := False, key_down := d\<rparr>) =
        Some (k\<lparr>tty := True, rep := False, key_down := d, sent := (if up then sent k else sent k @ [Data [CHR 0x0D]])\<rparr>)"
      using k e by (simp add: handle_typed_def KT_LETTER_def KT_SLOCK_def key_handler_def KVAL_def do_spec_def spec_fn_table_def upd_slock_calm)
    then show "handle_keycode (int 28) up False (k\<lparr>tty := True, rep := False, key_down := d\<rparr>) =
        Some (k\<lparr>tty := True, rep := False, key_down := d, sent := (if up then sent k else sent k @ [Data [CHR 0x0D]])\<rparr>)"
      using k mod_key_maps(2) map_lengths(1) enter_symbol by (simp add: handle_keycode_def KTYP_def Let_def)
  qed
qed


text \<open>
  C8. What is typed on the keyboard is what a program reads, as long as the line fits before the end of the array of the ring buffer. With the keyboard at rest and the current
  console in its mode with buffering of lines, with an empty buffer whose start is so far from the end of the array of 1024 characters that the line and its end fit in between
  (\<open>kbd_inv\<close>; past that end the code reads outside the array), and with a process blocked on the console or none (\<open>reader_ok\<close>), the
  interrupts for the keys of a text of fewer than 1024 characters, with their modifiers, and then of the return key, wake the process that waits for the
  console; any process of the console that then reads, and asks for more than the length of the line, gets the text as it was edited, and the keyboard is at rest
  again. The theorem composes the decoding of scan codes, the callbacks into the console, the buffer, the echo, the wake-up and \<^verbatim>\<open>cons_read\<close>.
\<close>

theorem typed_keys_are_read:
  assumes "idle k" and "\<forall>c \<in> set t. of_char c \<in> {32..126} \<union> {9, 27, 127 :: nat}"
    and "kbd_inv (Suc (length t)) [] s" and "reader_ok s" and "length t < INPUT_BUFFER_SIZE"
  shows "\<exists>k' s'. interrupts mem (type_text t @ [0x1c, 0x9c]) (k, s) = Some (k', s') \<and> idle k' \<and>
    (vc_waiting_pid (cur_vc s) \<noteq> -1 \<longrightarrow> sched_inv s' \<and> vc_waiting_pid (cur_vc s) \<in> activable s') \<and>
    (\<forall>v n. vc_buf (virtual_consoles v (vc_current s)) = vc_buf (virtual_consoles s' (vc_current s)) \<longrightarrow>
      caller_console v = Some (vc_current s) \<longrightarrow> length (edited t) \<le> n \<longrightarrow>
      (\<exists>u. cons_read_loop (Suc n) [] v = Some (Read_done (edited t), u)) \<and>
      (\<exists>u. cons_read_resume (vc_current s) [] n v = Some (Read_done (edited t), u)))"
proof -
  have nl: "CHR 0x0A \<notin> set t" "CHR 0x0D \<notin> set t" using assms(2) by force+
  note ed = edited_props [OF nl]
  let ?es = "map (\<lambda>c. Data [c]) t"
  obtain k1 where k1: "do_scancodes mem (type_text t) k = Some k1" "idle k1" "sent k1 = sent k @ ?es"
    using type_text_run [OF assms(1), of t mem] assms(2) typable by blast
  have ty: "typed ?es = t" by (induction t) simp_all
  have "\<exists>s1. interrupts mem (type_text t) (k, s) = Some (k1, s1) \<and> kbd_inv (Suc (length t)) (fold edit (typed ?es) []) s1 \<and> kbd_frame s s1"
    by (rule interrupts_plain [OF k1(1,3) _ _ assms(3)]) (use nl assms(5) ty type_text_codes in auto)
  then obtain s1 where s1: "interrupts mem (type_text t) (k, s) = Some (k1, s1)" "kbd_inv (Suc (length t)) (edited t) s1" "kbd_frame s s1"
    unfolding ty edited_def by blast
  have i: "calm k1" "shift_state k1 = 0" "key_down k1 = replicate 8 0" using k1(2) by (simp_all add: idle_def no_keys_def)
  obtain k2 where k2: "do_scancode mem 0x1c k1 = Some k2" "sent k2 = sent k1 @ [Data [CHR 0x0D]]"
    "do_scancode mem 0x9c k2 = Some (k1\<lparr>tty := True, rep := False, sent := sent k1 @ [Data [CHR 0x0D]]\<rparr>)" (is "_ = Some ?k3")
    using press_release [OF i(1), of 28 "[Data [CHR 0x0D]]" mem] sends_enter i(2,3) by (auto simp: test_bit_def)
  have "reader_ok (outb 0x20 0x20 s1)" using reader_ok_frame [OF s1(3) assms(4)] by simp
  then obtain s2 where s2: "keyboard_data (CHR 0x0D) (outb 0x20 0x20 s1) = Some s2" "kbd_inv (Suc (length t)) (edited t @ [CHR 0x0A]) s2"
    "vc_current s2 = vc_current s" "vc_waiting_pid (cur_vc s) \<noteq> -1 \<longrightarrow> sched_inv s2 \<and> vc_waiting_pid (cur_vc s) \<in> activable s2"
    using keyboard_data_newline [of "Suc (length t)" "edited t" "outb 0x20 0x20 s1" "CHR 0x0D"] s1(2,3) ed(1) assms(5)
    by (auto simp: kbd_frame_def)
  have "interrupts mem [0x1c, 0x9c] (k1, s1) = Some (?k3, outb 0x20 0x20 s2)"
    using k2 s2(1) by (simp add: handle_int33_def deliver_def Let_def)
  with s1(1) have "interrupts mem (type_text t @ [0x1c, 0x9c]) (k, s) = Some (?k3, outb 0x20 0x20 s2)" by (simp add: interrupts_append)
  moreover have "idle ?k3" using k1(2) by (simp add: idle_def calm_fields no_keys_def)
  moreover have "vc_waiting_pid (cur_vc s) \<noteq> -1 \<longrightarrow> sched_inv (outb 0x20 0x20 s2) \<and> vc_waiting_pid (cur_vc s) \<in> activable (outb 0x20 0x20 s2)"
    using s2(4) sched_eq_inv [of s2 "outb 0x20 0x20 s2"] sched_eq_activable [of s2 "outb 0x20 0x20 s2"] by (simp add: sched_eq_def outb_def)
  moreover note stored_line_is_read [OF s2(2) ed(2)]
  ultimately show ?thesis using s2(3) ed(1) by (metis less_Suc_eq_le outb_simps(1))
qed

theorem typed_keys_are_read_witness:
  "\<exists>k' s'. interrupts (\<lambda>_. 0) (type_text (''lX'' @ [CHR 0x7F] @ ''s'') @ [0x1c, 0x9c]) (kbd_init (\<lambda>_. 0) (kbd_boot\<lparr>init_done := True\<rparr>), ex_cons) = Some (k', s') \<and>
    (\<forall>v. vc_buf (virtual_consoles v 0) = vc_buf (virtual_consoles s' 0) \<longrightarrow> caller_console v = Some 0 \<longrightarrow>
      (\<exists>u. cons_read_loop 10 [] v = Some (Read_done ''ls'', u)))"
proof -
  let ?t = "''lX'' @ [CHR 0x7F] @ ''s''"
  let ?k = "kbd_init (\<lambda>_. 0) (kbd_boot\<lparr>init_done := True\<rparr>)"
  have i: "kbd_inv (Suc (length ?t)) [] ex_cons" "reader_ok ex_cons"
    using ex_cons_kbd by (simp add: kbd_inv_def buf_inv_def ring_ok_def INPUT_BUFFER_SIZE_def) (simp add: reader_ok_def ex_cons_def)
  have e: "edited ?t = ''ls''" by (simp add: edited_def edit_def)
  obtain k' s' where s': "interrupts (\<lambda>_. 0) (type_text ?t @ [0x1c, 0x9c]) (?k, ex_cons) = Some (k', s')"
    "\<forall>v n. vc_buf (virtual_consoles v 0) = vc_buf (virtual_consoles s' 0) \<longrightarrow> caller_console v = Some 0 \<longrightarrow>
      length ''ls'' \<le> n \<longrightarrow> (\<exists>u. cons_read_loop (Suc n) [] v = Some (Read_done ''ls'', u))"
    using typed_keys_are_read [OF boot_idle(1) [of "\<lambda>_. 0"] _ i, where mem = "\<lambda>_. 0"] e
    by (auto simp: INPUT_BUFFER_SIZE_def simp del: cons_read_loop.simps)
  from s'(2) [THEN spec, THEN spec, of _ 9] s'(1) show ?thesis by auto
qed

end
