(* ===== verification/Vfs.thy ===== *)
theory Vfs
  imports Console
begin

text \<open>
  The virtual file system (\<^verbatim>\<open>kernel/vfs.c\<close>): nodes and their callbacks, the file descriptors of a
  process, path resolution, the system calls on files, the static tree of \<^verbatim>\<open>rootfs\<close>, \<^verbatim>\<open>/proc\<close>, and
  what the consoles hook into it (\<^verbatim>\<open>console_vfs_init\<close>, \<^verbatim>\<open>console_putbytes\<close> and \<^verbatim>\<open>cons_write\<close> of \<^verbatim>\<open>kernel/console.c\<close>).

  \<^item> A pointer to a node is a \<open>node_ptr\<close>; a callback is a constructor of theory \<open>Kstate\<close>, and the
    functions \<open>call_read\<close>, \<open>call_write\<close>, \dots{} say which function it stands for.
  \<^item> A string is given by its characters, without the final NUL; a name array holds at most
    \<open>FS_NAME_MAX\<close> of them.
  \<^item> What a function stores through a pointer of its caller is part of its result, with the address
    where the function checks it.
  \<^item> The code tests neither the range of a file descriptor nor that it is open: an access outside
    the table, or through a null node, is a fault (\<open>None\<close>).
\<close>

section \<open>Helpers\<close>

definition ROOTFS_ENTRIES :: nat where "ROOTFS_ENTRIES = 64"

definition upd_node :: "node_ptr \<Rightarrow> (fs_node \<Rightarrow> fs_node) \<Rightarrow> kstate \<Rightarrow> kstate" where
  "upd_node np f s = s\<lparr>fs_nodes := (fs_nodes s)(np := f (fs_nodes s np))\<rparr>"

text \<open>\<^verbatim>\<open>!strncmp(a, b, FS_NAME_MAX)\<close> on the characters of two strings.\<close>

definition same_name :: "string \<Rightarrow> string \<Rightarrow> bool" where
  "same_name a b \<longleftrightarrow> take FS_NAME_MAX a = take FS_NAME_MAX b"

text \<open>The bytes \<^verbatim>\<open>strncpy\<close> stores.\<close>

definition strncpy_bytes :: "string \<Rightarrow> nat \<Rightarrow> string" where
  "strncpy_bytes src n = take n src @ replicate (n - length src) NUL"

definition cur_fd :: "int \<Rightarrow> kstate \<Rightarrow> file_descriptor option" where
  "cur_fd fd s = do {
     assert_that (in_tab (pid_cour s));
     let fds = p_file_desc (tab_proc s (pid_cour s));
     assert_that (0 \<le> fd \<and> nat fd < length fds);
     Some (fds ! nat fd) }"

definition upd_fd :: "int \<Rightarrow> (file_descriptor \<Rightarrow> file_descriptor) \<Rightarrow> kstate \<Rightarrow> kstate" where
  "upd_fd fd f s = upd_proc (pid_cour s) (\<lambda>c. c\<lparr>p_file_desc := (p_file_desc c)[nat fd := f (p_file_desc c ! nat fd)]\<rparr>) s"

section \<open>Callbacks\<close>

definition dev_answer_read :: "u32 \<Rightarrow> int \<times> string" where
  "dev_answer_read len = (sint len, replicate (unat len) (to_char 42))"

definition dev_zero_read :: "u32 \<Rightarrow> int \<times> string" where
  "dev_zero_read len = (sint len, replicate (unat len) NUL)"

text \<open>\<open>kikoobuf\<close> is the address of the block and its first bytes; freeing the block leaves both.\<close>

definition kikoomsg :: string where
  "kikoomsg = ''Kikooooooo !'' @ [CHR 0x0A] @ ''Lool ! ptdr'' @ [CHR 0x0A]"

definition kikoo_open :: "kstate \<Rightarrow> kstate option" where
  "kikoo_open s = do {
     let (a, s) = mem_alloc s;
     assert_that (a \<noteq> 0);
     Some (s\<lparr>kikoobuf := (a, kikoomsg @ [NUL])\<rparr>) }"

definition kikoo_close :: "kstate \<Rightarrow> kstate" where
  "kikoo_close s = mem_free (fst (kikoobuf s)) 30 s"

definition text_read :: "string \<Rightarrow> u32 \<Rightarrow> u32 \<Rightarrow> int \<times> string" where
  "text_read txt offset len = (let out = seq_memread txt offset len in (int (length out), out))"

definition kikoo_read :: "u32 \<Rightarrow> u32 \<Rightarrow> kstate \<Rightarrow> (int \<times> string) option" where
  "kikoo_read offset len s = do {
     assert_that (26 \<le> length (snd (kikoobuf s)));
     Some (text_read (take 26 (snd (kikoobuf s))) offset len) }"

definition vfs_procfs_root :: node_ptr where
  "vfs_procfs_root = RootfsNode 1"

definition vfs_root :: node_ptr where
  "vfs_root = RootfsNode 0"

text \<open>The loops over the processes and over \<^verbatim>\<open>rootfs_entries\<close> look for the \<open>n\<close>-th entry that counts.\<close>

definition nth_such :: "('a \<Rightarrow> bool) \<Rightarrow> 'a list \<Rightarrow> int \<Rightarrow> 'a option" where
  "nth_such P xs n = (let ys = filter P xs in if 0 \<le> n \<and> nat n < length ys then Some (ys ! nat n) else None)"

definition procfs_readdir :: "node_ptr \<Rightarrow> int \<Rightarrow> kstate \<Rightarrow> (int \<times> dirent option) option" where
  "procfs_readdir np n s =
     (if n < 0 then Some (-1, None)
      else if np \<noteq> vfs_procfs_root then Some (-1, None)
      else case nth_such (\<lambda>p. p_valide (tab_proc s p) \<noteq> 0) [1..NBPROC] n of
        None \<Rightarrow> Some (0, None)
      | Some p \<Rightarrow> do {
          txt \<leftarrow> doprnt ''%d'' [AInt (word_of_int p)] 0;
          Some (1, Some \<lparr>d_name = take FS_NAME_MAX txt, d_inode = p - 1\<rparr>) })"

definition procfs_finddir :: "string \<Rightarrow> kstate \<Rightarrow> node_ptr option option" where
  "procfs_finddir name s = do {
     (v, _) \<leftarrow> strtol (name @ [NUL]) 0 10;
     let pid = sint v;
     assert_that (in_tab pid);
     Some (if p_valide (tab_proc s pid) = 0 then None else p_procfs_node (tab_proc s pid)) }"

definition procfs_dirs :: "string list" where
  "procfs_dirs = [''state'', ''parent'', ''name'']"

definition procfs_sub_readdir :: "fs_node \<Rightarrow> int \<Rightarrow> int \<times> dirent option" where
  "procfs_sub_readdir node n =
     (if n < 0 then (-1, None)
      else if n > 3 then (-1, None)
      else if n = 3 then (0, None)
      else (1, Some \<lparr>d_name = procfs_dirs ! nat n, d_inode = (n + 1) * 1000 + n_inode node\<rparr>))"

definition procfs_sub_finddir :: "fs_node \<Rightarrow> string \<Rightarrow> kstate \<Rightarrow> node_ptr option option" where
  "procfs_sub_finddir node name s =
     (let pid = n_inode node - 200
      in if same_name name ''state'' then do { assert_that (in_tab pid); Some (p_vfs_state_node (tab_proc s pid)) }
         else if same_name name ''parent'' then do { assert_that (in_tab pid); Some (p_vfs_parent_node (tab_proc s pid)) }
         else if same_name name ''name'' then do { assert_that (in_tab pid); Some (p_vfs_name_node (tab_proc s pid)) }
         else Some None)"

definition state_name :: "proc_state \<Rightarrow> string" where
  "state_name state = (case state of
     STATE_ACTIVE \<Rightarrow> ''STATE_ACTIVE'' | STATE_ACTIVABLE \<Rightarrow> ''STATE_ACTIVABLE''
   | STATE_WAIT_SEM \<Rightarrow> ''STATE_WAIT_SEM'' | STATE_WAIT_IO \<Rightarrow> ''STATE_WAIT_IO''
   | STATE_WAIT_CHILD \<Rightarrow> ''STATE_WAIT_CHILD'' | STATE_ASLEEP \<Rightarrow> ''STATE_ASLEEP''
   | STATE_ZOMBIE \<Rightarrow> ''STATE_ZOMBIE'' | STATE_DEAD \<Rightarrow> ''STATE_DEAD'')"

definition procfs_state_read :: "fs_node \<Rightarrow> u32 \<Rightarrow> u32 \<Rightarrow> kstate \<Rightarrow> (int \<times> string) option" where
  "procfs_state_read node offset len s = do {
     let pid = n_inode node - 1200;
     assert_that (in_tab pid);
     Some (text_read (state_name (p_state (tab_proc s pid))) offset len) }"

definition procfs_parent_read :: "fs_node \<Rightarrow> u32 \<Rightarrow> u32 \<Rightarrow> kstate \<Rightarrow> (int \<times> string) option" where
  "procfs_parent_read node offset len s = do {
     let pid = n_inode node - 2200;
     assert_that (in_tab pid);
     txt \<leftarrow> doprnt ''%d'' [AInt (word_of_int (p_pid_parent (tab_proc s pid)))] 0;
     Some (text_read (take 32 txt) offset len) }"

definition procfs_name_read :: "fs_node \<Rightarrow> u32 \<Rightarrow> u32 \<Rightarrow> kstate \<Rightarrow> (int \<times> string) option" where
  "procfs_name_read node offset len s = do {
     let pid = n_inode node - 3200;
     assert_that (in_tab pid);
     Some (text_read (p_name (tab_proc s pid)) offset len) }"

text \<open>
  The nodes of a process are allocated with it; \<open>junk\<close> is the contents of the fresh block, which keeps its
  value in the fields the code does not set. The nodes of a PID share a key: an older one has been
  leaked and differs at most in these fields.
\<close>

definition new_node :: "node_ptr \<Rightarrow> fs_node \<Rightarrow> kstate \<Rightarrow> (node_ptr \<times> kstate) option" where
  "new_node np node s = do {
     let (a, s) = mem_alloc s;
     assert_that (a \<noteq> 0);
     Some (np, upd_node np (\<lambda>_. node) s) }"

definition procfs_new_node :: "fs_node \<Rightarrow> int \<Rightarrow> kstate \<Rightarrow> (node_ptr \<times> kstate) option" where
  "procfs_new_node junk pid s = do {
     txt \<leftarrow> doprnt ''%d'' [AInt (word_of_int pid)] 0;
     new_node (ProcfsNode pid)
       (junk\<lparr>n_name := take FS_NAME_MAX txt, n_type := FS_DIR, n_inode := 200 + pid,
          n_readdir := Some Procfs_sub_readdir, n_finddir := Some Procfs_sub_finddir\<rparr>) s }"

definition procfs_new_state_node :: "fs_node \<Rightarrow> int \<Rightarrow> kstate \<Rightarrow> (node_ptr \<times> kstate) option" where
  "procfs_new_state_node junk pid s =
     new_node (ProcStateNode pid)
       (junk\<lparr>n_name := ''state'', n_type := FS_FILE, n_inode := 1200 + pid, n_read := Some Procfs_state_read\<rparr>) s"

definition procfs_new_parent_node :: "fs_node \<Rightarrow> int \<Rightarrow> kstate \<Rightarrow> (node_ptr \<times> kstate) option" where
  "procfs_new_parent_node junk pid s =
     new_node (ProcParentNode pid)
       (junk\<lparr>n_name := ''parent'', n_type := FS_FILE, n_inode := 2200 + pid, n_read := Some Procfs_parent_read\<rparr>) s"

definition procfs_new_name_node :: "fs_node \<Rightarrow> int \<Rightarrow> kstate \<Rightarrow> (node_ptr \<times> kstate) option" where
  "procfs_new_name_node junk pid s =
     new_node (ProcNameNode pid)
       (junk\<lparr>n_name := ''name'', n_type := FS_FILE, n_inode := 3200 + pid, n_read := Some Procfs_name_read\<rparr>) s"

section \<open>The static tree\<close>

definition rootfs_finddir :: "node_ptr \<Rightarrow> string \<Rightarrow> kstate \<Rightarrow> node_ptr option" where
  "rootfs_finddir np name s =
     map_option RootfsNode (find (\<lambda>i. n_parent (fs_nodes s (RootfsNode i)) = Some np \<and>
       same_name (n_name (fs_nodes s (RootfsNode i))) name \<and> rootfs_present s i \<noteq> 0) [0..<ROOTFS_ENTRIES])"

definition rootfs_readdir :: "node_ptr \<Rightarrow> int \<Rightarrow> kstate \<Rightarrow> int \<times> dirent option" where
  "rootfs_readdir np n s =
     (if n < 0 then (-1, None)
      else case nth_such (\<lambda>i. rootfs_present s i \<noteq> 0 \<and> n_parent (fs_nodes s (RootfsNode i)) = Some np) [0..<ROOTFS_ENTRIES] n of
        None \<Rightarrow> (0, None)
      | Some i \<Rightarrow> (1, Some \<lparr>d_name = n_name (fs_nodes s (RootfsNode i)), d_inode = int i\<rparr>))"

definition rootfs_setup_node :: "nat \<Rightarrow> int \<Rightarrow> string \<Rightarrow> fs_node_type \<Rightarrow> kstate \<Rightarrow> kstate option" where
  "rootfs_setup_node i parent name ty s = do {
     assert_that (i < ROOTFS_ENTRIES);
     let s = s\<lparr>rootfs_present := (rootfs_present s)(i := 1)\<rparr>;
     Some (upd_node (RootfsNode i) (\<lambda>nd. nd\<lparr>n_readdir := Some Rootfs_readdir, n_finddir := Some Rootfs_finddir,
       n_read := None, n_write := None, n_open := None, n_close := None, n_inode := int i, n_type := ty,
       n_parent := (if parent < 0 then None else Some (RootfsNode (nat parent))),
       n_name := take FS_NAME_MAX name\<rparr>) s) }"

definition vfs_node_register_callbacks ::
  "nat \<Rightarrow> read_cb option \<Rightarrow> write_cb option \<Rightarrow> open_cb option \<Rightarrow> close_cb option \<Rightarrow> readdir_cb option \<Rightarrow>
   finddir_cb option \<Rightarrow> kstate \<Rightarrow> kstate option" where
  "vfs_node_register_callbacks i rd wr opn cls rdd fnd s = do {
     assert_that (i < ROOTFS_ENTRIES);
     Some (upd_node (RootfsNode i) (\<lambda>nd. nd\<lparr>n_read := rd, n_write := wr, n_open := opn, n_close := cls,
       n_readdir := (if rdd \<noteq> None then rdd else n_readdir nd),
       n_finddir := (if fnd \<noteq> None then fnd else n_finddir nd)\<rparr>) s) }"

section \<open>Calling the callbacks of a node\<close>

fun call_read :: "read_cb \<Rightarrow> fs_node \<Rightarrow> u32 \<Rightarrow> u32 \<Rightarrow> kstate \<Rightarrow> (int \<times> string) option" where
  "call_read Dev_answer_read node offset len s = Some (dev_answer_read len)"
| "call_read Dev_zero_read node offset len s = Some (dev_zero_read len)"
| "call_read Kikoo_read node offset len s = kikoo_read offset len s"
| "call_read Procfs_state_read node offset len s = procfs_state_read node offset len s"
| "call_read Procfs_parent_read node offset len s = procfs_parent_read node offset len s"
| "call_read Procfs_name_read node offset len s = procfs_name_read node offset len s"
| "call_read Console_blink_r node offset len s = console_blink_r offset len s"
| "call_read Console_fg_r node offset len s = console_fg_r offset len s"
| "call_read Console_bg_r node offset len s = console_bg_r offset len s"

fun call_write :: "write_cb \<Rightarrow> fs_node \<Rightarrow> string \<Rightarrow> kstate \<Rightarrow> (int \<times> kstate) option" where
  "call_write Console_blink_w node buf s = console_blink_w buf s"
| "call_write Console_fg_w node buf s = console_fg_w buf s"
| "call_write Console_bg_w node buf s = console_bg_w buf s"
| "call_write Console_echo_w node buf s = console_echo_w buf s"
| "call_write Console_vc_write node buf s = console_vc_write node buf s"

fun call_readdir :: "readdir_cb \<Rightarrow> node_ptr \<Rightarrow> int \<Rightarrow> kstate \<Rightarrow> (int \<times> dirent option) option" where
  "call_readdir Rootfs_readdir np n s = Some (rootfs_readdir np n s)"
| "call_readdir Procfs_readdir np n s = procfs_readdir np n s"
| "call_readdir Procfs_sub_readdir np n s = Some (procfs_sub_readdir (fs_nodes s np) n)"
| "call_readdir Console_vc_readdir np n s = console_vc_readdir n"

fun call_finddir :: "finddir_cb \<Rightarrow> node_ptr \<Rightarrow> string \<Rightarrow> kstate \<Rightarrow> node_ptr option option" where
  "call_finddir Rootfs_finddir np name s = Some (rootfs_finddir np name s)"
| "call_finddir Procfs_finddir np name s = procfs_finddir name s"
| "call_finddir Procfs_sub_finddir np name s = procfs_sub_finddir (fs_nodes s np) name s"
| "call_finddir Console_vc_finddir np name s = console_vc_finddir name"

definition open_fs :: "node_ptr \<Rightarrow> kstate \<Rightarrow> (int \<times> kstate) option" where
  "open_fs np s = (case n_open (fs_nodes s np) of
     Some Kikoo_open \<Rightarrow> map_option (Pair 0) (kikoo_open s)
   | None \<Rightarrow> Some (0, s))"

definition close_fs :: "node_ptr \<Rightarrow> kstate \<Rightarrow> int \<times> kstate" where
  "close_fs np s = (case n_close (fs_nodes s np) of
     Some Kikoo_close \<Rightarrow> (0, kikoo_close s)
   | None \<Rightarrow> (0, s))"

definition read_fs :: "node_ptr \<Rightarrow> u32 \<Rightarrow> u32 \<Rightarrow> kstate \<Rightarrow> (int \<times> string) option" where
  "read_fs np offset len s = (case n_read (fs_nodes s np) of
     Some cb \<Rightarrow> call_read cb (fs_nodes s np) offset len s
   | None \<Rightarrow> Some (0, []))"

definition write_fs :: "node_ptr \<Rightarrow> string \<Rightarrow> kstate \<Rightarrow> (int \<times> kstate) option" where
  "write_fs np buf s = (case n_write (fs_nodes s np) of
     Some cb \<Rightarrow> call_write cb (fs_nodes s np) buf s
   | None \<Rightarrow> Some (0, s))"

definition readdir_fs :: "node_ptr \<Rightarrow> int \<Rightarrow> kstate \<Rightarrow> (int \<times> dirent option) option" where
  "readdir_fs np n s = (case n_readdir (fs_nodes s np) of
     Some cb \<Rightarrow> if n_type (fs_nodes s np) = FS_DIR then call_readdir cb np n s else Some (-1, None)
   | None \<Rightarrow> Some (-1, None))"

definition finddir_fs :: "node_ptr \<Rightarrow> string \<Rightarrow> kstate \<Rightarrow> node_ptr option option" where
  "finddir_fs np name s = (case n_finddir (fs_nodes s np) of
     Some cb \<Rightarrow>
       if n_type (fs_nodes s np) = FS_DIR
       then if name = ''..'' then Some (n_parent (fs_nodes s np)) else call_finddir cb np name s
       else Some None
   | None \<Rightarrow> Some None)"

section \<open>File descriptors\<close>

definition fd_alloc :: "node_ptr \<Rightarrow> kstate \<Rightarrow> (int \<times> kstate) option" where
  "fd_alloc np s = do {
     assert_that (in_tab (pid_cour s) \<and> DTABLESIZE \<le> length (p_file_desc (tab_proc s (pid_cour s))));
     case find (\<lambda>i. f_present (p_file_desc (tab_proc s (pid_cour s)) ! i) = 0) [0..<DTABLESIZE] of
       Some i \<Rightarrow> Some (int i, upd_fd (int i) (\<lambda>d. d\<lparr>f_present := 1, f_node := Some np\<rparr>) s)
     | None \<Rightarrow> Some (-1, s) }"

definition fd_free :: "int \<Rightarrow> kstate \<Rightarrow> (int \<times> kstate) option" where
  "fd_free fd s = do {
     d \<leftarrow> cur_fd fd s;
     if f_present d = 0 then Some (-1, s)
     else Some (0, upd_fd fd (\<lambda>d. d\<lparr>f_present := 0, f_node := None\<rparr>) s) }"

section \<open>Path resolution\<close>

text \<open>
  \<^verbatim>\<open>vfs_next_filename\<close> on the rest of the path: \<open>acc\<close> is what has been stored in \<^verbatim>\<open>filename\<close>, an array of \<open>FS_NAME_MAX\<close>
  bytes. It returns whether the path is over, the file name and what follows its separator.
\<close>

fun vfs_next_filename :: "string \<Rightarrow> string \<Rightarrow> (int \<times> string \<times> string) option" where
  "vfs_next_filename [] acc = do { assert_that (length acc < FS_NAME_MAX); Some (1, acc, []) }"
| "vfs_next_filename (c # cs) acc = do {
     assert_that (length acc < FS_NAME_MAX);
     if c = CHR ''/'' then Some (0, acc, cs) else vfs_next_filename cs (acc @ [c]) }"

lemma vfs_next_filename_shorter: "vfs_next_filename cs acc = Some (0, name, rest) \<Longrightarrow> length rest < length cs"
  by (induction cs arbitrary: acc) (auto split: if_splits bind_splits intro: less_SucI)

function path_loop :: "node_ptr \<Rightarrow> string \<Rightarrow> kstate \<Rightarrow> node_ptr option option" where
  "path_loop np cs s = (case vfs_next_filename cs [] of
     None \<Rightarrow> None
   | Some (over, filename, rest) \<Rightarrow>
       (case finddir_fs np filename s of
          None \<Rightarrow> None
        | Some None \<Rightarrow> Some None
        | Some (Some next_node) \<Rightarrow>
            if over \<noteq> 0 then Some (Some next_node) else path_loop next_node rest s))"
  by pat_completeness auto
termination
  by (relation "measure (\<lambda>(np, cs, s). length cs)") (auto dest: vfs_next_filename_shorter)

declare path_loop.simps [simp del]

definition vfs_path_resolution :: "string \<Rightarrow> kstate \<Rightarrow> node_ptr option option" where
  "vfs_path_resolution name s =
     (case name of
        CHR ''/'' # cs \<Rightarrow> if cs = [] then Some (Some vfs_root) else path_loop vfs_root cs s
      | _ \<Rightarrow> do {
          assert_that (in_tab (pid_cour s));
          let wd = p_working_dir (tab_proc s (pid_cour s));
          if same_name name ''.'' then Some wd
          else do {
            np \<leftarrow> wd;
            if same_name name ''..'' then Some (n_parent (fs_nodes s np)) else path_loop np name s } })"

section \<open>System calls\<close>

text \<open>
  The results of \<^verbatim>\<open>read\<close> and \<^verbatim>\<open>getcwd\<close>: the value, where bytes are stored, and these bytes. Storing through the null pointer, which is what
  \<open>check_pointer\<close> makes of an address it refuses, is a fault: the first page is not mapped.
\<close>

definition read :: "int \<Rightarrow> u32 \<Rightarrow> u32 \<Rightarrow> kstate \<Rightarrow> (int \<times> u32 \<times> string \<times> kstate) option" where
  "read fd buf len s = do {
     let buf = check_pointer buf SYSCALL_READ s;
     d \<leftarrow> cur_fd fd s;
     np \<leftarrow> f_node d;
     (bytes_read, bytes) \<leftarrow> read_fs np (f_offset d) len s;
     assert_that (buf \<noteq> 0 \<or> bytes = []);
     let s = upd_fd fd (\<lambda>d. d\<lparr>f_offset := f_offset d + word_of_int bytes_read\<rparr>) s;
     Some (bytes_read, buf, bytes, s) }"

definition write_file :: "int \<Rightarrow> string \<Rightarrow> kstate \<Rightarrow> (int \<times> kstate) option" where
  "write_file fd buf s = do {
     d \<leftarrow> cur_fd fd s;
     np \<leftarrow> f_node d;
     write_fs np buf s }"

definition readdir :: "int \<Rightarrow> u32 \<Rightarrow> int \<Rightarrow> kstate \<Rightarrow> (int \<times> u32 \<times> dirent option) option" where
  "readdir fd dirp n s = do {
     let dirp = check_pointer dirp SYSCALL_READDIR s;
     d \<leftarrow> cur_fd fd s;
     np \<leftarrow> f_node d;
     (r, entry) \<leftarrow> readdir_fs np n s;
     assert_that (dirp \<noteq> 0 \<or> entry = None);
     Some (r, dirp, entry) }"

definition close :: "int \<Rightarrow> kstate \<Rightarrow> (int \<times> kstate) option" where
  "close fd s = do {
     d \<leftarrow> cur_fd fd s;
     np \<leftarrow> f_node d;
     let (r, s) = close_fs np s;
     if r \<noteq> 0 then Some (-1, s) else fd_free fd s }"

text \<open>With no free descriptor \<^verbatim>\<open>open\<close> goes on with \<^verbatim>\<open>file_desc[-1]\<close>, a fault.\<close>

definition open_file :: "string \<Rightarrow> kstate \<Rightarrow> (int \<times> kstate) option" where
  "open_file name s = do {
     node \<leftarrow> vfs_path_resolution name s;
     (case node of
        None \<Rightarrow> Some (-1, s)
      | Some np \<Rightarrow> do {
          (r, s) \<leftarrow> open_fs np s;
          if r < 0 then Some (-1, s)
          else do {
            (fd, s) \<leftarrow> fd_alloc np s;
            assert_that (0 \<le> fd);
            Some (fd, upd_fd fd (\<lambda>d. d\<lparr>f_offset := 0\<rparr>) s) } }) }"

definition fstat :: "int \<Rightarrow> kstate \<Rightarrow> (int \<times> file_stat option) option" where
  "fstat fd s = do {
     d \<leftarrow> cur_fd fd s;
     if f_present d = 0 then Some (-1, None)
     else do {
       np \<leftarrow> f_node d;
       let nd = fs_nodes s np;
       Some (0, Some \<lparr>st_name = n_name nd, st_type = n_type nd, st_inode = n_inode nd, st_size = n_size nd\<rparr>) } }"

definition getcwd :: "u32 \<Rightarrow> u32 \<Rightarrow> kstate \<Rightarrow> (u32 \<times> string) option" where
  "getcwd buf len s = do {
     let buf = check_pointer buf SYSCALL_GETCWD s;
     if buf = 0 then Some (0, [])
     else do {
       assert_that (in_tab (pid_cour s));
       np \<leftarrow> p_working_dir (tab_proc s (pid_cour s));
       Some (buf, strncpy_bytes (n_name (fs_nodes s np)) (unat len)) } }"

text \<open>\<open>path\<close> is the string at the address that \<^verbatim>\<open>check_pointer\<close> returns.\<close>

definition chdir :: "string \<Rightarrow> kstate \<Rightarrow> (int \<times> kstate) option" where
  "chdir path s = do {
     node \<leftarrow> vfs_path_resolution path s;
     (case node of
        None \<Rightarrow> Some (-1, s)
      | Some np \<Rightarrow>
          if n_type (fs_nodes s np) \<noteq> FS_DIR then Some (-1, s)
          else do {
            assert_that (in_tab (pid_cour s));
            Some (0, upd_proc (pid_cour s) (\<lambda>c. c\<lparr>p_working_dir := Some np\<rparr>) s) }) }"

text \<open>\<^verbatim>\<open>set_stdout\<close> is in \<^verbatim>\<open>kernel/context.c\<close>.\<close>

definition set_stdout :: "string \<Rightarrow> kstate \<Rightarrow> (int \<times> kstate) option" where
  "set_stdout name s = do {
     node \<leftarrow> vfs_path_resolution name s;
     (case node of
        None \<Rightarrow> Some (-1, s)
      | Some np \<Rightarrow> do {
          _ \<leftarrow> cur_fd 1 s;
          Some (0, upd_fd 1 (\<lambda>d. d\<lparr>f_node := Some np\<rparr>) s) }) }"

section \<open>Writing to the console\<close>

text \<open>\<open>buf\<close> are the bytes to write; the code takes their number as a separate argument.\<close>

definition console_putbytes :: "string \<Rightarrow> kstate \<Rightarrow> kstate option" where
  "console_putbytes buf s =
     (if is_in_syscall SYSCALL_CONS_WRITE s then map_option snd (write_file 1 buf s)
      else put_all (vc_current s) buf s)"

definition cons_write :: "string \<Rightarrow> kstate \<Rightarrow> kstate option" where
  "cons_write buf s = console_putbytes buf s"

section \<open>Initialisation\<close>

fun vc_nodes_init :: "nat list \<Rightarrow> kstate \<Rightarrow> kstate option" where
  "vc_nodes_init [] s = Some s"
| "vc_nodes_init (i # is) s = do {
     txt \<leftarrow> doprnt ''%d'' [AInt (of_nat i)] 0;
     vc_nodes_init is (upd_node (VcNode i) (\<lambda>nd. nd\<lparr>n_name := txt, n_type := FS_FILE, n_inode := 100 + int i,
       n_write := Some Console_vc_write\<rparr>) s) }"

definition console_vfs_init :: "kstate \<Rightarrow> kstate option" where
  "console_vfs_init s = do {
     s \<leftarrow> vfs_node_register_callbacks 17 None None None None (Some Console_vc_readdir) (Some Console_vc_finddir) s;
     s \<leftarrow> vc_nodes_init [0..<nat VIRTUAL_CONSOLES] s;
     s \<leftarrow> vfs_node_register_callbacks 5 (Some Console_blink_r) (Some Console_blink_w) None None None None s;
     s \<leftarrow> vfs_node_register_callbacks 6 (Some Console_fg_r) (Some Console_fg_w) None None None None s;
     s \<leftarrow> vfs_node_register_callbacks 7 (Some Console_bg_r) (Some Console_bg_w) None None None None s;
     vfs_node_register_callbacks 13 None (Some Console_echo_w) None None None None s }"

fun rootfs_setup :: "(nat \<times> int \<times> string \<times> fs_node_type) list \<Rightarrow> kstate \<Rightarrow> kstate option" where
  "rootfs_setup [] s = Some s"
| "rootfs_setup ((i, parent, name, ty) # es) s = do { s \<leftarrow> rootfs_setup_node i parent name ty s; rootfs_setup es s }"

definition rootfs_tree :: "(nat \<times> int \<times> string \<times> fs_node_type) list" where
  "rootfs_tree =
     [(0, -1, ''root'', FS_DIR),
      (1, 0, ''proc'', FS_DIR),
      (2, 0, ''sem'', FS_DIR),
      (3, 0, ''sys'', FS_DIR),
      (4, 3, ''console'', FS_DIR),
      (5, 4, ''blink'', FS_FILE),
      (6, 4, ''fg'', FS_FILE),
      (7, 4, ''bg'', FS_FILE),
      (13, 4, ''echo'', FS_FILE),
      (8, 0, ''dev'', FS_DIR),
      (9, 8, ''null'', FS_FILE),
      (10, 8, ''zero'', FS_FILE),
      (11, 8, ''answer'', FS_FILE),
      (16, 8, ''console'', FS_FILE),
      (17, 8, ''vc'', FS_DIR),
      (12, 0, ''kikoo'', FS_FILE),
      (14, 0, ''prog'', FS_DIR)]"

definition vfs_init :: "kstate \<Rightarrow> kstate option" where
  "vfs_init s = do {
     s \<leftarrow> rootfs_setup rootfs_tree s;
     let s = upd_node (RootfsNode 11) (\<lambda>nd. nd\<lparr>n_read := Some Dev_answer_read\<rparr>) s;
     let s = upd_node (RootfsNode 10) (\<lambda>nd. nd\<lparr>n_read := Some Dev_zero_read\<rparr>) s;
     let s = upd_node (RootfsNode 12) (\<lambda>nd. nd\<lparr>n_open := Some Kikoo_open, n_read := Some Kikoo_read,
           n_close := Some Kikoo_close\<rparr>) s;
     let s = upd_node (RootfsNode 1) (\<lambda>nd. nd\<lparr>n_readdir := Some Procfs_readdir, n_finddir := Some Procfs_finddir\<rparr>) s;
     console_vfs_init s }"

section \<open>Paths as sequences of names\<close>

fun walk :: "node_ptr \<Rightarrow> string list \<Rightarrow> kstate \<Rightarrow> node_ptr option option" where
  "walk np [] s = Some (Some np)"
| "walk np (n # ns) s = do {
     r \<leftarrow> finddir_fs np n s;
     (case r of None \<Rightarrow> Some None | Some np' \<Rightarrow> walk np' ns s) }"

fun join_path :: "string list \<Rightarrow> string" where
  "join_path [] = []"
| "join_path [n] = n"
| "join_path (n # ns) = n @ CHR ''/'' # join_path ns"

text \<open>A name that fits in the array of the resolution.\<close>

definition file_name :: "string \<Rightarrow> bool" where
  "file_name n \<longleftrightarrow> CHR ''/'' \<notin> set n \<and> length n < FS_NAME_MAX"

lemma next_filename_last:
  "CHR ''/'' \<notin> set n \<Longrightarrow> length acc + length n < FS_NAME_MAX \<Longrightarrow> vfs_next_filename n acc = Some (1, acc @ n, [])"
  by (induction n arbitrary: acc) auto

lemma next_filename_sep:
  "CHR ''/'' \<notin> set n \<Longrightarrow> length acc + length n < FS_NAME_MAX \<Longrightarrow>
   vfs_next_filename (n @ CHR ''/'' # rest) acc = Some (0, acc @ n, rest)"
  by (induction n arbitrary: acc) auto

lemma next_filename_long: "CHR ''/'' \<notin> set n \<Longrightarrow> FS_NAME_MAX \<le> length acc + length n \<Longrightarrow> vfs_next_filename (n @ rest) acc = None"
proof (induction n arbitrary: acc)
  case Nil
  then show ?case by (cases rest) auto
qed auto

lemma path_loop_walk:
  "ns \<noteq> [] \<Longrightarrow> \<forall>n\<in>set ns. file_name n \<Longrightarrow> path_loop np (join_path ns) s = walk np ns s"
proof (induction ns arbitrary: np rule: join_path.induct)
  case (2 n)
  then show ?case
    using next_filename_last [of n "[]"]
    by (simp add: path_loop.simps file_name_def split: option.split)
next
  case (3 n n' ns)
  then have "path_loop np (join_path (n' # ns)) s = walk np (n' # ns) s" for np by simp
  then show ?case
    using 3 next_filename_sep [of n "[]" "join_path (n' # ns)"]
    by (auto simp: path_loop.simps [of np] file_name_def split: option.split bind_split)
qed simp

lemma absolute_path_walk:
  assumes "ns \<noteq> []" and "\<forall>n\<in>set ns. file_name n" and "ns \<noteq> [[]]"
  shows "vfs_path_resolution (CHR ''/'' # join_path ns) s = walk vfs_root ns s"
proof -
  have "join_path ns \<noteq> []" using assms by (cases ns rule: join_path.cases) auto
  then show ?thesis using path_loop_walk [OF assms(1,2), of vfs_root s] by (simp add: vfs_path_resolution_def)
qed

text \<open>
  C19. Path resolution walks the directories: an absolute path is followed from the root, name by name, and
  a relative one from the working directory of the caller, through \<^verbatim>\<open>finddir\<close> of each node. It stops at the first
  name that is not found. The names have fewer than 128 characters and no slash; the relative paths \<^verbatim>\<open>.\<close> and \<^verbatim>\<open>..\<close>, which the code treats on their own, and those
  that begin with an empty name are excluded.
\<close>

theorem path_resolution_walks:
  assumes "ns \<noteq> []" and "\<forall>n\<in>set ns. file_name n"
  shows "(ns \<noteq> [[]] \<longrightarrow> vfs_path_resolution (CHR ''/'' # join_path ns) s = walk vfs_root ns s) \<and>
    (in_tab (pid_cour s) \<longrightarrow> p_working_dir (tab_proc s (pid_cour s)) = Some wd \<longrightarrow>
      \<not> same_name (join_path ns) ''.'' \<longrightarrow> \<not> same_name (join_path ns) ''..'' \<longrightarrow> hd ns \<noteq> [] \<longrightarrow>
      vfs_path_resolution (join_path ns) s = walk wd ns s)"
proof (intro conjI)
  show "ns \<noteq> [[]] \<longrightarrow> vfs_path_resolution (CHR ''/'' # join_path ns) s = walk vfs_root ns s"
    using absolute_path_walk [OF assms] by blast
next
  have "hd (join_path ns) \<noteq> CHR ''/'' \<and> join_path ns \<noteq> []" if "hd ns \<noteq> []"
    using assms that by (cases ns rule: join_path.cases; cases "hd ns") (auto simp: file_name_def)
  then show "in_tab (pid_cour s) \<longrightarrow> p_working_dir (tab_proc s (pid_cour s)) = Some wd \<longrightarrow>
      \<not> same_name (join_path ns) ''.'' \<longrightarrow> \<not> same_name (join_path ns) ''..'' \<longrightarrow> hd ns \<noteq> [] \<longrightarrow>
      vfs_path_resolution (join_path ns) s = walk wd ns s"
    using path_loop_walk [OF assms, of wd s]
    by (cases "join_path ns") (auto simp: vfs_path_resolution_def split: char.splits bool.splits)
qed

section \<open>The initial tree\<close>

lemma upd_node_simps [simp]:
  "fs_nodes (upd_node np f s) q = (if q = np then f (fs_nodes s np) else fs_nodes s q)"
  "rootfs_present (upd_node np f s) = rootfs_present s" "tab_proc (upd_node np f s) = tab_proc s"
  "pid_cour (upd_node np f s) = pid_cour s" "k_links (upd_node np f s) = k_links s"
  by (simp_all add: upd_node_def)

text \<open>An entry of the tree after the initialisation: its parent, name, type and callbacks.\<close>

definition tree_entry :: "kstate \<Rightarrow> nat \<times> int \<times> string \<times> fs_node_type \<Rightarrow> bool" where
  "tree_entry s e = (case e of (i, parent, name, ty) \<Rightarrow>
     rootfs_present s i = 1 \<and>
     n_parent (fs_nodes s (RootfsNode i)) = (if parent < 0 then None else Some (RootfsNode (nat parent))) \<and>
     n_name (fs_nodes s (RootfsNode i)) = name \<and> n_type (fs_nodes s (RootfsNode i)) = ty)"

definition console_entry :: "kstate \<Rightarrow> nat \<Rightarrow> bool" where
  "console_entry s i \<longleftrightarrow> n_type (fs_nodes s (VcNode i)) = FS_FILE \<and> n_inode (fs_nodes s (VcNode i)) = 100 + int i \<and>
     n_write (fs_nodes s (VcNode i)) = Some Console_vc_write"

lemma rootfs_setup_ok:
  "\<forall>(i, parent, name, ty) \<in> set es. i < ROOTFS_ENTRIES \<and> length name \<le> FS_NAME_MAX \<Longrightarrow> distinct (map fst es) \<Longrightarrow>
   \<exists>s'. rootfs_setup es s = Some s' \<and> (\<forall>e \<in> set es. tree_entry s' e \<and>
       n_finddir (fs_nodes s' (RootfsNode (fst e))) = Some Rootfs_finddir \<and>
       n_readdir (fs_nodes s' (RootfsNode (fst e))) = Some Rootfs_readdir) \<and>
     (\<forall>i. i \<notin> fst ` set es \<longrightarrow> fs_nodes s' (RootfsNode i) = fs_nodes s (RootfsNode i) \<and> rootfs_present s' i = rootfs_present s i) \<and>
     tab_proc s' = tab_proc s \<and> pid_cour s' = pid_cour s"
proof (induction es arbitrary: s)
  case (Cons e es)
  obtain i parent name ty where e: "e = (i, parent, name, ty)" by (cases e)
  define t where "t = upd_node (RootfsNode i) (\<lambda>nd. nd\<lparr>n_readdir := Some Rootfs_readdir, n_finddir := Some Rootfs_finddir,
       n_read := None, n_write := None, n_open := None, n_close := None, n_inode := int i, n_type := ty,
       n_parent := (if parent < 0 then None else Some (RootfsNode (nat parent))),
       n_name := take FS_NAME_MAX name\<rparr>) (s\<lparr>rootfs_present := (rootfs_present s)(i := 1)\<rparr>)"
  have t: "rootfs_setup_node i parent name ty s = Some t" using Cons.prems(1) by (simp add: rootfs_setup_node_def t_def e)
  have te: "tree_entry t e" "n_finddir (fs_nodes t (RootfsNode i)) = Some Rootfs_finddir"
    "n_readdir (fs_nodes t (RootfsNode i)) = Some Rootfs_readdir" "tab_proc t = tab_proc s" "pid_cour t = pid_cour s"
    "j \<noteq> i \<Longrightarrow> fs_nodes t (RootfsNode j) = fs_nodes s (RootfsNode j) \<and> rootfs_present t j = rootfs_present s j" for j
    using Cons.prems(1) by (simp_all add: t_def tree_entry_def e)
  have "\<exists>s'. rootfs_setup es t = Some s' \<and> (\<forall>e \<in> set es. tree_entry s' e \<and>
       n_finddir (fs_nodes s' (RootfsNode (fst e))) = Some Rootfs_finddir \<and>
       n_readdir (fs_nodes s' (RootfsNode (fst e))) = Some Rootfs_readdir) \<and>
     (\<forall>i. i \<notin> fst ` set es \<longrightarrow> fs_nodes s' (RootfsNode i) = fs_nodes t (RootfsNode i) \<and> rootfs_present s' i = rootfs_present t i) \<and>
     tab_proc s' = tab_proc t \<and> pid_cour s' = pid_cour t"
    by (rule Cons.IH) (use Cons.prems in auto)
  then obtain s' where s': "rootfs_setup es t = Some s'" "\<forall>e \<in> set es. tree_entry s' e \<and>
       n_finddir (fs_nodes s' (RootfsNode (fst e))) = Some Rootfs_finddir \<and>
       n_readdir (fs_nodes s' (RootfsNode (fst e))) = Some Rootfs_readdir"
    "\<forall>i. i \<notin> fst ` set es \<longrightarrow> fs_nodes s' (RootfsNode i) = fs_nodes t (RootfsNode i) \<and> rootfs_present s' i = rootfs_present t i"
    "tab_proc s' = tab_proc t" "pid_cour s' = pid_cour t" by blast
  have i: "i \<notin> fst ` set es" using Cons.prems(2) e by simp
  then have "tree_entry s' e" using te(1) s'(3) by (simp add: tree_entry_def e)
  with s' te i t show ?case by (intro exI [of _ s']) (auto simp: e)
qed simp

definition tree_parent :: "int \<Rightarrow> node_ptr option" where
  "tree_parent parent = (if parent < 0 then None else Some (RootfsNode (nat parent)))"

text \<open>The directories whose contents are computed.\<close>

definition tree_finddir :: "nat \<Rightarrow> finddir_cb" where
  "tree_finddir i = (if i = 1 then Procfs_finddir else if i = 17 then Console_vc_finddir else Rootfs_finddir)"

definition vfs_ready :: "kstate \<Rightarrow> bool" where
  "vfs_ready s \<longleftrightarrow> (\<forall>e \<in> set rootfs_tree. tree_entry s e \<and> n_finddir (fs_nodes s (RootfsNode (fst e))) = Some (tree_finddir (fst e))) \<and>
     (\<forall>i. i \<notin> fst ` set rootfs_tree \<longrightarrow> rootfs_present s i = 0) \<and> (\<forall>i<4. console_entry s i)"

lemma tree_numbers:
  "\<forall>(i, parent, name, ty) \<in> set rootfs_tree. i < ROOTFS_ENTRIES \<and> length name \<le> FS_NAME_MAX" "distinct (map fst rootfs_tree)"
  "distinct (map (\<lambda>(i, parent, name, ty). (parent, name)) rootfs_tree)"
  by (simp_all add: rootfs_tree_def ROOTFS_ENTRIES_def FS_NAME_MAX_def)

lemma tree_entry_upd:
  "(\<And>nd. n_parent (f nd) = n_parent nd \<and> n_name (f nd) = n_name nd \<and> n_type (f nd) = n_type nd) \<Longrightarrow>
   tree_entry (upd_node np f s) e \<longleftrightarrow> tree_entry s e"
  by (auto simp: tree_entry_def split: prod.split)

text \<open>Numbers as names: \<^verbatim>\<open>"%d"\<close> of a small number and \<^verbatim>\<open>strtol\<close> of the text.\<close>

abbreviation decimal :: "nat \<Rightarrow> string" where
  "decimal n \<equiv> num_str 10 n"

lemma doprnt_decimal: "n < 2 ^ 31 \<Longrightarrow> doprnt ''%d'' [AInt (of_nat n)] radix = Some (decimal n)"
  using sint_small [of "of_nat n :: u32"] by (simp add: doprnt_d del: doprnt.simps)

lemma decimal_chars: "c \<in> set (decimal n) \<Longrightarrow> c \<in> set ''0123456789''"
proof -
  assume "c \<in> set (decimal n)"
  then obtain d where "d < 10" "c = dig d" using num_str_digits [of 10 c n] by auto
  moreover have "''0123456789abcdef'' = ''0123456789'' @ ''abcdef''" by simp
  ultimately have "c = ''0123456789'' ! d" unfolding dig_def by (simp only: nth_append) simp
  then show ?thesis using \<open>d < 10\<close> by (simp only:) (rule nth_mem, simp)
qed

lemma decimal_str_at: "str_at (decimal n @ [NUL]) 0 (decimal n)"
proof -
  have "NUL \<notin> set (decimal n)" using decimal_chars [of NUL n] by auto
  then show ?thesis by (auto simp: str_at_def blk_eq_take_drop)
qed

lemma strtol_decimal: "\<exists>e. strtol (decimal n @ [NUL]) 0 10 = Some (of_nat n, e)"
  using num_str_head [OF decimal_str_at] read_num_str [OF decimal_str_at]
  by (simp add: strtol_def skip_spaces_none guess_base_def)

lemma decimal_short: "n < 2 ^ 31 \<Longrightarrow> length (decimal n) \<le> 32"
  using num_loop_length [OF num_loop_word [of 10 "of_nat n"], simplified] by (simp add: MAXBUF_def)

lemma decimal_file_name: "n < 2 ^ 31 \<Longrightarrow> file_name (decimal n)"
  using decimal_short [of n] decimal_chars [of "CHR ''/''" n] by (auto simp: file_name_def FS_NAME_MAX_def)

lemma decimal_not_dots: "decimal n \<noteq> ''..''" "decimal n \<noteq> []"
  using decimal_chars [of "CHR ''.''" n] by auto

text \<open>The initialisation.\<close>

lemma vc_nodes_init_ok:
  "\<forall>i\<in>set is. i < 2 ^ 31 \<Longrightarrow> distinct is \<Longrightarrow> \<exists>s'. vc_nodes_init is s = Some s' \<and> (\<forall>i\<in>set is. console_entry s' i) \<and>
     (\<forall>i. fs_nodes s' (RootfsNode i) = fs_nodes s (RootfsNode i)) \<and> (\<forall>i. i \<notin> set is \<longrightarrow> fs_nodes s' (VcNode i) = fs_nodes s (VcNode i)) \<and>
     rootfs_present s' = rootfs_present s \<and> tab_proc s' = tab_proc s \<and> pid_cour s' = pid_cour s"
proof (induction "is" arbitrary: s)
  case (Cons i "is")
  let ?t = "upd_node (VcNode i) (\<lambda>nd. nd\<lparr>n_name := decimal i, n_type := FS_FILE, n_inode := 100 + int i,
       n_write := Some Console_vc_write\<rparr>) s"
  have "\<exists>s'. vc_nodes_init is ?t = Some s' \<and> (\<forall>i\<in>set is. console_entry s' i) \<and>
     (\<forall>i. fs_nodes s' (RootfsNode i) = fs_nodes ?t (RootfsNode i)) \<and> (\<forall>i. i \<notin> set is \<longrightarrow> fs_nodes s' (VcNode i) = fs_nodes ?t (VcNode i)) \<and>
     rootfs_present s' = rootfs_present ?t \<and> tab_proc s' = tab_proc ?t \<and> pid_cour s' = pid_cour ?t"
    by (rule Cons.IH) (use Cons.prems in auto)
  then show ?case using Cons.prems by (auto simp: doprnt_decimal console_entry_def simp del: doprnt.simps)
qed simp

lemma vfs_init_ready:
  assumes "\<forall>i. i \<notin> fst ` set rootfs_tree \<longrightarrow> rootfs_present s i = 0"
  shows "\<exists>s'. vfs_init s = Some s' \<and> vfs_ready s' \<and> tab_proc s' = tab_proc s \<and> pid_cour s' = pid_cour s"
proof -
  obtain t where t: "rootfs_setup rootfs_tree s = Some t" "\<forall>e \<in> set rootfs_tree. tree_entry t e \<and>
       n_finddir (fs_nodes t (RootfsNode (fst e))) = Some Rootfs_finddir"
    "\<forall>i. i \<notin> fst ` set rootfs_tree \<longrightarrow> rootfs_present t i = 0" "tab_proc t = tab_proc s" "pid_cour t = pid_cour s"
    using rootfs_setup_ok [OF tree_numbers(1,2), of s] assms by auto
  define u where "u = upd_node (RootfsNode 17) (\<lambda>nd. nd\<lparr>n_read := None, n_write := None, n_open := None, n_close := None,
        n_readdir := Some Console_vc_readdir, n_finddir := Some Console_vc_finddir\<rparr>)
    (upd_node (RootfsNode 1) (\<lambda>nd. nd\<lparr>n_readdir := Some Procfs_readdir, n_finddir := Some Procfs_finddir\<rparr>)
    (upd_node (RootfsNode 12) (\<lambda>nd. nd\<lparr>n_open := Some Kikoo_open, n_read := Some Kikoo_read, n_close := Some Kikoo_close\<rparr>)
    (upd_node (RootfsNode 10) (\<lambda>nd. nd\<lparr>n_read := Some Dev_zero_read\<rparr>)
    (upd_node (RootfsNode 11) (\<lambda>nd. nd\<lparr>n_read := Some Dev_answer_read\<rparr>) t))))"
  have u: "tree_entry u e = tree_entry t e" "rootfs_present u = rootfs_present t" "tab_proc u = tab_proc t" "pid_cour u = pid_cour t"
    "n_finddir (fs_nodes u (RootfsNode i)) = (if i = 1 then Some Procfs_finddir else if i = 17 then Some Console_vc_finddir
        else n_finddir (fs_nodes t (RootfsNode i)))" for e i
    unfolding u_def by (simp_all add: tree_entry_upd)
  obtain v where v: "vc_nodes_init [0..<4] u = Some v" "\<forall>i\<in>set [0..<4]. console_entry v i"
    "\<forall>i. fs_nodes v (RootfsNode i) = fs_nodes u (RootfsNode i)" "rootfs_present v = rootfs_present u"
    "tab_proc v = tab_proc u" "pid_cour v = pid_cour u"
    using vc_nodes_init_ok [of "[0..<4]" u] by auto
  have four: "nat VIRTUAL_CONSOLES = 4" by simp
  have init: "vfs_init s = (let reg = vfs_node_register_callbacks in do {
      s \<leftarrow> reg 5 (Some Console_blink_r) (Some Console_blink_w) None None None None v;
      s \<leftarrow> reg 6 (Some Console_fg_r) (Some Console_fg_w) None None None None s;
      s \<leftarrow> reg 7 (Some Console_bg_r) (Some Console_bg_w) None None None None s;
      reg 13 None (Some Console_echo_w) None None None None s })"
    using t(1) v(1) unfolding vfs_init_def console_vfs_init_def four
    by (simp add: vfs_node_register_callbacks_def [of 17] ROOTFS_ENTRIES_def u_def Let_def del: upt_rec_numeral)
  have "\<exists>s'. vfs_init s = Some s' \<and> (\<forall>e. tree_entry s' e = tree_entry v e) \<and> rootfs_present s' = rootfs_present v \<and>
    tab_proc s' = tab_proc v \<and> pid_cour s' = pid_cour v \<and> (\<forall>i. console_entry s' i = console_entry v i) \<and>
    (\<forall>i. n_finddir (fs_nodes s' (RootfsNode i)) = n_finddir (fs_nodes v (RootfsNode i)))"
    unfolding init by (simp add: vfs_node_register_callbacks_def ROOTFS_ENTRIES_def tree_entry_upd console_entry_def)
  then obtain s' where s': "vfs_init s = Some s'" "\<And>e. tree_entry s' e = tree_entry v e" "rootfs_present s' = rootfs_present v"
    "tab_proc s' = tab_proc v" "pid_cour s' = pid_cour v" "\<And>i. console_entry s' i = console_entry v i"
    "\<And>i. n_finddir (fs_nodes s' (RootfsNode i)) = n_finddir (fs_nodes v (RootfsNode i))" by auto
  have "tree_entry v e = tree_entry u e" for e using v(3,4) by (simp add: tree_entry_def split: prod.split)
  then have "vfs_ready s'"
    using s'(2,3,6,7) v u t(2,3) by (auto simp: vfs_ready_def tree_finddir_def)
  with s' v u t show ?thesis by simp
qed

lemma same_name_short: "length a \<le> FS_NAME_MAX \<Longrightarrow> length b \<le> FS_NAME_MAX \<Longrightarrow> same_name a b \<longleftrightarrow> a = b"
  by (simp add: same_name_def)

lemma find_unique: "P i \<Longrightarrow> i < n \<Longrightarrow> (\<And>j. P j \<Longrightarrow> j = i) \<Longrightarrow> find P [0..<n] = Some i"
proof -
  assume P: "P i" "i < n" and u: "\<And>j. P j \<Longrightarrow> j = i"
  have "\<not> P j" if "j < i" for j using u [of j] that by auto
  with P show ?thesis unfolding find_Some_iff by (intro exI [of _ i]) simp
qed

text \<open>In the static tree a directory finds exactly its own entries.\<close>

lemma rootfs_finddir_entry:
  assumes "vfs_ready s" and e: "(i, parent, name, ty) \<in> set rootfs_tree" and "0 \<le> parent"
  shows "rootfs_finddir (RootfsNode (nat parent)) name s = Some (RootfsNode i)"
proof -
  let ?P = "\<lambda>i. n_parent (fs_nodes s (RootfsNode i)) = Some (RootfsNode (nat parent)) \<and>
       same_name (n_name (fs_nodes s (RootfsNode i))) name \<and> rootfs_present s i \<noteq> 0"
  have len: "i < ROOTFS_ENTRIES" "length name \<le> FS_NAME_MAX" using tree_numbers(1) e by auto
  have ent: "tree_entry s e'" if "e' \<in> set rootfs_tree" for e' using assms(1) that by (simp add: vfs_ready_def)
  have "?P i" using ent [OF e] assms(3) by (simp add: tree_entry_def same_name_def)
  moreover have "j = i" if "?P j" for j
  proof -
    have "j \<in> fst ` set rootfs_tree" using assms(1) that by (auto simp: vfs_ready_def)
    then obtain parent' name' ty' where e': "(j, parent', name', ty') \<in> set rootfs_tree" by force
    have "length name' \<le> FS_NAME_MAX" using tree_numbers(1) e' by auto
    moreover have "parent' = parent" "same_name name' name"
      using ent [OF e'] that assms(3) by (auto simp: tree_entry_def split: if_splits)
    ultimately have "(parent', name') = (parent, name)" using len(2) same_name_short by simp
    then have "(j, parent', name', ty') = (i, parent, name, ty)"
      using tree_numbers(3) e e' by (auto simp: distinct_map inj_on_def)
    then show ?thesis by simp
  qed
  ultimately have "find ?P [0..<ROOTFS_ENTRIES] = Some i"
    using find_unique [of ?P i ROOTFS_ENTRIES] len(1) by blast
  then show ?thesis by (simp add: rootfs_finddir_def)
qed

lemma finddir_entry:
  assumes rdy: "vfs_ready s" and e: "(i, parent, name, ty) \<in> set rootfs_tree" and p: "(nat parent, pp, pname, FS_DIR) \<in> set rootfs_tree"
    and "0 \<le> parent" and "tree_finddir (nat parent) = Rootfs_finddir" and "name \<noteq> ''..''"
  shows "finddir_fs (RootfsNode (nat parent)) name s = Some (Some (RootfsNode i))"
proof -
  have "n_type (fs_nodes s (RootfsNode (nat parent))) = FS_DIR" "n_finddir (fs_nodes s (RootfsNode (nat parent))) = Some Rootfs_finddir"
    using rdy p assms(5) by (force simp: vfs_ready_def tree_entry_def)+
  then show ?thesis using rootfs_finddir_entry [OF rdy e assms(4)] assms(6) by (simp add: finddir_fs_def)
qed

lemma tree_steps:
  assumes "vfs_ready s"
  shows
    "finddir_fs (RootfsNode 0) ''proc'' s = Some (Some (RootfsNode 1))"
    "finddir_fs (RootfsNode 0) ''sem'' s = Some (Some (RootfsNode 2))"
    "finddir_fs (RootfsNode 0) ''sys'' s = Some (Some (RootfsNode 3))"
    "finddir_fs (RootfsNode 3) ''console'' s = Some (Some (RootfsNode 4))"
    "finddir_fs (RootfsNode 4) ''blink'' s = Some (Some (RootfsNode 5))"
    "finddir_fs (RootfsNode 4) ''fg'' s = Some (Some (RootfsNode 6))"
    "finddir_fs (RootfsNode 4) ''bg'' s = Some (Some (RootfsNode 7))"
    "finddir_fs (RootfsNode 4) ''echo'' s = Some (Some (RootfsNode 13))"
    "finddir_fs (RootfsNode 0) ''dev'' s = Some (Some (RootfsNode 8))"
    "finddir_fs (RootfsNode 8) ''null'' s = Some (Some (RootfsNode 9))"
    "finddir_fs (RootfsNode 8) ''zero'' s = Some (Some (RootfsNode 10))"
    "finddir_fs (RootfsNode 8) ''answer'' s = Some (Some (RootfsNode 11))"
    "finddir_fs (RootfsNode 8) ''console'' s = Some (Some (RootfsNode 16))"
    "finddir_fs (RootfsNode 8) ''vc'' s = Some (Some (RootfsNode 17))"
    "finddir_fs (RootfsNode 0) ''kikoo'' s = Some (Some (RootfsNode 12))"
    "finddir_fs (RootfsNode 0) ''prog'' s = Some (Some (RootfsNode 14))"
proof -
  note root = finddir_entry [OF assms, of _ 0 _ _ "-1" "''root''", simplified] 
    and sys = finddir_entry [OF assms, of _ 3 _ _ 0 "''sys''", simplified]
    and cons = finddir_entry [OF assms, of _ 4 _ _ 3 "''console''", simplified]
    and dev = finddir_entry [OF assms, of _ 8 _ _ 0 "''dev''", simplified]
  show "finddir_fs (RootfsNode 0) ''proc'' s = Some (Some (RootfsNode 1))"
    "finddir_fs (RootfsNode 0) ''sem'' s = Some (Some (RootfsNode 2))"
    "finddir_fs (RootfsNode 0) ''sys'' s = Some (Some (RootfsNode 3))"
    "finddir_fs (RootfsNode 0) ''dev'' s = Some (Some (RootfsNode 8))"
    "finddir_fs (RootfsNode 0) ''kikoo'' s = Some (Some (RootfsNode 12))"
    "finddir_fs (RootfsNode 0) ''prog'' s = Some (Some (RootfsNode 14))"
    by (rule root; simp add: rootfs_tree_def tree_finddir_def)+
  show "finddir_fs (RootfsNode 3) ''console'' s = Some (Some (RootfsNode 4))"
    by (rule sys; simp add: rootfs_tree_def tree_finddir_def)
  show "finddir_fs (RootfsNode 4) ''blink'' s = Some (Some (RootfsNode 5))"
    "finddir_fs (RootfsNode 4) ''fg'' s = Some (Some (RootfsNode 6))"
    "finddir_fs (RootfsNode 4) ''bg'' s = Some (Some (RootfsNode 7))"
    "finddir_fs (RootfsNode 4) ''echo'' s = Some (Some (RootfsNode 13))"
    by (rule cons; simp add: rootfs_tree_def tree_finddir_def)+
  show "finddir_fs (RootfsNode 8) ''null'' s = Some (Some (RootfsNode 9))"
    "finddir_fs (RootfsNode 8) ''zero'' s = Some (Some (RootfsNode 10))"
    "finddir_fs (RootfsNode 8) ''answer'' s = Some (Some (RootfsNode 11))"
    "finddir_fs (RootfsNode 8) ''console'' s = Some (Some (RootfsNode 16))"
    "finddir_fs (RootfsNode 8) ''vc'' s = Some (Some (RootfsNode 17))"
    by (rule dev; simp add: rootfs_tree_def tree_finddir_def)+
qed

definition rootfs_paths :: "(string list \<times> nat) list" where
  "rootfs_paths =
     [([''proc''], 1), ([''sem''], 2), ([''sys''], 3), ([''sys'', ''console''], 4), ([''sys'', ''console'', ''blink''], 5),
      ([''sys'', ''console'', ''fg''], 6), ([''sys'', ''console'', ''bg''], 7), ([''sys'', ''console'', ''echo''], 13),
      ([''dev''], 8), ([''dev'', ''null''], 9), ([''dev'', ''zero''], 10), ([''dev'', ''answer''], 11),
      ([''dev'', ''console''], 16), ([''dev'', ''vc''], 17), ([''kikoo''], 12), ([''prog''], 14)]"

lemma rootfs_paths_names:
  "(ns, i) \<in> set rootfs_paths \<Longrightarrow> ns \<noteq> [] \<and> ns \<noteq> [[]] \<and> (\<forall>n\<in>set ns. file_name n)"
  by (auto simp: rootfs_paths_def file_name_def FS_NAME_MAX_def)

lemma walk_paths: "vfs_ready s \<Longrightarrow> (ns, i) \<in> set rootfs_paths \<Longrightarrow> walk vfs_root ns s = Some (Some (RootfsNode i))"
  unfolding rootfs_paths_def by (auto simp: vfs_root_def tree_steps)

lemma vfs_ready_dir:
  assumes "vfs_ready s" and "(i, parent, name, FS_DIR) \<in> set rootfs_tree"
  shows "n_type (fs_nodes s (RootfsNode i)) = FS_DIR" "n_finddir (fs_nodes s (RootfsNode i)) = Some (tree_finddir i)"
  using assms by (force simp: vfs_ready_def tree_entry_def)+

lemma walk_vc:
  assumes "vfs_ready s" and "k < 4"
  shows "walk vfs_root [''dev'', ''vc'', decimal k] s = Some (Some (VcNode k))"
proof -
  have "n_type (fs_nodes s (RootfsNode 17)) = FS_DIR" "n_finddir (fs_nodes s (RootfsNode 17)) = Some Console_vc_finddir"
    using vfs_ready_dir [OF assms(1), of 17 8 "''vc''"] by (simp_all add: rootfs_tree_def tree_finddir_def)
  moreover obtain e where "strtol (decimal k @ [NUL]) 0 10 = Some (of_nat k, e)" using strtol_decimal by blast
  moreover have "sint (of_nat k :: u32) = int k" using sint_small [of "of_nat k :: u32"] assms(2) by simp
  ultimately have "finddir_fs (RootfsNode 17) (decimal k) s = Some (Some (VcNode k))"
    using assms(2) decimal_not_dots [of k] by (simp add: finddir_fs_def console_vc_finddir_def)
  then show ?thesis using tree_steps [OF assms(1)] by (simp add: vfs_root_def)
qed

lemma in_tab_nat: "in_tab p \<Longrightarrow> \<exists>n. p = int n \<and> n < 2 ^ 31"
  by (rule exI [of _ "nat p"]) (auto simp: in_tab_def NBPROC_def nat_less_iff)

lemma walk_proc:
  assumes "vfs_ready s" and "in_tab p" and "p_valide (tab_proc s p) \<noteq> 0"
  shows "walk vfs_root [''proc'', decimal (nat p)] s = Some (p_procfs_node (tab_proc s p))"
proof -
  have "n_type (fs_nodes s (RootfsNode 1)) = FS_DIR" "n_finddir (fs_nodes s (RootfsNode 1)) = Some Procfs_finddir"
    using vfs_ready_dir [OF assms(1), of 1 0 "''proc''"] by (simp_all add: rootfs_tree_def tree_finddir_def)
  moreover obtain e where "strtol (decimal (nat p) @ [NUL]) 0 10 = Some (of_nat (nat p), e)" using strtol_decimal by blast
  moreover obtain n where n: "p = int n" "n < 2 ^ 31" using in_tab_nat [OF assms(2)] by blast
  then have "sint (of_nat (nat p) :: u32) = p" using sint_small [of "of_nat n :: u32"] by simp
  ultimately have "finddir_fs (RootfsNode 1) (decimal (nat p)) s = Some (p_procfs_node (tab_proc s p))"
    using assms(2,3) decimal_not_dots [of "nat p"] by (simp add: finddir_fs_def procfs_finddir_def)
  then show ?thesis using tree_steps [OF assms(1)] by (simp add: vfs_root_def split: option.split)
qed

text \<open>
  The initialisation builds the tree the kernel relies on, from any state whose table of entries is
  still empty: every entry is found under its path, \<^verbatim>\<open>/dev/vc/\<close> followed by a number gives the node of that console,
  which writes to it, and \<^verbatim>\<open>/proc/\<close> followed by the PID of a process gives its directory.
\<close>

lemma vfs_init_paths:
  assumes "\<forall>i. i \<notin> fst ` set rootfs_tree \<longrightarrow> rootfs_present s i = 0"
  shows "\<exists>s'. vfs_init s = Some s' \<and> tab_proc s' = tab_proc s \<and> pid_cour s' = pid_cour s \<and>
    (\<forall>(ns, i) \<in> set rootfs_paths. vfs_path_resolution (CHR ''/'' # join_path ns) s' = Some (Some (RootfsNode i))) \<and>
    (\<forall>k<4. vfs_path_resolution (''/dev/vc/'' @ decimal k) s' = Some (Some (VcNode k)) \<and> console_entry s' k) \<and>
    (\<forall>p. in_tab p \<and> p_valide (tab_proc s p) \<noteq> 0 \<longrightarrow>
      vfs_path_resolution (''/proc/'' @ decimal (nat p)) s' = Some (p_procfs_node (tab_proc s p)))"
proof -
  obtain s' where s': "vfs_init s = Some s'" "vfs_ready s'" "tab_proc s' = tab_proc s" "pid_cour s' = pid_cour s"
    using vfs_init_ready [OF assms] by blast
  have "vfs_path_resolution (CHR ''/'' # join_path ns) s' = Some (Some (RootfsNode i))" if "(ns, i) \<in> set rootfs_paths" for ns i
    using absolute_path_walk [of ns s'] rootfs_paths_names [OF that] walk_paths [OF s'(2) that] by simp
  moreover have "vfs_path_resolution (''/dev/vc/'' @ decimal k) s' = Some (Some (VcNode k)) \<and> console_entry s' k" if "k < 4" for k
    using absolute_path_walk [of "[''dev'', ''vc'', decimal k]" s'] walk_vc [OF s'(2) that] that decimal_file_name [of k] s'(2)
    by (simp add: file_name_def FS_NAME_MAX_def vfs_ready_def)
  moreover have "vfs_path_resolution (''/proc/'' @ decimal (nat p)) s' = Some (p_procfs_node (tab_proc s p))"
    if "in_tab p" "p_valide (tab_proc s p) \<noteq> 0" for p
  proof -
    have "nat p < 2 ^ 31" using in_tab_nat [OF that(1)] by auto
    then show ?thesis
      using absolute_path_walk [of "[''proc'', decimal (nat p)]" s'] walk_proc [OF s'(2) that(1)] that(2) decimal_file_name [of "nat p"] s'(3)
      by (simp add: file_name_def FS_NAME_MAX_def)
  qed
  ultimately show ?thesis using s' by auto
qed

lemma vfs_init_paths_witness:
  "\<exists>s'. vfs_init ex_kernel = Some s' \<and>
    (\<forall>(ns, i) \<in> set rootfs_paths. vfs_path_resolution (CHR ''/'' # join_path ns) s' = Some (Some (RootfsNode i)))"
proof -
  have "\<forall>i. i \<notin> fst ` set rootfs_tree \<longrightarrow> rootfs_present ex_kernel i = 0" by (simp add: ex_kernel_def)
  from vfs_init_paths [OF this] show ?thesis by blast
qed

theorem path_resolution_walks_witness:
  "vfs_path_resolution ''/dev/null'' ex_kernel = walk vfs_root [''dev'', ''null''] ex_kernel"
  using path_resolution_walks [of "[''dev'', ''null'']" ex_kernel] by (simp add: file_name_def FS_NAME_MAX_def)

text \<open>A name of \<open>FS_NAME_MAX\<close> characters or more does not fit in the array of the resolution.\<close>

lemma long_name_overflows:
  assumes "CHR ''/'' \<notin> set n" and "FS_NAME_MAX \<le> length n"
  shows "vfs_path_resolution (CHR ''/'' # n @ rest) s = None"
proof -
  have "n @ rest \<noteq> []" using assms(2) by (auto simp: FS_NAME_MAX_def)
  then show ?thesis
    using next_filename_long [of n "[]" rest] assms by (simp add: vfs_path_resolution_def path_loop.simps)
qed

section \<open>Reading a file piece by piece\<close>

definition fd_ok :: "int \<Rightarrow> kstate \<Rightarrow> bool" where
  "fd_ok fd s \<longleftrightarrow> in_tab (pid_cour s) \<and> 0 \<le> fd \<and> nat fd < length (p_file_desc (tab_proc s (pid_cour s)))"

lemma cur_fd_ok: "cur_fd fd s = Some d \<longleftrightarrow> fd_ok fd s \<and> d = p_file_desc (tab_proc s (pid_cour s)) ! nat fd"
  by (auto simp: cur_fd_def fd_ok_def Let_def)

lemma upd_fd_simps [simp]:
  "fs_nodes (upd_fd fd f s) = fs_nodes s" "pid_cour (upd_fd fd f s) = pid_cour s" "in_syscall (upd_fd fd f s) = in_syscall s"
  "virtual_consoles (upd_fd fd f s) = virtual_consoles s" "vc_current (upd_fd fd f s) = vc_current s"
  "kikoobuf (upd_fd fd f s) = kikoobuf s" "fd_ok fd' (upd_fd fd f s) \<longleftrightarrow> fd_ok fd' s"
  "p_state (tab_proc (upd_fd fd f s) p) = p_state (tab_proc s p)" "p_pid_parent (tab_proc (upd_fd fd f s) p) = p_pid_parent (tab_proc s p)"
  "p_name (tab_proc (upd_fd fd f s) p) = p_name (tab_proc s p)"
  by (auto simp: upd_fd_def fd_ok_def)

lemma check_pointer_upd_fd [simp]: "check_pointer p code (upd_fd fd f s) = check_pointer p code s"
  by (simp add: check_pointer_def is_in_syscall_def)

lemma cur_fd_upd: "cur_fd fd s = Some d \<Longrightarrow> cur_fd fd (upd_fd fd f s) = Some (f d)"
  unfolding cur_fd_ok by (auto simp: fd_ok_def upd_fd_def)

lemma cur_fd_upd_other: "nat fd' \<noteq> nat fd \<Longrightarrow> cur_fd fd' (upd_fd fd f s) = cur_fd fd' s"
  by (simp add: cur_fd_def upd_fd_def Let_def)

text \<open>What a file contains does not depend on the descriptors.\<close>

lemma read_fs_upd_fd [simp]: "read_fs np offset len (upd_fd fd f s) = read_fs np offset len s"
proof (cases "n_read (fs_nodes s np)")
  case (Some cb)
  then show ?thesis
    by (cases cb) (simp_all add: read_fs_def kikoo_read_def procfs_state_read_def procfs_parent_read_def procfs_name_read_def
      console_blink_r_def console_fg_r_def console_bg_r_def get_attr_def is_in_syscall_def del: doprnt.simps)
qed (simp add: read_fs_def)

text \<open>\<open>text_file np txt s\<close>: the node behaves as a file with the contents \<open>txt\<close>.\<close>

definition text_file :: "node_ptr \<Rightarrow> string \<Rightarrow> kstate \<Rightarrow> bool" where
  "text_file np txt s \<longleftrightarrow> length txt < 2 ^ 31 \<and> (\<forall>offset len. read_fs np offset len s = Some (text_read txt offset len))"

lemma text_file_upd_fd [simp]: "text_file np txt (upd_fd fd f s) = text_file np txt s"
  by (simp add: text_file_def)

fun read_pieces :: "int \<Rightarrow> u32 \<Rightarrow> u32 list \<Rightarrow> kstate \<Rightarrow> (string list \<times> kstate) option" where
  "read_pieces fd buf [] s = Some ([], s)"
| "read_pieces fd buf (len # lens) s = do {
     (r, a, bytes, s) \<leftarrow> read fd buf len s;
     (pieces, s) \<leftarrow> read_pieces fd buf lens s;
     Some (bytes # pieces, s) }"

lemma read_text:
  assumes "text_file np txt s" and "cur_fd fd s = Some d" and "f_node d = Some np" and "f_offset d = of_nat k" and "k \<le> length txt"
    and "check_pointer buf SYSCALL_READ s \<noteq> 0"
  shows "\<exists>s'. read fd buf len s = Some (int (length (take (unat len) (drop k txt))), check_pointer buf SYSCALL_READ s,
      take (unat len) (drop k txt), s') \<and>
    s' = upd_fd fd (\<lambda>d. d\<lparr>f_offset := f_offset d + of_nat (length (take (unat len) (drop k txt)))\<rparr>) s"
proof -
  have "k < 2 ^ 32" using assms(1,5) by (simp add: text_file_def)
  then have "text_read txt (f_offset d) len = (int (length (take (unat len) (drop k txt))), take (unat len) (drop k txt))"
    using assms(4) by (simp add: text_read_def seq_memread_def Let_def)
  moreover have "read_fs np (f_offset d) len s = Some (text_read txt (f_offset d) len)" using assms(1) by (simp add: text_file_def)
  ultimately show ?thesis using assms(2,3,6) by (simp add: read_def Let_def)
qed

lemma read_pieces_text:
  "text_file np txt s \<Longrightarrow> cur_fd fd s = Some d \<Longrightarrow> f_node d = Some np \<Longrightarrow> f_offset d = of_nat k \<Longrightarrow> k \<le> length txt \<Longrightarrow>
   check_pointer buf SYSCALL_READ s \<noteq> 0 \<Longrightarrow>
   \<exists>pieces s' d'. read_pieces fd buf lens s = Some (pieces, s') \<and> concat pieces = take (sum_list (map unat lens)) (drop k txt) \<and>
     list_all2 (\<lambda>p len. length p \<le> unat len) pieces lens \<and>
     cur_fd fd s' = Some d' \<and> f_node d' = Some np \<and> f_offset d' = of_nat (min (length txt) (k + sum_list (map unat lens)))"
proof (induction lens arbitrary: s d k)
  case Nil
  then show ?case by (simp add: min_def)
next
  case (Cons len lens)
  let ?piece = "take (unat len) (drop k txt)"
  let ?t = "upd_fd fd (\<lambda>d. d\<lparr>f_offset := f_offset d + of_nat (length ?piece)\<rparr>) s"
  obtain r a where rd: "read fd buf len s = Some (r, a, ?piece, ?t)" using read_text [OF Cons.prems] by blast
  have "text_file np txt ?t" using Cons.prems(1) by simp
  moreover have "cur_fd fd ?t = Some (d\<lparr>f_offset := f_offset d + of_nat (length ?piece)\<rparr>)" by (rule cur_fd_upd [OF Cons.prems(2)])
  moreover have "k + length ?piece \<le> length txt" using Cons.prems(5) by simp
  ultimately obtain pieces s' d' where ih: "read_pieces fd buf lens ?t = Some (pieces, s')"
    "concat pieces = take (sum_list (map unat lens)) (drop (k + length ?piece) txt)"
    "list_all2 (\<lambda>p len. length p \<le> unat len) pieces lens"
    "cur_fd fd s' = Some d'" "f_node d' = Some np"
    "f_offset d' = of_nat (min (length txt) (k + length ?piece + sum_list (map unat lens)))"
    using Cons.IH [of ?t "d\<lparr>f_offset := f_offset d + of_nat (length ?piece)\<rparr>" "k + length ?piece"] Cons.prems(3,4,6) by auto
  have "?piece @ take n (drop (k + length ?piece) txt) = take (unat len + n) (drop k txt)" for n
  proof (cases "unat len \<le> length txt - k")
    case True
    then show ?thesis by (simp add: take_add add.commute [of "unat len" k])
  next
    case False
    then show ?thesis by simp
  qed
  moreover have "min (length txt) (k + length ?piece + n) = min (length txt) (k + (unat len + n))" for n
    using Cons.prems(5) by (auto simp: min_def)
  moreover have "length ?piece \<le> unat len" by simp
  ultimately show ?case using rd ih by (auto simp del: length_take)
qed

text \<open>
  C23. Reading a file with a fixed contents in pieces of any sizes, from a descriptor just opened, gives
  consecutive pieces: together they are the beginning of the contents, and all of it as soon as the
  sizes add up to its length. No piece is longer than what was asked for, and the offset ends where
  the pieces end. The buffer is one that the kernel does not refuse.
\<close>

theorem read_in_pieces:
  assumes "text_file np txt s" and "cur_fd fd s = Some d" and "f_node d = Some np" and "f_offset d = 0"
    and "check_pointer buf SYSCALL_READ s \<noteq> 0"
  shows "\<exists>pieces s' d'. read_pieces fd buf lens s = Some (pieces, s') \<and> concat pieces = take (sum_list (map unat lens)) txt \<and>
     list_all2 (\<lambda>p len. length p \<le> unat len) pieces lens \<and>
     cur_fd fd s' = Some d' \<and> f_offset d' = of_nat (min (length txt) (sum_list (map unat lens)))"
  using read_pieces_text [OF assms(1,2,3), of 0 buf lens] assms(4,5) by auto

text \<open>The files of this kind.\<close>

lemma text_files:
  "n_read (fs_nodes s np) = Some Procfs_name_read \<Longrightarrow> in_tab (n_inode (fs_nodes s np) - 3200) \<Longrightarrow>
   length (p_name (tab_proc s (n_inode (fs_nodes s np) - 3200))) < 2 ^ 31 \<Longrightarrow>
   text_file np (p_name (tab_proc s (n_inode (fs_nodes s np) - 3200))) s"
  "n_read (fs_nodes s np) = Some Procfs_state_read \<Longrightarrow> in_tab (n_inode (fs_nodes s np) - 1200) \<Longrightarrow>
   text_file np (state_name (p_state (tab_proc s (n_inode (fs_nodes s np) - 1200)))) s"
  "n_read (fs_nodes s np) = Some Kikoo_read \<Longrightarrow> 26 \<le> length (snd (kikoobuf s)) \<Longrightarrow> text_file np (take 26 (snd (kikoobuf s))) s"
  by (auto simp: text_file_def read_fs_def procfs_name_read_def procfs_state_read_def kikoo_read_def Let_def
    state_name_def split: proc_state.split)

definition ex_files :: kstate where
  "ex_files = ex_cons\<lparr>fs_nodes := (\<lambda>np. ex_node\<lparr>n_inode := 3201, n_read := Some Procfs_name_read\<rparr>),
     tab_proc := (\<lambda>p. (tab_proc ex_cons p)\<lparr>p_name := ''Init''\<rparr>)\<rparr>"

theorem read_in_pieces_witness:
  "\<exists>pieces s'. read_pieces 1 0x1000000 [3, 5] ex_files = Some (pieces, s') \<and> concat pieces = ''Init''"
proof -
  have "text_file (VcNode 0) ''Init'' ex_files"
    using text_files(1) [of ex_files "VcNode 0"] by (simp add: ex_files_def in_tab_def NBPROC_def)
  moreover have "cur_fd 1 ex_files = Some \<lparr>f_present = 1, f_node = Some (VcNode 0), f_offset = 0\<rparr>"
    by (simp add: cur_fd_def ex_files_def ex_cons_def in_tab_def NBPROC_def DTABLESIZE_def)
  moreover have "check_pointer 0x1000000 SYSCALL_READ ex_files \<noteq> 0" by (simp add: check_pointer_def is_pointer_userspace_def)
  ultimately obtain pieces s' where "read_pieces 1 0x1000000 [3, 5] ex_files = Some (pieces, s')"
    "concat pieces = take (sum_list (map unat [3, 5 :: u32])) ''Init''"
    using read_in_pieces [of "VcNode 0" "''Init''" ex_files 1 "\<lparr>f_present = 1, f_node = Some (VcNode 0), f_offset = 0\<rparr>" "0x1000000" "[3, 5]"]
    by auto
  then show ?thesis by simp
qed

section \<open>Opening and closing\<close>

lemma open_fs_frame: "open_fs np s = Some (r, t) \<Longrightarrow> r = 0 \<and> tab_proc t = tab_proc s \<and> pid_cour t = pid_cour s"
  by (auto simp: open_fs_def kikoo_open_def mem_alloc_def split: option.splits open_cb.splits list.splits bind_splits if_splits)

lemma close_fs_frame: "fst (close_fs np s) = 0" "tab_proc (snd (close_fs np s)) = tab_proc s" "pid_cour (snd (close_fs np s)) = pid_cour s"
  by (auto simp: close_fs_def kikoo_close_def split: option.splits close_cb.splits)

lemma cur_fd_cong: "tab_proc t = tab_proc s \<Longrightarrow> pid_cour t = pid_cour s \<Longrightarrow> cur_fd fd t = cur_fd fd s"
  by (simp add: cur_fd_def)

text \<open>\<open>i\<close> is the first free descriptor of the current process.\<close>

definition first_free :: "nat \<Rightarrow> kstate \<Rightarrow> bool" where
  "first_free i s \<longleftrightarrow> in_tab (pid_cour s) \<and> length (p_file_desc (tab_proc s (pid_cour s))) = DTABLESIZE \<and> i < DTABLESIZE \<and>
     f_present (p_file_desc (tab_proc s (pid_cour s)) ! i) = 0 \<and>
     (\<forall>j<i. f_present (p_file_desc (tab_proc s (pid_cour s)) ! j) \<noteq> 0)"

lemma fd_alloc_first:
  assumes "first_free i s"
  shows "fd_alloc np s = Some (int i, upd_fd (int i) (\<lambda>d. d\<lparr>f_present := 1, f_node := Some np\<rparr>) s)"
proof -
  have "find (\<lambda>i. f_present (p_file_desc (tab_proc s (pid_cour s)) ! i) = 0) [0..<DTABLESIZE] = Some i"
    unfolding find_Some_iff using assms by (intro exI [of _ i]) (simp add: first_free_def)
  then show ?thesis using assms by (simp add: fd_alloc_def first_free_def)
qed

lemma first_free_fd:
  assumes "first_free i s"
  shows "cur_fd (int i) s = Some (p_file_desc (tab_proc s (pid_cour s)) ! i)"
  using assms by (simp add: cur_fd_def first_free_def)

text \<open>
  A path that exists and can be opened gets the first free descriptor of the caller, which then refers to its node with
  offset 0; the other descriptors stay as they are. Closing it succeeds and makes it free again.
\<close>

lemma open_then_close:
  assumes "vfs_path_resolution name s = Some (Some np)" and "open_fs np s = Some (r, t)" and "first_free i s"
  shows "\<exists>s' s''. open_file name s = Some (int i, s') \<and>
    cur_fd (int i) s' = Some \<lparr>f_present = 1, f_node = Some np, f_offset = 0\<rparr> \<and>
    close (int i) s' = Some (0, s'') \<and> first_free i s'' \<and>
    (\<forall>j. j \<noteq> i \<longrightarrow> cur_fd (int j) s' = cur_fd (int j) s \<and> cur_fd (int j) s'' = cur_fd (int j) s)"
proof -
  note fr = open_fs_frame [OF assms(2)]
  have ff: "first_free i t" using assms(3) fr by (simp add: first_free_def)
  let ?a = "upd_fd (int i) (\<lambda>d. d\<lparr>f_present := 1, f_node := Some np\<rparr>) t"
  let ?s' = "upd_fd (int i) (\<lambda>d. d\<lparr>f_offset := 0\<rparr>) ?a"
  let ?u = "snd (close_fs np ?s')"
  let ?s'' = "upd_fd (int i) (\<lambda>d. d\<lparr>f_present := 0, f_node := None\<rparr>) ?u"
  have op: "open_file name s = Some (int i, ?s')"
    using assms(1,2) fr fd_alloc_first [OF ff, of np] by (simp add: open_file_def)
  obtain d where d: "cur_fd (int i) t = Some d" using first_free_fd [OF ff] by simp
  have fd: "cur_fd (int i) ?s' = Some \<lparr>f_present = 1, f_node = Some np, f_offset = 0\<rparr>"
    using cur_fd_upd [OF cur_fd_upd [OF d]] by (cases d) simp
  have u: "cur_fd k ?u = cur_fd k ?s'" for k using close_fs_frame [of np ?s'] by (intro cur_fd_cong)
  have cl: "close (int i) ?s' = Some (0, ?s'')"
    using fd u [of "int i"] close_fs_frame(1) [of np ?s'] by (simp add: close_def fd_free_def split_def)
  have "first_free i ?s''"
    using ff close_fs_frame [of np ?s'] by (auto simp: first_free_def upd_fd_def)
  moreover have "cur_fd (int j) ?s' = cur_fd (int j) s \<and> cur_fd (int j) ?s'' = cur_fd (int j) s" if "j \<noteq> i" for j
    using that u [of "int j"] fr by (simp add: cur_fd_upd_other cur_fd_cong [of t s])
  ultimately show ?thesis using op fd cl by blast
qed

definition ex_open :: kstate where
  "ex_open = ex_cons\<lparr>tab_proc := (\<lambda>p. (tab_proc ex_cons p)\<lparr>p_file_desc := (p_file_desc (tab_proc ex_cons p))[2 :=
     \<lparr>f_present = 0, f_node = None, f_offset = 7\<rparr>]\<rparr>)\<rparr>"

lemma open_then_close_witness:
  "\<exists>s' s''. open_file ''/'' ex_open = Some (2, s') \<and> close 2 s' = Some (0, s'') \<and> first_free 2 s''"
proof -
  have "vfs_path_resolution ''/'' ex_open = Some (Some vfs_root)" by (simp add: vfs_path_resolution_def)
  moreover have "open_fs vfs_root ex_open = Some (0, ex_open)"
    by (simp add: open_fs_def ex_open_def ex_cons_def ex_node_def)
  moreover have "first_free 2 ex_open"
    by (simp add: first_free_def ex_open_def ex_cons_def in_tab_def NBPROC_def DTABLESIZE_def less_2_cases_iff)
  ultimately show ?thesis using open_then_close [of "''/''" ex_open vfs_root 0 ex_open 2] by (auto simp: numeral_2_eq_2)
qed

text \<open>What the code does not handle: a table without room, and a descriptor that is not open.\<close>

lemma open_without_room:
  assumes "vfs_path_resolution name s = Some (Some np)" and "open_fs np s = Some (r, t)"
    and "\<forall>d \<in> set (p_file_desc (tab_proc s (pid_cour s))). f_present d \<noteq> 0"
  shows "open_file name s = None"
proof -
  note fr = open_fs_frame [OF assms(2)]
  have "find (\<lambda>i. f_present (p_file_desc (tab_proc s (pid_cour s)) ! i) = 0) [0..<DTABLESIZE] = None"
    if "DTABLESIZE \<le> length (p_file_desc (tab_proc s (pid_cour s)))"
    using assms(3) that by (auto simp: find_None_iff)
  then show ?thesis using assms(1,2) fr by (auto simp: open_file_def fd_alloc_def split: bind_split)
qed

lemma close_twice_faults:
  assumes "close fd s = Some (0, s')"
  shows "close fd s' = None"
proof -
  have "\<exists>u d. cur_fd fd u = Some d \<and> s' = upd_fd fd (\<lambda>d. d\<lparr>f_present := 0, f_node := None\<rparr>) u"
    using assms close_fs_frame(1) by (auto simp: close_def fd_free_def split: bind_splits if_splits prod.splits)
  then obtain u d where d: "cur_fd fd u = Some d" "s' = upd_fd fd (\<lambda>d. d\<lparr>f_present := 0, f_node := None\<rparr>) u" by blast
  then show ?thesis using cur_fd_upd [OF d(1)] by (simp add: close_def)
qed

end
