(* ===== verification/Context.thy ===== *)
theory Context
  imports Vfs
begin

text \<open>
  Creation of processes and start of the kernel: \<^verbatim>\<open>context_create_user\<close>, \<^verbatim>\<open>context_create_kernel\<close>, \<^verbatim>\<open>context_init\<close>,
  \<^verbatim>\<open>context_print_state\<close> of \<^verbatim>\<open>kernel/context.c\<close>, \<^verbatim>\<open>start\<close> of \<^verbatim>\<open>kernel/sys.c\<close>, \<^verbatim>\<open>setup_pic\<close> and \<^verbatim>\<open>cpu_init\<close> of
  \<^verbatim>\<open>kernel/processor_structs.c\<close>, and \<^verbatim>\<open>kernel/start.c\<close>.

  \<^item> The blocks of \<^verbatim>\<open>mem_alloc\<close> and of \<^verbatim>\<open>user_stack_alloc\<close> come from the sequence \<open>allocs\<close>, in the order of the calls.
  \<^item> \<open>entries\<close> holds the addresses of the assembly routines the code refers to; \<open>fresh\<close> is what a block of
    memory contains when it is allocated.
  \<^item> Longs of a user stack are words of \<open>umem\<close>.
\<close>

record entries =
  ad_iret :: u32
  ad_exit_kernel :: u32
  ad_int32 :: u32
  ad_int33 :: u32
  ad_int49 :: u32
  ad_pfault :: u32

record fresh =
  junk_node :: fs_node
  junk_stack :: "nat \<Rightarrow> u32"
  junk_screen :: "console_character list"

section \<open>Creating a process\<close>

definition free_pid :: "kstate \<Rightarrow> int option" where
  "free_pid s = find (\<lambda>p. p_valide (tab_proc s p) \<noteq> 1) [1..NBPROC]"

text \<open>The kernel stack of a user process: 40000 bytes.\<close>

definition NB_ELEM_K :: nat where "NB_ELEM_K = 10000"

definition create_fields :: "int \<Rightarrow> u32 \<Rightarrow> u32 \<Rightarrow> u32 \<Rightarrow> int \<Rightarrow> klist \<Rightarrow> kstate \<Rightarrow> kstate" where
  "create_fields pid kernel_stack user_stack stack_size prio children s =
     (let nb_elem_u = stack_size div 4
      in upd_proc pid (\<lambda>c. c\<lparr>
       p_esp_kernel := kernel_stack + 4 * (of_nat NB_ELEM_K - 8),
       p_esp_user := user_stack + 4 * (nb_elem_u - 2),
       p_pid := pid, p_state := STATE_ACTIVABLE, p_priority := prio, p_user_stack_size := stack_size,
       p_kernel_stack_size := 40000, p_kernel_stack := kernel_stack, p_user_stack := user_stack,
       p_pid_parent := pid_cour s, p_killed := 0, p_children := children,
       p_sid_wait := 0, p_sid_reseted := 0, p_sid_deleted := 0\<rparr>) s)"

text \<open>The list of pending signals, the handlers and the name.\<close>

definition create_signals :: "int \<Rightarrow> string \<Rightarrow> kstate \<Rightarrow> kstate option" where
  "create_signals pid name s = do {
     let (sigs, s) = kl_new s;
     let s = upd_proc pid (\<lambda>c. c\<lparr>p_sigmap := replicate (nat NBSIG) (ad_sig_default s), p_sigs := sigs, p_cur_sig := 0\<rparr>) s;
     let (a, s) = mem_alloc s;
     assert_that (a \<noteq> 0);
     Some (upd_proc pid (\<lambda>c. c\<lparr>p_name := name\<rparr>) s) }"

text \<open>
  The descriptors: 0 is marked as present, 1 gets the output of the father (after the node of \<^verbatim>\<open>/dev/kbd\<close>, which
  was meant for 0), the others are free.
\<close>

definition fds_init :: "node_ptr option \<Rightarrow> file_descriptor list \<Rightarrow> file_descriptor list" where
  "fds_init out fds = map (\<lambda>fd. if fd = 0 then (fds ! 0)\<lparr>f_present := 1\<rparr>
       else if fd = 1 then \<lparr>f_present = 1, f_node = out, f_offset = 0\<rparr>
       else (fds ! fd)\<lparr>f_present := 0\<rparr>) [0..<DTABLESIZE]"

definition create_files :: "fs_node \<Rightarrow> int \<Rightarrow> kstate \<Rightarrow> kstate option" where
  "create_files junk pid s = do {
     _ \<leftarrow> vfs_path_resolution ''/dev/kbd'' s;
     out \<leftarrow> (if pid_cour s = 0 then vfs_path_resolution ''/dev/vc/0'' s
            else map_option f_node (cur_fd 1 s));
     let s = upd_proc pid (\<lambda>c. c\<lparr>p_file_desc := fds_init out (p_file_desc c), p_working_dir := Some vfs_root\<rparr>) s;
     (n, s) \<leftarrow> procfs_new_node junk pid s;
     let s = upd_proc pid (\<lambda>c. c\<lparr>p_procfs_node := Some n\<rparr>) s;
     (n, s) \<leftarrow> procfs_new_state_node junk pid s;
     let s = upd_proc pid (\<lambda>c. c\<lparr>p_vfs_state_node := Some n\<rparr>) s;
     (n, s) \<leftarrow> procfs_new_parent_node junk pid s;
     let s = upd_proc pid (\<lambda>c. c\<lparr>p_vfs_parent_node := Some n\<rparr>) s;
     (n, s) \<leftarrow> procfs_new_name_node junk pid s;
     Some (upd_proc pid (\<lambda>c. c\<lparr>p_vfs_name_node := Some n\<rparr>) s) }"

definition attach_child :: "int \<Rightarrow> kstate \<Rightarrow> kstate option" where
  "attach_child pid s =
     (if pid_cour s \<noteq> 0 then do {
        assert_that (in_tab (pid_cour s));
        (l, s) \<leftarrow> kl_put_first (p_children (tab_proc s (pid_cour s))) pid s;
        Some (upd_proc (pid_cour s) (\<lambda>c. c\<lparr>p_children := l\<rparr>) s) }
      else do {
        (l, s) \<leftarrow> kl_put_first (p_children (kernel_context s)) pid s;
        Some (s\<lparr>kernel_context := (kernel_context s)\<lparr>p_children := l\<rparr>\<rparr>) })"

definition create_stacks :: "int \<Rightarrow> u32 \<Rightarrow> u32 \<Rightarrow> u32 \<Rightarrow> u32 \<Rightarrow> u32 \<Rightarrow> u32 \<Rightarrow> (nat \<Rightarrow> u32) \<Rightarrow> kstate \<Rightarrow> kstate" where
  "create_stacks pid f arg stack_size kernel_stack user_stack iret junk s =
     (let nb_elem_u = stack_size div 4;
          s = upd_proc pid (\<lambda>c. c\<lparr>p_kstack_len := NB_ELEM_K, p_kstack := junk(
              NB_ELEM_K - 1 := 0x4b,
              NB_ELEM_K - 2 := user_stack + 4 * (nb_elem_u - 2),
              NB_ELEM_K - 3 := 0x202,
              NB_ELEM_K - 4 := 0x43,
              NB_ELEM_K - 5 := f,
              NB_ELEM_K - 6 := iret,
              NB_ELEM_K - 8 := kernel_stack + 4 * (of_nat NB_ELEM_K - 7))\<rparr>) s
      in s\<lparr>umem := (umem s)(user_stack + 4 * (nb_elem_u - 1) := arg, user_stack + 4 * (nb_elem_u - 2) := adExit s)\<rparr>)"

definition context_create_user ::
  "entries \<Rightarrow> fresh \<Rightarrow> u32 \<Rightarrow> u32 \<Rightarrow> int \<Rightarrow> string \<Rightarrow> u32 \<Rightarrow> kstate \<Rightarrow> (int \<times> kstate) option" where
  "context_create_user en fr f stack_size prio name arg s =
     (case free_pid s of
        None \<Rightarrow> Some (-1, s)
      | Some pid \<Rightarrow> do {
          let (kernel_stack, s) = mem_alloc s;
          let (user_stack, s) = mem_alloc s;
          if kernel_stack = 0 \<or> user_stack = 0 then Some (-1, s)
          else do {
            let (children, s) = kl_new s;
            let s = create_fields pid kernel_stack user_stack stack_size prio children s;
            if children = None then Some (-1, s)
            else do {
              s \<leftarrow> create_signals pid name s;
              s \<leftarrow> create_files (junk_node fr) pid s;
              s \<leftarrow> attach_child pid s;
              let s = create_stacks pid f arg stack_size kernel_stack user_stack (ad_iret en) (junk_stack fr) s;
              let s = upd_proc pid (\<lambda>c. c\<lparr>p_valide := 1\<rparr>) s;
              (_, s) \<leftarrow> wakeup_process pid s;
              Some (pid, s) } } })"

text \<open>
  The deprecated creation of a kernel process. \<open>f\<close> and \<open>name\<close> may be null; \<open>stack_size\<close> counts longs, and the code
  stores it as it stands in \<^verbatim>\<open>kernel_stack_size\<close>. A stack of fewer than 9 longs does not hold what is stored.
\<close>

definition context_create_kernel ::
  "entries \<Rightarrow> fresh \<Rightarrow> u32 \<Rightarrow> u32 \<Rightarrow> int \<Rightarrow> string option \<Rightarrow> u32 \<Rightarrow> kstate \<Rightarrow> (int \<times> kstate) option" where
  "context_create_kernel en fr f stack_size prio name arg s =
     (case name of None \<Rightarrow> Some (-1, s) | Some name \<Rightarrow>
      if f = 0 \<or> prio < 0 then Some (-1, s)
      else case free_pid s of
        None \<Rightarrow> Some (-1, s)
      | Some pid \<Rightarrow> do {
          let (kernel_stack, s) = mem_alloc s;
          if kernel_stack = 0 then Some (-1, s)
          else do {
            let (children, s) = kl_new s;
            let s = upd_proc pid (\<lambda>c. c\<lparr>
              p_esp_kernel := kernel_stack + 4 * (stack_size - 11), p_pid := pid, p_state := STATE_ACTIVABLE,
              p_priority := prio, p_kernel_stack_size := stack_size, p_kernel_stack := kernel_stack,
              p_pid_parent := pid_cour s, p_valide := 1, p_killed := 0, p_children := children\<rparr>) s;
            let (a, s) = mem_alloc s;
            assert_that (a \<noteq> 0);
            let s = upd_proc pid (\<lambda>c. c\<lparr>p_name := name, p_working_dir := None, p_file_desc := (p_file_desc c)
              [0 := (p_file_desc c ! 0)\<lparr>f_present := 1, f_node := None\<rparr>,
               1 := (p_file_desc c ! 1)\<lparr>f_present := 1, f_node := None\<rparr>]\<rparr>) s;
            s \<leftarrow> attach_child pid s;
            assert_that (9 \<le> stack_size);
            let n = unat stack_size;
            let s = upd_proc pid (\<lambda>c. c\<lparr>p_kstack_len := n, p_kstack := (junk_stack fr)(
              n - 1 := arg, n - 2 := ad_exit_kernel en, n - 3 := f, n - 9 := kernel_stack + 4 * (stack_size - 4))\<rparr>) s;
            (_, s) \<leftarrow> wakeup_process pid s;
            Some (pid, s) } })"

definition start ::
  "entries \<Rightarrow> fresh \<Rightarrow> u32 \<Rightarrow> u32 \<Rightarrow> int \<Rightarrow> string \<Rightarrow> u32 \<Rightarrow> kstate \<Rightarrow> (int \<times> kstate) option" where
  "start en fr ptfunc ssize prio name arg s = do {
     let ptfunc = check_pointer ptfunc SYSCALL_START s;
     if ssize > 0xffffffe7 then Some (-1, s)
     else do {
       let ssize = ssize + 3 * 4;
       (ret, s) \<leftarrow> context_create_user en fr ptfunc ssize prio name arg s;
       s \<leftarrow> (if ret > 0 then scheduler s else Some s);
       Some (ret, s) } }"

section \<open>Starting the kernel\<close>

text \<open>Bytes of the user memory, in the words of \<open>umem\<close>.\<close>

definition store_byte :: "u32 \<Rightarrow> u8 \<Rightarrow> (u32 \<Rightarrow> u32) \<Rightarrow> u32 \<Rightarrow> u32" where
  "store_byte a b m =
     (let w = a AND NOT 3; k = 8 * unat (a AND 3)
      in m(w := (m w AND NOT (push_bit k 0xff)) OR push_bit k (ucast b)))"

fun store_bytes :: "u32 \<Rightarrow> u8 list \<Rightarrow> (u32 \<Rightarrow> u32) \<Rightarrow> u32 \<Rightarrow> u32" where
  "store_bytes a [] m = m"
| "store_bytes a (b # bs) m = store_bytes (a + 1) bs (store_byte a b m)"

definition SYSCALL_EXIT :: int where "SYSCALL_EXIT = 0x21"
definition SYSCALL_SIG_RETURN :: int where "SYSCALL_SIG_RETURN = 0x08"

text \<open>\<^verbatim>\<open>mov %eax, %ebx; mov $code, %eax; int $0x31\<close>\<close>

definition syscall_stub :: "u8 \<Rightarrow> u8 list" where
  "syscall_stub code = [0x89, 0xc3, 0xb8, code, 0, 0, 0, 0xcd, 0x31]"

definition context_init :: "entries \<Rightarrow> fresh \<Rightarrow> kstate \<Rightarrow> kstate option" where
  "context_init en fr s = do {
     let s = s\<lparr>tab_proc := (\<lambda>p. if in_tab p then (tab_proc s p)\<lparr>p_valide := 0\<rparr> else tab_proc s p)\<rparr>;
     c \<leftarrow> fill_interrupt 32 (of_nat KERNEL_CS) (ad_int32 en) 0 (cpu s);
     let s = s\<lparr>cpu := c\<rparr>;
     let (children, s) = kl_new s;
     let s = s\<lparr>kernel_context := (kernel_context s)\<lparr>p_state := STATE_ACTIVE, p_killed := 0, p_children := children,
           p_valide := 1, p_pid := 0, p_pid_parent := 0, p_pid_wait := 0\<rparr>, pid_cour := 0\<rparr>;
     let (a, s) = mem_alloc s;
     assert_that (a \<noteq> 0);
     let s = s\<lparr>adExit := a, umem := store_bytes a (syscall_stub (word_of_int SYSCALL_EXIT)) (umem s)\<rparr>;
     let (a, s) = mem_alloc s;
     assert_that (a \<noteq> 0);
     let s = s\<lparr>adSigReturn := a, umem := store_bytes a (syscall_stub (word_of_int SYSCALL_SIG_RETURN)) (umem s)\<rparr>;
     let (a, s) = mem_alloc s;
     assert_that (a \<noteq> 0);
     let s = s\<lparr>ad_sig_default := a, umem := store_bytes a [0xc3] (umem s)\<rparr>;
     (_, s) \<leftarrow> context_create_user en fr 0x1000000 STACK_SIZE 3 ''Init'' 0 s;
     Some s }"

definition context_print_state :: "proc_state \<Rightarrow> string" where
  "context_print_state state = state_name state"

definition setup_pic :: "kstate \<Rightarrow> kstate" where
  "setup_pic s = fold (\<lambda>(v, port). outb v port)
     [(0x11, 0x20), (0x20, 0x21), (0x4, 0x21), (0x1, 0x21),
      (0x11, 0xa0), (0x28, 0xa1), (0x2, 0xa1), (0x1, 0xa1),
      (0x20, 0x20), (0x20, 0xa0),
      (0xff, 0x21), (0xff, 0xa1)] s"

text \<open>\<open>setup_pgtab\<close>, which builds the page tables, is assembly code.\<close>

definition cpu_init :: "layout \<Rightarrow> (kstate \<Rightarrow> kstate) \<Rightarrow> kstate \<Rightarrow> kstate" where
  "cpu_init a setup_pgtab s = setup_pgtab (setup_pic (s\<lparr>cpu := setup_tss a (setup_idt a (setup_gdt a (cpu s)))\<rparr>))"

text \<open>\<^verbatim>\<open>kernel_start\<close> up to its endless loop; \<open>imr1\<close> and \<open>imr2\<close> are what the interrupt controller answers.\<close>

definition kernel_start :: "entries \<Rightarrow> fresh \<Rightarrow> u8 \<Rightarrow> u8 \<Rightarrow> kstate \<Rightarrow> kstate option" where
  "kernel_start en fr imr1 imr2 s = do {
     c \<leftarrow> fill_interrupt 49 (of_nat KERNEL_CS) (ad_int49 en) 3 (cpu s);
     c \<leftarrow> fill_interrupt 0x0d (of_nat KERNEL_CS) (ad_pfault en) 0 c;
     c \<leftarrow> fill_interrupt 0x0e (of_nat KERNEL_CS) (ad_pfault en) 0 c;
     let s = s\<lparr>cpu := c\<rparr>;
     s \<leftarrow> console_init (ad_int33 en) imr1 (junk_screen fr) s;
     s \<leftarrow> sem_init s;
     s \<leftarrow> vfs_init s;
     s \<leftarrow> context_init en fr s;
     timer_init imr2 s }"

definition handle_pfault :: "kstate \<Rightarrow> kstate option" where
  "handle_pfault s = do {
     (_, s) \<leftarrow> kill (getpid s) s;
     scheduler s }"

section \<open>A new process\<close>

text \<open>\<open>only_proc p s t\<close>: of what the invariants look at, only the descriptor \<open>p\<close> may have changed, and not whether it is in use.\<close>

definition only_proc :: "int \<Rightarrow> kstate \<Rightarrow> kstate \<Rightarrow> bool" where
  "only_proc p s t \<longleftrightarrow> k_links t = k_links s \<and> pid_cour t = pid_cour s \<and> semaphores t = semaphores s \<and> sid_libres t = sid_libres s \<and>
     kernel_context t = kernel_context s \<and> (\<forall>q. q \<noteq> p \<longrightarrow> tab_proc t q = tab_proc s q) \<and> p_valide (tab_proc t p) = p_valide (tab_proc s p)"

text \<open>What the first steps of the creation give the new process, which the later ones keep.\<close>

definition born :: "int \<Rightarrow> int \<Rightarrow> int \<Rightarrow> pcontext \<Rightarrow> bool" where
  "born p prio father c \<longleftrightarrow> p_pid c = p \<and> p_priority c = prio \<and> p_pid_parent c = father \<and> p_children c = Some [] \<and>
     p_state c = STATE_ACTIVABLE"

lemma only_proc_trans: "only_proc p s t \<Longrightarrow> only_proc p t u \<Longrightarrow> only_proc p s u"
  by (simp add: only_proc_def)

lemma only_proc_refl: "only_proc p s s"
  by (simp add: only_proc_def)

lemma only_proc_allocs [simp]: "only_proc p s (s\<lparr>allocs := as\<rparr>)"
  by (simp add: only_proc_def)

lemma only_proc_upd: "(\<And>c. p_valide (f c) = p_valide c) \<Longrightarrow> only_proc p s (upd_proc p f s)"
  by (simp add: only_proc_def)

lemma only_proc_node [simp]: "only_proc p s (upd_node np f s)"
  by (simp add: only_proc_def upd_node_def)

lemma mem_alloc_usable:
  assumes "usable_blocks (Suc n) s"
  obtains a as where "mem_alloc s = (a, s\<lparr>allocs := as\<rparr>)" "a \<noteq> 0" "\<And>t. allocs t = as \<Longrightarrow> usable_blocks n t"
proof -
  obtain a as where a: "allocs s = a # as" "a \<noteq> 0" "\<And>t. allocs t = as \<Longrightarrow> usable_blocks n t"
    using usable_blocks_Suc [OF assms] by blast
  then show ?thesis by (intro that [of a as]) (simp_all add: mem_alloc_def)
qed

lemma kl_new_usable:
  assumes "usable_blocks (Suc n) s"
  obtains as where "kl_new s = (Some [], s\<lparr>allocs := as\<rparr>)" "\<And>t. allocs t = as \<Longrightarrow> usable_blocks n t"
  using assms by (rule mem_alloc_usable) (auto simp: kl_new_def)

lemma create_signals_ok:
  assumes "usable_blocks (Suc (Suc n)) s" and "born p prio father (tab_proc s p)"
  obtains t where "create_signals p name s = Some t" "only_proc p s t" "usable_blocks n t" "fs_nodes t = fs_nodes s"
    "rootfs_present t = rootfs_present s" "born p prio father (tab_proc t p)" "p_sigs (tab_proc t p) = Some []"
    "p_name (tab_proc t p) = name"
proof -
  obtain as where kl: "kl_new s = (Some [], s\<lparr>allocs := as\<rparr>)" "\<And>t. allocs t = as \<Longrightarrow> usable_blocks (Suc n) t"
    using assms(1) by (rule kl_new_usable) blast
  let ?u = "upd_proc p (\<lambda>c. c\<lparr>p_sigmap := replicate (nat NBSIG) (ad_sig_default (s\<lparr>allocs := as\<rparr>)), p_sigs := Some [], p_cur_sig := 0\<rparr>) (s\<lparr>allocs := as\<rparr>)"
  have "usable_blocks (Suc n) ?u" by (rule kl(2)) simp
  then obtain a bs where al: "mem_alloc ?u = (a, ?u\<lparr>allocs := bs\<rparr>)" "a \<noteq> 0" "\<And>t. allocs t = bs \<Longrightarrow> usable_blocks n t"
    by (rule mem_alloc_usable) blast
  let ?t = "upd_proc p (\<lambda>c. c\<lparr>p_name := name\<rparr>) (?u\<lparr>allocs := bs\<rparr>)"
  have "create_signals p name s = Some ?t" using kl(1) al(1,2) by (simp add: create_signals_def)
  moreover have "only_proc p s ?t"
    by (rule only_proc_trans [OF only_proc_allocs only_proc_trans [OF only_proc_upd only_proc_trans [OF only_proc_allocs only_proc_upd]]]) simp_all
  moreover have "usable_blocks n ?t" by (rule al(3)) simp
  ultimately show ?thesis by (rule that) (use assms(2) in \<open>simp_all add: born_def\<close>)
qed

lemma new_node_ok:
  assumes "usable_blocks (Suc n) s"
  obtains t where "new_node np nd s = Some (np, t)" "only_proc p s t" "usable_blocks n t" "tab_proc t = tab_proc s"
  using assms
proof (rule mem_alloc_usable)
  fix a as assume al: "mem_alloc s = (a, s\<lparr>allocs := as\<rparr>)" "a \<noteq> 0" "\<And>t. allocs t = as \<Longrightarrow> usable_blocks n t"
  let ?t = "upd_node np (\<lambda>_. nd) (s\<lparr>allocs := as\<rparr>)"
  have "new_node np nd s = Some (np, ?t)" using al by (simp add: new_node_def)
  moreover have "only_proc p s ?t" by (rule only_proc_trans [OF only_proc_allocs only_proc_node])
  moreover have "usable_blocks n ?t" by (rule al(3)) (simp add: upd_node_def)
  ultimately show thesis by (rule that) (simp add: upd_node_def)
qed

text \<open>One of the nodes of a process: allocated, then stored in a field of the descriptor.\<close>

lemma node_step:
  assumes "usable_blocks (Suc n) s" and "\<And>c. p_valide (g c) = p_valide c"
  obtains t where "new_node np nd s = Some (np, t)" "only_proc p s (upd_proc p g t)" "usable_blocks n (upd_proc p g t)"
    "tab_proc (upd_proc p g t) p = g (tab_proc s p)"
proof -
  obtain t where t: "new_node np nd s = Some (np, t)" "only_proc p s t" "usable_blocks n t" "tab_proc t = tab_proc s"
    using assms(1) by (rule new_node_ok)
  have "only_proc p s (upd_proc p g t)" by (rule only_proc_trans [OF t(2) only_proc_upd]) (rule assms(2))
  moreover have "usable_blocks n (upd_proc p g t)" using t(3) by (simp add: usable_blocks_def)
  ultimately show ?thesis using t by (intro that [of t]) simp_all
qed

definition files_ok :: "kstate \<Rightarrow> bool" where
  "files_ok s \<longleftrightarrow> vfs_ready s \<and> (pid_cour s \<noteq> 0 \<longrightarrow> fd_ok 1 s)"

lemma vfs_ready_cong: "fs_nodes t = fs_nodes s \<Longrightarrow> rootfs_present t = rootfs_present s \<Longrightarrow> vfs_ready t = vfs_ready s"
  by (simp add: vfs_ready_def tree_entry_def console_entry_def)

lemma kbd_resolves: "vfs_ready s \<Longrightarrow> \<exists>r. vfs_path_resolution ''/dev/kbd'' s = Some r"
proof -
  assume rdy: "vfs_ready s"
  have "n_type (fs_nodes s (RootfsNode 8)) = FS_DIR" "n_finddir (fs_nodes s (RootfsNode 8)) = Some Rootfs_finddir"
    using vfs_ready_dir [OF rdy, of 8 0 "''dev''"] by (simp_all add: rootfs_tree_def tree_finddir_def)
  then have "finddir_fs (RootfsNode 8) ''kbd'' s = Some (rootfs_finddir (RootfsNode 8) ''kbd'' s)" by (simp add: finddir_fs_def)
  then have "\<exists>r. walk vfs_root [''dev'', ''kbd''] s = Some r"
    using tree_steps [OF rdy] by (cases "rootfs_finddir (RootfsNode 8) ''kbd'' s") (simp_all add: vfs_root_def)
  then show ?thesis using absolute_path_walk [of "[''dev'', ''kbd'']" s] by (simp add: file_name_def FS_NAME_MAX_def)
qed

lemma stdout_resolves:
  assumes "files_ok s"
  shows "\<exists>out. (if pid_cour s = 0 then vfs_path_resolution ''/dev/vc/0'' s else map_option f_node (cur_fd 1 s)) = Some out"
proof (cases "pid_cour s = 0")
  case True
  have d: "decimal 0 = ''0''" by (simp add: num_str.simps dig_def)
  have "walk vfs_root [''dev'', ''vc'', ''0''] s = Some (Some (VcNode 0))"
    using walk_vc [of s 0] assms by (simp add: files_ok_def d)
  then show ?thesis
    using absolute_path_walk [of "[''dev'', ''vc'', ''0'']" s] True by (simp add: file_name_def FS_NAME_MAX_def)
next
  case False
  with assms show ?thesis using cur_fd_ok [of 1 s] by (auto simp: files_ok_def)
qed

lemma create_files_ok:
  assumes "usable_blocks (Suc (Suc (Suc (Suc n)))) s" and "files_ok s" and "born p prio father (tab_proc s p)" and "in_tab p"
  obtains t where "create_files junk p s = Some t" "only_proc p s t" "usable_blocks n t" "born p prio father (tab_proc t p)"
    "p_sigs (tab_proc t p) = p_sigs (tab_proc s p)" "p_name (tab_proc t p) = p_name (tab_proc s p)"
    "p_working_dir (tab_proc t p) = Some vfs_root"
proof -
  obtain r where kbd: "vfs_path_resolution ''/dev/kbd'' s = Some r" using kbd_resolves assms(2) by (auto simp: files_ok_def)
  obtain out where out: "(if pid_cour s = 0 then vfs_path_resolution ''/dev/vc/0'' s else map_option f_node (cur_fd 1 s)) = Some out"
    using stdout_resolves [OF assms(2)] by blast
  let ?s = "upd_proc p (\<lambda>c. c\<lparr>p_file_desc := fds_init out (p_file_desc c), p_working_dir := Some vfs_root\<rparr>) s"
  obtain m where m: "p = int m" "m < 2 ^ 31" using in_tab_nat [OF assms(4)] by blast
  then have dec: "doprnt ''%d'' [AInt (word_of_int p)] 0 = Some (decimal m)" using doprnt_decimal [of m] by simp
  have b0: "usable_blocks (Suc (Suc (Suc (Suc n)))) ?s" using assms(1) by (simp add: usable_blocks_def)
  obtain t1 where t1: "new_node (ProcfsNode p) (junk\<lparr>n_name := take FS_NAME_MAX (decimal m), n_type := FS_DIR, n_inode := 200 + p,
          n_readdir := Some Procfs_sub_readdir, n_finddir := Some Procfs_sub_finddir\<rparr>) ?s = Some (ProcfsNode p, t1)"
    "only_proc p ?s (upd_proc p (\<lambda>c. c\<lparr>p_procfs_node := Some (ProcfsNode p)\<rparr>) t1)"
    "usable_blocks (Suc (Suc (Suc n))) (upd_proc p (\<lambda>c. c\<lparr>p_procfs_node := Some (ProcfsNode p)\<rparr>) t1)"
    "tab_proc (upd_proc p (\<lambda>c. c\<lparr>p_procfs_node := Some (ProcfsNode p)\<rparr>) t1) p = (tab_proc ?s p)\<lparr>p_procfs_node := Some (ProcfsNode p)\<rparr>"
    
    by (rule node_step [OF b0, where g = "\<lambda>c. c\<lparr>p_procfs_node := Some (ProcfsNode p)\<rparr>" and np = "ProcfsNode p" and nd = "junk\<lparr>n_name := take FS_NAME_MAX (decimal m), n_type := FS_DIR, n_inode := 200 + p, n_readdir := Some Procfs_sub_readdir, n_finddir := Some Procfs_sub_finddir\<rparr>" and p = p]) (simp, rule that)
  let ?s1 = "upd_proc p (\<lambda>c. c\<lparr>p_procfs_node := Some (ProcfsNode p)\<rparr>) t1"
  obtain t2 where t2: "procfs_new_state_node junk p ?s1 = Some (ProcStateNode p, t2)"
    "only_proc p ?s1 (upd_proc p (\<lambda>c. c\<lparr>p_vfs_state_node := Some (ProcStateNode p)\<rparr>) t2)"
    "usable_blocks (Suc (Suc n)) (upd_proc p (\<lambda>c. c\<lparr>p_vfs_state_node := Some (ProcStateNode p)\<rparr>) t2)"
    "tab_proc (upd_proc p (\<lambda>c. c\<lparr>p_vfs_state_node := Some (ProcStateNode p)\<rparr>) t2) p = (tab_proc ?s1 p)\<lparr>p_vfs_state_node := Some (ProcStateNode p)\<rparr>"
    unfolding procfs_new_state_node_def 
    by (rule node_step [OF t1(3), where g = "\<lambda>c. c\<lparr>p_vfs_state_node := Some (ProcStateNode p)\<rparr>" and np = "ProcStateNode p" and nd = "junk\<lparr>n_name := ''state'', n_type := FS_FILE, n_inode := 1200 + p, n_read := Some Procfs_state_read\<rparr>" and p = p]) (simp, blast)
  let ?s2 = "upd_proc p (\<lambda>c. c\<lparr>p_vfs_state_node := Some (ProcStateNode p)\<rparr>) t2"
  obtain t3 where t3: "procfs_new_parent_node junk p ?s2 = Some (ProcParentNode p, t3)"
    "only_proc p ?s2 (upd_proc p (\<lambda>c. c\<lparr>p_vfs_parent_node := Some (ProcParentNode p)\<rparr>) t3)"
    "usable_blocks (Suc n) (upd_proc p (\<lambda>c. c\<lparr>p_vfs_parent_node := Some (ProcParentNode p)\<rparr>) t3)"
    "tab_proc (upd_proc p (\<lambda>c. c\<lparr>p_vfs_parent_node := Some (ProcParentNode p)\<rparr>) t3) p = (tab_proc ?s2 p)\<lparr>p_vfs_parent_node := Some (ProcParentNode p)\<rparr>"
    unfolding procfs_new_parent_node_def 
    by (rule node_step [OF t2(3), where g = "\<lambda>c. c\<lparr>p_vfs_parent_node := Some (ProcParentNode p)\<rparr>" and np = "ProcParentNode p" and nd = "junk\<lparr>n_name := ''parent'', n_type := FS_FILE, n_inode := 2200 + p, n_read := Some Procfs_parent_read\<rparr>" and p = p]) (simp, blast)
  let ?s3 = "upd_proc p (\<lambda>c. c\<lparr>p_vfs_parent_node := Some (ProcParentNode p)\<rparr>) t3"
  obtain t4 where t4: "procfs_new_name_node junk p ?s3 = Some (ProcNameNode p, t4)"
    "only_proc p ?s3 (upd_proc p (\<lambda>c. c\<lparr>p_vfs_name_node := Some (ProcNameNode p)\<rparr>) t4)"
    "usable_blocks n (upd_proc p (\<lambda>c. c\<lparr>p_vfs_name_node := Some (ProcNameNode p)\<rparr>) t4)"
    "tab_proc (upd_proc p (\<lambda>c. c\<lparr>p_vfs_name_node := Some (ProcNameNode p)\<rparr>) t4) p = (tab_proc ?s3 p)\<lparr>p_vfs_name_node := Some (ProcNameNode p)\<rparr>"
    unfolding procfs_new_name_node_def 
    by (rule node_step [OF t3(3), where g = "\<lambda>c. c\<lparr>p_vfs_name_node := Some (ProcNameNode p)\<rparr>" and np = "ProcNameNode p" and nd = "junk\<lparr>n_name := ''name'', n_type := FS_FILE, n_inode := 3200 + p, n_read := Some Procfs_name_read\<rparr>" and p = p]) (simp, blast)
  let ?t = "upd_proc p (\<lambda>c. c\<lparr>p_vfs_name_node := Some (ProcNameNode p)\<rparr>) t4"
  have "create_files junk p s = Some ?t"
    unfolding create_files_def procfs_new_node_def kbd out dec bind.bind_lunit Let_def using t1(1) t2(1) t3(1) t4(1) by simp
  moreover have "only_proc p s ?s" by (rule only_proc_upd) simp
  then have "only_proc p s ?t" using t1(2) t2(2) t3(2) t4(2) by (meson only_proc_trans)
  moreover have "tab_proc ?t p = (tab_proc ?s p)\<lparr>p_procfs_node := Some (ProcfsNode p), p_vfs_state_node := Some (ProcStateNode p),
      p_vfs_parent_node := Some (ProcParentNode p), p_vfs_name_node := Some (ProcNameNode p)\<rparr>"
    unfolding t4(4) t3(4) t2(4) t1(4) by simp
  ultimately show ?thesis using t4(3) assms(3) by (intro that [of ?t]) (simp_all only: born_def, simp_all)
qed

lemma attach_child_ok:
  assumes "usable_blocks (Suc n) s" and "pid_cour s = q" and "q = 0 \<or> in_tab q"
    and "p_children (if q = 0 then kernel_context s else tab_proc s q) = Some l" and "0 \<le> p"
  obtains t where "attach_child p s = Some t" "k_links t = k_links s" "pid_cour t = q" "semaphores t = semaphores s"
    "sid_libres t = sid_libres s" "tab_proc t = (if q = 0 then tab_proc s else (tab_proc s)(q := (tab_proc s q)\<lparr>p_children := Some (p # l)\<rparr>))"
proof -
  obtain a as where al: "mem_alloc s = (a, s\<lparr>allocs := as\<rparr>)" "a \<noteq> 0" using assms(1) by (rule mem_alloc_usable)
  let ?s = "s\<lparr>allocs := as\<rparr>"
  let ?t = "if q = 0 then ?s\<lparr>kernel_context := (kernel_context s)\<lparr>p_children := Some (p # l)\<rparr>\<rparr>
    else upd_proc q (\<lambda>c. c\<lparr>p_children := Some (p # l)\<rparr>) ?s"
  have "attach_child p s = Some ?t"
    using al assms(2-5) by (cases "q = 0") (simp_all add: attach_child_def kl_put_first_def)
  then show ?thesis by (rule that) (use assms(2) in \<open>auto simp: fun_eq_iff\<close>)
qed

text \<open>
  The state before the new process enters the ready queue: \<open>p\<close> was not in use and is now, with the fields a new process has,
  the running process \<open>q\<close>, if it is not the kernel, has it as its first child, and nothing else has changed.
\<close>

definition created :: "int \<Rightarrow> int \<Rightarrow> int \<Rightarrow> kstate \<Rightarrow> kstate \<Rightarrow> bool" where
  "created p q prio s t \<longleftrightarrow> k_links t = k_links s \<and> pid_cour t = pid_cour s \<and> semaphores t = semaphores s \<and> sid_libres t = sid_libres s \<and>
     (\<forall>r. r \<noteq> p \<longrightarrow> r \<noteq> q \<or> q = 0 \<longrightarrow> tab_proc t r = tab_proc s r) \<and>
     (q \<noteq> 0 \<longrightarrow> tab_proc t q = (tab_proc s q)\<lparr>p_children := map_option ((#) p) (p_children (tab_proc s q))\<rparr>) \<and>
     p_valide (tab_proc t p) = 1 \<and> born p prio q (tab_proc t p) \<and> p_sigs (tab_proc t p) = Some []"

lemma created_valid:
  assumes "created p q prio s t" and "p \<noteq> q" and "in_tab p" and "\<not> valid_proc s p"
  shows "valid_proc t r \<longleftrightarrow> valid_proc s r \<or> r = p"
    "r \<noteq> p \<Longrightarrow> p_state (tab_proc t r) = p_state (tab_proc s r)" "r \<noteq> p \<Longrightarrow> p_pid (tab_proc t r) = p_pid (tab_proc s r)"
    "r \<noteq> p \<Longrightarrow> p_sigs (tab_proc t r) = p_sigs (tab_proc s r)" "r \<noteq> p \<Longrightarrow> prio_of t r = prio_of s r"
    "r \<noteq> p \<Longrightarrow> p_sid_wait (tab_proc t r) = p_sid_wait (tab_proc s r)"
    "r \<noteq> p \<Longrightarrow> p_pid_parent (tab_proc t r) = p_pid_parent (tab_proc s r)"
proof -
  have t: "r \<noteq> p \<Longrightarrow> tab_proc t r = tab_proc s r \<or> tab_proc t r = (tab_proc s r)\<lparr>p_children := map_option ((#) p) (p_children (tab_proc s q))\<rparr>"
    using assms(1) by (cases "r = q \<and> q \<noteq> 0") (auto simp: created_def)
  then show "r \<noteq> p \<Longrightarrow> p_state (tab_proc t r) = p_state (tab_proc s r)" "r \<noteq> p \<Longrightarrow> p_pid (tab_proc t r) = p_pid (tab_proc s r)"
    "r \<noteq> p \<Longrightarrow> p_sigs (tab_proc t r) = p_sigs (tab_proc s r)" "r \<noteq> p \<Longrightarrow> prio_of t r = prio_of s r"
    "r \<noteq> p \<Longrightarrow> p_sid_wait (tab_proc t r) = p_sid_wait (tab_proc s r)"
    "r \<noteq> p \<Longrightarrow> p_pid_parent (tab_proc t r) = p_pid_parent (tab_proc s r)"
    by (auto simp: prio_of_def)
  show "valid_proc t r \<longleftrightarrow> valid_proc s r \<or> r = p"
  proof (cases "r = p")
    case True
    then show ?thesis using assms by (simp add: valid_proc_def created_def)
  next
    case False
    then show ?thesis using t by (auto simp: valid_proc_def)
  qed
qed

lemma wakeup_created:
  assumes "kinv s" and cr: "created p q prio s t" and pq: "p \<noteq> q" and p: "in_tab p" "\<not> valid_proc s p" and q: "pid_cour s = q" "q = 0 \<or> valid_proc s q"
  obtains s' where "wakeup_process p t = Some (p, s')" "kinv s'" "activable s' = insert p (activable s)" "tab_proc s' = tab_proc t"
    "pid_cour s' = pid_cour t"
proof -
  have inv: "sched_inv s" "no_sigs s" "sem_inv s" using assms(1) by (simp_all add: kinv_def)
  note cv = created_valid [OF cr pq p]
  obtain xs where rdy: "ready s xs" using inv(1) by (rule sched_inv_ready)
  have pxs: "p \<notin> set xs" using rdy p(2) by (auto simp: ready_def activable_def)
  have m: "map (prio_of t) xs = map (prio_of s) xs" using pxs cv(5) by (metis map_eq_conv)
  have rep: "queue_rep (prio_of t) 0 (k_links t) xs"
    unfolding queue_rep_def m using rdy cr by (simp add: ready_def queue_rep_def created_def)
  obtain L where L: "wakeup_process p t = Some (p, (make_activable p t)\<lparr>k_links := L\<rparr>)"
    "queue_rep (prio_of t) 0 L (prio_insert (prio_of t) p xs)"
    using wakeup_process_queue [OF rep _ pxs] cv(1) by blast
  let ?s' = "(make_activable p t)\<lparr>k_links := L\<rparr>"
  have st: "p_state (tab_proc t p) = STATE_ACTIVABLE" "p_pid (tab_proc t p) = p" "p_sigs (tab_proc t p) = Some []"
    using cr by (simp_all add: created_def born_def)
  have tab: "tab_proc ?s' = tab_proc t" using st(1) by (auto simp: fun_eq_iff)
  have vld: "valid_proc ?s' = valid_proc t" unfolding valid_proc_def fun_eq_iff tab by simp
  have act: "activable ?s' = insert p (activable s)"
  proof -
    have "x \<in> activable ?s' \<longleftrightarrow> x \<in> insert p (activable s)" for x
      unfolding activable_def vld tab using cv(1,2) [of x] st(1) by (cases "x = p") simp_all
    then show ?thesis by blast
  qed
  have "ready ?s' (prio_insert (prio_of t) p xs)"
    using L(2) rdy unfolding ready_def act by (simp add: set_prio_insert)
  then have "sched_inv ?s'"
  proof (rule sched_invI)
    show "pid_cour ?s' = 0 \<or> valid_proc ?s' (pid_cour ?s')" unfolding vld using q cr cv(1) by (auto simp: created_def)
  next
    fix r assume "valid_proc ?s' r"
    then show "p_pid (tab_proc ?s' r) = r"
      unfolding vld tab using cv(1,3) [of r] st(2) sched_invD(2) [OF inv(1), of r] by (cases "r = p") simp_all
  next
    fix r assume "valid_proc ?s' r" "r \<noteq> pid_cour ?s'"
    then show "p_state (tab_proc ?s' r) \<noteq> STATE_ACTIVE"
      unfolding vld tab using cv(1,2) [of r] st(1) sched_invD(3) [OF inv(1), of r] cr by (cases "r = p") (simp_all add: created_def)
  qed
  moreover have "no_sigs ?s'"
    unfolding no_sigs_def vld tab using cv(1,4) st(3) inv(2) by (metis no_sigs_def)
  moreover have "blocked_on ?s' i = blocked_on s i" for i
  proof -
    have "x \<in> blocked_on ?s' i \<longleftrightarrow> x \<in> blocked_on s i" for x
      unfolding blocked_on_def vld tab using cv(1,2,6) [of x] st(1) p(2) by (cases "x = p") simp_all
    then show ?thesis by blast
  qed
  then have "sem_inv ?s'" using inv(3) sem_inv_cong [of ?s' s] cr by (simp add: created_def fun_eq_iff)
  ultimately show ?thesis using L(1) act tab by (intro that [of ?s']) (simp_all add: kinv_def)
qed

lemma live_pos: "live s q \<Longrightarrow> q \<noteq> 0"
  by (auto simp: live_def valid_proc_def in_tab_def)

lemma tree_inv_created:
  assumes tr: "tree_inv s" and cr: "created p q prio s t" and pq: "p \<noteq> q" and p: "in_tab p" "\<not> valid_proc s p" and q: "live s q"
    and tab: "tab_proc s' = tab_proc t"
  shows "tree_inv s'"
proof -
  note cv = created_valid [OF cr pq p]
  have bp: "p_state (tab_proc t p) = STATE_ACTIVABLE" "p_pid_parent (tab_proc t p) = q" "p_children (tab_proc t p) = Some []"
    using cr by (simp_all add: created_def born_def)
  have vld: "valid_proc s' r = valid_proc t r" for r by (simp add: valid_proc_def tab)
  have live: "live s' r \<longleftrightarrow> live s r \<or> r = p" for r
    using cv(1,2) [of r] bp(1) p(2) by (cases "r = p") (simp_all add: live_def vld tab)
  have no: "p_pid_parent (tab_proc s c) \<noteq> p" if "valid_proc s c" "p_state (tab_proc s c) \<noteq> STATE_DEAD" for c
    using tree_invD(4) [OF tr that] p by (auto simp: live_def in_tab_def)
  have kids: "kids s' r = (if r = q then insert p (kids s r) else if r = p then {} else kids s r)" for r
  proof -
    have "c \<in> kids s' r \<longleftrightarrow> c \<in> (if r = q then insert p (kids s r) else if r = p then {} else kids s r)" for c
      using cv(1,2,7) [of c] bp(1,2) no [of c] p(2) pq by (cases "c = p") (auto simp: kids_def vld tab)
    then show ?thesis by blast
  qed
  have "p \<notin> kids s q" using p(2) by (simp add: kids_def)
  have ch: "\<exists>cs. p_children (tab_proc s' r) = Some cs \<and> distinct cs \<and> set cs = kids s' r" if "live s' r" for r
  proof (cases "r = p")
    case True
    then show ?thesis using bp(3) kids pq by (simp add: tab)
  next
    case False
    then have "live s r" using live that by simp
    then obtain cs where cs: "p_children (tab_proc s r) = Some cs" "distinct cs" "set cs = kids s r" using tree_inv_children [OF tr] by metis
    then show ?thesis
      using False cr \<open>p \<notin> kids s q\<close> kids [of r] live_pos [OF q] by (cases "r = q") (auto simp: tab created_def)
  qed
  have one: "live s 1" "p_pid_parent (tab_proc s 1) = 0" using tree_invD(1,2) [OF tr] by simp_all
  have "1 \<noteq> p" using one(1) p(2) by (auto simp: live_def)
  have up: "p_pid_parent (tab_proc s' c) \<noteq> c \<and> (p_pid_parent (tab_proc s' c) = 0 \<or> live s' (p_pid_parent (tab_proc s' c)))"
    if "valid_proc s' c" "p_state (tab_proc s' c) \<noteq> STATE_DEAD" for c
  proof (cases "c = p")
    case True
    then show ?thesis using bp(2) pq q live by (auto simp: tab)
  next
    case False
    then have "valid_proc s c" "p_state (tab_proc s c) \<noteq> STATE_DEAD" using that cv(1,2) [of c] by (simp_all add: vld tab)
    then show ?thesis using tree_invD(3,4) [OF tr, of c] cv(7) [OF False] live by (auto simp: tab)
  qed
  show ?thesis
    unfolding tree_inv_def using live [of 1] one cv(7) [of 1] \<open>1 \<noteq> p\<close> ch up by (simp add: tab)
qed

lemma free_pid_ok: "free_pid s = Some p \<Longrightarrow> in_tab p \<and> \<not> valid_proc s p"
  by (auto simp: free_pid_def find_Some_iff valid_proc_def in_tab_def)

text \<open>The steps up to the ready queue succeed when the blocks they ask for are there.\<close>

lemma create_steps:
  assumes free: "free_pid s = Some p" and fl: "files_ok s" and q: "pid_cour s = q" "q = 0 \<or> valid_proc s q"
    and ch: "p_children (if q = 0 then kernel_context s else tab_proc s q) = Some l" and mem: "usable_blocks 10 s"
  obtains t where "created p q prio s t" "p_name (tab_proc t p) = name" "p_kstack (tab_proc t p) (NB_ELEM_K - 5) = f"
    "context_create_user en fr f ssize prio name arg s = do { (_, s) \<leftarrow> wakeup_process p t; Some (p, s) }"
proof -
  have p: "in_tab p" "\<not> valid_proc s p" using free_pid_ok [OF free] by simp_all
  have pq: "p \<noteq> q" "q = 0 \<or> in_tab q" using p q by (auto simp: valid_proc_def in_tab_def)
  obtain ks as1 where a1: "mem_alloc s = (ks, s\<lparr>allocs := as1\<rparr>)" "ks \<noteq> 0" "\<And>t. allocs t = as1 \<Longrightarrow> usable_blocks 9 t"
    using mem_alloc_usable [of 9 s] mem by (simp add: eval_nat_numeral) blast
  let ?s1 = "s\<lparr>allocs := as1\<rparr>"
  have "usable_blocks (Suc 8) ?s1" using a1(3) [of ?s1] by simp
  then obtain us as2 where a2: "mem_alloc ?s1 = (us, ?s1\<lparr>allocs := as2\<rparr>)" "us \<noteq> 0" "\<And>t. allocs t = as2 \<Longrightarrow> usable_blocks 8 t"
    using mem_alloc_usable [of 8 ?s1] by blast
  let ?s2 = "?s1\<lparr>allocs := as2\<rparr>"
  have "usable_blocks (Suc 7) ?s2" using a2(3) [of ?s2] by simp
  then obtain as3 where a3: "kl_new ?s2 = (Some [], ?s2\<lparr>allocs := as3\<rparr>)" "\<And>t. allocs t = as3 \<Longrightarrow> usable_blocks 7 t"
    using kl_new_usable [of 7 ?s2] by blast
  define s3 where "s3 = create_fields p ks us ssize prio (Some []) (s\<lparr>allocs := as3\<rparr>)"
  have s3: "usable_blocks (Suc (Suc 5)) s3" "born p prio q (tab_proc s3 p)" "only_proc p s s3" "fs_nodes s3 = fs_nodes s"
    "rootfs_present s3 = rootfs_present s"
    using a3(2) [of s3] q(1) by (simp_all add: s3_def create_fields_def born_def only_proc_def)
  obtain s4 where s4: "create_signals p name s3 = Some s4" "only_proc p s3 s4" "usable_blocks 5 s4" "fs_nodes s4 = fs_nodes s3"
    "rootfs_present s4 = rootfs_present s3" "born p prio q (tab_proc s4 p)" "p_sigs (tab_proc s4 p) = Some []"
    "p_name (tab_proc s4 p) = name"
    using s3(1,2) by (rule create_signals_ok)
  have o4: "only_proc p s s4" by (rule only_proc_trans [OF s3(3) s4(2)])
  then have "files_ok s4"
    using fl vfs_ready_cong [of s4 s] s3(4,5) s4(4,5) q(1) pq by (simp add: files_ok_def only_proc_def fd_ok_def)
  moreover have "usable_blocks (Suc (Suc (Suc (Suc 1)))) s4" using s4(3) by (simp add: eval_nat_numeral)
  ultimately obtain s5 where s5: "create_files (junk_node fr) p s4 = Some s5" "only_proc p s4 s5" "usable_blocks 1 s5"
    "born p prio q (tab_proc s5 p)" "p_sigs (tab_proc s5 p) = p_sigs (tab_proc s4 p)" "p_name (tab_proc s5 p) = p_name (tab_proc s4 p)"
    using s4(6) p(1) by (metis create_files_ok)
  have o5: "only_proc p s s5" by (rule only_proc_trans [OF o4 s5(2)])
  have "usable_blocks (Suc 0) s5" "pid_cour s5 = q" "p_children (if q = 0 then kernel_context s5 else tab_proc s5 q) = Some l" "0 \<le> p"
    using s5(3) o5 q(1) ch pq p(1) by (simp_all add: only_proc_def in_tab_def split: if_splits)
  then obtain s6 where s6: "attach_child p s5 = Some s6" "k_links s6 = k_links s5" "pid_cour s6 = q" "semaphores s6 = semaphores s5"
    "sid_libres s6 = sid_libres s5" "tab_proc s6 = (if q = 0 then tab_proc s5 else (tab_proc s5)(q := (tab_proc s5 q)\<lparr>p_children := Some (p # l)\<rparr>))"
    using attach_child_ok [of 0 s5 q l p] pq(2) by metis
  define t where "t = upd_proc p (\<lambda>c. c\<lparr>p_valide := 1\<rparr>) (create_stacks p f arg ssize ks us (ad_iret en) (junk_stack fr) s6)"
  have "context_create_user en fr f ssize prio name arg s = do { (_, s) \<leftarrow> wakeup_process p t; Some (p, s) }"
    unfolding context_create_user_def free t_def
    using a1(1,2) a2(1,2) a3(1) s4(1) s5(1) s6(1) by (simp add: s3_def [symmetric])
  moreover have "tab_proc s6 p = tab_proc s5 p" using s6(6) pq(1) by simp
  moreover have "created p q prio s t"
  proof (cases "q = 0")
    case True
    then have "tab_proc s6 = tab_proc s5" using s6(6) by simp
    then show ?thesis
      using o5 s5(4,5) s4(7) s6(2-5) pq(1) q(1) True unfolding created_def t_def only_proc_def born_def create_stacks_def by (simp add: Let_def)
  next
    case False
    then have "tab_proc s6 = (tab_proc s5)(q := (tab_proc s5 q)\<lparr>p_children := Some (p # l)\<rparr>)" "p_children (tab_proc s q) = Some l"
      using s6(6) ch by simp_all
    then show ?thesis
      using o5 s5(4,5) s4(7) s6(2-5) pq(1) q(1) False unfolding created_def t_def only_proc_def born_def create_stacks_def by (simp add: Let_def)
  qed
  ultimately show ?thesis
    using s5(6) s4(8) pq
    by (intro that [of t]) (simp_all add: t_def create_stacks_def Let_def NB_ELEM_K_def)
qed

lemma start_spec:
  assumes "kinv s" and "tree_inv s" and "files_ok s" and "live s (pid_cour s)" and "free_pid s = Some p"
    and "p_children (tab_proc s (pid_cour s)) = Some l" and "usable_blocks 10 s" and "ssize \<le> 0xffffffe7"
  obtains t u s' where "start en fr f ssize prio name arg s = Some (p, s')" "created p (pid_cour s) prio s t" "tab_proc u = tab_proc t"
    "p_name (tab_proc t p) = name" "p_kstack (tab_proc t p) (NB_ELEM_K - 5) = check_pointer f SYSCALL_START s" "tree_inv u"
    "kinv s'" "sched_post s'" "sched_frame u s'" "p \<noteq> pid_cour s" "in_tab p" "\<not> valid_proc s p"
proof -
  let ?q = "pid_cour s" and ?f = "check_pointer f SYSCALL_START s"
  have p: "in_tab p" "\<not> valid_proc s p" using free_pid_ok [OF assms(5)] by simp_all
  have q: "valid_proc s ?q" using assms(4) by (simp add: live_def)
  then have pq: "p \<noteq> ?q" using p by auto
  have ch: "p_children (if ?q = 0 then kernel_context s else tab_proc s ?q) = Some l" using assms(6) live_pos [OF assms(4)] by simp
  obtain t where t: "created p ?q prio s t" "p_name (tab_proc t p) = name" "p_kstack (tab_proc t p) (NB_ELEM_K - 5) = ?f"
    "context_create_user en fr ?f (ssize + 12) prio name arg s = do { (_, s) \<leftarrow> wakeup_process p t; Some (p, s) }"
    using create_steps [OF assms(5,3) refl disjI2 [OF q] ch assms(7)] by metis
  obtain u where u: "wakeup_process p t = Some (p, u)" "kinv u" "activable u = insert p (activable s)" "tab_proc u = tab_proc t"
    using wakeup_created [OF assms(1) t(1) pq p refl] q by blast
  have tree: "tree_inv u" by (rule tree_inv_created [OF assms(2) t(1) pq p assms(4) u(4)])
  obtain s' where s': "scheduler u = Some s'" "kinv s'" "sched_post s'" "sched_frame u s'" using u(2) by (rule scheduler_kinv)
  have "0 < p" using p(1) by (simp add: in_tab_def)
  moreover have "\<not> 0xffffffe7 < ssize" using assms(8) by (simp add: not_less)
  ultimately have "start en fr f ssize prio name arg s = Some (p, s')"
    using t(4) u(1) s'(1) by (simp add: start_def)
  then show ?thesis using t(1) u(4) t(2,3) tree s'(2-4) pq p by (rule that)
qed

text \<open>
  C7. \<^verbatim>\<open>start\<close>, called by a running process when a descriptor is free, the file system is set up and the caller has a file as its output (\<open>files_ok\<close>),
  the ten blocks that it allocates are there and the stack size is at most 0xffffffe7 (what the code adds to it does not wrap round), returns
  the first free PID. The new process lives, has the priority and the name asked for, no children and no pending signal, its
  father is the caller, whose list of children it heads; the address at which it starts, on its kernel stack, is the function given if that is in user space
  or if the caller is the kernel itself, and 0 for a function of the kernel's part of the memory during the system call. The invariants of
  scheduler, semaphores and process tree hold again, and a process of maximal priority runs.
\<close>

theorem start_creates_process:
  assumes "kinv s" and "tree_inv s" and "files_ok s" and "live s (pid_cour s)" and "free_pid s = Some p"
    and "p_children (tab_proc s (pid_cour s)) = Some l" and "usable_blocks 10 s" and "ssize \<le> 0xffffffe7"
  shows "\<exists>s'. start en fr f ssize prio name arg s = Some (p, s') \<and> kinv s' \<and> tree_inv s' \<and> sched_post s' \<and> live s' p \<and>
    prio_of s' p = prio \<and> p_name (tab_proc s' p) = name \<and> p_children (tab_proc s' p) = Some [] \<and>
    p_sigs (tab_proc s' p) = Some [] \<and> p_pid_parent (tab_proc s' p) = pid_cour s \<and>
    p_children (tab_proc s' (pid_cour s)) = Some (p # l) \<and>
    p_kstack (tab_proc s' p) (NB_ELEM_K - 5) = (if f \<ge> 0x1000000 \<or> in_syscall s \<noteq> SYSCALL_START then f else 0)"
proof -
  obtain t u s' where t: "start en fr f ssize prio name arg s = Some (p, s')" "created p (pid_cour s) prio s t" "tab_proc u = tab_proc t"
    "p_name (tab_proc t p) = name" "p_kstack (tab_proc t p) (NB_ELEM_K - 5) = check_pointer f SYSCALL_START s" "tree_inv u"
    "kinv s'" "sched_post s'" "sched_frame u s'" "p \<noteq> pid_cour s" "in_tab p" "\<not> valid_proc s p"
    using assms by (rule start_spec)
  have "live u p" unfolding live_def valid_proc_def t(3) using t(2,11) by (simp add: created_def born_def)
  then have "live s' p" "tree_inv s'" using t(6) by (simp_all add: tree_inv_frame [OF t(9)])
  moreover obtain st v where "tab_proc s' p = (tab_proc u p)\<lparr>p_state := st, p_valide := v\<rparr>"
    using t(9) unfolding sched_frame_def by metis
  moreover obtain st' v' where "tab_proc s' (pid_cour s) = (tab_proc u (pid_cour s))\<lparr>p_state := st', p_valide := v'\<rparr>"
    using t(9) unfolding sched_frame_def by metis
  moreover have "check_pointer f SYSCALL_START s = (if f \<ge> 0x1000000 \<or> in_syscall s \<noteq> SYSCALL_START then f else 0)"
    by (simp add: check_pointer_def is_in_syscall_def is_pointer_userspace_def)
  ultimately show ?thesis
    using t assms(6) live_pos [OF assms(4)] by (simp add: created_def born_def prio_of_def)
qed

text \<open>The processes of \<open>ex_tree\<close>, with descriptors, and the file system after its initialisation.\<close>

definition ex_fs :: "node_ptr \<Rightarrow> fs_node" where
  "ex_fs np = (case np of
     RootfsNode i \<Rightarrow> (case map_of rootfs_tree i of
       Some (parent, name, ty) \<Rightarrow> ex_node\<lparr>n_parent := (if parent < 0 then None else Some (RootfsNode (nat parent))), n_name := name,
         n_type := ty, n_finddir := Some (tree_finddir i)\<rparr>
     | None \<Rightarrow> ex_node)
   | VcNode i \<Rightarrow> ex_node\<lparr>n_inode := 100 + int i, n_write := Some Console_vc_write\<rparr>
   | _ \<Rightarrow> ex_node)"

definition ex_create :: kstate where
  "ex_create = ex_tree\<lparr>fs_nodes := ex_fs, rootfs_present := (\<lambda>i. if map_of rootfs_tree i = None then 0 else 1),
     tab_proc := (\<lambda>p. (tab_proc ex_tree p)\<lparr>p_file_desc := replicate DTABLESIZE \<lparr>f_present = 1, f_node = Some (VcNode 0), f_offset = 0\<rparr>\<rparr>)\<rparr>"

lemma ex_create_files: "files_ok ex_create"
proof -
  have "tree_entry ex_create e \<and> n_finddir (fs_nodes ex_create (RootfsNode (fst e))) = Some (tree_finddir (fst e))"
    if "e \<in> set rootfs_tree" for e
  proof -
    obtain i parent name ty where e: "e = (i, parent, name, ty)" by (cases e)
    then have "map_of rootfs_tree i = Some (parent, name, ty)"
      using that tree_numbers(2) by (simp add: map_of_eq_Some_iff)
    then show ?thesis by (simp add: e tree_entry_def ex_create_def ex_fs_def)
  qed
  moreover have "rootfs_present ex_create i = 0" if "i \<notin> fst ` set rootfs_tree" for i
    using that by (simp add: ex_create_def map_of_eq_None_iff)
  moreover have "console_entry ex_create i" for i
    by (simp add: console_entry_def ex_create_def ex_fs_def ex_node_def)
  ultimately have "vfs_ready ex_create" by (simp add: vfs_ready_def)
  moreover have "fd_ok 1 ex_create"
    by (simp add: fd_ok_def ex_create_def in_tab_def NBPROC_def DTABLESIZE_def)
  ultimately show ?thesis by (simp add: files_ok_def)
qed

lemma ex_create_inv: "kinv ex_create" "tree_inv ex_create" "live ex_create 2"
proof -
  have eq: "sched_eq ex_tree ex_create" by (simp add: sched_eq_def ex_create_def)
  have vld: "valid_proc ex_create = valid_proc ex_tree" by (rule sched_eq_valid [OF eq])
  have tab: "p_state (tab_proc ex_create p) = p_state (tab_proc ex_tree p)" "p_sid_wait (tab_proc ex_create p) = p_sid_wait (tab_proc ex_tree p)"
    "p_pid_parent (tab_proc ex_create p) = p_pid_parent (tab_proc ex_tree p)" "p_children (tab_proc ex_create p) = p_children (tab_proc ex_tree p)" for p
    by (simp_all add: ex_create_def del: ex_tree_proc)
  have "blocked_on ex_create = blocked_on ex_tree" unfolding blocked_on_def fun_eq_iff vld tab by simp
  then have "sem_inv ex_create = sem_inv ex_tree" by (intro sem_inv_cong) (simp_all add: ex_create_def del: ex_tree_proc)
  then show "kinv ex_create" using sched_eq_inv [OF eq] ex_tree_kinv(1) unfolding kinv_def by simp
  have live: "live ex_create p = live ex_tree p" for p unfolding live_def vld tab ..
  have "kids ex_create p = kids ex_tree p" for p unfolding kids_def vld tab ..
  then show "tree_inv ex_create" using tree_inv_cong [of ex_create ex_tree] live tab vld ex_tree_tree by simp
  show "live ex_create 2" unfolding live by (simp add: live_def)
qed

definition ex_entries :: entries where
  "ex_entries = \<lparr>ad_iret = 0x100100, ad_exit_kernel = 0x100200, ad_int32 = 0x100300, ad_int33 = 0x100400, ad_int49 = 0x100500, ad_pfault = 0x100600\<rparr>"

definition ex_fresh :: fresh where
  "ex_fresh = \<lparr>junk_node = ex_node, junk_stack = (\<lambda>_. 0), junk_screen = []\<rparr>"

theorem start_creates_process_witness:
  "\<exists>s'. start ex_entries ex_fresh 0x1000040 4096 5 ''sh'' 0 ex_create = Some (7, s') \<and> kinv s' \<and> tree_inv s' \<and> live s' 7 \<and> p_children (tab_proc s' 2) = Some [7, 5, 4] \<and>
    p_kstack (tab_proc s' 7) (NB_ELEM_K - 5) = 0x1000040"
proof -
  have q: "pid_cour ex_create = 2" by (simp add: ex_create_def)
  have "p_valide (tab_proc ex_create p) = (if 1 \<le> p \<and> p \<le> 6 then 1 else 0)" for p by (simp add: ex_create_def ex_tree_def)
  then have "free_pid ex_create = Some 7" by (simp add: free_pid_def NBPROC_def upto_rec1)
  moreover have "p_children (tab_proc ex_create (pid_cour ex_create)) = Some [5, 4]" by (simp add: ex_create_def)
  moreover have "usable_blocks 10 ex_create"
    using usable_blocks_mono [OF ex_tree_blocks, of 10] by (simp add: usable_blocks_def ex_create_def)
  ultimately show ?thesis
    using start_creates_process [OF ex_create_inv(1,2) ex_create_files, of 7 "[5, 4]" 4096 ex_entries ex_fresh "0x1000040" 5 "''sh''" 0] ex_create_inv(3)
    unfolding q by auto
qed

end
