(* ===== verification/Devices.thy ===== *)
theory Devices
  imports Timer
begin

text \<open>
  The speaker (\<^verbatim>\<open>kernel/buzzer.c\<close>) and the serial port (\<^verbatim>\<open>kernel/serial.c\<close>). A byte read from a port is an argument; the answers
  to a loop that polls a port are a list, and the loop is \<open>None\<close> while no answer in it ends the loop.
\<close>

section \<open>The speaker\<close>

text \<open>\<open>p61\<close> is what port 0x61 answers.\<close>

definition speaker_beep :: "u8 \<Rightarrow> u32 \<Rightarrow> kstate \<Rightarrow> kstate option" where
  "speaker_beep p61 frequency s = do {
     assert_that (frequency \<noteq> 0);
     let count = 1193180 div frequency;
     let s = outb (p61 OR 3) 0x61 s;
     let s = outb 0xB6 0x43 s;
     let s = outb (ucast (count AND 0xff)) 0x42 s;
     Some (outb (ucast (drop_bit 8 count AND 0xff)) 0x42 s) }"

definition speaker_beep_off :: "u8 \<Rightarrow> kstate \<Rightarrow> kstate" where
  "speaker_beep_off p61 s = outb (p61 AND 0xFC) 0x61 s"

definition speaker_LUT :: "int list" where
  "speaker_LUT = [
     8, 8, 9, 9, 10, 10, 11, 12, 12, 13, 14, 15, 16, 17, 18, 19, 20, 21, 23, 24,
     25, 27, 29, 30, 32, 34, 36, 38, 41, 43, 46, 48, 51, 55, 58, 61, 65, 69, 73,
     77, 82, 87, 92, 97, 103, 110, 116, 123, 130, 138, 146, 155, 164, 174, 184,
     195, 207, 220, 233, 246, 261, 277, 293, 311, 329, 349, 369, 391, 415, 440,
     466, 493, 523, 554, 587, 622, 659, 698, 739, 783, 830, 880, 932, 987, 1046,
     1108, 1174, 1244, 1318, 1396, 1479, 1567, 1661, 1760, 1864, 1975, 2093, 2217,
     2349, 2489, 2637, 2793, 2959, 3135, 3322, 3520, 3729, 3951, 4186, 4434, 4698,
     4978, 5274, 5587, 5919, 6271, 6644, 7040, 7458, 7902, 8372, 8869, 9397, 9956,
     10548, 11175, 11839, 12543]"

definition speaker_midi_to_hz :: "u8 \<Rightarrow> int" where
  "speaker_midi_to_hz note_number =
     (let note_number = (if note_number > 127 then 60 else note_number) in speaker_LUT ! unat note_number)"

text \<open>\<open>buzzer_beep\<close> up to the end of \<^verbatim>\<open>usleep\<close>, which blocks the caller, and what follows.\<close>

definition buzzer_beep :: "u8 \<Rightarrow> int \<Rightarrow> int \<Rightarrow> kstate \<Rightarrow> kstate option" where
  "buzzer_beep p61 note milliseconds s = do {
     s \<leftarrow> speaker_beep p61 (word_of_int (speaker_midi_to_hz (word_of_int (note + 48)))) s;
     usleep (word_of_int (1000 * milliseconds)) s }"

definition buzzer_beep_resume :: "u8 \<Rightarrow> kstate \<Rightarrow> kstate" where
  "buzzer_beep_resume p61 s = speaker_beep_off p61 s"

lemma speaker_midi_to_hz_range: "8 \<le> speaker_midi_to_hz n \<and> speaker_midi_to_hz n \<le> 12543"
proof -
  have "\<forall>f \<in> set speaker_LUT. 8 \<le> f \<and> f \<le> 12543" by (simp add: speaker_LUT_def)
  moreover have "unat (if n > 127 then 60 else n) < length speaker_LUT"
    by (auto simp: speaker_LUT_def word_less_nat_alt)
  ultimately show ?thesis by (simp add: speaker_midi_to_hz_def Let_def)
qed

text \<open>The speaker never divides by zero, whatever the note.\<close>

lemma speaker_beep_note:
  "\<exists>s'. speaker_beep p61 (word_of_int (speaker_midi_to_hz n)) s = Some s' \<and> length (k_out s') = length (k_out s) + 4"
proof -
  define f :: u32 where "f = word_of_int (speaker_midi_to_hz n)"
  have "uint f = speaker_midi_to_hz n"
    using speaker_midi_to_hz_range [of n] by (simp add: f_def unsigned_of_int take_bit_int_eq_self)
  then have "f \<noteq> 0" using speaker_midi_to_hz_range [of n] by auto
  then show ?thesis by (simp add: speaker_beep_def Let_def outb_def f_def)
qed

section \<open>The serial port\<close>

record serial =
  ser_done :: bool
  ser_out :: "(u8 \<times> u16) list"

definition ser_outb :: "u8 \<Rightarrow> u16 \<Rightarrow> serial \<Rightarrow> serial" where
  "ser_outb v port z = z\<lparr>ser_out := (v, port) # ser_out z\<rparr>"

definition init_serial :: "serial \<Rightarrow> serial" where
  "init_serial z =
     (if ser_done z then z
      else (fold (\<lambda>(v, port). ser_outb v port)
        [(0x0f, 0x3fc), (0, 0x3f9), (0x83, 0x3fb), (1, 0x3f8), (0, 0x3f9), (0x03, 0x3fb)] z)\<lparr>ser_done := True\<rparr>)"

fun poll :: "('a \<Rightarrow> bool) \<Rightarrow> 'a list \<Rightarrow> ('a \<times> 'a list) option" where
  "poll P [] = None"
| "poll P (x # xs) = (if P x then Some (x, xs) else poll P xs)"

definition write_com1 :: "int \<Rightarrow> u8 list \<Rightarrow> serial \<Rightarrow> serial option" where
  "write_com1 c lsr z = do {
     let z = init_serial z;
     _ \<leftarrow> poll (\<lambda>b. b AND 0x20 \<noteq> 0) lsr;
     Some (ser_outb (word_of_int c) 0x3f8 z) }"

text \<open>\<open>rbr\<close> is the byte that has been received.\<close>

definition read_com1 :: "u8 list \<Rightarrow> u8 \<Rightarrow> serial \<Rightarrow> (int \<times> serial) option" where
  "read_com1 lsr rbr z = do {
     let z = init_serial z;
     _ \<leftarrow> poll (\<lambda>b. b AND 0x1e = 0 \<and> b AND 1 \<noteq> 0) lsr;
     Some (uint rbr, z) }"

lemma init_serial_once [simp]: "init_serial (init_serial z) = init_serial z"
  by (simp add: init_serial_def ser_outb_def)

text \<open>What is written one byte after the other arrives in order, after a single initialisation.\<close>

fun write_all :: "(int \<times> u8 list) list \<Rightarrow> serial \<Rightarrow> serial option" where
  "write_all [] z = Some z"
| "write_all ((c, lsr) # cs) z = do { z \<leftarrow> write_com1 c lsr z; write_all cs z }"

lemma write_all_order:
  "\<forall>(c, lsr) \<in> set cs. \<exists>b \<in> set lsr. b AND 0x20 \<noteq> 0 \<Longrightarrow> ser_done z \<Longrightarrow>
   write_all cs z = Some (z\<lparr>ser_out := rev (map (\<lambda>(c, _). (word_of_int c, 0x3f8)) cs) @ ser_out z\<rparr>)"
proof (induction cs arbitrary: z)
  case (Cons e cs)
  obtain c lsr where e: "e = (c, lsr)" by (cases e)
  have "\<exists>r. poll P l = Some r" if "\<exists>b \<in> set l. P b" for P and l :: "u8 list"
    using that by (induction l) auto
  then obtain r where "poll (\<lambda>b. b AND 0x20 \<noteq> 0) lsr = Some r" using Cons.prems(1) e by fastforce
  then have "write_com1 c lsr z = Some (ser_outb (word_of_int c) 0x3f8 z)"
    using Cons.prems(2) by (simp add: write_com1_def init_serial_def)
  with Cons e show ?case by (simp add: ser_outb_def)
qed simp

end
