(* ===== verification/Syscalls.thy ===== *)
theory Syscalls
  imports Context Devices Printf
begin

text \<open>
  The dispatch of system calls (\<^verbatim>\<open>kernel/syscall_handlers.c\<close>, with the choice of the handler in \<^verbatim>\<open>kernel/int49.S\<close>).

  \<^item> A table is a function from the code; a code without an entry is a call through a null pointer or from outside the table, a fault.
  \<^item> The arguments are the 32-bit registers; a pointer to a string is followed in \<open>umem\<close>. Reading or storing through the null pointer is a fault, as the
    first page is not mapped (\<^verbatim>\<open>setup_pgtab\<close> in \<^verbatim>\<open>crt0.S\<close>).
  \<^item> A call has a value, or none (a C function without result), or has blocked its caller. What it stores through a pointer of
    its caller is in the list of outputs, except single words, which go to \<open>umem\<close>.
  \<^item> \<open>in_syscall\<close> is set before the call and reset after it. When the call has switched to another process, the second assignment only
    runs when the caller gets the processor back: until then the variable keeps the code.
\<close>

section \<open>Codes\<close>

definition SYSCALL_CLOCK :: int where "SYSCALL_CLOCK = 0x00"
definition SYSCALL_GETPID :: int where "SYSCALL_GETPID = 0x01"
definition SYSCALL_GETPPID :: int where "SYSCALL_GETPPID = 0x02"
definition SYSCALL_CURRENT_CLOCK :: int where "SYSCALL_CURRENT_CLOCK = 0x03"
definition SYSCALL_REBOOT :: int where "SYSCALL_REBOOT = 0x04"
definition SYSCALL_CONTEXT_PS :: int where "SYSCALL_CONTEXT_PS = 0x05"
definition SYSCALL_SEM_INFO :: int where "SYSCALL_SEM_INFO = 0x06"
definition SYSCALL_CLEAR :: int where "SYSCALL_CLEAR = 0x07"
definition SYSCALL_CONS_ECHO :: int where "SYSCALL_CONS_ECHO = 0x20"
definition SYSCALL_KILL :: int where "SYSCALL_KILL = 0x22"
definition SYSCALL_SCOUNT :: int where "SYSCALL_SCOUNT = 0x23"
definition SYSCALL_SCREATE :: int where "SYSCALL_SCREATE = 0x24"
definition SYSCALL_SDELETE :: int where "SYSCALL_SDELETE = 0x25"
definition SYSCALL_GETPRIO :: int where "SYSCALL_GETPRIO = 0x26"
definition SYSCALL_SIGNAL :: int where "SYSCALL_SIGNAL = 0x27"
definition SYSCALL_WAIT_CLOCK :: int where "SYSCALL_WAIT_CLOCK = 0x28"
definition SYSCALL_WAIT :: int where "SYSCALL_WAIT = 0x29"
definition SYSCALL_USLEEP :: int where "SYSCALL_USLEEP = 0x2a"
definition SYSCALL_OPEN :: int where "SYSCALL_OPEN = 0x2b"
definition SYSCALL_CLOSE :: int where "SYSCALL_CLOSE = 0x2c"
definition SYSCALL_TRY_WAIT :: int where "SYSCALL_TRY_WAIT = 0x2d"
definition SYSCALL_SET_STDOUT :: int where "SYSCALL_SET_STDOUT = 0x2f"
definition SYSCALL_CHPRIO :: int where "SYSCALL_CHPRIO = 0x40"
definition SYSCALL_SIGNALN :: int where "SYSCALL_SIGNALN = 0x44"
definition SYSCALL_SRESET :: int where "SYSCALL_SRESET = 0x45"
definition SYSCALL_BUZZER_BEEP :: int where "SYSCALL_BUZZER_BEEP = 0x48"
definition SYSCALL_FSTAT :: int where "SYSCALL_FSTAT = 0x49"
definition SYSCALL_SIGNAL_SEND :: int where "SYSCALL_SIGNAL_SEND = 0x4b"
definition SYSCALL_SIGACTION :: int where "SYSCALL_SIGACTION = 0x4c"
definition SYSCALL_WRITE :: int where "SYSCALL_WRITE = 0x61"

section \<open>Arguments and results\<close>

datatype outcome = Value u32 | Void | Blocked | Reboots

datatype sys_output = Bytes u32 string | Dirent u32 dirent | Stat u32 file_stat

primrec out_address :: "sys_output \<Rightarrow> u32" where
  "out_address (Bytes a _) = a"
| "out_address (Dirent a _) = a"
| "out_address (Stat a _) = a"

type_synonym sysres = "(outcome \<times> sys_output list \<times> kstate) option"

text \<open>What the devices answer during the call, the addresses of the routines and the contents of fresh memory.\<close>

record environment =
  env_entries :: entries
  env_fresh :: fresh
  env_rgb :: "u8 \<times> u8 \<times> u8"
  env_p61 :: u8
  env_junk :: "char list"

definition load_byte :: "(u32 \<Rightarrow> u32) \<Rightarrow> u32 \<Rightarrow> char" where
  "load_byte m a = char_of (unat (drop_bit (8 * unat (a AND 3)) (m (a AND NOT 3)) AND 0xff))"

definition load_bytes :: "(u32 \<Rightarrow> u32) \<Rightarrow> u32 \<Rightarrow> nat \<Rightarrow> string" where
  "load_bytes m a n = map (\<lambda>i. load_byte m (a + of_nat i)) [0..<n]"

text \<open>A string without end is \<open>None\<close>.\<close>

partial_function (option) load_string :: "(u32 \<Rightarrow> u32) \<Rightarrow> u32 \<Rightarrow> string option" where
  "load_string m a =
     (if load_byte m a = NUL then Some []
      else Option.bind (load_string m (a + 1)) (\<lambda>cs. Some (load_byte m a # cs)))"

definition string_arg :: "u32 \<Rightarrow> kstate \<Rightarrow> string option" where
  "string_arg a s = do { assert_that (a \<noteq> 0); load_string (umem s) a }"

definition bytes_arg :: "u32 \<Rightarrow> nat \<Rightarrow> kstate \<Rightarrow> string option" where
  "bytes_arg a n s = do { assert_that (a \<noteq> 0 \<or> n = 0); Some (load_bytes (umem s) a n) }"

text \<open>\<^verbatim>\<open>write\<close> reads what its argument points to only when the node has a callback for it.\<close>

definition has_writer :: "int \<Rightarrow> kstate \<Rightarrow> bool" where
  "has_writer fd s = (case cur_fd fd s of None \<Rightarrow> False
     | Some d \<Rightarrow> (case f_node d of None \<Rightarrow> False | Some np \<Rightarrow> n_write (fs_nodes s np) \<noteq> None))"

definition short_arg :: "u32 \<Rightarrow> int" where
  "short_arg a = to_short (sint a)"

definition ret_int :: "(int \<times> kstate) option \<Rightarrow> sysres" where
  "ret_int r = map_option (\<lambda>(v, s). (Value (word_of_int v), [], s)) r"

definition ret_void :: "kstate option \<Rightarrow> sysres" where
  "ret_void r = map_option (\<lambda>s. (Void, [], s)) r"

text \<open>A call that may block: \<open>None\<close> as its value says that it has.\<close>

definition ret_wait :: "(int option \<times> kstate) option \<Rightarrow> sysres" where
  "ret_wait r = map_option (\<lambda>(v, s). (case v of None \<Rightarrow> Blocked | Some v \<Rightarrow> Value (word_of_int v), [], s)) r"

definition ret_cons_read :: "(u32 \<times> cons_result \<times> kstate) option \<Rightarrow> sysres" where
  "ret_cons_read r = map_option (\<lambda>(buf, r, s). case r of
     Read_done txt \<Rightarrow> (Value (of_nat (length txt)), [Bytes buf txt], s)
   | Read_blocked i acc n \<Rightarrow> (Blocked, [Bytes buf acc], s)) r"

section \<open>Reports\<close>

text \<open>The kernel's \<^verbatim>\<open>printf\<close> sends its pieces to \<^verbatim>\<open>console_putbytes\<close>; \<open>env_junk\<close> is the old contents of its buffer.\<close>

fun put_calls :: "string list \<Rightarrow> kstate \<Rightarrow> kstate option" where
  "put_calls [] s = Some s"
| "put_calls (t # ts) s = do { s \<leftarrow> console_putbytes t s; put_calls ts s }"

definition kprintf :: "environment \<Rightarrow> string \<Rightarrow> varg list \<Rightarrow> kstate \<Rightarrow> kstate option" where
  "kprintf env fmt args s = do { (_, calls) \<leftarrow> printf (env_junk env) fmt args; put_calls calls s }"

definition newline :: string where "newline = [CHR 0x0A]"

fun ps_loop :: "environment \<Rightarrow> int list \<Rightarrow> kstate \<Rightarrow> kstate option" where
  "ps_loop env [] s = Some s"
| "ps_loop env (p # ps) s =
     (let c = tab_proc s p
      in if p_valide c = 0 then ps_loop env ps s
         else do {
           s \<leftarrow> kprintf env (''%3d %16s %3d %16s  %3d'' @ newline)
             [AInt (word_of_int (p_pid c)), AStr (Some (p_name c)), AInt (word_of_int (p_priority c)),
              AStr (Some (context_print_state (p_state c))), AInt (word_of_int (p_pid_parent c))] s;
           ps_loop env ps s })"

definition context_ps :: "environment \<Rightarrow> kstate \<Rightarrow> kstate option" where
  "context_ps env s = do {
     s \<leftarrow> kprintf env (''PID       Name       Pri      State       PPID'' @ newline) [] s;
     s \<leftarrow> kprintf env (''=============================================='' @ newline) [] s;
     ps_loop env [1..NBPROC] s }"

fun waiting_loop :: "environment \<Rightarrow> int list \<Rightarrow> kstate \<Rightarrow> kstate option" where
  "waiting_loop env [] s = Some s"
| "waiting_loop env (pid # pids) s = do {
     s \<leftarrow> kprintf env ''%d '' [AInt (word_of_int pid)] s;
     waiting_loop env pids s }"

fun sem_loop :: "environment \<Rightarrow> int list \<Rightarrow> kstate \<Rightarrow> kstate option" where
  "sem_loop env [] s = Some s"
| "sem_loop env (i # is) s =
     (if s_valide (semaphores s i) = 0 then sem_loop env is s
      else do {
        s \<leftarrow> kprintf env ''%3d  %7d  '' [AInt (word_of_int i), AInt (word_of_int (s_c (semaphores s i)))] s;
        ws \<leftarrow> s_proc_wait (semaphores s i);
        s \<leftarrow> (if ws = [] then kprintf env (''<empty>'' @ newline) [] s else Some s);
        s \<leftarrow> waiting_loop env ws s;
        s \<leftarrow> kprintf env newline [] s;
        sem_loop env is s })"

definition sem_info :: "environment \<Rightarrow> kstate \<Rightarrow> kstate option" where
  "sem_info env s = do {
     s \<leftarrow> kprintf env (''SID  Counter  Waiting processes'' @ newline) [] s;
     sem_loop env [0..NBSEM - 1] s }"

section \<open>The tables\<close>

definition syscalls_0 :: "environment \<Rightarrow> int \<Rightarrow> kstate \<Rightarrow> sysres" where
  "syscalls_0 env code s =
     (if code = SYSCALL_CURRENT_CLOCK then Some (Value (current_clock s), [], s)
      else if code = SYSCALL_GETPID then ret_int (Some (getpid s, s))
      else if code = SYSCALL_GETPPID then ret_int (map_option (\<lambda>v. (v, s)) (getppid s))
      else if code = SYSCALL_REBOOT then Some (Reboots, [], s)
      else if code = SYSCALL_CONTEXT_PS then ret_void (context_ps env s)
      else if code = SYSCALL_SEM_INFO then ret_void (sem_info env s)
      else if code = SYSCALL_CLEAR then ret_void (clear s)
      else if code = SYSCALL_SIG_RETURN then ret_void (sig_return s)
      else None)"

definition syscalls_1 :: "int \<Rightarrow> u32 \<Rightarrow> kstate \<Rightarrow> sysres" where
  "syscalls_1 code a s =
     (if code = SYSCALL_EXIT then ret_void (exit (sint a) s)
      else if code = SYSCALL_KILL then ret_int (kill (sint a) s)
      else if code = SYSCALL_WAIT_CLOCK then ret_void (wait_clock a s)
      else if code = SYSCALL_GETPRIO then ret_int (map_option (\<lambda>v. (v, s)) (getprio (sint a) s))
      else if code = SYSCALL_WAIT then ret_wait (wait (sint a) s)
      else if code = SYSCALL_TRY_WAIT then ret_int (Some (try_wait (sint a) s))
      else if code = SYSCALL_SIGNAL then ret_int (signal (sint a) s)
      else if code = SYSCALL_SCOUNT then ret_int (Some (scount (sint a) s, s))
      else if code = SYSCALL_SDELETE then ret_int (sdelete (sint a) s)
      else if code = SYSCALL_CONS_ECHO then ret_void (Some (cons_echo (sint a) s))
      else if code = SYSCALL_SCREATE then ret_int (screate (short_arg a) s)
      else if code = SYSCALL_USLEEP then ret_void (usleep a s)
      else if code = SYSCALL_OPEN then do { name \<leftarrow> string_arg a s; ret_int (open_file name s) }
      else if code = SYSCALL_CLOSE then ret_int (close (sint a) s)
      else if code = SYSCALL_CHDIR then do {
        path \<leftarrow> string_arg (check_pointer a SYSCALL_CHDIR s) s; ret_int (chdir path s) }
      else if code = SYSCALL_SET_STDOUT then do { name \<leftarrow> string_arg a s; ret_int (set_stdout name s) }
      else None)"

definition syscalls_2 :: "environment \<Rightarrow> int \<Rightarrow> u32 \<Rightarrow> u32 \<Rightarrow> kstate \<Rightarrow> sysres" where
  "syscalls_2 env code a b s =
     (if code = SYSCALL_WAITPID then ret_wait (waitpid (sint a) b s)
      else if code = SYSCALL_CHPRIO then ret_int (chprio (sint a) (sint b) s)
      else if code = SYSCALL_SIGNALN then ret_int (signaln (sint a) (short_arg b) s)
      else if code = SYSCALL_CONS_READ then ret_cons_read (cons_read a b s)
      else if code = SYSCALL_CONS_WRITE then do {
        txt \<leftarrow> bytes_arg (check_pointer a SYSCALL_CONS_WRITE s) (nat (sint b)) s; ret_void (cons_write txt s) }
      else if code = SYSCALL_CLOCK_SETTINGS then ret_void (Some (clock_settings a b s))
      else if code = SYSCALL_CONS_IOCTL then ret_void (cons_ioctl (sint a) b (env_rgb env) s)
      else if code = SYSCALL_SRESET then ret_int (sreset (sint a) (short_arg b) s)
      else if code = SYSCALL_BUZZER_BEEP then
        map_option (\<lambda>s. (Blocked, [], s)) (buzzer_beep (env_p61 env) (sint a) (sint b) s)
      else if code = SYSCALL_FSTAT then do {
        (v, f) \<leftarrow> fstat (sint a) s;
        assert_that (b \<noteq> 0 \<or> f = None);
        Some (Value (word_of_int v), map (Stat b) (case f of None \<Rightarrow> [] | Some f \<Rightarrow> [f]), s) }
      else if code = SYSCALL_SIGNAL_SEND then ret_void (signal_send (sint a) (sint b) s)
      else if code = SYSCALL_SIGACTION then ret_void (sigaction (sint a) b s)
      else if code = SYSCALL_GETCWD then map_option (\<lambda>(p, txt). (Value p, [Bytes p txt], s)) (getcwd a b s)
      else None)"

definition syscalls_3 :: "int \<Rightarrow> u32 \<Rightarrow> u32 \<Rightarrow> u32 \<Rightarrow> kstate \<Rightarrow> sysres" where
  "syscalls_3 code a b c s =
     (if code = SYSCALL_READ then
        map_option (\<lambda>(v, buf, txt, s). (Value (word_of_int v), [Bytes buf txt], s)) (read (sint a) b c s)
      else if code = SYSCALL_WRITE then do {
        assert_that (b \<noteq> 0 \<or> c = 0 \<or> \<not> has_writer (sint a) s);
        ret_int (write_file (sint a) (load_bytes (umem s) b (unat c)) s) }
      else if code = SYSCALL_READDIR then
        map_option (\<lambda>(v, p, e). (Value (word_of_int v), map (Dirent p) (case e of None \<Rightarrow> [] | Some e \<Rightarrow> [e]), s))
          (readdir (sint a) b (sint c) s)
      else None)"

definition syscalls_5 :: "environment \<Rightarrow> int \<Rightarrow> u32 \<Rightarrow> u32 \<Rightarrow> u32 \<Rightarrow> u32 \<Rightarrow> u32 \<Rightarrow> kstate \<Rightarrow> sysres" where
  "syscalls_5 env code a b c d e s =
     (if code = SYSCALL_START then do {
        name \<leftarrow> string_arg d s;
        ret_int (start (env_entries env) (env_fresh env) a b (sint c) name e s) }
      else None)"

section \<open>The handlers\<close>

text \<open>Around a call: \<open>cur\<close> is the process that has made it.\<close>

definition leave_syscall :: "int \<Rightarrow> sysres \<Rightarrow> sysres" where
  "leave_syscall cur r = map_option (\<lambda>(v, outs, s). (v, outs, if pid_cour s = cur then s\<lparr>in_syscall := 0xff\<rparr> else s)) r"

definition syscall_handler0 :: "environment \<Rightarrow> int \<Rightarrow> kstate \<Rightarrow> sysres" where
  "syscall_handler0 env code s = leave_syscall (pid_cour s) (syscalls_0 env code (s\<lparr>in_syscall := code\<rparr>))"

definition syscall_handler1 :: "int \<Rightarrow> u32 \<Rightarrow> kstate \<Rightarrow> sysres" where
  "syscall_handler1 code arg1 s = leave_syscall (pid_cour s) (syscalls_1 code arg1 (s\<lparr>in_syscall := code\<rparr>))"

definition syscall_handler2 :: "environment \<Rightarrow> int \<Rightarrow> u32 \<Rightarrow> u32 \<Rightarrow> kstate \<Rightarrow> sysres" where
  "syscall_handler2 env code arg1 arg2 s = leave_syscall (pid_cour s) (syscalls_2 env code arg1 arg2 (s\<lparr>in_syscall := code\<rparr>))"

definition syscall_handler3 :: "int \<Rightarrow> u32 \<Rightarrow> u32 \<Rightarrow> u32 \<Rightarrow> kstate \<Rightarrow> sysres" where
  "syscall_handler3 code arg1 arg2 arg3 s = leave_syscall (pid_cour s) (syscalls_3 code arg1 arg2 arg3 (s\<lparr>in_syscall := code\<rparr>))"

definition syscall_handler4 :: "kstate \<Rightarrow> sysres" where
  "syscall_handler4 s = Some (Void, [], s)"

definition syscall_handler5 :: "environment \<Rightarrow> int \<Rightarrow> u32 \<Rightarrow> u32 \<Rightarrow> u32 \<Rightarrow> u32 \<Rightarrow> u32 \<Rightarrow> kstate \<Rightarrow> sysres" where
  "syscall_handler5 env code arg1 arg2 arg3 arg4 arg5 s =
     leave_syscall (pid_cour s) (syscalls_5 env code arg1 arg2 arg3 arg4 arg5 (s\<lparr>in_syscall := code\<rparr>))"

definition int49 :: "environment \<Rightarrow> u32 \<Rightarrow> u32 \<Rightarrow> u32 \<Rightarrow> u32 \<Rightarrow> u32 \<Rightarrow> u32 \<Rightarrow> kstate \<Rightarrow> sysres" where
  "int49 env eax ebx ecx edx esi edi s =
     (let code = uint eax
      in if eax < 0x20 then syscall_handler0 env code s
         else if eax < 0x40 then syscall_handler1 code ebx s
         else if eax < 0x60 then syscall_handler2 env code ebx ecx s
         else if eax < 0x70 then syscall_handler3 code ebx ecx edx s
         else if eax < 0x80 then syscall_handler4 s
         else syscall_handler5 env code ebx ecx edx esi edi s)"

section \<open>Facts\<close>

lemmas syscall_codes = SYSCALL_CLOCK_def SYSCALL_GETPID_def SYSCALL_GETPPID_def SYSCALL_CURRENT_CLOCK_def SYSCALL_REBOOT_def
  SYSCALL_CONTEXT_PS_def SYSCALL_SEM_INFO_def SYSCALL_CLEAR_def SYSCALL_SIG_RETURN_def SYSCALL_CONS_ECHO_def SYSCALL_EXIT_def
  SYSCALL_KILL_def SYSCALL_SCOUNT_def SYSCALL_SCREATE_def SYSCALL_SDELETE_def SYSCALL_GETPRIO_def SYSCALL_SIGNAL_def
  SYSCALL_WAIT_CLOCK_def SYSCALL_WAIT_def SYSCALL_USLEEP_def SYSCALL_OPEN_def SYSCALL_CLOSE_def SYSCALL_TRY_WAIT_def
  SYSCALL_CHDIR_def SYSCALL_SET_STDOUT_def SYSCALL_CHPRIO_def SYSCALL_CLOCK_SETTINGS_def SYSCALL_CONS_READ_def
  SYSCALL_CONS_WRITE_def SYSCALL_SIGNALN_def SYSCALL_SRESET_def SYSCALL_WAITPID_def SYSCALL_CONS_IOCTL_def
  SYSCALL_BUZZER_BEEP_def SYSCALL_FSTAT_def SYSCALL_GETCWD_def SYSCALL_SIGNAL_SEND_def SYSCALL_SIGACTION_def
  SYSCALL_READ_def SYSCALL_WRITE_def SYSCALL_READDIR_def SYSCALL_START_def

lemmas handler_defs = syscall_handler0_def syscall_handler1_def syscall_handler2_def syscall_handler3_def syscall_handler4_def
  syscall_handler5_def leave_syscall_def

text \<open>What a call stores lies in the memory of its caller, or is nothing, for the null pointer.\<close>

definition out_ok :: "sys_output \<Rightarrow> bool" where
  "out_ok out \<longleftrightarrow> 0x1000000 \<le> out_address out \<or> out = Bytes 0 []"

lemma check_pointer_user: "in_syscall s = code \<Longrightarrow> check_pointer p code s \<noteq> 0 \<Longrightarrow> 0x1000000 \<le> check_pointer p code s"
  by (auto simp: check_pointer_def is_in_syscall_def is_pointer_userspace_def split: if_splits)

lemma out_okI: "in_syscall s = code \<Longrightarrow> check_pointer p code s \<noteq> 0 \<or> t = [] \<Longrightarrow> out_ok (Bytes (check_pointer p code s) t)"
  using check_pointer_user [of s code p] by (cases "check_pointer p code s = 0") (auto simp: out_ok_def)

lemma ret_no_outputs:
  "ret_int r = Some (v, outs, s) \<Longrightarrow> outs = []" "ret_void q = Some (v, outs, s) \<Longrightarrow> outs = []"
  "ret_wait w = Some (v, outs, s) \<Longrightarrow> outs = []"
  by (auto simp: ret_int_def ret_void_def ret_wait_def)

lemma cons_read_output:
  assumes "ret_cons_read (cons_read a b s) = Some (v, outs, s')" and "out \<in> set outs" and "in_syscall s = SYSCALL_CONS_READ"
  shows "out_ok out"
proof -
  let ?p = "check_pointer a SYSCALL_CONS_READ s"
  obtain r t where r: "cons_read a b s = Some (?p, r, t)" "?p \<noteq> 0 \<or> read_so_far r = []"
    using assms(1) by (auto simp: ret_cons_read_def cons_read_def Let_def bind_eq_Some_conv split: if_splits)
  then have "out = Bytes ?p (read_so_far r)"
    using assms(1,2) by (cases r) (auto simp: ret_cons_read_def)
  then show ?thesis using out_okI [OF assms(3) r(2)] by simp
qed

lemma read_output:
  assumes "read fd b c s = Some (v, p, t, s')" and "in_syscall s = SYSCALL_READ"
  shows "out_ok (Bytes p t)"
proof -
  have "p = check_pointer b SYSCALL_READ s \<and> (p \<noteq> 0 \<or> t = [])"
    using assms(1) by (auto simp: read_def Let_def bind_eq_Some_conv split: if_splits)
  then show ?thesis using out_okI [OF assms(2)] by blast
qed

lemma getcwd_output:
  assumes "getcwd a b s = Some (p, t)" and "in_syscall s = SYSCALL_GETCWD"
  shows "out_ok (Bytes p t)"
proof -
  have "p = check_pointer a SYSCALL_GETCWD s \<and> (p \<noteq> 0 \<or> t = [])"
    using assms(1) by (auto simp: getcwd_def Let_def bind_eq_Some_conv split: if_splits)
  then show ?thesis using out_okI [OF assms(2)] by blast
qed

lemma readdir_output:
  assumes "readdir fd b i s = Some (v, p, Some e)" and "in_syscall s = SYSCALL_READDIR"
  shows "out_ok (Dirent p e)"
proof -
  have "p = check_pointer b SYSCALL_READDIR s \<and> p \<noteq> 0"
    using assms(1) by (auto simp: readdir_def Let_def bind_eq_Some_conv split: if_splits)
  then show ?thesis using check_pointer_user [OF assms(2), of b] by (auto simp: out_ok_def)
qed

lemma syscalls_0_outputs: "syscalls_0 env code s = Some (v, outs, s') \<Longrightarrow> outs = []"
  by (auto simp: syscalls_0_def dest: ret_no_outputs split: if_splits)

lemma syscalls_1_outputs: "syscalls_1 code a s = Some (v, outs, s') \<Longrightarrow> outs = []"
  by (auto simp: syscalls_1_def bind_eq_Some_conv dest: ret_no_outputs split: if_splits)

lemma syscalls_2_outputs:
  assumes "syscalls_2 env code a b s = Some (v, outs, s')" and "out \<in> set outs" and "in_syscall s = code" and "code \<noteq> SYSCALL_FSTAT"
  shows "out_ok out"
proof -
  consider "code = SYSCALL_CONS_READ" | "code = SYSCALL_GETCWD" | "code \<noteq> SYSCALL_CONS_READ" "code \<noteq> SYSCALL_GETCWD" by blast
  then show ?thesis
  proof cases
    case 1
    then have "ret_cons_read (cons_read a b s) = Some (v, outs, s')" using assms(1) by (simp add: syscalls_2_def syscall_codes)
    then show ?thesis using assms(2,3) 1 by (intro cons_read_output) simp_all
  next
    case 2
    then obtain p t where "getcwd a b s = Some (p, t)" "outs = [Bytes p t]" using assms(1) by (auto simp: syscalls_2_def syscall_codes)
    then show ?thesis using getcwd_output [of a b s p t] assms(2,3) 2 by simp
  next
    case 3
    then have "outs = []" using assms(1,4) by (auto simp: syscalls_2_def bind_eq_Some_conv dest: ret_no_outputs split: if_splits)
    with assms(2) show ?thesis by simp
  qed
qed

lemma syscalls_3_outputs:
  assumes "syscalls_3 code a b c s = Some (v, outs, s')" and "out \<in> set outs" and "in_syscall s = code"
  shows "out_ok out"
proof -
  consider "code = SYSCALL_READDIR" | "code = SYSCALL_READ" | "code \<noteq> SYSCALL_READDIR" "code \<noteq> SYSCALL_READ" by blast
  then show ?thesis
  proof cases
    case 1
    then obtain w p e where e: "readdir (sint a) b (sint c) s = Some (w, p, e)" "outs = map (Dirent p) (case e of None \<Rightarrow> [] | Some e \<Rightarrow> [e])"
      using assms(1) by (auto simp: syscalls_3_def syscall_codes)
    then obtain d where "e = Some d" "out = Dirent p d" using assms(2) by (cases e) auto
    then show ?thesis using readdir_output [of "sint a" b "sint c" s w p d] e(1) assms(3) 1 by simp
  next
    case 2
    then obtain w p t u where "read (sint a) b c s = Some (w, p, t, u)" "outs = [Bytes p t]"
      using assms(1) by (auto simp: syscalls_3_def syscall_codes)
    then show ?thesis using read_output [of "sint a" b c s w p t u] assms(2,3) 2 by simp
  next
    case 3
    then have "outs = []" using assms(1) by (auto simp: syscalls_3_def bind_eq_Some_conv dest: ret_no_outputs split: if_splits)
    with assms(2) show ?thesis by simp
  qed
qed

lemma syscalls_5_outputs: "syscalls_5 env code a b c d e s = Some (v, outs, s') \<Longrightarrow> outs = []"
  by (auto simp: syscalls_5_def bind_eq_Some_conv dest: ret_no_outputs split: if_splits)

lemma leave_syscall_Some:
  assumes "leave_syscall cur r = Some (v, outs, s')"
  obtains t where "r = Some (v, outs, t)" "s' = (if pid_cour t = cur then t\<lparr>in_syscall := 0xff\<rparr> else t)"
  using assms by (auto simp: leave_syscall_def)

lemma int49_outputs:
  assumes "int49 env eax ebx ecx edx esi edi s = Some (v, outs, s')" and "uint eax \<noteq> SYSCALL_FSTAT" and "out \<in> set outs"
  shows "out_ok out"
proof -
  let ?s = "s\<lparr>in_syscall := uint eax\<rparr>"
  consider "eax < 0x20" | "\<not> eax < 0x20" "eax < 0x40" | "\<not> eax < 0x40" "eax < 0x60" | "\<not> eax < 0x60" "eax < 0x70" |
    "\<not> eax < 0x70" "eax < 0x80" | "\<not> eax < 0x80" by linarith
  then show ?thesis
  proof cases
    case 1
    with assms(1,3) show ?thesis
      by (auto simp: int49_def Let_def syscall_handler0_def elim!: leave_syscall_Some dest: syscalls_0_outputs)
  next
    case 2
    with assms(1,3) show ?thesis
      by (auto simp: int49_def Let_def syscall_handler1_def elim!: leave_syscall_Some dest: syscalls_1_outputs)
  next
    case 3
    then have "\<not> eax < 0x20" by (simp add: word_less_nat_alt)
    with 3 assms(1) obtain t where "syscalls_2 env (uint eax) ebx ecx ?s = Some (v, outs, t)"
      by (auto simp: int49_def Let_def syscall_handler2_def elim!: leave_syscall_Some)
    from syscalls_2_outputs [OF this assms(3)] assms(2) show ?thesis by simp
  next
    case 4
    then have "\<not> eax < 0x20" "\<not> eax < 0x40" by (simp_all add: word_less_nat_alt)
    with 4 assms(1) obtain t where "syscalls_3 (uint eax) ebx ecx edx ?s = Some (v, outs, t)"
      by (auto simp: int49_def Let_def syscall_handler3_def elim!: leave_syscall_Some)
    from syscalls_3_outputs [OF this assms(3)] show ?thesis by simp
  next
    case 5
    then have "\<not> eax < 0x20" "\<not> eax < 0x40" "\<not> eax < 0x60" by (simp_all add: word_less_nat_alt)
    with 5 assms(1,3) show ?thesis by (simp add: int49_def Let_def syscall_handler4_def)
  next
    case 6
    then have "\<not> eax < 0x20" "\<not> eax < 0x40" "\<not> eax < 0x60" "\<not> eax < 0x70" by (simp_all add: word_less_nat_alt)
    with 6 assms(1,3) show ?thesis
      by (auto simp: int49_def Let_def syscall_handler5_def elim!: leave_syscall_Some dest: syscalls_5_outputs)
  qed
qed

text \<open>Where a switch to a process with a pending signal pushes a return address: below the top of the stack of that process.\<close>

definition signal_frame :: "kstate \<Rightarrow> u32 \<Rightarrow> bool" where
  "signal_frame s a \<longleftrightarrow> (\<exists>p. in_tab p \<and> p_sigs (tab_proc s p) \<noteq> Some [] \<and> a = p_esp_user (tab_proc s p) - 4)"

lemma trt_sigs_umem:
  assumes "trt_sigs s = Some s'" and "umem s' a \<noteq> umem s a"
  shows "signal_frame s a"
proof -
  have "in_tab (pid_cour s) \<and> p_sigs (tab_proc s (pid_cour s)) \<noteq> Some [] \<and> a = p_esp_user (tab_proc s (pid_cour s)) - 4"
    using assms by (auto simp: trt_sigs_def Let_def bind_eq_Some_conv split: if_splits prod.splits)
  then show ?thesis unfolding signal_frame_def by blast
qed

lemma context_switch_umem:
  assumes "context_switch s = Some s'" and "umem s' a \<noteq> umem s a"
  shows "signal_frame s a"
  using assms trt_sigs_umem [of s _ a] by (auto simp: context_switch_def garbage_collector_def)

lemma signal_frame_cong:
  assumes "\<And>p. p_sigs (tab_proc t p) = p_sigs (tab_proc s p)" and "\<And>p. p_esp_user (tab_proc t p) = p_esp_user (tab_proc s p)"
  shows "signal_frame t a = signal_frame s a"
  by (simp add: signal_frame_def assms)

lemma wakeup_process_umem:
  assumes "wakeup_process p s = Some (r, s')"
  shows "umem s' = umem s" "signal_frame s' a = signal_frame s a"
  using assms by (auto simp: wakeup_process_def Let_def bind_eq_Some_conv intro!: signal_frame_cong split: if_splits)

lemma switch_umem:
  assumes "context_switch (upd_proc p (\<lambda>c. c\<lparr>p_state := ps\<rparr>) s) = Some s'" and "umem s' a \<noteq> umem s a"
  shows "signal_frame s a"
proof -
  have "signal_frame (upd_proc p (\<lambda>c. c\<lparr>p_state := ps\<rparr>) s) a = signal_frame s a" by (rule signal_frame_cong) auto
  with context_switch_umem [OF assms(1), of a] assms(2) show ?thesis by simp
qed

lemma scheduler_umem:
  assumes "scheduler s = Some s'" and "umem s' a \<noteq> umem s a"
  shows "signal_frame s a"
proof -
  have sw: "signal_frame s a" if "context_switch (upd_proc p (\<lambda>c. c\<lparr>p_state := STATE_ACTIVE\<rparr>) (t\<lparr>pid_cour := q\<rparr>)) = Some s'"
    "umem t = umem s" "signal_frame t a = signal_frame s a" for p q t
  proof -
    have "signal_frame (t\<lparr>pid_cour := q\<rparr>) a = signal_frame t a" by (rule signal_frame_cong) auto
    then show ?thesis using switch_umem [OF that(1), of a] that(2,3) assms(2) by simp
  qed
  have links: "signal_frame (s\<lparr>k_links := L\<rparr>) a = signal_frame s a" for L by (rule signal_frame_cong) auto
  show ?thesis
  proof (cases "pid_cour s = 0")
    case True
    with assms(1) obtain L where "s' = s\<lparr>k_links := L\<rparr> \<or>
        (\<exists>p q. context_switch (upd_proc p (\<lambda>c. c\<lparr>p_state := STATE_ACTIVE\<rparr>) (s\<lparr>k_links := L\<rparr>\<lparr>pid_cour := q\<rparr>)) = Some s')"
      by (auto simp: scheduler_def Let_def bind_eq_Some_conv split: option.splits if_splits)
    then show ?thesis using sw [where t = "s\<lparr>k_links := L\<rparr>"] links [of L] assms(2) by auto
  next
    case False
    show ?thesis
    proof (cases "queue_top 0 (k_links s)")
      case None
      have "signal_frame (s\<lparr>pid_cour := 0\<rparr>) a = signal_frame s a" by (rule signal_frame_cong) auto
      with False None assms show ?thesis using context_switch_umem [of "s\<lparr>pid_cour := 0\<rparr>" s' a]
        by (auto simp: scheduler_def Let_def split: if_splits)
    next
      case (Some e)
      have "s' = s \<or> (\<exists>t p q. context_switch (upd_proc p (\<lambda>c. c\<lparr>p_state := STATE_ACTIVE\<rparr>) (t\<lparr>pid_cour := q\<rparr>)) = Some s' \<and>
          umem t = umem s \<and> signal_frame t a = signal_frame s a)"
      proof (cases "p_state (tab_proc s (pid_cour s)) = STATE_ACTIVE")
        case ne: False
        with False Some assms(1) obtain L where
          "context_switch (upd_proc (p_pid (tab_proc s e)) (\<lambda>c. c\<lparr>p_state := STATE_ACTIVE\<rparr>) (s\<lparr>k_links := L, pid_cour := p_pid (tab_proc s e)\<rparr>)) = Some s'"
          by (auto simp: scheduler_def Let_def bind_eq_Some_conv split: if_splits)
        then show ?thesis using links [of L] by (intro disjI2 exI [of _ "s\<lparr>k_links := L\<rparr>"]) auto
      next
        case True
        show ?thesis
        proof (cases "p_priority (tab_proc s e) \<ge> p_priority (tab_proc s (pid_cour s))")
          case ge: True
          with False Some True assms(1) obtain L r t where t: "wakeup_process (pid_cour s) (s\<lparr>k_links := L\<rparr>) = Some (r, t)"
            "context_switch (upd_proc (p_pid (tab_proc t e)) (\<lambda>c. c\<lparr>p_state := STATE_ACTIVE\<rparr>) (t\<lparr>pid_cour := p_pid (tab_proc t e)\<rparr>)) = Some s'"
            by (auto simp: scheduler_def Let_def bind_eq_Some_conv split: if_splits)
          have "umem t = umem s" "signal_frame t a = signal_frame s a"
            using wakeup_process_umem [OF t(1)] links by simp_all
          with t(2) show ?thesis by blast
        next
          case lt: False
          then have "s' = s" using False Some True assms(1) by (simp add: scheduler_def Let_def split: if_splits)
          then show ?thesis ..
        qed
      qed
      then show ?thesis using sw assms(2) by blast
    qed
  qed
qed

lemma reap_child_umem:
  assumes "reap_child c rp s = Some (r, s')" and "umem s' a \<noteq> umem s a"
  shows "rp \<noteq> 0 \<and> a = rp"
  using assms by (auto simp: reap_child_def Let_def bind_eq_Some_conv split: if_splits)

lemma kl_iterator_frame:
  "kl_iterator l s = Some (cs, t) \<Longrightarrow> umem t = umem s \<and> tab_proc t = tab_proc s"
  by (auto simp: kl_iterator_def mem_alloc_def Let_def bind_eq_Some_conv split: list.splits if_splits)

lemma block_umem:
  assumes "scheduler (upd_proc p (\<lambda>c. c\<lparr>p_state := ps, p_pid_wait := x\<rparr>) t) = Some s'" and "umem t = umem s" and "tab_proc t = tab_proc s"
    and "umem s' a \<noteq> umem s a"
  shows "signal_frame s a"
proof -
  have "signal_frame (upd_proc p (\<lambda>c. c\<lparr>p_state := ps, p_pid_wait := x\<rparr>) t) a = signal_frame s a"
    by (rule signal_frame_cong) (auto simp: assms(3))
  with scheduler_umem [OF assms(1), of a] assms(2,4) show ?thesis by simp
qed

lemma waitpid_umem:
  assumes "waitpid pid rp s = Some (r, s')" and "umem s' a \<noteq> umem s a"
  shows "check_pointer rp SYSCALL_WAITPID s \<noteq> 0 \<and> a = check_pointer rp SYSCALL_WAITPID s \<or> signal_frame s a"
proof -
  let ?rp = "check_pointer rp SYSCALL_WAITPID s"
  have r: "?rp \<noteq> 0 \<and> a = ?rp" if "reap_child c ?rp t = Some (q, s')" "kl_iterator l s = Some (cs, t)" for c q t l cs
    using reap_child_umem [OF that(1), of a] kl_iterator_frame [OF that(2)] assms(2) by simp
  have b: "signal_frame s a" if "scheduler (upd_proc p (\<lambda>c. c\<lparr>p_state := STATE_WAIT_CHILD, p_pid_wait := x\<rparr>) t) = Some s'"
    "kl_iterator l s = Some (cs, t)" for p x t l cs
    using block_umem [OF that(1)] kl_iterator_frame [OF that(2)] assms(2) by blast
  show ?thesis
  proof (cases "umem s' = umem s")
    case True
    with assms(2) show ?thesis by simp
  next
    case False
    then obtain l cs t where it: "kl_iterator l s = Some (cs, t)" "(\<exists>c q. reap_child c ?rp t = Some (q, s')) \<or>
        (\<exists>p x. scheduler (upd_proc p (\<lambda>c. c\<lparr>p_state := STATE_WAIT_CHILD, p_pid_wait := x\<rparr>) t) = Some s') \<or> s' = t"
      using assms(1) unfolding waitpid_def Let_def
      by (auto simp: bind_eq_Some_conv split: if_splits option.splits) blast+
    then show ?thesis using r b kl_iterator_frame [OF it(1)] False by metis
  qed
qed

lemma clock_settings_umem:
  assumes "umem (clock_settings q t s) a \<noteq> umem s a"
  shows "\<exists>p \<in> {q, t}. check_pointer p SYSCALL_CLOCK_SETTINGS s \<noteq> 0 \<and> a = check_pointer p SYSCALL_CLOCK_SETTINGS s"
  using assms by (auto simp: clock_settings_def Let_def check_pointer_def is_in_syscall_def split: if_splits)

lemma cons_ioctl_umem:
  assumes "cons_ioctl req p rgb s = Some s'" and "umem s' a \<noteq> umem s a"
  shows "\<exists>q. q = check_pointer p SYSCALL_CONS_IOCTL s \<and> q \<noteq> 0 \<and> a \<in> {q, q + 4, q + 8, q + 12}"
  using assms
  by (auto simp: cons_ioctl_def Let_def outb_def upd_vc_def ioctl_req_def split: if_splits prod.splits option.splits cons_ioctl_req.splits)

lemma int49_1:
  assumes "0x20 \<le> code" "code < 0x40"
  shows "int49 env (word_of_int code) ebx ecx edx esi edi s =
    leave_syscall (pid_cour s) (syscalls_1 code ebx (s\<lparr>in_syscall := code\<rparr>))"
proof -
  have "uint (word_of_int code :: u32) = code" using assms by (simp add: take_bit_int_eq_self unsigned_of_int)
  with assms show ?thesis by (simp add: int49_def Let_def syscall_handler1_def word_less_def unsigned_of_int)
qed

lemma int49_2:
  assumes "0x40 \<le> code" "code < 0x60"
  shows "int49 env (word_of_int code) ebx ecx edx esi edi s =
    leave_syscall (pid_cour s) (syscalls_2 env code ebx ecx (s\<lparr>in_syscall := code\<rparr>))"
proof -
  have "uint (word_of_int code :: u32) = code" using assms by (simp add: take_bit_int_eq_self unsigned_of_int)
  with assms show ?thesis by (simp add: int49_def Let_def syscall_handler2_def word_less_def unsigned_of_int)
qed

text \<open>The calls on semaphores, processes and the clock, by their codes.\<close>

lemma int49_calls_1:
  "int49 env (word_of_int SYSCALL_SCREATE) a b edx esi edi s =
     leave_syscall (pid_cour s) (ret_int (screate (short_arg a) (s\<lparr>in_syscall := SYSCALL_SCREATE\<rparr>)))"
  "int49 env (word_of_int SYSCALL_WAIT) a b edx esi edi s =
     leave_syscall (pid_cour s) (ret_wait (wait (sint a) (s\<lparr>in_syscall := SYSCALL_WAIT\<rparr>)))"
  "int49 env (word_of_int SYSCALL_TRY_WAIT) a b edx esi edi s =
     leave_syscall (pid_cour s) (ret_int (Some (try_wait (sint a) (s\<lparr>in_syscall := SYSCALL_TRY_WAIT\<rparr>))))"
  "int49 env (word_of_int SYSCALL_SIGNAL) a b edx esi edi s =
     leave_syscall (pid_cour s) (ret_int (signal (sint a) (s\<lparr>in_syscall := SYSCALL_SIGNAL\<rparr>)))"
  "int49 env (word_of_int SYSCALL_SCOUNT) a b edx esi edi s =
     leave_syscall (pid_cour s) (ret_int (Some (scount (sint a) (s\<lparr>in_syscall := SYSCALL_SCOUNT\<rparr>), (s\<lparr>in_syscall := SYSCALL_SCOUNT\<rparr>))))"
  "int49 env (word_of_int SYSCALL_SDELETE) a b edx esi edi s =
     leave_syscall (pid_cour s) (ret_int (sdelete (sint a) (s\<lparr>in_syscall := SYSCALL_SDELETE\<rparr>)))"
  "int49 env (word_of_int SYSCALL_KILL) a b edx esi edi s =
     leave_syscall (pid_cour s) (ret_int (kill (sint a) (s\<lparr>in_syscall := SYSCALL_KILL\<rparr>)))"
  "int49 env (word_of_int SYSCALL_GETPRIO) a b edx esi edi s =
     leave_syscall (pid_cour s) (ret_int (map_option (\<lambda>v. (v, (s\<lparr>in_syscall := SYSCALL_GETPRIO\<rparr>))) (getprio (sint a) (s\<lparr>in_syscall := SYSCALL_GETPRIO\<rparr>))))"
  "int49 env (word_of_int SYSCALL_EXIT) a b edx esi edi s =
     leave_syscall (pid_cour s) (ret_void (exit (sint a) (s\<lparr>in_syscall := SYSCALL_EXIT\<rparr>)))"
  "int49 env (word_of_int SYSCALL_WAIT_CLOCK) a b edx esi edi s =
     leave_syscall (pid_cour s) (ret_void (wait_clock a (s\<lparr>in_syscall := SYSCALL_WAIT_CLOCK\<rparr>)))"
  "int49 env (word_of_int SYSCALL_USLEEP) a b edx esi edi s =
     leave_syscall (pid_cour s) (ret_void (usleep a (s\<lparr>in_syscall := SYSCALL_USLEEP\<rparr>)))"
  by (subst int49_1; simp add: syscalls_1_def syscall_codes)+

lemma int49_calls_2:
  "int49 env (word_of_int SYSCALL_SIGNALN) a b edx esi edi s =
     leave_syscall (pid_cour s) (ret_int (signaln (sint a) (short_arg b) (s\<lparr>in_syscall := SYSCALL_SIGNALN\<rparr>)))"
  "int49 env (word_of_int SYSCALL_SRESET) a b edx esi edi s =
     leave_syscall (pid_cour s) (ret_int (sreset (sint a) (short_arg b) (s\<lparr>in_syscall := SYSCALL_SRESET\<rparr>)))"
  "int49 env (word_of_int SYSCALL_CHPRIO) a b edx esi edi s =
     leave_syscall (pid_cour s) (ret_int (chprio (sint a) (sint b) (s\<lparr>in_syscall := SYSCALL_CHPRIO\<rparr>)))"
  "int49 env (word_of_int SYSCALL_WAITPID) a b edx esi edi s =
     leave_syscall (pid_cour s) (ret_wait (waitpid (sint a) b (s\<lparr>in_syscall := SYSCALL_WAITPID\<rparr>)))"
  "int49 env (word_of_int SYSCALL_CLOCK_SETTINGS) a b edx esi edi s =
     leave_syscall (pid_cour s) (ret_void (Some (clock_settings a b (s\<lparr>in_syscall := SYSCALL_CLOCK_SETTINGS\<rparr>))))"
  by (subst int49_2; simp add: syscalls_2_def syscall_codes)+

lemmas int49_calls = int49_calls_1 int49_calls_2

text \<open>
  The errors of the calls on semaphores and processes, which the code and its comments give by their causes (invalid identifier, bad counter, no child and so on):
  which value the call \<open>code\<close> with the arguments \<open>a\<close> and \<open>b\<close> (and \<open>d\<close>, the name, for \<^verbatim>\<open>start\<close>) reports, if it fails for that cause.

  Not in the tables, because the call does not just report: \<^verbatim>\<open>screate\<close> without memory for the list answers -3 and loses the identifier (lemma
  \<open>screate_loses_sid\<close>), \<^verbatim>\<open>start\<close> without memory for the list of children has already filled the free descriptor, and \<^verbatim>\<open>chprio\<close> of a PID outside the table
  reads outside it before it could answer -1, as \<^verbatim>\<open>getprio\<close> of a negative PID does.
\<close>

definition dead_or_free :: "int \<Rightarrow> kstate \<Rightarrow> bool" where
  "dead_or_free pid s \<longleftrightarrow> p_valide (tab_proc s pid) = 0 \<or> p_state (tab_proc s pid) = STATE_ZOMBIE \<or> p_state (tab_proc s pid) = STATE_DEAD"

definition sem_error :: "int \<Rightarrow> u32 \<Rightarrow> u32 \<Rightarrow> kstate \<Rightarrow> int option" where
  "sem_error code a b s =
     (if code = SYSCALL_SCREATE then (if short_arg a < 0 \<or> sid_libres s = Some [] then Some (-1) else None)
      else if code \<in> {SYSCALL_WAIT, SYSCALL_TRY_WAIT, SYSCALL_SIGNAL, SYSCALL_SIGNALN, SYSCALL_SCOUNT, SYSCALL_SDELETE, SYSCALL_SRESET} then
        if sem_invalid (sint a) s then Some (-1)
        else if code = SYSCALL_SRESET \<and> short_arg b < 0 then Some (-1)
        else if code = SYSCALL_TRY_WAIT \<and> s_c (semaphores s (sint a)) \<le> 0 then Some (-3)
        else if code = SYSCALL_WAIT \<and> s_c (semaphores s (sint a)) = SHRT_MIN then Some (-2)
        else if code = SYSCALL_SIGNAL \<and> s_c (semaphores s (sint a)) = SHRT_MAX then Some (-2)
        else if code = SYSCALL_SIGNALN \<and> short_arg b < 0 then Some (-3)
        else if code = SYSCALL_SIGNALN \<and> s_c (semaphores s (sint a)) > 0 \<and> s_c (semaphores s (sint a)) + short_arg b > SHRT_MAX then Some (-2)
        else None
      else None)"

definition proc_error :: "int \<Rightarrow> u32 \<Rightarrow> u32 \<Rightarrow> kstate \<Rightarrow> int option" where
  "proc_error code a b s =
     (if code = SYSCALL_KILL then (if sint a \<le> 1 \<or> sint a > NBPROC \<or> dead_or_free (sint a) s then Some (-1) else None)
      else if code = SYSCALL_GETPRIO then (if sint a = 0 \<or> sint a > NBPROC \<or> in_tab (sint a) \<and> dead_or_free (sint a) s then Some (-1) else None)
      else if code = SYSCALL_CHPRIO \<and> in_tab (sint a) then
        (if dead_or_free (sint a) s then Some (-1) else if sint b \<le> 0 \<or> sint b > MAXPRIO then Some (-2) else None)
      else if code = SYSCALL_WAITPID \<and> in_tab (pid_cour s) then
        (if sint a = pid_cour s then Some (-1) else if sint a = 0 then Some (-2)
         else if sint a < 0 \<and> p_children (tab_proc s (pid_cour s)) = Some [] then Some (-1)
         else if sint a > 0 \<and> fst (mem_alloc s) \<noteq> 0 \<and> (case p_children (tab_proc s (pid_cour s)) of Some l \<Rightarrow> sint a \<notin> set l | None \<Rightarrow> False) then Some (-3)
         else None)
      else None)"

definition start_error :: "int \<Rightarrow> u32 \<Rightarrow> u32 \<Rightarrow> kstate \<Rightarrow> int option" where
  "start_error code b d s =
     (if code = SYSCALL_START \<and> string_arg d s \<noteq> None \<and>
         (b > 0xffffffe7 \<or> free_pid s = None \<or> fst (mem_alloc s) = 0 \<or> fst (mem_alloc (snd (mem_alloc s))) = 0)
      then Some (-1) else None)"

lemma dead_or_free_in_syscall [simp]: "dead_or_free p (s\<lparr>in_syscall := c\<rparr>) = dead_or_free p s"
  by (simp add: dead_or_free_def)

lemma sem_invalid_in_syscall [simp]: "sem_invalid i (s\<lparr>in_syscall := c\<rparr>) = sem_invalid i s"
  by (simp add: sem_invalid_def)

lemma leave_value: "leave_syscall (pid_cour s) (ret_int (Some (v, s\<lparr>in_syscall := c\<rparr>))) = Some (Value (word_of_int v), [], s\<lparr>in_syscall := 0xff\<rparr>)"
  by (simp add: leave_syscall_def ret_int_def)

lemma leave_wait: "leave_syscall (pid_cour s) (ret_wait (Some (Some v, s\<lparr>in_syscall := c\<rparr>))) = Some (Value (word_of_int v), [], s\<lparr>in_syscall := 0xff\<rparr>)"
  by (simp add: leave_syscall_def ret_wait_def)

lemma sem_error_call:
  assumes "sem_error code a b s = Some e"
  shows "int49 env (word_of_int code) a b edx esi edi s = Some (Value (word_of_int e), [], s\<lparr>in_syscall := 0xff\<rparr>)"
proof -
  note err = assms [unfolded sem_error_def]
  consider "code = SYSCALL_SCREATE" | "code = SYSCALL_WAIT" | "code = SYSCALL_TRY_WAIT" | "code = SYSCALL_SIGNAL" | "code = SYSCALL_SIGNALN"
    | "code = SYSCALL_SCOUNT" | "code = SYSCALL_SDELETE" | "code = SYSCALL_SRESET"
    using assms by (auto simp: sem_error_def split: if_splits)
  then show ?thesis
  proof cases
    case 1
    then have "screate (short_arg a) (s\<lparr>in_syscall := SYSCALL_SCREATE\<rparr>) = Some (e, s\<lparr>in_syscall := SYSCALL_SCREATE\<rparr>)"
      using err by (auto simp: screate_def split: if_splits)
    with 1 show ?thesis by (simp add: int49_calls leave_value)
  next
    case 2
    then have "wait (sint a) (s\<lparr>in_syscall := SYSCALL_WAIT\<rparr>) = Some (Some e, s\<lparr>in_syscall := SYSCALL_WAIT\<rparr>)"
      using err by (auto simp: wait_def syscall_codes split: if_splits)
    with 2 show ?thesis by (simp add: int49_calls leave_wait)
  next
    case 3
    then have "try_wait (sint a) (s\<lparr>in_syscall := SYSCALL_TRY_WAIT\<rparr>) = (e, s\<lparr>in_syscall := SYSCALL_TRY_WAIT\<rparr>)"
      using err by (auto simp: try_wait_def syscall_codes split: if_splits)
    with 3 show ?thesis by (simp add: int49_calls leave_value)
  next
    case 4
    then have "signal (sint a) (s\<lparr>in_syscall := SYSCALL_SIGNAL\<rparr>) = Some (e, s\<lparr>in_syscall := SYSCALL_SIGNAL\<rparr>)"
      using err by (auto simp: signal_def syscall_codes split: if_splits)
    with 4 show ?thesis by (simp add: int49_calls leave_value)
  next
    case 5
    then have "signaln (sint a) (short_arg b) (s\<lparr>in_syscall := SYSCALL_SIGNALN\<rparr>) = Some (e, s\<lparr>in_syscall := SYSCALL_SIGNALN\<rparr>)"
      using err by (auto simp: signaln_def syscall_codes split: if_splits)
    with 5 show ?thesis by (simp add: int49_calls leave_value)
  next
    case 6
    then have "scount (sint a) (s\<lparr>in_syscall := SYSCALL_SCOUNT\<rparr>) = e"
      using err by (auto simp: scount_def syscall_codes split: if_splits)
    with 6 show ?thesis by (simp add: int49_calls leave_value)
  next
    case 7
    then have "sdelete (sint a) (s\<lparr>in_syscall := SYSCALL_SDELETE\<rparr>) = Some (e, s\<lparr>in_syscall := SYSCALL_SDELETE\<rparr>)"
      using err by (auto simp: sdelete_def syscall_codes split: if_splits)
    with 7 show ?thesis by (simp add: int49_calls leave_value)
  next
    case 8
    then have "sreset (sint a) (short_arg b) (s\<lparr>in_syscall := SYSCALL_SRESET\<rparr>) = Some (e, s\<lparr>in_syscall := SYSCALL_SRESET\<rparr>)"
      using err by (auto simp: sreset_def syscall_codes split: if_splits)
    with 8 show ?thesis by (simp add: int49_calls leave_value)
  qed
qed

lemma mem_alloc_allocs: "snd (mem_alloc s) = s\<lparr>allocs := tl (allocs s)\<rparr>"
  by (cases "allocs s") (simp_all add: mem_alloc_def)

lemma proc_error_call:
  assumes "proc_error code a b s = Some e" and "code \<noteq> SYSCALL_WAITPID \<or> e \<noteq> -3"
  shows "int49 env (word_of_int code) a b edx esi edi s = Some (Value (word_of_int e), [], s\<lparr>in_syscall := 0xff\<rparr>)"
proof -
  note err = assms(1) [unfolded proc_error_def]
  consider "code = SYSCALL_KILL" | "code = SYSCALL_GETPRIO" | "code = SYSCALL_CHPRIO" | "code = SYSCALL_WAITPID"
    using assms(1) by (auto simp: proc_error_def split: if_splits)
  then show ?thesis
  proof cases
    case 1
    then have "kill (sint a) (s\<lparr>in_syscall := SYSCALL_KILL\<rparr>) = Some (e, s\<lparr>in_syscall := SYSCALL_KILL\<rparr>)"
      using err by (auto simp: kill_def dead_or_free_def split: if_splits)
    with 1 show ?thesis by (simp add: int49_calls leave_value)
  next
    case 2
    then have "getprio (sint a) (s\<lparr>in_syscall := SYSCALL_GETPRIO\<rparr>) = Some e"
      using err by (auto simp: getprio_def dead_or_free_def syscall_codes in_tab_def split: if_splits)
    with 2 show ?thesis by (simp add: int49_calls leave_value)
  next
    case 3
    then have "chprio (sint a) (sint b) (s\<lparr>in_syscall := SYSCALL_CHPRIO\<rparr>) = Some (e, s\<lparr>in_syscall := SYSCALL_CHPRIO\<rparr>)"
      using err by (auto simp: chprio_def dead_or_free_def syscall_codes Let_def split: if_splits)
    with 3 show ?thesis by (simp add: int49_calls leave_value)
  next
    case 4
    then have "waitpid (sint a) b (s\<lparr>in_syscall := SYSCALL_WAITPID\<rparr>) = Some (Some e, s\<lparr>in_syscall := SYSCALL_WAITPID\<rparr>)"
      using err assms(2) 4 by (auto simp: waitpid_def syscall_codes Let_def split: if_splits)
    with 4 show ?thesis by (simp add: int49_calls leave_wait)
  qed
qed

text \<open>These two have asked the allocator before they fail.\<close>

lemma waitpid_no_child:
  assumes "proc_error SYSCALL_WAITPID a b s = Some (-3)"
  shows "int49 env (word_of_int SYSCALL_WAITPID) a b edx esi edi s = Some (Value (word_of_int (-3)), [], s\<lparr>in_syscall := 0xff, allocs := tl (allocs s)\<rparr>)"
proof -
  let ?s = "s\<lparr>in_syscall := SYSCALL_WAITPID\<rparr>"
  obtain l where l: "in_tab (pid_cour s)" "sint a \<noteq> pid_cour s" "0 < sint a" "fst (mem_alloc s) \<noteq> 0" "p_children (tab_proc s (pid_cour s)) = Some l" "sint a \<notin> set l"
    using assms by (auto simp: proc_error_def syscall_codes split: if_splits option.splits)
  have "fst (mem_alloc ?s) = fst (mem_alloc s)" by (simp add: mem_alloc_def split: list.split)
  then have "waitpid (sint a) b ?s = Some (Some (-3), ?s\<lparr>allocs := tl (allocs s)\<rparr>)"
    using l by (simp add: waitpid_def Let_def kl_iterator_def split_beta mem_alloc_allocs)
  then show ?thesis by (simp add: int49_calls ret_wait_def leave_syscall_def)
qed

lemma start_error_call:
  assumes "start_error code b d s = Some e"
  shows "\<exists>as. int49 env (word_of_int code) a b c d f s = Some (Value (word_of_int e), [], s\<lparr>in_syscall := 0xff, allocs := as\<rparr>)"
proof -
  let ?s = "s\<lparr>in_syscall := SYSCALL_START\<rparr>"
  obtain name where e: "code = SYSCALL_START" "e = -1" "string_arg d s = Some name"
    "b > 0xffffffe7 \<or> free_pid s = None \<or> fst (mem_alloc s) = 0 \<or> fst (mem_alloc (snd (mem_alloc s))) = 0"
    using assms by (auto simp: start_error_def split: if_splits)
  have al: "fst (mem_alloc ?s) = fst (mem_alloc s)" "fst (mem_alloc (snd (mem_alloc ?s))) = fst (mem_alloc (snd (mem_alloc s)))"
    by (auto simp: mem_alloc_def split: list.split)
  have fp: "free_pid ?s = free_pid s" by (simp add: free_pid_def)
  have "\<exists>as. start en fr x b y name z ?s = Some (-1, ?s\<lparr>allocs := as\<rparr>)" for en fr x y z
  proof (cases "b > 0xffffffe7")
    case True
    then show ?thesis by (intro exI [of _ "allocs s"]) (simp add: start_def)
  next
    case False
    have "\<exists>as. context_create_user en fr x' b' y name z ?s = Some (-1, ?s\<lparr>allocs := as\<rparr>)" for x' b'
    proof (cases "free_pid s")
      case None
      then show ?thesis using fp by (intro exI [of _ "allocs s"]) (simp add: context_create_user_def)
    next
      case (Some q)
      then have "fst (mem_alloc ?s) = 0 \<or> fst (mem_alloc (snd (mem_alloc ?s))) = 0" using False e(4) al by simp
      then show ?thesis using fp Some
        by (intro exI [of _ "tl (tl (allocs s))"]) (simp add: context_create_user_def split_beta Let_def mem_alloc_allocs)
    qed
    then obtain as where "context_create_user en fr (check_pointer x SYSCALL_START ?s) (b + 12) y name z ?s = Some (-1, ?s\<lparr>allocs := as\<rparr>)" by blast
    then show ?thesis using False by (intro exI [of _ as]) (simp add: start_def Let_def)
  qed
  then obtain as where "start (env_entries env) (env_fresh env) a b (sint c) name f ?s = Some (-1, ?s\<lparr>allocs := as\<rparr>)" by blast
  moreover have "string_arg d ?s = Some name" using e(3) by (simp add: string_arg_def)
  moreover have "int49 env (word_of_int SYSCALL_START) a b c d f s = leave_syscall (pid_cour s) (do {
     name \<leftarrow> string_arg d ?s;
     ret_int (start (env_entries env) (env_fresh env) a b (sint c) name f ?s) })"
    by (simp add: int49_def Let_def syscall_handler5_def syscalls_5_def syscall_codes SYSCALL_START_def)
  ultimately show ?thesis using e(1,2) by (intro exI [of _ as]) (simp add: ret_int_def leave_syscall_def)
qed

text \<open>Out of memory, \<^verbatim>\<open>screate\<close> fails with -3, and the identifier it took is neither valid nor free any more.\<close>

lemma screate_loses_sid:
  assumes "0 \<le> n" and "sid_libres s = Some (i # fl)" and "s_valide (semaphores s i) = 0" and "allocs s = []"
  shows "\<exists>s'. screate n s = Some (-3, s') \<and> sid_libres s' = Some fl \<and> s_valide (semaphores s' i) = 0"
  using assms by (simp add: screate_def kl_new_def mem_alloc_def seq_get_first_def upd_sem_def)

text \<open>Codes that no table has: the handler calls through a null or a stray pointer.\<close>

definition known_codes :: "int list" where
  "known_codes = [0x01..0x08] @ [0x20..0x2f] @ [0x40..0x4c] @ [0x60..0x62] @ [0xa0]"

lemma unknown_code_faults:
  assumes "code \<notin> set known_codes" and "0 \<le> code" and "code < 0x70 \<or> 0x80 \<le> code" and "code < 0x100"
  shows "int49 env (word_of_int code) ebx ecx edx esi edi s = None"
proof -
  have k: "code \<in> set known_codes \<longleftrightarrow> code \<in> set [0x01, 0x02, 0x03, 0x04, 0x05, 0x06, 0x07, 0x08, 0x20, 0x21, 0x22, 0x23, 0x24, 0x25, 0x26,
    0x27, 0x28, 0x29, 0x2a, 0x2b, 0x2c, 0x2d, 0x2e, 0x2f, 0x40, 0x41, 0x42, 0x43, 0x44, 0x45, 0x46, 0x47, 0x48, 0x49, 0x4a, 0x4b, 0x4c,
    0x60, 0x61, 0x62, 0xa0]"
    by (simp add: known_codes_def upto_rec1)
  have u: "uint (word_of_int code :: u32) = code" using assms by (simp add: take_bit_int_eq_self unsigned_of_int)
  have "syscalls_0 env code t = None" "syscalls_1 code ebx t = None" "syscalls_2 env code ebx ecx t = None"
    "syscalls_3 code ebx ecx edx t = None" "syscalls_5 env code ebx ecx edx esi edi t = None" for t
    using assms(1) unfolding k by (simp_all add: syscalls_0_def syscalls_1_def syscalls_2_def syscalls_3_def syscalls_5_def syscall_codes)
  with assms(3) u show ?thesis by (simp add: int49_def Let_def handler_defs word_less_def) linarith
qed

lemma clock_code_faults: "int49 env (word_of_int SYSCALL_CLOCK) ebx ecx edx esi edi s = None"
  by (simp add: int49_def Let_def syscall_handler0_def leave_syscall_def syscalls_0_def syscall_codes)

text \<open>\<^verbatim>\<open>fstat\<close> does not check its pointer: with an open descriptor it stores at any address but 0.\<close>

lemma fstat_stores_anywhere:
  assumes "cur_fd (sint fd) (s\<lparr>in_syscall := SYSCALL_FSTAT\<rparr>) = Some d" and "f_present d \<noteq> 0" and "f_node d = Some np" and "p \<noteq> 0"
  shows "\<exists>st s'. int49 env (word_of_int SYSCALL_FSTAT) fd p edx esi edi s = Some (Value 0, [Stat p st], s')"
proof -
  have "int49 env (word_of_int SYSCALL_FSTAT) fd p edx esi edi s =
    leave_syscall (pid_cour s) (syscalls_2 env SYSCALL_FSTAT fd p (s\<lparr>in_syscall := SYSCALL_FSTAT\<rparr>))"
    by (rule int49_2) (simp_all add: SYSCALL_FSTAT_def)
  then show ?thesis using assms by (simp add: syscalls_2_def syscall_codes fstat_def Let_def leave_syscall_def)
qed

lemma int49_umem:
  assumes "int49 env eax ebx ecx edx esi edi s = Some (v, outs, s')" and "uint eax \<in> {SYSCALL_WAITPID, SYSCALL_CLOCK_SETTINGS, SYSCALL_CONS_IOCTL}"
    and "umem s' a \<noteq> umem s a"
  shows "(\<exists>p. 0x1000000 \<le> p \<and> a \<in> {p, p + 4, p + 8, p + 12}) \<or> signal_frame s a"
proof -
  let ?c = "uint eax" and ?s = "s\<lparr>in_syscall := uint eax\<rparr>"
  have e: "eax = word_of_int ?c" by simp
  have "0x40 \<le> ?c" "?c < 0x60" using assms(2) by (auto simp: syscall_codes)
  then have "int49 env eax ebx ecx edx esi edi s = leave_syscall (pid_cour s) (syscalls_2 env ?c ebx ecx ?s)"
    using int49_2 [of ?c env ebx ecx edx esi edi s] by simp
  then have "leave_syscall (pid_cour s) (syscalls_2 env ?c ebx ecx ?s) = Some (v, outs, s')" using assms(1) by argo
  then obtain t where t: "syscalls_2 env ?c ebx ecx ?s = Some (v, outs, t)" "s' = (if pid_cour t = pid_cour s then t\<lparr>in_syscall := 0xff\<rparr> else t)"
    by (rule leave_syscall_Some)
  then have ch: "umem t a \<noteq> umem s a" using assms(3) by (simp split: if_splits)
  have user: "\<exists>p. 0x1000000 \<le> p \<and> a \<in> {p, p + 4, p + 8, p + 12}"
    if "check_pointer q ?c ?s \<noteq> 0" "a \<in> {check_pointer q ?c ?s, check_pointer q ?c ?s + 4, check_pointer q ?c ?s + 8, check_pointer q ?c ?s + 12}" for q
    using check_pointer_user [of ?s ?c q] that by auto
  have fr: "signal_frame ?s a = signal_frame s a" by (simp add: signal_frame_def)
  consider "?c = SYSCALL_WAITPID" | "?c = SYSCALL_CLOCK_SETTINGS" | "?c = SYSCALL_CONS_IOCTL" using assms(2) by blast
  then show ?thesis
  proof cases
    case 1
    then obtain w where "waitpid (sint ebx) ecx ?s = Some (w, t)"
      using t(1) by (auto simp: syscalls_2_def ret_wait_def)
    from waitpid_umem [OF this, of a] ch user [of ecx] fr 1 show ?thesis by auto
  next
    case 2
    then have "t = clock_settings ebx ecx ?s" using t(1) by (simp add: syscalls_2_def syscall_codes ret_void_def)
    with clock_settings_umem [of ebx ecx ?s a] ch user [of ebx] user [of ecx] 2 show ?thesis by auto
  next
    case 3
    then obtain "cons_ioctl (sint ebx) ecx (env_rgb env) ?s = Some t"
      using t(1) by (auto simp: syscalls_2_def syscall_codes ret_void_def)
    from cons_ioctl_umem [OF this, of a] ch user [of ecx] 3 show ?thesis by auto
  qed
qed

section \<open>Properties\<close>

text \<open>
  C20. A system call stores its results only in the memory of its caller, whatever the registers hold: what is in the list of outputs goes to addresses in user space
  (or is empty, for a pointer that was refused), and \<^verbatim>\<open>waitpid\<close>, \<^verbatim>\<open>clock_settings\<close> and \<^verbatim>\<open>cons_ioctl\<close>, whose results are single words, change no word
  but those of an object that begins in user space, and the return address that a switch to a process with a pending signal pushes on the stack of that
  process. The exception is \<^verbatim>\<open>fstat\<close>, which does not check its pointer. (When \<^verbatim>\<open>waitpid\<close> blocks, its word is stored later, by \<open>waitpid_resume\<close>, through the pointer checked here.)
\<close>

theorem syscall_outputs_in_userspace:
  assumes "int49 env eax ebx ecx edx esi edi s = Some (v, outs, s')" and "uint eax \<noteq> SYSCALL_FSTAT"
  shows "(\<forall>out \<in> set outs. 0x1000000 \<le> out_address out \<or> out = Bytes 0 []) \<and>
    (uint eax \<in> {SYSCALL_WAITPID, SYSCALL_CLOCK_SETTINGS, SYSCALL_CONS_IOCTL} \<longrightarrow>
       (\<forall>a. umem s' a \<noteq> umem s a \<longrightarrow> (\<exists>p. 0x1000000 \<le> p \<and> a \<in> {p, p + 4, p + 8, p + 12}) \<or>
          (\<exists>p. in_tab p \<and> p_sigs (tab_proc s p) \<noteq> Some [] \<and> a = p_esp_user (tab_proc s p) - 4)))"
  using int49_outputs [OF assms] int49_umem [OF assms(1)] by (auto simp: out_ok_def signal_frame_def)

definition ex_env :: environment where
  "ex_env = \<lparr>env_entries = ex_entries, env_fresh = ex_fresh, env_rgb = (0, 0, 0), env_p61 = 0, env_junk = replicate 128 NUL\<rparr>"

text \<open>\<^verbatim>\<open>getcwd\<close>, and \<^verbatim>\<open>clock_settings\<close> with an address of the kernel and one of the caller.\<close>

theorem syscall_outputs_in_userspace_witness:
  "(\<exists>v t s'. int49 ex_env 0x4a 0x1000010 3 0 0 0 (upd_proc 1 (\<lambda>c. c\<lparr>p_working_dir := Some vfs_root\<rparr>) ex_kernel) = Some (v, [Bytes 0x1000010 t], s') \<and>
     (\<forall>out \<in> set [Bytes 0x1000010 t]. 0x1000000 \<le> out_address out \<or> out = Bytes 0 [])) \<and>
   (\<exists>s'. int49 ex_env 0x41 0x8000 0x1000010 0 0 0 ex_kernel = Some (Void, [], s') \<and> umem s' 0x8000 = umem ex_kernel 0x8000)"
proof
  have "\<exists>v t s'. int49 ex_env 0x4a 0x1000010 3 0 0 0 (upd_proc 1 (\<lambda>c. c\<lparr>p_working_dir := Some vfs_root\<rparr>) ex_kernel) = Some (v, [Bytes 0x1000010 t], s')"
    by (simp add: int49_def syscall_handler2_def syscalls_2_def syscall_codes leave_syscall_def getcwd_def check_pointer_def
        is_in_syscall_def is_pointer_userspace_def ex_kernel_def in_tab_def NBPROC_def Let_def)
  then obtain v t s' where c: "int49 ex_env 0x4a 0x1000010 3 0 0 0 (upd_proc 1 (\<lambda>c. c\<lparr>p_working_dir := Some vfs_root\<rparr>) ex_kernel) = Some (v, [Bytes 0x1000010 t], s')" by blast
  from syscall_outputs_in_userspace [OF c] have "\<forall>out \<in> set [Bytes 0x1000010 t]. 0x1000000 \<le> out_address out \<or> out = Bytes 0 []"
    by (simp add: SYSCALL_FSTAT_def)
  with c show "\<exists>v t s'. int49 ex_env 0x4a 0x1000010 3 0 0 0 (upd_proc 1 (\<lambda>c. c\<lparr>p_working_dir := Some vfs_root\<rparr>) ex_kernel) = Some (v, [Bytes 0x1000010 t], s') \<and>
     (\<forall>out \<in> set [Bytes 0x1000010 t]. 0x1000000 \<le> out_address out \<or> out = Bytes 0 [])" by blast
next
  obtain s' where s': "int49 ex_env 0x41 0x8000 0x1000010 0 0 0 ex_kernel = Some (Void, [], s')"
    by (simp add: int49_def syscall_handler2_def syscalls_2_def syscall_codes leave_syscall_def ret_void_def Let_def)
  have "\<exists>p. in_tab p \<and> p_sigs (tab_proc ex_kernel p) \<noteq> Some [] \<and> a = p_esp_user (tab_proc ex_kernel p) - 4 \<Longrightarrow> False" for a :: u32
    by (simp add: ex_kernel_def ex_ctx_def)
  moreover have "\<not> (0x1000000 \<le> p \<and> (0x8000 :: u32) \<in> {p, p + 4, p + 8, p + 12})" for p
  proof
    assume "0x1000000 \<le> p \<and> (0x8000 :: u32) \<in> {p, p + 4, p + 8, p + 12}"
    then have "p \<in> {0x8000, 0x7ffc, 0x7ff8, 0x7ff4}" "0x1000000 \<le> p" by (auto simp: eq_diff_eq [symmetric])
    then show False by auto
  qed
  ultimately have "umem s' 0x8000 = umem ex_kernel 0x8000"
    using conjunct2 [OF syscall_outputs_in_userspace [OF s']] by (auto simp: syscall_codes)
  with s' show "\<exists>s'. int49 ex_env 0x41 0x8000 0x1000010 0 0 0 ex_kernel = Some (Void, [], s') \<and> umem s' 0x8000 = umem ex_kernel 0x8000" by blast
qed

text \<open>
  C21. A call that fails changes nothing: for every cause of failure in the tables of errors of the calls on semaphores, processes and priorities and of \<^verbatim>\<open>start\<close>
  (invalid identifiers and PIDs, bad counters and priorities, no such child, no free descriptor or memory for the stacks) the call reports the
  value of that error, stores nothing for its caller, and leaves the whole state of the kernel as it was, apart from \<open>in_syscall\<close> and, for \<^verbatim>\<open>waitpid\<close> and \<^verbatim>\<open>start\<close>, what the
  allocator has given out.
\<close>

theorem failed_call_changes_nothing:
  assumes "sem_error code a b s = Some e \<or> proc_error code a b s = Some e \<or> start_error code b d s = Some e"
  shows "\<exists>as. int49 env (word_of_int code) a b c d f s = Some (Value (word_of_int e), [], s\<lparr>in_syscall := 0xff, allocs := as\<rparr>) \<and>
    (code \<notin> {SYSCALL_WAITPID, SYSCALL_START} \<longrightarrow> as = allocs s)"
proof -
  have same: ?thesis if "int49 env (word_of_int code) a b c d f s = Some (Value (word_of_int e), [], s\<lparr>in_syscall := 0xff\<rparr>)"
    using that by (intro exI [of _ "allocs s"]) simp
  from assms consider "sem_error code a b s = Some e" | "proc_error code a b s = Some e" "code \<noteq> SYSCALL_WAITPID \<or> e \<noteq> -3"
    | "proc_error SYSCALL_WAITPID a b s = Some (-3)" "code = SYSCALL_WAITPID" "e = -3" | "start_error code b d s = Some e" by blast
  then show ?thesis
  proof cases
    case 1
    then show ?thesis using sem_error_call same by blast
  next
    case 2
    then show ?thesis using proc_error_call same by blast
  next
    case 3
    then show ?thesis using waitpid_no_child by blast
  next
    case 4
    then have "code = SYSCALL_START" by (simp add: start_error_def split: if_splits)
    then show ?thesis using start_error_call [OF 4] by blast
  qed
qed

theorem failed_call_changes_nothing_witness:
  "int49 ex_env (word_of_int SYSCALL_SIGNALN) 0 (- 5) 0 0 0 ex_sem = Some (Value (word_of_int (-3)), [], ex_sem\<lparr>in_syscall := 0xff\<rparr>) \<and>
   int49 ex_env (word_of_int SYSCALL_KILL) 19 0 0 0 0 ex_sem = Some (Value (word_of_int (-1)), [], ex_sem\<lparr>in_syscall := 0xff\<rparr>) \<and>
   (\<exists>as. int49 ex_env (word_of_int SYSCALL_WAITPID) 3 0 0 0 0 ex_sem = Some (Value (word_of_int (-3)), [], ex_sem\<lparr>in_syscall := 0xff, allocs := as\<rparr>))"
proof (intro conjI)
  have "sem_error SYSCALL_SIGNALN 0 (- 5) ex_sem = Some (-3)"
    by (simp add: sem_error_def syscall_codes short_arg_def to_short_def)
  then show "int49 ex_env (word_of_int SYSCALL_SIGNALN) 0 (- 5) 0 0 0 ex_sem = Some (Value (word_of_int (-3)), [], ex_sem\<lparr>in_syscall := 0xff\<rparr>)"
    using failed_call_changes_nothing [of SYSCALL_SIGNALN 0 "- 5" ex_sem "-3" 0 ex_env 0 0] by (auto simp: syscall_codes)
  have "proc_error SYSCALL_KILL 19 0 ex_sem = Some (-1)"
    by (simp add: proc_error_def dead_or_free_def ex_sem_def ex_kernel_def ex_ctx_def)
  then show "int49 ex_env (word_of_int SYSCALL_KILL) 19 0 0 0 0 ex_sem = Some (Value (word_of_int (-1)), [], ex_sem\<lparr>in_syscall := 0xff\<rparr>)"
    using failed_call_changes_nothing [of SYSCALL_KILL 19 0 ex_sem "-1" 0 ex_env 0 0] by (auto simp: syscall_codes)
  have "proc_error SYSCALL_WAITPID 3 0 ex_sem = Some (-3)"
    by (simp add: proc_error_def syscall_codes mem_alloc_def in_tab_def NBPROC_def) (simp add: ex_sem_def ex_kernel_def ex_ctx_def)
  then show "\<exists>as. int49 ex_env (word_of_int SYSCALL_WAITPID) 3 0 0 0 0 ex_sem = Some (Value (word_of_int (-3)), [], ex_sem\<lparr>in_syscall := 0xff, allocs := as\<rparr>)"
    using failed_call_changes_nothing [of SYSCALL_WAITPID 3 0 ex_sem "-3" 0 ex_env 0 0] by blast
qed

end
