(* ===== verification/Machine.thy ===== *)
theory Machine
  imports Syscalls
begin

text \<open>
  The kernel as a state machine: system calls, the continuation of calls that had given up the processor, and clock
  interrupts, in any order.

  A process is in user mode or inside a call. A call that switches to another process goes on when its caller gets the
  processor back: after \<^verbatim>\<open>wait\<close> and \<^verbatim>\<open>waitpid\<close> with the rest of these functions, after every other call with the end of the handler.
\<close>

section \<open>Calls that leave the tree alone\<close>

text \<open>\<open>advances s s'\<close>: the kernel has gone from \<open>s\<close> to \<open>s'\<close>, with its invariants, and no process has come or gone.\<close>

definition advances :: "kstate \<Rightarrow> kstate \<Rightarrow> bool" where
  "advances s s' \<longleftrightarrow> kinv s' \<and> sched_post s' \<and> same_tree s s'"

lemma sched_post_running: "sched_post s \<Longrightarrow> running s"
  by (simp add: sched_post_def)

lemma sched_post_cong:
  assumes "sched_post s" and "kinv s'" and "pid_cour s' = pid_cour s" and "p_state (tab_proc s' (pid_cour s)) = p_state (tab_proc s (pid_cour s))"
    and "activable s' = activable s" and "prio_of s' = prio_of s"
  shows "sched_post s'"
  using assms by (simp add: sched_post_def kinv_def running_def)

lemma sched_post_tab:
  assumes "sched_post s" and "kinv s'" and "pid_cour s' = pid_cour s" and "tab_proc s' = tab_proc s"
  shows "sched_post s'"
  using assms by (intro sched_post_cong [OF assms(1)]) (simp_all add: activable_def valid_proc_def prio_of_def fun_eq_iff)

lemma advances_refl: "kinv s \<Longrightarrow> sched_post s \<Longrightarrow> advances s s"
  by (simp add: advances_def)

lemma advances_spec: "kinv s' \<Longrightarrow> sched_post s' \<Longrightarrow> same_tree s s' \<Longrightarrow> advances s s'"
  by (simp add: advances_def)

lemma advances_upd_sem: "kinv (upd_sem i f s) \<Longrightarrow> sched_post s \<Longrightarrow> advances s (upd_sem i f s)"
  using sched_post_tab [of s "upd_sem i f s"] by (simp add: advances_def same_tree_tab)

lemma usable_blocks_one: "usable_blocks n s \<Longrightarrow> 0 < n \<Longrightarrow> \<exists>a as. allocs s = a # as \<and> a \<noteq> 0"
  by (cases n; cases "allocs s") (auto simp: usable_blocks_def)

lemma wait_list: "kinv s \<Longrightarrow> \<not> sem_invalid sid s \<Longrightarrow> \<exists>ws. s_proc_wait (semaphores s sid) = Some ws \<and> int (length ws) = max 0 (- s_c (semaphores s sid))"
  by (auto simp: kinv_def sem_inv_def sem_ok_def)

lemma wait_advances:
  assumes "kinv s" and "sched_post s" and "pid_cour s \<noteq> 0" and "usable_blocks 21 s"
  shows "\<exists>r s'. wait sid s = Some (r, s') \<and> advances s s'"
proof (cases "sem_invalid sid s")
  case True
  then show ?thesis using assms(1,2) by (simp add: wait_def advances_refl)
next
  case False
  obtain ws where ws: "s_proc_wait (semaphores s sid) = Some ws" using wait_list [OF assms(1) False] by blast
  obtain a as where al: "allocs s = a # as" "a \<noteq> 0" using usable_blocks_one [OF assms(4)] by auto
  show ?thesis
  proof (cases "0 < s_c (semaphores s sid)")
    case True
    then show ?thesis using wait_free_spec [OF assms(1) False] assms(2) advances_upd_sem by blast
  next
    case pos: False
    then have "s_c (semaphores s sid) \<le> 0" by simp
    then obtain s' where "wait sid s = Some (None, s')" "kinv s'" "sched_post s'" "same_tree s s'"
      using wait_block_spec [OF assms(1) False ws _ assms(3) sched_post_running [OF assms(2)] al] by metis
    then show ?thesis using advances_spec by blast
  qed
qed

lemma try_wait_advances:
  assumes "kinv s" and "sched_post s"
  shows "advances s (snd (try_wait sid s))"
proof (cases "sem_invalid sid s")
  case True
  then show ?thesis using assms by (simp add: try_wait_def advances_refl)
next
  case False
  with try_wait_spec [OF assms(1) False] assms show ?thesis by (auto simp: advances_refl advances_upd_sem)
qed

lemma signal_advances:
  assumes "kinv s" and "sched_post s"
  shows "\<exists>r s'. signal sid s = Some (r, s') \<and> advances s s'"
proof (cases "sem_invalid sid s \<or> s_c (semaphores s sid) = SHRT_MAX")
  case True
  then show ?thesis using assms by (auto simp: signal_def advances_refl)
next
  case False
  then have vld: "\<not> sem_invalid sid s" by simp
  obtain ws where ws: "s_proc_wait (semaphores s sid) = Some ws" "int (length ws) = max 0 (- s_c (semaphores s sid))"
    using wait_list [OF assms(1) vld] by blast
  show ?thesis
  proof (cases ws rule: rev_cases)
    case Nil
    then have "0 \<le> s_c (semaphores s sid)" "s_c (semaphores s sid) < SHRT_MAX"
      using ws(2) False assms(1) by (auto simp: kinv_def sem_inv_def sem_ok_def)
    then show ?thesis using signal_count_spec [OF assms(1) vld] assms(2) advances_upd_sem by blast
  next
    case (snoc us w)
    then obtain s' where "signal sid s = Some (0, s')" "kinv s'" "sched_post s'" "same_tree s s'"
      using signal_wake_spec [OF assms(1) vld, of us w] ws(1) by metis
    then show ?thesis using advances_spec by blast
  qed
qed

lemma signaln_advances:
  assumes "kinv s" and "sched_post s" and "n \<le> SHRT_MAX"
  shows "\<exists>r s'. signaln sid n s = Some (r, s') \<and> advances s s'"
proof (cases "sem_invalid sid s \<or> n < 0 \<or> s_c (semaphores s sid) > 0 \<and> SHRT_MAX - s_c (semaphores s sid) < n")
  case True
  then show ?thesis using assms by (auto simp: signaln_def advances_refl)
next
  case False
  then have vld: "\<not> sem_invalid sid s" "0 \<le> n" "s_c (semaphores s sid) + n \<le> SHRT_MAX" using assms(3) by auto
  obtain ws where "s_proc_wait (semaphores s sid) = Some ws" using wait_list [OF assms(1) vld(1)] by blast
  with signaln_spec [OF assms(1) vld(1) _ vld(2,3)] obtain s' where
    "signaln sid n s = Some (0, s')" "kinv s'" "sched_post s'" "same_tree s s'" by metis
  then show ?thesis using advances_spec by blast
qed

lemma sreset_advances:
  assumes "kinv s" and "sched_post s" and "n \<le> SHRT_MAX"
  shows "\<exists>r s'. sreset sid n s = Some (r, s') \<and> advances s s'"
proof (cases "sem_invalid sid s \<or> n < 0")
  case True
  then show ?thesis using assms by (auto simp: sreset_def advances_refl)
next
  case False
  with sreset_spec [OF assms(1), of sid n] assms(3) obtain s' where
    "sreset sid n s = Some (0, s')" "kinv s'" "sched_post s'" "same_tree s s'" by (metis not_less)
  then show ?thesis using advances_spec by blast
qed

lemma sdelete_advances:
  assumes "kinv s" and "sched_post s" and "usable_blocks 21 s"
  shows "\<exists>r s'. sdelete sid s = Some (r, s') \<and> advances s s'"
proof (cases "sem_invalid sid s")
  case True
  then show ?thesis using assms by (simp add: sdelete_def advances_refl)
next
  case False
  obtain fl where "sid_libres s = Some fl" using assms(1) by (auto simp: kinv_def sem_inv_def free_sids_ok_def)
  moreover obtain a as where "allocs s = a # as" "a \<noteq> 0" using usable_blocks_one [OF assms(3)] by auto
  ultimately obtain s' where "sdelete sid s = Some (0, s')" "kinv s'" "sched_post s'" "same_tree s s'"
    using sdelete_spec [OF assms(1) False] by metis
  then show ?thesis using advances_spec by blast
qed

lemma screate_advances:
  assumes "kinv s" and "sched_post s" and "n \<le> SHRT_MAX" and "usable_blocks 21 s"
  shows "\<exists>r s'. screate n s = Some (r, s') \<and> advances s s'"
proof -
  obtain fl where fl: "sid_libres s = Some fl" using assms(1) by (auto simp: kinv_def sem_inv_def free_sids_ok_def)
  obtain a as where al: "allocs s = a # as" "a \<noteq> 0" using usable_blocks_one [OF assms(4)] by auto
  show ?thesis
  proof (cases "n < 0 \<or> fl = []")
    case True
    then show ?thesis using assms fl by (auto simp: screate_def advances_refl)
  next
    case False
    then obtain i fl' where "fl = i # fl'" by (cases fl) auto
    with fl False screate_spec [OF assms(1) _ assms(3) _ al, of i fl'] obtain s' where
      s': "screate n s = Some (i, s')" "kinv s'" "same_tree s s'" "pid_cour s' = pid_cour s" "tab_proc s' = tab_proc s"
      by (metis not_less)
    then have "sched_post s'" using sched_post_tab [OF assms(2)] by blast
    with s' show ?thesis by (auto simp: advances_def)
  qed
qed

lemma wait_clock_advances:
  assumes "kinv s" and "sched_post s" and "pid_cour s \<noteq> 0"
  shows "\<exists>s'. wait_clock c s = Some s' \<and> advances s s'"
  using wait_clock_spec [OF assms(1) sched_post_running [OF assms(2)] assms(3), of c] advances_spec by metis

lemma chprio_advances:
  assumes "kinv s" and "sched_post s" and "in_tab p" and "dead_or_free p s \<or> live s p"
  shows "\<exists>r s'. chprio p n s = Some (r, s') \<and> advances s s'"
proof (cases "live s p \<and> 0 < n \<and> n \<le> MAXPRIO")
  case True
  with chprio_spec [OF assms(1), of p n] obtain s' where
    "chprio p n s = Some (p_priority (tab_proc s p), s')" "kinv s'" "sched_post s'" "same_tree s s'" by metis
  then show ?thesis using advances_spec by blast
next
  case False
  then have "dead_or_free p s \<or> n \<le> 0 \<or> n > MAXPRIO" using assms(4) by auto
  then have "\<exists>r. chprio p n s = Some (r, s)" using assms(3) by (auto simp: chprio_def dead_or_free_def Let_def)
  then show ?thesis using assms(1,2) advances_refl by blast
qed

text \<open>The clock, the reading of the clock settings, and what the handlers write.\<close>

lemma clock_tick_advances: "kinv s \<Longrightarrow> \<exists>s'. clock_tick s = Some s' \<and> advances s s'"
  using clock_tick_spec advances_spec by metis

definition outside :: "kstate \<Rightarrow> kstate \<Rightarrow> bool" where
  "outside s s' \<longleftrightarrow> (\<exists>c m as. s' = s\<lparr>in_syscall := c, umem := m, allocs := as\<rparr>)"

lemma outside_simps [simp]: "outside s (s\<lparr>in_syscall := c\<rparr>)" "outside s (s\<lparr>allocs := as\<rparr>)" "outside s s" "outside s (clock_settings q t s)"
proof -
  show "outside s (s\<lparr>in_syscall := c\<rparr>)" unfolding outside_def by (intro exI [of _ c] exI [of _ "umem s"] exI [of _ "allocs s"]) simp
  show "outside s (s\<lparr>allocs := as\<rparr>)" unfolding outside_def by (intro exI [of _ "in_syscall s"] exI [of _ "umem s"] exI [of _ as]) simp
  show "outside s s" unfolding outside_def by (intro exI [of _ "in_syscall s"] exI [of _ "umem s"] exI [of _ "allocs s"]) simp
  have "\<exists>m. clock_settings q t s = s\<lparr>umem := m\<rparr>" by (auto simp: clock_settings_def Let_def intro: exI [of _ "umem s"])
  then obtain m where "clock_settings q t s = s\<lparr>umem := m\<rparr>" ..
  then show "outside s (clock_settings q t s)"
    unfolding outside_def by (intro exI [of _ "in_syscall s"] exI [of _ m] exI [of _ "allocs s"]) simp
qed

lemma outside_eq:
  assumes "outside s s'"
  shows "kinv s' = kinv s" "sched_post s' = sched_post s" "same_tree s s'" "pid_cour s' = pid_cour s" "tree_inv s' = tree_inv s" "live s' = live s"
proof -
  from assms have "sched_eq s s'" "semaphores s' = semaphores s" "sid_libres s' = sid_libres s" "blocked_on s' = blocked_on s"
    "tab_proc s' = tab_proc s" "pid_cour s' = pid_cour s"
    by (auto simp: outside_def sched_eq_def blocked_on_def valid_proc_def fun_eq_iff)
  moreover from this have "live s' = live s" "kids s' = kids s" "valid_proc s' = valid_proc s"
    by (auto simp: live_def kids_def valid_proc_def fun_eq_iff)
  moreover from calculation have "activable s' = activable s" "prio_of s' = prio_of s" by (simp_all add: activable_def prio_of_def fun_eq_iff)
  ultimately show "kinv s' = kinv s" "sched_post s' = sched_post s" "same_tree s s'" "pid_cour s' = pid_cour s" "tree_inv s' = tree_inv s" "live s' = live s"
    using kinv_cong [of s s'] sched_eq_inv [of s s'] same_tree_tab [of s' s] tree_inv_cong [of s' s] by (auto simp: sched_post_def)
qed

lemma advances_outside: "kinv s \<Longrightarrow> sched_post s \<Longrightarrow> outside s s' \<Longrightarrow> advances s s'"
  by (simp add: advances_def outside_eq)

lemma advances_trans: "advances s t \<Longrightarrow> advances t u \<Longrightarrow> advances s u"
  by (auto simp: advances_def intro: same_tree_trans)

text \<open>\<open>fair s r\<close>: the call comes back, or has switched to another process, with the invariants.\<close>

definition fair :: "kstate \<Rightarrow> sysres \<Rightarrow> bool" where
  "fair s r \<longleftrightarrow> (\<exists>v s'. r = Some (v, [], s') \<and> advances s s')"

lemma fair_leave:
  assumes "kinv s" and "sched_post s" and "fair (s\<lparr>in_syscall := c\<rparr>) r"
  shows "fair s (leave_syscall p r)"
proof -
  obtain v s' where r: "r = Some (v, [], s')" "advances (s\<lparr>in_syscall := c\<rparr>) s'" using assms(3) by (auto simp: fair_def)
  have "advances s s'" using advances_trans [OF advances_outside [OF assms(1,2)] r(2)] by simp
  moreover from this have "advances s (s'\<lparr>in_syscall := 0xff\<rparr>)"
    using advances_trans [of s s' "s'\<lparr>in_syscall := 0xff\<rparr>"] advances_outside [of s' "s'\<lparr>in_syscall := 0xff\<rparr>"] by (simp add: advances_def)
  ultimately show ?thesis using r(1) by (auto simp: fair_def leave_syscall_def)
qed

lemma fair_rets:
  "\<exists>v s'. x = Some (v, s') \<and> advances s s' \<Longrightarrow> fair s (ret_int x)"
  "\<exists>s'. y = Some s' \<and> advances s s' \<Longrightarrow> fair s (ret_void y)"
  "\<exists>w s'. z = Some (w, s') \<and> advances s s' \<Longrightarrow> fair s (ret_wait z)"
  by (auto simp: fair_def ret_int_def ret_void_def ret_wait_def)


section \<open>The machine\<close>

datatype pending = User | In_call | In_wait | In_waitpid int u32

record machine =
  kern :: kstate
  pend :: "int \<Rightarrow> pending"

text \<open>
  The calls of the machine: those on semaphores, processes and the clock, with these exceptions.
  \<^item> \<^verbatim>\<open>kill\<close>, signals and input from the console are left out: \<open>kill_loses_wakeup\<close> and \<open>second_line_breaks_queue\<close> show that they break the invariants.
    The calls on files, the console and the other devices are left out as well.
  \<^item> \<^verbatim>\<open>getprio\<close> of a negative PID and \<^verbatim>\<open>chprio\<close> of a PID outside the table read outside of \<^verbatim>\<open>tab_proc\<close> (\<^verbatim>\<open>sys.c\<close>, lines 64 and 78): they are faults of the
    code, which these theorems exclude and the findings name. \<^verbatim>\<open>chprio\<close> is left out too for a PID whose descriptor is neither free nor of a dead process nor of a live
    one; no reachable state has such a descriptor.
  \<^item> Init does not end: \<^verbatim>\<open>exit\<close> of Init would leave the processes without the father they are given to.
\<close>

definition core_calls :: "int set" where
  "core_calls = {SYSCALL_GETPID, SYSCALL_GETPPID, SYSCALL_CURRENT_CLOCK, SYSCALL_SCREATE, SYSCALL_WAIT, SYSCALL_TRY_WAIT, SYSCALL_SIGNAL,
     SYSCALL_SCOUNT, SYSCALL_SDELETE, SYSCALL_GETPRIO, SYSCALL_EXIT, SYSCALL_WAIT_CLOCK, SYSCALL_USLEEP, SYSCALL_SIGNALN, SYSCALL_SRESET,
     SYSCALL_CHPRIO, SYSCALL_WAITPID, SYSCALL_CLOCK_SETTINGS}"

definition core_call :: "int \<Rightarrow> u32 \<Rightarrow> kstate \<Rightarrow> bool" where
  "core_call code a s \<longleftrightarrow> code \<in> core_calls \<and>
     (code = SYSCALL_GETPRIO \<longrightarrow> 0 \<le> sint a) \<and>
     (code = SYSCALL_CHPRIO \<longrightarrow> in_tab (sint a) \<and> (dead_or_free (sint a) s \<or> live s (sint a))) \<and>
     (code = SYSCALL_EXIT \<longrightarrow> pid_cour s \<noteq> 1)"

lemma usable_blocks_in_syscall [simp]: "usable_blocks n (s\<lparr>in_syscall := c\<rparr>) = usable_blocks n s"
  by (simp add: usable_blocks_def)

lemma outside_in_syscall [simp]:
  "kinv (s\<lparr>in_syscall := c\<rparr>) = kinv s" "sched_post (s\<lparr>in_syscall := c\<rparr>) = sched_post s" "live (s\<lparr>in_syscall := c\<rparr>) = live s"
  "tree_inv (s\<lparr>in_syscall := c\<rparr>) = tree_inv s"
  by (simp_all add: outside_eq [OF outside_simps(1)])

lemma short_arg_max [simp]: "short_arg a \<le> SHRT_MAX"
  using to_short_bounds [of "sint a"] by (simp add: short_arg_def)

lemma int49_calls_0:
  "int49 env (word_of_int SYSCALL_GETPID) a b c d e s = leave_syscall (pid_cour s) (ret_int (Some (getpid (s\<lparr>in_syscall := SYSCALL_GETPID\<rparr>), s\<lparr>in_syscall := SYSCALL_GETPID\<rparr>)))"
  "int49 env (word_of_int SYSCALL_GETPPID) a b c d e s =
     leave_syscall (pid_cour s) (ret_int (map_option (\<lambda>v. (v, s\<lparr>in_syscall := SYSCALL_GETPPID\<rparr>)) (getppid (s\<lparr>in_syscall := SYSCALL_GETPPID\<rparr>))))"
  "int49 env (word_of_int SYSCALL_CURRENT_CLOCK) a b c d e s =
     leave_syscall (pid_cour s) (Some (Value (current_clock (s\<lparr>in_syscall := SYSCALL_CURRENT_CLOCK\<rparr>)), [], s\<lparr>in_syscall := SYSCALL_CURRENT_CLOCK\<rparr>))"
  by (simp_all add: int49_def syscall_handler0_def syscalls_0_def syscall_codes)

lemma core_call_fair:
  assumes inv: "kinv s" "sched_post s" "pid_cour s \<noteq> 0" "usable_blocks 21 s" and call: "core_call code a s" "code \<noteq> SYSCALL_EXIT" "code \<noteq> SYSCALL_WAITPID"
  shows "fair s (int49 env (word_of_int code) a b c d e s)"
proof -
  let ?s = "s\<lparr>in_syscall := code\<rparr>"
  have i: "kinv ?s" "sched_post ?s" "pid_cour ?s \<noteq> 0" "usable_blocks 21 ?s" "in_tab (pid_cour s)" using inv kinv_current(1) [OF inv(1) sched_post_running [OF inv(2)] inv(3)] by simp_all
  have same: "fair ?s (ret_int (Some (v, ?s)))" for v using i by (intro fair_rets) (auto intro: advances_refl)
  have "fair s (leave_syscall (pid_cour s) r)" if "fair ?s r" for r using inv(1,2) that by (rule fair_leave)
  moreover have "\<exists>r. int49 env (word_of_int code) a b c d e s = leave_syscall (pid_cour s) r \<and> fair ?s r"
  proof -
    consider "code = SYSCALL_GETPID" | "code = SYSCALL_GETPPID" | "code = SYSCALL_CURRENT_CLOCK" | "code = SYSCALL_SCREATE" | "code = SYSCALL_WAIT"
      | "code = SYSCALL_TRY_WAIT" | "code = SYSCALL_SIGNAL" | "code = SYSCALL_SCOUNT" | "code = SYSCALL_SDELETE" | "code = SYSCALL_GETPRIO"
      | "code = SYSCALL_WAIT_CLOCK" | "code = SYSCALL_USLEEP" | "code = SYSCALL_SIGNALN" | "code = SYSCALL_SRESET" | "code = SYSCALL_CHPRIO"
      | "code = SYSCALL_CLOCK_SETTINGS"
      using call unfolding core_call_def core_calls_def by blast
    then show ?thesis
    proof cases
      case 1
      then show ?thesis using same int49_calls_0(1) by blast
    next
      case 2
      then have "getppid ?s = Some (p_pid_parent (tab_proc s (pid_cour s)))" using i(5) by (simp add: getppid_def)
      with 2 show ?thesis using same int49_calls_0(2) by (metis option.simps(9))
    next
      case 3
      then show ?thesis using i advances_refl int49_calls_0(3) unfolding fair_def by blast
    next
      case 4
      then show ?thesis using fair_rets(1) [OF screate_advances [OF i(1,2) short_arg_max i(4)]] int49_calls(1) by blast
    next
      case 5
      then show ?thesis using fair_rets(3) [OF wait_advances [OF i(1-4)]] int49_calls(2) by blast
    next
      case 6
      have "fair ?s (ret_int (Some (try_wait (sint a) ?s)))"
        by (rule fair_rets) (metis i(1,2) prod.collapse try_wait_advances)
      with 6 show ?thesis using int49_calls(3) by blast
    next
      case 7
      then show ?thesis using fair_rets(1) [OF signal_advances [OF i(1,2)]] int49_calls(4) by blast
    next
      case 8
      then show ?thesis using same int49_calls(5) by blast
    next
      case 9
      then show ?thesis using fair_rets(1) [OF sdelete_advances [OF i(1,2,4)]] int49_calls(6) by blast
    next
      case 10
      then have "\<exists>v. getprio (sint a) ?s = Some v" using call(1) by (auto simp: core_call_def getprio_def in_tab_def)
      with 10 show ?thesis using same int49_calls(8) by (metis option.simps(9))
    next
      case 11
      then show ?thesis using fair_rets(2) [OF wait_clock_advances [OF i(1-3)]] int49_calls(10) by blast
    next
      case 12
      then have "\<not> is_in_syscall SYSCALL_CLOCK_SETTINGS ?s" by (simp add: is_in_syscall_def syscall_codes)
      then have "\<exists>s'. usleep a ?s = Some s' \<and> advances ?s s'" using wait_clock_advances [OF i(1-3)] by (simp add: usleep_def Let_def)
      with 12 show ?thesis using fair_rets(2) int49_calls(11) by blast
    next
      case 13
      then show ?thesis using fair_rets(1) [OF signaln_advances [OF i(1,2) short_arg_max]] int49_calls(12) by blast
    next
      case 14
      then show ?thesis using fair_rets(1) [OF sreset_advances [OF i(1,2) short_arg_max]] int49_calls(13) by blast
    next
      case 15
      then have "in_tab (sint a)" "dead_or_free (sint a) ?s \<or> live ?s (sint a)" using call(1) by (auto simp: core_call_def)
      with 15 show ?thesis using fair_rets(1) [OF chprio_advances [OF i(1,2)]] int49_calls(14) by blast
    next
      case 16
      have "advances ?s (clock_settings a b ?s)" using i(1,2) by (rule advances_outside) simp
      with 16 show ?thesis using fair_rets(2) int49_calls(16) by blast
    qed
  qed
  ultimately show ?thesis by auto
qed

section \<open>What a process inside a call relies on\<close>

text \<open>
  A process inside \<^verbatim>\<open>waitpid\<close> that does not wait any more finds the child it has waited for, as a zombie: the PID it asked for, or the one
  that \<^verbatim>\<open>exit\<close> has left in its descriptor.
\<close>

definition target :: "kstate \<Rightarrow> int \<Rightarrow> int \<Rightarrow> int" where
  "target s p pid = (if pid < 0 then p_pid_wait (tab_proc s p) else pid)"

definition zombie_kid :: "kstate \<Rightarrow> int \<Rightarrow> int \<Rightarrow> bool" where
  "zombie_kid s p c \<longleftrightarrow> c \<in> kids s p \<and> p_state (tab_proc s c) = STATE_ZOMBIE"

definition pending_ok :: "kstate \<Rightarrow> int \<Rightarrow> pending \<Rightarrow> bool" where
  "pending_ok s p w = (case w of
     In_waitpid pid rp \<Rightarrow>
       if p_state (tab_proc s p) = STATE_WAIT_CHILD then p_pid_wait (tab_proc s p) = (if pid < 0 then -1 else pid)
       else zombie_kid s p (target s p pid)
   | _ \<Rightarrow> True)"

lemma pending_ok_simps [simp]: "pending_ok s p User" "pending_ok s p In_call" "pending_ok s p In_wait"
  by (simp_all add: pending_ok_def)

text \<open>
  \<open>owed s p c x v k\<close>: the process \<open>p\<close> has not yet seen the end of its child \<open>c\<close>, which it need not wait for any more; \<open>x\<close> is in its descriptor as
  the PID waited for, \<open>v\<close> and \<open>k\<close> are what the child has left.
\<close>

definition owed :: "kstate \<Rightarrow> int \<Rightarrow> int \<Rightarrow> int \<Rightarrow> int \<Rightarrow> int \<Rightarrow> bool" where
  "owed s p c x v k \<longleftrightarrow> live s p \<and> zombie_kid s p c \<and> p_state (tab_proc s p) \<noteq> STATE_WAIT_CHILD \<and> p_pid_wait (tab_proc s p) = x \<and>
     p_val_ret (tab_proc s c) = v \<and> p_killed (tab_proc s c) = k"

lemma fate_zombie: "fate a = fate b \<Longrightarrow> a = STATE_ZOMBIE \<longleftrightarrow> b = STATE_ZOMBIE"
  by (auto simp: fate_def split: if_splits)

lemma fate_wait_child: "fate a = fate b \<Longrightarrow> a = STATE_WAIT_CHILD \<longleftrightarrow> b = STATE_WAIT_CHILD"
  by (auto simp: fate_def split: if_splits)

lemma same_treeD:
  assumes "same_tree s s'"
  shows "p_pid_parent (tab_proc s' p) = p_pid_parent (tab_proc s p)" "p_children (tab_proc s' p) = p_children (tab_proc s p)"
    "p_pid_wait (tab_proc s' p) = p_pid_wait (tab_proc s p)"
    "p_state (tab_proc s' p) = STATE_ZOMBIE \<longleftrightarrow> p_state (tab_proc s p) = STATE_ZOMBIE"
    "p_state (tab_proc s' p) = STATE_WAIT_CHILD \<longleftrightarrow> p_state (tab_proc s p) = STATE_WAIT_CHILD"
    "(valid_proc s' p \<and> p_state (tab_proc s' p) \<noteq> STATE_DEAD) = (valid_proc s p \<and> p_state (tab_proc s p) \<noteq> STATE_DEAD)"
    "p_val_ret (tab_proc s' p) = p_val_ret (tab_proc s p)" "p_killed (tab_proc s' p) = p_killed (tab_proc s p)"
proof -
  have p: "p_pid_parent (tab_proc s' p) = p_pid_parent (tab_proc s p) \<and> p_children (tab_proc s' p) = p_children (tab_proc s p) \<and>
     p_pid_wait (tab_proc s' p) = p_pid_wait (tab_proc s p) \<and> p_val_ret (tab_proc s' p) = p_val_ret (tab_proc s p) \<and>
     p_killed (tab_proc s' p) = p_killed (tab_proc s p) \<and> fate (p_state (tab_proc s' p)) = fate (p_state (tab_proc s p)) \<and>
     (p_valide (tab_proc s' p) = p_valide (tab_proc s p) \<or> p_state (tab_proc s p) = STATE_DEAD)"
    using assms unfolding same_tree_def by blast
  then show "p_pid_parent (tab_proc s' p) = p_pid_parent (tab_proc s p)" "p_children (tab_proc s' p) = p_children (tab_proc s p)"
    "p_pid_wait (tab_proc s' p) = p_pid_wait (tab_proc s p)"
    "p_val_ret (tab_proc s' p) = p_val_ret (tab_proc s p)" "p_killed (tab_proc s' p) = p_killed (tab_proc s p)" by simp_all
  show "p_state (tab_proc s' p) = STATE_ZOMBIE \<longleftrightarrow> p_state (tab_proc s p) = STATE_ZOMBIE"
    "p_state (tab_proc s' p) = STATE_WAIT_CHILD \<longleftrightarrow> p_state (tab_proc s p) = STATE_WAIT_CHILD"
    using p fate_zombie fate_wait_child by blast+
  have "p_state (tab_proc s' p) = STATE_DEAD \<longleftrightarrow> p_state (tab_proc s p) = STATE_DEAD" using p fate_dead by blast
  then show "(valid_proc s' p \<and> p_state (tab_proc s' p) \<noteq> STATE_DEAD) = (valid_proc s p \<and> p_state (tab_proc s p) \<noteq> STATE_DEAD)"
    using p by (auto simp: valid_proc_def)
qed

lemma same_tree_eq:
  assumes "same_tree s s'"
  shows "live s' p = live s p" "kids s' p = kids s p" "tree_inv s' = tree_inv s" "zombie_kid s' p c = zombie_kid s p c"
    "pending_ok s' p w = pending_ok s p w" "owed s' p c x v k = owed s p c x v k"
proof -
  note t = same_treeD [OF assms]
  have live: "live s' p = live s p" for p using t(4,6) [of p] by (auto simp: live_def)
  have kids: "kids s' p = kids s p" for p using t(1,6) by (auto simp: kids_def)
  show "live s' p = live s p" "kids s' p = kids s p" by (rule live, rule kids)
  show "tree_inv s' = tree_inv s" by (rule tree_inv_cong) (simp_all add: live kids t)
  show z: "zombie_kid s' p c = zombie_kid s p c" for c by (simp add: zombie_kid_def kids t)
  show "pending_ok s' p w = pending_ok s p w" by (simp add: pending_ok_def target_def z t split: pending.split)
  show "owed s' p c x v k = owed s p c x v k" by (simp add: owed_def live z t)
qed

text \<open>
  \<open>keeps cur s s'\<close>: processes other than \<open>cur\<close> that live have lived before and can go on with their calls, and nothing that they
  are to learn of their children is lost.
\<close>

definition keeps :: "int \<Rightarrow> kstate \<Rightarrow> kstate \<Rightarrow> bool" where
  "keeps cur s s' \<longleftrightarrow> (\<forall>p. p \<noteq> cur \<longrightarrow> live s' p \<longrightarrow> live s p \<and> (\<forall>w. pending_ok s p w \<longrightarrow> pending_ok s' p w)) \<and>
     (\<forall>p c x v k. p \<noteq> cur \<longrightarrow> owed s p c x v k \<longrightarrow> owed s' p c x v k)"

lemma keepsI:
  assumes "\<And>p. p \<noteq> cur \<Longrightarrow> live s' p \<Longrightarrow> live s p" and "\<And>p w. p \<noteq> cur \<Longrightarrow> live s' p \<Longrightarrow> pending_ok s p w \<Longrightarrow> pending_ok s' p w"
    and "\<And>p c x v k. p \<noteq> cur \<Longrightarrow> owed s p c x v k \<Longrightarrow> owed s' p c x v k"
  shows "keeps cur s s'"
  using assms by (simp add: keeps_def)

lemma keeps_same_tree: "same_tree s s' \<Longrightarrow> keeps cur s s'"
  by (simp add: keeps_def same_tree_eq)

lemma keeps_trans: "keeps cur s t \<Longrightarrow> keeps cur t u \<Longrightarrow> keeps cur s u"
  by (auto simp: keeps_def)

section \<open>waitpid\<close>

lemma reap_ok:
  assumes "kinv s" and "tree_inv s" and "sched_post s" and "pid_cour s \<noteq> 0" and "zombie_kid s (pid_cour s) c"
  shows "\<exists>s'. reap_child c rp s = Some (c, s') \<and> kinv s' \<and> tree_inv s' \<and> sched_post s' \<and> keeps (pid_cour s) s s' \<and> pid_cour s' = pid_cour s"
proof -
  note cur = kinv_current [OF assms(1) sched_post_running [OF assms(3)] assms(4)]
  have l: "live s (pid_cour s)" using cur by (simp add: live_def)
  have c: "c \<in> kids s (pid_cour s)" "p_state (tab_proc s c) = STATE_ZOMBIE" using assms(5) by (simp_all add: zombie_kid_def)
  obtain s' where s': "reap_child c rp s = Some (c, s')" "kinv s'" "tree_inv s'" "pid_cour s' = pid_cour s" "p_state (tab_proc s' c) = STATE_DEAD"
    "\<And>p. p \<noteq> c \<Longrightarrow> p_state (tab_proc s' p) = p_state (tab_proc s p)" "\<And>p. p_pid_wait (tab_proc s' p) = p_pid_wait (tab_proc s p)"
    "\<And>p. p_pid_parent (tab_proc s' p) = p_pid_parent (tab_proc s p)" "valid_proc s' = valid_proc s" "prio_of s' = prio_of s"
    "\<And>p. p_val_ret (tab_proc s' p) = p_val_ret (tab_proc s p) \<and> p_killed (tab_proc s' p) = p_killed (tab_proc s p)"
    using reap_child_spec [OF assms(1,2) l c, of rp] by metis
  have "pid_cour s \<noteq> c" using c(2) cur(3) by auto
  moreover have "p_state (tab_proc s' p) = STATE_ACTIVABLE \<longleftrightarrow> p_state (tab_proc s p) = STATE_ACTIVABLE" for p
    using s'(5) s'(6) [of p] c(2) by (cases "p = c") simp_all
  then have "activable s' = activable s" using s'(9) by (simp add: activable_def)
  ultimately have "sched_post s'" using s'(2,4,6,10) by (intro sched_post_cong [OF assms(3)]) simp_all
  moreover have "keeps (pid_cour s) s s'"
  proof (rule keepsI)
    fix p
    assume p: "p \<noteq> pid_cour s"
    have z: "zombie_kid s' p x" if "zombie_kid s p x" for x
    proof -
      have "x \<noteq> c" using that c(1) p by (auto simp: zombie_kid_def kids_def)
      then show ?thesis using that s'(6,8,9) by (simp add: zombie_kid_def kids_def)
    qed
    show "live s p" if "live s' p" using that s'(5,6,9) by (cases "p = c") (auto simp: live_def)
    show "pending_ok s' p w" if "live s' p" "pending_ok s p w" for w
    proof -
      have "p \<noteq> c" using that(1) s'(5) by (auto simp: live_def)
      then show ?thesis using that(2) z s'(6,7) by (simp add: pending_ok_def target_def split: pending.splits if_splits)
    qed
    show "owed s' p q x v k" if "owed s p q x v k" for q x v k
    proof -
      have "p \<noteq> c" using that c(2) by (auto simp: owed_def live_def)
      then show ?thesis using that z s'(6,7,9,11) by (simp add: owed_def live_def)
    qed
  qed
  ultimately show ?thesis using s' by blast
qed

lemma block_for_child:
  assumes "kinv s" and "tree_inv s" and "sched_post s" and "pid_cour s \<noteq> 0"
  shows "\<exists>s'. scheduler (upd_proc (pid_cour s) (\<lambda>c. c\<lparr>p_state := STATE_WAIT_CHILD, p_pid_wait := x\<rparr>) s) = Some s' \<and>
    kinv s' \<and> tree_inv s' \<and> sched_post s' \<and> keeps (pid_cour s) s s' \<and>
    p_state (tab_proc s' (pid_cour s)) = STATE_WAIT_CHILD \<and> p_pid_wait (tab_proc s' (pid_cour s)) = x"
proof -
  let ?p = "pid_cour s"
  let ?t = "upd_proc ?p (\<lambda>c. c\<lparr>p_state := STATE_WAIT_CHILD, p_pid_wait := x\<rparr>) s"
  note cur = kinv_current [OF assms(1) sched_post_running [OF assms(3)] assms(4)]
  have "kinv (upd_proc ?p (\<lambda>c. c\<lparr>p_state := STATE_WAIT_CHILD\<rparr>) s)" (is "kinv ?u")
    using assms(1) cur(3) by (rule kinv_block) (simp_all add: runnable_state_def)
  moreover have "sched_eq ?u ?t" "blocked_on ?t = blocked_on ?u"
    by (auto simp: sched_eq_def blocked_on_def valid_proc_def fun_eq_iff)
  ultimately have "kinv ?t" using kinv_cong [of ?u ?t] by simp
  then obtain s' where s': "scheduler ?t = Some s'" "kinv s'" "sched_post s'" "sched_frame ?t s'" by (rule scheduler_kinv)
  note st = same_tree_frame [OF s'(4)]
  have v: "valid_proc ?t = valid_proc s" by (auto simp: valid_proc_def fun_eq_iff)
  have k: "kids ?t q = kids s q" "live ?t q = live s q" for q using cur(3) v by (auto simp: kids_def live_def)
  have "tree_inv ?t = tree_inv s" by (rule tree_inv_cong) (use cur(3) k v in auto)
  then have "tree_inv s'" using assms(2) same_tree_eq(3) [OF st] by simp
  moreover have "keeps ?p s ?t"
  proof (rule keepsI)
    fix p
    assume p: "p \<noteq> ?p"
    have z: "zombie_kid ?t p y = zombie_kid s p y" for y using cur(3) by (auto simp: zombie_kid_def k)
    show "live s p" if "live ?t p" using that by (simp add: k)
    show "pending_ok ?t p w" if "pending_ok s p w" for w
      using that p z by (cases w) (simp_all add: pending_ok_def target_def split: if_splits)
    show "owed ?t p c y v n" if "owed s p c y v n" for c y v n
      using that p z by (auto simp: owed_def k)
  qed
  then have "keeps ?p s s'" using keeps_same_tree [OF st] by (rule keeps_trans)
  moreover have "p_state (tab_proc s' ?p) = STATE_WAIT_CHILD" "p_pid_wait (tab_proc s' ?p) = x"
    using same_treeD(3,5) [OF st, of ?p] by simp_all
  ultimately show ?thesis using s'(1-3) by blast
qed

lemma find_zombie_spec:
  "\<forall>c \<in> set cs. in_tab c \<Longrightarrow>
   find_zombie cs s = Some None \<or> (\<exists>c \<in> set cs. find_zombie cs s = Some (Some c) \<and> p_state (tab_proc s c) = STATE_ZOMBIE)"
  by (induction cs) auto

text \<open>\<open>waited cur pid r s s'\<close>: the result of \<^verbatim>\<open>waitpid\<close>, which has returned or blocked.\<close>

definition waited :: "int \<Rightarrow> int \<Rightarrow> int option \<Rightarrow> kstate \<Rightarrow> kstate \<Rightarrow> bool" where
  "waited cur pid r s s' \<longleftrightarrow> kinv s' \<and> tree_inv s' \<and> sched_post s' \<and> keeps cur s s' \<and>
     (r = None \<longrightarrow> (\<forall>rp. pending_ok s' cur (In_waitpid pid rp)))"

lemma waited_outside: "kinv s \<Longrightarrow> tree_inv s \<Longrightarrow> sched_post s \<Longrightarrow> outside s s' \<Longrightarrow> waited cur pid (Some r) s s'"
  by (simp add: waited_def outside_eq keeps_same_tree)

lemma waited_trans: "same_tree s t \<Longrightarrow> waited cur pid r t s' \<Longrightarrow> waited cur pid r s s'"
  by (auto simp: waited_def intro: keeps_trans keeps_same_tree)

lemma waited_reap:
  assumes "kinv s" and "tree_inv s" and "sched_post s" and "pid_cour s \<noteq> 0" and "zombie_kid s (pid_cour s) c"
  shows "\<exists>r s'. map_option (map_prod Some id) (reap_child c rp s) = Some (r, s') \<and> waited (pid_cour s) pid r s s'"
  using reap_ok [OF assms, of rp] by (auto simp: waited_def)

lemma waited_block:
  assumes "kinv s" and "tree_inv s" and "sched_post s" and "pid_cour s \<noteq> 0" and "x = (if pid < 0 then -1 else pid)"
  shows "\<exists>r s'. map_option (Pair None) (scheduler (upd_proc (pid_cour s) (\<lambda>c. c\<lparr>p_state := STATE_WAIT_CHILD, p_pid_wait := x\<rparr>) s)) = Some (r, s') \<and>
    waited (pid_cour s) pid r s s'"
  using block_for_child [OF assms(1-4), of x] assms(5) by (auto simp: waited_def pending_ok_def)

lemma waitpid_ok:
  assumes inv: "kinv s" "tree_inv s" "sched_post s" "pid_cour s \<noteq> 0" "usable_blocks 21 s"
  shows "\<exists>r s'. waitpid pid rp s = Some (r, s') \<and> waited (pid_cour s) pid r s s'"
proof -
  let ?p = "pid_cour s" and ?rp = "check_pointer rp SYSCALL_WAITPID s"
  note cur = kinv_current [OF inv(1) sched_post_running [OF inv(3)] inv(4)]
  have l: "live s ?p" using cur by (simp add: live_def)
  obtain cs where cs: "p_children (tab_proc s ?p) = Some cs" "set cs = kids s ?p" using inv(2) l by (rule tree_inv_children)
  obtain a as where al: "allocs s = a # as" "a \<noteq> 0" using usable_blocks_one [OF inv(5)] by auto
  let ?t = "s\<lparr>allocs := as\<rparr>"
  have it: "kl_iterator (Some cs) s = Some (cs, ?t)" using al by (simp add: kl_iterator_def mem_alloc_def Let_def)
  have o: "outside s ?t" by simp
  have t: "kinv ?t" "tree_inv ?t" "sched_post ?t" "pid_cour ?t \<noteq> 0" using inv outside_eq [OF o] by simp_all
  have kt: "kids ?t ?p = kids s ?p" using same_tree_eq(2) [OF outside_eq(3) [OF o]] .
  have same: "\<exists>r s'. Some (Some v, x) = Some (r, s') \<and> waited ?p pid r s s'" if "outside s x" for v x
    using waited_outside [OF inv(1-3) that] by auto
  have tab: "\<forall>c \<in> set cs. in_tab c" using cs(2) by (auto simp: kids_def valid_proc_def)
  have reap: "\<exists>r s'. map_option (map_prod Some id) (reap_child c ?rp ?t) = Some (r, s') \<and> waited ?p pid r s s'"
    if "c \<in> set cs" "p_state (tab_proc ?t c) = STATE_ZOMBIE" for c
    using waited_reap [OF t, of c ?rp pid] waited_trans [OF outside_eq(3) [OF o]] that cs(2) kt by (auto simp: zombie_kid_def)
  have block: "\<exists>r s'. map_option (Pair None) (scheduler (upd_proc ?p (\<lambda>c. c\<lparr>p_state := STATE_WAIT_CHILD, p_pid_wait := x\<rparr>) ?t)) = Some (r, s') \<and>
      waited ?p pid r s s'" if "x = (if pid < 0 then -1 else pid)" for x
    using waited_block [OF t that] waited_trans [OF outside_eq(3) [OF o]] by auto
  consider "pid = ?p" | "pid \<noteq> ?p" "pid = 0" | "pid \<noteq> ?p" "pid < 0" | "pid \<noteq> ?p" "0 < pid" by linarith
  then show ?thesis
  proof cases
    case 1
    then show ?thesis using same [of s] by (simp add: waitpid_def)
  next
    case 2
    then show ?thesis using same [of s] cur(1) by (simp add: waitpid_def Let_def)
  next
    case 3
    show ?thesis
    proof (cases "cs = []")
      case True
      then show ?thesis using 3 same [of s] cs(1) cur(1) by (simp add: waitpid_def Let_def)
    next
      case False
      have w: "waitpid pid rp s = (case find_zombie cs ?t of None \<Rightarrow> None
          | Some (Some c) \<Rightarrow> map_option (map_prod Some id) (reap_child c ?rp ?t)
          | Some None \<Rightarrow> map_option (Pair None) (scheduler (upd_proc ?p (\<lambda>c. c\<lparr>p_state := STATE_WAIT_CHILD, p_pid_wait := -1\<rparr>) ?t)))"
        using 3 False cs(1) it cur(1) by (simp add: waitpid_def Let_def split: option.split)
      show ?thesis using find_zombie_spec [OF tab, of ?t] reap block [of "-1"] 3(2) unfolding w by auto
    qed
  next
    case 4
    then have "waitpid pid rp s = (if pid \<notin> set cs then Some (Some (-3), ?t) else if p_state (tab_proc ?t pid) = STATE_ZOMBIE
        then map_option (map_prod Some id) (reap_child pid ?rp ?t)
        else map_option (Pair None) (scheduler (upd_proc ?p (\<lambda>c. c\<lparr>p_state := STATE_WAIT_CHILD, p_pid_wait := pid\<rparr>) ?t)))"
      using cs(1) it cur(1) tab by (simp add: waitpid_def Let_def)
    then show ?thesis using reap block [of pid] same [OF o] 4(2) by auto
  qed
qed

section \<open>exit\<close>

lemma zombie_kid_ended:
  assumes "ended cur cs s t" and "set cs = kids s cur" and "zombie_kid s p c" and "p \<noteq> cur" and "p_state (tab_proc s cur) \<noteq> STATE_ZOMBIE"
  shows "zombie_kid t p c"
proof -
  have c: "c \<noteq> cur" "c \<notin> set cs" using assms(2-5) by (auto simp: zombie_kid_def kids_def)
  then show ?thesis using assms(1,3) unfolding ended_def zombie_kid_def kids_def by auto
qed

lemma exit_ok:
  assumes "kinv s" and "tree_inv s" and "sched_post s" and "pid_cour s \<noteq> 0" and "pid_cour s \<noteq> 1" and "usable_blocks 21 s"
  shows "\<exists>s'. exit r s = Some s' \<and> kinv s' \<and> tree_inv s' \<and> sched_post s' \<and> keeps (pid_cour s) s s'"
proof -
  let ?p = "pid_cour s" and ?f = "p_pid_parent (tab_proc s (pid_cour s))"
  note cur = kinv_current [OF assms(1) sched_post_running [OF assms(3)] assms(4)]
  show ?thesis
  proof (rule exit_spec [OF assms(1,2) sched_post_running [OF assms(3)] assms(4-6), of r])
    fix t s' cs
    assume e: "exit r s = Some s'" "kinv s'" "sched_post s'" "sched_frame t s'" "ended ?p cs s t"
    "distinct cs" "set cs = kids s ?p" "tree_inv s'"
    "?f > 1 \<Longrightarrow> p_val_ret (tab_proc s' ?p) = r \<and> p_killed (tab_proc s' ?p) = p_killed (tab_proc s ?p)"
    "?f > 1 \<Longrightarrow> father_waits ?f ?p s \<Longrightarrow> runnable_state (p_state (tab_proc s' ?f)) \<and> p_pid_wait (tab_proc s' ?f) = ?p"
    "\<And>q. runnable_state (p_state (tab_proc t q)) \<Longrightarrow> q \<noteq> ?p \<and> (runnable_state (p_state (tab_proc s q)) \<or> q = ?f)"
    "\<And>q. q \<noteq> ?p \<Longrightarrow> p_state (tab_proc s q) = STATE_WAIT_CHILD \<Longrightarrow> \<not> (q > 1 \<and> q = ?f \<and> father_waits q ?p s) \<Longrightarrow>
      p_state (tab_proc t q) = STATE_WAIT_CHILD \<and> p_pid_wait (tab_proc t q) = p_pid_wait (tab_proc s q)"
    "\<And>q. p_state (tab_proc s q) \<noteq> STATE_WAIT_CHILD \<Longrightarrow>
      p_state (tab_proc t q) \<noteq> STATE_WAIT_CHILD \<and> p_pid_wait (tab_proc t q) = p_pid_wait (tab_proc s q)"
    "\<And>q. q \<noteq> ?p \<Longrightarrow> p_val_ret (tab_proc s' q) = p_val_ret (tab_proc s q) \<and> p_killed (tab_proc s' q) = p_killed (tab_proc s q)"
    note st = same_tree_frame [OF e(4)]
    note td = same_treeD [OF st]
    have zk: "zombie_kid t p c" if "zombie_kid s p c" "p \<noteq> ?p" for p c
      using zombie_kid_ended [OF e(5,7) that] cur(3) by simp
    have "keeps ?p s s'"
    proof (rule keepsI)
      fix p
      assume "p \<noteq> ?p" "live s' p"
      then show "live s p" using same_tree_eq(1) [OF st] ended_live [OF e(5)] by simp
    next
      fix p c x v k
      assume p: "p \<noteq> ?p" and ow: "owed s p c x v k"
      then have "zombie_kid s' p c" "live s' p"
        using zk same_tree_eq(1,4) [OF st] ended_live [OF e(5)] by (auto simp: owed_def)
      moreover have "c \<noteq> ?p" using ow cur(3) by (auto simp: owed_def zombie_kid_def)
      moreover have "p_state (tab_proc s' p) \<noteq> STATE_WAIT_CHILD" "p_pid_wait (tab_proc s' p) = x"
        using ow e(13) [of p] td(3,5) [of p] by (auto simp: owed_def)
      ultimately show "owed s' p c x v k" using ow e(14) [of c] by (simp add: owed_def)
    next
      fix p w
      assume p: "p \<noteq> ?p" "live s' p" and ok: "pending_ok s p w"
      consider "\<forall>pid rp. w \<noteq> In_waitpid pid rp" | pid rp where "w = In_waitpid pid rp" "p_state (tab_proc s p) \<noteq> STATE_WAIT_CHILD"
        | pid rp where "w = In_waitpid pid rp" "p_state (tab_proc s p) = STATE_WAIT_CHILD" "p > 1 \<and> p = ?f \<and> father_waits p ?p s"
        | pid rp where "w = In_waitpid pid rp" "p_state (tab_proc s p) = STATE_WAIT_CHILD" "\<not> (p > 1 \<and> p = ?f \<and> father_waits p ?p s)"
        by blast
      then show "pending_ok s' p w"
      proof cases
        case 1
        then show ?thesis by (cases w) simp_all
      next
        case (2 pid rp)
        then have "zombie_kid s p (target s p pid)" using ok by (simp add: pending_ok_def)
        then have "zombie_kid t p (target s p pid)" using zk p(1) by blast
        then show ?thesis using 2 e(13) [OF 2(2)] td(3,5) [of p] same_tree_eq(4) [OF st] by (simp add: pending_ok_def target_def split: if_splits)
      next
        case (3 pid rp)
        then have "p_state (tab_proc s' p) \<noteq> STATE_WAIT_CHILD" "p_pid_wait (tab_proc s' p) = ?p" using e(10) by (auto simp: runnable_state_def)
        moreover have "pid < 0 \<or> pid = ?p" using ok 3 by (auto simp: pending_ok_def father_waits_def split: if_splits)
        moreover have "zombie_kid t p ?p"
          using 3(3) p(1) e(5,7) cur(2) unfolding ended_def zombie_kid_def kids_def by auto
        ultimately show ?thesis using 3(1) same_tree_eq(4) [OF st] by (auto simp: pending_ok_def target_def)
      next
        case (4 pid rp)
        then show ?thesis using ok e(12) [OF p(1) 4(2,3)] td(3,5) [of p] by (simp add: pending_ok_def)
      qed
    qed
    then show ?thesis using e(1-3,8) by blast
  qed
qed

section \<open>start\<close>

lemma start_ok:
  assumes "kinv s" and "tree_inv s" and "sched_post s" and "pid_cour s \<noteq> 0" and "usable_blocks 21 s" and "files_ok s" and "free_pid s = Some q"
    and "ssize \<le> 0xffffffe7"
  shows "\<exists>s'. start en fr f ssize prio name arg s = Some (q, s') \<and> kinv s' \<and> tree_inv s' \<and> sched_post s' \<and> keeps q s s' \<and> q \<noteq> pid_cour s"
proof -
  note cur = kinv_current [OF assms(1) sched_post_running [OF assms(3)] assms(4)]
  have l: "live s (pid_cour s)" using cur by (simp add: live_def)
  obtain cs where cs: "p_children (tab_proc s (pid_cour s)) = Some cs" using assms(2) l by (rule tree_inv_children)
  have m: "usable_blocks 10 s" using assms(5) by (rule usable_blocks_mono) simp
  obtain t u s' where t: "start en fr f ssize prio name arg s = Some (q, s')" "created q (pid_cour s) prio s t" "tab_proc u = tab_proc t"
    "p_name (tab_proc t q) = name" "p_kstack (tab_proc t q) (NB_ELEM_K - 5) = check_pointer f SYSCALL_START s" "tree_inv u"
    "kinv s'" "sched_post s'" "sched_frame u s'" "q \<noteq> pid_cour s" "in_tab q" "\<not> valid_proc s q"
    using assms(1,2,6) l assms(7) cs m assms(8) by (rule start_spec)
  note st = same_tree_frame [OF t(9)]
  have tab: "\<exists>l. tab_proc u r = (tab_proc s r)\<lparr>p_children := l\<rparr>" if "r \<noteq> q" for r
  proof (cases "r = pid_cour s")
    case True
    then show ?thesis using t(2) assms(4) unfolding t(3) created_def by blast
  next
    case False
    then have "tab_proc u r = (tab_proc s r)\<lparr>p_children := p_children (tab_proc s r)\<rparr>" using t(2) that unfolding t(3) created_def by simp
    then show ?thesis ..
  qed
  then have f: "p_state (tab_proc u r) = p_state (tab_proc s r)" "p_pid_wait (tab_proc u r) = p_pid_wait (tab_proc s r)"
    "p_pid_parent (tab_proc u r) = p_pid_parent (tab_proc s r)" "valid_proc u r = valid_proc s r" if "r \<noteq> q" for r
    using tab [OF that] by (auto simp: valid_proc_def)
  have "keeps q s u"
  proof (rule keepsI)
    fix p
    assume p: "p \<noteq> q"
    show "live s p" if "live u p" using f [OF p] that by (simp add: live_def)
    have z: "zombie_kid u p c" "c \<noteq> q" if "zombie_kid s p c" for c
    proof -
      show "c \<noteq> q" using that t(12) by (auto simp: zombie_kid_def kids_def)
      then show "zombie_kid u p c" using that f by (simp add: zombie_kid_def kids_def)
    qed
    show "pending_ok u p w" if "pending_ok s p w" for w
      using that z(1) f(1,2) [OF p] by (cases w) (auto simp: pending_ok_def target_def split: if_splits)
    show "owed u p c x v k" if ow: "owed s p c x v k" for c x v k
    proof -
      have c: "zombie_kid u p c" "c \<noteq> q" using z ow by (simp_all add: owed_def)
      obtain l where "tab_proc u c = (tab_proc s c)\<lparr>p_children := l\<rparr>" using tab [OF c(2)] by blast
      then show ?thesis using ow c f [OF p] by (simp add: owed_def live_def)
    qed
  qed
  then have "keeps q s s'" using keeps_same_tree [OF st] by (rule keeps_trans)
  then show ?thesis using t(1,6-8,10) same_tree_eq(3) [OF st] by auto
qed

section \<open>Steps\<close>

definition after_call :: "int \<Rightarrow> u32 \<Rightarrow> u32 \<Rightarrow> outcome \<Rightarrow> kstate \<Rightarrow> kstate \<Rightarrow> pending" where
  "after_call code a b v s s' =
     (if v = Blocked \<and> code = SYSCALL_WAIT then In_wait
      else if v = Blocked \<and> code = SYSCALL_WAITPID
      then In_waitpid (sint a) (check_pointer b SYSCALL_WAITPID (s\<lparr>in_syscall := SYSCALL_WAITPID\<rparr>))
      else if pid_cour s' \<noteq> pid_cour s then In_call else User)"

text \<open>
  \<open>can_start\<close> is what \<^verbatim>\<open>start\<close> needs: a free descriptor, the files of the caller, a stack size that does not overflow, a name.
  The clock interrupts user code or the idle kernel, never a system call. Between two steps the allocator may have any answers ready.
\<close>

definition can_start :: "u32 \<Rightarrow> u32 \<Rightarrow> int \<Rightarrow> kstate \<Rightarrow> bool" where
  "can_start ssize name q s \<longleftrightarrow> files_ok s \<and> free_pid s = Some q \<and> ssize \<le> 0xffffffe7 \<and> string_arg name s \<noteq> None"

inductive kstep :: "environment \<Rightarrow> machine \<Rightarrow> machine \<Rightarrow> bool" for env where
  Call: "kstep env \<lparr>kern = s, pend = w\<rparr> \<lparr>kern = s', pend = w(p := after_call code a b v s s')\<rparr>"
  if "pid_cour s = p" and "p \<noteq> 0" and "w p = User" and "core_call code a s" and "usable_blocks 21 s"
    and "int49 env (word_of_int code) a b c d e s = Some (v, outs, s')"
| Start: "kstep env \<lparr>kern = s, pend = w\<rparr> \<lparr>kern = s', pend = w(p := after_call SYSCALL_START a b v s s', q := User)\<rparr>"
  if "pid_cour s = p" and "p \<noteq> 0" and "w p = User" and "can_start b d q s" and "usable_blocks 21 s"
    and "int49 env (word_of_int SYSCALL_START) a b c d e s = Some (v, outs, s')"
| Call_return: "kstep env \<lparr>kern = s, pend = w\<rparr> \<lparr>kern = s\<lparr>in_syscall := 0xff\<rparr>, pend = w(p := User)\<rparr>"
  if "pid_cour s = p" and "p \<noteq> 0" and "w p = In_call"
| Wait_return: "kstep env \<lparr>kern = s, pend = w\<rparr> \<lparr>kern = s'\<lparr>in_syscall := 0xff\<rparr>, pend = w(p := User)\<rparr>"
  if "pid_cour s = p" and "p \<noteq> 0" and "w p = In_wait" and "wait_resume s = Some (r, s')"
| Waitpid_return: "kstep env \<lparr>kern = s, pend = w\<rparr> \<lparr>kern = s'\<lparr>in_syscall := 0xff\<rparr>, pend = w(p := User)\<rparr>"
  if "pid_cour s = p" and "p \<noteq> 0" and "w p = In_waitpid pid rp" and "waitpid_resume pid rp s = Some (r, s')"
| Tick: "kstep env \<lparr>kern = s, pend = w\<rparr> \<lparr>kern = s', pend = w\<rparr>"
  if "pid_cour s = 0 \<or> w (pid_cour s) = User" and "clock_tick s = Some s'"
| Memory: "kstep env \<lparr>kern = s, pend = w\<rparr> \<lparr>kern = s\<lparr>allocs := as\<rparr>, pend = w\<rparr>"

definition minv :: "machine \<Rightarrow> bool" where
  "minv m \<longleftrightarrow> kinv (kern m) \<and> tree_inv (kern m) \<and> sched_post (kern m) \<and> (\<forall>p. live (kern m) p \<longrightarrow> pending_ok (kern m) p (pend m p))"

lemma minvD:
  assumes "minv \<lparr>kern = s, pend = w\<rparr>"
  shows "kinv s" "tree_inv s" "sched_post s" "live s p \<Longrightarrow> pending_ok s p (w p)"
  using assms by (simp_all add: minv_def)

lemma minv_keeps:
  assumes "minv \<lparr>kern = s, pend = w\<rparr>" and "kinv s'" and "tree_inv s'" and "sched_post s'" and "keeps p s s'" and "live s' p \<Longrightarrow> pending_ok s' p x"
  shows "minv \<lparr>kern = s', pend = w(p := x)\<rparr>"
  using assms by (auto simp: minv_def keeps_def)

lemma minv_same_tree: "minv \<lparr>kern = s, pend = w\<rparr> \<Longrightarrow> advances s s' \<Longrightarrow> minv \<lparr>kern = s', pend = w\<rparr>"
  unfolding minv_def advances_def using same_tree_eq(1,3,5) [of s s'] by simp

lemma minv_advances:
  "minv \<lparr>kern = s, pend = w\<rparr> \<Longrightarrow> advances s s' \<Longrightarrow> (\<And>pid rp. x \<noteq> In_waitpid pid rp) \<Longrightarrow> minv \<lparr>kern = s', pend = w(p := x)\<rparr>"
  using minv_keeps [of s w s' p x] minvD(2) [of s w] same_tree_eq(3) [of s s'] keeps_same_tree [of s s' p]
  by (auto simp: advances_def pending_ok_def split: pending.split)

section \<open>Every step keeps the invariant\<close>

lemma minv_outside: "minv \<lparr>kern = s, pend = w\<rparr> \<Longrightarrow> outside s s' \<Longrightarrow> minv \<lparr>kern = s', pend = w\<rparr>"
  using minv_same_tree [of s w s'] advances_outside [of s s'] minvD [of s w] by blast

lemma minv_live: "minv \<lparr>kern = s, pend = w\<rparr> \<Longrightarrow> pid_cour s \<noteq> 0 \<Longrightarrow> live s (pid_cour s)"
  using kinv_current [OF minvD(1) sched_post_running [OF minvD(3)], of s w] by (simp add: live_def)

text \<open>\<open>safe_call w p f r\<close>: the call ends in a state where the invariant holds, with what \<open>f\<close> says the process \<open>p\<close> is then inside of.\<close>

definition safe_call :: "(int \<Rightarrow> pending) \<Rightarrow> int \<Rightarrow> (outcome \<Rightarrow> kstate \<Rightarrow> pending) \<Rightarrow> sysres \<Rightarrow> bool" where
  "safe_call w p f r \<longleftrightarrow> (\<exists>v outs s'. r = Some (v, outs, s') \<and> minv \<lparr>kern = s', pend = w(p := f v s')\<rparr>)"

lemma safe_leave:
  assumes "safe_call w p f r" and "\<And>v s c. f v (s\<lparr>in_syscall := c\<rparr>) = f v s"
  shows "safe_call w p f (leave_syscall cur r)"
proof -
  obtain v outs s' where r: "r = Some (v, outs, s')" "minv \<lparr>kern = s', pend = w(p := f v s')\<rparr>" using assms(1) by (auto simp: safe_call_def)
  from r(2) have "minv \<lparr>kern = s'\<lparr>in_syscall := 0xff\<rparr>, pend = w(p := f v s')\<rparr>" by (rule minv_outside) simp
  with r show ?thesis by (simp add: safe_call_def leave_syscall_def assms(2))
qed

lemma after_call_in_syscall [simp]: "after_call code a b v s (t\<lparr>in_syscall := c\<rparr>) = after_call code a b v s t"
  by (simp add: after_call_def)

lemma after_call_ok: "code \<noteq> SYSCALL_WAITPID \<or> v \<noteq> Blocked \<Longrightarrow> pending_ok t p (after_call code a b v s s')"
  by (auto simp: after_call_def)

lemma exit_safe:
  assumes m: "minv \<lparr>kern = s, pend = w\<rparr>" and p: "pid_cour s \<noteq> 0" "pid_cour s \<noteq> 1" "usable_blocks 21 s"
  shows "safe_call w (pid_cour s) (\<lambda>v s'. after_call SYSCALL_EXIT a b v s s') (int49 env (word_of_int SYSCALL_EXIT) a b c d e s)"
proof -
  let ?s = "s\<lparr>in_syscall := SYSCALL_EXIT\<rparr>"
  have m': "minv \<lparr>kern = ?s, pend = w\<rparr>" using m by (rule minv_outside) simp
  obtain s' where e: "exit (sint a) ?s = Some s'" "kinv s'" "tree_inv s'" "sched_post s'" "keeps (pid_cour s) ?s s'"
    using exit_ok [of ?s "sint a"] minvD(1-3) [OF m'] p by auto
  have "minv \<lparr>kern = s', pend = w(pid_cour s := after_call SYSCALL_EXIT a b Void s s')\<rparr>"
    using m' e(2-5) by (rule minv_keeps) (simp add: after_call_ok)
  then have "safe_call w (pid_cour s) (\<lambda>v s'. after_call SYSCALL_EXIT a b v s s') (ret_void (exit (sint a) ?s))"
    using e(1) by (simp add: safe_call_def ret_void_def)
  then show ?thesis unfolding int49_calls(9) by (rule safe_leave) simp
qed

lemma waitpid_safe:
  assumes m: "minv \<lparr>kern = s, pend = w\<rparr>" and p: "pid_cour s \<noteq> 0" "usable_blocks 21 s"
  shows "safe_call w (pid_cour s) (\<lambda>v s'. after_call SYSCALL_WAITPID a b v s s') (int49 env (word_of_int SYSCALL_WAITPID) a b c d e s)"
proof -
  let ?s = "s\<lparr>in_syscall := SYSCALL_WAITPID\<rparr>"
  have m': "minv \<lparr>kern = ?s, pend = w\<rparr>" using m by (rule minv_outside) simp
  obtain r s' where e: "waitpid (sint a) b ?s = Some (r, s')" "waited (pid_cour s) (sint a) r ?s s'"
    using waitpid_ok [of ?s "sint a" b] minvD(1-3) [OF m'] p by auto
  define v where "v = (case r of None \<Rightarrow> Blocked | Some v \<Rightarrow> Value (word_of_int v))"
  have "pending_ok s' (pid_cour s) (after_call SYSCALL_WAITPID a b v s s')"
    using e(2) by (cases r) (simp_all add: waited_def v_def after_call_def syscall_codes)
  then have "minv \<lparr>kern = s', pend = w(pid_cour s := after_call SYSCALL_WAITPID a b v s s')\<rparr>"
    using e(2) by (intro minv_keeps [OF m']) (simp_all add: waited_def)
  then have "safe_call w (pid_cour s) (\<lambda>v s'. after_call SYSCALL_WAITPID a b v s s') (ret_wait (waitpid (sint a) b ?s))"
    using e(1) by (simp add: safe_call_def ret_wait_def v_def)
  then show ?thesis unfolding int49_calls(15) by (rule safe_leave) simp
qed

lemma call_safe:
  assumes m: "minv \<lparr>kern = s, pend = w\<rparr>" and p: "pid_cour s \<noteq> 0" "usable_blocks 21 s" and call: "core_call code a s"
  shows "safe_call w (pid_cour s) (\<lambda>v s'. after_call code a b v s s') (int49 env (word_of_int code) a b c d e s)"
proof -
  consider "code = SYSCALL_EXIT" | "code = SYSCALL_WAITPID" | "code \<noteq> SYSCALL_EXIT" "code \<noteq> SYSCALL_WAITPID" by blast
  then show ?thesis
  proof cases
    case 1
    then show ?thesis using exit_safe [OF m p(1) _ p(2)] call by (simp add: core_call_def)
  next
    case 2
    then show ?thesis using waitpid_safe [OF m p] by simp
  next
    case 3
    have "fair s (int49 env (word_of_int code) a b c d e s)" using minvD(1,3) [OF m] p call 3 by (rule core_call_fair)
    then obtain v s' where r: "int49 env (word_of_int code) a b c d e s = Some (v, [], s')" "advances s s'" by (auto simp: fair_def)
    have "minv \<lparr>kern = s', pend = w(pid_cour s := after_call code a b v s s')\<rparr>"
      using m r(2) by (rule minv_advances) (use 3 in \<open>auto simp: after_call_def\<close>)
    then show ?thesis using r(1) by (simp add: safe_call_def)
  qed
qed

lemma int49_start:
  "int49 env (word_of_int SYSCALL_START) a b c d e s = leave_syscall (pid_cour s) (do {
     name \<leftarrow> string_arg d s;
     ret_int (start (env_entries env) (env_fresh env) a b (sint c) name e (s\<lparr>in_syscall := SYSCALL_START\<rparr>)) })"
  by (simp add: int49_def Let_def syscall_handler5_def syscalls_5_def syscall_codes SYSCALL_START_def string_arg_def)

lemma start_safe:
  assumes m: "minv \<lparr>kern = s, pend = w\<rparr>" and p: "pid_cour s \<noteq> 0" "usable_blocks 21 s" and start: "can_start b d q s"
  shows "safe_call (w(q := User)) (pid_cour s) (\<lambda>v s'. after_call SYSCALL_START a b v s s') (int49 env (word_of_int SYSCALL_START) a b c d e s) \<and>
    q \<noteq> pid_cour s"
proof -
  let ?s = "s\<lparr>in_syscall := SYSCALL_START\<rparr>"
  have m': "minv \<lparr>kern = ?s, pend = w\<rparr>" using m by (rule minv_outside) simp
  obtain name where name: "string_arg d s = Some name" using start by (auto simp: can_start_def)
  have ok: "files_ok ?s" "free_pid ?s = Some q" "b \<le> 0xffffffe7"
    using start vfs_ready_cong [of ?s s] by (simp_all add: can_start_def files_ok_def free_pid_def fd_ok_def)
  obtain s' where s': "start (env_entries env) (env_fresh env) a b (sint c) name e ?s = Some (q, s')" "kinv s'" "tree_inv s'" "sched_post s'"
    "keeps q ?s s'" "q \<noteq> pid_cour s"
    using start_ok [of ?s q b "env_entries env" "env_fresh env" a "sint c" name e] minvD(1-3) [OF m'] p ok by auto
  let ?v = "Value (word_of_int q)"
  have "minv \<lparr>kern = s', pend = w(q := User)\<rparr>" using m' s'(2-5) by (rule minv_keeps) simp
  moreover have "keeps (pid_cour s) s' s'" by (rule keeps_same_tree) (rule same_tree_refl)
  ultimately have "minv \<lparr>kern = s', pend = w(q := User, pid_cour s := after_call SYSCALL_START a b ?v s s')\<rparr>"
    using minv_keeps [of s' "w(q := User)" s' "pid_cour s"] s'(2-4) by (simp add: after_call_ok)
  then have "safe_call (w(q := User)) (pid_cour s) (\<lambda>v s'. after_call SYSCALL_START a b v s s')
      (ret_int (start (env_entries env) (env_fresh env) a b (sint c) name e ?s))"
    using s'(1) by (simp add: safe_call_def ret_int_def)
  then show ?thesis using s'(6) name unfolding int49_start by (simp add: safe_leave)
qed

lemma wait_resume_safe:
  assumes m: "minv \<lparr>kern = s, pend = w\<rparr>" and p: "pid_cour s \<noteq> 0"
  shows "\<exists>r s'. wait_resume s = Some (r, s') \<and> minv \<lparr>kern = s', pend = w(pid_cour s := User)\<rparr>"
proof -
  let ?t = "upd_proc (pid_cour s) (\<lambda>c. c\<lparr>p_sid_reseted := 0\<rparr>) s"
  note i = minvD(1-3) [OF m]
  have "in_tab (pid_cour s)" using minv_live [OF m p] by (simp add: live_def valid_proc_def)
  then have "\<exists>r s'. wait_resume s = Some (r, s') \<and> (s' = s \<or> s' = ?t)" by (simp add: wait_resume_def Let_def)
  then obtain r s' where r: "wait_resume s = Some (r, s')" "s' = s \<or> s' = ?t" by blast
  have eq: "sched_eq s ?t" "blocked_on ?t = blocked_on s" "activable ?t = activable s" "prio_of ?t = prio_of s"
    by (auto simp: sched_eq_def blocked_on_def valid_proc_def activable_def prio_of_def fun_eq_iff)
  then have "kinv ?t" using i(1) kinv_cong [of s ?t] by simp
  moreover from this have "sched_post ?t" using eq by (intro sched_post_cong [OF i(3)]) simp_all
  moreover have "same_tree s ?t" by (simp add: same_tree_def)
  ultimately have "advances s ?t" by (simp add: advances_def)
  with r(2) have "advances s s'" using advances_refl [OF i(1,3)] by auto
  with m have "minv \<lparr>kern = s', pend = w(pid_cour s := User)\<rparr>" by (rule minv_advances) simp
  with r(1) show ?thesis by blast
qed

lemma waitpid_resume_safe:
  assumes m: "minv \<lparr>kern = s, pend = w\<rparr>" and p: "pid_cour s \<noteq> 0" "w (pid_cour s) = In_waitpid pid rp"
  shows "\<exists>r s'. waitpid_resume pid rp s = Some (r, s') \<and> minv \<lparr>kern = s', pend = w(pid_cour s := User)\<rparr>"
proof -
  have "p_state (tab_proc s (pid_cour s)) \<noteq> STATE_WAIT_CHILD"
    using sched_post_running [OF minvD(3) [OF m]] p(1) by (simp add: running_def)
  then have "zombie_kid s (pid_cour s) (target s (pid_cour s) pid)"
    using minvD(4) [OF m minv_live [OF m p(1)]] p(2) by (simp add: pending_ok_def)
  from reap_ok [OF minvD(1-3) [OF m] p(1) this, of rp] obtain c s' where
    "waitpid_resume pid rp s = Some (c, s')" "kinv s'" "tree_inv s'" "sched_post s'" "keeps (pid_cour s) s s'"
    by (auto simp: waitpid_resume_def target_def)
  then show ?thesis using minv_keeps [OF m, of s' "pid_cour s" User] by simp
qed

lemma kstep_minv:
  assumes "kstep env m m'" and "minv m"
  shows "minv m'"
  using assms
proof cases
  case (Call s p w code a b c d e v outs s')
  then have "safe_call w p (\<lambda>v s'. after_call code a b v s s') (int49 env (word_of_int code) a b c d e s)"
    using call_safe [of s w code a b env c d e] assms(2) by simp
  then show ?thesis using Call by (simp add: safe_call_def)
next
  case (Start s p w b d q a c e v outs s')
  then have "safe_call (w(q := User)) p (\<lambda>v s'. after_call SYSCALL_START a b v s s') (int49 env (word_of_int SYSCALL_START) a b c d e s)" "q \<noteq> p"
    using start_safe [of s w b d q a env c e] assms(2) by simp_all
  then show ?thesis using Start by (simp add: safe_call_def fun_upd_twist)
next
  case (Call_return s p w)
  have "minv \<lparr>kern = s\<lparr>in_syscall := 0xff\<rparr>, pend = w(p := User)\<rparr>"
    using minv_advances [of s w "s\<lparr>in_syscall := 0xff\<rparr>" User p] advances_outside [of s] minvD(1,3) [of s w] assms(2) Call_return by simp
  with Call_return show ?thesis by simp
next
  case (Wait_return s p w r s')
  then have "minv \<lparr>kern = s', pend = w(p := User)\<rparr>" using wait_resume_safe [of s w] assms(2) by auto
  then have "minv \<lparr>kern = s'\<lparr>in_syscall := 0xff\<rparr>, pend = w(p := User)\<rparr>" by (rule minv_outside) simp
  with Wait_return show ?thesis by simp
next
  case (Waitpid_return s p w pid rp r s')
  then have "minv \<lparr>kern = s', pend = w(p := User)\<rparr>" using waitpid_resume_safe [of s w pid rp] assms(2) by auto
  then have "minv \<lparr>kern = s'\<lparr>in_syscall := 0xff\<rparr>, pend = w(p := User)\<rparr>" by (rule minv_outside) simp
  with Waitpid_return show ?thesis by simp
next
  case (Tick s w s')
  then show ?thesis using clock_tick_advances [of s] minvD(1) [of s w] minv_same_tree [of s w s'] assms(2) by auto
next
  case (Memory s w as)
  then show ?thesis using minv_outside [of s w "s\<lparr>allocs := as\<rparr>"] assms(2) by simp
qed

text \<open>Whatever comes next, the kernel has an answer: no dereference of a null pointer, no failed assertion, no loop without end.\<close>

definition no_fault :: "environment \<Rightarrow> machine \<Rightarrow> bool" where
  "no_fault env m \<longleftrightarrow> (let s = kern m; p = pid_cour s in
     (p \<noteq> 0 \<and> pend m p = User \<and> usable_blocks 21 s \<longrightarrow>
        (\<forall>code a b c d e. core_call code a s \<longrightarrow> int49 env (word_of_int code) a b c d e s \<noteq> None) \<and>
        (\<forall>a b c d e q. can_start b d q s \<longrightarrow> int49 env (word_of_int SYSCALL_START) a b c d e s \<noteq> None)) \<and>
     (p \<noteq> 0 \<and> pend m p = In_wait \<longrightarrow> wait_resume s \<noteq> None) \<and>
     (\<forall>pid rp. p \<noteq> 0 \<and> pend m p = In_waitpid pid rp \<longrightarrow> waitpid_resume pid rp s \<noteq> None) \<and>
     clock_tick s \<noteq> None)"

lemma minv_no_fault:
  assumes "minv m"
  shows "no_fault env m"
proof -
  obtain s w where m: "m = \<lparr>kern = s, pend = w\<rparr>" by (cases m)
  note i = assms [unfolded m]
  have "int49 env (word_of_int code) a b c d e s \<noteq> None" if "pid_cour s \<noteq> 0" "usable_blocks 21 s" "core_call code a s" for code a b c d e
    using call_safe [OF i that, of b env c d e] by (auto simp: safe_call_def)
  moreover have "int49 env (word_of_int SYSCALL_START) a b c d e s \<noteq> None" if "pid_cour s \<noteq> 0" "usable_blocks 21 s" "can_start b d q s" for a b c d e q
    using start_safe [OF i that, of a env c e] by (auto simp: safe_call_def)
  moreover have "wait_resume s \<noteq> None" if "pid_cour s \<noteq> 0" using wait_resume_safe [OF i that] by auto
  moreover have "waitpid_resume pid rp s \<noteq> None" if "pid_cour s \<noteq> 0" "w (pid_cour s) = In_waitpid pid rp" for pid rp
    using waitpid_resume_safe [OF i that] by auto
  moreover have "clock_tick s \<noteq> None" using clock_tick_advances [OF minvD(1) [OF i]] by auto
  ultimately show ?thesis unfolding no_fault_def m Let_def machine.simps by blast
qed

lemma reachable_minv: "(kstep env)\<^sup>*\<^sup>* m m' \<Longrightarrow> minv m \<Longrightarrow> minv m'"
  by (induction rule: rtranclp_induct) (auto intro: kstep_minv)

text \<open>
  C2. The kernel is safe within the calls of \<open>core_call\<close> and \<open>can_start\<close>. From a state with the invariants, after any sequence of such system calls, of
  returns of blocked calls and of clock interrupts, the invariants hold, the running process has the greatest priority, and the next such operation does not fault.

  The calls are \<^verbatim>\<open>getpid\<close>, \<^verbatim>\<open>getppid\<close>, \<^verbatim>\<open>getprio\<close> (of a PID that is not negative), \<^verbatim>\<open>chprio\<close> (of a PID of the table), \<^verbatim>\<open>exit\<close> (not by Init), \<^verbatim>\<open>waitpid\<close>, \<^verbatim>\<open>start\<close> (with a free
  descriptor, the caller's files in order, a readable name and a stack size up to 0xffffffe7), all calls on semaphores, \<^verbatim>\<open>current_clock\<close>, \<^verbatim>\<open>clock_settings\<close>,
  \<^verbatim>\<open>wait_clock\<close> and \<^verbatim>\<open>usleep\<close>, each with 21 blocks left in the allocator. Not among them are \<^verbatim>\<open>kill\<close> and the calls on signals, files and consoles; a negative PID for \<^verbatim>\<open>getprio\<close> and a
  PID outside the table for \<^verbatim>\<open>chprio\<close> do fault, in the code and in the model.
\<close>

theorem kernel_never_faults:
  assumes "minv m" and "(kstep env)\<^sup>*\<^sup>* m m'"
  shows "no_fault env m' \<and> kinv (kern m') \<and> tree_inv (kern m') \<and> sched_post (kern m') \<and>
    (\<forall>p pid rp. live (kern m') p \<longrightarrow> pend m' p = In_waitpid pid rp \<longrightarrow> p_state (tab_proc (kern m') p) \<noteq> STATE_WAIT_CHILD \<longrightarrow>
       zombie_kid (kern m') p (target (kern m') p pid))"
proof -
  have "minv m'" using assms(2,1) by (rule reachable_minv)
  then show ?thesis using minv_no_fault by (auto simp: minv_def pending_ok_def)
qed

definition ex_machine :: machine where
  "ex_machine = \<lparr>kern = ex_tree, pend = (\<lambda>p. if p_state (tab_proc ex_tree p) = STATE_WAIT_CHILD then In_waitpid (-1) 0 else User)\<rparr>"

lemma ex_machine_minv: "minv ex_machine"
proof -
  have "activable ex_tree = {}" by (auto simp: activable_def)
  then have "sched_post ex_tree" using ex_tree_kinv by (simp add: sched_post_def kinv_def)
  then show ?thesis using ex_tree_kinv ex_tree_tree by (simp add: minv_def ex_machine_def pending_ok_def live_def zombie_kid_def)
qed

text \<open>Process 2 ends; its father 6, inside \<^verbatim>\<open>waitpid(-1)\<close>, is woken up.\<close>

lemma ex_machine_exit:
  "\<exists>s'. kstep ex_env ex_machine \<lparr>kern = s', pend = (pend ex_machine)(2 := In_call)\<rparr> \<and>
     live s' 6 \<and> runnable_state (p_state (tab_proc s' 6)) \<and> p_pid_wait (tab_proc s' 6) = 2"
proof -
  let ?s = "ex_tree\<lparr>in_syscall := SYSCALL_EXIT\<rparr>"
  have tab: "tab_proc ?s = tab_proc ex_tree" "pid_cour ?s = 2" by simp_all
  have inv: "kinv ?s" "tree_inv ?s" "running ?s" "pid_cour ?s \<noteq> 0" "pid_cour ?s \<noteq> 1" "usable_blocks 21 ?s"
    using ex_tree_kinv ex_tree_tree ex_tree_blocks by (simp_all add: running_def del: outside_in_syscall(2))
  have f: "p_pid_parent (tab_proc ?s (pid_cour ?s)) = 6" "father_waits 6 (pid_cour ?s) ?s" by (simp_all add: father_waits_def)
  show ?thesis
  proof (rule exit_spec [OF inv, of 0])
    fix t s' cs
    assume e: "exit 0 ?s = Some s'" "kinv s'" "sched_post s'" "sched_frame t s'" "ended (pid_cour ?s) cs ?s t"
    assume w: "1 < p_pid_parent (tab_proc ?s (pid_cour ?s)) \<Longrightarrow> father_waits (p_pid_parent (tab_proc ?s (pid_cour ?s))) (pid_cour ?s) ?s \<Longrightarrow>
      runnable_state (p_state (tab_proc s' (p_pid_parent (tab_proc ?s (pid_cour ?s))))) \<and>
      p_pid_wait (tab_proc s' (p_pid_parent (tab_proc ?s (pid_cour ?s)))) = pid_cour ?s"
    have z: "p_state (tab_proc s' 2) = STATE_ZOMBIE" using e(5) f(1) same_treeD(4) [OF same_tree_frame [OF e(4)], of 2] by (simp add: ended_def)
    then have p: "pid_cour s' \<noteq> 2" using sched_post_running [OF e(3)] by (auto simp: running_def)
    have "runnable_state (p_state (tab_proc s' 6)) \<and> p_pid_wait (tab_proc s' 6) = 2" using w f by simp
    moreover have "live t 6" using ended_live [OF e(5), of 6] by (simp add: live_def)
    then have "live s' 6" using same_tree_eq(1) [OF same_tree_frame [OF e(4)]] by simp
    moreover have "int49 ex_env (word_of_int SYSCALL_EXIT) 0 0 0 0 0 ex_tree = Some (Void, [], s')"
      unfolding int49_calls(9) using e(1) p by (simp add: ret_void_def leave_syscall_def)
    then have "kstep ex_env \<lparr>kern = ex_tree, pend = pend ex_machine\<rparr>
        \<lparr>kern = s', pend = (pend ex_machine)(2 := after_call SYSCALL_EXIT 0 0 Void ex_tree s')\<rparr>"
      by (intro Call [where p = 2]) (simp_all add: ex_machine_def core_call_def core_calls_def syscall_codes)
    moreover have "after_call SYSCALL_EXIT 0 0 Void ex_tree s' = In_call" using p by (simp add: after_call_def)
    ultimately show ?thesis by (auto simp: ex_machine_def)
  qed
qed

theorem kernel_never_faults_witness:
  "\<exists>m. (kstep ex_env)\<^sup>*\<^sup>* ex_machine m \<and> no_fault ex_env m \<and> kinv (kern m) \<and> tree_inv (kern m) \<and> sched_post (kern m) \<and>
     pend m 6 = In_waitpid (-1) 0 \<and> zombie_kid (kern m) 6 2"
proof -
  obtain s' where s': "kstep ex_env ex_machine \<lparr>kern = s', pend = (pend ex_machine)(2 := In_call)\<rparr>" (is "kstep _ _ ?m")
    "live s' 6" "runnable_state (p_state (tab_proc s' 6))" "p_pid_wait (tab_proc s' 6) = 2"
    using ex_machine_exit by blast
  have r: "(kstep ex_env)\<^sup>*\<^sup>* ex_machine ?m" using s'(1) by (rule r_into_rtranclp)
  have six: "pend ?m 6 = In_waitpid (-1) 0" "p_state (tab_proc (kern ?m) 6) \<noteq> STATE_WAIT_CHILD" "target (kern ?m) 6 (-1) = 2" "live (kern ?m) 6"
    using s'(2-4) by (auto simp: ex_machine_def runnable_state_def target_def)
  note k = kernel_never_faults [OF ex_machine_minv r]
  have "zombie_kid (kern ?m) 6 2" using k six by metis
  with k r six(1) show ?thesis by blast
qed

section \<open>The value of exit\<close>

lemma keeps_outside: "outside s s' \<Longrightarrow> keeps cur s s'"
  by (rule keeps_same_tree) (rule outside_eq(3))

lemma keeps_leave:
  assumes "leave_syscall p r = Some (v, outs, s')" and "\<And>v outs t. r = Some (v, outs, t) \<Longrightarrow> keeps cur (s\<lparr>in_syscall := c\<rparr>) t"
  shows "keeps cur s s'"
proof -
  from assms(1) obtain t where t: "r = Some (v, outs, t)" "s' = (if pid_cour t = p then t\<lparr>in_syscall := 0xff\<rparr> else t)"
    by (rule leave_syscall_Some)
  have "keeps cur s (s\<lparr>in_syscall := c\<rparr>)" "keeps cur t s'" using t(2) by (auto intro: keeps_outside)
  then show ?thesis using assms(2) [OF t(1)] keeps_trans by blast
qed

lemma call_keeps:
  assumes m: "minv \<lparr>kern = s, pend = w\<rparr>" and p: "pid_cour s \<noteq> 0" "usable_blocks 21 s" and call: "core_call code a s"
    and r: "int49 env (word_of_int code) a b c d e s = Some (v, outs, s')"
  shows "keeps (pid_cour s) s s'"
proof -
  let ?s = "s\<lparr>in_syscall := code\<rparr>"
  have i: "kinv ?s" "tree_inv ?s" "sched_post ?s" "pid_cour ?s = pid_cour s" "usable_blocks 21 ?s" using minvD(1-3) [OF m] p by simp_all
  consider "code = SYSCALL_EXIT" | "code = SYSCALL_WAITPID" | "code \<noteq> SYSCALL_EXIT" "code \<noteq> SYSCALL_WAITPID" by blast
  then show ?thesis
  proof cases
    case 1
    then have "leave_syscall (pid_cour s) (ret_void (exit (sint a) ?s)) = Some (v, outs, s')" using r int49_calls(9) by simp
    moreover have "keeps (pid_cour s) ?s t" if "ret_void (exit (sint a) ?s) = Some (x, y, t)" for x y t
      using exit_ok [of ?s "sint a"] i p call 1 that by (auto simp: core_call_def ret_void_def)
    ultimately show ?thesis by (rule keeps_leave)
  next
    case 2
    then have "leave_syscall (pid_cour s) (ret_wait (waitpid (sint a) b ?s)) = Some (v, outs, s')" using r int49_calls(15) by simp
    moreover have "keeps (pid_cour s) ?s t" if "ret_wait (waitpid (sint a) b ?s) = Some (x, y, t)" for x y t
      using waitpid_ok [of ?s "sint a" b] i p that by (auto simp: waited_def ret_wait_def)
    ultimately show ?thesis by (rule keeps_leave)
  next
    case 3
    have "fair s (int49 env (word_of_int code) a b c d e s)" using minvD(1,3) [OF m] p call 3 by (rule core_call_fair)
    then have "advances s s'" using r by (auto simp: fair_def)
    then show ?thesis by (auto simp: advances_def intro: keeps_same_tree)
  qed
qed

lemma start_keeps:
  assumes m: "minv \<lparr>kern = s, pend = w\<rparr>" and p: "pid_cour s \<noteq> 0" "usable_blocks 21 s" and start: "can_start b d q s"
    and r: "int49 env (word_of_int SYSCALL_START) a b c d e s = Some (v, outs, s')"
  shows "keeps q s s'"
proof -
  let ?s = "s\<lparr>in_syscall := SYSCALL_START\<rparr>"
  have i: "kinv ?s" "tree_inv ?s" "sched_post ?s" "pid_cour ?s \<noteq> 0" "usable_blocks 21 ?s" using minvD(1-3) [OF m] p by simp_all
  obtain name where name: "string_arg d s = Some name" using start by (auto simp: can_start_def)
  have ok: "files_ok ?s" "free_pid ?s = Some q" "b \<le> 0xffffffe7"
    using start vfs_ready_cong [of ?s s] by (simp_all add: can_start_def files_ok_def free_pid_def fd_ok_def)
  have "leave_syscall (pid_cour s) (ret_int (start (env_entries env) (env_fresh env) a b (sint c) name e ?s)) = Some (v, outs, s')"
    using r name unfolding int49_start by simp
  moreover have "keeps q ?s t" if "ret_int (start (env_entries env) (env_fresh env) a b (sint c) name e ?s) = Some (x, y, t)" for x y t
    using start_ok [OF i ok, of "env_entries env" "env_fresh env" a "sint c" name e] that by (auto simp: ret_int_def)
  ultimately show ?thesis by (rule keeps_leave)
qed

lemma free_pid_not_live: "free_pid s = Some q \<Longrightarrow> \<not> live s q"
  by (auto simp: free_pid_def find_Some_iff live_def valid_proc_def)

lemma wait_resume_keeps:
  assumes "wait_resume s = Some (r, s')"
  shows "keeps cur s s'"
proof -
  have "s' = s \<or> s' = upd_proc (pid_cour s) (\<lambda>c. c\<lparr>p_sid_reseted := 0\<rparr>) s"
    using assms by (auto simp: wait_resume_def Let_def split: if_splits)
  then show ?thesis by (intro keeps_same_tree) (auto simp: same_tree_def)
qed

text \<open>As long as a process does not run, what it is to learn stays as it is, and it stays inside its call.\<close>

lemma kstep_owed:
  assumes "kstep env m m'" and "minv m" and "pid_cour (kern m) \<noteq> f" and "owed (kern m) f c x v k"
  shows "owed (kern m') f c x v k \<and> pend m' f = pend m f"
  using assms(1)
proof cases
  case (Call s p w code a b c d e r outs s')
  then have "keeps p s s'" using call_keeps [of s w code a env b c d e r outs s'] assms(2) by simp
  with Call assms(3,4) show ?thesis by (simp add: keeps_def)
next
  case (Start s p w b d q a c e r outs s')
  then have "keeps q s s'" using start_keeps [of s w b d q env a c e r outs s'] assms(2) by simp
  moreover have "f \<noteq> q" using free_pid_not_live [of s q] Start assms(4) by (auto simp: can_start_def owed_def)
  ultimately show ?thesis using Start assms(3,4) by (simp add: keeps_def)
next
  case (Call_return s p w)
  have "keeps p s (s\<lparr>in_syscall := 0xff\<rparr>)" by (rule keeps_outside) simp
  with Call_return assms(3,4) show ?thesis by (simp add: keeps_def)
next
  case (Wait_return s p w r s')
  have "keeps p s' (s'\<lparr>in_syscall := 0xff\<rparr>)" by (rule keeps_outside) simp
  with wait_resume_keeps [OF Wait_return(6)] have "keeps p s (s'\<lparr>in_syscall := 0xff\<rparr>)" by (rule keeps_trans)
  with Wait_return assms(3,4) show ?thesis by (simp add: keeps_def)
next
  case (Waitpid_return s p w pid rp r s')
  have m: "minv \<lparr>kern = s, pend = w\<rparr>" "pid_cour s \<noteq> 0" using Waitpid_return assms(2) by simp_all
  have "p_state (tab_proc s (pid_cour s)) \<noteq> STATE_WAIT_CHILD"
    using sched_post_running [OF minvD(3) [OF m(1)]] m(2) by (simp add: running_def)
  then have "zombie_kid s (pid_cour s) (target s (pid_cour s) pid)"
    using minvD(4) [OF m(1) minv_live [OF m]] Waitpid_return by (simp add: pending_ok_def)
  from reap_ok [OF minvD(1-3) [OF m(1)] m(2) this, of rp] have "keeps p s s'"
    using Waitpid_return by (auto simp: waitpid_resume_def target_def)
  moreover have "keeps p s' (s'\<lparr>in_syscall := 0xff\<rparr>)" by (rule keeps_outside) simp
  ultimately have "keeps p s (s'\<lparr>in_syscall := 0xff\<rparr>)" by (rule keeps_trans)
  with Waitpid_return assms(3,4) show ?thesis by (simp add: keeps_def)
next
  case (Tick s w s')
  have "same_tree s s'" using clock_tick_advances [of s] minvD(1) [of s w] assms(2) Tick by (auto simp: advances_def)
  with Tick assms(4) show ?thesis by (simp add: same_tree_eq(6))
next
  case (Memory s w as)
  have "same_tree s (s\<lparr>allocs := as\<rparr>)" by (rule outside_eq(3)) simp
  with Memory assms(4) show ?thesis by (simp add: same_tree_eq(6))
qed

text \<open>Steps of the machine as long as \<open>f\<close> does not have the processor.\<close>

definition step_without :: "environment \<Rightarrow> int \<Rightarrow> machine \<Rightarrow> machine \<Rightarrow> bool" where
  "step_without env f m m' \<longleftrightarrow> kstep env m m' \<and> pid_cour (kern m) \<noteq> f"

lemma steps_owed:
  assumes "(step_without env f)\<^sup>*\<^sup>* m m'" and "minv m" and "owed (kern m) f c x v k"
  shows "minv m' \<and> owed (kern m') f c x v k \<and> pend m' f = pend m f"
  using assms
proof (induction rule: rtranclp_induct)
  case (step y z)
  then have y: "minv y" "owed (kern y) f c x v k" "pend y f = pend m f" "kstep env y z" "pid_cour (kern y) \<noteq> f"
    by (simp_all add: step_without_def)
  with kstep_owed [OF y(4,1,5,2)] kstep_minv [OF y(4,1)] show ?case by simp
qed simp

lemma exit_owes:
  assumes "kinv s" and "tree_inv s" and "sched_post s" and "pid_cour s = p" "p \<noteq> 0" "p \<noteq> 1" and "usable_blocks 21 s"
    and "f = p_pid_parent (tab_proc s p)" and "f > 1" and "father_waits f p s" and "exit r s = Some s'"
  shows "owed s' f p p r (p_killed (tab_proc s p))" "runnable_state (p_state (tab_proc s' f))" "pid_cour s' \<noteq> p"
proof -
  have run: "running s" by (rule sched_post_running [OF assms(3)])
  have cur: "live s p" using kinv_current [OF assms(1) run] assms(4,5) by (simp add: live_def)
  have f: "f \<noteq> p" "live s f" using tree_invD(3,4) [OF assms(2), of p] cur assms(8,9) by (auto simp: live_def)
  have k: "p \<in> kids s f" using cur assms(8) by (simp add: kids_def live_def)
  have pid: "pid_cour s \<noteq> 0" "pid_cour s \<noteq> 1" using assms(4-6) by simp_all
  obtain t cs where e: "sched_post s'" "sched_frame t s'" "ended p cs s t" "set cs = kids s p"
    "p_val_ret (tab_proc s' p) = r" "p_killed (tab_proc s' p) = p_killed (tab_proc s p)"
    "runnable_state (p_state (tab_proc s' f))" "p_pid_wait (tab_proc s' f) = p"
    using exit_spec [OF assms(1,2) run pid assms(7), of r] assms(4,8-11) by (metis option.inject)
  have z: "p_state (tab_proc s' p) = STATE_ZOMBIE" using e(3) assms(8,9) sched_frame_not_dead(2) [OF e(2), of p] by (simp add: ended_def)
  have l: "live s' f" using f ended_live [OF e(3)] tree_inv_frame(2) [OF e(2)] by blast
  have "live t f" "f \<noteq> 1" using f ended_live [OF e(3)] assms(9) by simp_all
  then have "p \<in> kids s' f"
    using ended_kids(1) [OF e(3) assms(2) assms(6) cur e(4)] tree_inv_frame(3) [OF e(2), of f] k by simp
  with z l e show "owed s' f p p r (p_killed (tab_proc s p))" "runnable_state (p_state (tab_proc s' f))"
    by (simp_all add: owed_def zombie_kid_def runnable_state_def) auto
  show "pid_cour s' \<noteq> p" using z sched_post_running [OF e(1)] assms(5) by (auto simp: running_def)
qed

text \<open>
  C5. The value a process exits with reaches the father who is blocked in \<^verbatim>\<open>waitpid\<close>, for this child or for any child. The father is made ready; then, whatever the
  other processes do and in whatever order they and the clock come, as soon as the father has the processor again, the rest of his call returns the PID of the child, has stored
  the value where the father asked for it (if he did), and the child is buried; the invariants hold.

  Neither of the two is Init, the child has not been marked as killed, and the allocator has the 21 blocks that \<^verbatim>\<open>exit\<close> may ask for. What the others do are the steps of \<open>kstep\<close>.
\<close>

theorem exit_value_reaches_father:
  assumes "minv \<lparr>kern = s, pend = w\<rparr>" and "pid_cour s = p" and "p \<noteq> 0" and "p \<noteq> 1" and "w p = User" and "usable_blocks 21 s"
    and "f = p_pid_parent (tab_proc s p)" and "f > 1" and "p_state (tab_proc s f) = STATE_WAIT_CHILD" and "w f = In_waitpid pid rp"
    and "pid < 0 \<or> pid = p" and "p_killed (tab_proc s p) = 0"
  shows "\<exists>s1 w1. int49 env (word_of_int SYSCALL_EXIT) a b c d e s = Some (Void, [], s1) \<and>
    kstep env \<lparr>kern = s, pend = w\<rparr> \<lparr>kern = s1, pend = w1\<rparr> \<and> live s1 f \<and> runnable_state (p_state (tab_proc s1 f)) \<and>
    (\<forall>m. (step_without env f)\<^sup>*\<^sup>* \<lparr>kern = s1, pend = w1\<rparr> m \<longrightarrow> pid_cour (kern m) = f \<longrightarrow>
      (\<exists>s2. pend m f = In_waitpid pid rp \<and> waitpid_resume pid rp (kern m) = Some (p, s2) \<and> (rp \<noteq> 0 \<longrightarrow> umem s2 rp = a) \<and>
         p_state (tab_proc s2 p) = STATE_DEAD \<and> kinv s2 \<and> tree_inv s2))"
proof -
  let ?s = "s\<lparr>in_syscall := SYSCALL_EXIT\<rparr>"
  note i = minvD(1-3) [OF assms(1)]
  have cur: "live s p" using minv_live [OF assms(1)] assms(2,3) by simp
  have f: "live s f" "f \<noteq> p" using tree_invD(3,4) [OF i(2), of p] cur assms(7,8) by (auto simp: live_def)
  have "p_pid_wait (tab_proc s f) = (if pid < 0 then -1 else pid)" using minvD(4) [OF assms(1) f(1)] assms(9,10) by (simp add: pending_ok_def)
  then have fw: "father_waits f p ?s" using assms(9,11) by (auto simp: father_waits_def)
  have i': "kinv ?s" "tree_inv ?s" "sched_post ?s" "pid_cour ?s = p" "usable_blocks 21 ?s" "f = p_pid_parent (tab_proc ?s p)"
    using i assms(2,6,7) by simp_all
  obtain t where t: "exit (sint a) ?s = Some t" using exit_ok [OF i'(1-3), of "sint a"] i'(4,5) assms(3,4) by auto
  note ow = exit_owes [OF i'(1-4) assms(3,4) i'(5,6) assms(8) fw t]
  have r: "int49 env (word_of_int SYSCALL_EXIT) a b c d e s = Some (Void, [], t)"
    unfolding int49_calls(9) using t ow(3) assms(2) by (simp add: ret_void_def leave_syscall_def)
  have cc: "core_call SYSCALL_EXIT a s" using assms(2,4) by (simp add: core_call_def core_calls_def syscall_codes)
  let ?w = "w(p := after_call SYSCALL_EXIT a b Void s t)"
  have st: "kstep env \<lparr>kern = s, pend = w\<rparr> \<lparr>kern = t, pend = ?w\<rparr>" using assms(2,3,5) cc assms(6) r by (rule kstep.Call)
  have m1: "minv \<lparr>kern = t, pend = ?w\<rparr>" using kstep_minv [OF st assms(1)] .
  have "\<exists>s2. pend m f = In_waitpid pid rp \<and> waitpid_resume pid rp (kern m) = Some (p, s2) \<and> (rp \<noteq> 0 \<longrightarrow> umem s2 rp = a) \<and>
         p_state (tab_proc s2 p) = STATE_DEAD \<and> kinv s2 \<and> tree_inv s2"
    if "(step_without env f)\<^sup>*\<^sup>* \<lparr>kern = t, pend = ?w\<rparr> m" "pid_cour (kern m) = f" for m
  proof -
    have "owed t f p p (sint a) 0" using ow(1) assms(12) by simp
    then have m: "minv m" "owed (kern m) f p p (sint a) 0" "pend m f = In_waitpid pid rp"
      using steps_owed [OF that(1) m1] f(2) assms(10) by auto
    have q: "live (kern m) (pid_cour (kern m))" "p \<in> kids (kern m) (pid_cour (kern m))" "p_state (tab_proc (kern m) p) = STATE_ZOMBIE"
      using m(2) that(2) by (simp_all add: owed_def zombie_kid_def)
    have "kinv (kern m)" "tree_inv (kern m)" using m(1) by (simp_all add: minv_def)
    then obtain s2 where "reap_child p rp (kern m) = Some (p, s2)" "kinv s2" "tree_inv s2" "p_state (tab_proc s2 p) = STATE_DEAD"
      "rp \<noteq> 0 \<longrightarrow> umem s2 rp = (if p_killed (tab_proc (kern m) p) = 1 then 0 else word_of_int (p_val_ret (tab_proc (kern m) p)))"
      using q by (rule reap_child_spec [where retvalp = rp])
    moreover have "(if pid < 0 then p_pid_wait (tab_proc (kern m) f) else pid) = p" using m(2) assms(11) by (auto simp: owed_def)
    ultimately show ?thesis using m(2,3) that(2) by (auto simp: waitpid_resume_def owed_def)
  qed
  then show ?thesis using r st ow(1,2) by (intro exI [of _ t] exI [of _ ?w]) (auto simp: owed_def)
qed

text \<open>In \<open>ex_tree\<close> the process 2 runs and its father 6 waits for any child.\<close>

theorem exit_value_reaches_father_witness:
  "\<exists>s1 w1. int49 ex_env (word_of_int SYSCALL_EXIT) 42 0 0 0 0 ex_tree = Some (Void, [], s1) \<and> runnable_state (p_state (tab_proc s1 6)) \<and>
    (\<forall>m. (step_without ex_env 6)\<^sup>*\<^sup>* \<lparr>kern = s1, pend = w1\<rparr> m \<longrightarrow> pid_cour (kern m) = 6 \<longrightarrow>
      (\<exists>s2. waitpid_resume (-1) 0x1000004 (kern m) = Some (2, s2) \<and> umem s2 0x1000004 = 42 \<and> p_state (tab_proc s2 2) = STATE_DEAD))"
proof -
  define w where "w = (\<lambda>p. if p_state (tab_proc ex_tree p) = STATE_WAIT_CHILD then In_waitpid (-1) 0x1000004 else User)"
  have "activable ex_tree = {}" by (auto simp: activable_def)
  then have "sched_post ex_tree" using ex_tree_kinv by (simp add: sched_post_def kinv_def)
  then have "minv \<lparr>kern = ex_tree, pend = w\<rparr>" using ex_tree_kinv ex_tree_tree by (simp add: minv_def w_def pending_ok_def live_def zombie_kid_def)
  moreover have "pid_cour ex_tree = 2" "usable_blocks 21 ex_tree" "p_pid_parent (tab_proc ex_tree 2) = 6"
    "p_state (tab_proc ex_tree 6) = STATE_WAIT_CHILD" "p_killed (tab_proc ex_tree 2) = 0"
    using ex_tree_blocks by simp_all
  ultimately have "\<exists>s1 w1. int49 ex_env (word_of_int SYSCALL_EXIT) 42 0 0 0 0 ex_tree = Some (Void, [], s1) \<and>
    kstep ex_env \<lparr>kern = ex_tree, pend = w\<rparr> \<lparr>kern = s1, pend = w1\<rparr> \<and> live s1 6 \<and> runnable_state (p_state (tab_proc s1 6)) \<and>
    (\<forall>m. (step_without ex_env 6)\<^sup>*\<^sup>* \<lparr>kern = s1, pend = w1\<rparr> m \<longrightarrow> pid_cour (kern m) = 6 \<longrightarrow>
      (\<exists>s2. pend m 6 = In_waitpid (-1) 0x1000004 \<and> waitpid_resume (-1) 0x1000004 (kern m) = Some (2, s2) \<and> ((0x1000004 :: u32) \<noteq> 0 \<longrightarrow> umem s2 0x1000004 = 42) \<and>
         p_state (tab_proc s2 2) = STATE_DEAD \<and> kinv s2 \<and> tree_inv s2))"
    by (intro exit_value_reaches_father) (simp_all add: w_def)
  then show ?thesis by fastforce
qed

end
