(* ===== verification/Boot.thy ===== *)
theory Boot
  imports Machine
begin

text \<open>
  The start of the kernel (\<^verbatim>\<open>kernel_start\<close> in \<^verbatim>\<open>kernel/start.c\<close>): from the state the loader leaves to the first process.
\<close>

section \<open>What the initialisations leave alone\<close>

definition idle_frame :: "kstate \<Rightarrow> kstate \<Rightarrow> bool" where
  "idle_frame s t \<longleftrightarrow> k_links t = k_links s \<and> tab_proc t = tab_proc s \<and> pid_cour t = pid_cour s \<and> semaphores t = semaphores s \<and>
     sid_libres t = sid_libres s \<and> kernel_context t = kernel_context s \<and> length (idt (cpu t)) = length (idt (cpu s))"

definition fs_frame :: "kstate \<Rightarrow> kstate \<Rightarrow> bool" where
  "fs_frame s t \<longleftrightarrow> fs_nodes t = fs_nodes s \<and> rootfs_present t = rootfs_present s"

lemma frame_refl [simp]: "idle_frame s s" "fs_frame s s"
  by (simp_all add: idle_frame_def fs_frame_def)

lemma frame_trans: "idle_frame s t \<Longrightarrow> idle_frame t u \<Longrightarrow> idle_frame s u" "fs_frame s t \<Longrightarrow> fs_frame t u \<Longrightarrow> fs_frame s u"
  by (simp_all add: idle_frame_def fs_frame_def)

lemma frame_upd [simp]:
  "idle_frame s (s\<lparr>allocs := as\<rparr>)" "fs_frame s (s\<lparr>allocs := as\<rparr>)" "idle_frame s (upd_vc i f s)" "fs_frame s (upd_vc i f s)"
  "idle_frame s (outb v port s)" "fs_frame s (outb v port s)" "idle_frame s (upd_node np g s)" "fs_frame s (s\<lparr>cpu := c\<rparr>)"
  "idle_frame s (s\<lparr>vc_current := n\<rparr>)" "fs_frame s (s\<lparr>vc_current := n\<rparr>)" "idle_frame s (s\<lparr>rootfs_present := r\<rparr>)"
  "idle_frame s (s\<lparr>rate := k\<rparr>)" "fs_frame s (s\<lparr>rate := k\<rparr>)"
  by (simp_all add: idle_frame_def fs_frame_def upd_vc_def outb_def upd_node_def)

lemma screen_frame_idle: "screen_frame i s t \<Longrightarrow> idle_frame s t \<and> fs_frame s t \<and> allocs t = allocs s"
  by (auto simp: screen_frame_def idle_frame_def fs_frame_def upd_vc_def)

lemma fill_interrupt_some:
  "length (idt c) = n \<Longrightarrow> v < n \<Longrightarrow> \<exists>c'. fill_interrupt v sel a dpl c = Some c' \<and> length (idt c') = n"
  by (simp add: fill_interrupt_def)

section \<open>Consoles\<close>

lemma console_clear_boots:
  assumes "screen_size \<le> length (vc_mem (virtual_consoles s i))" and "screen_size \<le> length (video_mem s)"
  shows "\<exists>t. console_clear i s = Some t \<and> idle_frame s t \<and> fs_frame s t \<and> allocs t = allocs s \<and> screen_size \<le> length (video_mem t)"
proof -
  define u where "u = upd_vc i (\<lambda>vc. vc\<lparr>vc_pos := 0,
    vc_mem := replicate screen_size \<lparr>cc_c = CHR '' '', cc_attr = ucast (vc_attr vc)\<rparr> @ drop screen_size (vc_mem vc)\<rparr>) s"
  have m: "screen_size \<le> length (vc_mem (virtual_consoles u i))" "video_mem u = video_mem s" by (simp_all add: u_def upd_vc_def)
  define v where "v = u\<lparr>video_mem := take screen_size (vc_mem (virtual_consoles u i)) @ drop screen_size (video_mem u)\<rparr>"
  have "console_clear i s = vc_draw i u" using assms(1) by (simp add: console_clear_def u_def)
  also have "\<dots> = Some (console_update_cursor i v)" using assms(2) m by (simp add: vc_draw_def Let_def v_def)
  finally have "console_clear i s = Some (console_update_cursor i v)" .
  moreover have "screen_frame i u (console_update_cursor i v)" unfolding v_def by (rule screen_frame_trans [OF screen_frame_video screen_frame_cursor])
  then have "idle_frame u (console_update_cursor i v) \<and> fs_frame u (console_update_cursor i v) \<and> allocs (console_update_cursor i v) = allocs u"
    by (rule screen_frame_idle)
  moreover have "idle_frame s u" "fs_frame s u" "allocs u = allocs s" by (simp_all add: u_def) (simp add: upd_vc_def)
  moreover have "screen_size \<le> length (video_mem (console_update_cursor i v))"
    using m assms(2) by (simp add: v_def console_update_cursor_def console_write_register_def outb_def Let_def)
  ultimately show ?thesis using frame_trans by metis
qed

lemma console_init_loop_boots:
  assumes "usable_blocks (length is + n) s" and "screen_size \<le> length junk" and "screen_size \<le> length (video_mem s)"
  shows "\<exists>t. console_init_loop junk is s = Some t \<and> idle_frame s t \<and> fs_frame s t \<and> usable_blocks n t"
  using assms
proof (induction "is" arbitrary: s)
  case (Cons i "is")
  let ?s = "upd_vc i vc_init s"
  have "usable_blocks (Suc (length is + n)) ?s" using Cons.prems(1) by (simp add: usable_blocks_def upd_vc_def)
  then obtain a as where al: "mem_alloc ?s = (a, ?s\<lparr>allocs := as\<rparr>)" "a \<noteq> 0" "\<And>t. allocs t = as \<Longrightarrow> usable_blocks (length is + n) t"
    by (rule mem_alloc_usable) blast
  let ?u = "upd_vc i (\<lambda>vc. vc\<lparr>vc_mem := junk\<rparr>) (?s\<lparr>allocs := as\<rparr>)"
  have "screen_size \<le> length (vc_mem (virtual_consoles ?u i))" "screen_size \<le> length (video_mem ?u)"
    using Cons.prems(2,3) by (simp_all add: upd_vc_def)
  from console_clear_boots [OF this] obtain v where v: "console_clear i ?u = Some v" "idle_frame ?u v" "fs_frame ?u v" "allocs v = allocs ?u"
    "screen_size \<le> length (video_mem v)" by blast
  have "usable_blocks (length is + n) v" using v(4) by (intro al(3)) (simp add: upd_vc_def)
  from Cons.IH [OF this Cons.prems(2) v(5)] obtain t where
    t: "console_init_loop junk is v = Some t" "idle_frame v t" "fs_frame v t" "usable_blocks n t" by blast
  have "console_init_loop junk (i # is) s = Some t" using al(1,2) v(1) t(1) by simp
  moreover have "idle_frame s ?u" by (rule frame_trans(1) [OF _ frame_trans(1)]) (rule frame_upd)+
  moreover have "fs_frame s ?u" by (rule frame_trans(2) [OF _ frame_trans(2)]) (rule frame_upd)+
  ultimately show ?case using v(2,3) t(2-4) frame_trans by metis
qed simp

lemma console_init_boots:
  assumes "usable_blocks (4 + n) s" and "screen_size \<le> length junk" and "screen_size \<le> length (video_mem s)" and "33 < length (idt (cpu s))"
  shows "\<exists>t. console_init int33 imr junk s = Some t \<and> idle_frame s t \<and> fs_frame s t \<and> usable_blocks n t"
proof -
  obtain c where c: "fill_interrupt 33 (of_nat KERNEL_CS) int33 0 (cpu s) = Some c" "length (idt c) = length (idt (cpu s))"
    using fill_interrupt_some [OF refl assms(4)] by metis
  let ?u = "init_irqs imr 2 (s\<lparr>cpu := c\<rparr>)"
  have u: "usable_blocks (length [0..<nat VIRTUAL_CONSOLES] + n) ?u" "screen_size \<le> length (video_mem ?u)" "idle_frame s ?u" "fs_frame s ?u"
    using assms(1,3) c(2) by (simp_all add: usable_blocks_def init_irqs_def outb_def idle_frame_def fs_frame_def)
  from console_init_loop_boots [OF u(1) assms(2) u(2)] obtain v where
    v: "console_init_loop junk [0..<nat VIRTUAL_CONSOLES] ?u = Some v" "idle_frame ?u v" "fs_frame ?u v" "usable_blocks n v" by blast
  have "console_init int33 imr junk s = Some (v\<lparr>vc_current := 0\<rparr>)" using c(1) v(1) by (simp add: console_init_def)
  moreover have "idle_frame v (v\<lparr>vc_current := 0\<rparr>)" "fs_frame v (v\<lparr>vc_current := 0\<rparr>)" "usable_blocks n (v\<lparr>vc_current := 0\<rparr>)"
    using v(4) by (simp_all add: usable_blocks_def)
  ultimately show ?thesis using u(3,4) v(2,3) frame_trans by metis
qed

section \<open>Semaphores\<close>

lemma sem_init_loop_frame:
  "sem_init_loop is s = Some t \<Longrightarrow> usable_blocks (length is + n) s \<Longrightarrow>
   \<exists>m l as. t = s\<lparr>semaphores := m, sid_libres := l, allocs := as\<rparr> \<and> usable_blocks n t"
proof (induction "is" arbitrary: s)
  case Nil
  then have "t = s\<lparr>semaphores := semaphores s, sid_libres := sid_libres s, allocs := allocs s\<rparr>" by simp
  then show ?case using Nil by fastforce
next
  case (Cons i "is")
  let ?s = "upd_sem i (\<lambda>m. m\<lparr>s_valide := 0\<rparr>) s"
  have "usable_blocks (Suc (length is + n)) ?s" using Cons.prems(2) by (simp add: usable_blocks_def upd_sem_def)
  then obtain a as where al: "mem_alloc ?s = (a, ?s\<lparr>allocs := as\<rparr>)" "a \<noteq> 0" "\<And>t. allocs t = as \<Longrightarrow> usable_blocks (length is + n) t"
    by (rule mem_alloc_usable) blast
  obtain l where l: "sem_init_loop is ((?s\<lparr>allocs := as\<rparr>)\<lparr>sid_libres := l\<rparr>) = Some t"
    using Cons.prems(1) al(1,2) by (auto simp: kl_put_first_def bind_eq_Some_conv split: if_splits)
  have "usable_blocks (length is + n) ((?s\<lparr>allocs := as\<rparr>)\<lparr>sid_libres := l\<rparr>)" by (rule al(3)) simp
  from Cons.IH [OF l this] show ?case by (auto simp: upd_sem_def)
qed

lemma sem_init_boots:
  assumes "sched_inv s" and "no_sigs s" and "\<And>i. blocked_on s i = {}" and "usable_blocks (Suc (nat NBSEM + n)) s"
  shows "\<exists>t. sem_init s = Some t \<and> kinv t \<and> usable_blocks n t \<and> fs_frame s t \<and> tab_proc t = tab_proc s \<and> cpu t = cpu s \<and> pid_cour t = pid_cour s"
proof -
  have "nat NBSEM < length (allocs s)" "\<forall>a \<in> set (take (Suc (nat NBSEM)) (allocs s)). a \<noteq> 0"
    using assms(4) usable_blocks_mono [OF assms(4), of "Suc (nat NBSEM)"] by (simp_all add: usable_blocks_def)
  with assms(1-3) obtain t where t: "sem_init s = Some t" "kinv t" by (rule sem_init_spec)
  obtain as where al: "kl_new s = (Some [], s\<lparr>allocs := as\<rparr>)" "\<And>t. allocs t = as \<Longrightarrow> usable_blocks (nat NBSEM + n) t"
    using assms(4) by (rule kl_new_usable) blast
  let ?u = "s\<lparr>allocs := as, sid_libres := Some []\<rparr>"
  have "usable_blocks (length [0..NBSEM - 1] + n) ?u" using al(2) [of ?u] by simp
  moreover have "sem_init_loop [0..NBSEM - 1] ?u = Some t" using t(1) al(1) by (simp add: sem_init_def)
  ultimately obtain m l bs where "t = ?u\<lparr>semaphores := m, sid_libres := l, allocs := bs\<rparr>" "usable_blocks n t"
    using sem_init_loop_frame by blast
  with t show ?thesis by (auto simp: fs_frame_def)
qed

section \<open>Files\<close>

definition only_fs :: "kstate \<Rightarrow> kstate \<Rightarrow> bool" where
  "only_fs s t \<longleftrightarrow> (\<exists>n r. t = s\<lparr>fs_nodes := n, rootfs_present := r\<rparr>)"

lemma only_fs_upd [simp]: "only_fs s (upd_node np f s)" "only_fs s s" "only_fs s (s\<lparr>rootfs_present := r\<rparr>)"
proof -
  show "only_fs s (upd_node np f s)" unfolding only_fs_def upd_node_def
    by (intro exI [of _ "(fs_nodes s)(np := f (fs_nodes s np))"] exI [of _ "rootfs_present s"]) simp
  show "only_fs s s" unfolding only_fs_def by (intro exI [of _ "fs_nodes s"] exI [of _ "rootfs_present s"]) simp
  show "only_fs s (s\<lparr>rootfs_present := r\<rparr>)" unfolding only_fs_def by (intro exI [of _ "fs_nodes s"] exI [of _ r]) simp
qed

lemma only_fs_trans: "only_fs s t \<Longrightarrow> only_fs t u \<Longrightarrow> only_fs s u"
proof -
  assume "only_fs s t" "only_fs t u"
  then obtain n r m q where "t = s\<lparr>fs_nodes := n, rootfs_present := r\<rparr>" "u = t\<lparr>fs_nodes := m, rootfs_present := q\<rparr>" unfolding only_fs_def by blast
  then have "u = s\<lparr>fs_nodes := m, rootfs_present := q\<rparr>" by simp
  then show ?thesis unfolding only_fs_def by blast
qed

lemma register_only_fs: "vfs_node_register_callbacks i a b c d e f s = Some t \<Longrightarrow> only_fs s t"
  by (auto simp: vfs_node_register_callbacks_def bind_eq_Some_conv split: if_splits)

lemma vc_nodes_only_fs: "vc_nodes_init is s = Some t \<Longrightarrow> only_fs s t"
proof (induction "is" arbitrary: s)
  case (Cons i "is")
  from Cons.prems obtain f where "vc_nodes_init is (upd_node (VcNode i) f s) = Some t" by (auto simp: bind_eq_Some_conv simp del: doprnt.simps)
  from Cons.IH [OF this] show ?case using only_fs_upd(1) only_fs_trans by blast
qed simp

lemma rootfs_only_fs: "rootfs_setup es s = Some t \<Longrightarrow> only_fs s t"
proof (induction es arbitrary: s)
  case (Cons e es)
  obtain i parent name ty where e: "e = (i, parent, name, ty)" by (cases e)
  from Cons.prems obtain u where u: "rootfs_setup_node i parent name ty s = Some u" "rootfs_setup es u = Some t" by (auto simp: e bind_eq_Some_conv)
  have "only_fs s u" using u(1) only_fs_trans [OF only_fs_upd(3) only_fs_upd(1)] by (auto simp: rootfs_setup_node_def bind_eq_Some_conv split: if_splits)
  then show ?case using Cons.IH [OF u(2)] only_fs_trans by blast
qed simp

lemma vfs_init_only_fs:
  assumes "vfs_init s = Some t"
  shows "only_fs s t"
proof -
  from assms obtain a f g h k b where a: "rootfs_setup rootfs_tree s = Some a"
    and b: "b = upd_node (RootfsNode 1) f (upd_node (RootfsNode 12) g (upd_node (RootfsNode 10) h (upd_node (RootfsNode 11) k a)))"
    and t: "console_vfs_init b = Some t"
    by (auto simp: vfs_init_def bind_eq_Some_conv)
  have "only_fs s b" unfolding b using rootfs_only_fs [OF a] only_fs_trans only_fs_upd(1) by metis
  moreover have "only_fs b t" using t unfolding console_vfs_init_def bind_eq_Some_conv
    by (metis register_only_fs vc_nodes_only_fs only_fs_trans)
  ultimately show ?thesis by (rule only_fs_trans)
qed

section \<open>Processes\<close>

text \<open>The state of the kernel just before it lets the clock in: Init is the only process, and it is ready.\<close>

definition init_waits :: "kstate \<Rightarrow> bool" where
  "init_waits s \<longleftrightarrow> kinv s \<and> pid_cour s = 0 \<and> activable s = {1} \<and> (\<forall>p. valid_proc s p \<longleftrightarrow> p = 1) \<and>
     p_pid_parent (tab_proc s 1) = 0 \<and> p_children (tab_proc s 1) = Some [] \<and> p_priority (tab_proc s 1) = 3 \<and> p_name (tab_proc s 1) = ''Init''"

lemma create_init_boots:
  assumes "kinv s" and "\<And>p. \<not> valid_proc s p" and "\<And>p. in_tab p \<Longrightarrow> p_valide (tab_proc s p) = 0" and "vfs_ready s" and "pid_cour s = 0"
    and "p_children (kernel_context s) = Some []" and "usable_blocks 10 s"
  shows "\<exists>t. context_create_user en fr f ssize 3 ''Init'' 0 s = Some (1, t) \<and> init_waits t"
proof -
  have "[1..NBPROC] = 1 # [2..NBPROC]" by (subst upto_rec1) (simp_all add: NBPROC_def)
  then have free: "free_pid s = Some 1" using assms(3) [of 1] by (simp add: free_pid_def in_tab_def NBPROC_def)
  have fl: "files_ok s" using assms(4,5) by (simp add: files_ok_def)
  have ch: "p_children (if (0::int) = 0 then kernel_context s else tab_proc s 0) = Some []" using assms(6) by simp
  obtain t where t: "created 1 0 3 s t" "p_name (tab_proc t 1) = ''Init''"
    "context_create_user en fr f ssize 3 ''Init'' 0 s = do { (_, s) \<leftarrow> wakeup_process 1 t; Some (1, s) }"
    using create_steps [OF free fl assms(5) disjI1 [OF refl] ch assms(7)] by metis
  have p: "(1::int) \<noteq> 0" "in_tab 1" "\<not> valid_proc s 1" using free_pid_ok [OF free] by simp_all
  obtain u where u: "wakeup_process 1 t = Some (1, u)" "kinv u" "activable u = insert 1 (activable s)" "tab_proc u = tab_proc t"
    "pid_cour u = pid_cour t"
    using wakeup_created [OF assms(1) t(1) p assms(5) disjI1 [OF refl]] by blast
  have "valid_proc u q \<longleftrightarrow> q = 1" for q
    using created_valid(1) [OF t(1) p, of q] assms(2) [of q] u(4) by (auto simp: valid_proc_def)
  moreover have "activable s = {}" using assms(2) by (simp add: activable_def)
  ultimately have "init_waits u" using u(2-5) t(1,2) assms(5) by (simp add: init_waits_def created_def born_def)
  then show ?thesis using t(3) u(1) by simp
qed

lemma kinv_idle:
  assumes "kinv s" and "pid_cour s = 0" and "k_links t = k_links s" and "pid_cour t = 0" and "semaphores t = semaphores s" and "sid_libres t = sid_libres s"
    and "tab_proc t = tab_proc s"
  shows "kinv t"
proof -
  have "sched_eq s t" "blocked_on t = blocked_on s" using assms by (auto simp: sched_eq_def blocked_on_def valid_proc_def fun_eq_iff)
  then show ?thesis using assms kinv_cong [of s t] by simp
qed

lemma context_init_boots:
  assumes "kinv s" and "\<And>p. p_valide (tab_proc s p) = 0" and "vfs_ready s" and "pid_cour s = 0" and "usable_blocks 14 s" and "32 < length (idt (cpu s))"
  shows "\<exists>t. context_init en fr s = Some t \<and> init_waits t"
proof -
  have tab: "(\<lambda>p. if in_tab p then (tab_proc s p)\<lparr>p_valide := 0\<rparr> else tab_proc s p) = tab_proc s"
    using assms(2) by (auto simp: fun_eq_iff)
  obtain c where c: "fill_interrupt 32 (of_nat KERNEL_CS) (ad_int32 en) 0 (cpu s) = Some c" using fill_interrupt_some [OF refl assms(6)] by metis
  let ?s1 = "s\<lparr>cpu := c\<rparr>"
  have "usable_blocks (Suc 13) ?s1" using assms(5) by (simp add: usable_blocks_def)
  then obtain as1 where a1: "kl_new ?s1 = (Some [], ?s1\<lparr>allocs := as1\<rparr>)" "\<And>t. allocs t = as1 \<Longrightarrow> usable_blocks 13 t"
    by (rule kl_new_usable) blast
  define s2 where "s2 = ?s1\<lparr>allocs := as1, kernel_context := (kernel_context s)\<lparr>p_state := STATE_ACTIVE, p_killed := 0, p_children := Some [],
     p_valide := 1, p_pid := 0, p_pid_parent := 0, p_pid_wait := 0\<rparr>, pid_cour := 0\<rparr>"
  have "usable_blocks (Suc 12) s2" using a1(2) [of s2] by (simp add: s2_def)
  then obtain b2 as2 where a2: "mem_alloc s2 = (b2, s2\<lparr>allocs := as2\<rparr>)" "b2 \<noteq> 0" "\<And>t. allocs t = as2 \<Longrightarrow> usable_blocks 12 t"
    by (rule mem_alloc_usable) blast
  define s3 where "s3 = s2\<lparr>allocs := as2, adExit := b2, umem := store_bytes b2 (syscall_stub (word_of_int SYSCALL_EXIT)) (umem s2)\<rparr>"
  have "usable_blocks (Suc 11) s3" using a2(3) [of s3] by (simp add: s3_def)
  then obtain b3 as3 where a3: "mem_alloc s3 = (b3, s3\<lparr>allocs := as3\<rparr>)" "b3 \<noteq> 0" "\<And>t. allocs t = as3 \<Longrightarrow> usable_blocks 11 t"
    by (rule mem_alloc_usable) blast
  define s4 where "s4 = s3\<lparr>allocs := as3, adSigReturn := b3, umem := store_bytes b3 (syscall_stub (word_of_int SYSCALL_SIG_RETURN)) (umem s3)\<rparr>"
  have "usable_blocks (Suc 10) s4" using a3(3) [of s4] by (simp add: s4_def)
  then obtain b4 as4 where a4: "mem_alloc s4 = (b4, s4\<lparr>allocs := as4\<rparr>)" "b4 \<noteq> 0" "\<And>t. allocs t = as4 \<Longrightarrow> usable_blocks 10 t"
    by (rule mem_alloc_usable) blast
  define s5 where "s5 = s4\<lparr>allocs := as4, ad_sig_default := b4, umem := store_bytes b4 [0xc3] (umem s4)\<rparr>"
  have s5: "tab_proc s5 = tab_proc s" "k_links s5 = k_links s" "pid_cour s5 = 0" "semaphores s5 = semaphores s" "sid_libres s5 = sid_libres s"
    "fs_nodes s5 = fs_nodes s" "rootfs_present s5 = rootfs_present s" "p_children (kernel_context s5) = Some []"
    by (simp_all add: s5_def s4_def s3_def s2_def)
  have "kinv s5" using assms(1,4) s5 by (intro kinv_idle [of s s5]) simp_all
  moreover have "\<not> valid_proc s5 p" for p using assms(2) s5(1) by (simp add: valid_proc_def)
  moreover have "vfs_ready s5" using vfs_ready_cong [of s5 s] s5(6,7) assms(3) by simp
  moreover have "usable_blocks 10 s5" by (rule a4(3)) (simp add: s5_def)
  ultimately obtain t where t: "context_create_user en fr 0x1000000 STACK_SIZE 3 ''Init'' 0 s5 = Some (1, t)" "init_waits t"
    using create_init_boots [of s5] s5(1,3,8) assms(2) by metis
  have "context_init en fr s = do { (_, s) \<leftarrow> context_create_user en fr 0x1000000 STACK_SIZE 3 ''Init'' 0 s5; Some s }"
    unfolding context_init_def tab
    using c a1(1) a2(1,2) a3(1,2) a4(1,2)
    by (simp add: s2_def [symmetric] s3_def [symmetric] s4_def [symmetric] s5_def [symmetric] del: store_bytes.simps)
  then show ?thesis using t by simp
qed

section \<open>The kernel\<close>

text \<open>
  The state that the loader and \<^verbatim>\<open>cpu_init\<close> leave: the tables are zero, the ready queue is an empty ring, the interrupt table has its size,
  and the allocator has the blocks the initialisation asks for: one for each console and each semaphore, and 15 more.
\<close>

definition loaded :: "fresh \<Rightarrow> kstate \<Rightarrow> bool" where
  "loaded fr s \<longleftrightarrow> dll (k_links s) 0 [] \<and> pid_cour s = 0 \<and> (\<forall>p. p_valide (tab_proc s p) = 0) \<and> (\<forall>i. rootfs_present s i = 0) \<and>
     length (idt (cpu s)) = IDT_ENTRIES \<and> screen_size \<le> length (video_mem s) \<and> screen_size \<le> length (junk_screen fr) \<and>
     usable_blocks (nat NBSEM + 19) s"

lemma no_process_inv:
  assumes "dll (k_links s) 0 []" and "pid_cour s = 0" and "\<And>p. p_valide (tab_proc s p) = 0"
  shows "sched_inv s" "no_sigs s" "blocked_on s i = {}"
proof -
  have v: "\<not> valid_proc s p" for p using assms(3) by (simp add: valid_proc_def)
  then have act: "activable s = {}" by (simp add: activable_def)
  have "ready s []" using assms(1) unfolding ready_def act by (simp add: queue_rep_def)
  then show "sched_inv s" by (rule sched_invI) (use v assms(2) in auto)
  show "no_sigs s" "blocked_on s i = {}" using v by (auto simp: no_sigs_def blocked_on_def)
qed

lemma init_waits_idle:
  assumes "init_waits s" and "k_links t = k_links s" and "pid_cour t = pid_cour s" and "semaphores t = semaphores s" and "sid_libres t = sid_libres s"
    and "tab_proc t = tab_proc s"
  shows "init_waits t"
proof -
  have "valid_proc t = valid_proc s" using assms(6) by (simp add: valid_proc_def fun_eq_iff)
  moreover from this have "activable t = activable s" using assms(6) by (simp add: activable_def)
  ultimately show ?thesis using assms kinv_idle [of s t] by (simp add: init_waits_def)
qed

lemma timer_init_boots: "init_waits s \<Longrightarrow> \<exists>t. timer_init imr s = Some t \<and> init_waits t"
  by (auto simp: timer_init_def timer_setticks_def init_irqs_def outb_def Let_def intro: init_waits_idle)

lemma kernel_start_boots:
  assumes "loaded fr s"
  shows "\<exists>t. kernel_start en fr imr1 imr2 s = Some t \<and> init_waits t"
proof -
  have l: "dll (k_links s) 0 []" "pid_cour s = 0" "\<And>p. p_valide (tab_proc s p) = 0" "\<And>i. rootfs_present s i = 0" "length (idt (cpu s)) = 256"
    "screen_size \<le> length (video_mem s)" "screen_size \<le> length (junk_screen fr)" "usable_blocks (4 + Suc (nat NBSEM + 14)) s"
    using assms by (simp_all add: loaded_def IDT_ENTRIES_def add.commute)
  obtain c where c: "fill_interrupt 49 (of_nat KERNEL_CS) (ad_int49 en) 3 (cpu s) = Some c" "length (idt c) = 256"
    using fill_interrupt_some [OF l(5), of 49 "of_nat KERNEL_CS" "ad_int49 en" 3] by auto
  obtain c' where c': "fill_interrupt 0x0d (of_nat KERNEL_CS) (ad_pfault en) 0 c = Some c'" "length (idt c') = 256"
    using fill_interrupt_some [OF c(2), of "0x0d" "of_nat KERNEL_CS" "ad_pfault en" 0] by auto
  obtain c'' where c'': "fill_interrupt 0x0e (of_nat KERNEL_CS) (ad_pfault en) 0 c' = Some c''" "length (idt c'') = 256"
    using fill_interrupt_some [OF c'(2), of "0x0e" "of_nat KERNEL_CS" "ad_pfault en" 0] by auto
  let ?s1 = "s\<lparr>cpu := c''\<rparr>"
  have i1: "idle_frame s ?s1" "fs_frame s ?s1" "usable_blocks (4 + Suc (nat NBSEM + 14)) ?s1" "33 < length (idt (cpu ?s1))"
    using c''(2) l(5,8) by (simp_all add: idle_frame_def fs_frame_def usable_blocks_def)
  obtain s2 where s2: "console_init (ad_int33 en) imr1 (junk_screen fr) ?s1 = Some s2" "idle_frame ?s1 s2" "fs_frame ?s1 s2"
    "usable_blocks (Suc (nat NBSEM + 14)) s2"
    using console_init_boots [OF i1(3) l(7) _ i1(4)] l(6) by auto
  have i2: "idle_frame s s2" "fs_frame s s2" by (rule frame_trans(1) [OF i1(1) s2(2)], rule frame_trans(2) [OF i1(2) s2(3)])
  have z: "dll (k_links s2) 0 []" "pid_cour s2 = 0" "\<And>p. p_valide (tab_proc s2 p) = 0" using i2(1) l(1-3) by (simp_all add: idle_frame_def)
  obtain s3 where s3: "sem_init s2 = Some s3" "kinv s3" "usable_blocks 14 s3" "fs_frame s2 s3" "tab_proc s3 = tab_proc s2" "cpu s3 = cpu s2" "pid_cour s3 = pid_cour s2"
    using sem_init_boots [OF no_process_inv [OF z] s2(4)] by blast
  have "rootfs_present s3 i = 0" for i using frame_trans(2) [OF i2(2) s3(4)] l(4) by (simp add: fs_frame_def)
  then obtain s4 where s4: "vfs_init s3 = Some s4" "vfs_ready s4" using vfs_init_ready [of s3] by blast
  obtain n r where e: "s4 = s3\<lparr>fs_nodes := n, rootfs_present := r\<rparr>" using vfs_init_only_fs [OF s4(1)] by (auto simp: only_fs_def)
  have p3: "pid_cour s3 = 0" "length (idt (cpu s3)) = 256" using i2(1) s3 l(2,5) by (simp_all add: idle_frame_def)
  have "kinv s4" using s3(2) p3(1) by (intro kinv_idle [of s3 s4]) (simp_all add: e)
  moreover have "usable_blocks 14 s4" using s3(3) by (simp add: usable_blocks_def e)
  moreover have "pid_cour s4 = 0" "32 < length (idt (cpu s4))" "\<And>p. p_valide (tab_proc s4 p) = 0" using p3 s3(5) z(3) by (simp_all add: e)
  ultimately obtain s5 where s5: "context_init en fr s4 = Some s5" "init_waits s5" using context_init_boots [of s4] s4(2) by blast
  then obtain t where "timer_init imr2 s5 = Some t" "init_waits t" using timer_init_boots by blast
  then show ?thesis using c(1) c'(1) c''(1) s2(1) s3(1) s4(1) s5(1) by (simp add: kernel_start_def)
qed

text \<open>The first interrupt of the clock gives the processor to Init.\<close>

lemma update_timer_none:
  "\<forall>p \<in> set is. \<not> (p_valide (tab_proc s p) = 1 \<and> p_state (tab_proc s p) = STATE_ASLEEP) \<Longrightarrow> update_timer_loop is s = Some s"
  by (induction "is") auto

lemma init_waits_tree:
  assumes "init_waits s"
  shows "tree_inv s" "live s 1"
proof -
  have v: "valid_proc s p \<longleftrightarrow> p = 1" "p_state (tab_proc s 1) = STATE_ACTIVABLE" "p_pid_parent (tab_proc s 1) = 0" "p_children (tab_proc s 1) = Some []" for p
    using assms by (auto simp: init_waits_def activable_def)
  then have live: "live s p \<longleftrightarrow> p = 1" for p by (auto simp: live_def)
  have "kids s 1 = {}" using v by (auto simp: kids_def)
  then show "tree_inv s" "live s 1" using v live by (auto simp: tree_inv_def)
qed

lemma first_tick:
  assumes "init_waits s"
  shows "\<exists>t. clock_tick s = Some t \<and> pid_cour t = 1 \<and> minv \<lparr>kern = t, pend = (\<lambda>_. User)\<rparr>"
proof -
  let ?u = "outb 0x20 0x20 (s\<lparr>nb_interrupt := nb_interrupt s + 1\<rparr>)"
  have u: "init_waits ?u" using assms by (rule init_waits_idle) (simp_all add: outb_def)
  then have k: "sched_inv ?u" "no_sigs ?u" "pid_cour ?u = 0" "activable ?u = {1}" by (simp_all add: init_waits_def kinv_def)
  obtain xs where xs: "ready ?u xs" using k(1) by (rule sched_inv_ready)
  then have one: "set xs = {1}" using k(4) by (simp add: ready_def)
  then have l: "xs \<noteq> []" by (cases xs) simp_all
  then have last: "last xs = 1" using last_in_set [of xs] one by simp
  have "valid_proc ?u p \<longleftrightarrow> p = 1" for p using u unfolding init_waits_def by blast
  moreover have "p_state (tab_proc ?u 1) = STATE_ACTIVABLE" using k(4) unfolding activable_def by blast
  ultimately have "\<not> (p_valide (tab_proc ?u p) = 1 \<and> p_state (tab_proc ?u p) = STATE_ASLEEP)" if "in_tab p" for p
    using that unfolding valid_proc_def by (metis proc_state.distinct)
  then have "update_timer ?u = Some ?u" unfolding update_timer_def by (intro update_timer_none) (simp add: in_tab_def)
  then have tick: "clock_tick s = scheduler ?u" by (simp add: clock_tick_def)
  obtain t where t: "clock_tick s = Some t" "pid_cour t = 1" using scheduler_dispatch_post [OF k(1,2) xs l] k(3) last tick by auto
  have "kinv s" using assms by (simp add: init_waits_def)
  from clock_tick_advances [OF this] t(1) have "advances s t" by auto
  then have "kinv t" "sched_post t" "tree_inv t" using init_waits_tree [OF assms] same_tree_eq(3) [of s t] by (auto simp: advances_def)
  then show ?thesis using t by (simp add: minv_def)
qed

text \<open>
  C1. The kernel boots and then runs within its calls without a fault: from what the loader leaves, \<^verbatim>\<open>kernel_start\<close> runs to its end, the first interrupt of the clock
  gives the processor to the process Init, which has no father, no children and the priority 3; and after any sequence of steps of the state machine \<open>kstep\<close>
  the invariants hold and the next step does not fault.

  The steps are the clock interrupts, the returns of blocked calls, and the system calls of \<open>core_call\<close> and \<open>can_start\<close>: those on processes, semaphores and the clock, except
  \<^verbatim>\<open>kill\<close>, \<^verbatim>\<open>exit\<close> by Init, \<^verbatim>\<open>getprio\<close> of a negative PID, \<^verbatim>\<open>chprio\<close> of a PID outside the table (these two fault) and \<^verbatim>\<open>start\<close> without a free descriptor, the files
  of the caller, a readable name or a stack size up to 0xffffffe7; each call with 21 blocks left in the allocator. The calls on files, consoles and signals are not steps.
\<close>

theorem kernel_boots:
  assumes "loaded fr s"
  shows "\<exists>t u. kernel_start en fr imr1 imr2 s = Some t \<and> clock_tick t = Some u \<and> pid_cour u = 1 \<and>
    p_name (tab_proc t 1) = ''Init'' \<and> p_pid_parent (tab_proc t 1) = 0 \<and> p_children (tab_proc t 1) = Some [] \<and> prio_of t 1 = 3 \<and>
    (\<forall>m. (kstep env)\<^sup>*\<^sup>* \<lparr>kern = u, pend = (\<lambda>_. User)\<rparr> m \<longrightarrow>
       no_fault env m \<and> kinv (kern m) \<and> tree_inv (kern m) \<and> sched_post (kern m))"
proof -
  obtain t where t: "kernel_start en fr imr1 imr2 s = Some t" "init_waits t" using kernel_start_boots [OF assms] by blast
  obtain u where u: "clock_tick t = Some u" "pid_cour u = 1" "minv \<lparr>kern = u, pend = (\<lambda>_. User)\<rparr>" using first_tick [OF t(2)] by blast
  have "minv m" if "(kstep env)\<^sup>*\<^sup>* \<lparr>kern = u, pend = (\<lambda>_. User)\<rparr> m" for m using that u(3) by (rule reachable_minv)
  then have "no_fault env m \<and> kinv (kern m) \<and> tree_inv (kern m) \<and> sched_post (kern m)"
    if "(kstep env)\<^sup>*\<^sup>* \<lparr>kern = u, pend = (\<lambda>_. User)\<rparr> m" for m
    using that minv_no_fault [of m env] by (simp add: minv_def)
  with t u(1,2) show ?thesis by (auto simp: init_waits_def prio_of_def)
qed

definition ex_loaded :: kstate where
  "ex_loaded = ex_tree\<lparr>pid_cour := 0, tab_proc := (\<lambda>p. (tab_proc ex_tree p)\<lparr>p_valide := 0\<rparr>), rootfs_present := (\<lambda>_. 0),
     cpu := \<lparr>gdt = [], idt = replicate IDT_ENTRIES 0, tss = tss_zero, trap_tss = []\<rparr>,
     video_mem := replicate screen_size \<lparr>cc_c = CHR '' '', cc_attr = 7\<rparr>, allocs := replicate (nat NBSEM + 19) 4096\<rparr>"

definition ex_boot :: fresh where
  "ex_boot = ex_fresh\<lparr>junk_screen := replicate screen_size \<lparr>cc_c = CHR ''x'', cc_attr = 0\<rparr>\<rparr>"

lemma ex_loaded_ok: "loaded ex_boot ex_loaded"
proof -
  have "dll (k_links ex_loaded) 0 []" by (simp add: dll_def ex_loaded_def ex_tree_def)
  moreover have "usable_blocks (nat NBSEM + 19) ex_loaded" by (simp add: usable_blocks_def ex_loaded_def)
  ultimately show ?thesis by (simp add: loaded_def ex_loaded_def ex_boot_def)
qed

theorem kernel_boots_witness:
  "\<exists>t u. kernel_start ex_entries ex_boot 0xff 0xfd ex_loaded = Some t \<and> clock_tick t = Some u \<and> pid_cour u = 1 \<and> kinv u \<and> tree_inv u \<and>
    no_fault ex_env \<lparr>kern = u, pend = (\<lambda>_. User)\<rparr>"
proof -
  from kernel_boots [OF ex_loaded_ok, of ex_entries "0xff" "0xfd" ex_env] obtain t u where
    b: "kernel_start ex_entries ex_boot 0xff 0xfd ex_loaded = Some t" "clock_tick t = Some u" "pid_cour u = 1"
    and m: "\<forall>m. (kstep ex_env)\<^sup>*\<^sup>* \<lparr>kern = u, pend = (\<lambda>_. User)\<rparr> m \<longrightarrow> no_fault ex_env m \<and> kinv (kern m) \<and> tree_inv (kern m) \<and> sched_post (kern m)"
    by blast
  show ?thesis using b m [THEN spec, of "\<lparr>kern = u, pend = (\<lambda>_. User)\<rparr>"] by simp
qed

end
