(* ===== verification/Gdb_packet.thy ===== *)
theory Gdb_packet
  imports Strtol
begin

unbundle bit_operations_syntax

text \<open>
  The debugger stub (\<^verbatim>\<open>kernel/gdb_serial.c\<close>): packets on the serial line. What the line delivers is the list \<open>inp\<close> of bytes, what is
  sent a list of bytes; a function that waits for a byte that never comes is \<open>None\<close>. A buffer is a list of characters.
\<close>

section \<open>Hexadecimal digits\<close>

definition BUFMAX :: nat where "BUFMAX = 400"

definition hexchars :: string where "hexchars = ''0123456789abcdef''"

definition hex :: "char \<Rightarrow> int" where
  "hex ch =
     (if uchar (CHR ''0'') \<le> uchar ch \<and> uchar ch \<le> uchar (CHR ''9'') then uchar ch - uchar (CHR ''0'')
      else if uchar (CHR ''a'') \<le> uchar ch \<and> uchar ch \<le> uchar (CHR ''f'') then uchar ch - uchar (CHR ''a'') + 10
      else if uchar (CHR ''A'') \<le> uchar ch \<and> uchar ch \<le> uchar (CHR ''F'') then uchar ch - uchar (CHR ''A'') + 10
      else -1)"

text \<open>The bytes that \<^verbatim>\<open>hex2bin\<close> stores, in front of a wrong digit as well, and whether all of them are right.\<close>

fun hex2bin :: "bytes \<Rightarrow> ptr \<Rightarrow> nat \<Rightarrow> (bool \<times> bytes) option" where
  "hex2bin m i 0 = Some (True, [])"
| "hex2bin m i (Suc n) = do {
     a \<leftarrow> ld m i;
     b \<leftarrow> ld m (i + 1);
     let ch = push_bit 4 (hex a) OR hex b;
     if ch < 0 then Some (False, [])
     else do { (ok, out) \<leftarrow> hex2bin m (i + 2) n; Some (ok, to_char ch # out) } }"

section \<open>Receiving a packet\<close>

definition byte7 :: "char \<Rightarrow> int" where "byte7 c = uchar c AND 0x7f"

definition csum :: "u8 \<Rightarrow> char \<Rightarrow> u8" where "csum c ch = c + word_of_int (uchar ch)"

fun wait_start :: "string \<Rightarrow> string option" where
  "wait_start [] = None"
| "wait_start (c # inp) = (if byte7 c = uchar (CHR ''$'') then Some inp else wait_start inp)"

record reading =
  r_ch :: char
  r_count :: nat
  r_sum :: u8
  r_buf :: bytes

text \<open>The inner loop: up to an unquoted \<^verbatim>\<open>#\<close> or to the end of the buffer.\<close>

function read_body :: "reading \<Rightarrow> string \<Rightarrow> (reading \<times> string) option" where
  "read_body r inp =
     (if r_count r < BUFMAX then
        (case inp of [] \<Rightarrow> None
         | ch # inp \<Rightarrow> do {
             quoted \<leftarrow> (if r_count r = 0 then Some False else map_option (\<lambda>c. c = CHR 0x7d) (ld (r_buf r) (r_count r - 1)));
             if ch = CHR ''#'' \<and> \<not> quoted then Some (r\<lparr>r_ch := ch\<rparr>, inp)
             else do {
               buf \<leftarrow> st (r_buf r) (r_count r) ch;
               read_body \<lparr>r_ch = ch, r_count = r_count r + 1, r_sum = csum (r_sum r) ch, r_buf = buf\<rparr> inp } })
      else Some (r, inp))"
  by pat_completeness auto
termination by (relation "measure (\<lambda>(r, inp). length inp)") auto

declare read_body.simps [simp del]

text \<open>A sequence number in front of the command: it is sent back and taken out of the buffer.\<close>

definition strip_sequence :: "bytes \<Rightarrow> (bytes \<times> string) option" where
  "strip_sequence buf = do {
     c \<leftarrow> ld buf 2;
     if c = CHR '':'' then do {
       a \<leftarrow> ld buf 0;
       b \<leftarrow> ld buf 1;
       count \<leftarrow> strlen buf 0;
       Some (fold (\<lambda>i buf. buf[i - 3 := buf ! i]) [3..<count + 1] buf, [a, b]) }
     else Some (buf, []) }"

text \<open>One round: the buffer, whether the packet is accepted, what is left of the input and what is sent.\<close>

definition packet_round :: "bytes \<Rightarrow> string \<Rightarrow> (bytes \<times> bool \<times> string \<times> string) option" where
  "packet_round buf inp = do {
     inp \<leftarrow> wait_start inp;
     (r, inp) \<leftarrow> read_body \<lparr>r_ch = CHR ''$'', r_count = 0, r_sum = 0, r_buf = buf\<rparr> inp;
     buf \<leftarrow> st (r_buf r) (r_count r) NUL;
     if r_ch r = CHR ''#'' then
       (case inp of a # b # inp \<Rightarrow>
          let xmit = (word_of_int (push_bit 4 (hex a)) + word_of_int (hex b) :: u8)
          in if r_sum r \<noteq> xmit then Some (buf, False, inp, ''-'')
             else do { (buf, seq) \<leftarrow> strip_sequence buf; Some (buf, True, inp, CHR ''+'' # seq) }
        | _ \<Rightarrow> None)
     else Some (buf, r_sum r = -1, inp, []) }"

lemma wait_start_shorter: "wait_start inp = Some inp' \<Longrightarrow> length inp' < length inp"
  by (induction inp) (auto split: if_splits)

lemma read_body_shorter: "read_body r inp = Some (r', inp') \<Longrightarrow> length inp' \<le> length inp"
proof (induction inp arbitrary: r)
  case Nil
  then show ?case by (simp add: read_body.simps [of r] split: if_splits)
next
  case (Cons ch inp)
  have "inp' = ch # inp \<or> inp' = inp \<or> (\<exists>r. read_body r inp = Some (r', inp'))"
    using Cons.prems by (subst (asm) read_body.simps) (auto simp: bind_eq_Some_conv split: if_splits)
  then show ?case using Cons.IH by fastforce
qed

lemma packet_round_shorter: "packet_round buf inp = Some (buf', ok, inp', s) \<Longrightarrow> length inp' < length inp"
  by (auto simp: packet_round_def bind_eq_Some_conv Let_def split: if_splits list.splits dest!: wait_start_shorter read_body_shorter)

function getpacket :: "bytes \<Rightarrow> string \<Rightarrow> (bytes \<times> string \<times> string) option" where
  "getpacket buf inp =
     (case packet_round buf inp of None \<Rightarrow> None
      | Some (buf, ok, inp, s) \<Rightarrow>
          if ok then Some (buf, inp, s)
          else map_option (\<lambda>(buf, inp, t). (buf, inp, s @ t)) (getpacket buf inp))"
  by pat_completeness auto
termination by (relation "measure (\<lambda>(buf, inp). length inp)") (auto dest: packet_round_shorter)

declare getpacket.simps [simp del]

section \<open>Sending a packet\<close>

text \<open>A piece of a packet: \<open>f_data\<close> is what lies at its pointer; a length of 0 means a terminated string.\<close>

record outfrag =
  f_data :: bytes
  f_len :: nat
  f_hex :: bool

definition hexdigit :: "int \<Rightarrow> char" where "hexdigit d = hexchars ! nat d"

function run_end :: "bytes \<Rightarrow> char \<Rightarrow> nat \<Rightarrow> nat \<Rightarrow> nat option" where
  "run_end d c q limit =
     (if q < limit then do { x \<leftarrow> ld d q; if x = c then run_end d c (q + 1) limit else Some q } else Some q)"
  by pat_completeness auto
termination by (relation "measure (\<lambda>(d, c, q, limit). limit - q)") auto

declare run_end.simps [simp del]

definition starts_run :: "outfrag \<Rightarrow> nat \<Rightarrow> bool option" where
  "starts_run f p = do {
     c \<leftarrow> ld (f_data f) p;
     if f_len f = 0 \<or> p + (if f_hex f then 1 else 3) < f_len f then do {
       c1 \<leftarrow> ld (f_data f) (p + 1);
       if c1 \<noteq> c then Some False
       else if f_hex f then Some (uchar c div 16 = uchar c mod 16)
       else do {
         c2 \<leftarrow> ld (f_data f) (p + 2);
         if c2 \<noteq> c then Some False
         else do { c3 \<leftarrow> ld (f_data f) (p + 3); Some (c3 = c) } } }
     else Some False }"

text \<open>One step of the loop over a piece: what is sent and where the loop goes on.\<close>

definition send_step :: "outfrag \<Rightarrow> nat \<Rightarrow> (string \<times> nat) option" where
  "send_step f p = do {
     c \<leftarrow> ld (f_data f) p;
     run \<leftarrow> starts_run f p;
     if run then do {
       let limit = p + (if f_hex f then 98 div 2 else 98);
       let limit = (if f_len f \<noteq> 0 \<and> limit > f_len f then f_len f else limit);
       q \<leftarrow> run_end (f_data f) c (p + (if f_hex f then 2 else 4)) limit;
       let rl = (if f_hex f then (q - p) * 2 else q - p);
       Some ([if f_hex f then hexdigit (uchar c mod 16) else c, CHR ''*'', to_char (29 + int rl - 1)], q) }
     else if f_hex f then Some ([hexdigit (uchar c div 16), hexdigit (uchar c mod 16)], p + 1)
     else Some ([c], p + 1) }"

lemma run_end_ge: "run_end d c q limit = Some q' \<Longrightarrow> q \<le> q'"
proof (induction d c q limit rule: run_end.induct)
  case (1 d c q limit)
  then show ?case by (subst (asm) run_end.simps) (fastforce split: if_splits simp: bind_eq_Some_conv)
qed

lemma send_step_forward: "send_step f p = Some (s, q) \<Longrightarrow> p < q \<and> p < length (f_data f)"
  by (auto simp: send_step_def bind_eq_Some_conv Let_def split: if_splits dest!: run_end_ge)

function send_frag :: "outfrag \<Rightarrow> nat \<Rightarrow> string option" where
  "send_frag f p = do {
     more \<leftarrow> (if f_len f \<noteq> 0 then Some (p < f_len f) else map_option (\<lambda>c. c \<noteq> NUL) (ld (f_data f) p));
     if more then
       (case send_step f p of None \<Rightarrow> None | Some (s, q) \<Rightarrow> map_option ((@) s) (send_frag f q))
     else Some [] }"
  by pat_completeness auto
termination
  by (relation "measure (\<lambda>(f, p). length (f_data f) - p)") (auto dest: send_step_forward)

declare send_frag.simps [simp del]

fun send_frags :: "outfrag list \<Rightarrow> string option" where
  "send_frags [] = Some []"
| "send_frags (f # fs) = do { s \<leftarrow> send_frag f 0; t \<leftarrow> send_frags fs; Some (s @ t) }"

definition checksum_of :: "string \<Rightarrow> u8" where "checksum_of s = foldl csum 0 s"

definition packet :: "string \<Rightarrow> string" where
  "packet body = CHR ''$'' # body @ [CHR ''#'', hexdigit (uint (checksum_of body) div 16), hexdigit (uint (checksum_of body) mod 16)]"

text \<open>The packet is sent again until the other side likes it.\<close>

fun send_until :: "string \<Rightarrow> string \<Rightarrow> (string \<times> string) option" where
  "send_until p [] = None"
| "send_until p (c # inp) = (if byte7 c = uchar (CHR ''+'') then Some (p, inp) else map_option (apfst ((@) p)) (send_until p inp))"

definition putfrags :: "outfrag list \<Rightarrow> string \<Rightarrow> (string \<times> string) option" where
  "putfrags frags inp = do { body \<leftarrow> send_frags frags; send_until (packet body) inp }"

section \<open>Digits\<close>

lemma hexdigit_uchar:
  assumes "0 \<le> d" and "d < 16"
  shows "uchar (hexdigit d) = (if d < 10 then 48 + d else 87 + d)"
proof -
  have "d \<in> set [0..15]" using assms by simp
  then show ?thesis by (auto simp: hexdigit_def hexchars_def uchar_def upto_rec1)
qed

lemma hexdigit_plain: "0 \<le> d \<Longrightarrow> d < 16 \<Longrightarrow> hexdigit d \<noteq> CHR ''*''" "0 \<le> d \<Longrightarrow> d < 16 \<Longrightarrow> hexdigit d \<noteq> CHR ''#''"
  using hexdigit_uchar [of d] by (auto simp: uchar_def split: if_splits)

lemma hex_hexdigit: "0 \<le> d \<Longrightarrow> d < 16 \<Longrightarrow> hex (hexdigit d) = d"
  by (simp add: hex_def hexdigit_uchar) (simp add: uchar_def)

lemma uchar_nibbles: "0 \<le> uchar c div 16" "uchar c div 16 < 16" "0 \<le> uchar c mod 16" "uchar c mod 16 < 16"
  using uchar_range [of c] by auto

lemma to_char_uchar [simp]: "to_char (uchar c) = c"
  by (simp add: to_char_def uchar_def)

lemma uchar_to_char: "0 \<le> n \<Longrightarrow> n < 256 \<Longrightarrow> uchar (to_char n) = n"
  by (simp add: to_char_def uchar_def)

lemma nibbles_or: "0 \<le> a \<Longrightarrow> 0 \<le> b \<Longrightarrow> b < 16 \<Longrightarrow> push_bit 4 a OR b = 16 * a + (b :: int)"
proof -
  assume b: "0 \<le> b" "b < 16"
  then have "b = take_bit 4 b" by (simp add: take_bit_eq_mod)
  moreover have "push_bit 4 a AND take_bit 4 b = 0" by (auto simp: bit_eq_iff bit_simps)
  ultimately have "push_bit 4 a AND b = 0" by metis
  then have "push_bit 4 a OR b = push_bit 4 a + b" by (simp add: disjunctive_add_eq_or)
  then show ?thesis by (simp add: push_bit_eq_mult)
qed

text \<open>The two digits of a byte.\<close>

definition hexbyte :: "char \<Rightarrow> string" where
  "hexbyte c = [hexdigit (uchar c div 16), hexdigit (uchar c mod 16)]"

lemma length_hexbyte [simp]: "length (hexbyte c) = 2"
  by (simp add: hexbyte_def)

lemma length_hexbytes [simp]: "length (concat (map hexbyte cs)) = 2 * length cs"
  by (induction cs) simp_all

lemma hex2bin_hexbytes:
  assumes "i + 2 * length cs \<le> length m" and "take (2 * length cs) (drop i m) = concat (map hexbyte cs)"
  shows "hex2bin m i (length cs) = Some (True, cs)"
  using assms
proof (induction cs arbitrary: i)
  case (Cons c cs)
  have l: "i + 1 < length m" using Cons.prems(1) by simp
  have d: "drop i m = m ! i # m ! (i + 1) # drop (i + 2) m"
    using l by (metis Cons_nth_drop_Suc Suc_lessD add.commute plus_1_eq_Suc add_2_eq_Suc')
  then have ab: "m ! i = hexdigit (uchar c div 16)" "m ! (i + 1) = hexdigit (uchar c mod 16)"
    "take (2 * length cs) (drop (i + 2) m) = concat (map hexbyte cs)"
    using Cons.prems(2) by (simp_all add: hexbyte_def [of c])
  have "push_bit 4 (hex (m ! i)) OR hex (m ! (i + 1)) = 16 * (uchar c div 16) + uchar c mod 16"
    unfolding ab(1,2) using uchar_nibbles [of c] by (simp add: hex_hexdigit nibbles_or)
  then have "push_bit 4 (hex (m ! i)) OR hex (m ! (i + 1)) = uchar c" by simp
  moreover have "0 \<le> hex (m ! i)" "0 \<le> hex (m ! (i + 1))" unfolding ab(1,2) using uchar_nibbles [of c] by (simp_all add: hex_hexdigit)
  ultimately show ?case using Cons.IH [OF _ ab(3)] Cons.prems(1) l by simp
qed simp

section \<open>Run-length encoding\<close>

text \<open>What the receiver makes of a body: a character, an asterisk and a count stand for a run.\<close>

fun expand :: "string \<Rightarrow> string" where
  "expand (c # m # n # s) = (if m = CHR ''*'' then replicate (nat (uchar n - 28)) c @ expand s else c # expand (m # n # s))"
| "expand s = s"

definition no_star :: "string \<Rightarrow> bool" where
  "no_star s \<longleftrightarrow> s = [] \<or> hd s \<noteq> CHR ''*''"

lemma expand_plain: "no_star s \<Longrightarrow> expand (c # s) = c # expand s"
  by (cases s; cases "tl s") (auto simp: no_star_def)

definition content :: "outfrag \<Rightarrow> string" where
  "content f = (if f_len f \<noteq> 0 then take (f_len f) (f_data f) else takeWhile (\<lambda>c. c \<noteq> NUL) (f_data f))"

definition enc :: "outfrag \<Rightarrow> char \<Rightarrow> string" where
  "enc f c = (if f_hex f then hexbyte c else [c])"

definition plain :: "outfrag \<Rightarrow> string" where
  "plain f = concat (map (enc f) (content f))"

text \<open>A piece as the code builds them: the array has the length given, a string has an end; what is sent as it is has no asterisk.\<close>

definition frag_ok :: "outfrag \<Rightarrow> bool" where
  "frag_ok f \<longleftrightarrow> f_len f \<le> length (f_data f) \<and> (f_len f = 0 \<longrightarrow> NUL \<in> set (f_data f)) \<and> (f_hex f \<or> CHR ''*'' \<notin> set (content f))"

lemma content_ok:
  assumes "frag_ok f"
  shows "length (content f) \<le> length (f_data f)" "p < length (content f) \<Longrightarrow> f_data f ! p = content f ! p"
    "f_len f = 0 \<Longrightarrow> length (content f) < length (f_data f) \<and> f_data f ! length (content f) = NUL"
    "f_len f = 0 \<Longrightarrow> p < length (content f) \<Longrightarrow> content f ! p \<noteq> NUL"
    "f_len f \<noteq> 0 \<Longrightarrow> length (content f) = f_len f"
proof -
  show "length (content f) \<le> length (f_data f)" by (simp add: content_def length_takeWhile_le)
  show "p < length (content f) \<Longrightarrow> f_data f ! p = content f ! p" by (simp add: content_def takeWhile_nth split: if_splits)
  show "f_len f = 0 \<Longrightarrow> length (content f) < length (f_data f) \<and> f_data f ! length (content f) = NUL"
    using assms nth_length_takeWhile [of "\<lambda>c. c \<noteq> NUL" "f_data f"] takeWhile_eq_all_conv [of "\<lambda>c. c \<noteq> NUL" "f_data f"]
      length_takeWhile_le [of "\<lambda>c. c \<noteq> NUL" "f_data f"] takeWhile_eq_take [of "\<lambda>c. c \<noteq> NUL" "f_data f"]
    by (cases "length (content f) = length (f_data f)") (auto simp: content_def frag_ok_def)
  show "f_len f = 0 \<Longrightarrow> p < length (content f) \<Longrightarrow> content f ! p \<noteq> NUL"
    using nth_mem [of p "content f"] set_takeWhileD [of "content f ! p" "\<lambda>c. c \<noteq> NUL" "f_data f"] by (simp add: content_def)
  show "f_len f \<noteq> 0 \<Longrightarrow> length (content f) = f_len f" using assms by (simp add: content_def frag_ok_def)
qed

lemma run_end_ok:
  assumes "frag_ok f" and "p < length (content f)" and "q \<le> length (content f)" and "f_len f \<noteq> 0 \<longrightarrow> limit \<le> f_len f"
  shows "\<exists>q'. run_end (f_data f) (content f ! p) q limit = Some q' \<and> q \<le> q' \<and> q' \<le> max q limit \<and> q' \<le> length (content f) \<and>
    (\<forall>i. q \<le> i \<and> i < q' \<longrightarrow> content f ! i = content f ! p)"
  using assms(3)
proof (induction "limit - q" arbitrary: q)
  case 0
  then have "run_end (f_data f) (content f ! p) q limit = Some q" by (simp add: run_end.simps)
  then show ?case using 0 by auto
next
  case (Suc n)
  note c = content_ok [OF assms(1)]
  show ?case
  proof (cases "q < length (content f) \<and> content f ! q = content f ! p")
    case True
    have lt: "q < limit" using Suc.hyps(2) by simp
    have n: "n = limit - (q + 1)" using Suc.hyps(2) by simp
    from True obtain q' where q': "run_end (f_data f) (content f ! p) (q + 1) limit = Some q'" "q + 1 \<le> q'" "q' \<le> max (q + 1) limit" "q' \<le> length (content f)"
      "\<forall>i. q + 1 \<le> i \<and> i < q' \<longrightarrow> content f ! i = content f ! p" using Suc.hyps(1) [OF n] by auto
    have "run_end (f_data f) (content f ! p) q limit = Some q'"
      using q'(1) True c(1) c(2) [of q] lt by (subst run_end.simps) simp
    moreover have "\<forall>i. q \<le> i \<and> i < q' \<longrightarrow> content f ! i = content f ! p" using q'(5) True by (metis Suc_eq_plus1 Suc_leI le_neq_implies_less)
    ultimately show ?thesis using q'(2-4) Suc.hyps(2) by (intro exI [of _ q']) auto
  next
    case False
    have "run_end (f_data f) (content f ! p) q limit = Some q"
    proof (cases "q < length (content f)")
      case True
      then show ?thesis using False c(1) c(2) [of q] by (subst run_end.simps) auto
    next
      case no: False
      then have q: "q = length (content f)" using Suc.prems by simp
      have "f_len f = 0" using assms(4) c(5) Suc.hyps(2) q by (cases "f_len f = 0") auto
      then show ?thesis using c(3) c(4) [of p] assms(2) q by (subst run_end.simps) auto
    qed
    with Suc.prems show ?thesis by auto
  qed
qed

lemma run_codes:
  assumes "\<forall>i. p \<le> i \<and> i < q \<longrightarrow> xs ! i = xs ! p" and "p \<le> q" and "q \<le> length xs"
  shows "take (q - p) (drop p xs) = replicate (q - p) (xs ! p)"
proof (rule nth_equalityI)
  show "length (take (q - p) (drop p xs)) = length (replicate (q - p) (xs ! p))" using assms(2,3) by simp
  fix i
  assume "i < length (take (q - p) (drop p xs))"
  then have "i < q - p" by simp
  then have "p + i < q" using assms(2) by linarith
  with \<open>i < q - p\<close> show "take (q - p) (drop p xs) ! i = replicate (q - p) (xs ! p) ! i" using assms(1) [THEN spec, of "p + i"] assms(3) by simp
qed

lemma double_nibble: "concat (replicate n [x, x]) = replicate (2 * n) x"
  by (induction n) simp_all

text \<open>A run starts at \<open>p\<close>: four equal characters will be sent.\<close>

definition run_at :: "outfrag \<Rightarrow> nat \<Rightarrow> bool" where
  "run_at f p \<longleftrightarrow> p + (if f_hex f then 2 else 4) \<le> length (content f) \<and>
    (\<forall>i. p \<le> i \<and> i < p + (if f_hex f then 2 else 4) \<longrightarrow> content f ! i = content f ! p) \<and>
    (f_hex f \<longrightarrow> uchar (content f ! p) div 16 = uchar (content f ! p) mod 16)"

lemma starts_run_ok:
  assumes "frag_ok f" and p: "p < length (content f)"
  shows "\<exists>b. starts_run f p = Some b \<and> (b \<longrightarrow> run_at f p)"
proof -
  let ?C = "content f" and ?d = "f_data f"
  note c = content_ok [OF assms(1)]
  text \<open>A character after characters that are equal and not the end can be read.\<close>
  have next_in: "k < length ?d \<and> (?d ! k = ?C ! p \<longrightarrow> k < length ?C \<and> ?C ! k = ?C ! p)"
    if "k \<le> length ?C" "f_len f = 0 \<or> k < f_len f" for k
  proof (cases "k < length ?C")
    case True
    then show ?thesis using c(1) c(2) [OF True] by simp
  next
    case False
    with that have k: "k = length ?C" by simp
    with that c(5) have z: "f_len f = 0" by (cases "f_len f = 0") auto
    then show ?thesis using c(3) c(4) [OF z p] k by auto
  qed
  have dp: "p < length ?d" "?d ! p = ?C ! p" using p c(1) c(2) [OF p] by simp_all
  show ?thesis
  proof (cases "f_len f = 0 \<or> p + (if f_hex f then 1 else 3) < f_len f")
    case False
    then show ?thesis using dp by (auto simp: starts_run_def)
  next
    case in1: True
    have n1: "p + 1 < length ?d \<and> (?d ! (p + 1) = ?C ! p \<longrightarrow> p + 1 < length ?C \<and> ?C ! (p + 1) = ?C ! p)"
      using p in1 by (intro next_in) (auto split: if_splits)
    show ?thesis
    proof (cases "?d ! (p + 1) = ?C ! p")
      case False
      then have "starts_run f p = Some False" using dp in1 n1 by (simp add: starts_run_def)
      then show ?thesis by (intro exI [of _ False]) simp
    next
      case e1: True
      show ?thesis
      proof (cases "f_hex f")
        case True
        have "starts_run f p = Some (uchar (?C ! p) div 16 = uchar (?C ! p) mod 16)" using dp in1 n1 e1 True by (simp add: starts_run_def)
        moreover have "\<forall>i. p \<le> i \<and> i < p + 2 \<longrightarrow> ?C ! i = ?C ! p" using n1 e1 by (auto simp: less_Suc_eq numeral_2_eq_2)
        moreover have "p + 2 \<le> length ?C" using n1 e1 by simp
        ultimately show ?thesis unfolding run_at_def if_P [OF True] by blast
      next
        case plain: False
        have n2: "p + 2 < length ?d \<and> (?d ! (p + 2) = ?C ! p \<longrightarrow> p + 2 < length ?C \<and> ?C ! (p + 2) = ?C ! p)"
          using n1 e1 in1 plain by (intro next_in) auto
        show ?thesis
        proof (cases "?d ! (p + 2) = ?C ! p")
          case False
          then have "starts_run f p = Some False" using dp in1 n1 n2 e1 plain by (simp add: starts_run_def)
          then show ?thesis by (intro exI [of _ False]) simp
        next
          case e2: True
          have n3: "p + 3 < length ?d \<and> (?d ! (p + 3) = ?C ! p \<longrightarrow> p + 3 < length ?C \<and> ?C ! (p + 3) = ?C ! p)"
            using n2 e2 in1 plain by (intro next_in) auto
          have "starts_run f p = Some (?d ! (p + 3) = ?C ! p)" using dp in1 n1 n2 n3 e1 e2 plain by (simp add: starts_run_def)
          moreover have "\<forall>i. p \<le> i \<and> i < p + 4 \<longrightarrow> ?C ! i = ?C ! p" if "?d ! (p + 3) = ?C ! p"
          proof (intro allI impI)
            fix i
            assume "p \<le> i \<and> i < p + 4"
            then have "i = p \<or> i = p + 1 \<or> i = p + 2 \<or> i = p + 3" by linarith
            then show "?C ! i = ?C ! p" using n1 n2 n3 e1 e2 that by metis
          qed
          moreover have "p + 4 \<le> length ?C" if "?d ! (p + 3) = ?C ! p" using n3 that by simp
          ultimately show ?thesis using plain unfolding run_at_def if_not_P [OF plain] by blast
        qed
      qed
    qed
  qed
qed

lemma no_starI: "s = c # t \<Longrightarrow> c \<noteq> CHR ''*'' \<Longrightarrow> no_star (s @ u)"
  by (simp add: no_star_def)

lemma hexbyte_plain: "no_star t \<Longrightarrow> expand (hexbyte c @ t) = hexbyte c @ expand t" "no_star (hexbyte c @ t)"
proof -
  show "no_star (hexbyte c @ t)" using uchar_nibbles [of c] by (simp add: no_star_def hexbyte_def hexdigit_plain)
  have "no_star (hexdigit (uchar c mod 16) # t)" using uchar_nibbles [of c] by (simp add: no_star_def hexdigit_plain)
  then show "no_star t \<Longrightarrow> expand (hexbyte c @ t) = hexbyte c @ expand t" by (simp add: hexbyte_def expand_plain)
qed

text \<open>\<open>sent_as f p q s\<close>: the characters from \<open>p\<close> to \<open>q\<close> are what the receiver makes of \<open>s\<close>.\<close>

definition sent_as :: "outfrag \<Rightarrow> nat \<Rightarrow> nat \<Rightarrow> string \<Rightarrow> bool" where
  "sent_as f p q s \<longleftrightarrow> (\<forall>t. no_star t \<longrightarrow> no_star (s @ t) \<and>
     expand (s @ t) = concat (map (enc f) (take (q - p) (drop p (content f)))) @ expand t)"

lemma run_sent:
  assumes "x \<noteq> CHR ''*''" and "4 \<le> rl" and "rl \<le> 98" and "concat (map (enc f) (take (q - p) (drop p (content f)))) = replicate rl x"
  shows "sent_as f p q [x, CHR ''*'', to_char (29 + int rl - 1)]"
  using assms by (simp add: sent_as_def no_star_def uchar_to_char)

lemma send_step_ok:
  assumes ok: "frag_ok f" and p: "p < length (content f)"
  shows "\<exists>s q. send_step f p = Some (s, q) \<and> p < q \<and> q \<le> length (content f) \<and> sent_as f p q s"
proof -
  let ?C = "content f" and ?d = "f_data f" and ?w = "if f_hex f then 2 else 4"
  note c = content_ok [OF ok]
  have dp: "p < length ?d" "?d ! p = ?C ! p" using p c(1) c(2) [OF p] by simp_all
  have star: "f_hex f \<or> ?C ! p \<noteq> CHR ''*''" using ok p nth_mem unfolding frag_ok_def by metis
  obtain b where b: "starts_run f p = Some b" "b \<Longrightarrow> p + ?w \<le> length ?C"
    "b \<Longrightarrow> \<forall>i. p \<le> i \<and> i < p + ?w \<longrightarrow> ?C ! i = ?C ! p" "b \<Longrightarrow> f_hex f \<Longrightarrow> uchar (?C ! p) div 16 = uchar (?C ! p) mod 16"
    using starts_run_ok [OF ok p] unfolding run_at_def by blast
  show ?thesis
  proof (cases b)
    case False
    have "take (p + 1 - p) (drop p ?C) = [?C ! p]" using p by (simp add: take_Suc_conv_app_nth)
    then have "sent_as f p (p + 1) (enc f (?C ! p))"
      using star by (cases "f_hex f") (simp_all add: sent_as_def enc_def hexbyte_plain expand_plain, simp add: no_star_def)
    moreover have "send_step f p = Some (enc f (?C ! p), p + 1)" using dp b(1) False by (simp add: send_step_def enc_def hexbyte_def)
    ultimately show ?thesis using p by (intro exI [of _ "enc f (?C ! p)"] exI [of _ "p + 1"]) simp
  next
    case True
    define lim where "lim = (let l = p + (if f_hex f then 98 div 2 else 98) in if f_len f \<noteq> 0 \<and> l > f_len f then f_len f else l)"
    have lim: "f_len f \<noteq> 0 \<longrightarrow> lim \<le> f_len f" "lim \<le> p + (if f_hex f then 49 else 98)" by (auto simp: lim_def Let_def)
    obtain q where q: "run_end ?d (?C ! p) (p + ?w) lim = Some q" "p + ?w \<le> q" "q \<le> max (p + ?w) lim" "q \<le> length ?C"
      "\<forall>i. p + ?w \<le> i \<and> i < q \<longrightarrow> ?C ! i = ?C ! p"
      using run_end_ok [OF ok p b(2) [OF True] lim(1)] by blast
    have "\<forall>i. p \<le> i \<and> i < q \<longrightarrow> ?C ! i = ?C ! p" using b(3) [OF True] q(5) by (meson not_less)
    moreover have "p \<le> q" using q(2) by (simp split: if_splits)
    ultimately have run: "take (q - p) (drop p ?C) = replicate (q - p) (?C ! p)" using q(4) by (rule run_codes)
    define rl where "rl = (if f_hex f then (q - p) * 2 else q - p)"
    define x where "x = (if f_hex f then hexdigit (uchar (?C ! p) mod 16) else ?C ! p)"
    have rl: "4 \<le> rl" "rl \<le> 98" using q(2,3) lim(2) by (auto simp: rl_def split: if_splits)
    have "enc f (?C ! p) = (if f_hex f then [x, x] else [x])" using b(4) [OF True] by (simp add: enc_def hexbyte_def x_def)
    then have "concat (map (enc f) (take (q - p) (drop p ?C))) = replicate rl x"
      unfolding run by (simp add: rl_def double_nibble mult.commute map_replicate_const)
    moreover have "x \<noteq> CHR ''*''" using star uchar_nibbles [of "?C ! p"] by (cases "f_hex f") (simp_all add: x_def hexdigit_plain)
    ultimately have "sent_as f p q [x, CHR ''*'', to_char (29 + int rl - 1)]" using rl by (intro run_sent) simp_all
    moreover have "send_step f p = Some ([x, CHR ''*'', to_char (29 + int rl - 1)], q)"
      using dp b(1) True q(1) unfolding send_step_def rl_def x_def lim_def Let_def by (cases "f_hex f"; cases "f_len f = 0") simp_all
    moreover have "p < q" using q(2) by (simp split: if_splits)
    ultimately show ?thesis using q(4) by blast
  qed
qed

lemma sent_as_trans:
  assumes "sent_as f p q s" and "sent_as f q r t" and "p \<le> q" and "q \<le> r"
  shows "sent_as f p r (s @ t)"
  unfolding sent_as_def
proof (intro allI impI)
  fix u
  assume u: "no_star u"
  have "take (r - p) (drop p (content f)) = take (q - p) (drop p (content f)) @ take (r - q) (drop q (content f))"
    using assms(3,4) take_add [of "q - p" "r - q" "drop p (content f)"] by simp
  moreover have "no_star (t @ u)" "expand (t @ u) = concat (map (enc f) (take (r - q) (drop q (content f)))) @ expand u"
    using assms(2) u by (simp_all add: sent_as_def)
  ultimately show "no_star ((s @ t) @ u) \<and> expand ((s @ t) @ u) = concat (map (enc f) (take (r - p) (drop p (content f)))) @ expand u"
    using assms(1) by (simp add: sent_as_def)
qed

lemma send_frag_ok:
  assumes "frag_ok f" and "p \<le> length (content f)"
  shows "\<exists>s. send_frag f p = Some s \<and> sent_as f p (length (content f)) s"
  using assms(2)
proof (induction "length (content f) - p" arbitrary: p rule: less_induct)
  case less
  note c = content_ok [OF assms(1)]
  have more: "(if f_len f \<noteq> 0 then Some (p < f_len f) else map_option (\<lambda>c. c \<noteq> NUL) (ld (f_data f) p)) = Some (p < length (content f))"
  proof (cases "f_len f = 0")
    case False
    then show ?thesis using c(5) by simp
  next
    case True
    have "p < length (f_data f)" using less.prems c(3) [OF True] by simp
    then show ?thesis using True c(2) [of p] c(3) [OF True] c(4) [OF True, of p] less.prems by (cases "p = length (content f)") auto
  qed
  show ?case
  proof (cases "p < length (content f)")
    case False
    then have "send_frag f p = Some []" unfolding send_frag.simps [of f p] more by simp
    moreover have "sent_as f p (length (content f)) []" using False less.prems by (simp add: sent_as_def)
    ultimately show ?thesis by blast
  next
    case True
    obtain s q where s: "send_step f p = Some (s, q)" "p < q" "q \<le> length (content f)" "sent_as f p q s"
      using send_step_ok [OF assms(1) True] by blast
    have "length (content f) - q < length (content f) - p" using s(2) True by linarith
    then obtain t where t: "send_frag f q = Some t" "sent_as f q (length (content f)) t" using less.hyps s(3) by blast
    have "send_frag f p = Some (s @ t)" using s(1) t(1) True unfolding send_frag.simps [of f p] more by simp
    moreover have "sent_as f p (length (content f)) (s @ t)" using s(4) t(2) s(2,3) by (intro sent_as_trans) simp_all
    ultimately show ?thesis by blast
  qed
qed

lemma send_frags_ok:
  assumes "\<forall>f \<in> set fs. frag_ok f"
  shows "\<exists>s. send_frags fs = Some s \<and> no_star s \<and> expand s = concat (map plain fs)"
  using assms
proof (induction fs)
  case Nil
  then show ?case by (simp add: no_star_def)
next
  case (Cons f fs)
  then obtain t where t: "send_frags fs = Some t" "no_star t" "expand t = concat (map plain fs)" by auto
  obtain s where s: "send_frag f 0 = Some s" "sent_as f 0 (length (content f)) s" using send_frag_ok [of f 0] Cons.prems by auto
  then have "no_star (s @ t) \<and> expand (s @ t) = plain f @ expand t" using t(2) by (simp add: sent_as_def plain_def)
  with s(1) t(1,3) show ?case by simp
qed

section \<open>A packet on the line\<close>

definition check_digits :: "char \<Rightarrow> char \<Rightarrow> u8" where
  "check_digits a b = word_of_int (push_bit 4 (hex a)) + word_of_int (hex b)"

text \<open>A body that the receiver sees as a whole: no number sign ends it before its end, none is quoted at its end, and it fits.\<close>

definition frameable :: "string \<Rightarrow> bool" where
  "frameable s \<longleftrightarrow> CHR ''#'' \<notin> set s \<and> (s = [] \<or> last s \<noteq> CHR 0x7d) \<and> length s < BUFMAX"

definition stored :: "nat \<Rightarrow> string \<Rightarrow> bytes \<Rightarrow> bytes" where
  "stored k s buf = take k buf @ s @ drop (k + length s) buf"

lemma stored_step: "k < length buf \<Longrightarrow> stored (Suc k) s (buf[k := c]) = stored k (c # s) buf"
  by (simp add: stored_def take_Suc_conv_app_nth)

lemma read_body_store:
  assumes "CHR ''#'' \<notin> set s" and "r_count r + length s \<le> BUFMAX" and "BUFMAX < length (r_buf r)"
  shows "\<exists>r'. read_body r (s @ inp) = read_body r' inp \<and> r_count r' = r_count r + length s \<and> r_sum r' = foldl csum (r_sum r) s \<and>
    r_buf r' = stored (r_count r) s (r_buf r) \<and> r_ch r' = (if s = [] then r_ch r else last s)"
  using assms
proof (induction s arbitrary: r)
  case Nil
  then show ?case by (intro exI [of _ r]) (simp add: stored_def)
next
  case (Cons c s)
  let ?k = "r_count r" and ?b = "r_buf r"
  let ?r = "\<lparr>r_ch = c, r_count = ?k + 1, r_sum = csum (r_sum r) c, r_buf = ?b[?k := c]\<rparr>"
  have k: "?k < BUFMAX" "?k < length ?b" "c \<noteq> CHR ''#''" using Cons.prems by auto
  then have "read_body r ((c # s) @ inp) = read_body ?r (s @ inp)" by (subst read_body.simps) (auto split: if_splits)
  moreover obtain r' where "read_body ?r (s @ inp) = read_body r' inp" "r_count r' = r_count ?r + length s" "r_sum r' = foldl csum (r_sum ?r) s"
    "r_buf r' = stored (r_count ?r) s (r_buf ?r)" "r_ch r' = (if s = [] then r_ch ?r else last s)"
    using Cons.IH [of ?r] Cons.prems by auto
  ultimately show ?case using k(2) stored_step [of ?k ?b s c] by (intro exI [of _ r']) simp
qed

lemma read_body_end:
  assumes "r_count r < BUFMAX" and "BUFMAX < length (r_buf r)" and "r_count r = 0 \<or> r_buf r ! (r_count r - 1) \<noteq> CHR 0x7d"
  shows "read_body r (CHR ''#'' # inp) = Some (r\<lparr>r_ch := CHR ''#''\<rparr>, inp)"
  using assms by (subst read_body.simps) (auto split: if_splits)

lemma stored_last: "s \<noteq> [] \<Longrightarrow> length s \<le> length buf \<Longrightarrow> stored 0 s buf ! (length s - 1) = last s"
  by (simp add: stored_def nth_append last_conv_nth)

lemma read_body_frame:
  assumes "frameable s" and "length buf = BUFMAX + 1"
  shows "read_body \<lparr>r_ch = d, r_count = 0, r_sum = 0, r_buf = buf\<rparr> (s @ CHR ''#'' # inp) =
    Some (\<lparr>r_ch = CHR ''#'', r_count = length s, r_sum = checksum_of s, r_buf = stored 0 s buf\<rparr>, inp)"
proof -
  let ?r = "\<lparr>r_ch = d, r_count = 0, r_sum = 0, r_buf = buf\<rparr>"
  have f: "CHR ''#'' \<notin> set s" "s = [] \<or> last s \<noteq> CHR 0x7d" "length s < BUFMAX" using assms(1) by (simp_all add: frameable_def)
  obtain r where r: "read_body ?r (s @ CHR ''#'' # inp) = read_body r (CHR ''#'' # inp)" "r_count r = length s" "r_sum r = checksum_of s"
    "r_buf r = stored 0 s buf" using read_body_store [OF f(1), of ?r "CHR ''#'' # inp"] f(3) assms(2) by (auto simp: checksum_of_def)
  have "length (stored 0 s buf) = BUFMAX + 1" using f(3) assms(2) by (simp add: stored_def)
  moreover have "length s = 0 \<or> stored 0 s buf ! (length s - 1) \<noteq> CHR 0x7d" using f(2,3) stored_last [of s buf] assms(2) by auto
  ultimately have "read_body r (CHR ''#'' # inp) = Some (r\<lparr>r_ch := CHR ''#''\<rparr>, inp)" using r f(3) by (intro read_body_end) simp_all
  with r show ?thesis by (cases r) simp
qed

text \<open>The buffer with a packet in it.\<close>

definition received :: "string \<Rightarrow> bytes \<Rightarrow> bytes" where
  "received s buf = (stored 0 s buf)[length s := NUL]"

lemma length_received [simp]: "length s < BUFMAX \<Longrightarrow> length buf = BUFMAX + 1 \<Longrightarrow> length (received s buf) = BUFMAX + 1"
  by (simp add: received_def stored_def)

lemma received_body: "length s < length buf \<Longrightarrow> take (length s) (received s buf) = s \<and> received s buf ! length s = NUL"
  by (simp add: received_def stored_def)

lemma wait_start_noise: "\<forall>c \<in> set noise. byte7 c \<noteq> uchar (CHR ''$'') \<Longrightarrow> wait_start (noise @ CHR ''$'' # inp) = Some inp"
proof (induction noise)
  case Nil
  have "byte7 (CHR ''$'') = uchar (CHR ''$'')" by (simp add: byte7_def uchar_def)
  then show ?case by simp
qed simp

lemma packet_round_frame:
  assumes "frameable s" and "length buf = BUFMAX + 1" and "\<forall>c \<in> set noise. byte7 c \<noteq> uchar (CHR ''$'')"
  shows "packet_round buf (noise @ CHR ''$'' # s @ CHR ''#'' # a # b # inp) =
    (if checksum_of s \<noteq> check_digits a b then Some (received s buf, False, inp, ''-'')
     else do { (buf, seq) \<leftarrow> strip_sequence (received s buf); Some (buf, True, inp, CHR ''+'' # seq) })"
proof -
  have "length s < BUFMAX" using assms(1) by (simp add: frameable_def)
  then have "length s < length (stored 0 s buf)" using assms(2) by (simp add: stored_def)
  then show ?thesis
    unfolding packet_round_def wait_start_noise [OF assms(3)] using read_body_frame [OF assms(1,2)]
    by (simp add: received_def check_digits_def Let_def)
qed

lemma check_digits_ok: "check_digits (hexdigit (uint c div 16)) (hexdigit (uint c mod 16)) = (c :: u8)"
proof -
  have c: "0 \<le> uint c" "uint c < 256" using uint_lt2p [of c] by simp_all
  then have "0 \<le> uint c div 16" "uint c div 16 < 16" "0 \<le> uint c mod 16" "uint c mod 16 < 16" by (simp_all add: pos_imp_zdiv_nonneg_iff)
  then have "check_digits (hexdigit (uint c div 16)) (hexdigit (uint c mod 16)) = word_of_int (push_bit 4 (uint c div 16)) + word_of_int (uint c mod 16)"
    by (simp add: check_digits_def hex_hexdigit)
  also have "\<dots> = word_of_int (push_bit 4 (uint c div 16) + uint c mod 16)" by (simp only: of_int_add)
  also have "push_bit 4 (uint c div 16) + uint c mod 16 = uint c" by (simp add: push_bit_eq_mult)
  finally show ?thesis by simp
qed

text \<open>A copy of a packet that the line has damaged: the digits at its end do not fit.\<close>

definition line_copy :: "string \<times> char \<times> char \<Rightarrow> string" where
  "line_copy = (\<lambda>(s, a, b). CHR ''$'' # s @ [CHR ''#'', a, b])"

definition damaged :: "string \<times> char \<times> char \<Rightarrow> bool" where
  "damaged = (\<lambda>(s, a, b). frameable s \<and> checksum_of s \<noteq> check_digits a b)"

text \<open>The third character in the buffer decides whether the receiver sees a sequence number.\<close>

definition no_sequence :: "string \<Rightarrow> bool" where
  "no_sequence s \<longleftrightarrow> 2 \<le> length s \<and> (length s = 2 \<or> s ! 2 \<noteq> CHR '':'')"

lemma no_sequence_strip:
  assumes "no_sequence s" and "length s < BUFMAX" and "length buf = BUFMAX + 1"
  shows "strip_sequence (received s buf) = Some (received s buf, [])"
proof -
  have "2 < length (received s buf)" using assms by (simp add: BUFMAX_def)
  moreover have "received s buf ! 2 \<noteq> CHR '':''"
    using assms by (cases "length s = 2") (auto simp: no_sequence_def received_def stored_def nth_append nth_list_update)
  ultimately show ?thesis by (simp add: strip_sequence_def)
qed

lemma getpacket_frames:
  assumes "frameable s" and "no_sequence s" and "length buf = BUFMAX + 1" and "\<forall>c \<in> set noise. byte7 c \<noteq> uchar (CHR ''$'')"
    and "\<forall>d \<in> set ds. damaged d"
  shows "\<exists>buf'. getpacket buf (noise @ concat (map line_copy ds) @ packet s @ inp) = Some (buf', inp, replicate (length ds) (CHR ''-'') @ ''+'') \<and>
    take (length s) buf' = s \<and> buf' ! length s = NUL"
  using assms(3-5)
proof (induction ds arbitrary: buf noise)
  case Nil
  have l: "length s < BUFMAX" using assms(1) by (simp add: frameable_def)
  have "packet_round buf (noise @ packet s @ inp) = Some (received s buf, True, inp, ''+'')"
    using packet_round_frame [OF assms(1) Nil.prems(1,2)] no_sequence_strip [OF assms(2) l Nil.prems(1)]
    by (simp add: packet_def check_digits_ok)
  then have "getpacket buf (noise @ packet s @ inp) = Some (received s buf, inp, ''+'')" by (subst getpacket.simps) simp
  then show ?case using received_body [of s buf] l Nil.prems(1) by simp
next
  case (Cons d ds)
  obtain b x y where d: "d = (b, x, y)" by (cases d)
  have bad: "frameable b" "checksum_of b \<noteq> check_digits x y" using Cons.prems(3) by (simp_all add: d damaged_def)
  let ?rest = "concat (map line_copy ds) @ packet s @ inp"
  have r: "packet_round buf (noise @ line_copy d @ ?rest) = Some (received b buf, False, ?rest, ''-'')"
    using packet_round_frame [OF bad(1) Cons.prems(1,2), of x y ?rest] bad(2) by (simp add: d line_copy_def)
  have "length (received b buf) = BUFMAX + 1" using bad(1) Cons.prems(1) by (simp add: frameable_def)
  from Cons.IH [OF this, of "[]"] Cons.prems(3) obtain buf' where
    "getpacket (received b buf) ?rest = Some (buf', inp, replicate (length ds) (CHR ''-'') @ ''+'')" "take (length s) buf' = s" "buf' ! length s = NUL"
    by auto
  with r show ?case by (subst getpacket.simps) simp
qed

lemma send_until_ok:
  assumes "\<forall>c \<in> set nacks. byte7 c \<noteq> uchar (CHR ''+'')"
  shows "send_until p (nacks @ CHR ''+'' # inp) = Some (concat (replicate (Suc (length nacks)) p), inp)"
  using assms
proof (induction nacks)
  case Nil
  have "byte7 (CHR ''+'') = uchar (CHR ''+'')" by (simp add: byte7_def uchar_def)
  then show ?case by simp
qed simp

text \<open>
  C14. A packet of the stub survives the line to a receiver that is the stub's own \<^verbatim>\<open>getpacket\<close>. The pieces of the packet are sent in an encoding that gives them back
  when runs are expanded; the packet is repeated until the answer is a plus sign; and the receiver, after any noise without a dollar sign and any damaged copies (framed bodies
  with a wrong checksum), each of which it refuses with a minus sign, accepts the packet with a plus sign and has its body, as encoded, in the buffer, with an end mark.

  The encoded body has at least 2 and fewer than 400 characters, no \<^verbatim>\<open>#\<close>, no \<^verbatim>\<open>}\<close> at its end (\<open>frameable\<close>), and its third character is not a colon (\<open>no_sequence\<close>): for
  shorter ones or with a colon the receiver takes the beginning for a sequence number (\<open>stale_sequence\<close>). Runs are part of the body as they are sent; a run of eight has the count \<^verbatim>\<open>$\<close>,
  which a debugger on the other side may take for the start of a packet (\<open>run_of_eight_is_dollar\<close>), but \<^verbatim>\<open>getpacket\<close> does not.
\<close>

theorem packet_exchange:
  assumes "\<forall>f \<in> set fs. frag_ok f" and "\<And>s. send_frags fs = Some s \<Longrightarrow> frameable s \<and> no_sequence s" and "length buf = BUFMAX + 1"
    and "\<forall>c \<in> set noise. byte7 c \<noteq> uchar (CHR ''$'')" and "\<forall>d \<in> set ds. damaged d"
  shows "\<exists>s buf' acks. send_frags fs = Some s \<and> expand s = concat (map plain fs) \<and>
    getpacket buf (noise @ concat (map line_copy ds) @ packet s @ inp) = Some (buf', inp, acks) \<and>
    take (length s) buf' = s \<and> buf' ! length s = NUL \<and>
    putfrags fs (acks @ inp) = Some (concat (replicate (Suc (length ds)) (packet s)), inp)"
proof -
  obtain s where s: "send_frags fs = Some s" "expand s = concat (map plain fs)" using send_frags_ok [OF assms(1)] by blast
  let ?acks = "replicate (length ds) (CHR ''-'') @ ''+''"
  have "frameable s" "no_sequence s" using assms(2) [OF s(1)] by simp_all
  from getpacket_frames [OF this assms(3-5), of inp] obtain buf' where
    b: "getpacket buf (noise @ concat (map line_copy ds) @ packet s @ inp) = Some (buf', inp, ?acks)" "take (length s) buf' = s" "buf' ! length s = NUL"
    by blast
  have "byte7 (CHR ''-'') \<noteq> uchar (CHR ''+'')" by (simp add: byte7_def uchar_def)
  then have "putfrags fs (?acks @ inp) = Some (concat (replicate (Suc (length ds)) (packet s)), inp)"
    using send_until_ok [of "replicate (length ds) (CHR ''-'')" "packet s" inp] s(1) by (simp add: putfrags_def del: replicate_Suc)
  with s b show ?thesis by blast
qed

theorem packet_exchange_witness:
  "\<exists>s buf' acks. send_frags [\<lparr>f_data = ''T'' @ [NUL], f_len = 0, f_hex = False\<rparr>, \<lparr>f_data = [CHR 0x05], f_len = 1, f_hex = True\<rparr>] = Some s \<and>
    getpacket (replicate 401 NUL) (''+'' @ concat (map line_copy [(''T25'', CHR ''b'', CHR ''9'')]) @ packet s @ ''xyz'') = Some (buf', ''xyz'', acks) \<and>
    take (length s) buf' = s \<and> expand s = ''T05'' \<and>
    putfrags [\<lparr>f_data = ''T'' @ [NUL], f_len = 0, f_hex = False\<rparr>, \<lparr>f_data = [CHR 0x05], f_len = 1, f_hex = True\<rparr>] (acks @ ''xyz'') =
      Some (packet s @ packet s, ''xyz'')"
proof -
  let ?fs = "[\<lparr>f_data = ''T'' @ [NUL], f_len = 0, f_hex = False\<rparr>, \<lparr>f_data = [CHR 0x05], f_len = 1, f_hex = True\<rparr>]"
  have s: "send_frags ?fs = Some ''T05''" by code_simp
  have "frameable ''T05''" by code_simp
  moreover have "no_sequence ''T05''" by code_simp
  moreover have "\<forall>f \<in> set ?fs. frag_ok f" by code_simp
  moreover have "\<forall>c \<in> set ''+''. byte7 c \<noteq> uchar (CHR ''$'')" by code_simp
  moreover have "\<forall>d \<in> set [(''T25'', CHR ''b'', CHR ''9'')]. damaged d" by code_simp
  moreover have "length (replicate 401 NUL) = BUFMAX + 1" by (simp add: BUFMAX_def)
  ultimately obtain s buf' acks where p: "send_frags ?fs = Some s"
    "getpacket (replicate 401 NUL) (''+'' @ concat (map line_copy [(''T25'', CHR ''b'', CHR ''9'')]) @ packet s @ ''xyz'') = Some (buf', ''xyz'', acks)"
    "take (length s) buf' = s" "putfrags ?fs (acks @ ''xyz'') = Some (concat (replicate (Suc (length [(''T25'', CHR ''b'', CHR ''9'')])) (packet s)), ''xyz'')"
    using packet_exchange [of ?fs "replicate 401 NUL" "''+''" "[(''T25'', CHR ''b'', CHR ''9'')]" "''xyz''"] s by fastforce
  have "expand ''T05'' = ''T05''" by code_simp
  moreover have "s = ''T05''" using p(1) s by simp
  moreover have "concat (replicate (Suc (length [(''T25'', CHR ''b'', CHR ''9'')])) (packet s)) = packet s @ packet s" by simp
  ultimately show ?thesis using p by metis
qed

text \<open>
  Four equal bytes are sent as a run of eight digits, whose count is a dollar sign; the stub of gdb takes that for the start of a packet.
\<close>

lemma run_of_eight_is_dollar:
  "send_frags [\<lparr>f_data = [NUL, NUL, NUL, NUL, CHR 0x01], f_len = 5, f_hex = True\<rparr>] = Some ''0*$01''"
  by code_simp

text \<open>A body that fills the buffer is accepted without its checksum if the bytes sum up to 255.\<close>

lemma full_buffer_accepted:
  assumes "CHR ''#'' \<notin> set s" and "length s = BUFMAX" and "checksum_of s = -1" and "length buf = BUFMAX + 1"
  shows "getpacket buf (CHR ''$'' # s @ inp) = Some (s @ [NUL], inp, [])"
proof -
  let ?r = "\<lparr>r_ch = CHR ''$'', r_count = 0, r_sum = 0, r_buf = buf\<rparr>"
  have ne: "s \<noteq> []" using assms(2) by (auto simp: BUFMAX_def)
  obtain r where r: "read_body ?r (s @ inp) = read_body r inp" "r_count r = BUFMAX" "r_sum r = -1" "r_buf r = stored 0 s buf" "r_ch r = last s"
    using read_body_store [OF assms(1), of ?r inp] assms(2-4) ne by (fastforce simp: checksum_of_def)
  have "read_body r inp = Some (r, inp)" using r(2) by (subst read_body.simps) simp
  moreover have "last s \<noteq> CHR ''#''" using assms(1) ne last_in_set by metis
  moreover have "length (drop BUFMAX buf) = 1" using assms(4) by simp
  then obtain x where "drop BUFMAX buf = [x]" by (cases "drop BUFMAX buf"; cases "tl (drop BUFMAX buf)") auto
  then have "st (stored 0 s buf) BUFMAX NUL = Some (s @ [NUL])" using assms(2) by (simp add: stored_def list_update_append)
  moreover have "wait_start (CHR ''$'' # s @ inp) = Some (s @ inp)" using wait_start_noise [of "[]"] by simp
  ultimately have "packet_round buf (CHR ''$'' # s @ inp) = Some (s @ [NUL], True, inp, [])" using r by (simp add: packet_round_def)
  then show ?thesis by (subst getpacket.simps) simp
qed

text \<open>A command of one character with an old colon behind it: a sequence number is sent back that was not there.\<close>

lemma stale_sequence:
  assumes "length buf = BUFMAX + 1" and "buf ! 2 = CHR '':''"
  shows "getpacket buf (packet ''g'' @ inp) = Some (received ''g'' buf, inp, [CHR ''+'', CHR ''g'', NUL])"
proof -
  have l: "length (received ''g'' buf) = BUFMAX + 1" using assms(1) by (simp add: BUFMAX_def)
  have b: "received ''g'' buf ! 0 = CHR ''g''" "received ''g'' buf ! 1 = NUL" "received ''g'' buf ! 2 = buf ! 2"
    using assms(1) by (simp_all add: received_def stored_def BUFMAX_def nth_append numeral_2_eq_2)
  have "strlen (received ''g'' buf) 0 = Some 1" using l b(1,2) by (simp add: strlen_def strlen_loop.simps BUFMAX_def)
  then have "strip_sequence (received ''g'' buf) = Some (received ''g'' buf, [CHR ''g'', NUL])"
    using l b assms(2) by (simp add: strip_sequence_def BUFMAX_def)
  moreover have "frameable ''g''" by code_simp
  ultimately have "packet_round buf (packet ''g'' @ inp) = Some (received ''g'' buf, True, inp, [CHR ''+'', CHR ''g'', NUL])"
    using packet_round_frame [of "''g''" buf "[]"] assms(1) by (simp add: packet_def check_digits_ok)
  then show ?thesis by (subst getpacket.simps) simp
qed

end
