(* ===== verification/Gdb_memory.thy ===== *)
theory Gdb_memory
  imports Gdb_packet
begin

unbundle bit_operations_syntax

text \<open>
  The memory of the program under the debugger (\<^verbatim>\<open>kernel/gdb_serial_support.c\<close>): translation of its addresses through the page tables and copies,
  one page at a time. \<open>mem\<close> is the physical memory; the copies turn paging off while they run.
\<close>

section \<open>Translation\<close>

type_synonym memory = "u32 \<Rightarrow> char"

definition INTEL_OFFMASK :: u32 where "INTEL_OFFMASK = 0xfff"
definition PDESHIFT :: nat where "PDESHIFT = 22"
definition PDEMASK :: u32 where "PDEMASK = 0x3ff"
definition PTESHIFT :: nat where "PTESHIFT = 12"
definition PTEMASK :: u32 where "PTEMASK = 0x3ff"
definition INTEL_PTE_VALID :: u32 where "INTEL_PTE_VALID = 1"
definition INTEL_PTE_PFN :: u32 where "INTEL_PTE_PFN = 0xfffff000"
definition INTEL_PDE_VALID :: u32 where "INTEL_PDE_VALID = 1"
definition INTEL_PDE_SUPERPAGE :: u32 where "INTEL_PDE_SUPERPAGE = 0x80"
definition INTEL_PDE_PFN :: u32 where "INTEL_PDE_PFN = 0xfffff000"
definition SUPERPAGE_SIZE :: u32 where "SUPERPAGE_SIZE = push_bit PDESHIFT 1"
definition SUPERPAGE_MASK :: u32 where "SUPERPAGE_MASK = SUPERPAGE_SIZE - 1"

definition lin2pdenum :: "u32 \<Rightarrow> u32" where "lin2pdenum a = drop_bit PDESHIFT a AND PDEMASK"
definition lin2ptenum :: "u32 \<Rightarrow> u32" where "lin2ptenum a = drop_bit PTESHIFT a AND PTEMASK"
definition pte_to_pa :: "u32 \<Rightarrow> u32" where "pte_to_pa p = p AND INTEL_PTE_PFN"
definition pde_to_pa :: "u32 \<Rightarrow> u32" where "pde_to_pa p = p AND INTEL_PDE_PFN"
definition trunc_superpage :: "u32 \<Rightarrow> u32" where "trunc_superpage x = x AND NOT SUPERPAGE_MASK"

definition load_word :: "memory \<Rightarrow> u32 \<Rightarrow> u32" where
  "load_word mem a = (\<Sum>i<4. push_bit (8 * i) (word_of_int (uchar (mem (a + of_nat i)))))"

text \<open>\<^verbatim>\<open>client_cr0\<close> and \<^verbatim>\<open>client_cr3\<close>.\<close>

record paging =
  client_cr0 :: u32
  client_cr3 :: u32

text \<open>The physical address and the number of bytes that follow it in its page; 0 when there is no page.\<close>

definition phys_addr_lookup :: "paging \<Rightarrow> memory \<Rightarrow> u32 \<Rightarrow> u32 \<times> u32" where
  "phys_addr_lookup pg mem vaddr =
     (let pd = pde_to_pa (client_cr3 pg);
          pde = load_word mem (pd + 4 * lin2pdenum vaddr)
      in if client_cr0 pg AND 0x80000000 = 0 then (vaddr, 0xffffffff)
         else if pde AND INTEL_PDE_VALID = 0 then (0, 0)
         else if pde AND INTEL_PDE_SUPERPAGE = 0 then
           let pt = pde_to_pa pde;
               pte = load_word mem (pt + 4 * lin2ptenum vaddr);
               offs = vaddr AND INTEL_OFFMASK
           in if pte AND INTEL_PTE_VALID = 0 then (0, 0)
              else (pte_to_pa pte + offs, INTEL_OFFMASK + 1 - offs)
         else
           let offs = vaddr AND SUPERPAGE_MASK
           in (trunc_superpage pde + offs, SUPERPAGE_SIZE - offs))"

definition copy_client_paging_registers :: "u32 \<Rightarrow> u32 \<Rightarrow> u32 \<Rightarrow> paging" where
  "copy_client_paging_registers cr0 cr3 cr4 = \<lparr>client_cr0 = cr0, client_cr3 = cr3\<rparr>"

section \<open>Copies\<close>

definition load_block :: "memory \<Rightarrow> u32 \<Rightarrow> u32 \<Rightarrow> bytes" where
  "load_block mem a n = map (\<lambda>i. mem (a + of_nat i)) [0..<unat n]"

definition store_block :: "memory \<Rightarrow> u32 \<Rightarrow> bytes \<Rightarrow> memory" where
  "store_block mem a bs = fold (\<lambda>i mem. mem(a + of_nat i := bs ! i)) [0..<length bs] mem"

lemma page_shorter: "(k :: u32) \<noteq> 0 \<Longrightarrow> k \<le> n \<Longrightarrow> unat (n - k) < unat n"
proof -
  assume k: "k \<noteq> 0" "k \<le> n"
  then have "0 < unat k" "unat k \<le> unat n" by (simp_all add: unat_gt_0 word_le_nat_alt)
  then show ?thesis using k(2) by (simp add: unat_sub)
qed

text \<open>Whether the copy succeeds, and the bytes that are copied before it fails.\<close>

function gdb_copyin :: "paging \<Rightarrow> memory \<Rightarrow> u32 \<Rightarrow> u32 \<Rightarrow> bool \<times> bytes" where
  "gdb_copyin pg mem src_va len =
     (if len = 0 then (True, [])
      else let (pa, sz) = phys_addr_lookup pg mem src_va
           in if sz = 0 then (False, [])
              else let sz = (if sz > len then len else sz);
                       (ok, bs) = gdb_copyin pg mem (src_va + sz) (len - sz)
                   in (ok, load_block mem pa sz @ bs))"
  by pat_completeness auto
termination
proof (relation "measure (\<lambda>(pg, mem, va, len). unat len)", goal_cases)
  case (2 pg mem src_va len x pa sz sz')
  then have "sz' \<noteq> 0" "sz' \<le> len" by (auto split: if_splits)
  then show ?case by (simp add: page_shorter)
qed simp

function gdb_copyout :: "paging \<Rightarrow> memory \<Rightarrow> bytes \<Rightarrow> u32 \<Rightarrow> u32 \<Rightarrow> bool \<times> memory" where
  "gdb_copyout pg mem src dest_va len =
     (if len = 0 then (True, mem)
      else let (pa, sz) = phys_addr_lookup pg mem dest_va
           in if sz = 0 then (False, mem)
              else let sz = (if sz > len then len else sz)
                   in gdb_copyout pg (store_block mem pa (take (unat sz) src)) (drop (unat sz) src) (dest_va + sz) (len - sz))"
  by pat_completeness auto
termination
proof (relation "measure (\<lambda>(pg, mem, src, va, len). unat len)", goal_cases)
  case (2 pg mem src dest_va len x pa sz sz')
  then have "sz' \<noteq> 0" "sz' \<le> len" by (auto split: if_splits)
  then show ?case by (simp add: page_shorter)
qed simp

declare gdb_copyin.simps [simp del] gdb_copyout.simps [simp del]

section \<open>The copies byte by byte\<close>

text \<open>The physical address of one byte.\<close>

definition phys :: "paging \<Rightarrow> memory \<Rightarrow> u32 \<Rightarrow> u32 option" where
  "phys pg mem va = (let (pa, sz) = phys_addr_lookup pg mem va in if sz = 0 then None else Some pa)"

lemma unat_mask: "unat (x AND mask k) = unat x mod 2 ^ k" for x :: u32
proof -
  have "unat (x AND mask k) = take_bit k (unat x)" by (simp add: unsigned_take_bit_eq flip: take_bit_eq_mask)
  then show ?thesis by (simp add: take_bit_eq_mod)
qed

lemma page_rest:
  assumes "k < 32"
  shows "unat (2 ^ k - (x AND mask k)) = 2 ^ k - unat (x AND mask k)" "2 ^ k - (x AND mask k) \<noteq> (0 :: u32)"
proof -
  have "(2::nat) ^ k < 2 ^ 32" using assms by (intro power_strict_increasing) simp_all
  then have "unat (of_nat (2 ^ k) :: u32) = 2 ^ k" unfolding unat_of_nat by simp
  then have p: "unat (2 ^ k :: u32) = 2 ^ k" by simp
  have l: "unat (x AND mask k) < 2 ^ k" by (simp add: unat_mask)
  then have "(x AND mask k) \<le> 2 ^ k" using p by (simp add: word_le_nat_alt)
  then show e: "unat (2 ^ k - (x AND mask k)) = 2 ^ k - unat (x AND mask k)" by (simp add: unat_sub p)
  then show "2 ^ k - (x AND mask k) \<noteq> (0 :: u32)" using l by auto
qed

lemma in_page:
  fixes va :: u32
  assumes "k \<le> 32" and "unat (va AND mask k) + i < 2 ^ k"
  shows "drop_bit k (va + of_nat i) = drop_bit k va" "(va + of_nat i) AND mask k = (va AND mask k) + of_nat i"
proof -
  define q where "q = unat va div 2 ^ k"
  define r where "r = unat va mod 2 ^ k"
  have r: "unat (va AND mask k) = r" by (simp add: r_def unat_mask)
  have v: "unat va = q * 2 ^ k + r" unfolding q_def r_def by (simp only: div_mult_mod_eq)
  have i: "r + i < 2 ^ k" using assms(2) r by simp
  have pow: "(2::nat) ^ 32 = 2 ^ (32 - k) * 2 ^ k" using assms(1) by (simp flip: power_add)
  have "unat va < 2 ^ 32" using unsigned_less [of va] by simp
  then have "q < 2 ^ (32 - k)" unfolding q_def pow by (simp add: less_mult_imp_div_less)
  then have "(q + 1) * 2 ^ k \<le> 2 ^ 32" unfolding pow by (intro mult_right_mono) simp_all
  then have l: "unat va + i < 2 ^ 32" using v i by simp
  then have "i < 2 ^ 32" by simp
  then have u: "unat (va + of_nat i) = unat va + i" using l by (simp add: unat_word_ariths unat_of_nat)
  have e: "unat va + i = q * 2 ^ k + (r + i)" using v by simp
  have d: "(unat va + i) div 2 ^ k = q" "(unat va + i) mod 2 ^ k = r + i" unfolding e using i by simp_all
  have ud: "unat (drop_bit k x) = unat x div 2 ^ k" for x :: u32
  proof -
    have "unat x < 2 ^ 32" using unsigned_less [of x] by simp
    then have "unat (drop_bit k x) = drop_bit k (unat x)" by (simp add: unsigned_drop_bit_eq take_bit_nat_eq_self)
    then show ?thesis by (simp add: drop_bit_eq_div)
  qed
  have "unat (drop_bit k (va + of_nat i)) = unat (drop_bit k va)" by (simp only: ud u d(1)) (simp only: q_def)
  then show "drop_bit k (va + of_nat i) = drop_bit k va" by (metis word_unat_eq_iff)
  have "unat ((va + of_nat i) AND mask k) = r + i"
    by (simp add: unat_mask u d(2))
  moreover have "r + i < 2 ^ 32" using i power_increasing [OF assms(1), of "2::nat"] by simp
  then have "unat ((va AND mask k) + of_nat i) = r + i" using \<open>i < 2 ^ 32\<close> by (simp add: unat_word_ariths unat_of_nat r)
  ultimately show "(va + of_nat i) AND mask k = (va AND mask k) + of_nat i" by (metis word_unat_eq_iff)
qed

lemma lookup_next:
  assumes "phys_addr_lookup pg mem va = (pa, sz)" and "i < unat sz"
  shows "phys pg mem (va + of_nat i) = Some (pa + of_nat i)"
proof (cases "client_cr0 pg AND 0x80000000 = 0")
  case True
  then show ?thesis using assms(1) by (simp add: phys_def phys_addr_lookup_def Let_def)
next
  case pg: False
  define pde where "pde = load_word mem (pde_to_pa (client_cr3 pg) + 4 * lin2pdenum va)"
  have sz: "sz \<noteq> 0" using assms(2) by auto
  have m12: "INTEL_OFFMASK = mask 12" and m22: "SUPERPAGE_MASK = mask 22" and s22: "SUPERPAGE_SIZE = 2 ^ 22"
    by (simp_all add: INTEL_OFFMASK_def SUPERPAGE_MASK_def SUPERPAGE_SIZE_def PDESHIFT_def mask_eq_exp_minus_1 push_bit_eq_mult)
  have v: "pde AND INTEL_PDE_VALID \<noteq> 0" using assms(1) sz pg by (auto simp: phys_addr_lookup_def Let_def pde_def split: if_splits)
  show ?thesis
  proof (cases "pde AND INTEL_PDE_SUPERPAGE = 0")
    case True
    define pte where "pte = load_word mem (pde_to_pa pde + 4 * lin2ptenum va)"
    have r: "pte AND INTEL_PTE_VALID \<noteq> 0" "pa = pte_to_pa pte + (va AND mask 12)" "sz = INTEL_OFFMASK + 1 - (va AND mask 12)"
      using assms(1) sz pg v True by (auto simp: phys_addr_lookup_def Let_def pde_def pte_def m12 split: if_splits)
    have s12: "INTEL_OFFMASK + 1 = 2 ^ 12" by (simp add: INTEL_OFFMASK_def)
    have "i < 2 ^ 12 - unat (va AND mask 12)" using assms(2) unfolding r(3) s12 using page_rest(1) [of 12 va] by simp
    then have i: "unat (va AND mask 12) + i < 2 ^ 12" by simp
    note n = in_page [OF _ i, simplified]
    have "drop_bit 22 (va + of_nat i) = drop_bit 10 (drop_bit 12 (va + of_nat i))" by simp
    also have "\<dots> = drop_bit 22 va" unfolding n(1) by simp
    finally have "lin2pdenum (va + of_nat i) = lin2pdenum va" "lin2ptenum (va + of_nat i) = lin2ptenum va"
      using n(1) by (simp_all add: lin2pdenum_def lin2ptenum_def PDESHIFT_def PTESHIFT_def)
    then have "phys_addr_lookup pg mem (va + of_nat i) =
        (pte_to_pa pte + ((va + of_nat i) AND mask 12), 2 ^ 12 - ((va + of_nat i) AND mask 12))"
      using pg v True r(1) by (simp add: phys_addr_lookup_def Let_def pde_def [symmetric] pte_def [symmetric] m12 [symmetric] s12 del: mask_numeral)
    then show ?thesis using page_rest(2) [of 12 "va + of_nat i"] n(2) by (simp add: phys_def r(2) add.assoc)
  next
    case False
    have r: "pa = trunc_superpage pde + (va AND mask 22)" "sz = 2 ^ 22 - (va AND mask 22)"
      using assms(1) sz pg v False by (auto simp: phys_addr_lookup_def Let_def pde_def m22 s22 split: if_splits)
    have "i < 2 ^ 22 - unat (va AND mask 22)" using assms(2) unfolding r(2) using page_rest(1) [of 22 va] by simp
    then have i: "unat (va AND mask 22) + i < 2 ^ 22" by simp
    note n = in_page [OF _ i, simplified]
    have "lin2pdenum (va + of_nat i) = lin2pdenum va" using n(1) by (simp add: lin2pdenum_def PDESHIFT_def)
    then have "phys_addr_lookup pg mem (va + of_nat i) =
        (trunc_superpage pde + ((va + of_nat i) AND mask 22), 2 ^ 22 - ((va + of_nat i) AND mask 22))"
      using pg v False by (simp add: phys_addr_lookup_def Let_def pde_def [symmetric] m22 s22)
    then show ?thesis using page_rest(2) [of 22 "va + of_nat i"] n(2) by (simp add: phys_def r(1) add.assoc)
  qed
qed

lemma phys_none: "phys_addr_lookup pg mem va = (pa, 0) \<Longrightarrow> phys pg mem va = None"
  by (simp add: phys_def)

lemma load_block_nth: "i < unat n \<Longrightarrow> load_block mem a n ! i = mem (a + of_nat i)"
  by (simp add: load_block_def)

lemma length_load_block [simp]: "length (load_block mem a n) = unat n"
  by (simp add: load_block_def)

text \<open>A loop over the bytes, split at the end of the page.\<close>

lemma upt_split: "(k :: nat) \<le> n \<Longrightarrow> [0..<n] = [0..<k] @ map ((+) k) [0..<n - k]"
  by (rule nth_equalityI) (auto simp: nth_append)

lemma all_split: "(k :: nat) \<le> n \<Longrightarrow> (\<forall>i<n. P i) \<longleftrightarrow> (\<forall>i<k. P i) \<and> (\<forall>i<n - k. P (k + i))"
  by (metis add_diff_inverse_nat less_diff_conv2 nat_add_left_cancel_less not_less order_less_le_trans)

lemma copyin_bytewise:
  "gdb_copyin pg mem va n = (ok, bs) \<Longrightarrow>
   ok = (\<forall>i < unat n. phys pg mem (va + of_nat i) \<noteq> None) \<and>
   (ok \<longrightarrow> bs = map (\<lambda>i. mem (the (phys pg mem (va + of_nat i)))) [0..<unat n])"
proof (induction pg mem va n arbitrary: ok bs rule: gdb_copyin.induct)
  case (1 pg mem va n)
  obtain pa sz where l: "phys_addr_lookup pg mem va = (pa, sz)" by fastforce
  let ?ph = "\<lambda>i. phys pg mem (va + of_nat i)"
  consider "n = 0" | "n \<noteq> 0" "sz = 0" | "n \<noteq> 0" "sz \<noteq> 0" by blast
  then show ?case
  proof cases
    case n0: 1
    then show ?thesis using 1 by (simp add: gdb_copyin.simps)
  next
    case 2
    have "?ph 0 = None" using phys_none [of pg mem va] l 2 by simp
    moreover have "0 < unat n" using 2 by (simp add: unat_gt_0)
    moreover have "ok = False" using 1 l 2 by (simp add: gdb_copyin.simps [of pg mem va])
    ultimately show ?thesis by blast
  next
    case 3
    define k where "k = (if sz > n then n else sz)"
    have k: "unat k \<le> unat n" "k \<le> n" "unat k \<le> unat sz" by (auto simp: k_def word_le_nat_alt word_less_nat_alt)
    obtain bs' where c: "gdb_copyin pg mem (va + k) (n - k) = (ok, bs')" "bs = load_block mem pa k @ bs'"
      using 1 l 3 by (auto simp: gdb_copyin.simps [of pg mem va] Let_def k_def split: prod.splits if_splits)
    have here: "?ph i = Some (pa + of_nat i)" if "i < unat k" for i using lookup_next [OF l, of i] that k(3) by simp
    have there: "va + k + of_nat i = va + of_nat (unat k + i)" for i by (simp add: add.assoc)
    have d: "unat (n - k) = unat n - unat k" using k(2) by (simp add: unat_sub)
    have ih: "ok = (\<forall>i < unat n - unat k. ?ph (unat k + i) \<noteq> None)"
      "ok \<Longrightarrow> bs' = map (\<lambda>i. mem (the (?ph (unat k + i)))) [0..<unat n - unat k]"
      using 1(1) [OF 3(1) l [symmetric] refl 3(2) k_def c(1)] unfolding there d by blast+
    have all: "(\<forall>i < unat n. ?ph i \<noteq> None) \<longleftrightarrow> (\<forall>i < unat n - unat k. ?ph (unat k + i) \<noteq> None)"
      using all_split [OF k(1), of "\<lambda>i. ?ph i \<noteq> None"] here by simp
    have "load_block mem pa k = map (\<lambda>i. mem (the (?ph i))) [0..<unat k]" unfolding load_block_def by (rule map_cong [OF refl]) (simp add: here)
    then have "map (\<lambda>i. mem (the (?ph i))) [0..<unat n] = load_block mem pa k @ map (\<lambda>i. mem (the (?ph (unat k + i)))) [0..<unat n - unat k]"
      unfolding upt_split [OF k(1)] by (simp add: comp_def)
    with ih all c(2) show ?thesis by metis
  qed
qed

lemma store_block_other: "(\<And>i. i < length bs \<Longrightarrow> x \<noteq> a + of_nat i) \<Longrightarrow> store_block mem a bs x = mem x"
proof -
  assume x: "\<And>i. i < length bs \<Longrightarrow> x \<noteq> a + of_nat i"
  have "fold (\<lambda>i mem. mem(a + of_nat i := bs ! i)) [0..<n] mem x = mem x" if "n \<le> length bs" for n
    using that x by (induction n) auto
  then show ?thesis by (simp add: store_block_def)
qed

lemma store_block_at:
  assumes "inj_on (\<lambda>i. a + of_nat i) {..<length bs}" and "j < length bs"
  shows "store_block mem a bs (a + of_nat j) = bs ! j"
proof -
  have "fold (\<lambda>i mem. mem(a + of_nat i := bs ! i)) [0..<n] mem (a + of_nat j) = bs ! j" if "n \<le> length bs" "j < n" for n
    using that
  proof (induction n)
    case (Suc n)
    show ?case
    proof (cases "j = n")
      case False
      then have "a + of_nat j \<noteq> a + of_nat n" using assms Suc.prems inj_onD [OF assms(1), of j n] by auto
      then show ?thesis using Suc False by simp
    qed simp
  qed simp
  then show ?thesis using assms(2) by (simp add: store_block_def)
qed

text \<open>The tables that translate addresses are outside of \<open>S\<close>.\<close>

definition stable :: "paging \<Rightarrow> memory \<Rightarrow> u32 set \<Rightarrow> bool" where
  "stable pg mem S \<longleftrightarrow> (\<forall>mem'. (\<forall>a. a \<notin> S \<longrightarrow> mem' a = mem a) \<longrightarrow> phys_addr_lookup pg mem' = phys_addr_lookup pg mem)"

lemma stable_change:
  assumes "stable pg mem S" and "\<And>a. a \<notin> S \<Longrightarrow> mem' a = mem a"
  shows "stable pg mem' S" "phys_addr_lookup pg mem' = phys_addr_lookup pg mem" "phys pg mem' = phys pg mem"
proof -
  show l: "phys_addr_lookup pg mem' = phys_addr_lookup pg mem" using assms(1) [unfolded stable_def, THEN spec, of mem'] assms(2) by blast
  then show "phys pg mem' = phys pg mem" by (simp add: phys_def fun_eq_iff)
  show "stable pg mem' S" unfolding stable_def l
  proof (intro allI impI)
    fix m assume "\<forall>a. a \<notin> S \<longrightarrow> m a = mem' a"
    then have "\<forall>a. a \<notin> S \<longrightarrow> m a = mem a" using assms(2) by simp
    then show "phys_addr_lookup pg m = phys_addr_lookup pg mem" using assms(1) unfolding stable_def by blast
  qed
qed

lemma copyout_bytewise:
  assumes "stable pg mem S" and "length src = unat n" and "\<And>i. i < unat n \<Longrightarrow> \<exists>a \<in> S. phys pg mem (va + of_nat i) = Some a"
    and "inj_on (\<lambda>i. phys pg mem (va + of_nat i)) {..<unat n}"
  shows "\<exists>mem'. gdb_copyout pg mem src va n = (True, mem') \<and> (\<forall>i < unat n. mem' (the (phys pg mem (va + of_nat i))) = src ! i) \<and>
    (\<forall>a. (\<forall>i < unat n. phys pg mem (va + of_nat i) \<noteq> Some a) \<longrightarrow> mem' a = mem a)"
  using assms
proof (induction pg mem src va n rule: gdb_copyout.induct)
  case (1 pg mem src va n)
  obtain pa sz where l: "phys_addr_lookup pg mem va = (pa, sz)" by fastforce
  let ?ph = "\<lambda>i. phys pg mem (va + of_nat i)"
  show ?case
  proof (cases "n = 0")
    case True
    then show ?thesis by (simp add: gdb_copyout.simps)
  next
    case n: False
    then have "0 < unat n" by (simp add: unat_gt_0)
    then have sz: "sz \<noteq> 0" using 1(4) [of 0] phys_none [of pg mem va pa] l by (cases "sz = 0") auto
    define k where "k = (if sz > n then n else sz)"
    have k: "unat k \<le> unat n" "k \<le> n" "unat k \<le> unat sz" by (auto simp: k_def word_le_nat_alt word_less_nat_alt)
    have here: "?ph i = Some (pa + of_nat i)" if "i < unat k" for i using lookup_next [OF l, of i] that k(3) by simp
    have there: "va + k + of_nat i = va + of_nat (unat k + i)" for i by (simp add: add.assoc)
    have d: "unat (n - k) = unat n - unat k" using k(2) by (simp add: unat_sub)
    define m where "m = store_block mem pa (take (unat k) src)"
    have lt: "length (take (unat k) src) = unat k" using 1(3) k(1) by simp
    have "inj_on (\<lambda>i. pa + of_nat i) {..<unat k}"
    proof (rule inj_onI)
      fix i j assume "i \<in> {..<unat k}" "j \<in> {..<unat k}" "pa + of_nat i = pa + of_nat j"
      then have "?ph i = ?ph j" "i < unat n" "j < unat n" using here k(1) by simp_all
      then show "i = j" using inj_onD [OF 1(5)] by simp
    qed
    then have at: "m (pa + of_nat i) = src ! i" if "i < unat k" for i
      using store_block_at [of pa "take (unat k) src" i mem] lt that by (simp add: m_def)
    have other: "m a = mem a" if "\<And>i. i < unat k \<Longrightarrow> ?ph i \<noteq> Some a" for a
      unfolding m_def using that here lt by (intro store_block_other) fastforce
    have "m a = mem a" if a: "a \<notin> S" for a
    proof (rule other)
      fix i assume "i < unat k"
      then obtain b where "b \<in> S" "?ph i = Some b" using 1(4) [of i] k(1) by auto
      then show "?ph i \<noteq> Some a" using a by auto
    qed
    then have st: "stable pg m S" "phys pg m = phys pg mem" using stable_change [OF 1(2), of m] by blast+
    have "\<exists>mem'. gdb_copyout pg m (drop (unat k) src) (va + k) (n - k) = (True, mem') \<and>
      (\<forall>i < unat (n - k). mem' (the (phys pg m (va + k + of_nat i))) = drop (unat k) src ! i) \<and>
      (\<forall>a. (\<forall>i < unat (n - k). phys pg m (va + k + of_nat i) \<noteq> Some a) \<longrightarrow> mem' a = m a)"
      unfolding m_def
    proof (rule 1(1) [OF n l [symmetric] refl sz k_def], fold m_def)
      show "stable pg m S" by (rule st(1))
      show "length (drop (unat k) src) = unat (n - k)" using 1(3) d by simp
      show "\<exists>a \<in> S. phys pg m (va + k + of_nat i) = Some a" if "i < unat (n - k)" for i
        unfolding st(2) there using 1(4) [of "unat k + i"] that d by simp
      show "inj_on (\<lambda>i. phys pg m (va + k + of_nat i)) {..<unat (n - k)}"
        unfolding st(2) there
      proof (rule inj_onI)
        fix i j assume "i \<in> {..<unat (n - k)}" "j \<in> {..<unat (n - k)}" "?ph (unat k + i) = ?ph (unat k + j)"
        then show "i = j" using inj_onD [OF 1(5), of "unat k + i" "unat k + j"] d by simp
      qed
    qed
    then obtain mem' where m': "gdb_copyout pg m (drop (unat k) src) (va + k) (n - k) = (True, mem')"
      "\<And>i. i < unat n - unat k \<Longrightarrow> mem' (the (?ph (unat k + i))) = src ! (unat k + i)"
      "\<And>a. (\<forall>i < unat n - unat k. ?ph (unat k + i) \<noteq> Some a) \<Longrightarrow> mem' a = m a"
      using 1(3) k(1) unfolding st(2) there d by auto
    have "gdb_copyout pg mem src va n = (True, mem')"
      using m'(1) l n sz by (simp add: gdb_copyout.simps [of pg mem src va n] Let_def k_def m_def)
    moreover have "mem' (the (?ph i)) = src ! i" if i: "i < unat n" for i
    proof (cases "i < unat k")
      case False
      then show ?thesis using m'(2) [of "i - unat k"] i by simp
    next
      case True
      have "?ph (unat k + j) \<noteq> ?ph i" if "j < unat n - unat k" for j
      proof
        assume "?ph (unat k + j) = ?ph i"
        then have "unat k + j = i" using inj_onD [OF 1(5), of "unat k + j" i] that i by simp
        then show False using True by simp
      qed
      then have "mem' (pa + of_nat i) = m (pa + of_nat i)" using here [OF True] by (intro m'(3)) auto
      then show ?thesis using at [OF True] here [OF True] by simp
    qed
    moreover have "mem' a = mem a" if "\<forall>i < unat n. ?ph i \<noteq> Some a" for a
    proof -
      have "\<forall>i < unat n - unat k. ?ph (unat k + i) \<noteq> Some a" using that by (metis less_diff_conv add.commute)
      then show ?thesis using m'(3) [of a] other [of a] that k(1) by simp
    qed
    ultimately show ?thesis by blast
  qed
qed

lemma copyin_written:
  assumes "stable pg mem S" and "\<And>a. a \<notin> S \<Longrightarrow> mem' a = mem a" and "\<forall>i < length bs. mem' (the (phys pg mem (va + of_nat i))) = bs ! i"
    and "unat n = length bs" and "\<And>i. i < length bs \<Longrightarrow> phys pg mem (va + of_nat i) \<noteq> None"
  shows "gdb_copyin pg mem' va n = (True, bs)"
proof -
  have ph: "phys pg mem' = phys pg mem" using assms(2) by (rule stable_change(3) [OF assms(1)])
  obtain ok cs where c: "gdb_copyin pg mem' va n = (ok, cs)" by fastforce
  have "ok" using copyin_bytewise [OF c] assms(4,5) ph by simp
  moreover have "cs = map (\<lambda>i. mem' (the (phys pg mem (va + of_nat i)))) [0..<length bs]" using copyin_bytewise [OF c] \<open>ok\<close> ph assms(4) by simp
  then have "cs = bs" using assms(3) by (intro nth_equalityI) simp_all
  ultimately show ?thesis using c by simp
qed

text \<open>
  What the debugger writes into the memory of the program it reads back: if the page tables map the range, to distinct addresses outside of the tables, a copy
  out followed by a copy in succeeds and gives the bytes, and no byte elsewhere has changed.
\<close>

lemma copy_roundtrip:
  assumes "stable pg mem S" and "\<And>i. i < length bs \<Longrightarrow> \<exists>a \<in> S. phys pg mem (va + of_nat i) = Some a"
    and "inj_on (\<lambda>i. phys pg mem (va + of_nat i)) {..<length bs}" and "length bs < 2 ^ 32"
  shows "\<exists>mem'. gdb_copyout pg mem bs va (of_nat (length bs)) = (True, mem') \<and> gdb_copyin pg mem' va (of_nat (length bs)) = (True, bs) \<and>
    (\<forall>a. (\<forall>i < length bs. phys pg mem (va + of_nat i) \<noteq> Some a) \<longrightarrow> mem' a = mem a)"
proof -
  have n: "unat (of_nat (length bs) :: u32) = length bs" using assms(4) by (simp add: unat_of_nat)
  obtain mem' where m: "gdb_copyout pg mem bs va (of_nat (length bs)) = (True, mem')"
    "\<forall>i < length bs. mem' (the (phys pg mem (va + of_nat i))) = bs ! i"
    "\<forall>a. (\<forall>i < length bs. phys pg mem (va + of_nat i) \<noteq> Some a) \<longrightarrow> mem' a = mem a"
    using copyout_bytewise [OF assms(1), of bs "of_nat (length bs)" va] assms(2,3) n by auto
  have "mem' a = mem a" if "a \<notin> S" for a using m(3) assms(2) that by fastforce
  then have "gdb_copyin pg mem' va (of_nat (length bs)) = (True, bs)"
    by (rule copyin_written [OF assms(1) _ m(2) n]) (use assms(2) in force)+
  then show ?thesis using m by blast
qed

definition ex_paging :: paging where "ex_paging = \<lparr>client_cr0 = 0, client_cr3 = 0\<rparr>"

lemma copy_roundtrip_witness:
  "\<exists>mem'. gdb_copyout ex_paging (\<lambda>_. NUL) ''abc'' 0x1000 3 = (True, mem') \<and> gdb_copyin ex_paging mem' 0x1000 3 = (True, ''abc'')"
proof -
  have "phys_addr_lookup ex_paging mem va = (va, 0xffffffff)" for mem va by (simp add: phys_addr_lookup_def ex_paging_def Let_def)
  then have l: "phys ex_paging mem va = Some va" "stable ex_paging mem UNIV" for mem va by (simp_all add: phys_def stable_def fun_eq_iff)
  have "{..<length ''abc''} = {0, 1, 2}" by auto
  then have i: "inj_on (\<lambda>i. phys ex_paging (\<lambda>_. NUL) (0x1000 + of_nat i)) {..<length ''abc''}" unfolding l by (simp add: inj_on_def)
  show ?thesis using copy_roundtrip [OF l(2) _ i] l by auto
qed

end
