(* ===== verification/Gdb.thy ===== *)
theory Gdb
  imports Gdb_memory Cpu
begin

unbundle bit_operations_syntax

text \<open>
  The commands of the debugger (\<^verbatim>\<open>gdb_serial_converse\<close> and the reports in \<^verbatim>\<open>kernel/gdb_serial.c\<close>). The state of the stub holds its buffer, the parameters of
  the conversation and the memory of the program. The registers are the 64 bytes of \<^verbatim>\<open>struct gdb_state\<close>. \<open>None\<close> is an access outside of an array, or an answer
  that never comes.
\<close>

section \<open>State\<close>

datatype gdb_action = GDB_MORE | GDB_CONT | GDB_RUN | GDB_KILL | GDB_DETACH

definition NSIG :: int where "NSIG = 32"
definition EFL_TF :: u32 where "EFL_TF = 0x100"

definition EIP :: nat where "EIP = 8"
definition EFLAGS :: nat where "EFLAGS = 9"

record gdb_params =
  thread_id :: u32
  signo :: char
  regs :: bytes
  regs_changed :: int

text \<open>The callbacks that are there: the answer, an error code or 0, and what it makes of the parameters.\<close>

type_synonym callback = "gdb_params \<Rightarrow> u32 \<Rightarrow> char \<times> gdb_params"

record gdb_callbacks =
  thread_alive :: "callback option"
  thread_switch :: "callback option"

record gdb =
  g_inbuf :: bytes
  g_base :: u32
  g_connected :: int
  g_debug :: int
  g_par :: gdb_params
  g_paging :: paging
  g_mem :: memory

definition word_bytes :: "u32 \<Rightarrow> bytes" where
  "word_bytes w = map (\<lambda>i. to_char (uint (drop_bit (8 * i) w AND 0xff))) [0..<4]"

definition bytes_word :: "bytes \<Rightarrow> u32" where
  "bytes_word bs = foldr (\<lambda>b w. word_of_int (uchar b) OR push_bit 8 w) bs 0"

definition get_reg :: "nat \<Rightarrow> bytes \<Rightarrow> u32" where
  "get_reg i rs = bytes_word (take 4 (drop (4 * i) rs))"

text \<open>Bytes stored at an offset; \<open>None\<close> if they do not fit.\<close>

definition put_bytes :: "nat \<Rightarrow> bytes \<Rightarrow> bytes \<Rightarrow> bytes option" where
  "put_bytes k bs buf = (if k + length bs \<le> length buf then Some (take k buf @ bs @ drop (k + length bs) buf) else None)"

definition set_reg :: "nat \<Rightarrow> u32 \<Rightarrow> bytes \<Rightarrow> bytes" where
  "set_reg i w rs = take (4 * i) rs @ word_bytes w @ drop (4 * i + 4) rs"

definition gdb_set_trace_flag :: "bool \<Rightarrow> bytes \<Rightarrow> bytes" where
  "gdb_set_trace_flag enable rs =
     (if enable then set_reg EFLAGS (get_reg EFLAGS rs OR EFL_TF) rs else set_reg EFLAGS (get_reg EFLAGS rs AND NOT EFL_TF) rs)"

text \<open>What a command answers: the packets that end the switch, or no packet.\<close>

datatype reply = Ok_reply | Err_reply char | Unknown_reply | Data_reply "outfrag list" | No_reply

definition text_frag :: "string \<Rightarrow> outfrag" where
  "text_frag s = \<lparr>f_data = s @ [NUL], f_len = 0, f_hex = False\<rparr>"

definition hex_frag :: "bytes \<Rightarrow> nat \<Rightarrow> outfrag" where
  "hex_frag d n = \<lparr>f_data = d, f_len = n, f_hex = True\<rparr>"

primrec reply_frags :: "reply \<Rightarrow> outfrag list option" where
  "reply_frags Ok_reply = Some [text_frag ''OK'']"
| "reply_frags (Err_reply e) = Some [text_frag ''E'', hex_frag [e] 1]"
| "reply_frags Unknown_reply = Some [text_frag []]"
| "reply_frags (Data_reply fs) = Some fs"
| "reply_frags No_reply = None"

type_synonym cmd = "gdb \<Rightarrow> (reply \<times> gdb_action \<times> gdb) option"

abbreviation upd_par :: "(gdb_params \<Rightarrow> gdb_params) \<Rightarrow> gdb \<Rightarrow> gdb" where
  "upd_par f g \<equiv> g\<lparr>g_par := f (g_par g)\<rparr>"

definition err :: "int \<Rightarrow> gdb \<Rightarrow> (reply \<times> gdb_action \<times> gdb) option" where
  "err code g = Some (Err_reply (to_char code), GDB_MORE, g)"

section \<open>Commands on threads and registers\<close>

definition cmd_H :: "gdb_callbacks option \<Rightarrow> cmd" where
  "cmd_H cb g = do {
     (th, endth) \<leftarrow> strtol (g_inbuf g) 2 16;
     if endth = 2 then err 4 g
     else case Option.bind cb thread_switch of
       None \<Rightarrow> Some (Unknown_reply, GDB_MORE, g)
     | Some switch \<Rightarrow>
         if th \<noteq> -1 \<and> th \<noteq> 0 \<and> th \<noteq> thread_id (g_par g) then
           (let (errchar, p) = switch (g_par g) th; g = g\<lparr>g_par := p\<rparr>
            in if errchar \<noteq> NUL then Some (Err_reply errchar, GDB_MORE, g)
               else Some (Ok_reply, GDB_MORE, upd_par (\<lambda>p. p\<lparr>thread_id := th, regs_changed := 0\<rparr>) g))
         else Some (Ok_reply, GDB_MORE, g) }"

definition cmd_T :: "gdb_callbacks option \<Rightarrow> cmd" where
  "cmd_T cb g = do {
     (th, endth) \<leftarrow> strtol (g_inbuf g) 1 16;
     if endth = 1 then err 1 g
     else case Option.bind cb thread_alive of
       None \<Rightarrow> Some (Unknown_reply, GDB_MORE, g)
     | Some alive \<Rightarrow>
         (let (errchar, p) = alive (g_par g) th; g = g\<lparr>g_par := p\<rparr>
          in if errchar \<noteq> NUL then Some (Err_reply errchar, GDB_MORE, g) else Some (Ok_reply, GDB_MORE, g)) }"

definition cmd_g :: cmd where
  "cmd_g g = Some (Data_reply [hex_frag (regs (g_par g)) (length (regs (g_par g)))], GDB_MORE, g)"

text \<open>A wrong digit leaves the bytes in front of it in the registers.\<close>

definition cmd_G :: cmd where
  "cmd_G g = do {
     (ok, out) \<leftarrow> hex2bin (g_inbuf g) 1 (length (regs (g_par g)));
     rs \<leftarrow> put_bytes 0 out (regs (g_par g));
     let g = upd_par (\<lambda>p. p\<lparr>regs := rs\<rparr>) g;
     if \<not> ok then err 4 g else Some (Ok_reply, GDB_MORE, upd_par (\<lambda>p. p\<lparr>regs_changed := 1\<rparr>) g) }"

definition cmd_P :: cmd where
  "cmd_P g = do {
     (reg, eqp) \<leftarrow> strtoul (g_inbuf g) 1 16;
     c \<leftarrow> ld (g_inbuf g) eqp;
     if eqp = 1 \<or> c \<noteq> CHR ''='' then err 4 g
     else if reg = 0x29 then Some (Ok_reply, GDB_MORE, g)
     else if (reg + 1) * 4 > of_nat (length (regs (g_par g))) then err 4 g
     else do {
       (ok, out) \<leftarrow> hex2bin (g_inbuf g) (eqp + 1) 4;
       rs \<leftarrow> put_bytes (unat (reg * 4)) out (regs (g_par g));
       let g = upd_par (\<lambda>p. p\<lparr>regs := rs\<rparr>) g;
       if \<not> ok then err 4 g else Some (Ok_reply, GDB_MORE, upd_par (\<lambda>p. p\<lparr>regs_changed := 1\<rparr>) g) } }"

section \<open>Commands on memory\<close>

definition cmd_m :: cmd where
  "cmd_m g = do {
     (addr, p) \<leftarrow> strtoul (g_inbuf g) 1 16;
     c \<leftarrow> ld (g_inbuf g) p;
     if p = 1 \<or> c \<noteq> CHR '','' then err 2 g
     else do {
       (n, p2) \<leftarrow> strtoul (g_inbuf g) (p + 1) 16;
       if p2 = p + 1 \<or> n * 2 > of_nat BUFMAX then err 2 g
       else do {
         let (ok, bs) = gdb_copyin (g_paging g) (g_mem g) addr n;
         buf \<leftarrow> put_bytes 0 bs (g_inbuf g);
         let g = g\<lparr>g_inbuf := buf\<rparr>;
         if \<not> ok then err 3 g else Some (Data_reply [hex_frag buf (unat n)], GDB_MORE, g) } } }"

text \<open>The numbers in front of the data: address, length and where the data starts. A pointer past the buffer is compared as an address.\<close>

definition write_header :: "gdb \<Rightarrow> (u32 \<times> u32 \<times> ptr) option option" where
  "write_header g = do {
     (addr, p) \<leftarrow> strtoul (g_inbuf g) 1 16;
     c \<leftarrow> ld (g_inbuf g) p;
     if p = 1 \<or> c \<noteq> CHR '','' then Some None
     else do {
       (n, p2) \<leftarrow> strtoul (g_inbuf g) (p + 1) 16;
       c \<leftarrow> ld (g_inbuf g) p2;
       Some (if p2 = p + 1 \<or> c \<noteq> CHR '':'' then None else Some (addr, n, p2 + 1)) } }"

definition cmd_M :: cmd where
  "cmd_M g = do {
     h \<leftarrow> write_header g;
     case h of None \<Rightarrow> err 2 g
     | Some (addr, n, p) \<Rightarrow>
         if g_base g + of_nat p + n * 2 > g_base g + of_nat BUFMAX then err 2 g
         else do {
           (ok, out) \<leftarrow> hex2bin (g_inbuf g) p (unat n);
           if \<not> ok then err 2 g
           else let (ok, mem) = gdb_copyout (g_paging g) (g_mem g) out addr n; g = g\<lparr>g_mem := mem\<rparr>
                in if \<not> ok then err 3 g else Some (Ok_reply, GDB_MORE, g) } }"

text \<open>Binary data, with quoted bytes, over the front of the buffer it stands in: the buffer, and the end of the data if the last byte is not a quote.\<close>

function unquote :: "bytes \<Rightarrow> ptr \<Rightarrow> ptr \<Rightarrow> ptr \<Rightarrow> (bytes \<times> ptr option) option" where
  "unquote m i e out =
     (if i < e then do {
        c \<leftarrow> ld m i;
        if c = CHR 0x7d then
          (if e - i < 2 then Some (m, None)
           else do { b \<leftarrow> ld m (i + 1); m \<leftarrow> st m out (to_char (uchar b XOR 0x20)); unquote m (i + 2) e (out + 1) })
        else do { m \<leftarrow> st m out c; unquote m (i + 1) e (out + 1) } }
      else Some (m, Some out))"
  by pat_completeness auto
termination by (relation "measure (\<lambda>(m, i, e, out). e - i)") auto

declare unquote.simps [simp del]

definition cmd_X :: cmd where
  "cmd_X g = do {
     h \<leftarrow> write_header g;
     case h of None \<Rightarrow> err 2 g
     | Some (addr, n, p) \<Rightarrow>
         if g_base g + of_nat p + n > g_base g + of_nat BUFMAX then err 2 g
         else do {
           (buf, out) \<leftarrow> unquote (g_inbuf g) p (p + unat n) 0;
           let g = g\<lparr>g_inbuf := buf\<rparr>;
           case out of None \<Rightarrow> err 2 g
           | Some out \<Rightarrow>
               let (ok, mem) = gdb_copyout (g_paging g) (g_mem g) (take out buf) addr (of_nat out); g = g\<lparr>g_mem := mem\<rparr>
               in if \<not> ok then err 3 g else Some (Ok_reply, GDB_MORE, g) } }"

section \<open>Commands that resume the program\<close>

definition resume_at :: "nat \<Rightarrow> bool \<Rightarrow> char \<Rightarrow> cmd" where
  "resume_at k trace sig g = do {
     (new_eip, p) \<leftarrow> strtoul (g_inbuf g) k 16;
     let g = (if p > k \<and> new_eip \<noteq> get_reg EIP (regs (g_par g))
              then upd_par (\<lambda>p. p\<lparr>regs := set_reg EIP new_eip (regs p), regs_changed := 1\<rparr>) g else g);
     Some (No_reply, GDB_CONT, upd_par (\<lambda>p. p\<lparr>regs := gdb_set_trace_flag trace (regs p), signo := sig\<rparr>) g) }"

definition cmd_c :: cmd where
  "cmd_c g = do { c \<leftarrow> ld (g_inbuf g) 0; resume_at 1 (c = CHR ''s'') NUL g }"

definition cmd_C :: cmd where
  "cmd_C g = do {
     c \<leftarrow> ld (g_inbuf g) 0;
     a \<leftarrow> ld (g_inbuf g) 1;
     b \<leftarrow> ld (g_inbuf g) 2;
     let nsig = push_bit 4 (hex a) OR hex b;
     if nsig \<le> 0 \<or> nsig \<ge> NSIG then err 5 g else resume_at 3 (c = CHR ''S'') (to_char nsig) g }"

section \<open>The conversation\<close>

text \<open>The digits of a thread, the last one first.\<close>

function tid_digits :: "u32 \<Rightarrow> string" where
  "tid_digits x = hexdigit (uint (x AND 0xf)) # (let x = drop_bit 4 x in if x \<noteq> 0 then tid_digits x else [])"
  by pat_completeness auto
termination
proof (relation "measure unat", goal_cases)
  case (2 x y)
  then have "x \<noteq> 0" by auto
  then have "0 < unat x" by (simp add: unat_gt_0)
  moreover have "unat x < 2 ^ 32" using unsigned_less [of x] by simp
  then have "unat (drop_bit 4 x) = drop_bit 4 (unat x)" by (simp add: unsigned_drop_bit_eq take_bit_nat_eq_self)
  then have "unat (drop_bit 4 x) = unat x div 16" by (simp add: drop_bit_eq_div)
  ultimately show ?case using 2 by simp
qed simp

declare tid_digits.simps [simp del]

definition report :: "gdb_callbacks option \<Rightarrow> cmd" where
  "report cb g =
     (let p = g_par g in
      if Option.bind cb thread_switch \<noteq> None \<and> thread_id p \<noteq> 0 \<and> thread_id p \<noteq> -1 then
        do {
          buf \<leftarrow> put_bytes 0 (''thread:'' @ rev (tid_digits (thread_id p)) @ '';'' @ [NUL]) (g_inbuf g);
          Some (Data_reply [text_frag ''T'', hex_frag [signo p] 1, \<lparr>f_data = buf, f_len = 0, f_hex = False\<rparr>], GDB_MORE, g\<lparr>g_inbuf := buf\<rparr>) }
      else Some (Data_reply [text_frag ''S'', hex_frag [signo p] 1], GDB_MORE, g))"

definition command :: "gdb_callbacks option \<Rightarrow> cmd" where
  "command cb g = do {
     c \<leftarrow> ld (g_inbuf g) 0;
     if c = CHR ''H'' then cmd_H cb g
     else if c = CHR ''T'' then cmd_T cb g
     else if c = CHR ''g'' then cmd_g g
     else if c = CHR ''G'' then cmd_G g
     else if c = CHR ''P'' then cmd_P g
     else if c = CHR ''m'' then cmd_m g
     else if c = CHR ''M'' then cmd_M g
     else if c = CHR ''X'' then cmd_X g
     else if c = CHR ''c'' \<or> c = CHR ''s'' then cmd_c g
     else if c = CHR ''C'' \<or> c = CHR ''S'' then cmd_C g
     else if c = CHR ''?'' then report cb g
     else if c = CHR ''D'' then Some (Ok_reply, GDB_DETACH, g\<lparr>g_connected := 0\<rparr>)
     else if c = CHR ''R'' then Some (No_reply, GDB_RUN, g\<lparr>g_connected := 0\<rparr>)
     else if c = CHR ''k'' then Some (No_reply, GDB_KILL, g\<lparr>g_connected := 0\<rparr>)
     else if c = CHR ''d'' then Some (Ok_reply, GDB_MORE, g\<lparr>g_debug := (if g_debug g = 0 then 1 else 0)\<rparr>)
     else if c = CHR ''!'' then Some (Ok_reply, GDB_MORE, g)
     else Some (Unknown_reply, GDB_MORE, g) }"

text \<open>What is sent in answer, and what is left of the input.\<close>

definition answer :: "reply \<Rightarrow> string \<Rightarrow> (string \<times> string) option" where
  "answer r inp = (case reply_frags r of None \<Rightarrow> Some ([], inp) | Some fs \<Rightarrow> putfrags fs inp)"

lemma getpacket_shorter: "getpacket buf inp = Some (buf', inp', s) \<Longrightarrow> length inp' < length inp"
proof (induction buf inp arbitrary: buf' inp' s rule: getpacket.induct)
  case (1 buf inp)
  obtain b ok i t where r: "packet_round buf inp = Some (b, ok, i, t)"
    using 1(2) by (cases "packet_round buf inp") (auto simp: getpacket.simps [of buf])
  have l: "length i < length inp" using packet_round_shorter [OF r] .
  show ?case
  proof (cases ok)
    case True
    then show ?thesis using 1(2) r l by (simp add: getpacket.simps [of buf])
  next
    case False
    then obtain t' where "getpacket b i = Some (buf', inp', t')" using 1(2) r by (auto simp: getpacket.simps [of buf])
    then show ?thesis using 1(1) [OF r refl refl refl False] l by fastforce
  qed
qed

lemma send_until_shorter: "send_until p inp = Some (s, inp') \<Longrightarrow> length inp' \<le> length inp"
proof (induction inp arbitrary: s)
  case (Cons a inp)
  show ?case
  proof (cases "byte7 a = uchar (CHR ''+'')")
    case True
    then show ?thesis using Cons.prems by simp
  next
    case False
    then obtain t where "send_until p inp = Some (t, inp')" using Cons.prems by auto
    then show ?thesis using Cons.IH by fastforce
  qed
qed simp

lemma answer_shorter: "answer r inp = Some (s, inp') \<Longrightarrow> length inp' \<le> length inp"
  by (auto simp: answer_def putfrags_def bind_eq_Some_conv split: option.splits dest: send_until_shorter)

function converse_loop :: "gdb_callbacks option \<Rightarrow> gdb \<Rightarrow> string \<Rightarrow> (gdb_action \<times> gdb \<times> string \<times> string) option" where
  "converse_loop cb g inp =
     (case getpacket (g_inbuf g) inp of None \<Rightarrow> None
      | Some (buf, inp', sent) \<Rightarrow>
          (case command cb (g\<lparr>g_inbuf := buf, g_connected := 1\<rparr>) of None \<Rightarrow> None
           | Some (r, act, g') \<Rightarrow>
               (case answer r inp' of None \<Rightarrow> None
                | Some (sent', inp'') \<Rightarrow>
                    if act \<noteq> GDB_MORE then Some (act, g', inp'', sent @ sent')
                    else map_option (\<lambda>(act, g, inp, t). (act, g, inp, sent @ sent' @ t)) (converse_loop cb g' inp''))))"
  by pat_completeness auto
termination by (relation "measure (\<lambda>(cb, g, inp). length inp)") (auto dest!: getpacket_shorter answer_shorter)

declare converse_loop.simps [simp del]

definition gdb_serial_converse :: "gdb_callbacks option \<Rightarrow> gdb \<Rightarrow> string \<Rightarrow> (gdb_action \<times> gdb \<times> string \<times> string) option" where
  "gdb_serial_converse cb g inp = do {
     let g = upd_par (\<lambda>p. p\<lparr>regs_changed := 0\<rparr>) g;
     (r, act, g) \<leftarrow> report cb g;
     (sent, inp) \<leftarrow> answer r inp;
     map_option (\<lambda>(act, g, inp, t). (act, g, inp, sent @ t)) (converse_loop cb g inp) }"


section \<open>Other messages\<close>

text \<open>Messages of a running program; without a line or a debugger (\<^verbatim>\<open>gdb_serial_send\<close> and \<^verbatim>\<open>gdb_serial_recv\<close>) nothing is sent.\<close>

definition gdb_serial_exit :: "bool \<Rightarrow> gdb \<Rightarrow> int \<Rightarrow> string \<Rightarrow> (gdb \<times> string \<times> string) option" where
  "gdb_serial_exit line g exit_code inp =
     (if \<not> line \<or> g_connected g = 0 then Some (g, [], inp)
      else map_option (\<lambda>(sent, inp). (g\<lparr>g_connected := 0\<rparr>, sent, inp)) (putfrags [text_frag ''W'', hex_frag [to_char exit_code] 1] inp))"

definition gdb_serial_killed :: "bool \<Rightarrow> gdb \<Rightarrow> int \<Rightarrow> string \<Rightarrow> (gdb \<times> string \<times> string) option" where
  "gdb_serial_killed line g sig inp =
     (if \<not> line \<or> g_connected g = 0 then Some (g, [], inp)
      else map_option (\<lambda>(sent, inp). (g\<lparr>g_connected := 0\<rparr>, sent, inp)) (putfrags [text_frag ''X'', hex_frag [to_char sig] 1] inp))"

definition gdb_serial_putchar :: "bool \<Rightarrow> gdb \<Rightarrow> int \<Rightarrow> string \<Rightarrow> (string \<times> string) option" where
  "gdb_serial_putchar line g ch inp =
     (if \<not> line then Some ([], inp)
      else if g_connected g = 0 then Some ([to_char ch], inp)
      else putfrags [text_frag ''O'', hex_frag [to_char ch] 1] inp)"

definition gdb_serial_puts :: "bool \<Rightarrow> gdb \<Rightarrow> string \<Rightarrow> string \<Rightarrow> (string \<times> string) option" where
  "gdb_serial_puts line g s inp =
     (if \<not> line then Some ([], inp)
      else if g_connected g = 0 then Some (s @ [CHR 0x0a], inp)
      else putfrags [text_frag ''O'', hex_frag (s @ [NUL]) 0, hex_frag [CHR 0x0a] 1] inp)"

section \<open>Registers\<close>

lemma command_cases:
  "g_inbuf g = CHR ''H'' # t \<Longrightarrow> command cb g = cmd_H cb g" "g_inbuf g = CHR ''T'' # t \<Longrightarrow> command cb g = cmd_T cb g"
  "g_inbuf g = CHR ''g'' # t \<Longrightarrow> command cb g = cmd_g g" "g_inbuf g = CHR ''G'' # t \<Longrightarrow> command cb g = cmd_G g"
  "g_inbuf g = CHR ''P'' # t \<Longrightarrow> command cb g = cmd_P g" "g_inbuf g = CHR ''m'' # t \<Longrightarrow> command cb g = cmd_m g"
  "g_inbuf g = CHR ''M'' # t \<Longrightarrow> command cb g = cmd_M g" "g_inbuf g = CHR ''X'' # t \<Longrightarrow> command cb g = cmd_X g"
  "g_inbuf g = CHR ''c'' # t \<Longrightarrow> command cb g = cmd_c g" "g_inbuf g = CHR ''s'' # t \<Longrightarrow> command cb g = cmd_c g"
  "g_inbuf g = CHR ''C'' # t \<Longrightarrow> command cb g = cmd_C g" "g_inbuf g = CHR ''S'' # t \<Longrightarrow> command cb g = cmd_C g"
  by (simp_all add: command_def)

lemma starts_with: "take n s = c # t \<Longrightarrow> \<exists>u. s = c # u"
  by (cases s; cases n) auto

lemma put_bytes_all: "length bs = length buf \<Longrightarrow> put_bytes 0 bs buf = Some bs"
  by (simp add: put_bytes_def)

lemma length_word_bytes [simp]: "length (word_bytes w) = 4"
  by (simp add: word_bytes_def)

lemma word_of_uchar_to_char: "(word_of_int (uchar (to_char n)) :: u32) = take_bit 8 (word_of_int n)"
proof -
  have u: "uchar (to_char n) = take_bit 8 n" by (simp add: uchar_def to_char_def of_char_of take_bit_eq_mod)
  show ?thesis unfolding u by (rule bit_word_eqI) (auto simp: bit_simps)
qed

lemma bytes_word_bytes: "bytes_word (word_bytes w) = w"
proof -
  have eq: "[0..<4] = [0, 1, 2, 3 :: nat]" by (simp add: upt_rec)
  show ?thesis
    by (rule u32_eqI) (simp add: bytes_word_def word_bytes_def eq word_of_uchar_to_char bit_simps flip: take_bit_eq_mask)
qed

lemma put_get_reg:
  assumes "put_bytes (4 * i) (word_bytes w) rs = Some rs'"
  shows "get_reg i rs' = w" "j \<noteq> i \<Longrightarrow> get_reg j rs' = get_reg j rs" "length rs' = length rs"
proof -
  have l: "4 * i + 4 \<le> length rs" and rs': "rs' = take (4 * i) rs @ word_bytes w @ drop (4 * i + 4) rs"
    using assms by (auto simp: put_bytes_def split: if_splits)
  show "get_reg i rs' = w" using l by (simp add: get_reg_def rs' bytes_word_bytes)
  show "length rs' = length rs" using l by (simp add: rs')
  assume "j \<noteq> i"
  then consider "j < i" | "i < j" by arith
  then have "take 4 (drop (4 * j) rs') = take 4 (drop (4 * j) rs)"
  proof cases
    case 1
    then have "4 * j + 4 \<le> 4 * i" by simp
    then show ?thesis using l by (intro nth_equalityI) (auto simp: rs' nth_append)
  next
    case 2
    then have "4 * i + 4 \<le> 4 * j" by simp
    then have "drop (4 * j) rs' = drop (4 * j) rs" using l by (simp add: rs')
    then show ?thesis by simp
  qed
  then show "get_reg j rs' = get_reg j rs" by (simp add: get_reg_def)
qed

lemma put_set_reg: "4 * i + 4 \<le> length rs \<Longrightarrow> put_bytes (4 * i) (word_bytes w) rs = Some (set_reg i w rs)"
  by (simp add: put_bytes_def set_reg_def)

lemma set_reg_get:
  assumes "4 * i + 4 \<le> length rs"
  shows "get_reg j (set_reg i w rs) = (if j = i then w else get_reg j rs)" "length (set_reg i w rs) = length rs"
  using put_get_reg [OF put_set_reg [OF assms]] by auto

lemma hex_frag_plain: "bs \<noteq> [] \<Longrightarrow> frag_ok (hex_frag bs (length bs)) \<and> plain (hex_frag bs (length bs)) = concat (map hexbyte bs)"
  by (simp add: hex_frag_def frag_ok_def plain_def content_def enc_def [abs_def])

text \<open>
  C35. Registers that the debugger sends it reads back: the command \<open>G\<close> with the digits of 64 bytes makes them the registers and marks them as changed, and from then
  on \<open>g\<close> answers with a packet that stands for the same digits.
\<close>

theorem registers_roundtrip:
  assumes "length (regs (g_par g)) = 64" and "length rs = 64" and "length (g_inbuf g) = BUFMAX + 1"
    and "take 129 (g_inbuf g) = CHR ''G'' # concat (map hexbyte rs)"
  shows "\<exists>g'. command cb g = Some (Ok_reply, GDB_MORE, g') \<and> regs (g_par g') = rs \<and> regs_changed (g_par g') = 1 \<and> g_mem g' = g_mem g \<and>
    (\<forall>buf. buf \<noteq> [] \<and> hd buf = CHR ''g'' \<longrightarrow>
      (\<exists>fs body. command cb (g'\<lparr>g_inbuf := buf\<rparr>) = Some (Data_reply fs, GDB_MORE, g'\<lparr>g_inbuf := buf\<rparr>) \<and>
        send_frags fs = Some body \<and> expand body = concat (map hexbyte rs)))"
proof -
  let ?b = "g_inbuf g"
  obtain u where b: "?b = CHR ''G'' # u" using starts_with [OF assms(4)] by blast
  have "take (2 * length rs) (drop 1 ?b) = concat (map hexbyte rs)" using assms(2,4) b by simp
  then have h: "hex2bin ?b 1 (length rs) = Some (True, rs)" using assms(2,3) by (intro hex2bin_hexbytes) (simp_all add: BUFMAX_def)
  define g' where "g' = upd_par (\<lambda>p. p\<lparr>regs := rs, regs_changed := 1\<rparr>) g"
  have "command cb g = Some (Ok_reply, GDB_MORE, g')"
    using h assms(1,2) by (simp add: command_cases(4) [OF b] cmd_G_def put_bytes_all g'_def)
  moreover have "\<exists>fs body. command cb (g'\<lparr>g_inbuf := buf\<rparr>) = Some (Data_reply fs, GDB_MORE, g'\<lparr>g_inbuf := buf\<rparr>) \<and>
      send_frags fs = Some body \<and> expand body = concat (map hexbyte rs)" if buf: "buf \<noteq> []" "hd buf = CHR ''g''" for buf
  proof -
    have r: "rs \<noteq> []" using assms(2) by auto
    obtain body where "send_frags [hex_frag rs (length rs)] = Some body" "expand body = concat (map hexbyte rs)"
      using send_frags_ok [of "[hex_frag rs (length rs)]"] hex_frag_plain [OF r] by auto
    moreover have "g_inbuf (g'\<lparr>g_inbuf := buf\<rparr>) = CHR ''g'' # tl buf" using buf by (cases buf) simp_all
    note command_cases(3) [OF this]
    then have "command cb (g'\<lparr>g_inbuf := buf\<rparr>) = Some (Data_reply [hex_frag rs (length rs)], GDB_MORE, g'\<lparr>g_inbuf := buf\<rparr>)"
      by (simp add: cmd_g_def g'_def)
    ultimately show ?thesis by blast
  qed
  ultimately show ?thesis unfolding g'_def by auto
qed

definition ex_params :: gdb_params where "ex_params = \<lparr>thread_id = -1, signo = CHR 0x05, regs = replicate 64 NUL, regs_changed = 0\<rparr>"

definition ex_gdb :: "string \<Rightarrow> gdb" where
  "ex_gdb s = \<lparr>g_inbuf = s @ replicate (401 - length s) NUL, g_base = 0x1000, g_connected = 1, g_debug = 0, g_par = ex_params,
     g_paging = ex_paging, g_mem = (\<lambda>_. NUL)\<rparr>"

theorem registers_roundtrip_witness:
  "\<exists>g'. command None (ex_gdb (CHR ''G'' # concat (map hexbyte (replicate 64 CHR 0x2b)))) = Some (Ok_reply, GDB_MORE, g') \<and>
     regs (g_par g') = replicate 64 CHR 0x2b"
proof -
  let ?g = "ex_gdb (CHR ''G'' # concat (map hexbyte (replicate 64 CHR 0x2b)))"
  have "length (regs (g_par ?g)) = 64" "length (replicate 64 CHR 0x2b) = 64" by (simp_all add: ex_gdb_def ex_params_def)
  moreover have "length (concat (map hexbyte (replicate 64 CHR 0x2b))) = 128" by (simp only: length_hexbytes length_replicate)
  then have "length (g_inbuf ?g) = BUFMAX + 1" "take 129 (g_inbuf ?g) = CHR ''G'' # concat (map hexbyte (replicate 64 CHR 0x2b))"
    by (simp_all add: ex_gdb_def BUFMAX_def del: map_replicate)
  ultimately show ?thesis using registers_roundtrip [of ?g "replicate 64 CHR 0x2b" None] by blast
qed

section \<open>Writing memory\<close>

text \<open>The bytes that quoted data stands for.\<close>

fun unquoted :: "string \<Rightarrow> string option" where
  "unquoted [] = Some []"
| "unquoted (c # s) =
     (if c = CHR 0x7d then (case s of [] \<Rightarrow> None | b # s \<Rightarrow> map_option ((#) (to_char (uchar b XOR 0x20))) (unquoted s))
      else map_option ((#) c) (unquoted s))"

lemma drop_take_Cons: "i < e \<Longrightarrow> e \<le> length m \<Longrightarrow> take (e - i) (drop i m) = m ! i # take (e - (i + 1)) (drop (i + 1) m)"
proof -
  assume "i < e" "e \<le> length m"
  then have "e - i = Suc (e - (i + 1))" "drop i m = m ! i # drop (i + 1) m" by (simp_all add: Cons_nth_drop_Suc)
  then show ?thesis by simp
qed

lemma take_stored: "k < length m \<Longrightarrow> take (Suc k) (m[k := c]) = take k m @ [c]"
  by (simp add: take_Suc_conv_app_nth)

lemma unquote_unquoted:
  assumes "k \<le> i" and "i \<le> e" and "e \<le> length m"
  shows "\<exists>m'. unquote m i e k = Some (m', map_option (\<lambda>bs. k + length bs) (unquoted (take (e - i) (drop i m)))) \<and> length m' = length m \<and>
    (\<forall>bs. unquoted (take (e - i) (drop i m)) = Some bs \<longrightarrow> take (k + length bs) m' = take k m @ bs)"
  using assms
proof (induction m i e k rule: unquote.induct)
  case (1 m i e k)
  let ?u = "unquoted (take (e - i) (drop i m))"
  consider "i = e" | "i < e" "m ! i = CHR 0x7d" "e - i < 2" | "i < e" "m ! i = CHR 0x7d" "2 \<le> e - i" | "i < e" "m ! i \<noteq> CHR 0x7d"
    using 1(4) by linarith
  then show ?case
  proof cases
    case a: 1
    then show ?thesis by (simp add: unquote.simps)
  next
    case a: 2
    then have e: "e = i + 1" by simp
    have "?u = None" using a 1(5) drop_take_Cons [of i e m] by (simp add: e)
    then show ?thesis using a 1(5) by (simp add: unquote.simps)
  next
    case a: 3
    define b where "b = to_char (uchar (m ! (i + 1)) XOR 0x20)"
    define m1 where "m1 = m[k := b]"
    have le: "i + 1 < e" "i + 2 \<le> e" using a by simp_all
    have d: "drop (i + 2) m1 = drop (i + 2) m" using 1(3) by (simp add: m1_def)
    have u: "?u = map_option ((#) b) (unquoted (take (e - (i + 2)) (drop (i + 2) m)))"
      using drop_take_Cons [OF a(1) 1(5)] drop_take_Cons [OF le(1) 1(5)] a(2) by (simp add: b_def numeral_2_eq_2)
    have un: "unquote m i e k = unquote m1 (i + 2) e (k + 1)"
      using a 1(3,5) le by (subst unquote.simps) (simp add: m1_def b_def)
    have "\<exists>m'. unquote m1 (i + 2) e (k + 1) = Some (m', map_option (\<lambda>bs. k + 1 + length bs) (unquoted (take (e - (i + 2)) (drop (i + 2) m1)))) \<and>
        length m' = length m1 \<and> (\<forall>bs. unquoted (take (e - (i + 2)) (drop (i + 2) m1)) = Some bs \<longrightarrow> take (k + 1 + length bs) m' = take (k + 1) m1 @ bs)"
      using 1(1) [of "CHR 0x7d" "m ! (i + 1)" m1] a 1(3,5) le by (simp add: m1_def b_def)
    then show ?thesis unfolding un u d using 1(3,5) a(1) by (fastforce simp: m1_def option.map_comp comp_def take_stored)
  next
    case a: 4
    define m1 where "m1 = m[k := m ! i]"
    have d: "drop (i + 1) m1 = drop (i + 1) m" using 1(3) by (simp add: m1_def)
    have u: "?u = map_option ((#) (m ! i)) (unquoted (take (e - (i + 1)) (drop (i + 1) m)))"
      using drop_take_Cons [OF a(1) 1(5)] a(2) by simp
    have un: "unquote m i e k = unquote m1 (i + 1) e (k + 1)"
      using a 1(3,5) by (subst unquote.simps) (simp add: m1_def)
    have "\<exists>m'. unquote m1 (i + 1) e (k + 1) = Some (m', map_option (\<lambda>bs. k + 1 + length bs) (unquoted (take (e - (i + 1)) (drop (i + 1) m1)))) \<and>
        length m' = length m1 \<and> (\<forall>bs. unquoted (take (e - (i + 1)) (drop (i + 1) m1)) = Some bs \<longrightarrow> take (k + 1 + length bs) m' = take (k + 1) m1 @ bs)"
      using 1(2) [of "m ! i" m1] a 1(3,5) by (simp add: m1_def)
    then show ?thesis unfolding un u d using 1(3,5) a(1) by (fastforce simp: m1_def option.map_comp comp_def take_stored)
  qed
qed

lemma pointers_in_buffer:
  assumes "unat b + BUFMAX < 2 ^ 32" and "p + k \<le> BUFMAX"
  shows "\<not> b + of_nat p + of_nat k > b + (of_nat BUFMAX :: u32)"
proof -
  have "unat (b + of_nat n) = unat b + n" if "n \<le> BUFMAX" for n
    using assms(1) that unat_add_lem [of b "of_nat n"] by (simp add: unat_of_nat BUFMAX_def)
  from this [OF assms(2)] this [of BUFMAX] show ?thesis using assms(2) by (simp add: word_less_nat_alt add.assoc)
qed

text \<open>What both commands make of the bytes.\<close>

definition written :: "gdb \<Rightarrow> u32 \<Rightarrow> bytes \<Rightarrow> reply \<times> memory" where
  "written g addr bs = (case gdb_copyout (g_paging g) (g_mem g) bs addr (of_nat (length bs)) of
     (ok, mem) \<Rightarrow> (if ok then Ok_reply else Err_reply (to_char 3), mem))"

lemma M_writes:
  assumes "g_inbuf g = CHR ''M'' # t" and "write_header g = Some (Some (addr, n, p))"
    and "length (g_inbuf g) = BUFMAX + 1" "unat (g_base g) + BUFMAX < 2 ^ 32" "p + 2 * unat n \<le> BUFMAX"
    and "take (2 * unat n) (drop p (g_inbuf g)) = concat (map hexbyte bs)" "length bs = unat n"
  shows "command cb g = Some (fst (written g addr bs), GDB_MORE, g\<lparr>g_mem := snd (written g addr bs)\<rparr>)"
proof -
  have h: "hex2bin (g_inbuf g) p (unat n) = Some (True, bs)" using hex2bin_hexbytes [of p bs "g_inbuf g"] assms(3,5-7) by simp
  have "of_nat (2 * unat n) = n * (2 :: u32)" by simp
  then have c: "\<not> g_base g + of_nat p + n * 2 > g_base g + of_nat BUFMAX" using pointers_in_buffer [OF assms(4), of p "2 * unat n"] assms(5) by metis
  have "of_nat (length bs) = n" using assms(7) by simp
  then show ?thesis unfolding command_cases(7) [OF assms(1)]
    by (simp only: cmd_M_def assms(2) Option.bind.bind_lunit option.case prod.case c if_False h not_True_eq_False)
      (simp add: written_def Let_def err_def split: prod.splits)
qed

lemma X_writes:
  assumes "g_inbuf g = CHR ''X'' # t" and "write_header g = Some (Some (addr, n, p))"
    and "length (g_inbuf g) = BUFMAX + 1" "unat (g_base g) + BUFMAX < 2 ^ 32" "p + unat n \<le> BUFMAX"
    and "unquoted (take (unat n) (drop p (g_inbuf g))) = Some bs"
  shows "\<exists>buf. command cb g = Some (fst (written g addr bs), GDB_MORE, g\<lparr>g_inbuf := buf, g_mem := snd (written g addr bs)\<rparr>)"
proof -
  obtain buf where u: "unquote (g_inbuf g) p (p + unat n) 0 = Some (buf, Some (length bs))" "take (length bs) buf = bs"
    using unquote_unquoted [of 0 p "p + unat n" "g_inbuf g"] assms(3,5,6) by auto
  have "of_nat (unat n) = n" by simp
  then have c: "\<not> g_base g + of_nat p + n > g_base g + of_nat BUFMAX" using pointers_in_buffer [OF assms(4), of p "unat n"] assms(5) by metis
  show ?thesis unfolding command_cases(8) [OF assms(1)]
    by (simp only: cmd_X_def assms(2) Option.bind.bind_lunit option.case prod.case c if_False u)
      (auto simp: written_def Let_def err_def u split: prod.splits)
qed

text \<open>
  C34. The two ways to write memory agree: a command \<open>M\<close> with the hexadecimal digits of some bytes and a command \<open>X\<close> with the same bytes in quoted binary, unquoted in
  place over the buffer they came in, give the same answer, fault or not, and the same memory.
\<close>

theorem writes_agree:
  assumes "g_inbuf g = CHR ''M'' # t" and "write_header g = Some (Some (addr, n, p))" and "p + 2 * unat n \<le> BUFMAX"
    and "take (2 * unat n) (drop p (g_inbuf g)) = concat (map hexbyte bs)" "length bs = unat n"
    and "buf = CHR ''X'' # t'" and "write_header (g\<lparr>g_inbuf := buf\<rparr>) = Some (Some (addr, n', p'))" and "p' + unat n' \<le> BUFMAX"
    and "unquoted (take (unat n') (drop p' buf)) = Some bs"
    and "length (g_inbuf g) = BUFMAX + 1" "length buf = BUFMAX + 1" "unat (g_base g) + BUFMAX < 2 ^ 32"
  shows "\<exists>r mem buf'. command cb g = Some (r, GDB_MORE, g\<lparr>g_mem := mem\<rparr>) \<and>
    command cb (g\<lparr>g_inbuf := buf\<rparr>) = Some (r, GDB_MORE, g\<lparr>g_inbuf := buf', g_mem := mem\<rparr>)"
proof -
  have w: "written (g\<lparr>g_inbuf := buf\<rparr>) addr bs = written g addr bs" by (simp add: written_def)
  have "command cb g = Some (fst (written g addr bs), GDB_MORE, g\<lparr>g_mem := snd (written g addr bs)\<rparr>)"
    by (rule M_writes [OF assms(1,2,10,12,3-5)])
  moreover have "\<exists>buf'. command cb (g\<lparr>g_inbuf := buf\<rparr>) = Some (fst (written g addr bs), GDB_MORE, g\<lparr>g_inbuf := buf', g_mem := snd (written g addr bs)\<rparr>)"
    using X_writes [of "g\<lparr>g_inbuf := buf\<rparr>" t' addr n' p' bs cb] assms(6-9,11,12) w by simp
  ultimately show ?thesis by blast
qed

theorem writes_agree_witness:
  "\<exists>r mem buf'. command None (ex_gdb ''M2000,2:7d23'') = Some (r, GDB_MORE, (ex_gdb ''M2000,2:7d23'')\<lparr>g_mem := mem\<rparr>) \<and>
     command None ((ex_gdb ''M2000,2:7d23'')\<lparr>g_inbuf := ''X2000,4:}]}'' @ [CHR 0x03] @ replicate 389 NUL\<rparr>) =
       Some (r, GDB_MORE, (ex_gdb ''M2000,2:7d23'')\<lparr>g_inbuf := buf', g_mem := mem\<rparr>)"
proof -
  let ?g = "ex_gdb ''M2000,2:7d23''"
  let ?b = "''X2000,4:}]}'' @ [CHR 0x03] @ replicate 389 NUL"
  have a: "write_header ?g = Some (Some (0x2000, 2, 8))" by code_simp
  have b: "write_header (?g\<lparr>g_inbuf := ?b\<rparr>) = Some (Some (0x2000, 4, 8))" by code_simp
  have c: "take (2 * unat (2 :: u32)) (drop 8 (g_inbuf ?g)) = concat (map hexbyte [CHR 0x7d, CHR 0x23])" by code_simp
  have d: "unquoted (take (unat (4 :: u32)) (drop 8 ?b)) = Some [CHR 0x7d, CHR 0x23]" by code_simp
  show ?thesis
    by (rule writes_agree [OF _ a _ c _ _ b _ d]) (simp_all add: ex_gdb_def BUFMAX_def)
qed

text \<open>
  C15. Memory that the debugger writes it reads back, through the page tables: where they map the range to distinct addresses outside of themselves, the command \<open>X\<close> is
  accepted, changes nothing else, and a command \<open>m\<close> for the range is answered with a packet that stands for the digits of the bytes.
\<close>

theorem memory_roundtrip:
  assumes "g_inbuf g = CHR ''X'' # t" and "write_header g = Some (Some (addr, n, p))" and "p + unat n \<le> BUFMAX"
    and "unquoted (take (unat n) (drop p (g_inbuf g))) = Some bs" "bs \<noteq> []" "2 * length bs \<le> BUFMAX"
    and "length (g_inbuf g) = BUFMAX + 1" "unat (g_base g) + BUFMAX < 2 ^ 32"
    and "stable (g_paging g) (g_mem g) S" and "\<And>i. i < length bs \<Longrightarrow> \<exists>a \<in> S. phys (g_paging g) (g_mem g) (addr + of_nat i) = Some a"
    and "inj_on (\<lambda>i. phys (g_paging g) (g_mem g) (addr + of_nat i)) {..<length bs}"
    and "buf = CHR ''m'' # t'" "length buf = BUFMAX + 1" "strtoul buf 1 16 = Some (addr, q)" "q \<noteq> 1" "q \<le> BUFMAX" "buf ! q = CHR '',''"
    and "strtoul buf (q + 1) 16 = Some (of_nat (length bs), q')" "q' \<noteq> q + 1"
  shows "\<exists>g'. command cb g = Some (Ok_reply, GDB_MORE, g') \<and> g_par g' = g_par g \<and>
    (\<forall>a. (\<forall>i < length bs. phys (g_paging g) (g_mem g) (addr + of_nat i) \<noteq> Some a) \<longrightarrow> g_mem g' a = g_mem g a) \<and>
    (\<exists>fs g'' body. command cb (g'\<lparr>g_inbuf := buf\<rparr>) = Some (Data_reply fs, GDB_MORE, g'') \<and> send_frags fs = Some body \<and>
      expand body = concat (map hexbyte bs))"
proof -
  let ?n = "of_nat (length bs) :: u32"
  have n: "unat ?n = length bs" "\<not> ?n * 2 > of_nat BUFMAX"
  proof -
    show "unat ?n = length bs" using assms(6) by (simp add: unat_of_nat BUFMAX_def)
    have e: "?n * 2 = of_nat (2 * length bs)" by simp
    have "unat (of_nat (2 * length bs) :: u32) = 2 * length bs" using assms(6) by (simp add: unat_of_nat BUFMAX_def del: of_nat_mult)
    then show "\<not> ?n * 2 > of_nat BUFMAX" using assms(6) unfolding e word_less_nat_alt by (simp add: unat_of_nat BUFMAX_def del: of_nat_mult)
  qed
  obtain mem' where m: "gdb_copyout (g_paging g) (g_mem g) bs addr ?n = (True, mem')"
    "\<forall>i < length bs. mem' (the (phys (g_paging g) (g_mem g) (addr + of_nat i))) = bs ! i"
    "\<forall>a. (\<forall>i < length bs. phys (g_paging g) (g_mem g) (addr + of_nat i) \<noteq> Some a) \<longrightarrow> mem' a = g_mem g a"
    using copyout_bytewise [OF assms(9), of bs ?n addr] assms(10,11) n(1) by auto
  have nn: "phys (g_paging g) (g_mem g) (addr + of_nat i) \<noteq> None" if "i < length bs" for i using assms(10) [OF that] by auto
  have "mem' a = g_mem g a" if "a \<notin> S" for a using m(3) assms(10) that by fastforce
  then have c: "gdb_copyin (g_paging g) mem' addr ?n = (True, bs)" by (rule copyin_written [OF assms(9) _ m(2) n(1) nn])
  have w: "written g addr bs = (Ok_reply, mem')" by (simp add: written_def m(1))
  obtain b1 where x: "command cb g = Some (Ok_reply, GDB_MORE, g\<lparr>g_inbuf := b1, g_mem := mem'\<rparr>)"
    using X_writes [OF assms(1,2,7,8,3,4), of cb] unfolding w fst_conv snd_conv by blast
  define g' where "g' = g\<lparr>g_inbuf := b1, g_mem := mem'\<rparr>"
  obtain b2 where b2: "put_bytes 0 bs buf = Some b2" "take (length bs) b2 = bs" "length bs \<le> length b2"
    using assms(6,13) by (simp add: put_bytes_def BUFMAX_def)
  have r: "command cb (g'\<lparr>g_inbuf := buf\<rparr>) = Some (Data_reply [hex_frag b2 (length bs)], GDB_MORE, g'\<lparr>g_inbuf := b2\<rparr>)"
  proof -
    have b: "g_inbuf (g'\<lparr>g_inbuf := buf\<rparr>) = CHR ''m'' # t'" using assms(12) by simp
    show ?thesis unfolding command_cases(6) [OF b] using assms(13-19) n b2(1) c by (simp add: cmd_m_def g'_def)
  qed
  have "frag_ok (hex_frag b2 (length bs)) \<and> plain (hex_frag b2 (length bs)) = concat (map hexbyte bs)"
    using assms(5) b2 by (simp add: hex_frag_def frag_ok_def plain_def content_def enc_def [abs_def])
  then obtain body where "send_frags [hex_frag b2 (length bs)] = Some body" "expand body = concat (map hexbyte bs)"
    using send_frags_ok [of "[hex_frag b2 (length bs)]"] by auto
  then show ?thesis using x r m(3) unfolding g'_def by (intro exI [of _ "g\<lparr>g_inbuf := b1, g_mem := mem'\<rparr>"]) auto
qed

theorem memory_roundtrip_witness:
  "\<exists>g'. command None (ex_gdb ''X2000,2:ab'') = Some (Ok_reply, GDB_MORE, g') \<and>
    (\<exists>fs g'' body. command None (g'\<lparr>g_inbuf := ''m2000,2'' @ replicate 394 NUL\<rparr>) = Some (Data_reply fs, GDB_MORE, g'') \<and>
      send_frags fs = Some body \<and> expand body = ''6162'')"
proof -
  let ?g = "ex_gdb ''X2000,2:ab''" and ?b = "''m2000,2'' @ replicate 394 NUL"
  have a: "write_header ?g = Some (Some (0x2000, 2, 8))" by code_simp
  have u: "unquoted (take (unat (2 :: u32)) (drop 8 (g_inbuf ?g))) = Some ''ab''" by code_simp
  have m: "strtoul ?b 1 16 = Some (0x2000, 5)" by code_simp
  have m2: "strtoul ?b (5 + 1) 16 = Some (of_nat (length ''ab''), 7)" by code_simp
  have h: "concat (map hexbyte ''ab'') = ''6162''" by code_simp
  have ph: "phys (g_paging ?g) mem va = Some va" "stable (g_paging ?g) mem UNIV" for mem va
    by (simp_all add: phys_def stable_def fun_eq_iff phys_addr_lookup_def ex_gdb_def ex_paging_def Let_def)
  have "{..<length ''ab''} = {0, 1}" by auto
  then have i: "inj_on (\<lambda>i. phys (g_paging ?g) (g_mem ?g) (0x2000 + of_nat i)) {..<length ''ab''}" unfolding ph by (simp add: inj_on_def)
  have x: "g_inbuf ?g = CHR ''X'' # (''2000,2:ab'' @ replicate 391 NUL)" by (simp add: ex_gdb_def)
  have y: "?b = CHR ''m'' # (''2000,2'' @ replicate 394 NUL)" by simp
  have k: "8 + unat (2 :: u32) \<le> BUFMAX" "''ab'' \<noteq> []" "2 * length ''ab'' \<le> BUFMAX" "length (g_inbuf ?g) = BUFMAX + 1"
    "unat (g_base ?g) + BUFMAX < 2 ^ 32" "length ?b = BUFMAX + 1" "(5 :: nat) \<noteq> 1" "5 \<le> BUFMAX" "?b ! 5 = CHR '',''" "(7 :: nat) \<noteq> 5 + 1"
    by (simp_all add: ex_gdb_def BUFMAX_def)
  have p: "\<exists>a \<in> UNIV. phys (g_paging ?g) (g_mem ?g) (0x2000 + of_nat i) = Some a" if "i < length ''ab''" for i by (simp add: ph)
  show ?thesis
    using memory_roundtrip [OF x a k(1) u k(2-5) ph(2) p i y k(6) m k(7-9) m2 k(10), of None] unfolding h by blast
qed

section \<open>Single registers and resuming\<close>

lemma small_register: "reg < 16 \<Longrightarrow> unat (reg * 4) = 4 * unat (reg :: u32) \<and> unat ((reg + 1) * 4) = 4 * unat reg + 4"
proof -
  assume r: "reg < 16"
  then have "unat reg < 16" by (simp add: word_less_nat_alt)
  moreover have "reg * 4 = of_nat (4 * unat reg)" "(reg + 1) * 4 = of_nat (4 * unat reg + 4)" by simp_all
  ultimately show ?thesis by (simp only: unat_of_nat) simp
qed

text \<open>
  The command \<open>P\<close> sets one register: the word with the digits sent becomes the register with the number sent, every other register keeps its value, and the registers
  are marked as changed.
\<close>

lemma register_written:
  assumes "g_inbuf g = CHR ''P'' # t" and "strtoul (g_inbuf g) 1 16 = Some (reg, p)" "p \<noteq> 1" "g_inbuf g ! p = CHR ''=''" "reg < 16"
    and "take 8 (drop (p + 1) (g_inbuf g)) = concat (map hexbyte (word_bytes w))" "p + 9 \<le> length (g_inbuf g)" "length (regs (g_par g)) = 64"
  shows "\<exists>rs. command cb g = Some (Ok_reply, GDB_MORE, g\<lparr>g_par := (g_par g)\<lparr>regs := rs, regs_changed := 1\<rparr>\<rparr>) \<and> length rs = 64 \<and>
    (\<forall>j. get_reg j rs = (if j = unat reg then w else get_reg j (regs (g_par g))))"
proof -
  note r = small_register [OF assms(5)]
  have u: "unat reg < 16" using assms(5) by (simp add: word_less_nat_alt)
  have h: "hex2bin (g_inbuf g) (p + 1) 4 = Some (True, word_bytes w)"
    using hex2bin_hexbytes [of "p + 1" "word_bytes w" "g_inbuf g"] assms(6,7) by simp
  have s: "put_bytes (4 * unat reg) (word_bytes w) (regs (g_par g)) = Some (set_reg (unat reg) w (regs (g_par g)))"
    using u assms(8) by (intro put_set_reg) simp
  have "\<not> (reg + 1) * 4 > 64" "reg \<noteq> 0x29" using u r by (auto simp: word_less_nat_alt)
  then have "command cb g = Some (Ok_reply, GDB_MORE, g\<lparr>g_par := (g_par g)\<lparr>regs := set_reg (unat reg) w (regs (g_par g)), regs_changed := 1\<rparr>\<rparr>)"
    using assms(2-4,7,8) h s r by (simp add: command_cases(5) [OF assms(1)] cmd_P_def)
  moreover have "4 * unat reg + 4 \<le> length (regs (g_par g))" using u assms(8) by simp
  note set_reg_get [OF this]
  ultimately show ?thesis using assms(8) by (intro exI [of _ "set_reg (unat reg) w (regs (g_par g))"]) simp
qed

lemma register_written_witness:
  "\<exists>rs. command None (ex_gdb ''P8=78563412'') =
     Some (Ok_reply, GDB_MORE, (ex_gdb ''P8=78563412'')\<lparr>g_par := (g_par (ex_gdb ''P8=78563412''))\<lparr>regs := rs, regs_changed := 1\<rparr>\<rparr>) \<and>
     get_reg EIP rs = 0x12345678"
proof -
  let ?g = "ex_gdb ''P8=78563412''"
  have a: "strtoul (g_inbuf ?g) 1 16 = Some (8, 2)" by code_simp
  have b: "take 8 (drop (2 + 1) (g_inbuf ?g)) = concat (map hexbyte (word_bytes 0x12345678))" by code_simp
  have c: "g_inbuf ?g = CHR ''P'' # (''8=78563412'' @ replicate 390 NUL)" by (simp add: ex_gdb_def)
  have d: "(2 :: nat) \<noteq> 1" "g_inbuf ?g ! 2 = CHR ''=''" "(8 :: u32) < 16" "2 + 9 \<le> length (g_inbuf ?g)" "length (regs (g_par ?g)) = 64"
    by (simp_all add: ex_gdb_def ex_params_def)
  have e: "EIP = unat (8 :: u32)" by (simp add: EIP_def)
  show ?thesis using register_written [OF c a d(1-3) b d(4,5), of None] unfolding e by metis
qed

lemma trace_bits: "bit (x OR EFL_TF) k \<longleftrightarrow> k = 8 \<or> bit x k" "k < 32 \<Longrightarrow> bit (x AND NOT EFL_TF) k \<longleftrightarrow> k \<noteq> 8 \<and> bit x k"
proof -
  have e: "EFL_TF = push_bit 8 (mask 1)" by (simp add: EFL_TF_def mask_eq_exp_minus_1)
  have b: "bit EFL_TF k \<longleftrightarrow> k = 8" unfolding e bit_push_bit_iff bit_mask_iff by auto
  show "bit (x OR EFL_TF) k \<longleftrightarrow> k = 8 \<or> bit x k" using b by (auto simp: bit_or_iff)
  show "k < 32 \<Longrightarrow> bit (x AND NOT EFL_TF) k \<longleftrightarrow> k \<noteq> 8 \<and> bit x k" using b by (auto simp: bit_and_iff bit_not_iff)
qed

lemma trace_flag_registers:
  assumes "length rs = 64"
  shows "get_reg j (gdb_set_trace_flag e rs) =
      (if j = EFLAGS then (if e then get_reg EFLAGS rs OR EFL_TF else get_reg EFLAGS rs AND NOT EFL_TF) else get_reg j rs)"
    "length (gdb_set_trace_flag e rs) = 64"
  using assms by (auto simp: gdb_set_trace_flag_def set_reg_get EFLAGS_def)

text \<open>
  C36. The commands \<open>c\<close> and \<open>s\<close> end the conversation without an answer: the program goes on at the address sent, or where it was if there is none, the trap flag is set
  for a single step and cleared otherwise, the signal is consumed, and every other register, every other flag and the memory are as before.
\<close>

theorem resume_registers:
  assumes "g_inbuf g = CHR ''c'' # t \<or> g_inbuf g = CHR ''s'' # t" and "strtoul (g_inbuf g) 1 16 = Some (addr, p)" "1 \<le> p"
    and "length (regs (g_par g)) = 64"
  shows "\<exists>g'. command cb g = Some (No_reply, GDB_CONT, g') \<and> g_mem g' = g_mem g \<and> signo (g_par g') = NUL \<and>
    get_reg EIP (regs (g_par g')) = (if p > 1 then addr else get_reg EIP (regs (g_par g))) \<and>
    (\<forall>j. j \<noteq> EIP \<and> j \<noteq> EFLAGS \<longrightarrow> get_reg j (regs (g_par g')) = get_reg j (regs (g_par g))) \<and>
    (\<forall>k<32. bit (get_reg EFLAGS (regs (g_par g'))) k = (if k = 8 then hd (g_inbuf g) = CHR ''s'' else bit (get_reg EFLAGS (regs (g_par g))) k))"
proof -
  let ?step = "hd (g_inbuf g) = CHR ''s''" and ?rs = "regs (g_par g)"
  define rs where "rs = (if p > 1 \<and> addr \<noteq> get_reg EIP ?rs then set_reg EIP addr ?rs else ?rs)"
  have rs: "length rs = 64" "get_reg j rs = (if j = EIP \<and> p > 1 then addr else get_reg j ?rs)" for j
    using assms(4) by (auto simp: rs_def set_reg_get EIP_def)
  have "command cb g = cmd_c g" using assms(1) command_cases(9,10) by blast
  also have "\<dots> = resume_at 1 ?step NUL g" using assms(1) by (auto simp: cmd_c_def)
  finally have c: "command cb g = resume_at 1 ?step NUL g" .
  obtain g' where g': "resume_at 1 ?step NUL g = Some (No_reply, GDB_CONT, g')" "regs (g_par g') = gdb_set_trace_flag ?step rs"
    "signo (g_par g') = NUL" "g_mem g' = g_mem g"
    using assms(2) by (auto simp: resume_at_def rs_def Let_def)
  have "EIP \<noteq> EFLAGS" by (simp add: EIP_def EFLAGS_def)
  then show ?thesis unfolding c using g' trace_flag_registers [OF rs(1)] rs(2) by (intro exI [of _ g']) (auto simp: trace_bits)
qed

theorem resume_registers_witness:
  "\<exists>g'. command None (ex_gdb ''s1234'') = Some (No_reply, GDB_CONT, g') \<and> get_reg EIP (regs (g_par g')) = 0x1234 \<and>
     bit (get_reg EFLAGS (regs (g_par g'))) 8"
proof -
  let ?g = "ex_gdb ''s1234''"
  have a: "strtoul (g_inbuf ?g) 1 16 = Some (0x1234, 5)" by code_simp
  have b: "g_inbuf ?g = CHR ''c'' # (''1234'' @ replicate 396 NUL) \<or> g_inbuf ?g = CHR ''s'' # (''1234'' @ replicate 396 NUL)" by (simp add: ex_gdb_def)
  have l: "length (regs (g_par ?g)) = 64" by (simp add: ex_gdb_def ex_params_def)
  have h: "hd (g_inbuf ?g) = CHR ''s''" by (simp add: ex_gdb_def)
  obtain g' where g': "command None ?g = Some (No_reply, GDB_CONT, g')" "get_reg EIP (regs (g_par g')) = (if 5 > (1 :: nat) then 0x1234 else get_reg EIP (regs (g_par ?g)))"
    "\<forall>k<32. bit (get_reg EFLAGS (regs (g_par g'))) k = (if k = 8 then hd (g_inbuf ?g) = CHR ''s'' else bit (get_reg EFLAGS (regs (g_par ?g))) k)"
    using resume_registers [OF b a _ l, of None] by auto
  then show ?thesis using h by auto
qed

section \<open>Requests outside of what the code expects\<close>

text \<open>A register number for which the bound overflows: the bytes go outside of the registers, or to another register.\<close>

lemma register_number_overflow:
  "command None (ex_gdb ''P3fffffff=00000000'') = None"
  "map_option (\<lambda>(r, a, g). get_reg 0 (regs (g_par g))) (command None (ex_gdb ''P40000000=78563412'')) = Some 0x12345678"
proof -
  let ?g = "ex_gdb ''P3fffffff=00000000''" and ?h = "ex_gdb ''P40000000=78563412''"
  have b: "g_inbuf ?g = CHR ''P'' # (''3fffffff=00000000'' @ replicate 383 NUL)" "g_inbuf ?h = CHR ''P'' # (''40000000=78563412'' @ replicate 383 NUL)"
    by (simp_all add: ex_gdb_def)
  have s: "strtoul (g_inbuf ?g) 1 16 = Some (0x3fffffff, 9)" "ld (g_inbuf ?g) 9 = Some (CHR ''='')" "hex2bin (g_inbuf ?g) (9 + 1) 4 = Some (True, replicate 4 NUL)"
    by code_simp+
  have t: "strtoul (g_inbuf ?h) 1 16 = Some (0x40000000, 9)" "ld (g_inbuf ?h) 9 = Some (CHR ''='')"
    "hex2bin (g_inbuf ?h) (9 + 1) 4 = Some (True, word_bytes 0x12345678)" "get_reg 0 (word_bytes 0x12345678 @ replicate 60 NUL) = 0x12345678"
    by code_simp+
  have l: "regs (g_par (ex_gdb x)) = replicate 64 NUL" for x by (simp add: ex_gdb_def ex_params_def)
  show "command None ?g = None"
    unfolding command_cases(5) [OF b(1)] cmd_P_def s Option.bind.bind_lunit prod.case l by (simp add: put_bytes_def)
  have "put_bytes 0 (word_bytes 0x12345678) (replicate 64 NUL) = Some (word_bytes 0x12345678 @ replicate 60 NUL)" by code_simp
  then show "map_option (\<lambda>(r, a, g). get_reg 0 (regs (g_par g))) (command None ?h) = Some 0x12345678"
    unfolding command_cases(5) [OF b(2)] cmd_P_def t Option.bind.bind_lunit prod.case l by (simp add: t(4))
qed

text \<open>A wrong digit in the middle: an error is answered, the registers in front of it are changed and not marked as changed.\<close>

lemma registers_half_written:
  "map_option (\<lambda>(r, a, g). (r, take 2 (regs (g_par g)), regs_changed (g_par g))) (command None (ex_gdb ''G2bxx'')) =
     Some (Err_reply (CHR 0x04), [CHR 0x2b, CHR 0x00], 0)"
  by code_simp

text \<open>A read of no bytes is answered with the digits of the command itself.\<close>

lemma read_nothing:
  "(case command None (ex_gdb ''m0,0'') of Some (Data_reply fs, a, g) \<Rightarrow> send_frags fs | _ \<Rightarrow> None) = Some ''6d302c30''"
  by code_simp

text \<open>A length whose double is 0 passes the bound, and the copy goes past the buffer.\<close>

lemma length_load [simp]: "gdb_copyin pg mem va n = (True, bs) \<Longrightarrow> length bs = unat n"
  using copyin_bytewise [of pg mem va n True bs] by simp

lemma read_two_gigabytes: "command None (ex_gdb ''m0,80000000'') = None"
proof -
  let ?g = "ex_gdb ''m0,80000000''"
  have b: "g_inbuf ?g = CHR ''m'' # (''0,80000000'' @ replicate 390 NUL)" by (simp add: ex_gdb_def)
  have s: "strtoul (g_inbuf ?g) 1 16 = Some (0, 2)" "strtoul (g_inbuf ?g) (2 + 1) 16 = Some (0x80000000, 11)" "ld (g_inbuf ?g) 2 = Some (CHR '','')"
    by code_simp+
  obtain ok bs where c: "gdb_copyin (g_paging ?g) (g_mem ?g) 0 0x80000000 = (ok, bs)" by fastforce
  have "phys (g_paging ?g) (g_mem ?g) va = Some va" for va by (simp add: phys_def phys_addr_lookup_def ex_gdb_def ex_paging_def Let_def)
  then have "ok" using copyin_bytewise [OF c] by simp
  then have "length bs = 0x80000000" using length_load [of _ _ _ _ bs] c by simp
  then have "put_bytes 0 bs (g_inbuf ?g) = None" by (simp add: put_bytes_def ex_gdb_def)
  then show ?thesis unfolding command_cases(6) [OF b] cmd_m_def s c Option.bind.bind_lunit prod.case Let_def by (simp add: BUFMAX_def)
qed

text \<open>The reports of a signal and of the end of a program as they go over the line.\<close>

lemma report_sent:
  "map_option fst (answer (Data_reply [text_frag ''S'', hex_frag [CHR 0x05] 1]) ''+'') = Some ''$S05#b8''"
  by code_simp

end
