(* ===== verification/Debugger.thy ===== *)
theory Debugger
  imports Gdb
begin

unbundle bit_operations_syntax

text \<open>
  The tasks that handle exceptions (\<^verbatim>\<open>kernel/debugger.c\<close>): they find the task that was interrupted through the descriptor table, show its registers on the screen or
  hand it to the debugger, and give it back changed. The memory is the one of the stub, \<open>g_mem\<close>: the screen, from \<^verbatim>\<open>screen_base\<close> on, and the task segments lie in it, so that the
  pictures, the commands of the debugger and the registers given back all change the same bytes (the handlers run in the part of memory that the kernel maps to itself, so
  their addresses are those of the physical memory). The descriptor table, which is read before anything is written, and the values of the control registers are arguments;
  \<open>keys\<close> are the values that the reads of the keyboard port give, and \<open>None\<close> is a wait that never ends, an entry outside of the table or a segment at the null address. The variables of
  the handler and of the stub are not part of \<open>g_mem\<close>: a debugger that overwrites them is outside of the model. What restarts the machine is an outcome.
\<close>

section \<open>The interrupted task\<close>

text \<open>The fields of \<^verbatim>\<open>struct x86_tss\<close> that the kernel does not set itself.\<close>

record full_tss = x86_tss +
  t_back_link :: u32
  t_esp1 :: u32
  t_ss1 :: u32
  t_esp2 :: u32
  t_ss2 :: u32
  t_eax :: u32
  t_ecx :: u32
  t_edx :: u32
  t_ebx :: u32
  t_ebp :: u32
  t_esi :: u32
  t_edi :: u32
  t_ldt :: u32

definition SIGILL :: int where "SIGILL = 4"
definition SIGTRAP :: int where "SIGTRAP = 5"
definition SIGFPE :: int where "SIGFPE = 8"
definition SIGSEGV :: int where "SIGSEGV = 11"

definition trap_signal :: "u32 \<Rightarrow> int" where
  "trap_signal trapno =
     (if trapno \<in> {0, 4, 5, 7, 8, 9, 15} then SIGFPE
      else if trapno \<in> {1, 3} then SIGTRAP
      else if trapno \<in> {10, 11, 12, 13, 14} then SIGSEGV
      else SIGILL)"

text \<open>The copies between the task and \<^verbatim>\<open>struct gdb_state\<close>.\<close>

definition load_state :: "full_tss \<Rightarrow> bytes" where
  "load_state t = concat (map word_bytes
     [t_eax t, t_ecx t, t_edx t, t_ebx t, t_esp t, t_ebp t, t_esi t, t_edi t,
      t_eip t, t_eflags t, t_cs t, t_ss t, t_ds t, t_es t, t_fs t, t_gs t])"

definition store_state :: "bytes \<Rightarrow> full_tss \<Rightarrow> full_tss" where
  "store_state rs t = t\<lparr>t_eax := get_reg 0 rs, t_ecx := get_reg 1 rs, t_edx := get_reg 2 rs, t_ebx := get_reg 3 rs,
     t_esp := get_reg 4 rs, t_ebp := get_reg 5 rs, t_esi := get_reg 6 rs, t_edi := get_reg 7 rs,
     t_eip := get_reg EIP rs, t_eflags := get_reg EFLAGS rs, t_cs := get_reg 10 rs, t_ss := get_reg 11 rs,
     t_ds := get_reg 12 rs, t_es := get_reg 13 rs, t_fs := get_reg 14 rs, t_gs := get_reg 15 rs\<rparr>"

text \<open>The outcome of a handler: the task as it goes on, or a machine that restarts.\<close>

datatype 'a outcome = Resumed 'a | Rebooted

record debug_state =
  do_debug :: int
  line_set :: bool
  stub :: gdb

text \<open>The debugger is told before the machine restarts.\<close>

definition reboot :: "debug_state \<Rightarrow> string \<Rightarrow> (debug_state \<times> string \<times> string) option" where
  "reboot d inp = map_option (\<lambda>(g, sent, inp). (d\<lparr>stub := g\<rparr>, sent, inp)) (gdb_serial_exit (line_set d) (stub d) 0 inp)"

text \<open>What the debugger is told and answered: the outcome, the state, what is left of the input of the line and what was sent.\<close>

definition debugger ::
  "u32 \<Rightarrow> u32 \<Rightarrow> u32 \<Rightarrow> full_tss \<Rightarrow> debug_state \<Rightarrow> string \<Rightarrow> (full_tss outcome \<times> debug_state \<times> string \<times> string) option" where
  "debugger cr0 cr4 trapno t d inp = do {
     let p = (g_par (stub d))\<lparr>thread_id := -1, regs := load_state t, signo := to_char (trap_signal trapno)\<rparr>;
     let g = (stub d)\<lparr>g_par := p, g_paging := copy_client_paging_registers cr0 (t_cr3 t) cr4\<rparr>;
     (act, g, inp, sent) \<leftarrow> gdb_serial_converse None g inp;
     let d = d\<lparr>stub := g, do_debug := (if act = GDB_DETACH then 0 else do_debug d)\<rparr>;
     if act = GDB_KILL then do {
       (d, bye, inp) \<leftarrow> reboot d inp;
       Some (Rebooted, d, inp, sent @ bye) }
     else Some (Resumed (store_state (regs (g_par g)) t), d, inp, sent) }"

section \<open>Task segments in memory\<close>

definition load_half :: "memory \<Rightarrow> u32 \<Rightarrow> u16" where
  "load_half mem a = word_of_int (uchar (mem a)) OR push_bit 8 (word_of_int (uchar (mem (a + 1))))"

definition store_word :: "u32 \<Rightarrow> u32 \<Rightarrow> memory \<Rightarrow> memory" where
  "store_word a v mem = store_block mem a (word_bytes v)"

text \<open>The segment at an address, with the offsets of \<^verbatim>\<open>struct x86_tss\<close>: 25 longs and two shorts.\<close>

definition tss_at :: "u32 \<Rightarrow> memory \<Rightarrow> full_tss" where
  "tss_at a mem =
     (let w = (\<lambda>k. load_word mem (a + 4 * k)) in
      \<lparr>t_esp0 = w 1, t_ss0 = w 2, t_cr3 = w 7, t_eip = w 8, t_eflags = w 9, t_esp = w 14, t_es = w 18, t_cs = w 19,
       t_ss = w 20, t_ds = w 21, t_fs = w 22, t_gs = w 23, t_trace_trap = load_half mem (a + 100), t_io_bit_map_offset = load_half mem (a + 102),
       t_back_link = w 0, t_esp1 = w 3, t_ss1 = w 4, t_esp2 = w 5, t_ss2 = w 6, t_eax = w 10, t_ecx = w 11, t_edx = w 12, t_ebx = w 13,
       t_ebp = w 15, t_esi = w 16, t_edi = w 17, t_ldt = w 24\<rparr>)"

text \<open>The sixteen stores behind a conversation, in their order.\<close>

definition store_registers :: "u32 \<Rightarrow> full_tss \<Rightarrow> memory \<Rightarrow> memory" where
  "store_registers a t = fold (\<lambda>(k, v). store_word (a + 4 * k) v)
     [(10, t_eax t), (11, t_ecx t), (12, t_edx t), (13, t_ebx t), (14, t_esp t), (15, t_ebp t), (16, t_esi t), (17, t_edi t),
      (8, t_eip t), (9, t_eflags t), (19, t_cs t), (20, t_ss t), (21, t_ds t), (18, t_es t), (22, t_fs t), (23, t_gs t)]"

section \<open>The screen\<close>

definition screen_base :: u32 where "screen_base = 0xb8000"

definition hex_upper :: string where "hex_upper = ''0123456789ABCDEF''"

fun write_hex_loop :: "u32 \<Rightarrow> nat \<Rightarrow> u32 \<Rightarrow> memory \<Rightarrow> memory" where
  "write_hex_loop p 0 value mem = mem"
| "write_hex_loop p (Suc n) value mem = write_hex_loop (p - 2) n (drop_bit 4 value) (mem(p - 2 := hex_upper ! unat (value AND 15)))"

definition write_hex :: "nat \<Rightarrow> nat \<Rightarrow> nat \<Rightarrow> u32 \<Rightarrow> memory \<Rightarrow> memory" where
  "write_hex line col len value = write_hex_loop (screen_base + of_nat ((line - 1) * 160 + (col + len - 1) * 2)) len value"

text \<open>The picture of \<^verbatim>\<open>kernel/task_dump_screen.txt\<close>, 25 lines of 80 characters and an end of line.\<close>

definition ruled :: "char \<Rightarrow> (nat \<times> char) list \<Rightarrow> string" where
  "ruled c ns = c # concat (map (\<lambda>(n, d). replicate n CHR 0xcd @ [d]) ns)"

definition boxed :: "string list \<Rightarrow> string" where
  "boxed cs = CHR 0xba # concat (map (\<lambda>c. c @ [CHR 0xba]) cs)"

definition picture_rows :: "string list" where
  "picture_rows = [
      replicate 80 CHR '' '',
      ruled CHR 0xc9 [(78, CHR 0xbb)],
      boxed [replicate 30 CHR '' '' @ ''Exception catched'' @ replicate 31 CHR '' ''],
      boxed [replicate 78 CHR '' ''],
      boxed ['' [SPACE] View Screen    [ESC] Reboot    [I] Ignore    [D] Connect to debugger ''],
      ruled CHR 0xcc [(32, CHR 0xcb), (45, CHR 0xb9)],
      boxed [''            TRAP : XX           '', ''            ERROR CODE : XXXXXXXX            ''],
      ruled CHR 0xcc [(32, CHR 0xce), (45, CHR 0xb9)],
      boxed [''     TSS address : XXXXXXXX     '', ''       Back link (previous TSS) : XXXX       ''],
      ruled CHR 0xcc [(19, CHR 0xcb), (12, CHR 0xca), (6, CHR 0xcb), (22, CHR 0xcb), (15, CHR 0xb9)],
      boxed [''  ESP  : XXXXXXXX  '', ''    SS  : XXXX     '', ''   ESP0 : XXXXXXXX    '', ''   SS0 : XXXX  ''],
      ruled CHR 0xcc [(19, CHR 0xce), (19, CHR 0xce), (22, CHR 0xce), (15, CHR 0xb9)],
      boxed [''  ESP1 : XXXXXXXX  '', ''    SS1 : XXXX     '', ''   ESP2 : XXXXXXXX    '', ''   SS2 : XXXX  ''],
      ruled CHR 0xcc [(19, CHR 0xca), (7, CHR 0xcb), (11, CHR 0xca), (8, CHR 0xcb), (13, CHR 0xca), (15, CHR 0xb9)],
      boxed [''      EIP  : XXXXXXXX      '', ''     CS  : XXXX     '', ''      EFLAGS : XXXXXXXX      ''],
      ruled CHR 0xcc [(19, CHR 0xcb), (7, CHR 0xca), (11, CHR 0xcb), (8, CHR 0xca), (10, CHR 0xcb), (18, CHR 0xb9)],
      boxed [''  EAX : XXXXXXXX   '', ''  EBX : XXXXXXXX   '', ''  ECX : XXXXXXXX   '', ''  EDX : XXXXXXXX  ''],
      ruled CHR 0xcc [(19, CHR 0xce), (19, CHR 0xce), (19, CHR 0xce), (18, CHR 0xb9)],
      boxed [''  ESI : XXXXXXXX   '', ''  EDI : XXXXXXXX   '', ''  EBP : XXXXXXXX   '', ''    LDT : XXXX    ''],
      ruled CHR 0xcc [(19, CHR 0xce), (19, CHR 0xce), (19, CHR 0xce), (18, CHR 0xb9)],
      boxed [''     DS : XXXX     '', ''     ES : XXXX     '', ''     FS : XXXX     '', ''     GS : XXXX    ''],
      ruled CHR 0xcc [(19, CHR 0xca), (19, CHR 0xca), (5, CHR 0xcb), (13, CHR 0xca), (18, CHR 0xb9)],
      boxed [''         CR3 (page table) : XXXXXXXX         '', ''         Debug Trap : X         ''],
      ruled CHR 0xc8 [(45, CHR 0xca), (32, CHR 0xbc)],
      replicate 80 CHR '' '']"

definition task_dump_screen :: bytes where
  "task_dump_screen = concat (map (\<lambda>r. r @ [CHR 0x0A]) picture_rows)"

text \<open>Bytes stored at places of the screen, in their order.\<close>

definition stores :: "(nat \<times> char) list \<Rightarrow> memory \<Rightarrow> memory" where
  "stores = fold (\<lambda>(p, c) mem. mem(screen_base + of_nat p := c))"

definition picture :: "(nat \<times> char) list" where
  "picture = concat (map (\<lambda>i. map (\<lambda>j. (i * 160 + j * 2, task_dump_screen ! (81 * i + j))) [0..<80]) [0..<25])"

text \<open>The calls of \<^verbatim>\<open>write_hex\<close>; a field of the task is read when its call comes.\<close>

definition dump_fields :: "u32 \<Rightarrow> u32 \<Rightarrow> u32 \<Rightarrow> (nat \<times> nat \<times> nat \<times> (memory \<Rightarrow> u32)) list" where
  "dump_fields trapno error_code a =
    (let t = tss_at a in
     [(7, 21, 2, \<lambda>m. trapno), (7, 60, 8, \<lambda>m. error_code), (9, 21, 8, \<lambda>m. a), (9, 69, 4, \<lambda>m. t_back_link (t m)),
      (11, 11, 8, \<lambda>m. t_esp (t m)), (11, 32, 4, \<lambda>m. t_ss (t m)), (11, 52, 8, \<lambda>m. t_esp0 (t m)), (11, 74, 4, \<lambda>m. t_ss0 (t m)),
      (13, 11, 8, \<lambda>m. t_esp1 (t m)), (13, 32, 4, \<lambda>m. t_ss1 (t m)), (13, 52, 8, \<lambda>m. t_esp2 (t m)), (13, 74, 4, \<lambda>m. t_ss2 (t m)),
      (15, 15, 8, \<lambda>m. t_eip (t m)), (15, 41, 4, \<lambda>m. t_cs (t m)), (15, 66, 8, \<lambda>m. t_eflags (t m)),
      (17, 10, 8, \<lambda>m. t_eax (t m)), (17, 30, 8, \<lambda>m. t_ebx (t m)), (17, 50, 8, \<lambda>m. t_ecx (t m)), (17, 70, 8, \<lambda>m. t_edx (t m)),
      (19, 10, 8, \<lambda>m. t_esi (t m)), (19, 30, 8, \<lambda>m. t_edi (t m)), (19, 50, 8, \<lambda>m. t_ebp (t m)), (19, 72, 4, \<lambda>m. t_ldt (t m)),
      (21, 12, 4, \<lambda>m. t_ds (t m)), (21, 32, 4, \<lambda>m. t_es (t m)), (21, 52, 4, \<lambda>m. t_fs (t m)), (21, 72, 4, \<lambda>m. t_gs (t m)),
      (23, 30, 8, \<lambda>m. t_cr3 (t m)), (23, 70, 1, \<lambda>m. ucast (t_trace_trap (t m) AND 1))])"

definition write_all :: "(nat \<times> nat \<times> nat \<times> (memory \<Rightarrow> u32)) list \<Rightarrow> memory \<Rightarrow> memory" where
  "write_all = fold (\<lambda>(line, col, len, f) mem. write_hex line col len (f mem) mem)"

definition dump_registers :: "u32 \<Rightarrow> u32 \<Rightarrow> u32 \<Rightarrow> memory \<Rightarrow> memory" where
  "dump_registers trapno error_code a mem =
     (let mem = stores picture mem;
          mem = stores (map (\<lambda>i. (2 * i + 1, CHR 0x30)) [0..<80 * 25]) mem;
          mem = stores (map (\<lambda>i. (2 * i + 1, CHR 0x34)) [161..<239]) mem
      in write_all (dump_fields trapno error_code a) mem)"

section \<open>The handler\<close>

definition tss_sel_2_tss :: "u64 list \<Rightarrow> u16 \<Rightarrow> u32 option" where
  "tss_sel_2_tss table sel =
     (let i = unat (drop_bit 3 sel) in
      if i < length table then
        Some ((ucast (drop_bit 16 (table ! i)) AND 0xffffff) + push_bit 24 (ucast (drop_bit 56 (table ! i) AND 0xff)))
      else None)"

text \<open>The loop that waits for another value of the port.\<close>

fun wait_release :: "char \<Rightarrow> string \<Rightarrow> string option" where
  "wait_release k [] = None"
| "wait_release k (c # keys) = (if c = k then wait_release k keys else Some keys)"

datatype key_end = Key_reboot | Key_leave | Key_debug

lemma wait_release_shorter: "wait_release k keys = Some keys' \<Longrightarrow> length keys' < length keys"
  by (induction keys) (auto split: if_splits)

function key_loop :: "(memory \<Rightarrow> memory) \<Rightarrow> bytes \<Rightarrow> bool \<Rightarrow> memory \<Rightarrow> string \<Rightarrow> (key_end \<times> memory \<times> string) option" where
  "key_loop draw saved d mem [] = None"
| "key_loop draw saved d mem (c # keys) =
     (let restored = store_block mem screen_base saved in
      if c = CHR 0x39 then
        (case wait_release CHR 0x39 keys of None \<Rightarrow> None
         | Some keys \<Rightarrow> key_loop draw saved (\<not> d) (if \<not> d then draw mem else restored) keys)
      else if c = CHR 0x01 then Some (Key_reboot, mem, keys)
      else if c = CHR 0x17 then map_option (\<lambda>keys. (Key_leave, restored, keys)) (wait_release CHR 0x17 keys)
      else if c = CHR 0x20 then map_option (\<lambda>keys. (Key_debug, restored, keys)) (wait_release CHR 0x20 keys)
      else key_loop draw saved d mem keys)"
  by pat_completeness auto
termination by (relation "measure (\<lambda>(draw, saved, d, mem, keys). length keys)") (auto dest: wait_release_shorter)

definition upd_mem :: "(memory \<Rightarrow> memory) \<Rightarrow> debug_state \<Rightarrow> debug_state" where
  "upd_mem f d = d\<lparr>stub := (stub d)\<lparr>g_mem := f (g_mem (stub d))\<rparr>\<rparr>"

definition enable_debugger :: "debug_state \<Rightarrow> debug_state" where
  "enable_debugger d = d\<lparr>do_debug := 1, line_set := True\<rparr>"

text \<open>The debugger on the task at an address.\<close>

definition debug_task :: "u32 \<Rightarrow> u32 \<Rightarrow> u32 \<Rightarrow> u32 \<Rightarrow> debug_state \<Rightarrow> string \<Rightarrow> (debug_state outcome \<times> string) option" where
  "debug_task cr0 cr4 trapno a d inp = do {
     (out, d, inp, sent) \<leftarrow> debugger cr0 cr4 trapno (tss_at a (g_mem (stub d))) d inp;
     Some (case out of Rebooted \<Rightarrow> Rebooted | Resumed t \<Rightarrow> Resumed (upd_mem (store_registers a t) d), sent) }"

definition trap_handler ::
  "u64 list \<Rightarrow> u16 \<Rightarrow> u32 \<Rightarrow> u32 \<Rightarrow> u32 \<Rightarrow> u32 \<Rightarrow> debug_state \<Rightarrow> string \<Rightarrow> string \<Rightarrow> (debug_state outcome \<times> string) option" where
  "trap_handler table tr cr0 cr4 trapno error_code d keys inp = do {
     own \<leftarrow> tss_sel_2_tss table tr;
     assert_that (own \<noteq> 0);
     a \<leftarrow> tss_sel_2_tss table (ucast (t_back_link (tss_at own (g_mem (stub d)))));
     assert_that (a \<noteq> 0);
     if do_debug d \<noteq> 0 then debug_task cr0 cr4 trapno a d inp
     else do {
       let video_mem = load_block (g_mem (stub d)) screen_base 4000;
       let d = upd_mem (dump_registers trapno error_code a) d;
       (e, mem, keys) \<leftarrow> key_loop (dump_registers trapno error_code a) video_mem True (g_mem (stub d)) keys;
       let d = upd_mem (\<lambda>_. mem) d;
       case e of Key_reboot \<Rightarrow> map_option (\<lambda>(d, sent, inp). (Rebooted, sent)) (reboot d inp)
       | Key_leave \<Rightarrow> Some (Resumed d, [])
       | Key_debug \<Rightarrow> debug_task cr0 cr4 trapno a (enable_debugger d) inp } }"

section \<open>Tasks and their selectors\<close>

lemma tss_sel_2_tss_base:
  "tss_sel_2_tss table sel = (if unat (drop_bit 3 sel) < length table then Some (seg_base (table ! unat (drop_bit 3 sel))) else None)"
proof -
  have "(ucast (drop_bit 16 e) AND 0xffffff) + push_bit 24 (ucast (drop_bit 56 e AND 0xff)) = seg_base e" for e :: u64
  proof -
    have m: "(0xffffff :: u32) = mask 24" "(0xff :: u64) = mask 8" by (simp_all add: mask_eq_exp_minus_1)
    have "(ucast (drop_bit 16 e) AND mask 24) + push_bit 24 (ucast (drop_bit 56 e AND mask 8)) =
        (ucast (drop_bit 16 e) AND mask 24) OR push_bit 24 (ucast (drop_bit 56 e AND mask 8) :: u32)"
      by (rule disjunctive_add_eq_or, rule bit_word_eqI) (auto simp: bit_simps)
    also have "\<dots> = seg_base e"
      unfolding seg_base_def low32_def high32_def masks32 by (rule u32_eqI) (simp add: bit_simps)
    finally show ?thesis unfolding m .
  qed
  then show ?thesis by (simp add: tss_sel_2_tss_def Let_def)
qed

lemma fold_entries:
  "length (fold (\<lambda>i g. g[i + k := F i]) [0..<n] g) = length g \<and>
   (j < length g \<longrightarrow> fold (\<lambda>i g. g[i + k := F i]) [0..<n] g ! j = (if k \<le> j \<and> j < k + n then F (j - k) else g ! j))"
proof (induction n)
  case (Suc n)
  then show ?case by (cases "j = n + k") (auto simp: nth_list_update)
qed auto

lemma gdt_entries:
  "length (gdt (setup_gdt a c)) = GDT_ENTRIES"
  "seg_base (gdt (setup_gdt a c) ! 1) = ad_tss a"
  "i < HANDLER_ENTRIES \<Longrightarrow> seg_base (gdt (setup_gdt a c) ! (10 + i)) = ad_trap_tss a + sizeof_tss * of_nat i"
  using fold_entries [where F = "\<lambda>i. fill_descriptor (ad_trap_tss a + sizeof_tss * of_nat i) (sizeof_tss - 1) (ACC_PL_K OR ACC_TSS OR ACC_P) 0"
      and k = "TRAP_TSS_BASE div 8" and n = HANDLER_ENTRIES]
  by (simp_all add: setup_gdt_def Let_def descriptor_base BASE_TSS_def KERNEL_CS_def KERNEL_DS_def USER_CS_def USER_DS_def TRAP_TSS_BASE_def
      GDT_ENTRIES_def HANDLER_ENTRIES_def)

text \<open>
  C38. An exception handler finds the task segments: the selectors that the kernel puts into the descriptor table lead back to the segment of the kernel and to the segment of
  each of the 32 handlers.
\<close>

theorem task_of_selector:
  assumes "i < HANDLER_ENTRIES"
  shows "tss_sel_2_tss (gdt (setup_gdt a c)) (of_nat BASE_TSS) = Some (ad_tss a) \<and>
    tss_sel_2_tss (gdt (setup_gdt a c)) (of_nat (TRAP_TSS_BASE + 8 * i)) = Some (ad_trap_tss a + sizeof_tss * of_nat i)"
proof -
  have u: "unat (of_nat n :: u16) = n" if "n < 2 ^ 16" for n using that by (simp add: unat_of_nat)
  have d: "unat (drop_bit 3 (of_nat n :: u16)) = n div 8" if "n < 2 ^ 16" for n
  proof -
    have "unat (drop_bit 3 (of_nat n :: u16)) = drop_bit 3 (unat (of_nat n :: u16))" using that by (simp add: unsigned_drop_bit_eq take_bit_nat_eq_self u)
    then show ?thesis using u [OF that] by (simp add: drop_bit_eq_div)
  qed
  have "BASE_TSS < 2 ^ 16" "TRAP_TSS_BASE + 8 * i < 2 ^ 16" using assms by (simp_all add: BASE_TSS_def TRAP_TSS_BASE_def HANDLER_ENTRIES_def)
  note k = this [THEN d]
  have e: "BASE_TSS div 8 = 1" "(TRAP_TSS_BASE + 8 * i) div 8 = 10 + i" by (simp_all add: BASE_TSS_def TRAP_TSS_BASE_def)
  have "1 < GDT_ENTRIES" "10 + i < GDT_ENTRIES" using assms by (simp_all add: GDT_ENTRIES_def HANDLER_ENTRIES_def)
  then show ?thesis unfolding tss_sel_2_tss_base k e gdt_entries(1,2) gdt_entries(3) [OF assms] by simp
qed

definition ex_layout :: layout where
  "ex_layout = \<lparr>ad_tss = 0x12345678, ad_trap_tss = 0x9abcdef0, ad_trap_stack_end = 0, ad_first_stack_end = 0, ad_pgdir = 0,
     exception_handler_tasks = []\<rparr>"

theorem task_of_selector_witness:
  "tss_sel_2_tss (gdt (setup_gdt ex_layout \<lparr>gdt = [], idt = [], tss = tss_zero, trap_tss = []\<rparr>)) 0x68 = Some 0x9abce028"
  using task_of_selector [of 3 ex_layout "\<lparr>gdt = [], idt = [], tss = tss_zero, trap_tss = []\<rparr>"]
  by (simp add: HANDLER_ENTRIES_def TRAP_TSS_BASE_def ex_layout_def sizeof_tss_def)

definition ex_task :: full_tss where
  "ex_task = x86_tss.extend (tss_zero\<lparr>t_eip := 0x12345678\<rparr>)
     (full_tss.fields 0x28 0 0 0 0 0 0 0 0 0 0 0 0)"

section \<open>Conversations keep the shape of the registers\<close>

definition whole :: "gdb \<Rightarrow> bool" where
  "whole g \<longleftrightarrow> length (regs (g_par g)) = 64"

lemma put_bytes_length: "put_bytes k bs buf = Some buf' \<Longrightarrow> length buf' = length buf"
  by (auto simp: put_bytes_def split: if_splits)

lemma trace_flag_length: "length rs = 64 \<Longrightarrow> length (gdb_set_trace_flag e rs) = 64"
  by (rule trace_flag_registers(2))

lemma err_whole: "err k g = Some (r, a, g') \<Longrightarrow> whole g \<Longrightarrow> whole g'"
  by (simp add: err_def)

lemma resume_whole: "resume_at k e sig g = Some (r, a, g') \<Longrightarrow> whole g \<Longrightarrow> whole g'"
  by (auto simp: resume_at_def whole_def bind_eq_Some_conv Let_def set_reg_get EIP_def intro!: trace_flag_length split: if_splits)

lemma register_commands_whole:
  "cmd_H None g = Some (r, a, g') \<Longrightarrow> whole g \<Longrightarrow> whole g'"
  "cmd_T None g = Some (r, a, g') \<Longrightarrow> whole g \<Longrightarrow> whole g'"
  "cmd_g g = Some (r, a, g') \<Longrightarrow> whole g \<Longrightarrow> whole g'"
  "cmd_G g = Some (r, a, g') \<Longrightarrow> whole g \<Longrightarrow> whole g'"
  "cmd_P g = Some (r, a, g') \<Longrightarrow> whole g \<Longrightarrow> whole g'"
      apply (auto simp: cmd_H_def whole_def err_def bind_eq_Some_conv split: if_splits) [1]
     apply (auto simp: cmd_T_def whole_def err_def bind_eq_Some_conv split: if_splits) [1]
    apply (auto simp: cmd_g_def whole_def) [1]
   apply (auto simp: cmd_G_def whole_def err_def bind_eq_Some_conv Let_def dest!: put_bytes_length split: if_splits) [1]
  apply (auto simp: cmd_P_def whole_def err_def bind_eq_Some_conv Let_def dest!: put_bytes_length split: if_splits) [1]
  done

lemma write_commands_whole:
  assumes "whole g" and "cmd_M g = Some (r, a, g') \<or> cmd_X g = Some (r, a, g')"
  shows "whole g'"
proof -
  consider "write_header g = None" | "write_header g = Some None" | addr n p where "write_header g = Some (Some (addr, n, p))"
    by (metis option.exhaust prod.exhaust)
  then show ?thesis
  proof cases
    case 3
    then show ?thesis using assms
      by (auto simp: cmd_M_def cmd_X_def whole_def err_def bind_eq_Some_conv Let_def split_beta split: if_splits option.split_asm)
  qed (use assms in \<open>auto simp: cmd_M_def cmd_X_def err_def\<close>)
qed

lemma memory_commands_whole:
  "cmd_m g = Some (r, a, g') \<Longrightarrow> whole g \<Longrightarrow> whole g'"
  "cmd_M g = Some (r, a, g') \<Longrightarrow> whole g \<Longrightarrow> whole g'"
  "cmd_X g = Some (r, a, g') \<Longrightarrow> whole g \<Longrightarrow> whole g'"
    apply (auto simp: cmd_m_def whole_def err_def bind_eq_Some_conv Let_def split_beta split: if_splits) [1]
   apply (blast intro: write_commands_whole)+
  done

lemma resuming_commands_whole:
  "cmd_c g = Some (r, a, g') \<Longrightarrow> whole g \<Longrightarrow> whole g'"
  "cmd_C g = Some (r, a, g') \<Longrightarrow> whole g \<Longrightarrow> whole g'"
   apply (auto simp: cmd_c_def bind_eq_Some_conv intro: resume_whole) [1]
  apply (auto simp: cmd_C_def bind_eq_Some_conv Let_def intro: resume_whole err_whole split: if_splits) [1]
  done

lemma report_whole: "report None g = Some (r, a, g') \<Longrightarrow> g' = g \<and> a = GDB_MORE"
  by (simp add: report_def Let_def)

lemma command_whole:
  assumes "command None g = Some (r, a, g')" and "whole g"
  shows "whole g'"
proof -
  obtain c where c: "ld (g_inbuf g) 0 = Some c" using assms(1) by (cases "ld (g_inbuf g) 0") (simp_all add: command_def)
  note k = register_commands_whole memory_commands_whole resuming_commands_whole
  consider "command None g \<in> {cmd_H None g, cmd_T None g, cmd_g g, cmd_G g, cmd_P g, cmd_m g, cmd_M g, cmd_X g, cmd_c g, cmd_C g}"
    | "command None g = report None g" | "g_par g' = g_par g"
    using assms(1) by (auto simp: command_def bind_eq_Some_conv split: if_splits)
  then show ?thesis
  proof cases
    case 1
    then show ?thesis using assms k [of g r a g'] by (elim insertE emptyE) simp_all
  next
    case 2
    then have "report None g = Some (r, a, g')" using assms(1) by simp
    from report_whole [OF this] show ?thesis using assms(2) by simp
  next
    case 3
    then show ?thesis using assms(2) by (simp add: whole_def)
  qed
qed

lemma converse_loop_whole:
  "converse_loop None g inp = Some (act, g', inp', sent) \<Longrightarrow> whole g \<Longrightarrow> whole g' \<and> act \<noteq> GDB_MORE \<and> length inp' < length inp"
proof (induction "length inp" arbitrary: g inp sent rule: less_induct)
  case less
  obtain buf i1 t1 where p: "getpacket (g_inbuf g) inp = Some (buf, i1, t1)"
    using less.prems(1) by (cases "getpacket (g_inbuf g) inp") (auto simp: converse_loop.simps [of None g])
  obtain r a g1 where c: "command None (g\<lparr>g_inbuf := buf, g_connected := 1\<rparr>) = Some (r, a, g1)"
    using less.prems(1) p by (cases "command None (g\<lparr>g_inbuf := buf, g_connected := 1\<rparr>)") (auto simp: converse_loop.simps [of None g])
  obtain t2 i2 where an: "answer r i1 = Some (t2, i2)"
    using less.prems(1) p c by (cases "answer r i1") (auto simp: converse_loop.simps [of None g])
  have g1: "whole g1" using command_whole [OF c] less.prems(2) by (simp add: whole_def)
  have l: "length i2 < length inp" using getpacket_shorter [OF p] answer_shorter [OF an] by simp
  show ?case
  proof (cases "a = GDB_MORE")
    case False
    then show ?thesis using less.prems(1) p c an g1 l by (simp add: converse_loop.simps [of None g])
  next
    case True
    then obtain t3 where "converse_loop None g1 i2 = Some (act, g', inp', t3)"
      using less.prems(1) p c an by (auto simp: converse_loop.simps [of None g])
    then show ?thesis using less.hyps [OF l _ g1] l by fastforce
  qed
qed

lemma converse_whole:
  assumes "gdb_serial_converse None g inp = Some (act, g', inp', sent)" and "length (regs (g_par g)) = 64"
  shows "length (regs (g_par g')) = 64 \<and> act \<noteq> GDB_MORE"
proof -
  obtain r a g1 t1 i1 t2 where c: "report None (upd_par (\<lambda>p. p\<lparr>regs_changed := 0\<rparr>) g) = Some (r, a, g1)" "answer r inp = Some (t1, i1)"
    "converse_loop None g1 i1 = Some (act, g', inp', t2)"
    using assms(1) by (auto simp: gdb_serial_converse_def bind_eq_Some_conv Let_def)
  have "whole g1" using report_whole [OF c(1)] assms(2) by (simp add: whole_def)
  from converse_loop_whole [OF c(3) this] show ?thesis by (simp add: whole_def)
qed

section \<open>The registers of the task\<close>

lemma word_bytes_word:
  assumes "length bs = 4"
  shows "word_bytes (bytes_word bs) = bs"
proof -
  obtain a b c d where bs: "bs = [a, b, c, d]" using assms by (auto simp: numeral_eq_Suc length_Suc_conv)
  have eq: "[0..<4] = [0, 1, 2, 3 :: nat]" by (simp add: upt_rec)
  have u: "(word_of_int (uchar x) :: u32) = take_bit 8 (word_of_int (uchar x))" for x
    using word_of_uchar_to_char [of "uchar x"] by simp
  have i: "to_char (uint (take_bit 8 (word_of_int (uchar x) :: u32))) = x" for x
    using uchar_range [of x] by (simp add: u [symmetric] unsigned_of_int take_bit_int_eq_self)
  have m: "(0xff :: u32) = mask 8" by (simp add: mask_eq_exp_minus_1)
  define w where "w x = (word_of_int (uchar x) :: u32)" for x
  have wb: "\<not> bit (w x) n" if "8 \<le> n" for x n using u [of x] that by (metis bit_take_bit_iff not_less w_def)
  have v: "bytes_word bs = w a OR push_bit 8 (w b) OR push_bit 16 (w c) OR push_bit 24 (w d)"
    by (rule u32_eqI) (simp add: bs bytes_word_def w_def [symmetric] bit_simps wb)
  have "bytes_word bs AND mask 8 = take_bit 8 (w a)" "drop_bit 8 (bytes_word bs) AND mask 8 = take_bit 8 (w b)"
    "drop_bit 16 (bytes_word bs) AND mask 8 = take_bit 8 (w c)" "drop_bit 24 (bytes_word bs) AND mask 8 = take_bit 8 (w d)"
    unfolding v by (rule u32_eqI, simp add: bit_simps wb)+
  then show ?thesis by (simp add: word_bytes_def eq m i w_def bs)
qed

lemma load_store_state:
  assumes "length rs = 64"
  shows "load_state (store_state rs t) = rs"
proof -
  have w: "word_bytes (get_reg i rs) = take 4 (drop (4 * i) rs)" if "i < 16" for i
    using that assms by (simp add: get_reg_def word_bytes_word)
  have s: "take 4 (drop n rs) @ drop (n + 4) rs = drop n rs" for n
    by (metis append_take_drop_id drop_drop add.commute)
  note s' = s [of 0] s [of 4] s [of 8] s [of 12] s [of 16] s [of 20] s [of 24] s [of 28] s [of 32] s [of 36] s [of 40] s [of 44] s [of 48] s [of 52] s [of 56]
  have "drop 60 rs = take 4 (drop 60 rs)" using assms by simp
  then show ?thesis unfolding load_state_def store_state_def using s' by (simp add: w EIP_def EFLAGS_def)
qed

lemma debugger_end:
  assumes "debugger cr0 cr4 trapno t d inp = Some (Resumed t', d', inp', sent)"
  shows "t' = store_state (regs (g_par (stub d'))) t \<and> length (regs (g_par (stub d'))) = 64"
proof -
  let ?g = "(stub d)\<lparr>g_par := (g_par (stub d))\<lparr>thread_id := -1, regs := load_state t, signo := to_char (trap_signal trapno)\<rparr>,
    g_paging := copy_client_paging_registers cr0 (t_cr3 t) cr4\<rparr>"
  obtain act g i1 t1 where c: "gdb_serial_converse None ?g inp = Some (act, g, i1, t1)"
    using assms by (cases "gdb_serial_converse None ?g inp") (auto simp: debugger_def Let_def)
  have "length (regs (g_par ?g)) = 64" by (simp add: load_state_def)
  from converse_whole [OF c this] have l: "length (regs (g_par g)) = 64" by simp
  have "t' = store_state (regs (g_par g)) t" "stub d' = g"
    using assms c by (auto simp: debugger_def Let_def bind_eq_Some_conv split: if_splits)
  then show ?thesis using l by simp
qed



section \<open>What the screen shows\<close>

text \<open>The characters of a line of the screen, without their colours.\<close>

definition screen_row :: "memory \<Rightarrow> nat \<Rightarrow> string" where
  "screen_row mem l = map (\<lambda>j. mem (screen_base + of_nat (160 * l + 2 * j))) [0..<80]"

definition hex_digits :: "nat \<Rightarrow> u32 \<Rightarrow> string" where
  "hex_digits n v = map (\<lambda>k. hex_upper ! unat (drop_bit (4 * (n - 1 - k)) v AND 15)) [0..<n]"

text \<open>What the form should show: behind every label the value that the label names.\<close>

definition form :: "u32 \<Rightarrow> u32 \<Rightarrow> u32 \<Rightarrow> full_tss \<Rightarrow> string list" where
  "form trapno error_code a t =
    (let h2 = hex_digits 2; h4 = hex_digits 4; h8 = hex_digits 8
     in picture_rows
      [6 := boxed [''            TRAP : '' @ h2 trapno @ ''           '', ''            ERROR CODE : '' @ h8 error_code @ ''            ''],
       8 := boxed [''     TSS address : '' @ h8 a @ ''     '', ''       Back link (previous TSS) : '' @ h4 (t_back_link t) @ ''       ''],
       10 := boxed [''  ESP  : '' @ h8 (t_esp t) @ ''  '', ''    SS  : '' @ h4 (t_ss t) @ ''     '',
                    ''   ESP0 : '' @ h8 (t_esp0 t) @ ''    '', ''   SS0 : '' @ h4 (t_ss0 t) @ ''  ''],
       12 := boxed [''  ESP1 : '' @ h8 (t_esp1 t) @ ''  '', ''    SS1 : '' @ h4 (t_ss1 t) @ ''     '',
                    ''   ESP2 : '' @ h8 (t_esp2 t) @ ''    '', ''   SS2 : '' @ h4 (t_ss2 t) @ ''  ''],
       14 := boxed [''      EIP  : '' @ h8 (t_eip t) @ ''      '', ''     CS  : '' @ h4 (t_cs t) @ ''     '', ''      EFLAGS : '' @ h8 (t_eflags t) @ ''      ''],
       16 := boxed [''  EAX : '' @ h8 (t_eax t) @ ''   '', ''  EBX : '' @ h8 (t_ebx t) @ ''   '', ''  ECX : '' @ h8 (t_ecx t) @ ''   '', ''  EDX : '' @ h8 (t_edx t) @ ''  ''],
       18 := boxed [''  ESI : '' @ h8 (t_esi t) @ ''   '', ''  EDI : '' @ h8 (t_edi t) @ ''   '', ''  EBP : '' @ h8 (t_ebp t) @ ''   '', ''    LDT : '' @ h4 (t_ldt t) @ ''    ''],
       20 := boxed [''     DS : '' @ h4 (t_ds t) @ ''     '', ''     ES : '' @ h4 (t_es t) @ ''     '', ''     FS : '' @ h4 (t_fs t) @ ''     '', ''     GS : '' @ h4 (t_gs t) @ ''    ''],
       22 := boxed [''         CR3 (page table) : '' @ h8 (t_cr3 t) @ ''         '', ''         Debug Trap : '' @ hex_digits 1 (ucast (t_trace_trap t AND 1)) @ ''         '']])"

text \<open>Addresses that are not of the screen.\<close>

definition off_screen :: "u32 \<Rightarrow> bool" where
  "off_screen x \<longleftrightarrow> 4000 \<le> unat (x - screen_base)"

lemma screen_address: "p < 4000 \<Longrightarrow> \<not> off_screen (screen_base + of_nat p)"
  by (simp add: off_screen_def unat_of_nat)

lemma screen_address_inj: "p < 4000 \<Longrightarrow> q < 4000 \<Longrightarrow> (screen_base + of_nat p = screen_base + of_nat q) = (p = q)"
proof -
  assume "p < 4000" "q < 4000"
  then have "unat (of_nat p :: u32) = p" "unat (of_nat q :: u32) = q" by (simp_all add: unat_of_nat)
  then show ?thesis by (metis add_left_cancel)
qed

lemma stores_cons: "stores (pc # ps) mem = stores ps (mem(screen_base + of_nat (fst pc) := snd pc))"
  by (simp add: stores_def split_def)

lemma stores_append: "stores (ps @ qs) mem = stores qs (stores ps mem)"
  by (simp add: stores_def)

lemma stores_off: "\<forall>pc \<in> set ps. fst pc < 4000 \<Longrightarrow> off_screen x \<Longrightarrow> stores ps mem x = mem x"
proof (induction ps arbitrary: mem)
  case (Cons pc ps)
  then show ?case using screen_address [of "fst pc"] by (auto simp: stores_cons)
qed (simp add: stores_def)

lemma stores_other:
  "\<forall>pc \<in> set ps. fst pc < 4000 \<Longrightarrow> q < 4000 \<Longrightarrow> q \<notin> fst ` set ps \<Longrightarrow> stores ps mem (screen_base + of_nat q) = mem (screen_base + of_nat q)"
proof (induction ps arbitrary: mem)
  case (Cons pc ps)
  then show ?case using screen_address_inj [of q "fst pc"] by (auto simp: stores_cons)
qed (simp add: stores_def)

lemma stores_at:
  "\<forall>pc \<in> set ps. fst pc < 4000 \<Longrightarrow> distinct (map fst ps) \<Longrightarrow> (q, c) \<in> set ps \<Longrightarrow> stores ps mem (screen_base + of_nat q) = c"
proof (induction ps arbitrary: mem)
  case (Cons pc ps)
  show ?case
  proof (cases "pc = (q, c)")
    case True
    then have "q \<notin> fst ` set ps" "q < 4000" using Cons.prems(1,2) by auto
    then show ?thesis using stores_other [of ps q] Cons.prems(1) by (simp add: stores_cons True)
  qed (use Cons in \<open>auto simp: stores_cons\<close>)
qed simp

text \<open>The digits of a field, from the last to the first.\<close>

definition hex_stores :: "nat \<Rightarrow> nat \<Rightarrow> u32 \<Rightarrow> (nat \<times> char) list" where
  "hex_stores q n v = map (\<lambda>i. (q + 2 * (n - 1 - i), hex_upper ! unat (drop_bit (4 * i) v AND 15))) [0..<n]"

lemma hex_stores_Suc:
  "hex_stores q (Suc n) v = (q + 2 * n, hex_upper ! unat (v AND 15)) # hex_stores q n (drop_bit 4 v)"
proof -
  have "[0..<Suc n] = 0 # map Suc [0..<n]" by (simp add: upt_conv_Cons map_Suc_upt del: upt_Suc)
  then show ?thesis by (simp add: hex_stores_def comp_def add.commute del: upt_Suc)
qed

lemma write_hex_loop_stores:
  "write_hex_loop (screen_base + of_nat (q + 2 * n)) n v mem = stores (hex_stores q n v) mem"
proof (induction n arbitrary: v mem)
  case (Suc n)
  have a: "screen_base + of_nat (q + 2 * Suc n) - 2 = screen_base + of_nat (q + 2 * n)" by simp
  show ?case unfolding write_hex_loop.simps a Suc.IH hex_stores_Suc stores_cons by simp
qed (simp add: hex_stores_def stores_def)

definition cell :: "nat \<Rightarrow> nat \<Rightarrow> nat" where
  "cell line col = (line - 1) * 160 + (col - 1) * 2"

lemma write_hex_stores: "1 \<le> col \<Longrightarrow> write_hex line col len v mem = stores (hex_stores (cell line col) len v) mem"
proof -
  assume "1 \<le> col"
  then have "(line - 1) * 160 + (col + len - 1) * 2 = cell line col + 2 * len" by (simp add: cell_def)
  then show ?thesis unfolding write_hex_def by (simp only: write_hex_loop_stores)
qed

lemma hex_stores_set: "set (hex_stores q n v) = (\<lambda>k. (q + 2 * k, hex_digits n v ! k)) ` {..<n}"
proof (rule set_eqI)
  fix pc
  show "pc \<in> set (hex_stores q n v) \<longleftrightarrow> pc \<in> (\<lambda>k. (q + 2 * k, hex_digits n v ! k)) ` {..<n}"
  proof
    assume "pc \<in> set (hex_stores q n v)"
    then obtain i where i: "i < n" "pc = (q + 2 * (n - 1 - i), hex_upper ! unat (drop_bit (4 * i) v AND 15))" by (auto simp: hex_stores_def)
    then have "pc = (\<lambda>k. (q + 2 * k, hex_digits n v ! k)) (n - 1 - i)" "n - 1 - i < n" by (simp_all add: hex_digits_def)
    then show "pc \<in> (\<lambda>k. (q + 2 * k, hex_digits n v ! k)) ` {..<n}" by blast
  next
    assume "pc \<in> (\<lambda>k. (q + 2 * k, hex_digits n v ! k)) ` {..<n}"
    then obtain k where k: "k < n" "pc = (q + 2 * k, hex_digits n v ! k)" by auto
    then have "pc = (q + 2 * (n - 1 - (n - 1 - k)), hex_upper ! unat (drop_bit (4 * (n - 1 - k)) v AND 15))" by (simp add: hex_digits_def)
    then show "pc \<in> set (hex_stores q n v)" using k(1) unfolding hex_stores_def set_map by (intro image_eqI [where x = "n - 1 - k"]) auto
  qed
qed

lemma hex_stores_distinct: "distinct (map fst (hex_stores q n v))"
  by (auto simp: hex_stores_def distinct_map comp_def inj_on_def)

lemma length_hex_digits [simp]: "length (hex_digits n v) = n"
  by (simp add: hex_digits_def)

text \<open>A row in which a field replaces what stood there.\<close>

definition patch :: "nat \<Rightarrow> string \<Rightarrow> string \<Rightarrow> string" where
  "patch i ds r = take i r @ ds @ drop (i + length ds) r"

fun fits :: "nat \<times> nat \<times> nat \<times> (memory \<Rightarrow> u32) \<Rightarrow> bool" where
  "fits (line, col, len, f) \<longleftrightarrow> 1 \<le> line \<and> line \<le> 25 \<and> 1 \<le> col \<and> col + len \<le> 81"

lemma hex_stores_small:
  assumes "fits (line, col, len, f)"
  shows "\<forall>pc \<in> set (hex_stores (cell line col) len v). fst pc < 4000"
proof
  fix pc assume "pc \<in> set (hex_stores (cell line col) len v)"
  then obtain k where k: "k < len" "fst pc = cell line col + 2 * k" unfolding hex_stores_set by auto
  have "(line - 1) * 160 \<le> 24 * 160" "col - 1 + k < 80" using assms k(1) by auto
  then show "fst pc < 4000" unfolding k(2) cell_def by linarith
qed

lemma write_hex_row:
  assumes fit: "fits (line, col, len, f)" and l: "l < 25"
  shows "screen_row (write_hex line col len v mem) l =
    (if line = Suc l then patch (col - 1) (hex_digits len v) (screen_row mem l) else screen_row mem l)"
proof (rule nth_equalityI)
  let ?ps = "hex_stores (cell line col) len v"
  let ?m = "write_hex line col len v mem"
  have m: "?m = stores ?ps mem" using fit by (simp add: write_hex_stores)
  show "length (screen_row ?m l) = length (if line = Suc l then patch (col - 1) (hex_digits len v) (screen_row mem l) else screen_row mem l)"
    using fit by (auto simp: screen_row_def patch_def)
  fix j assume "j < length (screen_row ?m l)"
  then have j: "j < 80" by (simp add: screen_row_def)
  then have q: "160 * l + 2 * j < 4000" using l by linarith
  have r: "screen_row ?m l ! j = ?m (screen_base + of_nat (160 * l + 2 * j))" "screen_row mem l ! j = mem (screen_base + of_nat (160 * l + 2 * j))"
    using j by (simp_all add: screen_row_def)
  show "screen_row ?m l ! j = (if line = Suc l then patch (col - 1) (hex_digits len v) (screen_row mem l) else screen_row mem l) ! j"
  proof (cases "line = Suc l \<and> col - 1 \<le> j \<and> j < col - 1 + len")
    case True
    define k where "k = j - (col - 1)"
    have k: "k < len" "160 * l + 2 * j = cell line col + 2 * k" using True by (auto simp: k_def cell_def)
    then have "(160 * l + 2 * j, hex_digits len v ! k) \<in> set ?ps" unfolding hex_stores_set by auto
    from stores_at [OF hex_stores_small [OF fit] hex_stores_distinct this, of mem]
    have "screen_row ?m l ! j = hex_digits len v ! k" unfolding r(1) unfolding m .
    moreover have "patch (col - 1) (hex_digits len v) (screen_row mem l) ! j = hex_digits len v ! k"
      using True fit by (auto simp: patch_def nth_append k_def screen_row_def)
    ultimately show ?thesis using True by simp
  next
    case False
    have "160 * l + 2 * j \<notin> fst ` set ?ps"
    proof
      assume "160 * l + 2 * j \<in> fst ` set ?ps"
      then obtain k where k: "k < len" "160 * l + 2 * j = cell line col + 2 * k" unfolding hex_stores_set by auto
      then have e: "80 * l + j = 80 * (line - 1) + (col - 1 + k)" by (simp add: cell_def)
      have c: "col - 1 + k < 80" using k(1) fit by auto
      have "l = line - 1" using arg_cong [OF e, of "\<lambda>x. x div 80"] j c by simp
      then show False using False e k(1) fit by auto
    qed
    then have "screen_row ?m l ! j = screen_row mem l ! j" unfolding r unfolding m by (rule stores_other [OF hex_stores_small [OF fit] q])
    moreover have "patch (col - 1) (hex_digits len v) (screen_row mem l) ! j = screen_row mem l ! j" if "line = Suc l"
      using False fit j that by (auto simp: patch_def nth_append screen_row_def)
    ultimately show ?thesis by auto
  qed
qed

lemma write_hex_off: "fits (line, col, len, f) \<Longrightarrow> off_screen x \<Longrightarrow> write_hex line col len v mem x = mem x"
  using hex_stores_small [of line col len f v] stores_off [of "hex_stores (cell line col) len v"] by (simp add: write_hex_stores)

text \<open>Fields whose values do not depend on the screen.\<close>

definition steady :: "memory \<Rightarrow> (memory \<Rightarrow> u32) \<Rightarrow> bool" where
  "steady m0 f \<longleftrightarrow> (\<forall>m. (\<forall>x. off_screen x \<longrightarrow> m x = m0 x) \<longrightarrow> f m = f m0)"

lemma write_all_Cons: "write_all ((line, col, len, f) # ws) mem = write_all ws (write_hex line col len (f mem) mem)"
  by (simp add: write_all_def)

lemma write_all_off: "\<forall>w \<in> set ws. fits w \<Longrightarrow> off_screen x \<Longrightarrow> write_all ws mem x = mem x"
proof (induction ws arbitrary: mem)
  case (Cons w ws)
  obtain line col len f where w: "w = (line, col, len, f)" by (metis prod.exhaust)
  have "fits (line, col, len, f)" "\<forall>w \<in> set ws. fits w" using Cons.prems(1) unfolding w by (metis list.set_intros)+
  then show ?case unfolding w write_all_Cons using Cons.IH Cons.prems(2) write_hex_off by metis
qed (simp add: write_all_def)

lemma write_all_row:
  assumes "l < 25"
  shows "\<forall>w \<in> set ws. fits w \<Longrightarrow> \<forall>w \<in> set ws. steady m0 (snd (snd (snd w))) \<Longrightarrow> \<forall>x. off_screen x \<longrightarrow> mem x = m0 x \<Longrightarrow>
    screen_row (write_all ws mem) l =
      fold (\<lambda>(line, col, len, f) r. if line = Suc l then patch (col - 1) (hex_digits len (f m0)) r else r) ws (screen_row mem l)"
proof (induction ws arbitrary: mem)
  case (Cons w ws)
  obtain line col len f where w: "w = (line, col, len, f)" by (metis prod.exhaust)
  have fit: "fits (line, col, len, f)" using Cons.prems(1) unfolding w by (metis list.set_intros(1))
  have v: "f mem = f m0" using Cons.prems(2,3) unfolding w steady_def by (metis list.set_intros(1) snd_conv)
  let ?m = "write_hex line col len (f m0) mem"
  have off: "\<forall>x. off_screen x \<longrightarrow> ?m x = m0 x" using write_hex_off [OF fit] Cons.prems(3) by simp
  have "screen_row (write_all (w # ws) mem) l = screen_row (write_all ws ?m) l" by (simp only: w write_all_Cons v)
  also have "\<dots> = fold (\<lambda>(line, col, len, f) r. if line = Suc l then patch (col - 1) (hex_digits len (f m0)) r else r) ws (screen_row ?m l)"
    using Cons.prems(1,2) by (intro Cons.IH [OF _ _ off]) auto
  finally show ?case unfolding write_hex_row [OF fit assms] w by (simp only: fold_Cons comp_apply prod.case)
qed (simp only: write_all_def fold_Nil id_apply)

lemma nth_concat_rows: "\<forall>r \<in> set rs. length r = n \<Longrightarrow> l < length rs \<Longrightarrow> j < n \<Longrightarrow> concat rs ! (n * l + j) = rs ! l ! j"
proof (induction rs arbitrary: l)
  case (Cons r rs)
  then show ?case by (cases l) (auto simp: nth_append)
qed simp

lemma picture_rows_shape: "length picture_rows = 25" "\<forall>r \<in> set picture_rows. length r = 80"
  by (simp_all add: picture_rows_def ruled_def boxed_def)

lemma picture_product: "picture = map (\<lambda>(i, j). (i * 160 + j * 2, task_dump_screen ! (81 * i + j))) (List.product [0..<25] [0..<80])"
  unfolding picture_def product_concat_map map_concat map_map comp_def by (simp only: prod.case)

lemma picture_stores:
  "\<forall>pc \<in> set picture. fst pc < 4000" "distinct (map fst picture)"
proof -
  show "\<forall>pc \<in> set picture. fst pc < 4000" unfolding picture_product by (auto simp del: upt_rec_numeral)
  have "inj_on (\<lambda>(i, j). i * 160 + j * 2) ({0..<25} \<times> {0..<80 :: nat})"
  proof (rule inj_onI, clarify)
    fix i j i' j' :: nat
    assume e: "i \<in> {0..<25}" "j \<in> {0..<80}" "i' \<in> {0..<25}" "j' \<in> {0..<80}" "i * 160 + j * 2 = i' * 160 + j' * 2"
    then have e': "i * 80 + j = i' * 80 + j'" "j < 80" "j' < 80" by auto
    then have "i = i'" using arg_cong [OF e'(1), of "\<lambda>x. x div 80"] by simp
    then show "i = i' \<and> j = j'" using e'(1) by simp
  qed
  then show "distinct (map fst picture)" unfolding picture_product map_map distinct_map
    by (auto simp: distinct_product comp_def split_def simp del: upt_rec_numeral)
qed

lemma picture_row: "l < 25 \<Longrightarrow> screen_row (stores picture mem) l = picture_rows ! l"
proof (rule nth_equalityI)
  assume l: "l < 25"
  then have r: "length (picture_rows ! l) = 80" using picture_rows_shape by simp
  then show "length (screen_row (stores picture mem) l) = length (picture_rows ! l)" by (simp add: screen_row_def)
  fix j assume "j < length (screen_row (stores picture mem) l)"
  then have j: "j < 80" by (simp add: screen_row_def)
  have "task_dump_screen ! (81 * l + j) = map (\<lambda>r. r @ [CHR 0x0A]) picture_rows ! l ! j"
    unfolding task_dump_screen_def using picture_rows_shape l j by (intro nth_concat_rows) auto
  then have t: "task_dump_screen ! (81 * l + j) = picture_rows ! l ! j" using l j r picture_rows_shape(1) by (simp add: nth_append)
  have "(160 * l + 2 * j, picture_rows ! l ! j) \<in> set picture"
    unfolding picture_product t [symmetric] set_map using l j by (intro image_eqI [where x = "(l, j)"]) (auto simp del: upt_rec_numeral)
  from stores_at [OF picture_stores this, of mem] show "screen_row (stores picture mem) l ! j = picture_rows ! l ! j"
    using j by (simp add: screen_row_def)
qed

lemma colours_row:
  assumes "\<forall>pc \<in> set ps. fst pc < 4000 \<and> odd (fst pc)" and "l < 25"
  shows "screen_row (stores ps mem) l = screen_row mem l"
proof -
  have "stores ps mem (screen_base + of_nat (160 * l + 2 * j)) = mem (screen_base + of_nat (160 * l + 2 * j))" if "j < 80" for j
  proof (rule stores_other)
    show "160 * l + 2 * j < 4000" using that assms(2) by linarith
    show "160 * l + 2 * j \<notin> fst ` set ps"
    proof
      assume "160 * l + 2 * j \<in> fst ` set ps"
      then obtain pc where "pc \<in> set ps" "fst pc = 160 * l + 2 * j" by auto
      then have "odd (160 * l + 2 * j)" using assms(1) by metis
      then show False by simp
    qed
  qed (use assms(1) in blast)
  then show ?thesis by (simp add: screen_row_def del: upt_rec_numeral)
qed

text \<open>A task segment outside of the screen keeps its fields while the form is drawn.\<close>

definition apart :: "u32 \<Rightarrow> bool" where
  "apart a \<longleftrightarrow> (\<forall>k<104. off_screen (a + of_nat k))"

lemma apart_word:
  assumes "apart a" and "k < 25" and "\<forall>x. off_screen x \<longrightarrow> m x = m0 x"
  shows "load_word m (a + 4 * of_nat k) = load_word m0 (a + 4 * of_nat k)"
proof -
  have "m (a + 4 * of_nat k + of_nat i) = m0 (a + 4 * of_nat k + of_nat i)" if "i < 4" for i
  proof -
    have "4 * k + i < 104" using assms(2) that by linarith
    then have "off_screen (a + of_nat (4 * k + i))" using assms(1) unfolding apart_def by blast
    then show ?thesis using assms(3) by (simp add: add.assoc)
  qed
  then show ?thesis unfolding load_word_def by (intro sum.cong refl) simp
qed

lemma apart_half:
  assumes "apart a" and "\<forall>x. off_screen x \<longrightarrow> m x = m0 x"
  shows "load_half m (a + 100) = load_half m0 (a + 100)" "load_half m (a + 102) = load_half m0 (a + 102)"
proof -
  have "m (a + of_nat k) = m0 (a + of_nat k)" if "k < 104" for k using assms that by (simp add: apart_def)
  from this [of 100] this [of 101] this [of 102] this [of 103]
  show "load_half m (a + 100) = load_half m0 (a + 100)" "load_half m (a + 102) = load_half m0 (a + 102)" by (simp_all add: load_half_def add.assoc)
qed

lemma apart_tss:
  assumes "apart a" and "\<forall>x. off_screen x \<longrightarrow> m x = m0 x"
  shows "tss_at a m = tss_at a m0"
proof -
  note w = apart_word [OF assms(1) _ assms(2)]
  note ws = w [of 0] w [of 1] w [of 2] w [of 3] w [of 4] w [of 5] w [of 6] w [of 7] w [of 8] w [of 9] w [of 10] w [of 11] w [of 12]
    w [of 13] w [of 14] w [of 15] w [of 16] w [of 17] w [of 18] w [of 19] w [of 20] w [of 21] w [of 22] w [of 23] w [of 24]
  show ?thesis using ws by (simp add: tss_at_def apart_half [OF assms])
qed

lemma fields_fit: "\<forall>w \<in> set (dump_fields trapno error_code a). fits w"
  by (simp add: dump_fields_def Let_def)

lemma fields_steady: "apart a \<Longrightarrow> \<forall>w \<in> set (dump_fields trapno error_code a). steady m0 (snd (snd (snd w)))"
  unfolding steady_def
proof (intro ballI allI impI)
  fix w m
  assume a: "apart a" and w: "w \<in> set (dump_fields trapno error_code a)" and m: "\<forall>x. off_screen x \<longrightarrow> m x = m0 x"
  have e: "tss_at a m = tss_at a m0" by (rule apart_tss [OF a m])
  show "snd (snd (snd w)) m = snd (snd (snd w)) m0" using w unfolding dump_fields_def Let_def by (auto simp only: set_simps insert_iff empty_iff snd_conv e)
qed

lemma dump_off: "off_screen x \<Longrightarrow> dump_registers trapno error_code a mem x = mem x"
proof -
  assume x: "off_screen x"
  have o: "stores (map (\<lambda>i. (2 * i + 1, CHR 0x30)) [0..<80 * 25]) m x = m x" "stores (map (\<lambda>i. (2 * i + 1, CHR 0x34)) [161..<239]) m x = m x"
    "stores picture m x = m x" for m
      apply (rule stores_off [OF _ x], simp del: upt_rec_numeral)
     apply (rule stores_off [OF _ x], simp del: upt_rec_numeral)
    by (rule stores_off [OF picture_stores(1) x])
  show ?thesis unfolding dump_registers_def Let_def write_all_off [OF fields_fit x] o ..
qed

lemma dump_row:
  assumes "apart a" and "l < 25"
  shows "screen_row (dump_registers trapno error_code a mem) l =
    fold (\<lambda>(line, col, len, f) r. if line = Suc l then patch (col - 1) (hex_digits len (f mem)) r else r) (dump_fields trapno error_code a) (picture_rows ! l)"
proof -
  let ?m = "stores (map (\<lambda>i. (2 * i + 1, CHR 0x34)) [161..<239]) (stores (map (\<lambda>i. (2 * i + 1, CHR 0x30)) [0..<80 * 25]) (stores picture mem))"
  have off: "\<forall>x. off_screen x \<longrightarrow> ?m x = mem x"
  proof (intro allI impI)
    fix x assume x: "off_screen x"
    show "?m x = mem x"
      by (subst stores_off [OF _ x], simp del: upt_rec_numeral, subst stores_off [OF _ x], simp del: upt_rec_numeral, rule stores_off [OF picture_stores(1) x])
  qed
  have row: "screen_row ?m l = picture_rows ! l"
    by (subst colours_row [OF _ assms(2)], simp del: upt_rec_numeral, subst colours_row [OF _ assms(2)], simp del: upt_rec_numeral, rule picture_row [OF assms(2)])
  show ?thesis unfolding dump_registers_def Let_def
    using write_all_row [OF assms(2) fields_fit fields_steady [OF assms(1)] off, of trapno error_code] unfolding row .
qed

lemma word_offsets: "i < 4 \<Longrightarrow> j < 4 \<Longrightarrow> (a + of_nat i = (a + of_nat j :: u32)) = (i = j)"
proof -
  assume "i < 4" "j < 4"
  then have "unat (of_nat i :: u32) = i" "unat (of_nat j :: u32) = j" by (simp_all add: unat_of_nat)
  then show ?thesis by (metis add_left_cancel)
qed

lemma store_word_at: "i < 4 \<Longrightarrow> store_word a v mem (a + of_nat i) = word_bytes v ! i"
  unfolding store_word_def using word_offsets by (intro store_block_at) (auto simp: inj_on_def)

lemma store_word_other: "(\<And>i. i < 4 \<Longrightarrow> x \<noteq> a + of_nat i) \<Longrightarrow> store_word a v mem x = mem x"
  unfolding store_word_def by (rule store_block_other) simp

lemma load_store_word: "load_word (store_word a v mem) a = v"
proof -
  have b: "word_bytes v ! i = to_char (uint (drop_bit (8 * i) v AND 0xff))" if "i < 4" for i using that by (simp add: word_bytes_def)
  have m: "(0xff :: u32) = mask 8" by (simp add: mask_eq_exp_minus_1)
  have w: "(word_of_int (uchar (to_char (uint (drop_bit (8 * i) v AND 0xff)))) :: u32) = take_bit 8 (drop_bit (8 * i) v)" for i
    by (simp add: m word_of_uchar_to_char flip: take_bit_eq_mask)
  have s: "take_bit (n + 8) v = take_bit n v + push_bit n (take_bit 8 (drop_bit n v))" for n
  proof -
    have "take_bit n v + push_bit n (take_bit 8 (drop_bit n v)) = take_bit n v OR push_bit n (take_bit 8 (drop_bit n v))"
      by (rule disjunctive_add_eq_or, rule bit_word_eqI) (auto simp: bit_simps)
    also have "\<dots> = take_bit (n + 8) v"
    proof (rule bit_word_eqI)
      fix m assume "m < LENGTH(32)"
      then show "bit (take_bit n v OR push_bit n (take_bit 8 (drop_bit n v))) m = bit (take_bit (n + 8) v) m"
        by (cases "n \<le> m") (auto simp: bit_simps)
    qed
    finally show ?thesis ..
  qed
  have t: "take_bit 32 v = take_bit 8 v + push_bit 8 (take_bit 8 (drop_bit 8 v)) + push_bit 16 (take_bit 8 (drop_bit 16 v)) +
      push_bit 24 (take_bit 8 (drop_bit 24 v))"
    using s [of 8] s [of 16] s [of 24] by (simp only: numeral_plus_numeral add_num_simps)
  have four: "{..<4} = {0, 1, 2, 3 :: nat}" by auto
  have "load_word (store_word a v mem) a = (\<Sum>i<4. push_bit (8 * i) (take_bit 8 (drop_bit (8 * i) v)))"
    unfolding load_word_def by (rule sum.cong) (simp_all add: store_word_at b w)
  also have "\<dots> = take_bit 32 v" unfolding four t by (simp add: add.assoc)
  also have "\<dots> = v" by (rule bit_word_eqI) (simp add: bit_simps)
  finally show ?thesis .
qed

text \<open>The bytes and words of one segment.\<close>

lemma store_field_other:
  assumes "n < 104" and "l < 26" and "n div 4 \<noteq> l"
  shows "store_word (a + 4 * of_nat l) v mem (a + of_nat n) = mem (a + of_nat n)"
proof (rule store_word_other)
  fix i :: nat assume i: "i < 4"
  show "a + of_nat n \<noteq> a + 4 * of_nat l + of_nat i"
  proof
    assume "a + of_nat n = a + 4 * of_nat l + of_nat i"
    then have e: "(of_nat n :: u32) = of_nat (4 * l + i)" by (simp add: add.assoc)
    have u: "unat (of_nat n :: u32) = n" if "n < 200" for n using that by (simp add: unat_of_nat)
    have "n < 200" "4 * l + i < 200" using assms i by linarith+
    then have "n = 4 * l + i" using arg_cong [OF e, of unat] by (simp only: u)
    then show False using assms(3) i by simp
  qed
qed

lemma load_field:
  assumes "k < 26" and "l < 26"
  shows "load_word (store_word (a + 4 * of_nat l) v mem) (a + 4 * of_nat k) = (if k = l then v else load_word mem (a + 4 * of_nat k))"
proof (cases "k = l")
  case False
  have "store_word (a + 4 * of_nat l) v mem (a + 4 * of_nat k + of_nat i) = mem (a + 4 * of_nat k + of_nat i)" if "i < 4" for i
  proof -
    have "4 * k + i < 104" "(4 * k + i) div 4 \<noteq> l" using assms(1) that False by auto
    from store_field_other [OF this(1) assms(2) this(2), of a v mem] show ?thesis by (simp add: add.assoc)
  qed
  then show ?thesis unfolding load_word_def using False by (auto intro: sum.cong)
qed (simp add: load_store_word)

lemma load_stored:
  assumes "k < 26"
  shows "\<forall>(l, v) \<in> set kvs. l < 26 \<Longrightarrow> load_word (fold (\<lambda>(l, v). store_word (a + 4 * of_nat l) v) kvs mem) (a + 4 * of_nat k) =
    (case map_of (rev kvs) k of Some v \<Rightarrow> v | None \<Rightarrow> load_word mem (a + 4 * of_nat k))"
proof (induction kvs rule: rev_induct)
  case (snoc lv kvs)
  then show ?case by (auto simp: load_field [OF assms])
qed simp

lemma half_stored:
  assumes "n < 103" and "\<forall>(l, v) \<in> set kvs. l < 25" and "100 \<le> n"
  shows "load_half (fold (\<lambda>(l, v). store_word (a + 4 * of_nat l) v) kvs mem) (a + of_nat n) = load_half mem (a + of_nat n)"
proof -
  have "fold (\<lambda>(l, v). store_word (a + 4 * of_nat l) v) kvs mem (a + of_nat m) = mem (a + of_nat m)" if "100 \<le> m" "m < 104" for m
    using assms(2)
  proof (induction kvs arbitrary: mem)
    case (Cons lv kvs)
    obtain l v where lv: "lv = (l, v)" by force
    have "25 \<le> m div 4" using div_le_mono [OF that(1), of 4] by simp
    then have "m div 4 \<noteq> l" using Cons.prems by (simp add: lv)
    then show ?case using Cons that store_field_other [of m l a v mem] by (simp add: lv)
  qed simp
  from this [of n] this [of "Suc n"] show ?thesis using assms(1,3) by (simp add: load_half_def algebra_simps)
qed

text \<open>What a segment holds once the registers are stored: they are the ones of the task, and the other fields are as in the memory before.\<close>

lemma tss_stored:
  "tss_at a (store_registers a t mem) = (tss_at a mem)\<lparr>t_eax := t_eax t, t_ecx := t_ecx t, t_edx := t_edx t, t_ebx := t_ebx t,
     t_esp := t_esp t, t_ebp := t_ebp t, t_esi := t_esi t, t_edi := t_edi t, t_eip := t_eip t, t_eflags := t_eflags t,
     t_cs := t_cs t, t_ss := t_ss t, t_ds := t_ds t, t_es := t_es t, t_fs := t_fs t, t_gs := t_gs t\<rparr>"
proof -
  let ?kvs = "[(10, t_eax t), (11, t_ecx t), (12, t_edx t), (13, t_ebx t), (14, t_esp t), (15, t_ebp t), (16, t_esi t), (17, t_edi t),
      (8, t_eip t), (9, t_eflags t), (19, t_cs t), (20, t_ss t), (21, t_ds t), (18, t_es t), (22, t_fs t), (23, t_gs t)] :: (nat \<times> u32) list"
  have s: "store_registers a t mem = fold (\<lambda>(l, v). store_word (a + 4 * of_nat l) v) ?kvs mem" by (simp add: store_registers_def)
  have w: "load_word (store_registers a t mem) (a + 4 * of_nat k) = (case map_of (rev ?kvs) k of Some v \<Rightarrow> v | None \<Rightarrow> load_word mem (a + 4 * of_nat k))"
    if "k < 26" for k unfolding s by (rule load_stored [OF that]) simp
  have h: "load_half (store_registers a t mem) (a + of_nat n) = load_half mem (a + of_nat n)" if "n < 103" "100 \<le> n" for n
    unfolding s by (rule half_stored [OF that(1) _ that(2)]) simp
  note ws = w [of 0] w [of 1] w [of 2] w [of 3] w [of 4] w [of 5] w [of 6] w [of 7] w [of 8] w [of 9] w [of 10] w [of 11] w [of 12]
    w [of 13] w [of 14] w [of 15] w [of 16] w [of 17] w [of 18] w [of 19] w [of 20] w [of 21] w [of 22] w [of 23] w [of 24]
  show ?thesis using ws h [of 100] h [of 102] by (simp add: tss_at_def)
qed

lemma stored_state: "load_state (tss_at a (store_registers a t mem)) = load_state t"
  unfolding tss_stored by (simp add: load_state_def)

lemma form_rows: "length (form trapno error_code a t) = 25"
  by (simp add: form_def Let_def picture_rows_shape)

text \<open>The rows of the picture that have fields.\<close>

lemma picture_field_rows:
  "picture_rows ! 6 = boxed [''            TRAP : XX           '', ''            ERROR CODE : XXXXXXXX            '']"
  "picture_rows ! 8 = boxed [''     TSS address : XXXXXXXX     '', ''       Back link (previous TSS) : XXXX       '']"
  "picture_rows ! 10 = boxed [''  ESP  : XXXXXXXX  '', ''    SS  : XXXX     '', ''   ESP0 : XXXXXXXX    '', ''   SS0 : XXXX  '']"
  "picture_rows ! 12 = boxed [''  ESP1 : XXXXXXXX  '', ''    SS1 : XXXX     '', ''   ESP2 : XXXXXXXX    '', ''   SS2 : XXXX  '']"
  "picture_rows ! 14 = boxed [''      EIP  : XXXXXXXX      '', ''     CS  : XXXX     '', ''      EFLAGS : XXXXXXXX      '']"
  "picture_rows ! 16 = boxed [''  EAX : XXXXXXXX   '', ''  EBX : XXXXXXXX   '', ''  ECX : XXXXXXXX   '', ''  EDX : XXXXXXXX  '']"
  "picture_rows ! 18 = boxed [''  ESI : XXXXXXXX   '', ''  EDI : XXXXXXXX   '', ''  EBP : XXXXXXXX   '', ''    LDT : XXXX    '']"
  "picture_rows ! 20 = boxed [''     DS : XXXX     '', ''     ES : XXXX     '', ''     FS : XXXX     '', ''     GS : XXXX    '']"
  "picture_rows ! 22 = boxed [''         CR3 (page table) : XXXXXXXX         '', ''         Debug Trap : X         '']"
  by (simp_all add: picture_rows_def)

text \<open>The fields of a row, put into the picture of the row.\<close>

definition drawn :: "u32 \<Rightarrow> u32 \<Rightarrow> u32 \<Rightarrow> memory \<Rightarrow> nat \<Rightarrow> string" where
  "drawn trapno error_code a mem l = fold (\<lambda>(line, col, len, f) r. if line = Suc l then patch (col - 1) (hex_digits len (f mem)) r else r)
     (dump_fields trapno error_code a) (picture_rows ! l)"

lemma drawn_field_rows:
  "drawn trapno error_code a mem 6 = form trapno error_code a (tss_at a mem) ! 6"
  "drawn trapno error_code a mem 8 = form trapno error_code a (tss_at a mem) ! 8"
  "drawn trapno error_code a mem 10 = form trapno error_code a (tss_at a mem) ! 10"
  "drawn trapno error_code a mem 12 = form trapno error_code a (tss_at a mem) ! 12"
  "drawn trapno error_code a mem 14 = form trapno error_code a (tss_at a mem) ! 14"
  "drawn trapno error_code a mem 16 = form trapno error_code a (tss_at a mem) ! 16"
  "drawn trapno error_code a mem 18 = form trapno error_code a (tss_at a mem) ! 18"
  "drawn trapno error_code a mem 20 = form trapno error_code a (tss_at a mem) ! 20"
  "drawn trapno error_code a mem 22 = form trapno error_code a (tss_at a mem) ! 22"
  by (simp_all add: drawn_def dump_fields_def picture_field_rows form_def Let_def picture_rows_shape patch_def boxed_def)

lemma drawn_form: "drawn trapno error_code a mem l = form trapno error_code a (tss_at a mem) ! l"
proof (cases "l \<in> {6, 8, 10, 12, 14, 16, 18, 20, 22}")
  case True
  then show ?thesis by (elim insertE emptyE) (simp_all only: drawn_field_rows)
next
  case False
  then have "drawn trapno error_code a mem l = picture_rows ! l" by (simp add: drawn_def dump_fields_def Let_def)
  then show ?thesis using False by (simp add: form_def Let_def)
qed

text \<open>
  C37. The form of the exception shows the interrupted task: for a task segment outside of the screen, the 25 lines read those of the form, with the hexadecimal digits of the trap,
  of the error code, of the address of the segment and of every register behind the label that names it and everything else as in the picture, and no other byte of
  the memory is changed. (\<^verbatim>\<open>io_bit_map_offset\<close> has no place on the form.)
\<close>

theorem registers_on_screen:
  assumes "apart a"
  shows "map (screen_row (dump_registers trapno error_code a mem)) [0..<25] = form trapno error_code a (tss_at a mem) \<and>
    (\<forall>x. off_screen x \<longrightarrow> dump_registers trapno error_code a mem x = mem x)"
proof (intro conjI allI impI)
  show "map (screen_row (dump_registers trapno error_code a mem)) [0..<25] = form trapno error_code a (tss_at a mem)"
    by (rule nth_equalityI) (simp_all add: form_rows dump_row [OF assms] drawn_form [unfolded drawn_def] del: upt_rec_numeral)
qed (rule dump_off)

definition ex_mem :: memory where
  "ex_mem = store_word 0x2020 0x12345678 (store_word 0x1000 0x10 (\<lambda>_. NUL))"

lemma ex_apart: "apart 0x2000"
proof -
  have "off_screen (0x2000 + of_nat k)" if "k < 104" for k
  proof -
    have "(0x2000 + of_nat k - screen_base :: u32) = of_nat (k + 0xfff4a000)" by (simp add: screen_base_def)
    then show ?thesis unfolding off_screen_def using that by (simp only: unat_of_nat) simp
  qed
  then show ?thesis by (simp add: apart_def)
qed

theorem registers_on_screen_witness:
  "take 25 (screen_row (dump_registers 13 0 0x2000 ex_mem) 14) = CHR 0xba # ''      EIP  : 12345678   ''"
proof -
  have "map (screen_row (dump_registers 13 0 0x2000 ex_mem)) [0..<25] = form 13 0 0x2000 (tss_at 0x2000 ex_mem)"
    using registers_on_screen [OF ex_apart] by blast
  from arg_cong [OF this, of "\<lambda>rs. rs ! 14"]
  have r: "screen_row (dump_registers 13 0 0x2000 ex_mem) 14 = form 13 0 0x2000 (tss_at 0x2000 ex_mem) ! 14" by (simp del: upt_rec_numeral)
  have "load_word ex_mem 0x2020 = 0x12345678" unfolding ex_mem_def by (rule load_store_word)
  then have e: "t_eip (tss_at 0x2000 ex_mem) = 0x12345678" by (simp add: tss_at_def)
  have h: "hex_digits 8 0x12345678 = ''12345678''" by code_simp
  show ?thesis unfolding r by (simp add: form_def Let_def picture_rows_shape boxed_def e h)
qed

section \<open>The screen is given back\<close>

text \<open>What a sequence of keys decides, whatever is on the screen.\<close>

function key_choice :: "string \<Rightarrow> (key_end \<times> string) option" where
  "key_choice [] = None"
| "key_choice (c # keys) =
     (if c = CHR 0x39 then (case wait_release CHR 0x39 keys of None \<Rightarrow> None | Some keys \<Rightarrow> key_choice keys)
      else if c = CHR 0x01 then Some (Key_reboot, keys)
      else if c = CHR 0x17 then map_option (Pair Key_leave) (wait_release CHR 0x17 keys)
      else if c = CHR 0x20 then map_option (Pair Key_debug) (wait_release CHR 0x20 keys)
      else key_choice keys)"
  by pat_completeness auto
termination by (relation "measure length") (auto dest: wait_release_shorter)

lemma restored:
  assumes "\<forall>x. off_screen x \<longrightarrow> mem x = m0 x"
  shows "store_block mem screen_base (load_block m0 screen_base 4000) = m0"
proof
  fix x
  let ?bs = "load_block m0 screen_base 4000"
  have l: "length ?bs = 4000" by simp
  show "store_block mem screen_base ?bs x = m0 x"
  proof (cases "off_screen x")
    case True
    then have "store_block mem screen_base ?bs x = mem x" using screen_address unfolding l [symmetric] by (intro store_block_other) metis
    then show ?thesis using True assms by simp
  next
    case False
    define p where "p = unat (x - screen_base)"
    have p: "p < 4000" "x = screen_base + of_nat p" using False by (simp_all add: off_screen_def p_def)
    have "inj_on (\<lambda>i. screen_base + of_nat i) {..<length ?bs}" unfolding l inj_on_def using screen_address_inj by simp
    then have "store_block mem screen_base ?bs x = ?bs ! p" unfolding p(2) using p(1) l by (intro store_block_at) simp_all
    then show ?thesis using p by (simp add: load_block_nth)
  qed
qed

lemma key_loop_choice:
  assumes draw: "\<And>m x. off_screen x \<Longrightarrow> draw m x = m x"
  shows "\<forall>x. off_screen x \<longrightarrow> mem x = m0 x \<Longrightarrow>
    \<exists>m'. key_loop draw (load_block m0 screen_base 4000) d mem keys =
      map_option (\<lambda>(e, ks). (e, if e = Key_reboot then m' else m0, ks)) (key_choice keys)"
proof (induction "length keys" arbitrary: d mem keys rule: less_induct)
  case less
  let ?bs = "load_block m0 screen_base 4000"
  show ?case
  proof (cases keys)
    case (Cons c ks)
    note r = restored [OF less.prems]
    show ?thesis
    proof (cases "c = CHR 0x39")
      case True
      show ?thesis
      proof (cases "wait_release CHR 0x39 ks")
        case (Some ks')
        let ?m = "if \<not> d then draw mem else store_block mem screen_base ?bs"
        have off: "\<forall>x. off_screen x \<longrightarrow> ?m x = m0 x" unfolding r using less.prems draw by simp
        have "length ks' < length keys" using wait_release_shorter [OF Some] by (simp add: Cons)
        then show ?thesis using less.hyps [OF _ off, of ks' "\<not> d"] by (simp add: Cons True Some Let_def)
      qed (simp add: Cons True)
    next
      case False
      have "length ks < length keys" by (simp add: Cons)
      from less.hyps [OF this less.prems, of d] False show ?thesis unfolding Cons by (auto simp: Let_def r option.map_comp comp_def)
    qed
  qed simp
qed

lemma upd_mem_mem [simp]: "g_mem (stub (upd_mem f d)) = f (g_mem (stub d))" "g_par (stub (upd_mem f d)) = g_par (stub d)" "do_debug (upd_mem f d) = do_debug d" "upd_mem f (upd_mem g d) = upd_mem (\<lambda>m. f (g m)) d"
  by (simp_all add: upd_mem_def)

lemma upd_mem_same: "upd_mem (\<lambda>_. g_mem (stub d)) d = d"
  by (simp add: upd_mem_def)

lemma reboot_upd_mem: "map_option (\<lambda>(d, sent, inp). (Rebooted, sent)) (reboot (upd_mem f d) inp) = map_option (\<lambda>(d, sent, inp). (Rebooted, sent)) (reboot d inp)"
  by (simp add: reboot_def gdb_serial_exit_def upd_mem_def option.map_comp comp_def split_def)

text \<open>The registers that a conversation leaves are those of the segment in memory.\<close>

lemma debug_task_registers:
  assumes "debug_task cr0 cr4 trapno a d inp = Some (Resumed d', sent)"
  shows "load_state (tss_at a (g_mem (stub d'))) = regs (g_par (stub d'))"
proof -
  let ?t = "tss_at a (g_mem (stub d))"
  obtain out d1 i1 where o1: "debugger cr0 cr4 trapno ?t d inp = Some (out, d1, i1, sent)"
    "(case out of Rebooted \<Rightarrow> Rebooted | Resumed t \<Rightarrow> Resumed (upd_mem (store_registers a t) d1)) = Resumed d'"
    using assms by (auto simp: debug_task_def bind_eq_Some_conv)
  then obtain t' where r: "debugger cr0 cr4 trapno ?t d inp = Some (Resumed t', d1, i1, sent)" "d' = upd_mem (store_registers a t') d1"
    by (cases out) auto
  from debugger_end [OF r(1)] show ?thesis by (auto simp: r(2) stored_state load_store_state)
qed

text \<open>
  C17. The handler of an exception leaves no trace of its pictures: without the debugger the keys alone decide, whatever was drawn meanwhile. When the task is resumed by
  key, the memory, the screen in it, and the rest of the state are exactly what they were when the exception came; when a conversation is asked for, it starts from exactly that state, with the
  debugger switched on; and the machine restarts as it would have from that state. With the debugger on, the conversation starts at once. (What the
  debugger itself is told to write, to the screen as well, is left as written.)
\<close>

theorem trap_restores_screen:
  assumes "tss_sel_2_tss table tr = Some own" and "own \<noteq> 0"
    and "tss_sel_2_tss table (ucast (t_back_link (tss_at own (g_mem (stub d))))) = Some a" and "a \<noteq> 0"
  shows "trap_handler table tr cr0 cr4 trapno error_code d keys inp =
    (if do_debug d \<noteq> 0 then debug_task cr0 cr4 trapno a d inp
     else case key_choice keys of
       None \<Rightarrow> None
     | Some (Key_reboot, _) \<Rightarrow> map_option (\<lambda>(d, sent, inp). (Rebooted, sent)) (reboot d inp)
     | Some (Key_leave, _) \<Rightarrow> Some (Resumed d, [])
     | Some (Key_debug, _) \<Rightarrow> debug_task cr0 cr4 trapno a (d\<lparr>do_debug := 1, line_set := True\<rparr>) inp)"
proof (cases "do_debug d = 0")
  case True
  let ?m = "g_mem (stub d)" and ?draw = "dump_registers trapno error_code a"
  have off: "\<forall>x. off_screen x \<longrightarrow> ?draw ?m x = ?m x" using dump_off by blast
  obtain m' where k: "key_loop ?draw (load_block ?m screen_base 4000) True (?draw ?m) keys =
      map_option (\<lambda>(e, ks). (e, if e = Key_reboot then m' else ?m, ks)) (key_choice keys)"
    using key_loop_choice [of ?draw "?draw ?m" ?m True keys, OF dump_off off] by blast
  show ?thesis
  proof (cases "key_choice keys")
    case None
    then show ?thesis using assms True by (simp add: trap_handler_def k Let_def)
  next
    case (Some r)
    obtain e ks where r: "r = (e, ks)" by force
    show ?thesis using assms True
      by (cases e) (simp_all add: trap_handler_def k Let_def Some r reboot_upd_mem upd_mem_same enable_debugger_def)
  qed
qed (use assms in \<open>simp add: trap_handler_def\<close>)

definition ex_table :: "u64 list" where
  "ex_table = [0, fill_descriptor 0x1000 103 (ACC_PL_K OR ACC_TSS OR ACC_P) 0, fill_descriptor 0x2000 103 (ACC_PL_K OR ACC_TSS OR ACC_P) 0]"

definition ex_trap :: debug_state where
  "ex_trap = \<lparr>do_debug = 0, line_set = False, stub = (ex_gdb [])\<lparr>g_mem := ex_mem\<rparr>\<rparr>"

theorem trap_restores_screen_witness:
  "trap_handler ex_table 8 0 0 13 0 ex_trap [CHR 0x39, CHR 0xb9, CHR 0x17, CHR 0x97] [] = Some (Resumed ex_trap, [])"
proof -
  have s: "tss_sel_2_tss ex_table 8 = Some 0x1000" "tss_sel_2_tss ex_table 0x10 = Some 0x2000" by code_simp+
  have m: "load_word ex_mem 0x1000 = 0x10" by code_simp
  have "t_back_link (tss_at 0x1000 ex_mem) = 0x10" by (simp add: tss_at_def m)
  then have b: "ucast (t_back_link (tss_at 0x1000 (g_mem (stub ex_trap)))) = (0x10 :: u16)" by (simp add: ex_trap_def)
  have k: "key_choice [CHR 0x39, CHR 0xb9, CHR 0x17, CHR 0x97] = Some (Key_leave, [])" by simp
  have d: "do_debug ex_trap = 0" by (simp add: ex_trap_def)
  show ?thesis using trap_restores_screen [OF s(1) _ s(2) [folded b], of 0 0 13 0 "[CHR 0x39, CHR 0xb9, CHR 0x17, CHR 0x97]" "[]"]
    by (simp add: k d)
qed

end
