(* ===== verification/Shell.thy ===== *)
theory Shell
  imports Context Devices "HOL-Library.Sublist"
begin

text \<open>
  The shell (\<^verbatim>\<open>user/shell.c\<close>), a program that runs in a process: the table of commands, the parsing of a line in place, the choice of a command by a prefix of its
  name, and the commands on files, colours and the terminal. What a command prints is a string; its effect on the console is in theory \<open>Console\<close>. The commands that start processes,
  jump into the kernel or stop the machine end with an outcome of their own.
\<close>

section \<open>The table of commands\<close>

datatype shell_callback = Shell_fault | Shell_prog | Shell_exec | Shell_debug | Shell_write_file | Shell_cat | Shell_cwd | Shell_pwd | Shell_ls
  | Shell_clear | Shell_colortheme | Shell_piano | Shell_sinfo | Shell_ps | Shell_tests | Shell_palset | Shell_reboot | Shell_cpuid | Shell_help

record shell_command =
  sc_cmd :: string
  sc_description :: string
  sc_cb :: shell_callback

record shell_state =
  shell_association :: "shell_command list"
  shell_max_cmd_len :: nat
  shell_init_done :: int

definition SHELL_MAX_CMD :: nat where "SHELL_MAX_CMD = 32"
definition CMD_BUF_SIZE :: nat where "CMD_BUF_SIZE = 512"
definition MAX_ARGS :: nat where "MAX_ARGS = 16"

definition shell_register_command :: "string \<Rightarrow> string \<Rightarrow> shell_callback \<Rightarrow> shell_state \<Rightarrow> shell_state option" where
  "shell_register_command cmd description cb t = do {
     assert_that (length (shell_association t) < SHELL_MAX_CMD);
     Some (t\<lparr>shell_association := shell_association t @ [\<lparr>sc_cmd = cmd, sc_description = description, sc_cb = cb\<rparr>],
       shell_max_cmd_len := (if length cmd > shell_max_cmd_len t then length cmd else shell_max_cmd_len t), shell_init_done := 1\<rparr>) }"

fun register_all :: "(string \<times> string \<times> shell_callback) list \<Rightarrow> shell_state \<Rightarrow> shell_state option" where
  "register_all [] t = Some t"
| "register_all ((cmd, description, cb) # cs) t = do { t \<leftarrow> shell_register_command cmd description cb t; register_all cs t }"

definition shell_commands :: "(string \<times> string \<times> shell_callback) list" where
  "shell_commands =
    [(''bad'', ''Launch a bad process'', Shell_fault), (''prog'', ''Jump to program space'', Shell_prog),
     (''exec'', ''Execute a file'', Shell_exec), (''debug'', ''Call debugger'', Shell_debug),
     (''write'', ''Write in a file'', Shell_write_file), (''cat'', ''Display a file contents'', Shell_cat),
     (''cd'', ''Change working directory'', Shell_cwd), (''pwd'', ''Print working directory'', Shell_pwd),
     (''ls'', ''List files'', Shell_ls), (''clear'', ''Clear screen'', Shell_clear),
     (''colortheme'', ''Change color theme'', Shell_colortheme), (''piano'', ''Pimp My Piano'', Shell_piano),
     (''sinfo'', ''display semaphore info'', Shell_sinfo), (''ps'', ''list processes'', Shell_ps),
     (''tests'', ''run test suite'', Shell_tests), (''palset'', ''setup the VGA palette'', Shell_palset),
     (''reboot'', ''reboot the computer'', Shell_reboot), (''cpuid'', ''gather cpu info'', Shell_cpuid),
     (''help'', ''show a friendly help screen'', Shell_help)]"

text \<open>The critical section of \<^verbatim>\<open>shell_start\<close>.\<close>

definition shell_setup :: "shell_state \<Rightarrow> shell_state option" where
  "shell_setup t = (if shell_init_done t = 0 then register_all shell_commands t else Some t)"

section \<open>The arguments of a line\<close>

function skip_blanks :: "bytes \<Rightarrow> ptr \<Rightarrow> ptr option" where
  "skip_blanks m p = do { c \<leftarrow> ld m p; if c \<noteq> NUL \<and> isspace c then skip_blanks m (p + 1) else Some p }"
  by pat_completeness auto
termination by (relation "measure (\<lambda>(m, p). length m - p)") auto

function skip_word :: "bytes \<Rightarrow> ptr \<Rightarrow> ptr option" where
  "skip_word m p = do { c \<leftarrow> ld m p; if c \<noteq> NUL \<and> \<not> isspace c then skip_word m (p + 1) else Some p }"
  by pat_completeness auto
termination by (relation "measure (\<lambda>(m, p). length m - p)") auto

declare skip_blanks.simps [simp del] skip_word.simps [simp del]

lemma skip_blanks_forward: "skip_blanks m p = Some q \<Longrightarrow> p \<le> q \<and> q < length m"
proof (induction m p rule: skip_blanks.induct)
  case (1 m p)
  then show ?case by (subst (asm) skip_blanks.simps) (fastforce simp: bind_eq_Some_conv split: if_splits)
qed

lemma skip_word_forward: "skip_word m p = Some q \<Longrightarrow> p \<le> q \<and> q < length m"
proof (induction m p rule: skip_word.induct)
  case (1 m p)
  then show ?case by (subst (asm) skip_word.simps) (fastforce simp: bind_eq_Some_conv split: if_splits)
qed

text \<open>The loop over the words: pointers to them, each now ended by a zero; \<open>n\<close> is what is left of \<open>argv\<close>.\<close>

function shell_args :: "bytes \<Rightarrow> ptr \<Rightarrow> nat \<Rightarrow> (ptr list \<times> bytes) option" where
  "shell_args m p n =
     (case skip_blanks m p of None \<Rightarrow> None
      | Some p \<Rightarrow>
          if m ! p = NUL then Some ([], m)
          else if n = 0 then None
          else (case skip_word m p of None \<Rightarrow> None
            | Some q \<Rightarrow>
                if m ! q = NUL then Some ([p], m)
                else map_option (apfst ((#) p)) (shell_args (m[q := NUL]) (q + 1) (n - 1))))"
  by pat_completeness auto
termination by (relation "measure (\<lambda>(m, p, n). n)") auto

declare shell_args.simps [simp del]

section \<open>The choice of a command\<close>

datatype 'a found = Run 'a | Ambiguous "string list" | Unknown

text \<open>\<^verbatim>\<open>strncmp\<close> of two strings is 0.\<close>

definition same_upto :: "nat \<Rightarrow> string \<Rightarrow> string \<Rightarrow> bool" where
  "same_upto n a b \<longleftrightarrow> take n a = take n b"

text \<open>One depth: how many names match, the last of them, and the array \<open>matches\<close>.\<close>

fun match_row :: "nat \<Rightarrow> string \<Rightarrow> shell_command list \<Rightarrow> bool list \<Rightarrow> nat \<times> shell_command option \<times> bool list" where
  "match_row depth arg (c # cs) (b # bs) =
     (let (n, last, bs) = match_row depth arg cs bs; ok = same_upto depth (sc_cmd c) arg
      in (if ok then n + 1 else n, if ok \<and> last = None then Some c else last, (b \<and> ok) # bs))"
| "match_row depth arg cs bs = (0, None, [])"

function match_depths :: "shell_command list \<Rightarrow> nat \<Rightarrow> string \<Rightarrow> nat \<Rightarrow> bool list \<Rightarrow> shell_command found" where
  "match_depths cs longest arg depth matches =
     (if depth \<le> longest then
        (case match_row depth arg cs matches of (n, match, matches) \<Rightarrow>
           if n = 1 then Run (the match)
           else if n > 1 then Ambiguous (map (sc_cmd \<circ> fst) (filter snd (zip cs matches)))
           else match_depths cs longest arg (depth + 1) matches)
      else Unknown)"
  by pat_completeness auto
termination by (relation "measure (\<lambda>(cs, longest, arg, depth, matches). longest + 1 - depth)") auto

declare match_depths.simps [simp del]

definition find_command :: "shell_state \<Rightarrow> string \<Rightarrow> shell_command found" where
  "find_command t arg =
     match_depths (shell_association t) (shell_max_cmd_len t) arg (length arg) (replicate (length (shell_association t)) True)"

text \<open>The string at an address.\<close>

definition string_at :: "bytes \<Rightarrow> ptr \<Rightarrow> string option" where
  "string_at m p = map_option (blk m p) (strlen m p)"

fun strings_at :: "bytes \<Rightarrow> ptr list \<Rightarrow> string list option" where
  "strings_at m [] = Some []"
| "strings_at m (p # ps) = do { s \<leftarrow> string_at m p; ss \<leftarrow> strings_at m ps; Some (s # ss) }"

text \<open>What the line asks for: a command with its arguments, or a text to print. Of a line of blanks the first argument is not initialised.\<close>

datatype request = Nothing | Call shell_command "string list" | Message string

definition shell_execute_cmd :: "shell_state \<Rightarrow> bytes \<Rightarrow> ptr \<Rightarrow> request option" where
  "shell_execute_cmd t m cmd = do {
     c \<leftarrow> ld m cmd;
     if c = NUL then Some Nothing
     else do {
       (argv, m) \<leftarrow> shell_args m cmd MAX_ARGS;
       args \<leftarrow> strings_at m argv;
       assert_that (args \<noteq> []);
       (case find_command t (hd args) of
          Run f \<Rightarrow> Some (Call f args)
        | Ambiguous names \<Rightarrow> Some (Message (''Ambiguous command. Did you mean : '' @ concat (map (\<lambda>n. n @ '' '') names) @ [CHR 0x0A]))
        | Unknown \<Rightarrow> map_option (\<lambda>s. Message (s @ '' : unknown command'' @ [CHR 0x0A])) (string_at m cmd)) } }"

section \<open>Parsing a line\<close>

text \<open>The words of a text.\<close>

function words :: "string \<Rightarrow> string list" where
  "words s =
     (let t = dropWhile isspace s
      in if t = [] then [] else takeWhile (\<lambda>c. \<not> isspace c) t # words (dropWhile (\<lambda>c. \<not> isspace c) t))"
  by pat_completeness auto
termination
proof (relation "measure length", goal_cases)
  case (2 s t)
  then have "\<not> isspace (hd t)" "t \<noteq> []" using hd_dropWhile [of isspace s] by auto
  then have "length (dropWhile (\<lambda>c. \<not> isspace c) t) < length t" by (cases t) (auto simp: le_imp_less_Suc length_dropWhile_le)
  moreover have "length t \<le> length s" using 2 by (simp add: length_dropWhile_le)
  ultimately show ?case by simp
qed simp

declare words.simps [simp del]

lemma skip_blanks_str: "str_at m p s \<Longrightarrow> skip_blanks m p = Some (p + length (takeWhile isspace s)) \<and> str_at m (p + length (takeWhile isspace s)) (dropWhile isspace s)"
proof (induction s arbitrary: p)
  case Nil
  then show ?case by (simp add: skip_blanks.simps [of m p])
next
  case (Cons c s)
  then show ?case using Cons.IH [of "p + 1"] by (simp add: skip_blanks.simps [of m p])
qed

lemma skip_word_str: "str_at m p s \<Longrightarrow> skip_word m p = Some (p + length (takeWhile (\<lambda>c. \<not> isspace c) s)) \<and>
    str_at m (p + length (takeWhile (\<lambda>c. \<not> isspace c) s)) (dropWhile (\<lambda>c. \<not> isspace c) s)"
proof (induction s arbitrary: p)
  case Nil
  then show ?case by (simp add: skip_word.simps [of m p])
next
  case (Cons c s)
  then show ?case using Cons.IH [of "p + 1"] by (simp add: skip_word.simps [of m p])
qed

lemma str_at_cong:
  "str_at m p s \<Longrightarrow> length m' = length m \<Longrightarrow> (\<And>x. p \<le> x \<Longrightarrow> x \<le> p + length s \<Longrightarrow> m' ! x = m ! x) \<Longrightarrow> str_at m' p s"
proof (induction s arbitrary: p)
  case (Cons c s)
  have "str_at m' (p + 1) s" using Cons.prems by (intro Cons.IH) simp_all
  then show ?case using Cons.prems(1,2) Cons.prems(3) [of p] by simp
qed simp

lemma str_at_append: "str_at m p (s @ t) \<Longrightarrow> q = p + length s \<Longrightarrow> q < length m \<Longrightarrow> str_at (m[q := NUL]) p s"
proof (induction s arbitrary: p)
  case (Cons c s)
  then have "str_at (m[q := NUL]) (p + 1) s" by (intro Cons.IH) simp_all
  then show ?case using Cons.prems by simp
qed simp

lemma string_at_str: "str_at m p s \<Longrightarrow> string_at m p = Some s"
  using str_atD(2) [of m p s] by (simp add: string_at_def strlen_str)

lemma strings_at_str: "list_all2 (str_at m) ps ss \<Longrightarrow> strings_at m ps = Some ss"
  by (induction rule: list_all2_induct) (simp_all add: string_at_str)

lemma words_blank: "isspace c \<Longrightarrow> words (c # s) = words s"
proof -
  assume "isspace c"
  then have "dropWhile isspace (c # s) = dropWhile isspace s" by simp
  then show ?thesis unfolding words.simps [of "c # s"] words.simps [of s] by simp
qed

lemma length_split: "length s = length (takeWhile P s) + length (dropWhile P s)"
  by (metis length_append takeWhile_dropWhile_id)

lemma shell_args_words:
  "str_at m p s \<Longrightarrow> length (words s) \<le> n \<Longrightarrow>
   \<exists>ps m'. shell_args m p n = Some (ps, m') \<and> length m' = length m \<and> list_all2 (str_at m') ps (words s) \<and>
     (words s \<noteq> [] \<longrightarrow> str_at m' p (takeWhile isspace s @ hd (words s))) \<and> (\<forall>x. x < p \<or> p + length s \<le> x \<longrightarrow> m' ! x = m ! x)"
proof (induction n arbitrary: m p s)
  case 0
  let ?t = "dropWhile isspace s" and ?p = "p + length (takeWhile isspace s)"
  have "?t = []" using 0(2) by (subst (asm) words.simps) (simp split: if_splits add: Let_def)
  moreover note b = skip_blanks_str [OF 0(1)]
  moreover have "m ! ?p = NUL" using b unfolding calculation(1) by simp
  moreover have "words s = []" using 0(2) by simp
  ultimately show ?case by (simp add: shell_args.simps [of m])
next
  case (Suc n)
  let ?t = "dropWhile isspace s" and ?p = "p + length (takeWhile isspace s)"
  let ?w = "takeWhile (\<lambda>c. \<not> isspace c) ?t" and ?u = "dropWhile (\<lambda>c. \<not> isspace c) ?t"
  let ?q = "?p + length ?w"
  note b = skip_blanks_str [OF Suc.prems(1)]
  show ?case
  proof (cases "?t = []")
    case True
    then have "words s = []" by (subst words.simps) simp
    then show ?thesis using b True by (simp add: shell_args.simps [of m])
  next
    case t: False
    have ws: "words s = ?w # words ?u" using t by (subst words.simps) (simp add: Let_def)
    note w = skip_word_str [OF conjunct2 [OF b]]
    have pn: "m ! ?p \<noteq> NUL" using b t by (cases ?t) auto
    have split: "s = (takeWhile isspace s @ ?w) @ ?u" by simp
    have ls: "length s = length (takeWhile isspace s) + length ?w + length ?u" using length_split [of s isspace] length_split [of ?t "\<lambda>c. \<not> isspace c"] by simp
    show ?thesis
    proof (cases "?u = []")
      case True
      have wt: "?w = ?t" "takeWhile isspace s @ ?w = s" using True split by (metis append_Nil2 takeWhile_dropWhile_id)+
      have sw: "str_at m ?p ?w" "str_at m p (takeWhile isspace s @ ?w)" using conjunct2 [OF b] Suc.prems(1) unfolding wt(2) unfolding wt(1) .
      have "words [] = []" by (subst words.simps) simp
      then show ?thesis using sw b w pn ws True by (simp add: shell_args.simps [of m p])
    next
      case False
      then obtain c v where u: "?u = c # v" by (cases ?u) auto
      then have c: "isspace c" using hd_dropWhile [of "\<lambda>c. \<not> isspace c" ?t] by simp
      have q: "?q < length m" "m ! ?q \<noteq> NUL" "str_at m (?q + 1) v" using w u by simp_all
      let ?m = "m[?q := NUL]"
      have "str_at ?m (?q + 1) v" using q(3) by (rule str_at_cong) auto
      moreover have "length (words v) \<le> n" using Suc.prems(2) ws u c by (simp add: words_blank)
      ultimately obtain ps m' where r: "shell_args ?m (?q + 1) n = Some (ps, m')" "length m' = length ?m" "list_all2 (str_at m') ps (words v)"
        "\<forall>x. x < ?q + 1 \<or> ?q + 1 + length v \<le> x \<longrightarrow> m' ! x = ?m ! x"
        using Suc.IH by blast
      have a: "shell_args m p (Suc n) = Some (?p # ps, m')"
        using b w pn q(2) r(1) by (simp add: shell_args.simps [of m p])
      have s1: "str_at ?m p (takeWhile isspace s @ ?w)" using str_at_append [of m p "takeWhile isspace s @ ?w" ?u ?q] Suc.prems(1) split q(1) by simp
      have "str_at m ?p (?w @ ?u)" using b by simp
      then have s2: "str_at ?m ?p ?w" using q(1) by (rule str_at_append [OF _ refl])
      have "str_at m' p (takeWhile isspace s @ ?w)" using s1 by (rule str_at_cong) (use r(2,4) in auto)
      moreover have "str_at m' ?p ?w" using s2 by (rule str_at_cong) (use r(2,4) in auto)
      moreover have "m' ! x = m ! x" if "x < p \<or> p + length s \<le> x" for x
        using r(4) [rule_format, of x] that ls u by (auto simp: nth_list_update)
      ultimately show ?thesis using a r(2,3) ws u c by (simp add: words_blank)
    qed
  qed
qed

section \<open>The command of a line\<close>

lemma match_row_filter:
  "length bs = length cs \<Longrightarrow> match_row depth arg cs bs =
     (length (filter (\<lambda>c. same_upto depth (sc_cmd c) arg) cs),
      (let fs = filter (\<lambda>c. same_upto depth (sc_cmd c) arg) cs in if fs = [] then None else Some (last fs)),
      map2 (\<lambda>b c. b \<and> same_upto depth (sc_cmd c) arg) bs cs)"
proof (induction cs arbitrary: bs)
  case (Cons c cs)
  obtain b bs' where bs: "bs = b # bs'" using Cons.prems by (cases bs) auto
  show ?case using Cons.IH [of bs'] Cons.prems by (simp add: bs Let_def)
qed simp

lemma same_upto_prefix: "same_upto (length arg) a arg \<longleftrightarrow> prefix arg a"
  by (auto simp: same_upto_def prefix_def) (metis append_take_drop_id)

lemma same_upto_more: "length arg \<le> depth \<Longrightarrow> same_upto depth a arg \<Longrightarrow> prefix arg a"
  by (simp add: same_upto_def take_is_prefix) (metis take_is_prefix)

lemma no_match_deeper:
  "\<forall>c \<in> set cs. \<not> prefix arg (sc_cmd c) \<Longrightarrow> length arg \<le> depth \<Longrightarrow> length bs = length cs \<Longrightarrow>
   match_depths cs longest arg depth bs = Unknown"
proof (induction "longest + 1 - depth" arbitrary: depth bs)
  case 0
  then show ?case by (simp add: match_depths.simps [of cs])
next
  case (Suc k)
  have n: "filter (\<lambda>c. same_upto depth (sc_cmd c) arg) cs = []" using Suc.prems(1,2) same_upto_more by (fastforce simp: filter_empty_conv)
  have "match_depths cs longest arg (depth + 1) (map2 (\<lambda>b c. b \<and> same_upto depth (sc_cmd c) arg) bs cs) = Unknown"
    using Suc by (intro Suc.hyps(1)) auto
  then show ?case using Suc.prems(3) n by (simp add: match_depths.simps [of cs longest arg depth] match_row_filter)
qed

text \<open>The longest name is known.\<close>

definition table_ok :: "shell_state \<Rightarrow> bool" where
  "table_ok t \<longleftrightarrow> (\<forall>c \<in> set (shell_association t). length (sc_cmd c) \<le> shell_max_cmd_len t)"

lemma register_ok: "table_ok t \<Longrightarrow> shell_register_command cmd d cb t = Some t' \<Longrightarrow> table_ok t'"
  by (fastforce simp: shell_register_command_def table_ok_def split: if_splits)

lemma register_all_ok: "table_ok t \<Longrightarrow> register_all cs t = Some t' \<Longrightarrow> table_ok t'"
  by (induction cs t rule: register_all.induct) (auto simp: bind_eq_Some_conv intro: register_ok)

lemma find_command_prefix:
  assumes "table_ok t"
  shows "find_command t arg =
    (case filter (\<lambda>c. prefix arg (sc_cmd c)) (shell_association t) of
       [] \<Rightarrow> Unknown | [c] \<Rightarrow> Run c | cs \<Rightarrow> Ambiguous (map sc_cmd cs))"
proof -
  let ?cs = "shell_association t" and ?b = "replicate (length (shell_association t)) True"
  let ?f = "filter (\<lambda>c. prefix arg (sc_cmd c)) ?cs"
  have r: "match_row (length arg) arg ?cs ?b = (length ?f, if ?f = [] then None else Some (last ?f), map (\<lambda>c. prefix arg (sc_cmd c)) ?cs)"
    by (simp add: match_row_filter same_upto_prefix Let_def) (simp add: map2_map_map [symmetric] zip_replicate1 comp_def)
  have z: "map (sc_cmd \<circ> fst) (filter snd (zip cs (map P cs))) = map sc_cmd (filter P cs)" for P cs
    by (induction cs) simp_all
  show ?thesis
  proof (cases "?f = []")
    case True
    then have n: "\<forall>c \<in> set ?cs. \<not> prefix arg (sc_cmd c)" by (simp add: filter_empty_conv)
    have "find_command t arg = Unknown" unfolding find_command_def by (rule no_match_deeper [OF n]) simp_all
    then show ?thesis using True by simp
  next
    case False
    then obtain c where c: "c \<in> set ?cs" "prefix arg (sc_cmd c)" by (auto simp: filter_empty_conv)
    have "length arg \<le> length (sc_cmd c)" by (rule prefix_length_le [OF c(2)])
    then have l: "length arg \<le> shell_max_cmd_len t" using assms c(1) by (fastforce simp: table_ok_def)
    show ?thesis
    proof (cases "length ?f = 1")
      case True
      then obtain d where "?f = [d]" by (auto simp: length_Suc_conv)
      then show ?thesis using l r by (simp add: find_command_def match_depths.simps [of ?cs])
    next
      case n1: False
      then obtain d e fs where f: "?f = d # e # fs" using False by (cases ?f; cases "tl ?f") auto
      then show ?thesis using l r z [of ?cs "\<lambda>c. prefix arg (sc_cmd c)"] by (simp add: find_command_def match_depths.simps [of ?cs])
    qed
  qed
qed

text \<open>
  C39. The shell runs what a line of at least one and at most 16 words names: the words of the line, cut out in place, are the arguments; the first of them stands for the one command whose name it begins, else
  the shell says which commands it could be or that there is none.
\<close>

theorem line_runs_command:
  assumes "table_ok t" and "str_at m p line" and "words line = w # ws" and "length (words line) \<le> 16"
  shows "shell_execute_cmd t m p = Some
    (case filter (\<lambda>c. prefix w (sc_cmd c)) (shell_association t) of
       [] \<Rightarrow> Message (takeWhile isspace line @ w @ '' : unknown command'' @ [CHR 0x0A])
     | [c] \<Rightarrow> Call c (w # ws)
     | cs \<Rightarrow> Message (''Ambiguous command. Did you mean : '' @ concat (map (\<lambda>c. sc_cmd c @ '' '') cs) @ [CHR 0x0A]))"
proof -
  obtain ps m' where a: "shell_args m p MAX_ARGS = Some (ps, m')" "list_all2 (str_at m') ps (words line)"
    "words line \<noteq> [] \<longrightarrow> str_at m' p (takeWhile isspace line @ hd (words line))"
    using shell_args_words [OF assms(2), of MAX_ARGS] assms(4) by (auto simp: MAX_ARGS_def)
  have s: "strings_at m' ps = Some (w # ws)" using strings_at_str [OF a(2)] assms(3) by simp
  have u: "string_at m' p = Some (takeWhile isspace line @ w)" using a(3) assms(3) by (simp add: string_at_str)
  have "line \<noteq> []" using assms(3) by (auto simp: words.simps)
  then have n: "p < length m" "m ! p \<noteq> NUL" using assms(2) by (cases line; simp)+
  show ?thesis
    using n a(1) s u by (simp add: shell_execute_cmd_def find_command_prefix [OF assms(1)] comp_def split: list.split)
qed

definition ex_shell :: shell_state where
  "ex_shell = \<lparr>shell_association = map (\<lambda>(a, b, c). \<lparr>sc_cmd = a, sc_description = b, sc_cb = c\<rparr>) shell_commands, shell_max_cmd_len = 10, shell_init_done = 1\<rparr>"

lemma shell_setup_ok: "shell_setup \<lparr>shell_association = [], shell_max_cmd_len = 0, shell_init_done = 0\<rparr> = Some ex_shell" "table_ok ex_shell"
proof -
  show a: "shell_setup \<lparr>shell_association = [], shell_max_cmd_len = 0, shell_init_done = 0\<rparr> = Some ex_shell" by code_simp
  have "table_ok \<lparr>shell_association = [], shell_max_cmd_len = 0, shell_init_done = 0\<rparr>" by (simp add: table_ok_def)
  from register_all_ok [OF this, of shell_commands] a show "table_ok ex_shell" by (simp add: shell_setup_def)
qed

theorem line_runs_command_witness:
  "shell_execute_cmd ex_shell ('' he  cat'' @ [NUL]) 0 = Some (Call \<lparr>sc_cmd = ''help'', sc_description = ''show a friendly help screen'', sc_cb = Shell_help\<rparr> [''he'', ''cat''])"
proof -
  have w: "words '' he  cat'' = [''he'', ''cat'']" by code_simp
  have f: "filter (\<lambda>c. prefix ''he'' (sc_cmd c)) (shell_association ex_shell) = [\<lparr>sc_cmd = ''help'', sc_description = ''show a friendly help screen'', sc_cb = Shell_help\<rparr>]"
    by (simp add: ex_shell_def shell_commands_def)
  have "str_at ('' he  cat'' @ [NUL]) 0 '' he  cat''" by simp
  from line_runs_command [OF shell_setup_ok(2) this w] show ?thesis unfolding w f by simp
qed

text \<open>A line of blanks: there is no first argument.\<close>

lemma blank_line_faults: "shell_execute_cmd ex_shell ('' '' @ [NUL]) 0 = None"
  by code_simp

section \<open>Reading and converting\<close>

definition atoi :: "string \<Rightarrow> u32" where
  "atoi s = foldl (\<lambda>n c. 10 * n + word_of_int (schar c - uchar (CHR ''0''))) 0 s"

text \<open>\<open>text\<close> is what \<^verbatim>\<open>cons_read\<close> stores; the scan for an end of line goes on behind it.\<close>

function to_newline :: "bytes \<Rightarrow> ptr \<Rightarrow> ptr option" where
  "to_newline m p = do { c \<leftarrow> ld m p; if c \<noteq> CHR 0x0A then to_newline m (p + 1) else Some p }"
  by pat_completeness auto
termination by (relation "measure (\<lambda>(m, p). length m - p)") auto

declare to_newline.simps [simp del]

definition readline :: "string \<Rightarrow> bytes \<Rightarrow> ptr \<Rightarrow> nat \<Rightarrow> (nat \<times> bytes) option" where
  "readline text m buf len = do {
     assert_that (buf + length text \<le> length m);
     let m = take buf m @ text @ drop (buf + length text) m;
     p \<leftarrow> to_newline m buf;
     m \<leftarrow> st m p NUL;
     Some (len, m) }"

section \<open>Commands\<close>

text \<open>What a command prints, and the kernel after its system calls.\<close>

type_synonym shell_result = "(string \<times> kstate) option"

definition ln :: "string \<Rightarrow> string" where
  "ln s = s @ [CHR 0x0A]"

text \<open>What the command uses of the processor and where its variables lie.\<close>

record shell_env =
  env_cpuid :: "u32 \<Rightarrow> u32 \<times> u32 \<times> u32 \<times> u32"
  env_stack :: u32
  env_rgb :: "u8 \<times> u8 \<times> u8"

fun help_lines :: "shell_command list \<Rightarrow> string option" where
  "help_lines [] = Some []"
| "help_lines (c # cs) = do {
     l \<leftarrow> doprnt (''%-16s %s'' @ [CHR 0x0A]) [AStr (Some (sc_cmd c)), AStr (Some (sc_description c))] 0;
     ls \<leftarrow> help_lines cs;
     Some (l @ ls) }"

text \<open>An unknown name is reported and its missing description printed all the same.\<close>

definition shell_help :: "shell_state \<Rightarrow> string list \<Rightarrow> kstate \<Rightarrow> shell_result" where
  "shell_help t argv s =
     (if length argv = 2 then do {
        let desc = map_option sc_description (find (\<lambda>c. sc_cmd c = argv ! 1) (shell_association t));
        l \<leftarrow> doprnt (''%s - %s'' @ [CHR 0x0A]) [AStr (Some (argv ! 0)), AStr desc] 0;
        Some ((if desc = None then ln ''Unknown command.'' else []) @ l, s) }
      else do { ls \<leftarrow> help_lines (shell_association t); Some (ln ''Available commands :'' @ ls, s) })"

definition reg_chars :: "u32 \<Rightarrow> string" where
  "reg_chars r = map (\<lambda>i. to_char (uint (drop_bit (8 * i) (r AND push_bit (8 * i) 0xff)))) [0..<4]"

definition shell_cpuid :: "shell_env \<Rightarrow> kstate \<Rightarrow> shell_result" where
  "shell_cpuid env s =
     (let (a, b, c, d) = env_cpuid env 0;
          brand = (\<lambda>q. let (a, b, c, d) = env_cpuid env q in reg_chars a @ reg_chars b @ reg_chars c @ reg_chars d)
      in Some (''CPU Vendor ID          <'' @ reg_chars b @ reg_chars d @ reg_chars c @ ln ''>'' @
           ''Processor Brand String <'' @ brand 0x80000002 @ brand 0x80000003 @ brand 0x80000004 @ ln ''>'', s))"

text \<open>An entry of the palette in a variable of the command, given to \<^verbatim>\<open>cons_ioctl\<close>.\<close>

definition set_palette :: "shell_env \<Rightarrow> u32 \<times> u32 \<times> u32 \<times> u32 \<Rightarrow> kstate \<Rightarrow> kstate option" where
  "set_palette env pal s =
     (let p = env_stack env; (i, r, g, b) = pal
      in cons_ioctl 0 p (env_rgb env) (s\<lparr>umem := (umem s)(p := i, p + 4 := r, p + 8 := g, p + 12 := b)\<rparr>))"

definition shell_palset :: "shell_env \<Rightarrow> string list \<Rightarrow> kstate \<Rightarrow> shell_result" where
  "shell_palset env argv s =
     (if length argv \<noteq> 5 then Some (ln ''Syntax : palset n r g b'', s)
      else do { s \<leftarrow> set_palette env (atoi (argv ! 1), atoi (argv ! 2), atoi (argv ! 3), atoi (argv ! 4)) s; Some ([], s) })"

definition themes :: "(string \<times> (u32 \<times> u32 \<times> u32 \<times> u32) \<times> (u32 \<times> u32 \<times> u32 \<times> u32)) list" where
  "themes = [(''amstrad'', (0, 0, 0, 63), (7, 63, 63, 0)), (''white'', (0, 63, 63, 63), (7, 0, 0, 0)),
     (''sky'', (0, 0, 0, 63), (7, 63, 63, 63)), (''default'', (0, 0, 0, 0), (7, 32, 32, 32))]"

definition theme_names :: string where
  "theme_names = concat (map (\<lambda>(n, _). n @ '' '') themes)"

definition shell_colortheme :: "shell_env \<Rightarrow> string list \<Rightarrow> kstate \<Rightarrow> shell_result" where
  "shell_colortheme env argv s =
     (if length argv \<noteq> 2 then Some (ln ''Usage : colortheme <name>'' @ ln theme_names, s)
      else case find (\<lambda>(n, _). n = argv ! 1) themes of
        Some (n, bg, fg) \<Rightarrow> do { s \<leftarrow> set_palette env fg s; s \<leftarrow> set_palette env bg s; Some ([], s) }
      | None \<Rightarrow> Some (ln ''No such theme, available themes are :'' @ ln theme_names, s))"

definition piano_keys :: "(char \<times> int) list" where
  "piano_keys = [(CHR ''q'', 100), (CHR ''z'', 101), (CHR ''s'', 102), (CHR ''e'', 103), (CHR ''d'', 104), (CHR ''f'', 105),
     (CHR ''t'', 106), (CHR ''g'', 107), (CHR ''y'', 108), (CHR ''h'', 109), (CHR ''u'', 110), (CHR ''j'', 111), (CHR ''k'', 112),
     (CHR ''o'', 113), (CHR ''l'', 114), (CHR ''p'', 115), (CHR ''m'', 116), (CHR ''n'', -1)]"

text \<open>A character is signed: those above 127 are looked up in front of the table.\<close>

definition piano_note :: "char \<Rightarrow> int option" where
  "piano_note c = (if schar c < 0 then None else Some (case map_of piano_keys c of Some n \<Rightarrow> n | None \<Rightarrow> 0))"

text \<open>The notes that the keys read one by one make it play.\<close>

fun piano_notes :: "string \<Rightarrow> int list option" where
  "piano_notes [] = None"
| "piano_notes (c # cs) = do {
     n \<leftarrow> piano_note c;
     if n = -1 then Some []
     else if n = 0 then piano_notes cs
     else map_option ((#) (n - 100)) (piano_notes cs) }"

definition shell_clear :: "string list \<Rightarrow> kstate \<Rightarrow> shell_result" where
  "shell_clear argv s = (if length argv \<noteq> 1 then Some (ln ''Usage : clear'', s) else map_option (Pair []) (clear s))"

section \<open>Commands on files\<close>

partial_function (option) list_dir :: "u32 \<Rightarrow> int \<Rightarrow> int \<Rightarrow> kstate \<Rightarrow> (string \<times> bool) option" where
  "list_dir dirp fd n s = do {
     (z, a, d) \<leftarrow> readdir fd dirp n s;
     if z = 0 then Some ([], True)
     else if z = -1 then do {
       l \<leftarrow> doprnt (''Error reading directory entry #%d'' @ [CHR 0x0A]) [AInt (word_of_int n)] 0;
       Some (l, False) }
     else do {
       e \<leftarrow> d;
       l \<leftarrow> doprnt (''%4d %s'' @ [CHR 0x0A]) [AInt (word_of_int (d_inode e)), AStr (Some (d_name e))] 0;
       (ls, ok) \<leftarrow> list_dir dirp fd (n + 1) s;
       Some (l @ ls, ok) } }"

text \<open>With an error the file stays open.\<close>

definition shell_ls :: "shell_env \<Rightarrow> string list \<Rightarrow> kstate \<Rightarrow> shell_result" where
  "shell_ls env argv s =
     (if length argv > 2 then Some (ln ''Usage : ls <filename>'', s)
      else do {
        (fd, s) \<leftarrow> open_file (if length argv = 2 then argv ! 1 else ''.'') s;
        if fd < 0 then Some (ln ''No such file or directory'', s)
        else do {
          (r, info) \<leftarrow> fstat fd s;
          if r < 0 then Some (ln ''Error in fstat'', s)
          else do {
            info \<leftarrow> info;
            name \<leftarrow> doprnt (''Name : %s'' @ [CHR 0x0A]) [AStr (Some (st_name info))] 0;
            inode \<leftarrow> doprnt (''Inode number : %d'' @ [CHR 0x0A]) [AInt (word_of_int (st_inode info))] 0;
            (rest, ok) \<leftarrow> (if st_type info = FS_FILE then Some (ln ''Type : file'', True)
              else do {
                (ls, ok) \<leftarrow> list_dir (env_stack env) fd 0 s;
                Some (ln ''Type : directory'' @ ln ''Contents :'' @ ls, ok) });
            if \<not> ok then Some (name @ inode @ rest, s)
            else do {
              (c, s) \<leftarrow> close fd s;
              Some (name @ inode @ rest @ (if c < 0 then ln ''Error closing file'' else []), s) } } } })"

definition shell_pwd :: "shell_env \<Rightarrow> kstate \<Rightarrow> shell_result" where
  "shell_pwd env s = do {
     (a, bytes) \<leftarrow> getcwd (env_stack env) (of_nat FS_NAME_MAX) s;
     if a \<noteq> 0 then do {
       assert_that (NUL \<in> set bytes);
       Some (ln (''WD : '' @ takeWhile (\<lambda>c. c \<noteq> NUL) bytes), s) }
     else Some (ln ''Error getting current working directory.'', s) }"

text \<open>With the wrong number of arguments the command goes on; without any, \<^verbatim>\<open>argv[1]\<close> is not initialised.\<close>

definition shell_cwd :: "string list \<Rightarrow> kstate \<Rightarrow> shell_result" where
  "shell_cwd argv s = do {
     assert_that (2 \<le> length argv);
     let usage = (if length argv \<noteq> 2 then ln ''Usage : cd <directory name>'' else []);
     (r, s) \<leftarrow> chdir (argv ! 1) s;
     Some (usage @ (if r = 0 then ln (''OK, CWD = '' @ argv ! 1) else ln ''Cannot chdir()''), s) }"

text \<open>The pieces of a file; a refused buffer address is a store through the null pointer.\<close>

partial_function (option) cat_loop :: "u32 \<Rightarrow> int \<Rightarrow> int \<Rightarrow> kstate \<Rightarrow> (string \<times> kstate) option" where
  "cat_loop buf fd max_count s = do {
     (z, a, bytes, s) \<leftarrow> read fd buf 64 s;
     if z = -1 then Some (ln ''Error reading file'', s)
     else if z = 0 then Some ([], s)
     else do {
       assert_that (a = buf);
       let out = take (nat z) bytes;
       if max_count - z \<le> 0 then Some (out, s)
       else do { (rest, s) \<leftarrow> cat_loop buf fd (max_count - z) s; Some (out @ rest, s) } } }"

definition shell_cat :: "shell_env \<Rightarrow> string list \<Rightarrow> kstate \<Rightarrow> shell_result" where
  "shell_cat env argv s =
     (if length argv > 3 \<or> length argv = 1 then Some (ln ''Usage : cat <filename> [max len]'', s)
      else do {
        let max_count = (if length argv = 3 then sint (atoi (argv ! 2)) else 65536);
        (fd, s) \<leftarrow> open_file (argv ! 1) s;
        if fd < 0 then Some (ln ''Error opening file'', s)
        else do {
          (out, s) \<leftarrow> cat_loop (env_stack env) fd max_count s;
          (c, s) \<leftarrow> close fd s;
          Some (out @ (if c \<noteq> 0 then ln ''Error closing file'' else ln []), s) } })"

definition shell_write_file :: "string list \<Rightarrow> kstate \<Rightarrow> shell_result" where
  "shell_write_file argv s =
     (if length argv \<noteq> 3 then Some (ln ''Usage : write <filename> <string>'', s)
      else do {
        (fd, s) \<leftarrow> open_file (argv ! 1) s;
        if fd < 0 then Some (ln ''Error opening file'', s)
        else do {
          (z, s) \<leftarrow> write_file fd (argv ! 2) s;
          (c, s) \<leftarrow> close fd s;
          Some ((if z = -1 then ln ''Error writing to file'' else if z = 0 then ln ''Error : EOF'' else []) @
            (if c \<noteq> 0 then ln ''Error closing file'' else []), s) } })"

text \<open>What a call ends with: a text and the kernel, or a command that leaves the shell for a process, the debugger or the kernel.\<close>

datatype shell_end = Printed string kstate | Leaves shell_callback "string list"

definition shell_call :: "shell_env \<Rightarrow> shell_state \<Rightarrow> shell_callback \<Rightarrow> string list \<Rightarrow> kstate \<Rightarrow> shell_end option" where
  "shell_call env t cb argv s =
     (let done = map_option (\<lambda>(out, s). Printed out s)
      in case cb of
        Shell_write_file \<Rightarrow> done (shell_write_file argv s) | Shell_cat \<Rightarrow> done (shell_cat env argv s)
      | Shell_cwd \<Rightarrow> done (shell_cwd argv s) | Shell_pwd \<Rightarrow> done (shell_pwd env s)
      | Shell_ls \<Rightarrow> done (shell_ls env argv s) | Shell_clear \<Rightarrow> done (shell_clear argv s)
      | Shell_colortheme \<Rightarrow> done (shell_colortheme env argv s) | Shell_palset \<Rightarrow> done (shell_palset env argv s)
      | Shell_cpuid \<Rightarrow> done (shell_cpuid env s) | Shell_help \<Rightarrow> done (shell_help t argv s)
      | _ \<Rightarrow> Some (Leaves cb argv))"

text \<open>One turn of the loop of \<^verbatim>\<open>shell_start\<close>: the prompt, the line that was read and what it leads to. The zero behind a line of 512 characters is stored outside of the buffer.\<close>

definition shell_turn :: "shell_env \<Rightarrow> shell_state \<Rightarrow> bytes \<Rightarrow> string \<Rightarrow> kstate \<Rightarrow> (string \<times> shell_end) option" where
  "shell_turn env t cmd line s = do {
     (a, bytes) \<leftarrow> getcwd (env_stack env) 32 s;
     assert_that (a \<noteq> 0 \<and> NUL \<in> set bytes);
     let prompt = '' [ '' @ takeWhile (\<lambda>c. c \<noteq> NUL) bytes @ '' ] % '';
     assert_that (length line < CMD_BUF_SIZE \<and> length cmd = CMD_BUF_SIZE);
     let cmd = line @ NUL # drop (length line + 1) cmd;
     req \<leftarrow> shell_execute_cmd t cmd 0;
     r \<leftarrow> (case req of
        Nothing \<Rightarrow> Some (Printed [] s)
      | Message out \<Rightarrow> Some (Printed out s)
      | Call c argv \<Rightarrow> shell_call env t (sc_cb c) argv s);
     Some (prompt, r) }"

section \<open>Showing a file\<close>

lemma upd_fd_twice:
  assumes "cur_fd fd s = Some d"
  shows "upd_fd fd f (upd_fd fd g s) = upd_fd fd (\<lambda>d. f (g d)) s"
proof -
  have "nat fd < length (p_file_desc (tab_proc s (pid_cour s)))" using assms unfolding cur_fd_ok by (simp add: fd_ok_def)
  then show ?thesis by (simp add: upd_fd_def upd_proc_def)
qed

lemma cat_loop_text:
  assumes "is_pointer_userspace buf"
  shows "text_file np txt s \<Longrightarrow> cur_fd fd s = Some d \<Longrightarrow> f_node d = Some np \<Longrightarrow> f_offset d = of_nat k \<Longrightarrow> k \<le> length txt \<Longrightarrow>
    0 < max_count \<Longrightarrow> int (length txt - k) \<le> max_count \<Longrightarrow>
    \<exists>off. cat_loop buf fd max_count s = Some (drop k txt, upd_fd fd (\<lambda>d. d\<lparr>f_offset := off d\<rparr>) s)"
proof (induction "length txt - k" arbitrary: k s d max_count rule: less_induct)
  case less
  let ?piece = "take 64 (drop k txt)"
  let ?n = "length ?piece"
  let ?t = "upd_fd fd (\<lambda>d. d\<lparr>f_offset := f_offset d + of_nat ?n\<rparr>) s"
  have p: "check_pointer buf SYSCALL_READ s = buf" "buf \<noteq> 0" using assms by (auto simp: check_pointer_def is_pointer_userspace_def)
  have "unat (64 :: u32) = 64" by simp
  then have rd: "read fd buf 64 s = Some (int ?n, buf, ?piece, ?t)" using read_text [OF less.prems(1-5), of buf 64] p(2) unfolding p(1) by (simp only:) blast
  note loop = cat_loop.simps [of buf fd max_count s]
  consider "k = length txt" | "k < length txt" "max_count - int ?n \<le> 0" | "k < length txt" "0 < max_count - int ?n" using less.prems(5) by linarith
  then show ?case
  proof cases
    case 1
    then have "cat_loop buf fd max_count s = Some (drop k txt, ?t)" unfolding loop rd by simp
    then show ?thesis by (intro exI [of _ "\<lambda>d. f_offset d + of_nat ?n"])
  next
    case 2
    have n: "0 < ?n" using 2(1) by simp
    have "length (drop k txt) \<le> 64" using 2(2) less.prems(7) n by (simp add: min_def split: if_splits)
    then have pc: "?piece = drop k txt" by simp
    have c: "cat_loop buf fd max_count s = Some (?piece, ?t)" unfolding loop rd using n 2(2) by (simp add: min_def)
    show ?thesis using c unfolding pc by (intro exI [of _ "\<lambda>d. f_offset d + of_nat (length (drop k txt))"])
  next
    case 3
    have n: "0 < ?n" "?n \<le> length txt - k" using 3(1) by simp_all
    have d: "cur_fd fd ?t = Some (d\<lparr>f_offset := f_offset d + of_nat ?n\<rparr>)" by (rule cur_fd_upd [OF less.prems(2)])
    have "\<exists>off. cat_loop buf fd (max_count - int ?n) ?t = Some (drop (k + ?n) txt, upd_fd fd (\<lambda>d. d\<lparr>f_offset := off d\<rparr>) ?t)"
    proof (rule less.hyps)
      show "length txt - (k + ?n) < length txt - k" using n by linarith
      show "text_file np txt ?t" using less.prems(1) by simp
      show "cur_fd fd ?t = Some (d\<lparr>f_offset := f_offset d + of_nat ?n\<rparr>)" by (rule d)
      show "f_offset (d\<lparr>f_offset := f_offset d + of_nat ?n\<rparr>) = of_nat (k + ?n)" using less.prems(4) by simp
    qed (use less.prems(3,7) n 3 in \<open>auto\<close>)
    then obtain off where r: "cat_loop buf fd (max_count - int ?n) ?t = Some (drop (k + ?n) txt, upd_fd fd (\<lambda>d. d\<lparr>f_offset := off d\<rparr>) ?t)" by blast
    have "?piece @ drop (k + ?n) txt = drop k txt" by (metis append_take_drop_id drop_drop add.commute append_eq_conv_conj)
    moreover have "upd_fd fd (\<lambda>d. d\<lparr>f_offset := off d\<rparr>) ?t = upd_fd fd (\<lambda>d. d\<lparr>f_offset := off (d\<lparr>f_offset := f_offset d + of_nat ?n\<rparr>)\<rparr>) s"
      unfolding upd_fd_twice [OF less.prems(2)] by simp
    moreover have "cat_loop buf fd max_count s = Some (?piece @ drop (k + ?n) txt, upd_fd fd (\<lambda>d. d\<lparr>f_offset := off d\<rparr>) ?t)"
      unfolding loop rd using n 3(2) r by (simp add: min_def)
    ultimately show ?thesis by (intro exI [of _ "\<lambda>d. off (d\<lparr>f_offset := f_offset d + of_nat ?n\<rparr>)"]) simp
  qed
qed

lemma close_opened:
  assumes "first_free i t" and "s = upd_fd (int i) (\<lambda>d. d\<lparr>f_present := 1, f_node := Some np, f_offset := off d\<rparr>) t"
  shows "\<exists>s'. close (int i) s = Some (0, s') \<and> first_free i s' \<and> (\<forall>j. j \<noteq> i \<longrightarrow> cur_fd (int j) s' = cur_fd (int j) t)"
proof -
  let ?u = "snd (close_fs np s)"
  let ?s' = "upd_fd (int i) (\<lambda>d. d\<lparr>f_present := 0, f_node := None\<rparr>) ?u"
  obtain d where d: "cur_fd (int i) t = Some d" using first_free_fd [OF assms(1)] by simp
  have fd: "cur_fd (int i) s = Some (d\<lparr>f_present := 1, f_node := Some np, f_offset := off d\<rparr>)" unfolding assms(2) by (rule cur_fd_upd [OF d])
  have u: "cur_fd k ?u = cur_fd k s" for k using close_fs_frame [of np s] by (intro cur_fd_cong)
  have "close (int i) s = Some (0, ?s')" using fd u [of "int i"] close_fs_frame(1) [of np s] by (simp add: close_def fd_free_def split_def)
  moreover have "first_free i ?s'" using assms(1) close_fs_frame [of np s] by (auto simp: first_free_def upd_fd_def assms(2))
  moreover have "cur_fd (int j) ?s' = cur_fd (int j) t" if "j \<noteq> i" for j
    using that u [of "int j"] by (simp add: cur_fd_upd_other assms(2))
  ultimately show ?thesis by blast
qed

text \<open>
  C40. \<open>cat\<close> shows a file: for a name that leads to a file with a fixed contents of at most 65536 characters, which can be opened, it prints exactly the contents and an end of
  line, piece by piece, then closes the file again: the descriptor it took is free and the other descriptors are as before.
\<close>

theorem cat_prints_file:
  assumes "vfs_path_resolution name s = Some (Some np)" and "open_fs np s = Some (r, t)" and "first_free i s"
    and "text_file np txt t" and "length txt \<le> 65536" and "is_pointer_userspace (env_stack env)"
  shows "\<exists>s'. shell_cat env [cmd, name] s = Some (txt @ [CHR 0x0A], s') \<and> first_free i s' \<and>
    (\<forall>j. j \<noteq> i \<longrightarrow> cur_fd (int j) s' = cur_fd (int j) s)"
proof -
  note fr = open_fs_frame [OF assms(2)]
  have ff: "first_free i t" using assms(3) fr by (simp add: first_free_def)
  let ?a = "upd_fd (int i) (\<lambda>d. d\<lparr>f_present := 1, f_node := Some np\<rparr>) t"
  let ?o = "upd_fd (int i) (\<lambda>d. d\<lparr>f_offset := 0\<rparr>) ?a"
  have op: "open_file name s = Some (int i, ?o)" using assms(1,2) fr fd_alloc_first [OF ff, of np] by (simp add: open_file_def)
  obtain d where d: "cur_fd (int i) t = Some d" using first_free_fd [OF ff] by simp
  have fd: "cur_fd (int i) ?o = Some \<lparr>f_present = 1, f_node = Some np, f_offset = 0\<rparr>"
    using cur_fd_upd [OF cur_fd_upd [OF d]] by (cases d) simp
  obtain off where lo: "cat_loop (env_stack env) (int i) 65536 ?o = Some (drop 0 txt, upd_fd (int i) (\<lambda>d. d\<lparr>f_offset := off d\<rparr>) ?o)"
    using cat_loop_text [OF assms(6) _ fd, of np "txt" 0 65536] assms(4,5) by auto
  define e where "e = upd_fd (int i) (\<lambda>d. d\<lparr>f_offset := off d\<rparr>) ?o"
  have es: "e = upd_fd (int i) (\<lambda>d. d\<lparr>f_present := 1, f_node := Some np, f_offset := off (d\<lparr>f_present := 1, f_node := Some np, f_offset := 0\<rparr>)\<rparr>) t"
    unfolding e_def by (simp add: upd_fd_twice [OF cur_fd_upd [OF d]] upd_fd_twice [OF d])
  obtain s' where c: "close (int i) e = Some (0, s')" "first_free i s'"
    "\<forall>j. j \<noteq> i \<longrightarrow> cur_fd (int j) s' = cur_fd (int j) t" using close_opened [OF ff es] by blast
  have "shell_cat env [cmd, name] s = Some (txt @ [CHR 0x0A], s')"
    using op lo c(1) by (simp add: shell_cat_def ln_def e_def)
  moreover have "cur_fd (int j) t = cur_fd (int j) s" for j using fr by (intro cur_fd_cong) simp_all
  ultimately show ?thesis using c(2,3) by simp
qed

definition ex_cat :: kstate where
  "ex_cat = ex_open\<lparr>fs_nodes := (\<lambda>np. ex_node\<lparr>n_inode := 3201, n_read := Some Procfs_name_read\<rparr>),
     tab_proc := (\<lambda>p. (tab_proc ex_open p)\<lparr>p_name := ''Init''\<rparr>)\<rparr>"

definition ex_env :: shell_env where
  "ex_env = \<lparr>env_cpuid = (\<lambda>_. (0, 0, 0, 0)), env_stack = 0x2000000, env_rgb = (0, 0, 0)\<rparr>"

theorem cat_prints_file_witness:
  "\<exists>s'. shell_cat ex_env [''cat'', ''/''] ex_cat = Some (''Init'' @ [CHR 0x0A], s') \<and> first_free 2 s'"
proof -
  have p: "vfs_path_resolution ''/'' ex_cat = Some (Some vfs_root)" by (simp add: vfs_path_resolution_def)
  have o: "open_fs vfs_root ex_cat = Some (0, ex_cat)" by (simp add: open_fs_def ex_cat_def ex_open_def ex_cons_def ex_node_def)
  have f: "first_free 2 ex_cat"
    by (simp add: first_free_def ex_cat_def ex_open_def ex_cons_def in_tab_def NBPROC_def DTABLESIZE_def less_2_cases_iff)
  have t: "text_file vfs_root ''Init'' ex_cat"
    using text_files(1) [of ex_cat vfs_root] by (simp add: ex_cat_def in_tab_def NBPROC_def)
  have e: "is_pointer_userspace (env_stack ex_env)" by (simp add: is_pointer_userspace_def ex_env_def)
  show ?thesis using cat_prints_file [OF p o f t _ e, of "''cat''"] by auto
qed

section \<open>Requests outside of what the code expects\<close>

text \<open>\<^verbatim>\<open>cons_read\<close> stores no end of line: \<^verbatim>\<open>readline\<close> finds one behind what was read, or none.\<close>

lemma readline_past_end:
  "readline ''ls'' (replicate 8 CHR ''x'') 0 8 = None"
  "readline ''ls'' (replicate 5 NUL @ [CHR 0x0A, CHR ''y'']) 0 4 = Some (4, ''ls'' @ replicate 4 NUL @ ''y'')"
  by code_simp+

lemma cd_without_argument: "shell_cwd [''cd''] s = None"
  by (simp add: shell_cwd_def)

lemma piano_accent: "piano_notes (CHR 0xe9 # keys) = None"
  by (simp add: piano_note_def schar_def uchar_def)

lemma help_unknown: "shell_help ex_shell [''help'', ''x''] s = Some (''Unknown command.'' @ [CHR 0x0A] @ ''help - '' @ [CHR 0x0A], s)"
proof -
  have "doprnt (''%s - %s'' @ [CHR 0x0A]) [AStr (Some ''help''), AStr None] 0 = Some (''help - '' @ [CHR 0x0A])" by code_simp
  moreover have "find (\<lambda>c. sc_cmd c = ''x'') (shell_association ex_shell) = None" by code_simp
  ultimately show ?thesis by (simp add: shell_help_def ln_def)
qed

lemma long_line_overflows: "512 \<le> length line \<Longrightarrow> shell_turn env t cmd line s = None"
  by (auto simp: shell_turn_def CMD_BUF_SIZE_def bind_eq_None_conv)

end
