(* ===== verification/Spec2Isabelle.thy ===== *)
theory Spec2Isabelle
  imports Div64 Keyboard_irq Boot Debugger Shell
begin

text \<open>
  Verification of the psys kernel, a small multitasking kernel for the i386 written in C
  (\<^verbatim>\<open>src/kernel\<close>, with the C library in \<^verbatim>\<open>src/shared\<close>).

  \<^bold>\<open>The program.\<close> \<^verbatim>\<open>kernel_start\<close> sets up interrupts, consoles, semaphores, the file system, the table of processes
  with Init as its first process, and the clock. From then on the kernel runs in interrupts and system calls. At most
  twenty processes, kept in \<^verbatim>\<open>tab_proc\<close>, share the processor: those that can run are in a queue ordered by
  priority and by arrival, the others wait for a semaphore, for input, for a child or for the clock. Processes form a tree; one that
  ends stays as a zombie until its father has waited for it. Files are nodes with callbacks.

  \<^bold>\<open>How it is modelled.\<close> The global variables of the kernel are the record \<open>kstate\<close> of theory \<open>Kstate\<close>; an operation is a function
  from state to state. \<open>None\<close> is a fault: a null pointer followed (the first page is not mapped, \<^verbatim>\<open>setup_pgtab\<close> in \<^verbatim>\<open>crt0.S\<close>; a pointer that \<open>check_pointer\<close>
  refuses is null), an access out of bounds, a failed assertion. A system call
  that blocks ends with the switch to another process; what it does when it runs again is a definition of its own, with
  the suffix \<open>_resume\<close>. Integers have the width of the code where it matters (\<open>u32\<close>, \<open>u16\<close>, \<open>u8\<close>). Code that is not
  under \<^verbatim>\<open>src\<close>, the hardware and the assembly routines are arguments (bytes read from ports, addresses of entry points,
  contents of fresh memory) or, for the allocator, the sequence \<open>allocs\<close> of its answers.

  \<^bold>\<open>The theories.\<close>
  \<^item> \<open>Prelude\<close>: collections of facts, types of words, lemmas on options and words.
  \<^item> \<open>Klist\<close> (\<^verbatim>\<open>kernel/list.c\<close>): linked lists over a heap of blocks, related to sequences; order of service, deletion, release of memory.
  \<^item> \<open>Pqueue\<close> (\<^verbatim>\<open>shared/queue.h\<close>): the doubly linked priority queue; it refines the sorted insertion into a list.
  \<^item> \<open>Cpu\<close> (\<^verbatim>\<open>kernel/processor_structs.c\<close>): descriptors and gates; reading back what was written.
  \<^item> \<open>Kstate\<close>, \<open>Signals\<close>, \<open>Sched\<close> (\<^verbatim>\<open>kernel/context.h\<close>, \<^verbatim>\<open>signals.c\<close>, \<^verbatim>\<open>context.c\<close>): the state, pending signals, the scheduler
    with its invariant (the ready queue holds exactly the activable processes), choice of a process of maximal priority, round robin.
  \<^item> \<open>Semaphore\<close> (\<^verbatim>\<open>kernel/semaphore.c\<close>): counters and waiting lists, with the invariant that ties the counter to the number of
    blocked processes; the oldest process is woken first, whatever the priorities (the behaviour of the code, which its documentation calls an error).
  \<^item> \<open>Timer\<close> (\<^verbatim>\<open>kernel/timer.c\<close>): sleeping and the clock interrupt.
  \<^item> \<open>Sys\<close> (\<^verbatim>\<open>kernel/sys.c\<close>): exit, kill, waitpid, priorities; the tree of processes and its invariant; the end of a process.
  \<^item> \<open>Kstring\<close>, \<open>Strtol\<close>, \<open>Doprnt\<close>, \<open>Printf\<close>, \<open>Div64\<close> (\<^verbatim>\<open>src/shared\<close>): the C library over a memory of bytes; strings, numbers,
    formatted output and the division of 64-bit numbers.
  \<^item> \<open>Console\<close>, \<open>Line_input\<close> (\<^verbatim>\<open>kernel/console.c\<close>): the ring buffer as a bounded queue, round the end of its array
    when it is filled and up to its end when it is emptied (where the code reads behind it), the screen stays in bounds, a typed line
    reaches its reader.
  \<^item> \<open>Keymap\<close>, \<open>Keyboard\<close>, \<open>Typing\<close> (\<^verbatim>\<open>kernel/kbd_linux\<close>, \<^verbatim>\<open>keyboard-glue.c\<close>): key maps, decoding of scan codes, key handlers, modifiers and
    lights; no byte of the keyboard makes the driver fault, and what is typed is what it hands to the console.
  \<^item> \<open>Keyboard_irq\<close> (\<^verbatim>\<open>handle_int33\<close> in \<^verbatim>\<open>kernel/console.c\<close>): the keyboard interrupt, from the keys of a line to the process that reads it.
  \<^item> \<open>Vfs\<close> (\<^verbatim>\<open>kernel/vfs.c\<close>): path resolution as a walk, the initial tree, reading in pieces, descriptors.
  \<^item> \<open>Context\<close> (\<^verbatim>\<open>kernel/context.c\<close>, \<^verbatim>\<open>start.c\<close>): creation of processes and start of the kernel.
  \<^item> \<open>Devices\<close> (\<^verbatim>\<open>kernel/buzzer.c\<close>, \<^verbatim>\<open>serial.c\<close>): the speaker and the serial port.
  \<^item> \<open>Syscalls\<close> (\<^verbatim>\<open>kernel/syscall_handlers.c\<close>, \<^verbatim>\<open>int49.S\<close>): the tables of system calls; results, those in \<open>umem\<close> included, go to user space only
    (\<^verbatim>\<open>fstat\<close> excepted), a call that fails changes nothing.
  \<^item> \<open>Machine\<close>: the kernel as a state machine (\<open>kstep\<close>): system calls of the running process, the rest of calls that had blocked and clock
    interrupts, in any order. The invariants of scheduler, semaphores and process tree, together with what a process inside a call relies on,
    hold in all reachable states; no step faults, and the running process always has the greatest priority. The value a process exits with waits for its father
    through any sequence of steps of the others.
  \<^item> \<open>Boot\<close> (\<^verbatim>\<open>kernel/start.c\<close>): from the state the loader leaves, the initialisation ends with Init ready, the first clock interrupt
    gives it the processor, and the state machine starts there.
  \<^item> \<open>Gdb_packet\<close>, \<open>Gdb_memory\<close>, \<open>Gdb\<close> (\<^verbatim>\<open>kernel/gdb_serial.c\<close>, \<^verbatim>\<open>gdb_serial_support.c\<close>): the debugger stub: packets on a line that may damage them, memory
    through the page tables, commands and the conversation; what the debugger writes it reads back.
  \<^item> \<open>Debugger\<close> (\<^verbatim>\<open>kernel/debugger.c\<close>): the handler of exceptions: the interrupted task, its registers on the screen, the keys, the debugger. Screen
    and task segments lie in the memory \<open>g_mem\<close> that the debugger reads and writes; the form shows each register behind its label, the pictures leave no trace, and
    the registers that a conversation leaves are those of the segment.
  \<^item> \<open>Shell\<close> (\<^verbatim>\<open>user/shell.c\<close>): the command interpreter: words of a line, the command that a prefix stands for, the commands on files and on the terminal
    over the system calls of \<open>Vfs\<close> and \<open>Console\<close>.

  \<^bold>\<open>Interfaces.\<close> The locales \<open>prio_queue\<close> (theory \<open>Pqueue\<close>) and \<open>line_buffer\<close> (theory \<open>Console\<close>) state what the scheduler and the consoles
  rely on, and are interpreted on the code of the queue and of the ring buffer. The invariant \<open>kinv\<close> joins scheduler, signals and semaphores,
  \<open>tree_inv\<close> is the tree of processes; each operation is shown to keep those that it touches.

  \<^bold>\<open>Loops.\<close> Loops over memory end because an access outside the memory is a fault; their measure is the distance to the
  end. The search in the ready queue may run forever on a broken queue, \<open>queue_scan\<close> is then \<open>None\<close>; on a queue that represents a list it is
  shown to return. What the debugger and the shell receive is a finite text, which their loops use up; the loops over a directory and over a file
  (\<open>list_dir\<close>, \<open>cat_loop\<close>) may run forever and are then \<open>None\<close>, and \<open>cat\<close> is shown to end. No fuel is used.

  \<^bold>\<open>Hypotheses.\<close> The theorems on the scheduler assume that no signal is pending (\<open>no_sigs\<close>): \<open>trt_sigs\<close> takes the saved registers from behind the
  kernel stack of a process (250000 elements against 10000), so that the scheduler faults on a pending signal. Those that allocate assume that the allocator has the
  blocks (\<open>usable_blocks\<close>). The calls of the state machine are those of \<open>core_call\<close>: on semaphores, the clock and processes, but without \<^verbatim>\<open>kill\<close> and
  signals, which break the invariants, without \<^verbatim>\<open>exit\<close> of Init, \<^verbatim>\<open>getprio\<close> of a negative PID and \<^verbatim>\<open>chprio\<close> outside of the table (accesses out of bounds), with \<^verbatim>\<open>start\<close>
  under \<open>can_start\<close> and 21 usable blocks. Console input, which may put a process into the queue twice, and the calls on files, which do not touch the invariants, are no steps.

  \<^bold>\<open>Not modelled.\<close> The allocator (\<^verbatim>\<open>shared/malloc.c.h\<close>, third-party code), the assembly routines, the floppy (\<^verbatim>\<open>floppy_init\<close> returns at once), the commands of
  the shell that start processes, and the test programs. Text that the kernel prints while it runs, except where a function returns it, is left out.
\<close>

end
